(* ===== verification/N00b_Prelude.thy ===== *)
theory N00b_Prelude
  imports "HOL-Library.Word" "HOL-Library.Multiset"
begin

unbundle bit_operations_syntax

text \<open>
  Shared ground of the development: the outcome type of fallible C code, unsigned 64-bit
  arithmetic on natural numbers with the wrap-around written out, and the generic facts on
  bit masks, lists and sorted lists that the component theories use.

  \<^item> An operation that can panic, run into undefined behaviour or reach a point the source
    marks unreachable returns \<open>c_error + 'a\<close>, with \<open>Inl\<close> for the failure.
  \<^item> A \<^verbatim>\<open>uint64_t\<close> is a natural number below \<open>2 ^ 64\<close>; \<open>wrap64\<close> is applied where the C
    expression may leave that range, so wrap-around is visible in the model.
  \<^item> A \<^verbatim>\<open>void *\<close> is a 64-bit word, with \<open>0\<close> for \<^verbatim>\<open>NULL\<close>.
\<close>

section \<open>Types\<close>

type_synonym ptr = "64 word"

datatype c_error =
    Panic string          \<comment> \<open>a call of \<^verbatim>\<open>hatrack_panic\<close>\<close>
  | Unreachable           \<comment> \<open>\<^verbatim>\<open>__builtin_unreachable()\<close> is reached\<close>
  | OutOfBounds           \<comment> \<open>an array or buffer access outside the object\<close>
  | Uninit                \<comment> \<open>uninitialised memory is handed to the caller\<close>
  | UseAfterFree          \<comment> \<open>freed memory is read or freed again\<close>
  | NullDeref             \<comment> \<open>a null pointer is dereferenced\<close>
  | BadShift              \<comment> \<open>a shift count the C standard leaves undefined\<close>
  | ExitCall int          \<comment> \<open>the process calls \<^verbatim>\<open>exit\<close>\<close>

type_synonym 'a outcome = "c_error + 'a"

definition wrap64 :: "nat \<Rightarrow> nat" where
  "wrap64 n = n mod 2 ^ 64"

definition and_then :: "'a outcome \<Rightarrow> ('a \<Rightarrow> 'b outcome) \<Rightarrow> 'b outcome" where
  "and_then r f = (case r of Inl e \<Rightarrow> Inl e | Inr x \<Rightarrow> f x)"

definition read_at :: "'a list \<Rightarrow> nat \<Rightarrow> 'a outcome" where
  "read_at xs i = (if i < length xs then Inr (xs ! i) else Inl OutOfBounds)"

text \<open>Conversion of an integer to \<^verbatim>\<open>int16_t\<close> and \<^verbatim>\<open>int32_t\<close>: the low bits, signed.\<close>

definition cast16 :: "int \<Rightarrow> int" where
  "cast16 i = signed_take_bit 15 i"

definition cast32 :: "int \<Rightarrow> int" where
  "cast32 i = signed_take_bit 31 i"

named_theorems outcome_simps \<open>rewriting of outcomes of fallible operations\<close>
named_theorems wrap_simps \<open>removal of 64-bit wrap-around on values in range\<close>

section \<open>Outcomes\<close>

lemma and_then_Inl [simp]: "and_then (Inl e) f = Inl e"
  by (simp add: and_then_def)

lemma and_then_Inr [simp]: "and_then (Inr x) f = f x"
  by (simp add: and_then_def)

lemma and_then_cong [fundef_cong]:
  assumes "r = r'" "\<And>x. r' = Inr x \<Longrightarrow> f x = g x"
  shows "and_then r f = and_then r' g"
  using assms by (cases r') auto

lemma and_then_eq_Inr [outcome_simps]:
  "and_then r f = Inr y \<longleftrightarrow> (\<exists>x. r = Inr x \<and> f x = Inr y)"
  by (cases r) auto

lemma read_at_in [simp]: "i < length xs \<Longrightarrow> read_at xs i = Inr (xs ! i)"
  by (simp add: read_at_def)

lemma read_at_eq_Inr [outcome_simps]:
  "read_at xs i = Inr x \<longleftrightarrow> i < length xs \<and> xs ! i = x"
  by (auto simp: read_at_def)

section \<open>Narrowing conversions\<close>

lemma cast16_id [wrap_simps]: "- (2 ^ 15) \<le> i \<Longrightarrow> i < 2 ^ 15 \<Longrightarrow> cast16 i = i"
  by (simp add: cast16_def signed_take_bit_int_eq_self)

lemma cast32_id [wrap_simps]: "- (2 ^ 31) \<le> i \<Longrightarrow> i < 2 ^ 31 \<Longrightarrow> cast32 i = i"
  by (simp add: cast32_def signed_take_bit_int_eq_self)

section \<open>64-bit wrap-around and bit masks\<close>

lemma wrap64_id [wrap_simps]: "n < 2 ^ 64 \<Longrightarrow> wrap64 n = n"
  by (simp add: wrap64_def)

lemma wrap64_less: "wrap64 n < 2 ^ 64"
  by (simp add: wrap64_def)

lemma and_mask_nat: "(x::nat) AND (2 ^ k - 1) = x mod 2 ^ k"
  using take_bit_eq_mask [of k x] by (simp add: take_bit_eq_mod mask_eq_exp_minus_1)

lemma wrap64_add_mult: "wrap64 (a + c * 2 ^ 64) = wrap64 a"
  by (simp only: wrap64_def mod_mult_self1)

lemma drop_bit_1_nat: "drop_bit (Suc 0) (n::nat) = n div 2"
  by (simp add: drop_bit_eq_div)

lemma drop_bit_2_nat: "drop_bit 2 (n::nat) = n div 4"
  by (simp add: drop_bit_eq_div)

lemma push_bit_1_nat: "push_bit (Suc 0) (n::nat) = 2 * n"
  by (simp add: push_bit_eq_mult)

lemmas shift_simps = drop_bit_1_nat drop_bit_2_nat push_bit_1_nat

section \<open>Lists\<close>

lemma length_filter_update:
  assumes "i < length xs"
  shows "length (filter P (xs[i := y])) + (if P (xs ! i) then 1 else 0)
       = length (filter P xs) + (if P y then 1 else 0)"
  using assms
proof (induction xs arbitrary: i)
  case Nil
  then show ?case by simp
next
  case (Cons x xs)
  then show ?case by (cases i) auto
qed

lemma filter_update_dead: "\<lbrakk>\<not> P (xs ! i); \<not> P y\<rbrakk> \<Longrightarrow> filter P (xs[i := y]) = filter P xs"
  by (induction xs arbitrary: i) (auto split: nat.splits)

lemma map_update_eq: "f y = f (xs ! i) \<Longrightarrow> i < length xs \<Longrightarrow> map f (xs[i := y]) = map f xs"
  by (metis list_update_id map_update nth_map)

lemma length_filter_mono:
  "(\<And>x. x \<in> set xs \<Longrightarrow> P x \<Longrightarrow> Q x) \<Longrightarrow> length (filter P xs) \<le> length (filter Q xs)"
proof (induction xs)
  case (Cons x xs)
  then have "length (filter P xs) \<le> length (filter Q xs)" "P x \<Longrightarrow> Q x" by auto
  then show ?case by simp
qed simp

lemma filter_length_lt_exists:
  assumes "length (filter P xs) < length xs"
  obtains i where "i < length xs" "\<not> P (xs ! i)"
  using assms
  by (metis filter_True in_set_conv_nth less_irrefl_nat)

lemma mset_filter_update:
  assumes "i < length xs"
  shows "mset (filter P (xs[i := y])) + (if P (xs ! i) then {#xs ! i#} else {#})
       = mset (filter P xs) + (if P y then {#y#} else {#})"
  using assms
proof (induction xs arbitrary: i)
  case Nil
  then show ?case by simp
next
  case (Cons x xs)
  show ?case
  proof (cases i)
    case 0
    then show ?thesis by simp
  next
    case (Suc n)
    with Cons.prems Cons.IH [of n] show ?thesis by (auto split: if_splits)
  qed
qed

lemma distinct_map_filter_inj_on:
  "distinct (map g (filter P xs)) \<longleftrightarrow> inj_on (\<lambda>i. g (xs ! i)) {i. i < length xs \<and> P (xs ! i)}"
proof (induction xs rule: rev_induct)
  case Nil
  then show ?case by simp
next
  case (snoc x xs)
  let ?I = "{i. i < length xs \<and> P (xs ! i)}"
  have I: "{i. i < length (xs @ [x]) \<and> P ((xs @ [x]) ! i)} =
      (if P x then insert (length xs) ?I else ?I)"
    by (auto simp: nth_append less_Suc_eq)
  have inj: "inj_on (\<lambda>i. g ((xs @ [x]) ! i)) ?I = inj_on (\<lambda>i. g (xs ! i)) ?I"
    by (rule inj_on_cong) (simp add: nth_append)
  have img: "(\<lambda>i. g ((xs @ [x]) ! i)) ` ?I = g ` set (filter P xs)"
    by (auto simp: nth_append in_set_conv_nth image_iff)
  have notin: "?I - {length xs} = ?I" by auto
  show ?case
    unfolding I
    by (cases "P x") (simp_all only: if_True if_False inj_on_insert notin inj img, simp_all add: snoc)
qed

lemma distinct_map_filter_iff:
  "distinct (map g (filter P xs)) \<longleftrightarrow>
     (\<forall>i j. i < length xs \<longrightarrow> j < length xs \<longrightarrow> P (xs ! i) \<longrightarrow> P (xs ! j) \<longrightarrow>
            g (xs ! i) = g (xs ! j) \<longrightarrow> i = j)"
  unfolding distinct_map_filter_inj_on inj_on_def by blast

lemma disjoint_insert_subset: "\<lbrakk>X \<subseteq> insert c Y; c \<notin> A; A \<inter> Y = {}\<rbrakk> \<Longrightarrow> A \<inter> X = {}"
  by blast

section \<open>One thread alone\<close>

text \<open>
  Operations on shared data are step functions: a program point with its live locals and the shared state
  give the next state, and the next point or the result. \<open>run_alone\<close> iterates the steps of one thread that no
  other disturbs; \<open>None\<close> is running for ever.
\<close>

partial_function (option) run_alone ::
  "('pc \<Rightarrow> 's \<Rightarrow> 's \<times> ('pc + 'r)) \<Rightarrow> 'pc \<Rightarrow> 's \<Rightarrow> ('s \<times> 'r) option" where
  [code]: "run_alone step pc self =
     (let (self', next) = step pc self
      in case next of Inr r \<Rightarrow> Some (self', r) | Inl pc' \<Rightarrow> run_alone step pc' self')"

lemma run_next: "step pc s = (s', Inl pc') \<Longrightarrow> run_alone step pc s = run_alone step pc' s'"
  by (subst run_alone.simps) simp

lemma run_done: "step pc s = (s', Inr r) \<Longrightarrow> run_alone step pc s = Some (s', r)"
  by (subst run_alone.simps) simp

definition returns :: "('pc \<Rightarrow> 's \<Rightarrow> 's \<times> ('pc + 'r)) \<Rightarrow> 'pc \<Rightarrow> 's \<Rightarrow> bool" where
  "returns step pc s \<longleftrightarrow> run_alone step pc s \<noteq> None"

lemma returns_next: "step pc s = (s', Inl pc') \<Longrightarrow> returns step pc' s' \<Longrightarrow> returns step pc s"
  unfolding returns_def by (simp add: run_next)

lemma returns_done: "step pc s = (s', Inr r) \<Longrightarrow> returns step pc s"
  unfolding returns_def by (simp add: run_done)

text \<open>A step that can fail ends the operation with the failure.\<close>

definition or_fail ::
  "'s \<Rightarrow> 'a outcome \<Rightarrow> ('a \<Rightarrow> 's \<times> ('pc + 'r outcome)) \<Rightarrow> 's \<times> ('pc + 'r outcome)" where
  "or_fail st r f = (case r of Inl e \<Rightarrow> (st, Inr (Inl e)) | Inr x \<Rightarrow> f x)"

lemma or_fail_Inr [simp]: "or_fail st (Inr x) f = f x"
  by (simp add: or_fail_def)

lemma or_fail_Inl [simp]: "or_fail st (Inl e) f = (st, Inr (Inl e))"
  by (simp add: or_fail_def)

text \<open>An operation that calls another: the steps of the call under a point of the caller.\<close>

definition call_step ::
  "('q \<Rightarrow> 'pc) \<Rightarrow> ('a \<Rightarrow> 'pc) \<Rightarrow> 's \<times> ('q + 'a outcome) \<Rightarrow> 's \<times> ('pc + 'r outcome)" where
  "call_step at back r =
     (case r of
        (s, Inl q) \<Rightarrow> (s, Inl (at q))
      | (s, Inr (Inl e)) \<Rightarrow> (s, Inr (Inl e))
      | (s, Inr (Inr a)) \<Rightarrow> (s, Inl (back a)))"

lemma run_call:
  assumes sub: "run_alone sub q s = Some (s', Inr a)"
    and step: "\<And>q s. step (at q) s = call_step at back (sub q s)"
  shows "run_alone step (at q) s = run_alone step (back a) s'"
proof -
  have "sub = f \<longrightarrow> (\<forall>a. snd y = Inr a \<longrightarrow> run_alone step (at q) s = run_alone step (back a) (fst y))"
    if "run_alone f q s = Some y" for f q s y
  proof (rule run_alone.raw_induct [OF _ that,
        of "\<lambda>f q s y. sub = f \<longrightarrow> (\<forall>a. snd y = Inr a \<longrightarrow> run_alone step (at q) s = run_alone step (back a) (fst y))"])
    fix run g q s y
    assume IH: "\<And>f q s y. run f q s = Some y \<Longrightarrow>
        sub = f \<longrightarrow> (\<forall>a. snd y = Inr a \<longrightarrow> run_alone step (at q) s = run_alone step (back a) (fst y))"
      and r: "(let (s', next) = g q s in case next of Inl pc' \<Rightarrow> run g pc' s' | Inr r \<Rightarrow> Some (s', r)) = Some y"
    show "sub = g \<longrightarrow> (\<forall>a. snd y = Inr a \<longrightarrow> run_alone step (at q) s = run_alone step (back a) (fst y))"
    proof (intro impI allI)
      fix a
      assume g: "sub = g" and a: "snd y = Inr a"
      obtain s1 n where n: "sub q s = (s1, n)" by fastforce
      show "run_alone step (at q) s = run_alone step (back a) (fst y)"
      proof (cases n)
        case (Inl q1)
        then have "step (at q) s = (s1, Inl (at q1))" using step [of q s] n by (simp add: call_step_def)
        then have "run_alone step (at q) s = run_alone step (at q1) s1" by (rule run_next)
        also have "\<dots> = run_alone step (back a) (fst y)" using IH [of sub q1 s1 y] r g a n Inl by simp
        finally show ?thesis .
      next
        case (Inr r1)
        then have y: "y = (s1, Inr a)" "r1 = Inr a" using r g a n by auto
        then have "step (at q) s = (s1, Inl (back a))" using step [of q s] n Inr by (simp add: call_step_def)
        then show ?thesis using y by (simp add: run_next)
      qed
    qed
  qed
  with sub show ?thesis by auto
qed
section \<open>Cyclic positions\<close>

text \<open>The position \<open>d\<close> places after \<open>s\<close> in a ring of \<open>n\<close> places.\<close>

lemma cyc_step: "((s + d) mod n + 1) mod n = (s + Suc d) mod (n::nat)"
  by (simp add: mod_Suc_eq)

lemma cyc_inj:
  assumes "(s + j) mod n = (s + d) mod (n::nat)" "j < n" "d < n"
  shows "j = d"
proof -
  from assms(1) obtain q1 q2 where "s + j + n * q1 = s + d + n * q2"
    unfolding nat_mod_eq_iff by blast
  then have "j mod n = d mod n" unfolding nat_mod_eq_iff by auto
  with assms(2,3) show ?thesis by simp
qed

lemma cyc_surj:
  assumes "i < (n::nat)" "s < n"
  obtains d where "d < n" "i = (s + d) mod n"
proof
  show "(i + n - s) mod n < n" using assms by simp
  have "(s + (i + n - s) mod n) mod n = (s + (i + n - s)) mod n"
    by (simp add: mod_add_right_eq)
  also have "\<dots> = i" using assms by simp
  finally show "i = (s + (i + n - s) mod n) mod n" by simp
qed

end
