(* ===== verification/Hatrack_Common.thy ===== *)
theory Hatrack_Common
  imports N00b_Prelude
begin

text \<open>
  Functions shared by all hatrack tables: \<^verbatim>\<open>include/hatrack/hatrack_common.h\<close>,
  \<^verbatim>\<open>src/hatrack/hatrack-internal.h\<close> and \<^verbatim>\<open>src/hatrack/support/hatrack_common.c\<close>.
  A hash value is the 128-bit \<^verbatim>\<open>__int128_t\<close> of the default build; the null hash marks an
  unreserved bucket. The constants are those of \<^verbatim>\<open>hatrack_config.h\<close>.
  The lemmas give the arithmetic of thresholds and table sizes on which every
  table's migration relies, and the range in which the view comparator orders epochs.
\<close>

type_synonym hatrack_hash = "128 word"

section \<open>Definitions\<close>

definition HATRACK_MIN_SIZE_LOG :: nat where
  "HATRACK_MIN_SIZE_LOG = 4"

definition HATRACK_MIN_SIZE :: nat where
  "HATRACK_MIN_SIZE = push_bit HATRACK_MIN_SIZE_LOG 1"

definition hatrack_hashes_eq :: "hatrack_hash \<Rightarrow> hatrack_hash \<Rightarrow> bool" where
  "hatrack_hashes_eq hv1 hv2 \<longleftrightarrow> hv1 = hv2"

text \<open>\<^verbatim>\<open>__int128_t\<close> is signed, so the comparison is the signed one.\<close>

definition hatrack_hash_gt :: "hatrack_hash \<Rightarrow> hatrack_hash \<Rightarrow> bool" where
  "hatrack_hash_gt hv1 hv2 \<longleftrightarrow> sint hv1 > sint hv2"

definition hatrack_bucket_unreserved :: "hatrack_hash \<Rightarrow> bool" where
  "hatrack_bucket_unreserved hv \<longleftrightarrow> hv = 0"

definition hatrack_bucket_index :: "hatrack_hash \<Rightarrow> nat \<Rightarrow> nat" where
  "hatrack_bucket_index hv last_slot = wrap64 (unat (hv AND of_nat last_slot))"

definition hatrack_compute_table_threshold :: "nat \<Rightarrow> nat" where
  "hatrack_compute_table_threshold sz =
     wrap64 (sz + 2 * 2 ^ 64 - drop_bit 2 sz - 1)"

definition hatrack_new_size :: "nat \<Rightarrow> nat \<Rightarrow> nat" where
  "hatrack_new_size last_bucket sz =
     (let table_size = wrap64 (last_bucket + 1) in
      if sz \<ge> drop_bit 1 table_size then wrap64 (push_bit 1 table_size)
      else if sz \<le> push_bit 2 HATRACK_MIN_SIZE then push_bit 3 HATRACK_MIN_SIZE
      else if sz \<le> drop_bit 2 table_size then drop_bit 1 table_size
      else table_size)"

text \<open>
  \<^verbatim>\<open>hatrack_view_t\<close>: \<^verbatim>\<open>sort_epoch\<close> is an \<^verbatim>\<open>int64_t\<close>. The comparator returns the 64-bit
  difference as an \<^verbatim>\<open>int\<close>, which keeps its low 32 bits only.
\<close>

record hatrack_view =
  view_item :: ptr
  sort_epoch :: "64 word"

definition hatrack_quicksort_cmp :: "hatrack_view \<Rightarrow> hatrack_view \<Rightarrow> int" where
  "hatrack_quicksort_cmp item1 item2 =
     sint (ucast (sort_epoch item1 - sort_epoch item2) :: 32 word)"

text \<open>
  The standard library's \<^verbatim>\<open>qsort\<close> with a comparator: insertion of each element before the
  first one it is not greater than.
\<close>

fun insert_cmp :: "('a \<Rightarrow> 'a \<Rightarrow> int) \<Rightarrow> 'a \<Rightarrow> 'a list \<Rightarrow> 'a list" where
  "insert_cmp cmp x [] = [x]"
| "insert_cmp cmp x (y # ys) = (if cmp x y \<le> 0 then x # y # ys else y # insert_cmp cmp x ys)"

fun qsort :: "('a \<Rightarrow> 'a \<Rightarrow> int) \<Rightarrow> 'a list \<Rightarrow> 'a list" where
  "qsort cmp [] = []"
| "qsort cmp (x # xs) = insert_cmp cmp x (qsort cmp xs)"

text \<open>
  \<^verbatim>\<open>__builtin_clzll\<close> on a nonzero 64-bit value, and the rounding of sizes to a power of two.
\<close>

fun bit_length :: "nat \<Rightarrow> nat" where
  "bit_length n = (if n = 0 then 0 else Suc (bit_length (n div 2)))"

declare bit_length.simps [simp del]

definition clzll :: "nat \<Rightarrow> nat" where
  "clzll n = 64 - bit_length n"

definition hatrack_round_up_to_power_of_2 :: "nat \<Rightarrow> nat outcome" where
  "hatrack_round_up_to_power_of_2 n =
     (if n AND wrap64 (n + 2 ^ 64 - 1) = 0 then Inr n
      else if clzll n = 0 then Inl BadShift
      else Inr (drop_bit (clzll n - 1) (0x8000000000000000::nat)))"

section \<open>Hash values and bucket indices\<close>

lemma unreserved_iff [simp]: "hatrack_bucket_unreserved hv \<longleftrightarrow> hv = 0"
  by (simp add: hatrack_bucket_unreserved_def)

lemma hashes_eq_iff [simp]: "hatrack_hashes_eq a b \<longleftrightarrow> a = b"
  by (simp add: hatrack_hashes_eq_def)

lemma bucket_index_mask:
  assumes "k \<le> 64"
  shows "hatrack_bucket_index hv (2 ^ k - 1) = unat hv mod 2 ^ k"
proof -
  have "of_nat (2 ^ k - 1) = (mask k :: 128 word)"
    by (simp add: mask_eq_exp_minus_1 of_nat_diff)
  then have "hv AND of_nat (2 ^ k - 1) = take_bit k hv"
    by (simp add: take_bit_eq_mask)
  moreover have "unat (take_bit k hv) = unat hv mod 2 ^ k"
    by (simp only: unsigned_take_bit_eq) (simp add: take_bit_eq_mod)
  moreover have "unat hv mod 2 ^ k < 2 ^ 64"
  proof -
    have "unat hv mod 2 ^ k < 2 ^ k" by simp
    also have "\<dots> \<le> 2 ^ 64" using assms by (intro power_increasing) auto
    finally show ?thesis .
  qed
  ultimately show ?thesis by (simp add: hatrack_bucket_index_def wrap64_id)
qed

section \<open>Thresholds and table sizes\<close>

lemma threshold_eq:
  assumes "4 \<le> sz" "sz < 2 ^ 64"
  shows "hatrack_compute_table_threshold sz = sz - sz div 4 - 1"
proof -
  have "sz + 2 * 2 ^ 64 - drop_bit 2 sz - 1 = (sz - sz div 4 - 1) + 2 * 2 ^ 64"
    using assms by (simp add: drop_bit_2_nat)
  moreover have "sz - sz div 4 - 1 < 2 ^ 64" using assms(2) by linarith
  ultimately show ?thesis
    by (simp only: hatrack_compute_table_threshold_def wrap64_add_mult wrap64_id)
qed

lemma new_size_eq:
  assumes "ls < 2 ^ 63 - 1"
  shows "hatrack_new_size ls sz =
    (if (ls + 1) div 2 \<le> sz then 2 * (ls + 1)
     else if sz \<le> 64 then 128
     else if sz \<le> (ls + 1) div 4 then (ls + 1) div 2
     else ls + 1)"
  using assms
  by (simp add: hatrack_new_size_def Let_def wrap64_def shift_simps push_bit_eq_mult
      HATRACK_MIN_SIZE_def HATRACK_MIN_SIZE_LOG_def)

text \<open>
  Migration happens when one more reservation would reach the threshold. Whatever branch
  \<open>hatrack_new_size\<close> takes, the new size is a power of two that is not below the minimum and
  has room for all live items and one more below its own threshold; it exceeds the old size
  only if the live items fill a quarter of it.
\<close>

lemma new_size_room:
  assumes "4 \<le> k" "k \<le> 61" "sz \<le> hatrack_compute_table_threshold (2 ^ k)"
  obtains k' where "4 \<le> k'" "k' \<le> k + 3" "hatrack_new_size (2 ^ k - 1) sz = 2 ^ k'"
    "sz < hatrack_compute_table_threshold (2 ^ k')"
    "(2::nat) ^ k' \<le> max 128 (max (2 ^ k) (4 * sz))"
proof -
  let ?T = "2 ^ k :: nat"
  have T16: "16 \<le> ?T" using power_increasing [of 4 k "2::nat"] assms(1) by simp
  have T61: "?T \<le> 2 ^ 61" using assms(2) by (intro power_increasing) auto
  define m where "m = k - 2"
  have k: "k = m + 2" using assms(1) by (simp add: m_def)
  then have T4: "?T = 4 * 2 ^ m" by (simp add: power_add)
  have thr: "hatrack_compute_table_threshold ?T = ?T - ?T div 4 - 1"
    using T16 T61 by (intro threshold_eq) auto
  with assms(3) have sz: "sz \<le> ?T - ?T div 4 - 1" by simp
  have new: "hatrack_new_size (?T - 1) sz =
    (if ?T div 2 \<le> sz then 2 * ?T else if sz \<le> 64 then 128
     else if sz \<le> ?T div 4 then ?T div 2 else ?T)"
    using new_size_eq [of "?T - 1" sz] T16 T61 by simp
  have thr': "hatrack_compute_table_threshold (2 ^ j) = 2 ^ j - 2 ^ j div 4 - 1"
    if "4 \<le> (2::nat) ^ j" "(2::nat) ^ j < 2 ^ 64" for j
    using that by (intro threshold_eq)
  consider (grow) "?T div 2 \<le> sz" | (floor) "sz < ?T div 2" "sz \<le> 64"
    | (half) "sz < ?T div 2" "64 < sz" "sz \<le> ?T div 4"
    | (same) "sz < ?T div 2" "64 < sz" "?T div 4 < sz" by linarith
  then show ?thesis
  proof cases
    case grow
    then show ?thesis
      using that [of "Suc k"] new sz thr' [of "Suc k"] T16 T61 T4 assms(1) by simp
  next
    case floor
    then show ?thesis
      using that [of 7] new thr' [of 7] assms(1) by simp
  next
    case half
    then have "2 ^ 8 < ?T" by simp
    then have "8 < k" using power_less_imp_less_exp [of "2::nat" 8 k] by simp
    then show ?thesis
      using that [of "k - 1"] new half thr' [of "k - 1"] T61 T4 k by (simp add: power_add)
  next
    case same
    then show ?thesis
      using that [of k] new thr sz assms(1) T4 by simp
  qed
qed

section \<open>Sorting views\<close>

lemma quicksort_cmp_bits:
  assumes "sort_epoch a = of_nat m" "sort_epoch b = of_nat n"
  shows "hatrack_quicksort_cmp a b = signed_take_bit 31 (int m - int n)"
proof -
  have "sort_epoch a - sort_epoch b = word_of_int (int m - int n)"
    using assms by simp
  moreover have "(ucast (word_of_int x :: 64 word) :: 32 word) = word_of_int x" for x
    by (rule bit_word_eqI) (simp add: bit_simps)
  moreover have "sint (word_of_int x :: 32 word) = signed_take_bit 31 x" for x
    by (simp add: sint_sbintrunc')
  ultimately show ?thesis by (simp only: hatrack_quicksort_cmp_def)
qed

text \<open>Below a distance of \<open>2 ^ 31\<close> the comparator is the difference of the epochs.\<close>

lemma quicksort_cmp_near:
  assumes "sort_epoch a = of_nat m" "sort_epoch b = of_nat n" "\<bar>int m - int n\<bar> < 2 ^ 31"
  shows "hatrack_quicksort_cmp a b = int m - int n"
  using quicksort_cmp_bits [OF assms(1,2)] assms(3)
    signed_take_bit_int_eq_self [of 31 "int m - int n"] by (simp add: abs_less_iff)

lemma insert_cmp_key:
  assumes "\<And>y. y \<in> set ys \<Longrightarrow> (cmp (g x) (g y) \<le> 0) = (f x \<le> f y)"
  shows "insert_cmp cmp (g x) (map g ys) = map g (insort_key f x ys)"
  using assms by (induction ys) auto

lemma qsort_key:
  assumes "\<And>x y. x \<in> set xs \<Longrightarrow> y \<in> set xs \<Longrightarrow> (cmp (g x) (g y) \<le> 0) = (f x \<le> f y)"
  shows "qsort cmp (map g xs) = map g (sort_key f xs)"
  using assms
proof (induction xs)
  case (Cons x xs)
  then have "qsort cmp (map g xs) = map g (sort_key f xs)" by simp
  moreover have "insert_cmp cmp (g x) (map g (sort_key f xs)) = map g (insort_key f x (sort_key f xs))"
    by (rule insert_cmp_key) (use Cons.prems in simp)
  ultimately show ?case by simp
qed simp

lemma sort_key_map: "sort_key f (map g xs) = map g (sort_key (\<lambda>x. f (g x)) xs)"
proof -
  have "insort_key f (g x) (map g ys) = map g (insort_key (\<lambda>x. f (g x)) x ys)" for x ys
    by (induction ys) auto
  then show ?thesis by (induction xs) auto
qed

section \<open>Rounding to a power of two\<close>

lemma bit_length_bounds:
  "0 < n \<Longrightarrow> 2 ^ bit_length n \<le> 2 * n \<and> n < 2 ^ bit_length n"
proof (induction n rule: bit_length.induct)
  case (1 n)
  then show ?case
  proof (cases "n = 1")
    case False
    then have "0 < n div 2" using 1(2) by linarith
    with 1 show ?thesis by (subst (1 2) bit_length.simps) auto
  qed (simp add: bit_length.simps)
qed

lemma and_pred_zero:
  fixes n :: nat
  assumes "0 < n" "n AND (n - 1) = 0"
  obtains k where "n = 2 ^ k"
proof -
  from assms have "\<exists>k. n = 2 ^ k"
  proof (induction n rule: less_induct)
    case (less n)
    show ?case
    proof (cases "even n")
      case True
      then obtain m where m: "n = 2 * m" by blast
      with less(2) have "n - 1 = 1 + 2 * (m - 1)" "0 < m" "m < n" by auto
      with m less(3) have "m AND (m - 1) = 0" by (simp add: and_nat_rec [of "2 * m"])
      with less.IH [OF \<open>m < n\<close> \<open>0 < m\<close>] obtain k where "m = 2 ^ k" by blast
      with m show ?thesis by (intro exI [of _ "Suc k"]) simp
    next
      case False
      then obtain m where m: "n = 2 * m + 1" by (rule oddE)
      with less(3) have "m = 0" by (simp add: and_nat_rec [of "2 * m"] and_nat_rec [of "Suc (2 * m)"])
      with m show ?thesis by (intro exI [of _ 0]) simp
    qed
  qed
  then show thesis using that by blast
qed

lemma wrap64_pred: "0 < n \<Longrightarrow> n < 2 ^ 64 \<Longrightarrow> wrap64 (n + 2 ^ 64 - 1) = n - 1"
proof -
  assume "0 < n" "n < 2 ^ 64"
  then have "n + 2 ^ 64 - 1 = (n - 1) + 2 ^ 64" "n - 1 < 2 ^ 64" by linarith+
  then show ?thesis unfolding wrap64_def by (metis mod_add_self2 mod_less)
qed

lemma bit_length_64:
  assumes "0 < n" "n < 2 ^ 64" "\<And>k. n \<noteq> 2 ^ k"
  shows "bit_length n \<le> 64" "bit_length n = 64 \<longleftrightarrow> 2 ^ 63 < n"
proof -
  note b = bit_length_bounds [OF assms(1)]
  show le: "bit_length n \<le> 64"
  proof (rule ccontr)
    assume "\<not> bit_length n \<le> 64"
    then have "(2::nat) ^ 65 \<le> 2 ^ bit_length n" by (intro power_increasing) auto
    also have "\<dots> \<le> 2 * n" using b by simp
    finally show False using assms(2) by simp
  qed
  show "bit_length n = 64 \<longleftrightarrow> 2 ^ 63 < n"
  proof
    assume "2 ^ 63 < n"
    then have "(2::nat) ^ 63 < 2 ^ bit_length n" using b by linarith
    then have "63 < bit_length n" by (rule power_less_imp_less_exp [rotated]) simp
    with le show "bit_length n = 64" by simp
  next
    assume "bit_length n = 64"
    with b have "2 ^ 63 \<le> n" by simp
    with assms(3) [of 63] show "2 ^ 63 < n" by linarith
  qed
qed

lemma round_up_power:
  assumes "0 < (2::nat) ^ k" "(2::nat) ^ k < 2 ^ 64"
  shows "hatrack_round_up_to_power_of_2 (2 ^ k) = Inr (2 ^ k)"
  using wrap64_pred [OF assms] and_mask_nat [of "2 ^ k" k]
  unfolding hatrack_round_up_to_power_of_2_def by simp

lemma round_up_other:
  assumes "0 < n" "n < 2 ^ 64" and nk: "\<And>k. n \<noteq> 2 ^ k"
  shows "hatrack_round_up_to_power_of_2 n =
    (if 2 ^ 63 < n then Inl BadShift else Inr (2 ^ bit_length n))"
proof -
  have "n AND (n - 1) \<noteq> 0" using and_pred_zero [OF assms(1)] nk by metis
  moreover have "drop_bit (63 - m) (0x8000000000000000::nat) = 2 ^ m" if "m \<le> 63" for m
  proof -
    have "(0x8000000000000000::nat) = 2 ^ (63 - m) * 2 ^ m" using that by (simp flip: power_add)
    then show ?thesis unfolding drop_bit_eq_div by (metis nonzero_mult_div_cancel_left power_not_zero zero_neq_numeral)
  qed
  ultimately show ?thesis
    using bit_length_64 [OF assms] wrap64_pred [OF assms(1,2)]
    unfolding hatrack_round_up_to_power_of_2_def clzll_def by auto
qed

section \<open>Properties\<close>

text \<open>C35: \<^verbatim>\<open>hatrack_round_up_to_power_of_2\<close> gives the least power of two that is not below its
  argument, for every argument up to \<open>2 ^ 63\<close>; above, its shift count is negative.\<close>

theorem round_up_least_power:
  assumes "0 < n" "n < 2 ^ 64"
  shows "if n \<le> 2 ^ 63
     then \<exists>k. hatrack_round_up_to_power_of_2 n = Inr (2 ^ k) \<and> n \<le> 2 ^ k \<and> 2 ^ k < 2 * n
     else hatrack_round_up_to_power_of_2 n = Inl BadShift"
proof (cases "\<exists>k. n = 2 ^ k")
  case True
  then obtain k where k: "n = 2 ^ k" by blast
  with assms(2) have "(2::nat) ^ k < 2 ^ 64" by simp
  then have "k \<le> 63" using power_less_imp_less_exp [of "2::nat" k 64] by simp
  then have "n \<le> 2 ^ 63" unfolding k by (intro power_increasing) auto
  with k round_up_power [of k] assms show ?thesis by auto
next
  case False
  then have nk: "n \<noteq> 2 ^ k" for k by blast
  have "2 ^ bit_length n \<noteq> 2 * n"
    using nk [of "bit_length n - 1"] bit_length_bounds [OF assms(1)] by (cases "bit_length n") auto
  with bit_length_bounds [OF assms(1)] have "2 ^ bit_length n < 2 * n" "n \<le> 2 ^ bit_length n" by auto
  with round_up_other [OF assms nk] show ?thesis by auto
qed

theorem round_up_least_power_witness:
  "\<exists>k. hatrack_round_up_to_power_of_2 100 = Inr (2 ^ k) \<and> (100::nat) \<le> 2 ^ k \<and> 2 ^ k < (200::nat)"
  using round_up_least_power [of 100] by simp

text \<open>C36: The comparator that sorts a view orders two epochs correctly when they are less than
  \<open>2 ^ 31\<close> apart; at that distance the cut to 32 bits puts the later epoch first.\<close>

theorem quicksort_cmp_window:
  assumes "sort_epoch a = of_nat m" "sort_epoch b = of_nat n"
  shows "(\<bar>int m - int n\<bar> < 2 ^ 31 \<longrightarrow> hatrack_quicksort_cmp a b = int m - int n) \<and>
     (m = n + 2 ^ 31 \<longrightarrow> hatrack_quicksort_cmp a b < 0)"
proof (intro conjI impI)
  assume "\<bar>int m - int n\<bar> < 2 ^ 31"
  then show "hatrack_quicksort_cmp a b = int m - int n" by (rule quicksort_cmp_near [OF assms])
next
  assume "m = n + 2 ^ 31"
  then have "hatrack_quicksort_cmp a b = signed_take_bit 31 (2 ^ 31)"
    using quicksort_cmp_bits [OF assms] by simp
  then show "hatrack_quicksort_cmp a b < 0" by simp
qed

theorem quicksort_cmp_window_witness:
  "hatrack_quicksort_cmp \<lparr>view_item = 0, sort_epoch = 3\<rparr> \<lparr>view_item = 0, sort_epoch = 5\<rparr> = -2 \<and>
   hatrack_quicksort_cmp \<lparr>view_item = 0, sort_epoch = 0x80000000\<rparr> \<lparr>view_item = 0, sort_epoch = 0\<rparr> < 0"
  using quicksort_cmp_window [of "\<lparr>view_item = 0, sort_epoch = 3\<rparr>" 3 "\<lparr>view_item = 0, sort_epoch = 5\<rparr>" 5]
    quicksort_cmp_window [of "\<lparr>view_item = 0, sort_epoch = 0x80000000\<rparr>" "2 ^ 31"
      "\<lparr>view_item = 0, sort_epoch = 0\<rparr>" 0]
  by simp

end
