(* ===== verification/Ordered_Dict.thy ===== *)
theory Ordered_Dict
  imports Hatrack_Common
begin

text \<open>
  What a hatrack table promises: a dictionary from hash values to items that remembers
  insertion order the way the comments of \<^verbatim>\<open>hatrack_common.h\<close> describe it (an item that
  is written over keeps its place, a removed and re-inserted one goes to the end).
  The abstract state is an association list in insertion order.

  Tables keep their contents in slots \<open>(hash, item, epoch)\<close>, with epoch \<open>0\<close> for a slot
  that holds no item; \<open>odict\<close> reads the dictionary off the slots by sorting the live ones
  by epoch. The lemmas say what each kind of slot write does to the dictionary, so a table's
  refinement proof only has to say which slot an operation writes.
\<close>

type_synonym odict = "(hatrack_hash \<times> ptr) list"
type_synonym slot = "hatrack_hash \<times> ptr \<times> nat"

section \<open>The abstract operations\<close>

definition od_get :: "odict \<Rightarrow> hatrack_hash \<Rightarrow> ptr \<times> bool" where
  "od_get d h = (case map_of d h of None \<Rightarrow> (0, False) | Some v \<Rightarrow> (v, True))"

definition od_set :: "hatrack_hash \<Rightarrow> ptr \<Rightarrow> odict \<Rightarrow> odict" where
  "od_set h v d = map (\<lambda>(k, w). (k, if k = h then v else w)) d"

definition od_put :: "hatrack_hash \<Rightarrow> ptr \<Rightarrow> odict \<Rightarrow> odict" where
  "od_put h v d = (if h \<in> fst ` set d then od_set h v d else d @ [(h, v)])"

definition od_add :: "hatrack_hash \<Rightarrow> ptr \<Rightarrow> odict \<Rightarrow> odict" where
  "od_add h v d = (if h \<in> fst ` set d then d else d @ [(h, v)])"

definition od_remove :: "hatrack_hash \<Rightarrow> odict \<Rightarrow> odict" where
  "od_remove h d = filter (\<lambda>(k, w). k \<noteq> h) d"

definition slot_live :: "slot \<Rightarrow> bool" where
  "slot_live s \<longleftrightarrow> snd (snd s) \<noteq> 0"

abbreviation slot_epoch :: "slot \<Rightarrow> nat" where
  "slot_epoch s \<equiv> snd (snd s)"

abbreviation slot_pair :: "slot \<Rightarrow> hatrack_hash \<times> ptr" where
  "slot_pair s \<equiv> (fst s, fst (snd s))"

definition live_slots :: "slot list \<Rightarrow> slot list" where
  "live_slots ss = sort_key (\<lambda>s. slot_epoch s) (filter slot_live ss)"

definition odict :: "slot list \<Rightarrow> odict" where
  "odict ss = map (\<lambda>s. slot_pair s) (live_slots ss)"

text \<open>
  Slots of a well-formed table: live epochs differ from one another and are below the next
  epoch, and no hash value is live twice.
\<close>

definition slots_ok :: "nat \<Rightarrow> slot list \<Rightarrow> bool" where
  "slots_ok next ss \<longleftrightarrow>
     distinct (map (\<lambda>s. slot_epoch s) (filter slot_live ss)) \<and>
     distinct (map fst (filter slot_live ss)) \<and>
     (\<forall>s \<in> set ss. slot_epoch s < next)"

section \<open>Facts on the abstract operations\<close>

lemma od_get_put [simp]:
  "od_get (od_put h v d) h' = (if h' = h then (v, True) else od_get d h')"
proof -
  have set: "map_of (od_set h v d) h' =
      (if h' = h then map_option (\<lambda>_. v) (map_of d h) else map_of d h')" for h'
    by (induction d) (auto simp: od_set_def)
  show ?thesis
  proof (cases "h \<in> fst ` set d")
    case True
    then obtain w where "map_of d h = Some w"
      by (metis imageE map_of_eq_None_iff option.exhaust)
    with True show ?thesis by (simp add: od_get_def od_put_def set)
  next
    case False
    then have "map_of d h = None" by (simp add: map_of_eq_None_iff)
    with False show ?thesis
      by (auto simp: od_get_def od_put_def map_add_def split: option.splits)
  qed
qed

lemma od_get_remove [simp]:
  "od_get (od_remove h d) h' = (if h' = h then (0, False) else od_get d h')"
  by (induction d) (auto simp: od_remove_def od_get_def)

lemma od_get_add:
  "od_get (od_add h v d) h' =
     (if h' = h \<and> \<not> snd (od_get d h) then (v, True) else od_get d h')"
  by (auto simp: od_get_def od_add_def map_add_def map_of_eq_None_iff
      split: option.splits)
     (metis fst_conv image_eqI map_of_SomeD option.distinct(1) weak_map_of_SomeI)+

lemma od_member: "snd (od_get d h) \<longleftrightarrow> h \<in> fst ` set d"
  by (auto simp: od_get_def map_of_eq_None_iff split: option.splits)
     (metis fst_conv image_eqI map_of_SomeD)

lemma od_put_append: "od_get d h = (0, False) \<Longrightarrow> od_put h v d = d @ [(h, v)]"
  using od_member [of d h] by (simp add: od_put_def)

lemma od_put_set: "od_get d h = (w, True) \<Longrightarrow> od_put h v d = od_set h v d"
  using od_member [of d h] by (simp add: od_put_def)

lemma od_add_cases:
  "od_get d h = (0, False) \<Longrightarrow> od_add h v d = d @ [(h, v)]"
  "od_get d h = (w, True) \<Longrightarrow> od_add h v d = d"
  using od_member [of d h] by (simp_all add: od_add_def)

lemma od_set_absent: "od_get d h = (0, False) \<Longrightarrow> od_set h v d = d"
  using od_member [of d h] by (force simp: od_set_def intro!: map_idI)

lemma od_remove_absent: "od_get d h = (0, False) \<Longrightarrow> od_remove h d = d"
  using od_member [of d h] by (force simp: od_remove_def filter_id_conv)

lemma od_keys [simp]:
  "map fst (od_set h v d) = map fst d"
  "h \<in> fst ` set d \<Longrightarrow> map fst (od_put h v d) = map fst d"
  by (induction d) (auto simp: od_set_def od_put_def split: prod.splits)

section \<open>Reading the dictionary off the slots\<close>

lemma set_live_slots [simp]: "set (live_slots ss) = {s \<in> set ss. slot_live s}"
  by (simp add: live_slots_def)

lemma live_slots_unique:
  assumes "mset ys = mset (filter slot_live ss)"
    and "distinct (map (\<lambda>s. slot_epoch s) (filter slot_live ss))"
    and "sorted (map (\<lambda>s. slot_epoch s) ys)"
  shows "live_slots ss = ys"
  unfolding live_slots_def
proof (rule sort_key_inj_key_eq)
  show "mset (filter slot_live ss) = mset ys" using assms(1) by simp
  show "inj_on (\<lambda>s. slot_epoch s) (set (filter slot_live ss))"
    using assms(2) by (simp add: distinct_map)
qed (fact assms(3))

lemma length_odict: "length (odict ss) = length (filter slot_live ss)"
  by (simp add: odict_def live_slots_def)

lemma odict_all_dead: "(\<And>s. s \<in> set ss \<Longrightarrow> slot_epoch s = 0) \<Longrightarrow> odict ss = []"
  by (simp add: odict_def live_slots_def slot_live_def filter_empty_conv)

lemma mset_live_slots: "mset (live_slots ss) = mset (filter slot_live ss)"
  by (simp add: live_slots_def)

lemma odict_keys: "fst ` set (odict ss) = {h. \<exists>v e. (h, v, e) \<in> set ss \<and> e \<noteq> 0}"
  by (force simp: odict_def slot_live_def)

lemma distinct_odict_keys:
  assumes "slots_ok n ss"
  shows "distinct (map fst (odict ss))"
proof -
  have "mset (map fst (live_slots ss)) = mset (map fst (filter slot_live ss))"
    by (simp add: mset_live_slots)
  then have "distinct (map fst (live_slots ss)) = distinct (map fst (filter slot_live ss))"
    by (rule mset_eq_imp_distinct_iff)
  with assms show ?thesis by (simp add: odict_def slots_ok_def comp_def)
qed

lemma odict_get:
  assumes "slots_ok n ss" "(h, v, e) \<in> set ss" "e \<noteq> 0"
  shows "od_get (odict ss) h = (v, True)"
proof -
  from assms(2,3) have "(h, v) \<in> set (odict ss)"
    by (force simp: odict_def slot_live_def)
  with distinct_odict_keys [OF assms(1)] have "map_of (odict ss) h = Some v"
    by (rule map_of_is_SomeI)
  then show ?thesis by (simp add: od_get_def)
qed

lemma odict_get_absent:
  assumes "\<And>v e. (h, v, e) \<in> set ss \<Longrightarrow> e = 0"
  shows "od_get (odict ss) h = (0, False)"
proof -
  from assms have "h \<notin> fst ` set (odict ss)" by (auto simp: odict_keys)
  then have "map_of (odict ss) h = None" unfolding map_of_eq_None_iff .
  then show ?thesis by (simp add: od_get_def)
qed

text \<open>There are fewer live slots than epochs handed out.\<close>

lemma slots_ok_count:
  assumes "slots_ok n ss" "0 < n"
  shows "length (filter slot_live ss) < n"
proof -
  let ?es = "map (\<lambda>s. slot_epoch s) (filter slot_live ss)"
  have "set ?es \<subseteq> {1..<n}"
    using assms(1) by (auto simp: slots_ok_def slot_live_def)
  then have "card (set ?es) \<le> card {1..<n}" by (rule card_mono [rotated]) simp
  moreover have "card (set ?es) = length ?es"
    using assms(1) by (intro distinct_card) (simp add: slots_ok_def)
  ultimately show ?thesis using assms(2) by simp
qed

text \<open>Copying the live slots anywhere else keeps the dictionary.\<close>

lemma slots_ok_moved:
  assumes ms: "mset (filter slot_live ss') = mset (filter slot_live ss)" and ok: "slots_ok n ss"
    and n: "0 < n"
  shows "slots_ok n ss'"
proof -
  have same: "distinct (map f (filter slot_live ss')) = distinct (map f (filter slot_live ss))"
    for f :: "slot \<Rightarrow> 'b"
    by (rule mset_eq_imp_distinct_iff) (simp only: mset_map ms)
  have "slot_epoch s < n" if "s \<in> set ss'" for s
  proof (cases "slot_live s")
    case True
    with that have "s \<in> set (filter slot_live ss')" by simp
    also have "\<dots> = set (filter slot_live ss)" using ms by (rule mset_eq_setD)
    finally show ?thesis using ok by (simp add: slots_ok_def)
  qed (use n in \<open>simp add: slot_live_def\<close>)
  then show ?thesis using ok by (simp add: slots_ok_def same)
qed

lemma odict_moved:
  assumes "mset (filter slot_live ss') = mset (filter slot_live ss)" "slots_ok n ss"
  shows "odict ss' = odict ss"
proof -
  have "live_slots ss = live_slots ss'"
  proof (rule live_slots_unique)
    show "mset (live_slots ss') = mset (filter slot_live ss)"
      by (simp only: mset_live_slots assms(1))
    show "distinct (map (\<lambda>s. slot_epoch s) (filter slot_live ss))"
      using assms(2) by (simp add: slots_ok_def)
    show "sorted (map (\<lambda>s. slot_epoch s) (live_slots ss'))"
      by (simp add: live_slots_def)
  qed
  then show ?thesis by (simp add: odict_def)
qed

text \<open>The three slot writes: over a live item, into an empty slot, and a deletion mark.\<close>

lemma slots_ok_iff:
  "slots_ok n ss \<longleftrightarrow>
     (\<forall>i j. i < length ss \<longrightarrow> j < length ss \<longrightarrow> slot_live (ss ! i) \<longrightarrow> slot_live (ss ! j) \<longrightarrow>
        (slot_epoch (ss ! i) = slot_epoch (ss ! j) \<or> fst (ss ! i) = fst (ss ! j)) \<longrightarrow> i = j) \<and>
     (\<forall>i < length ss. slot_epoch (ss ! i) < n)"
  unfolding slots_ok_def distinct_map_filter_iff by (force simp: in_set_conv_nth)

lemma slots_split:
  assumes "slots_ok n ss" "i < length ss" "ss ! i = (h, v, e)" "e \<noteq> 0"
  obtains A B where "ss = A @ (h, v, e) # B" "length A = i"
    "h \<notin> fst ` set (filter slot_live A)" "h \<notin> fst ` set (filter slot_live B)"
proof
  show split: "ss = take i ss @ (h, v, e) # drop (Suc i) ss"
    using assms(2,3) by (metis id_take_nth_drop)
  show "length (take i ss) = i" using assms(2) by simp
  have "distinct (map fst (filter slot_live (take i ss @ (h, v, e) # drop (Suc i) ss)))"
    using assms(1) split by (simp add: slots_ok_def)
  with assms(4) show "h \<notin> fst ` set (filter slot_live (take i ss))"
    "h \<notin> fst ` set (filter slot_live (drop (Suc i) ss))"
    by (simp_all add: slot_live_def [of "(h, v, e)"])
qed

lemma odict_overwrite:
  assumes ok: "slots_ok n ss" and i: "i < length ss" and si: "ss ! i = (h, v, e)" "e \<noteq> 0"
  shows "odict (ss[i := (h, w, e)]) = od_set h w (odict ss)"
    and "slots_ok n (ss[i := (h, w, e)])"
proof -
  obtain A B where ss: "ss = A @ (h, v, e) # B" and A: "length A = i"
    and other: "h \<notin> fst ` set (filter slot_live A)" "h \<notin> fst ` set (filter slot_live B)"
    using slots_split [OF ok i si] by blast
  have upd: "ss[i := (h, w, e)] = A @ (h, w, e) # B" unfolding ss A [symmetric] by (rule list_update_length)
  show ok': "slots_ok n (ss[i := (h, w, e)])"
    using ok si(2) unfolding upd
    by (simp add: ss slots_ok_def slot_live_def [of "(h, v, e)"] slot_live_def [of "(h, w, e)"])
  let ?f = "\<lambda>s. (fst s, if fst s = h then w else fst (snd s), slot_epoch s) :: slot"
  have "map ?f (filter slot_live xs) = filter slot_live xs"
    if "h \<notin> fst ` set (filter slot_live xs)" for xs
    using that by (intro map_idI) (auto simp: image_iff)
  note id = this [OF other(1)] this [OF other(2)]
  have "map ?f (filter slot_live ss) = filter slot_live (ss[i := (h, w, e)])"
    using si(2) unfolding upd by (simp add: ss id slot_live_def [of "(h, _)"])
  then have "mset (map ?f (live_slots ss)) = mset (filter slot_live (ss[i := (h, w, e)]))"
    by (simp only: mset_map mset_live_slots) (simp only: mset_map [symmetric])
  moreover have "sorted (map (\<lambda>s. slot_epoch s) (map ?f (live_slots ss)))"
    by (simp add: live_slots_def comp_def)
  ultimately have "live_slots (ss[i := (h, w, e)]) = map ?f (live_slots ss)"
    using ok' by (intro live_slots_unique) (simp_all add: slots_ok_def)
  then show "odict (ss[i := (h, w, e)]) = od_set h w (odict ss)"
    by (simp add: odict_def od_set_def)
qed

lemma odict_insert:
  assumes ok: "slots_ok n ss" and i: "i < length ss" and dead: "\<not> slot_live (ss ! i)"
    and new: "\<And>s. s \<in> set ss \<Longrightarrow> slot_live s \<Longrightarrow> fst s \<noteq> h" and n: "0 < n"
  shows "odict (ss[i := (h, w, n)]) = odict ss @ [(h, w)]"
    and "slots_ok (Suc n) (ss[i := (h, w, n)])"
proof -
  have new': "j < length ss \<Longrightarrow> slot_live (ss ! j) \<Longrightarrow> fst (ss ! j) \<noteq> h" for j
    using new by simp
  show ok': "slots_ok (Suc n) (ss[i := (h, w, n)])"
    using ok i dead new' n unfolding slots_ok_iff
    by (simp add: nth_list_update slot_live_def) (metis less_SucI less_irrefl_nat)
  have "mset (live_slots ss @ [(h, w, n)]) = mset (filter slot_live (ss[i := (h, w, n)]))"
    using mset_filter_update [OF i, of slot_live "(h, w, n)"] dead n
    by (simp add: slot_live_def live_slots_def)
  moreover have "sorted (map (\<lambda>s. slot_epoch s) (live_slots ss @ [(h, w, n)]))"
  proof -
    have "\<forall>s \<in> set (live_slots ss). slot_epoch s \<le> n"
      using ok by (auto simp: slots_ok_def less_imp_le)
    moreover have "sorted (map (\<lambda>s. slot_epoch s) (live_slots ss))"
      by (simp add: live_slots_def)
    ultimately show ?thesis by (simp add: sorted_append)
  qed
  ultimately have "live_slots (ss[i := (h, w, n)]) = live_slots ss @ [(h, w, n)]"
    using ok' by (intro live_slots_unique) (simp_all add: slots_ok_def)
  then show "odict (ss[i := (h, w, n)]) = odict ss @ [(h, w)]" by (simp add: odict_def)
qed

lemma odict_kill:
  assumes ok: "slots_ok n ss" and i: "i < length ss" and si: "ss ! i = (h, v, e)" "e \<noteq> 0"
  shows "odict (ss[i := (h, v, 0)]) = od_remove h (odict ss)"
    and "slots_ok n (ss[i := (h, v, 0)])"
proof -
  obtain A B where ss: "ss = A @ (h, v, e) # B" and A: "length A = i"
    and other: "h \<notin> fst ` set (filter slot_live A)" "h \<notin> fst ` set (filter slot_live B)"
    using slots_split [OF ok i si] by blast
  have upd: "ss[i := (h, v, 0)] = A @ (h, v, 0) # B" unfolding ss A [symmetric] by (rule list_update_length)
  show ok': "slots_ok n (ss[i := (h, v, 0)])"
    using ok si(2) unfolding upd
    by (simp add: ss slots_ok_def slot_live_def [of "(h, v, e)"] slot_live_def [of "(h, v, 0)"])
  let ?g = "\<lambda>s :: slot. fst s \<noteq> h"
  have "filter ?g (filter slot_live xs) = filter slot_live xs"
    if "h \<notin> fst ` set (filter slot_live xs)" for xs
    using that by (intro filter_True) (auto simp: image_iff)
  note id = this [OF other(1)] this [OF other(2)]
  have "filter ?g (filter slot_live ss) = filter slot_live (ss[i := (h, v, 0)])"
    using si(2) unfolding upd by (simp add: ss id slot_live_def [of "(h, _)"] del: filter_filter)
  then have "mset (filter ?g (live_slots ss)) = mset (filter slot_live (ss[i := (h, v, 0)]))"
    by (simp only: mset_filter mset_live_slots) (simp only: mset_filter [symmetric])
  moreover have "sorted (map (\<lambda>s. slot_epoch s) (filter ?g (live_slots ss)))"
    by (rule sorted_filter) (simp add: live_slots_def)
  ultimately have "live_slots (ss[i := (h, v, 0)]) = filter ?g (live_slots ss)"
    using ok' by (intro live_slots_unique) (simp_all add: slots_ok_def)
  then show "odict (ss[i := (h, v, 0)]) = od_remove h (odict ss)"
    by (simp add: odict_def od_remove_def filter_map comp_def)
qed

end
