(* ===== verification/Hatrack_Table.thy ===== *)
theory Hatrack_Table
  imports Ordered_Dict
begin

text \<open>
  The interface all hatrack tables share: the vtable of \<^verbatim>\<open>hatrack_common.h\<close>, through which
  the test harness (\<^verbatim>\<open>include/test/testhat.h\<close>) and \<^verbatim>\<open>tophat\<close> call a table without knowing
  which algorithm it is. A table's operations take the table and give the new one
  (readers too: in most tables they register somewhere); \<open>None\<close>
  stands for a call that does not return; deletion gives the sizes of the freed blocks.

  The locale \<open>hatrack_table\<close> states the contract of a vtable against the insertion-ordered
  dictionary of \<open>Ordered_Dict\<close>; what a caller may conclude from it is proved once, there.
  Each table's theory interprets the locale with its own operations.
\<close>

section \<open>Definitions\<close>

record 't hatrack_vtable =
  vt_init :: "'t outcome"
  vt_init_sz :: "int \<Rightarrow> 't outcome"
  vt_get :: "'t \<Rightarrow> hatrack_hash \<Rightarrow> ('t \<times> ptr \<times> bool) outcome option"
  vt_put :: "'t \<Rightarrow> hatrack_hash \<Rightarrow> ptr \<Rightarrow> ('t \<times> ptr \<times> bool) outcome option"
  vt_replace :: "'t \<Rightarrow> hatrack_hash \<Rightarrow> ptr \<Rightarrow> ('t \<times> ptr \<times> bool) outcome option"
  vt_add :: "'t \<Rightarrow> hatrack_hash \<Rightarrow> ptr \<Rightarrow> ('t \<times> bool) outcome option"
  vt_remove :: "'t \<Rightarrow> hatrack_hash \<Rightarrow> ('t \<times> ptr \<times> bool) outcome option"
  vt_delete :: "'t \<Rightarrow> nat list"
  vt_len :: "'t \<Rightarrow> nat"
  vt_view :: "'t \<Rightarrow> bool \<Rightarrow> ('t \<times> hatrack_view list \<times> nat) outcome option"

record 't testhat =
  th_vtable :: "'t hatrack_vtable"
  th_htable :: 't

text \<open>A call through the vtable, as \<^verbatim>\<open>testhat_get\<close> and its siblings make it.\<close>

datatype hat_call =
    CallGet hatrack_hash
  | CallPut hatrack_hash ptr
  | CallReplace hatrack_hash ptr
  | CallAdd hatrack_hash ptr
  | CallRemove hatrack_hash
  | CallLen

datatype hat_answer = Item ptr bool | Added bool | Length nat

definition answer ::
  "'t testhat \<Rightarrow> ('x \<Rightarrow> 't) \<Rightarrow> ('x \<Rightarrow> hat_answer) \<Rightarrow> 'x outcome option
     \<Rightarrow> ('t testhat \<times> hat_answer) outcome option" where
  "answer self st an r =
     map_option (\<lambda>oc. and_then oc (\<lambda>x. Inr (self\<lparr>th_htable := st x\<rparr>, an x))) r"

fun testhat_call :: "'t testhat \<Rightarrow> hat_call \<Rightarrow> ('t testhat \<times> hat_answer) outcome option" where
  "testhat_call self (CallGet hv) =
     answer self fst (\<lambda>(t, i, f). Item i f) (vt_get (th_vtable self) (th_htable self) hv)"
| "testhat_call self (CallPut hv item) =
     answer self fst (\<lambda>(t, i, f). Item i f) (vt_put (th_vtable self) (th_htable self) hv item)"
| "testhat_call self (CallReplace hv item) =
     answer self fst (\<lambda>(t, i, f). Item i f) (vt_replace (th_vtable self) (th_htable self) hv item)"
| "testhat_call self (CallAdd hv item) =
     answer self fst (\<lambda>(t, b). Added b) (vt_add (th_vtable self) (th_htable self) hv item)"
| "testhat_call self (CallRemove hv) =
     answer self fst (\<lambda>(t, i, f). Item i f) (vt_remove (th_vtable self) (th_htable self) hv)"
| "testhat_call self CallLen =
     Some (Inr (self, Length (vt_len (th_vtable self) (th_htable self))))"

text \<open>A sequence of calls, stopping where one fails or does not return.\<close>

fun testhat_run :: "'t testhat \<Rightarrow> hat_call list \<Rightarrow> ('t testhat \<times> hat_answer list) outcome option"
where
  "testhat_run self [] = Some (Inr (self, []))"
| "testhat_run self (c # cs) =
     (case testhat_call self c of
        None \<Rightarrow> None
      | Some (Inl e) \<Rightarrow> Some (Inl e)
      | Some (Inr (self', a)) \<Rightarrow>
          (case testhat_run self' cs of
             None \<Rightarrow> None
           | Some (Inl e) \<Rightarrow> Some (Inl e)
           | Some (Inr (self'', as)) \<Rightarrow> Some (Inr (self'', a # as))))"

text \<open>The same calls on the dictionary.\<close>

fun od_call :: "odict \<Rightarrow> hat_call \<Rightarrow> odict \<times> hat_answer" where
  "od_call d (CallGet hv) = (d, case od_get d hv of (i, f) \<Rightarrow> Item i f)"
| "od_call d (CallPut hv item) = (od_put hv item d, case od_get d hv of (i, f) \<Rightarrow> Item i f)"
| "od_call d (CallReplace hv item) = (od_set hv item d, case od_get d hv of (i, f) \<Rightarrow> Item i f)"
| "od_call d (CallAdd hv item) = (od_add hv item d, Added (\<not> snd (od_get d hv)))"
| "od_call d (CallRemove hv) = (od_remove hv d, case od_get d hv of (i, f) \<Rightarrow> Item i f)"
| "od_call d CallLen = (d, Length (length d))"

fun od_run :: "odict \<Rightarrow> hat_call list \<Rightarrow> odict \<times> hat_answer list" where
  "od_run d [] = (d, [])"
| "od_run d (c # cs) =
     (let (d', a) = od_call d c; (d'', as) = od_run d' cs in (d'', a # as))"

text \<open>Calls with a usable hash value: the null hash marks unreserved buckets.\<close>

fun call_ok :: "hat_call \<Rightarrow> bool" where
  "call_ok (CallGet hv) = (hv \<noteq> 0)"
| "call_ok (CallPut hv item) = (hv \<noteq> 0)"
| "call_ok (CallReplace hv item) = (hv \<noteq> 0)"
| "call_ok (CallAdd hv item) = (hv \<noteq> 0)"
| "call_ok (CallRemove hv) = (hv \<noteq> 0)"
| "call_ok CallLen = True"

text \<open>
  Epochs number the insertions of a table. The bound of most tables keeps every size computation
  (at most 32 bytes for each of at most \<open>4 * epoch_limit\<close> buckets) within 64 bits.
\<close>

definition epoch_limit :: nat where
  "epoch_limit = 2 ^ 55"

section \<open>The contract of a table\<close>

locale hatrack_table =
  fixes vt :: "'t hatrack_vtable"
    and inv :: "'t \<Rightarrow> bool"
    and dict :: "'t \<Rightarrow> odict"
    and epochs :: "'t \<Rightarrow> nat"
    and limit :: nat
  assumes init_ok: "\<exists>t. vt_init vt = Inr t \<and> inv t \<and> dict t = [] \<and> epochs t = 1"
    and init_sz_ok: "\<lbrakk>4 \<le> sz; sz \<le> 30\<rbrakk> \<Longrightarrow>
      \<exists>t. vt_init_sz vt sz = Inr t \<and> inv t \<and> dict t = [] \<and> epochs t = 1"
    and get_ok: "\<lbrakk>inv t; hv \<noteq> 0\<rbrakk> \<Longrightarrow>
      \<exists>t'. vt_get vt t hv = Some (Inr (t', od_get (dict t) hv)) \<and> inv t' \<and>
           dict t' = dict t \<and> epochs t' \<le> epochs t"
    and put_ok: "\<lbrakk>inv t; hv \<noteq> 0; epochs t < limit\<rbrakk> \<Longrightarrow>
      \<exists>t'. vt_put vt t hv v = Some (Inr (t', od_get (dict t) hv)) \<and> inv t' \<and>
           dict t' = od_put hv v (dict t) \<and> epochs t' \<le> epochs t + 1"
    and replace_ok: "\<lbrakk>inv t; hv \<noteq> 0\<rbrakk> \<Longrightarrow>
      \<exists>t'. vt_replace vt t hv v = Some (Inr (t', od_get (dict t) hv)) \<and> inv t' \<and>
           dict t' = od_set hv v (dict t) \<and> epochs t' \<le> epochs t"
    and add_ok: "\<lbrakk>inv t; hv \<noteq> 0; epochs t < limit\<rbrakk> \<Longrightarrow>
      \<exists>t'. vt_add vt t hv v = Some (Inr (t', \<not> snd (od_get (dict t) hv))) \<and> inv t' \<and>
           dict t' = od_add hv v (dict t) \<and> epochs t' \<le> epochs t + 1"
    and remove_ok: "\<lbrakk>inv t; hv \<noteq> 0\<rbrakk> \<Longrightarrow>
      \<exists>t'. vt_remove vt t hv = Some (Inr (t', od_get (dict t) hv)) \<and> inv t' \<and>
           dict t' = od_remove hv (dict t) \<and> epochs t' \<le> epochs t"
    and len_ok: "inv t \<Longrightarrow> vt_len vt t = length (dict t)"
    and view_ok: "\<lbrakk>inv t; epochs t \<le> 2 ^ 31\<rbrakk> \<Longrightarrow>
      \<exists>t' view. vt_view vt t True = Some (Inr (t', view, length (dict t))) \<and> inv t' \<and>
           dict t' = dict t \<and> map view_item view = map snd (dict t)"
begin

lemma call_refines:
  assumes "inv (th_htable s)" "th_vtable s = vt" "call_ok c" "epochs (th_htable s) < limit"
  shows "\<exists>s'. testhat_call s c = Some (Inr (s', snd (od_call (dict (th_htable s)) c))) \<and>
     th_vtable s' = vt \<and> inv (th_htable s') \<and>
     dict (th_htable s') = fst (od_call (dict (th_htable s)) c) \<and>
     epochs (th_htable s') \<le> epochs (th_htable s) + 1"
proof (cases c)
  case (CallGet hv)
  then show ?thesis using assms get_ok [of "th_htable s" hv]
    by (auto simp: answer_def split: prod.splits)
next
  case (CallPut hv v)
  then show ?thesis using assms put_ok [of "th_htable s" hv v]
    by (auto simp: answer_def split: prod.splits)
next
  case (CallReplace hv v)
  then show ?thesis using assms replace_ok [of "th_htable s" hv v]
    by (auto simp: answer_def split: prod.splits)
next
  case (CallAdd hv v)
  then show ?thesis using assms add_ok [of "th_htable s" hv v]
    by (auto simp: answer_def)
next
  case (CallRemove hv)
  then show ?thesis using assms remove_ok [of "th_htable s" hv]
    by (auto simp: answer_def split: prod.splits)
next
  case CallLen
  then show ?thesis using assms len_ok [of "th_htable s"] by auto
qed

text \<open>Any sequence of calls gives the answers and the contents the dictionary gives.\<close>

lemma run_refines:
  assumes "inv (th_htable s)" "th_vtable s = vt" "list_all call_ok cs"
    "epochs (th_htable s) + length cs \<le> limit"
  shows "\<exists>s'. testhat_run s cs = Some (Inr (s', snd (od_run (dict (th_htable s)) cs))) \<and>
     inv (th_htable s') \<and> dict (th_htable s') = fst (od_run (dict (th_htable s)) cs)"
  using assms
proof (induction cs arbitrary: s)
  case Nil
  then show ?case by simp
next
  case (Cons c cs)
  obtain s1 where s1: "testhat_call s c = Some (Inr (s1, snd (od_call (dict (th_htable s)) c)))"
    "th_vtable s1 = vt" "inv (th_htable s1)"
    "dict (th_htable s1) = fst (od_call (dict (th_htable s)) c)"
    "epochs (th_htable s1) \<le> epochs (th_htable s) + 1"
    using call_refines [of s c] Cons.prems by auto
  then obtain s2 where "testhat_run s1 cs = Some (Inr (s2, snd (od_run (dict (th_htable s1)) cs)))"
    "inv (th_htable s2)" "dict (th_htable s2) = fst (od_run (dict (th_htable s1)) cs)"
    using Cons.IH [of s1] Cons.prems by auto
  with s1 show ?case by (auto simp: Let_def split: prod.splits)
qed

text \<open>What was put is found again, and nothing else changes.\<close>

lemma get_after_put:
  assumes "inv t" "hv \<noteq> 0" "hv' \<noteq> 0" "epochs t < limit"
  shows "\<exists>t' r. vt_put vt t hv v = Some (Inr (t', r)) \<and>
     map_option (map_sum id snd) (vt_get vt t' hv') =
       (if hv' = hv then Some (Inr (v, True)) else map_option (map_sum id snd) (vt_get vt t hv'))"
proof -
  obtain t' where "vt_put vt t hv v = Some (Inr (t', od_get (dict t) hv))" "inv t'"
    "dict t' = od_put hv v (dict t)"
    using put_ok [OF assms(1,2,4)] by metis
  moreover have got: "map_option (map_sum id snd) (vt_get vt u hv') = Some (Inr (od_get (dict u) hv'))"
    if "inv u" for u
    using get_ok [OF that assms(3)] by auto
  ultimately show ?thesis using assms(1) got [of t] got [of t'] by (simp del: map_option_eq_Some)
qed

end

end
