(* ===== verification/Linear_Probe.thy ===== *)
theory Linear_Probe
  imports Hatrack_Common
begin

text \<open>
  The two probe loops every hatrack table contains. A table of \<open>2 ^ k\<close> buckets is probed from
  the bucket the hash value maps to, one bucket at a time, wrapping with
  \<^verbatim>\<open>bix = (bix + 1) & last_slot\<close>.

  \<open>probe\<close> is the loop of the operations on one key: it stops at the bucket that holds the
  hash value, or at the first unreserved one; leaving the loop is \<^verbatim>\<open>__builtin_unreachable()\<close>.
  \<open>probe_free\<close> is the loop of the migrations: it stops at the first unreserved bucket
  and gives up silently after one round.

  The loops see only the hash values of the buckets, so the lemmas are on the list of hash
  values and hold for every table.
\<close>

section \<open>Definitions\<close>

datatype probe_end = Hit nat | Vacant nat

fun probe :: "hatrack_hash list \<Rightarrow> nat \<Rightarrow> hatrack_hash \<Rightarrow> nat \<Rightarrow> nat \<Rightarrow> probe_end outcome" where
  "probe ks last_slot hv bix 0 = Inl Unreachable"
| "probe ks last_slot hv bix (Suc n) =
     and_then (read_at ks bix) (\<lambda>k.
       if hatrack_hashes_eq hv k then Inr (Hit bix)
       else if hatrack_bucket_unreserved k then Inr (Vacant bix)
       else probe ks last_slot hv (wrap64 (bix + 1) AND last_slot) n)"

fun probe_free :: "hatrack_hash list \<Rightarrow> nat \<Rightarrow> nat \<Rightarrow> nat \<Rightarrow> nat option outcome" where
  "probe_free ks last_slot bix 0 = Inr None"
| "probe_free ks last_slot bix (Suc n) =
     and_then (read_at ks bix) (\<lambda>k.
       if hatrack_bucket_unreserved k then Inr (Some bix)
       else probe_free ks last_slot (wrap64 (bix + 1) AND last_slot) n)"

text \<open>
  Well-formed hash values of a table: no hash value is in two buckets, and every
  reserved bucket is reached from its home bucket over reserved buckets only.
\<close>

definition home :: "nat \<Rightarrow> hatrack_hash \<Rightarrow> nat" where
  "home k hv = unat hv mod 2 ^ k"

definition reached :: "nat \<Rightarrow> hatrack_hash list \<Rightarrow> nat \<Rightarrow> hatrack_hash \<Rightarrow> bool" where
  "reached k ks i hv \<longleftrightarrow>
     (\<exists>d < 2 ^ k. i = (home k hv + d) mod 2 ^ k \<and>
        (\<forall>j < d. ks ! ((home k hv + j) mod 2 ^ k) \<noteq> 0))"

definition probe_wf :: "nat \<Rightarrow> hatrack_hash list \<Rightarrow> bool" where
  "probe_wf k ks \<longleftrightarrow>
     length ks = 2 ^ k \<and>
     (\<forall>i < 2 ^ k. ks ! i \<noteq> 0 \<longrightarrow> reached k ks i (ks ! i)) \<and>
     (\<forall>i < 2 ^ k. \<forall>j < 2 ^ k. ks ! i \<noteq> 0 \<longrightarrow> ks ! i = ks ! j \<longrightarrow> i = j)"

section \<open>The loops find the first stopping bucket\<close>

lemma wrap_step:
  assumes "k \<le> 63"
  shows "wrap64 ((s + d) mod 2 ^ k + 1) AND (2 ^ k - 1) = (s + Suc d) mod 2 ^ k"
proof -
  have "(s + d) mod 2 ^ k < 2 ^ k" by simp
  then have "(s + d) mod 2 ^ k + 1 \<le> 2 ^ k" by linarith
  also have "(2::nat) ^ k < 2 ^ 64" using assms by (intro power_strict_increasing) auto
  finally show ?thesis
    by (simp only: wrap64_id and_mask_nat cyc_step)
qed

lemma probe_run:
  assumes len: "length ks = 2 ^ k" and k: "k \<le> 63"
    and skip: "\<And>j. j < e \<Longrightarrow> ks ! ((s + j) mod 2 ^ k) \<noteq> 0 \<and> ks ! ((s + j) mod 2 ^ k) \<noteq> hv"
    and stop: "ks ! ((s + e) mod 2 ^ k) = 0 \<or> ks ! ((s + e) mod 2 ^ k) = hv"
  shows "d \<le> e \<Longrightarrow> e - d < n \<Longrightarrow> probe ks (2 ^ k - 1) hv ((s + d) mod 2 ^ k) n =
     Inr (if ks ! ((s + e) mod 2 ^ k) = hv then Hit ((s + e) mod 2 ^ k)
          else Vacant ((s + e) mod 2 ^ k))"
proof (induction n arbitrary: d)
  case 0
  then show ?case by simp
next
  case (Suc n)
  show ?case
  proof (cases "d = e")
    case True
    then show ?thesis using stop len by auto
  next
    case False
    with Suc.prems have "d < e" by simp
    then show ?thesis
      using Suc.IH [of "Suc d"] Suc.prems skip [of d] len by (auto simp: wrap_step [OF k, simplified])
  qed
qed

lemma probe_free_run:
  assumes len: "length ks = 2 ^ k" and k: "k \<le> 63"
    and skip: "\<And>j. j < e \<Longrightarrow> ks ! ((s + j) mod 2 ^ k) \<noteq> 0"
    and stop: "ks ! ((s + e) mod 2 ^ k) = 0"
  shows "d \<le> e \<Longrightarrow> e - d < n \<Longrightarrow>
     probe_free ks (2 ^ k - 1) ((s + d) mod 2 ^ k) n = Inr (Some ((s + e) mod 2 ^ k))"
proof (induction n arbitrary: d)
  case 0
  then show ?case by simp
next
  case (Suc n)
  show ?case
  proof (cases "d = e")
    case True
    then show ?thesis using stop len by auto
  next
    case False
    with Suc.prems have "d < e" by simp
    then show ?thesis
      using Suc.IH [of "Suc d"] Suc.prems skip [of d] len by (auto simp: wrap_step [OF k, simplified])
  qed
qed

text \<open>Some bucket at a distance below the table size satisfies what some bucket satisfies.\<close>

lemma first_stop:
  assumes "i < (n::nat)" "s < n" "P i"
  obtains e where "e < n" "P ((s + e) mod n)" "\<And>j. j < e \<Longrightarrow> \<not> P ((s + j) mod n)"
proof -
  obtain d where d: "d < n" "i = (s + d) mod n" using cyc_surj assms(1,2) by metis
  let ?e = "LEAST e. P ((s + e) mod n)"
  have "P ((s + d) mod n)" using d assms(3) by simp
  then have "P ((s + ?e) mod n)" by (rule LeastI)
  moreover have "?e \<le> d" using \<open>P ((s + d) mod n)\<close> by (rule Least_le)
  moreover have "\<not> P ((s + j) mod n)" if "j < ?e" for j using that by (rule not_less_Least)
  ultimately show ?thesis using that [of ?e] d(1) by simp
qed

lemma home_less: "home k hv < 2 ^ k"
  by (simp add: home_def)

lemma bucket_index_home: "k \<le> 63 \<Longrightarrow> hatrack_bucket_index hv (2 ^ k - Suc 0) = home k hv"
  using bucket_index_mask [of k hv] by (simp add: home_def)

lemma probe_wf_length: "probe_wf k ks \<Longrightarrow> length ks = 2 ^ k"
  by (simp add: probe_wf_def)

lemma probe_wf_unique:
  "\<lbrakk>probe_wf k ks; i < 2 ^ k; j < 2 ^ k; ks ! i = h; ks ! j = h; h \<noteq> 0\<rbrakk> \<Longrightarrow> i = j"
  by (auto simp: probe_wf_def)

lemma probe_wf_empty: "probe_wf k (replicate (2 ^ k) 0)"
  by (simp add: probe_wf_def)

lemma probe_wf_insert:
  assumes wf: "probe_wf k ks" and i: "i < 2 ^ k" "ks ! i = 0" and h: "h \<noteq> 0"
    and new: "h \<notin> set ks" and r: "reached k ks i h"
  shows "probe_wf k (ks[i := h])"
proof -
  have mono: "reached k (ks[i := h]) j g" if "reached k ks j g" for j g
  proof -
    have "(ks[i := h]) ! m \<noteq> 0" if "ks ! m \<noteq> 0" for m
      using that i h by (cases "m = i") auto
    with that show ?thesis unfolding reached_def by blast
  qed
  have len: "length ks = 2 ^ k" using wf by (rule probe_wf_length)
  have absent: "j < 2 ^ k \<Longrightarrow> ks ! j \<noteq> h" for j using new len by (metis nth_mem)
  have "reached k (ks[i := h]) j ((ks[i := h]) ! j)"
    if "j < 2 ^ k" "(ks[i := h]) ! j \<noteq> 0" for j
    using that wf r mono len by (cases "j = i") (auto simp: probe_wf_def)
  moreover have "j = j'"
    if "j < 2 ^ k" "j' < 2 ^ k" "(ks[i := h]) ! j \<noteq> 0" "(ks[i := h]) ! j = (ks[i := h]) ! j'"
    for j j'
    using that wf absent len i
    by (cases "j = i"; cases "j' = i") (auto simp: probe_wf_def)
  ultimately show ?thesis using len by (auto simp: probe_wf_def)
qed

text \<open>
  With an unreserved bucket somewhere, the probe for a non-null hash value ends at its bucket
  if it has one, and otherwise at an unreserved bucket where it can be put.
\<close>

lemma probe_present:
  assumes wf: "probe_wf k ks" and k: "k \<le> 63" and i: "i < 2 ^ k" "ks ! i = hv" and h: "hv \<noteq> 0"
  shows "probe ks (2 ^ k - 1) hv (hatrack_bucket_index hv (2 ^ k - 1)) (2 ^ k) = Inr (Hit i)"
proof -
  let ?s = "home k hv"
  obtain d where d: "d < 2 ^ k" "i = (?s + d) mod 2 ^ k"
    and full: "\<And>j. j < d \<Longrightarrow> ks ! ((?s + j) mod 2 ^ k) \<noteq> 0"
    using wf i h by (auto simp: probe_wf_def reached_def)
  have skip: "ks ! ((?s + j) mod 2 ^ k) \<noteq> hv" if "j < d" for j
  proof
    assume "ks ! ((?s + j) mod 2 ^ k) = hv"
    with wf i h have "(?s + j) mod 2 ^ k = i"
      by (intro probe_wf_unique [OF wf]) auto
    with d(2) have "(?s + j) mod 2 ^ k = (?s + d) mod 2 ^ k" by simp
    then have "j = d" by (rule cyc_inj) (use d(1) that in simp_all)
    with that show False by simp
  qed
  from probe_run [OF probe_wf_length [OF wf] k, of d ?s hv 0 "2 ^ k"] d full skip i
  show ?thesis using home_less [of k hv] k by (simp add: bucket_index_home)
qed

lemma probe_absent:
  assumes wf: "probe_wf k ks" and k: "k \<le> 63" and v: "0 \<in> set ks"
    and h: "hv \<noteq> 0" and new: "hv \<notin> set ks"
  obtains i where "i < 2 ^ k" "ks ! i = 0" "probe_wf k (ks[i := hv])"
    "probe ks (2 ^ k - 1) hv (hatrack_bucket_index hv (2 ^ k - 1)) (2 ^ k) = Inr (Vacant i)"
proof -
  let ?s = "home k hv"
  have len: "length ks = 2 ^ k" using wf by (rule probe_wf_length)
  obtain v where "v < 2 ^ k" "ks ! v = 0" using v len by (metis in_set_conv_nth)
  then obtain e where e: "e < 2 ^ k" "ks ! ((?s + e) mod 2 ^ k) = 0"
    "\<And>j. j < e \<Longrightarrow> ks ! ((?s + j) mod 2 ^ k) \<noteq> 0"
    using first_stop [of v "2 ^ k" ?s "\<lambda>i. ks ! i = 0"] home_less by metis
  let ?i = "(?s + e) mod 2 ^ k"
  have other: "ks ! (j mod 2 ^ k) \<noteq> hv" for j using new len by (metis nth_mem mod_less_divisor
        zero_less_numeral zero_less_power)
  have "probe ks (2 ^ k - 1) hv (hatrack_bucket_index hv (2 ^ k - 1)) (2 ^ k) = Inr (Vacant ?i)"
    using probe_run [OF len k, of e ?s hv 0 "2 ^ k"] e other home_less [of k hv] h k
    by (simp add: bucket_index_home)
  moreover have "probe_wf k (ks[?i := hv])"
    using wf e h new by (intro probe_wf_insert) (auto simp: reached_def)
  ultimately show ?thesis using that [of ?i] e by simp
qed

text \<open>The migration loop places any new non-null hash value.\<close>

lemma probe_free_ok:
  assumes wf: "probe_wf k ks" and k: "k \<le> 63" and v: "0 \<in> set ks"
    and h: "hv \<noteq> 0" and new: "hv \<notin> set ks"
  obtains i where "i < 2 ^ k" "ks ! i = 0" "probe_wf k (ks[i := hv])"
    "probe_free ks (2 ^ k - 1) (hatrack_bucket_index hv (2 ^ k - 1)) (2 ^ k) = Inr (Some i)"
proof -
  let ?s = "home k hv"
  have len: "length ks = 2 ^ k" using wf by (rule probe_wf_length)
  obtain v where "v < 2 ^ k" "ks ! v = 0" using v len by (metis in_set_conv_nth)
  then obtain e where e: "e < 2 ^ k" "ks ! ((?s + e) mod 2 ^ k) = 0"
    "\<And>j. j < e \<Longrightarrow> ks ! ((?s + j) mod 2 ^ k) \<noteq> 0"
    using first_stop [of v "2 ^ k" ?s "\<lambda>i. ks ! i = 0"] home_less by metis
  let ?i = "(?s + e) mod 2 ^ k"
  have "probe_free ks (2 ^ k - 1) (hatrack_bucket_index hv (2 ^ k - 1)) (2 ^ k) = Inr (Some ?i)"
    using probe_free_run [OF len k, of e ?s 0 "2 ^ k"] e home_less [of k hv] k
    by (simp add: bucket_index_home)
  moreover have "probe_wf k (ks[?i := hv])"
    using wf e h new by (intro probe_wf_insert) (auto simp: reached_def)
  ultimately show ?thesis using that [of ?i] e by simp
qed

lemma probe_wf_home:
  assumes "length ks = 2 ^ k" "list_all (\<lambda>(i, h). h \<noteq> 0 \<longrightarrow> home k h = i) (enumerate 0 ks)"
  shows "probe_wf k ks"
proof -
  have h: "home k (ks ! i) = i" if "i < 2 ^ k" "ks ! i \<noteq> 0" for i
  proof -
    have "(i, ks ! i) \<in> set (enumerate 0 ks)" using assms(1) that by (simp add: in_set_enumerate_eq)
    then show ?thesis using assms(2) that by (auto simp: list_all_iff)
  qed
  have "reached k ks i (ks ! i)" if "i < 2 ^ k" "ks ! i \<noteq> 0" for i
    using that h by (auto simp: reached_def intro: exI [of _ 0])
  moreover have "i = j" if "i < 2 ^ k" "j < 2 ^ k" "ks ! i \<noteq> 0" "ks ! i = ks ! j" for i j
    using h [of i] h [of j] that by simp
  ultimately show ?thesis using assms(1) unfolding probe_wf_def by blast
qed

end
