(* ===== verification/Refhat.thy ===== *)
theory Refhat
  imports Hatrack_Table Linear_Probe
begin

text \<open>
  The reference hash table, \<^verbatim>\<open>src/hatrack/hash/refhat.c\<close>: the API every other hatrack table
  implements, for one thread. One definition per function, in the order of the file
  (the \<^verbatim>\<open>_mmm\<close> variants only drop the thread argument). Conventions:

  \<^item> the bucket array is a list; an access outside it is \<open>OutOfBounds\<close>, and freed memory is
    the empty list;
  \<^item> \<open>refhat_find\<close> is the \<^verbatim>\<open>for\<close> loop that each operation on one key repeats;
  \<^item> the value written through \<^verbatim>\<open>found\<close> is returned beside the result;
  \<^item> \<^verbatim>\<open>refhat_put\<close> and \<^verbatim>\<open>refhat_add\<close> call themselves after a migration, so they are partial
    functions (\<open>None\<close>: does not return), and that they return is proved.

  The theory proves the table invariant, that every operation keeps it, and that each
  operation does to the insertion-ordered dictionary what \<open>Ordered_Dict\<close> says.
\<close>

section \<open>Definitions\<close>

record refhat_bucket =
  rb_hv :: hatrack_hash
  rb_item :: ptr
  rb_epoch :: nat

record refhat =
  rh_last_slot :: nat
  rh_threshold :: nat
  rh_used_count :: nat
  rh_item_count :: nat
  rh_buckets :: "refhat_bucket list"
  rh_buckets_size :: nat
  rh_next_epoch :: nat

definition sizeof_refhat_bucket :: nat where
  "sizeof_refhat_bucket = 32"

definition zero_bucket :: refhat_bucket where
  "zero_bucket = \<lparr>rb_hv = 0, rb_item = 0, rb_epoch = 0\<rparr>"

text \<open>\<^verbatim>\<open>hatrack_zalloc(bytes)\<close> as an array of buckets.\<close>

definition zalloc_buckets :: "nat \<Rightarrow> refhat_bucket list" where
  "zalloc_buckets bytes = replicate (bytes div sizeof_refhat_bucket) zero_bucket"

text \<open>
  The size is a (signed) \<^verbatim>\<open>char\<close>; \<^verbatim>\<open>(size_t)size\<close> of a negative one is huge. The shift
  \<^verbatim>\<open>1 << size\<close> is one of an \<^verbatim>\<open>int\<close>, undefined from 31 on.
\<close>

definition refhat_init_size :: "int \<Rightarrow> refhat outcome" where
  "refhat_init_size sz =
     (if sz < 0 \<or> 64 < sz then Inl (Panic ''invalid size in refhat_init_size'')
      else if sz < int HATRACK_MIN_SIZE_LOG then Inl (Panic ''invalid size in refhat_init_size'')
      else if 31 \<le> sz then Inl BadShift
      else let len = push_bit (nat sz) 1; bytes = wrap64 (len * sizeof_refhat_bucket) in
        Inr \<lparr>rh_last_slot = len - 1,
             rh_threshold = hatrack_compute_table_threshold len,
             rh_used_count = 0,
             rh_item_count = 0,
             rh_buckets = zalloc_buckets bytes,
             rh_buckets_size = bytes,
             rh_next_epoch = 1\<rparr>)"

definition refhat_init :: "refhat outcome" where
  "refhat_init = refhat_init_size (int HATRACK_MIN_SIZE_LOG)"

definition refhat_new :: "refhat outcome" where
  "refhat_new = refhat_init"

text \<open>Freeing returns the bytes handed back beside the state.\<close>

definition refhat_cleanup :: "refhat \<Rightarrow> refhat \<times> nat" where
  "refhat_cleanup self = (self\<lparr>rh_buckets := []\<rparr>, rh_buckets_size self)"

definition sizeof_refhat :: nat where
  "sizeof_refhat = 56"

definition refhat_delete :: "refhat \<Rightarrow> nat list" where
  "refhat_delete self = [snd (refhat_cleanup self), sizeof_refhat]"

definition refhat_find :: "refhat \<Rightarrow> hatrack_hash \<Rightarrow> probe_end outcome" where
  "refhat_find self hv =
     probe (map rb_hv (rh_buckets self)) (rh_last_slot self) hv
       (hatrack_bucket_index hv (rh_last_slot self)) (rh_last_slot self + 1)"

definition refhat_get :: "refhat \<Rightarrow> hatrack_hash \<Rightarrow> (ptr \<times> bool) outcome" where
  "refhat_get self hv =
     and_then (refhat_find self hv) (\<lambda>r. case r of
       Hit i \<Rightarrow> (let cur = rh_buckets self ! i in
         if rb_epoch cur = 0 then Inr (0, False) else Inr (rb_item cur, True))
     | Vacant i \<Rightarrow> Inr (0, False))"

definition refhat_place ::
  "nat \<Rightarrow> nat \<Rightarrow> refhat_bucket list \<Rightarrow> refhat_bucket \<Rightarrow> refhat_bucket list outcome" where
  "refhat_place new_last_slot num_buckets new_buckets cur =
     and_then (probe_free (map rb_hv new_buckets) new_last_slot
                 (hatrack_bucket_index (rb_hv cur) new_last_slot) num_buckets)
       (\<lambda>r. case r of None \<Rightarrow> Inr new_buckets | Some i \<Rightarrow> Inr (new_buckets[i := cur]))"

fun refhat_migrate_loop ::
  "nat \<Rightarrow> nat \<Rightarrow> refhat_bucket list \<Rightarrow> refhat_bucket list \<Rightarrow> refhat_bucket list outcome" where
  "refhat_migrate_loop new_last_slot num_buckets [] new_buckets = Inr new_buckets"
| "refhat_migrate_loop new_last_slot num_buckets (cur # cs) new_buckets =
     (if hatrack_bucket_unreserved (rb_hv cur) \<or> rb_epoch cur = 0
      then refhat_migrate_loop new_last_slot num_buckets cs new_buckets
      else and_then (refhat_place new_last_slot num_buckets new_buckets cur)
             (refhat_migrate_loop new_last_slot num_buckets cs))"

definition refhat_migrate :: "refhat \<Rightarrow> refhat outcome" where
  "refhat_migrate self =
     (let num_buckets = hatrack_new_size (rh_last_slot self) (wrap64 (rh_item_count self + 1));
          new_last_slot = wrap64 (num_buckets + 2 ^ 64 - 1);
          new_buckets_size = wrap64 (num_buckets * sizeof_refhat_bucket)
      in if length (rh_buckets self) \<le> rh_last_slot self then Inl OutOfBounds
         else and_then (refhat_migrate_loop new_last_slot num_buckets
                 (take (rh_last_slot self + 1) (rh_buckets self)) (zalloc_buckets new_buckets_size))
           (\<lambda>new_buckets. Inr (self\<lparr>
              rh_used_count := rh_item_count self,
              rh_buckets := new_buckets,
              rh_buckets_size := new_buckets_size,
              rh_last_slot := new_last_slot,
              rh_threshold := hatrack_compute_table_threshold num_buckets\<rparr>)))"

text \<open>
  The writes of \<^verbatim>\<open>refhat_put\<close> and \<^verbatim>\<open>refhat_add\<close>: into a bucket whose item was removed,
  and into an unreserved bucket.
\<close>

definition refhat_revive :: "refhat \<Rightarrow> nat \<Rightarrow> ptr \<Rightarrow> refhat" where
  "refhat_revive self i item = self\<lparr>
     rh_buckets := (rh_buckets self)[i := (rh_buckets self ! i)
       \<lparr>rb_item := item, rb_epoch := rh_next_epoch self\<rparr>],
     rh_next_epoch := wrap64 (rh_next_epoch self + 1),
     rh_item_count := wrap64 (rh_item_count self + 1)\<rparr>"

definition refhat_reserve :: "refhat \<Rightarrow> nat \<Rightarrow> hatrack_hash \<Rightarrow> ptr \<Rightarrow> refhat" where
  "refhat_reserve self i hv item = self\<lparr>
     rh_used_count := wrap64 (rh_used_count self + 1),
     rh_item_count := wrap64 (rh_item_count self + 1),
     rh_buckets := (rh_buckets self)[i := (rh_buckets self ! i)
       \<lparr>rb_hv := hv, rb_item := item, rb_epoch := rh_next_epoch self\<rparr>],
     rh_next_epoch := wrap64 (rh_next_epoch self + 1)\<rparr>"

definition refhat_set_item :: "refhat \<Rightarrow> nat \<Rightarrow> ptr \<Rightarrow> refhat" where
  "refhat_set_item self i item =
     self\<lparr>rh_buckets := (rh_buckets self)[i := (rh_buckets self ! i)\<lparr>rb_item := item\<rparr>]\<rparr>"

partial_function (option) refhat_put ::
  "refhat \<Rightarrow> hatrack_hash \<Rightarrow> ptr \<Rightarrow> (refhat \<times> ptr \<times> bool) outcome option" where
  "refhat_put self hv item =
     (case refhat_find self hv of
        Inl e \<Rightarrow> Some (Inl e)
      | Inr (Hit i) \<Rightarrow>
          (if rb_epoch (rh_buckets self ! i) = 0
           then Some (Inr (refhat_revive self i item, 0, False))
           else Some (Inr (refhat_set_item self i item, rb_item (rh_buckets self ! i), True)))
      | Inr (Vacant i) \<Rightarrow>
          (if wrap64 (rh_used_count self + 1) = rh_threshold self
           then (case refhat_migrate self of
                   Inl e \<Rightarrow> Some (Inl e)
                 | Inr self' \<Rightarrow> refhat_put self' hv item)
           else Some (Inr (refhat_reserve self i hv item, 0, False))))"

definition refhat_replace ::
  "refhat \<Rightarrow> hatrack_hash \<Rightarrow> ptr \<Rightarrow> (refhat \<times> ptr \<times> bool) outcome" where
  "refhat_replace self hv item =
     and_then (refhat_find self hv) (\<lambda>r. case r of
       Hit i \<Rightarrow>
         (if rb_epoch (rh_buckets self ! i) = 0 then Inr (self, 0, False)
          else Inr (refhat_set_item self i item, rb_item (rh_buckets self ! i), True))
     | Vacant i \<Rightarrow> Inr (self, 0, False))"

partial_function (option) refhat_add ::
  "refhat \<Rightarrow> hatrack_hash \<Rightarrow> ptr \<Rightarrow> (refhat \<times> bool) outcome option" where
  "refhat_add self hv item =
     (case refhat_find self hv of
        Inl e \<Rightarrow> Some (Inl e)
      | Inr (Hit i) \<Rightarrow>
          (if rb_epoch (rh_buckets self ! i) = 0
           then Some (Inr (refhat_revive self i item, True))
           else Some (Inr (self, False)))
      | Inr (Vacant i) \<Rightarrow>
          (if wrap64 (rh_used_count self + 1) = rh_threshold self
           then (case refhat_migrate self of
                   Inl e \<Rightarrow> Some (Inl e)
                 | Inr self' \<Rightarrow> refhat_add self' hv item)
           else Some (Inr (refhat_reserve self i hv item, True))))"

definition refhat_remove :: "refhat \<Rightarrow> hatrack_hash \<Rightarrow> (refhat \<times> ptr \<times> bool) outcome" where
  "refhat_remove self hv =
     and_then (refhat_find self hv) (\<lambda>r. case r of
       Hit i \<Rightarrow>
         (if rb_epoch (rh_buckets self ! i) = 0 then Inr (self, 0, False)
          else Inr (self\<lparr>
                 rh_buckets := (rh_buckets self)[i := (rh_buckets self ! i)\<lparr>rb_epoch := 0\<rparr>],
                 rh_item_count := wrap64 (rh_item_count self + 2 ^ 64 - 1)\<rparr>,
               rb_item (rh_buckets self ! i), True))
     | Vacant i \<Rightarrow> Inr (self, 0, False))"

definition refhat_len :: "refhat \<Rightarrow> nat" where
  "refhat_len self = rh_item_count self"

text \<open>
  The view array has room for \<^verbatim>\<open>item_count\<close> entries and is returned with that length: more
  live buckets overrun it, fewer leave its end uninitialised.
\<close>

definition refhat_view :: "refhat \<Rightarrow> bool \<Rightarrow> (hatrack_view list \<times> nat) outcome" where
  "refhat_view self srt =
     (if length (rh_buckets self) \<le> rh_last_slot self then Inl OutOfBounds
      else let view = map (\<lambda>cur. \<lparr>view_item = rb_item cur, sort_epoch = of_nat (rb_epoch cur)\<rparr>)
             (filter (\<lambda>cur. \<not> (hatrack_bucket_unreserved (rb_hv cur) \<or> rb_epoch cur = 0))
               (take (rh_last_slot self + 1) (rh_buckets self)));
             num = rh_item_count self
           in if num < length view then Inl OutOfBounds
              else if length view < num then Inl Uninit
              else Inr (if srt then qsort hatrack_quicksort_cmp view else view, num))"

definition refhat_vtable :: "refhat hatrack_vtable" where
  "refhat_vtable = \<lparr>
     vt_init = refhat_init,
     vt_init_sz = refhat_init_size,
     vt_get = (\<lambda>t hv. Some (map_sum id (Pair t) (refhat_get t hv))),
     vt_put = refhat_put,
     vt_replace = (\<lambda>t hv item. Some (refhat_replace t hv item)),
     vt_add = refhat_add,
     vt_remove = (\<lambda>t hv. Some (refhat_remove t hv)),
     vt_delete = refhat_delete,
     vt_len = refhat_len,
     vt_view = (\<lambda>t srt. Some (map_sum id (Pair t) (refhat_view t srt)))\<rparr>"

section \<open>Abstraction and invariant\<close>

definition bucket_slot :: "refhat_bucket \<Rightarrow> slot" where
  "bucket_slot b = (rb_hv b, rb_item b, rb_epoch b)"

definition refhat_slots :: "refhat \<Rightarrow> slot list" where
  "refhat_slots t = map bucket_slot (rh_buckets t)"

definition refhat_dict :: "refhat \<Rightarrow> odict" where
  "refhat_dict t = odict (refhat_slots t)"

definition refhat_keys :: "refhat \<Rightarrow> hatrack_hash list" where
  "refhat_keys t = map rb_hv (rh_buckets t)"

text \<open>
  The geometry of a table of \<open>2 ^ k\<close> buckets, and the invariant. The table never has more
  than four times as many buckets as the insertions it has seen (or its initial size), so a
  bound on the epochs bounds the memory.
\<close>

definition refhat_geom :: "nat \<Rightarrow> refhat \<Rightarrow> bool" where
  "refhat_geom k t \<longleftrightarrow>
     4 \<le> k \<and> (2::nat) ^ k \<le> max (2 ^ 30) (4 * rh_next_epoch t) \<and>
     rh_last_slot t = 2 ^ k - 1 \<and>
     rh_threshold t = hatrack_compute_table_threshold (2 ^ k) \<and>
     rh_buckets_size t = 2 ^ k * sizeof_refhat_bucket \<and>
     probe_wf k (refhat_keys t)"

definition refhat_inv :: "refhat \<Rightarrow> bool" where
  "refhat_inv t \<longleftrightarrow>
     (\<exists>k. refhat_geom k t) \<and>
     rh_used_count t = length (filter (\<lambda>h. h \<noteq> 0) (refhat_keys t)) \<and>
     rh_used_count t < rh_threshold t \<and>
     rh_item_count t = length (filter slot_live (refhat_slots t)) \<and>
     (\<forall>b \<in> set (rh_buckets t). rb_hv b = 0 \<longrightarrow> rb_epoch b = 0) \<and>
     slots_ok (rh_next_epoch t) (refhat_slots t) \<and>
     0 < rh_next_epoch t \<and> rh_next_epoch t \<le> epoch_limit"

section \<open>Consequences of the invariant\<close>

lemma refhat_invD:
  assumes "refhat_inv t"
  shows "rh_used_count t = length (filter (\<lambda>h. h \<noteq> 0) (refhat_keys t))"
    and "rh_used_count t < rh_threshold t"
    and "rh_item_count t = length (filter slot_live (refhat_slots t))"
    and "\<And>b. b \<in> set (rh_buckets t) \<Longrightarrow> rb_hv b = 0 \<Longrightarrow> rb_epoch b = 0"
    and "slots_ok (rh_next_epoch t) (refhat_slots t)"
    and "0 < rh_next_epoch t" "rh_next_epoch t \<le> epoch_limit"
  using assms by (simp_all add: refhat_inv_def)

lemma refhat_invE:
  assumes "refhat_inv t"
  obtains k where "refhat_geom k t"
  using assms by (auto simp: refhat_inv_def)

lemma refhat_geom_bounds:
  assumes "refhat_inv t" "refhat_geom k t"
  shows "4 \<le> k" "k \<le> 57" "length (rh_buckets t) = 2 ^ k"
    "rh_threshold t = 2 ^ k - 2 ^ k div 4 - 1"
proof -
  have g: "4 \<le> k" "(2::nat) ^ k \<le> max (2 ^ 30) (4 * rh_next_epoch t)"
    "rh_threshold t = hatrack_compute_table_threshold (2 ^ k)" "probe_wf k (refhat_keys t)"
    using assms(2) by (auto simp: refhat_geom_def)
  have "max (2 ^ 30) (4 * rh_next_epoch t) \<le> 2 ^ 57"
    using assms(1) by (simp add: refhat_inv_def epoch_limit_def)
  with g(2) have p: "(2::nat) ^ k \<le> 2 ^ 57" by linarith
  show "4 \<le> k" by (fact g(1))
  show "k \<le> 57" using p power_le_imp_le_exp [of "2::nat" k 57] by simp
  show "length (rh_buckets t) = 2 ^ k"
    using probe_wf_length [OF g(4)] by (simp add: refhat_keys_def)
  have "(2::nat) ^ 4 \<le> 2 ^ k" using g(1) by (intro power_increasing) auto
  then show "rh_threshold t = 2 ^ k - 2 ^ k div 4 - 1"
    using p g(3) threshold_eq [of "2 ^ k"] by simp
qed

lemma refhat_keys_vacant:
  assumes inv: "refhat_inv t"
  shows "0 \<in> set (refhat_keys t)"
proof -
  obtain k where k: "refhat_geom k t" using inv by (rule refhat_invE)
  note b = refhat_geom_bounds [OF inv k]
  have "length (filter (\<lambda>h. h \<noteq> 0) (refhat_keys t)) < length (refhat_keys t)"
    using inv b by (auto simp: refhat_inv_def refhat_keys_def)
  then obtain i where "i < length (refhat_keys t)" "refhat_keys t ! i = 0"
    by (rule filter_length_lt_exists) auto
  then show ?thesis by (metis nth_mem)
qed

text \<open>The probe of an operation: it ends at the key's bucket, or at one where it can go.\<close>

lemma refhat_find_cases:
  assumes inv: "refhat_inv t" and h: "hv \<noteq> 0"
  obtains (present) i where "i < length (rh_buckets t)" "rb_hv (rh_buckets t ! i) = hv"
      "refhat_find t hv = Inr (Hit i)"
    | (absent) k i where "refhat_geom k t" "hv \<notin> set (refhat_keys t)" "i < length (rh_buckets t)"
      "rb_hv (rh_buckets t ! i) = 0" "probe_wf k ((refhat_keys t)[i := hv])"
      "refhat_find t hv = Inr (Vacant i)"
proof -
  obtain k where k: "refhat_geom k t" using inv by (rule refhat_invE)
  note b = refhat_geom_bounds [OF inv k]
  have wf: "probe_wf k (refhat_keys t)" and ls: "rh_last_slot t = 2 ^ k - 1"
    using k by (auto simp: refhat_geom_def)
  have find: "refhat_find t hv =
      probe (refhat_keys t) (2 ^ k - 1) hv (hatrack_bucket_index hv (2 ^ k - 1)) (2 ^ k)"
    by (simp add: refhat_find_def refhat_keys_def ls)
  show ?thesis
  proof (cases "hv \<in> set (refhat_keys t)")
    case True
    then obtain i where i: "i < 2 ^ k" "refhat_keys t ! i = hv"
      using probe_wf_length [OF wf] by (metis in_set_conv_nth)
    then have "refhat_find t hv = Inr (Hit i)"
      using probe_present [OF wf _ i h] b(2) by (simp add: find)
    with i b(3) show ?thesis using present [of i] by (simp add: refhat_keys_def)
  next
    case False
    obtain i where "i < 2 ^ k" "refhat_keys t ! i = 0" "probe_wf k ((refhat_keys t)[i := hv])"
      "refhat_find t hv = Inr (Vacant i)"
      using probe_absent [OF wf _ refhat_keys_vacant [OF inv] h False] b(2) find by auto
    with False k b(3) show ?thesis using absent [of k i] by (simp add: refhat_keys_def)
  qed
qed

lemma nth_refhat_slots:
  "i < length (rh_buckets t) \<Longrightarrow> refhat_slots t ! i = bucket_slot (rh_buckets t ! i)"
  by (simp add: refhat_slots_def)

lemma refhat_absent_dead:
  assumes "hv \<notin> set (refhat_keys t)"
  shows "(hv, v, e) \<in> set (refhat_slots t) \<Longrightarrow> e = 0"
  using assms by (auto simp: refhat_keys_def refhat_slots_def bucket_slot_def)

lemma refhat_present_dead:
  assumes inv: "refhat_inv t" and i: "i < length (rh_buckets t)"
    and b: "rb_hv (rh_buckets t ! i) = hv" "rb_epoch (rh_buckets t ! i) = 0" and h: "hv \<noteq> 0"
  shows "(hv, v, e) \<in> set (refhat_slots t) \<Longrightarrow> e = 0"
proof -
  assume "(hv, v, e) \<in> set (refhat_slots t)"
  then obtain j where j: "j < length (rh_buckets t)" "bucket_slot (rh_buckets t ! j) = (hv, v, e)"
    by (auto simp: refhat_slots_def in_set_conv_nth)
  obtain k where k: "refhat_geom k t" using inv by (rule refhat_invE)
  have "i = j"
    using probe_wf_unique [of k "refhat_keys t" i j hv] k i j b(1) h refhat_geom_bounds(3) [OF inv k]
    by (auto simp: refhat_geom_def refhat_keys_def bucket_slot_def)
  with j b show "e = 0" by (simp add: bucket_slot_def)
qed

section \<open>What the bucket writes do\<close>

lemma keys_same_hv:
  "\<lbrakk>i < length bs; rb_hv b = rb_hv (bs ! i)\<rbrakk> \<Longrightarrow> map rb_hv (bs[i := b]) = map rb_hv bs"
  by (metis list_update_id map_update nth_map)

text \<open>
  A write of bucket \<open>i\<close> keeps the invariant if the hash values stay well-formed, the slots stay
  consistent with the next epoch, and the two counters move with the bucket.
\<close>

lemma refhat_write_inv:
  assumes inv: "refhat_inv t" and k: "refhat_geom k t" and i: "i < length (rh_buckets t)"
    and t': "t' = t\<lparr>rh_buckets := (rh_buckets t)[i := b], rh_used_count := u,
                   rh_item_count := c, rh_next_epoch := n\<rparr>"
    and wf: "probe_wf k ((refhat_keys t)[i := rb_hv b])"
    and ok: "slots_ok n ((refhat_slots t)[i := bucket_slot b])"
    and u: "u + (if rb_hv (rh_buckets t ! i) \<noteq> 0 then 1 else 0) =
            rh_used_count t + (if rb_hv b \<noteq> 0 then 1 else 0)" "u < rh_threshold t"
    and c: "c + (if rb_epoch (rh_buckets t ! i) \<noteq> 0 then 1 else 0) =
            rh_item_count t + (if rb_epoch b \<noteq> 0 then 1 else 0)"
    and b: "rb_hv b = 0 \<longrightarrow> rb_epoch b = 0"
    and n: "rh_next_epoch t \<le> n" "n \<le> epoch_limit"
  shows "refhat_inv t'"
proof -
  have len: "i < length (refhat_slots t)" "i < length (refhat_keys t)"
    using i by (simp_all add: refhat_slots_def refhat_keys_def)
  have slots: "refhat_slots t' = (refhat_slots t)[i := bucket_slot b]"
    by (simp add: t' refhat_slots_def map_update)
  have keys: "refhat_keys t' = (refhat_keys t)[i := rb_hv b]"
    by (simp add: t' refhat_keys_def map_update)
  have nth: "refhat_keys t ! i = rb_hv (rh_buckets t ! i)" using i by (simp add: refhat_keys_def)
  have used: "u = length (filter (\<lambda>h. h \<noteq> 0) (refhat_keys t'))"
    using length_filter_update [OF len(2), of "\<lambda>h. h \<noteq> 0" "rb_hv b"] u(1) inv
    unfolding keys nth refhat_inv_def by simp
  have items: "c = length (filter slot_live (refhat_slots t'))"
    using length_filter_update [OF len(1), of slot_live "bucket_slot b"] c i inv
    unfolding slots by (auto simp: nth_refhat_slots refhat_inv_def slot_live_def bucket_slot_def)
  have "\<forall>d \<in> set (rh_buckets t'). rb_hv d = 0 \<longrightarrow> rb_epoch d = 0"
    using refhat_invD(4) [OF inv] b set_update_subset_insert [of "rh_buckets t" i b]
    by (auto simp: t')
  moreover have "refhat_geom k t'" using k n wf keys by (auto simp: t' refhat_geom_def)
  moreover have "rh_used_count t' = u" "rh_item_count t' = c" "rh_next_epoch t' = n"
    "rh_threshold t' = rh_threshold t"
    by (simp_all add: t')
  ultimately show ?thesis
    using refhat_invD(6) [OF inv] used items ok u(2) n unfolding refhat_inv_def slots [symmetric]
    by auto
qed

lemma refhat_ctx:
  assumes "refhat_inv t" "i < length (rh_buckets t)"
  obtains k where "refhat_geom k t" "probe_wf k (refhat_keys t)" "k \<le> 57"
    "rh_used_count t < 2 ^ 57" "rh_item_count t \<le> 2 ^ 57" "i < length (refhat_slots t)"
    "slots_ok (rh_next_epoch t) (refhat_slots t)"
    "refhat_slots t ! i = bucket_slot (rh_buckets t ! i)"
    "(refhat_keys t)[i := rb_hv (rh_buckets t ! i)] = refhat_keys t"
proof -
  obtain k where k: "refhat_geom k t" using assms(1) by (rule refhat_invE)
  note b = refhat_geom_bounds [OF assms(1) k]
  have p: "(2::nat) ^ k \<le> 2 ^ 57" using b(2) by (intro power_increasing) auto
  show ?thesis
  proof (rule that [OF k])
    show "probe_wf k (refhat_keys t)" using k by (simp add: refhat_geom_def)
    show "k \<le> 57" by (fact b(2))
    show "rh_used_count t < 2 ^ 57" using refhat_invD(2) [OF assms(1)] b(4) p by linarith
    show "rh_item_count t \<le> 2 ^ 57"
      using refhat_invD(3) [OF assms(1)] b(3) p length_filter_le [of slot_live "refhat_slots t"]
      by (simp add: refhat_slots_def)
    show "i < length (refhat_slots t)" using assms(2) by (simp add: refhat_slots_def)
    show "slots_ok (rh_next_epoch t) (refhat_slots t)" by (rule refhat_invD(5) [OF assms(1)])
    show "refhat_slots t ! i = bucket_slot (rh_buckets t ! i)"
      using assms(2) by (rule nth_refhat_slots)
    show "(refhat_keys t)[i := rb_hv (rh_buckets t ! i)] = refhat_keys t"
      using assms(2) by (metis list_update_id nth_map refhat_keys_def)
  qed
qed

lemma refhat_set_item_ok:
  assumes inv: "refhat_inv t" and i: "i < length (rh_buckets t)"
    and b: "rb_hv (rh_buckets t ! i) = hv" "rb_epoch (rh_buckets t ! i) \<noteq> 0" and h: "hv \<noteq> 0"
  shows "refhat_inv (refhat_set_item t i v)"
    and "refhat_dict (refhat_set_item t i v) = od_set hv v (refhat_dict t)"
proof -
  obtain k where k: "refhat_geom k t" "probe_wf k (refhat_keys t)" and len: "i < length (refhat_slots t)"
    and ok: "slots_ok (rh_next_epoch t) (refhat_slots t)"
    and old: "refhat_slots t ! i = bucket_slot (rh_buckets t ! i)"
    and same: "(refhat_keys t)[i := rb_hv (rh_buckets t ! i)] = refhat_keys t"
    using refhat_ctx [OF inv i] by metis
  let ?b = "(rh_buckets t ! i)\<lparr>rb_item := v\<rparr>"
  have old': "refhat_slots t ! i = (hv, rb_item (rh_buckets t ! i), rb_epoch (rh_buckets t ! i))"
    using old b(1) by (simp add: bucket_slot_def)
  have new: "bucket_slot ?b = (hv, v, rb_epoch (rh_buckets t ! i))"
    using b(1) by (simp add: bucket_slot_def)
  note w = odict_overwrite [OF ok len old' b(2), of v, folded new]
  have t': "refhat_set_item t i v = t\<lparr>rh_buckets := (rh_buckets t)[i := ?b],
      rh_used_count := rh_used_count t, rh_item_count := rh_item_count t,
      rh_next_epoch := rh_next_epoch t\<rparr>"
    by (simp add: refhat_set_item_def)
  show "refhat_inv (refhat_set_item t i v)"
    by (rule refhat_write_inv [OF inv k(1) i t'])
       (use k(2) same w(2) b h inv in \<open>simp_all add: refhat_inv_def\<close>)
  show "refhat_dict (refhat_set_item t i v) = od_set hv v (refhat_dict t)"
    using w(1) by (simp add: refhat_dict_def refhat_slots_def refhat_set_item_def map_update)
qed

lemma refhat_revive_ok:
  assumes inv: "refhat_inv t" and i: "i < length (rh_buckets t)"
    and b: "rb_hv (rh_buckets t ! i) = hv" "rb_epoch (rh_buckets t ! i) = 0" and h: "hv \<noteq> 0"
    and room: "rh_next_epoch t < epoch_limit"
  shows "refhat_inv (refhat_revive t i v)"
    and "refhat_dict (refhat_revive t i v) = refhat_dict t @ [(hv, v)]"
    and "rh_next_epoch (refhat_revive t i v) = rh_next_epoch t + 1"
proof -
  obtain k where k: "refhat_geom k t" "probe_wf k (refhat_keys t)" and len: "i < length (refhat_slots t)"
    and ok: "slots_ok (rh_next_epoch t) (refhat_slots t)"
    and old: "refhat_slots t ! i = bucket_slot (rh_buckets t ! i)"
    and same: "(refhat_keys t)[i := rb_hv (rh_buckets t ! i)] = refhat_keys t"
    and c: "rh_item_count t \<le> 2 ^ 57"
    using refhat_ctx [OF inv i] by metis
  let ?b = "(rh_buckets t ! i)\<lparr>rb_item := v, rb_epoch := rh_next_epoch t\<rparr>"
  have new: "bucket_slot ?b = (hv, v, rh_next_epoch t)" using b(1) by (simp add: bucket_slot_def)
  have pos: "0 < rh_next_epoch t" using inv by (rule refhat_invD)
  have dead: "\<not> slot_live (refhat_slots t ! i)" using old b(2) by (simp add: slot_live_def bucket_slot_def)
  have "fst s \<noteq> hv" if "s \<in> set (refhat_slots t)" "slot_live s" for s
    using refhat_present_dead [OF inv i b h] that by (cases s) (auto simp: slot_live_def)
  note w = odict_insert [OF ok len dead this pos, of v, folded new]
  have wrap: "wrap64 (rh_next_epoch t + 1) = rh_next_epoch t + 1"
    "wrap64 (rh_item_count t + 1) = rh_item_count t + 1"
    using room c by (simp_all add: wrap64_id epoch_limit_def)
  have t': "refhat_revive t i v = t\<lparr>rh_buckets := (rh_buckets t)[i := ?b],
      rh_used_count := rh_used_count t, rh_item_count := rh_item_count t + 1,
      rh_next_epoch := rh_next_epoch t + 1\<rparr>"
    by (simp add: refhat_revive_def wrap [simplified])
  show "refhat_inv (refhat_revive t i v)"
    by (rule refhat_write_inv [OF inv k(1) i t'])
       (use k(2) same w(2) b h inv room pos in \<open>simp_all add: refhat_inv_def\<close>)
  show "refhat_dict (refhat_revive t i v) = refhat_dict t @ [(hv, v)]"
    using w(1) by (simp add: refhat_dict_def refhat_slots_def refhat_revive_def map_update)
  show "rh_next_epoch (refhat_revive t i v) = rh_next_epoch t + 1"
    by (simp add: refhat_revive_def wrap [simplified])
qed

lemma refhat_reserve_ok:
  assumes inv: "refhat_inv t" and k: "refhat_geom k t" and i: "i < length (rh_buckets t)"
    and b: "rb_hv (rh_buckets t ! i) = 0" and h: "hv \<noteq> 0" "hv \<notin> set (refhat_keys t)"
    and wf: "probe_wf k ((refhat_keys t)[i := hv])"
    and room: "rh_next_epoch t < epoch_limit" "rh_used_count t + 1 < rh_threshold t"
  shows "refhat_inv (refhat_reserve t i hv v)"
    and "refhat_dict (refhat_reserve t i hv v) = refhat_dict t @ [(hv, v)]"
    and "rh_next_epoch (refhat_reserve t i hv v) = rh_next_epoch t + 1"
proof -
  have len: "i < length (refhat_slots t)"
    and ok: "slots_ok (rh_next_epoch t) (refhat_slots t)"
    and old: "refhat_slots t ! i = bucket_slot (rh_buckets t ! i)"
    and c: "rh_item_count t \<le> 2 ^ 57" "rh_used_count t < 2 ^ 57"
    using refhat_ctx [OF inv i] by metis+
  let ?b = "(rh_buckets t ! i)\<lparr>rb_hv := hv, rb_item := v, rb_epoch := rh_next_epoch t\<rparr>"
  have new: "bucket_slot ?b = (hv, v, rh_next_epoch t)" by (simp add: bucket_slot_def)
  have pos: "0 < rh_next_epoch t" using inv by (rule refhat_invD)
  have e0: "rb_epoch (rh_buckets t ! i) = 0" using inv i b by (auto simp: refhat_inv_def)
  then have dead: "\<not> slot_live (refhat_slots t ! i)" using old by (simp add: slot_live_def bucket_slot_def)
  have "fst s \<noteq> hv" if "s \<in> set (refhat_slots t)" "slot_live s" for s
    using refhat_absent_dead [OF h(2)] that by (cases s) (auto simp: slot_live_def)
  note w = odict_insert [OF ok len dead this pos, of v, folded new]
  have wrap: "wrap64 (rh_next_epoch t + 1) = rh_next_epoch t + 1"
    "wrap64 (rh_item_count t + 1) = rh_item_count t + 1"
    "wrap64 (rh_used_count t + 1) = rh_used_count t + 1"
    using room c by (simp_all add: wrap64_id epoch_limit_def)
  have t': "refhat_reserve t i hv v = t\<lparr>rh_buckets := (rh_buckets t)[i := ?b],
      rh_used_count := rh_used_count t + 1, rh_item_count := rh_item_count t + 1,
      rh_next_epoch := rh_next_epoch t + 1\<rparr>"
    by (simp add: refhat_reserve_def wrap [simplified])
  show "refhat_inv (refhat_reserve t i hv v)"
    by (rule refhat_write_inv [OF inv k i t'])
       (use wf w(2) b e0 h room pos in simp_all)
  show "refhat_dict (refhat_reserve t i hv v) = refhat_dict t @ [(hv, v)]"
    using w(1) by (simp add: refhat_dict_def refhat_slots_def refhat_reserve_def map_update)
  show "rh_next_epoch (refhat_reserve t i hv v) = rh_next_epoch t + 1"
    by (simp add: refhat_reserve_def wrap [simplified])
qed

section \<open>Migration\<close>

abbreviation bucket_live :: "refhat_bucket \<Rightarrow> bool" where
  "bucket_live b \<equiv> rb_epoch b \<noteq> 0"

lemma slot_live_bucket [simp]: "slot_live (bucket_slot b) = bucket_live b"
  by (simp add: slot_live_def bucket_slot_def)

text \<open>
  Placing buckets one after the other into the buckets \<open>nb\<close> of a table of \<open>2 ^ k\<close>: the live ones go to the first
  unreserved bucket of their probe, which none of them has reserved yet.
\<close>

inductive placed :: "nat \<Rightarrow> refhat_bucket list \<Rightarrow> refhat_bucket list \<Rightarrow> refhat_bucket list \<Rightarrow> bool" for k where
  placed_none: "placed k [] nb nb"
| placed_skip: "\<not> bucket_live c \<Longrightarrow> placed k cs nb nb' \<Longrightarrow> placed k (c # cs) nb nb'"
| placed_put: "\<lbrakk>bucket_live c; rb_hv c \<noteq> 0; rb_hv c \<notin> set (map rb_hv nb); i < length nb; nb ! i = z; rb_hv z = 0;
     \<not> bucket_live z;
     probe_free (map rb_hv nb) (2 ^ k - 1) (hatrack_bucket_index (rb_hv c) (2 ^ k - 1)) (2 ^ k) = Inr (Some i);
     placed k cs (nb[i := c]) nb'\<rbrakk> \<Longrightarrow> placed k (c # cs) nb nb'"

text \<open>With room for all live buckets and no hash value twice, every live bucket is placed and nothing else.\<close>

lemma placed_all:
  assumes "probe_wf k (map rb_hv nb)" "k \<le> 63"
    and "\<forall>b \<in> set cs. rb_hv b = 0 \<longrightarrow> \<not> bucket_live b"
    and "\<forall>b \<in> set nb. rb_hv b = 0 \<longleftrightarrow> \<not> bucket_live b"
    and "distinct (map rb_hv (filter bucket_live cs))"
    and "rb_hv ` set (filter bucket_live cs) \<inter> rb_hv ` set nb = {}"
    and "length (filter bucket_live cs) + length (filter bucket_live nb) < 2 ^ k"
  shows "\<exists>nb'. placed k cs nb nb' \<and>
     probe_wf k (map rb_hv nb') \<and> (\<forall>b \<in> set nb'. rb_hv b = 0 \<longleftrightarrow> \<not> bucket_live b) \<and>
     mset (filter bucket_live nb') = mset (filter bucket_live nb) + mset (filter bucket_live cs)"
  using assms
proof (induction cs arbitrary: nb)
  case Nil
  then show ?case by (auto intro: placed_none)
next
  case (Cons c cs)
  show ?case
  proof (cases "bucket_live c")
    case False
    then show ?thesis using Cons.IH [of nb] Cons.prems by (auto intro: placed_skip)
  next
    case True
    then have h: "rb_hv c \<noteq> 0" using Cons.prems(3) by auto
    have new: "rb_hv c \<notin> set (map rb_hv nb)" using Cons.prems(6) True by auto
    have len: "length nb = 2 ^ k" using probe_wf_length [OF Cons.prems(1)] by simp
    have "length (filter bucket_live nb) < length nb" using Cons.prems(7) len by simp
    then obtain j where "j < length nb" "\<not> bucket_live (nb ! j)"
      by (rule filter_length_lt_exists) blast
    then have "0 \<in> set (map rb_hv nb)"
      using Cons.prems(4) by (metis image_eqI image_set nth_mem)
    then obtain i where i: "i < 2 ^ k" "map rb_hv nb ! i = 0"
      "probe_wf k ((map rb_hv nb)[i := rb_hv c])"
      "probe_free (map rb_hv nb) (2 ^ k - 1) (hatrack_bucket_index (rb_hv c) (2 ^ k - 1)) (2 ^ k)
        = Inr (Some i)"
      using probe_free_ok [OF Cons.prems(1,2) _ h new] by blast
    have dead: "\<not> bucket_live (nb ! i)" using i len Cons.prems(4) by auto
    let ?nb = "nb[i := c]"
    have ms: "mset (filter bucket_live ?nb) = mset (filter bucket_live nb) + {#c#}"
      using mset_filter_update [of i nb bucket_live c] i(1) len dead True by simp
    have sub: "set ?nb \<subseteq> insert c (set nb)" by (rule set_update_subset_insert)
    have "\<exists>nb'. placed k cs ?nb nb' \<and>
       probe_wf k (map rb_hv nb') \<and> (\<forall>b \<in> set nb'. rb_hv b = 0 \<longleftrightarrow> \<not> bucket_live b) \<and>
       mset (filter bucket_live nb') = mset (filter bucket_live ?nb) + mset (filter bucket_live cs)"
    proof (rule Cons.IH)
      show "probe_wf k (map rb_hv ?nb)" using i(3) by (simp add: map_update)
      show "\<forall>b \<in> set ?nb. rb_hv b = 0 \<longleftrightarrow> \<not> bucket_live b" using Cons.prems(4) sub h True by auto
      have "rb_hv ` set ?nb \<subseteq> insert (rb_hv c) (rb_hv ` set nb)" using sub by auto
      moreover have "rb_hv c \<notin> rb_hv ` set (filter bucket_live cs)"
        using Cons.prems(5) True by simp
      moreover have "rb_hv ` set (filter bucket_live cs) \<inter> rb_hv ` set nb = {}"
        using Cons.prems(6) True by auto
      ultimately show "rb_hv ` set (filter bucket_live cs) \<inter> rb_hv ` set ?nb = {}"
        by (rule disjoint_insert_subset)
      have "length (filter bucket_live ?nb) = Suc (length (filter bucket_live nb))"
        using arg_cong [OF ms, of size] by (simp del: mset_filter)
      then show "length (filter bucket_live cs) + length (filter bucket_live ?nb) < 2 ^ k"
        using Cons.prems(7) True by simp
    qed (use Cons.prems True in auto)
    then obtain nb' where "placed k cs ?nb nb'"
       "probe_wf k (map rb_hv nb')" "\<forall>b \<in> set nb'. rb_hv b = 0 \<longleftrightarrow> \<not> bucket_live b"
       "mset (filter bucket_live nb') = mset (filter bucket_live ?nb) + mset (filter bucket_live cs)"
      by blast
    moreover from this have "placed k (c # cs) nb nb'"
      using True h new i len dead by (intro placed_put [where i = i]) auto
    ultimately show ?thesis using True ms by (intro exI [of _ nb']) (simp del: mset_filter)
  qed
qed

text \<open>The copy loop places the buckets.\<close>

lemma placed_loop: "placed k cs nb nb' \<Longrightarrow> \<forall>b \<in> set cs. rb_hv b = 0 \<longrightarrow> \<not> bucket_live b \<Longrightarrow>
  refhat_migrate_loop (2 ^ k - 1) (2 ^ k) cs nb = Inr nb'"
  by (induction rule: placed.induct) (auto simp: refhat_place_def)

lemma refhat_migrate_loop_ok:
  assumes "probe_wf k (map rb_hv nb)" "k \<le> 63"
    and "\<forall>b \<in> set cs. rb_hv b = 0 \<longrightarrow> \<not> bucket_live b"
    and "\<forall>b \<in> set nb. rb_hv b = 0 \<longleftrightarrow> \<not> bucket_live b"
    and "distinct (map rb_hv (filter bucket_live cs))"
    and "rb_hv ` set (filter bucket_live cs) \<inter> rb_hv ` set nb = {}"
    and "length (filter bucket_live cs) + length (filter bucket_live nb) < 2 ^ k"
  shows "\<exists>nb'. refhat_migrate_loop (2 ^ k - 1) (2 ^ k) cs nb = Inr nb' \<and>
     probe_wf k (map rb_hv nb') \<and> (\<forall>b \<in> set nb'. rb_hv b = 0 \<longleftrightarrow> \<not> bucket_live b) \<and>
     mset (filter bucket_live nb') = mset (filter bucket_live nb) + mset (filter bucket_live cs)"
  using placed_all [OF assms] placed_loop [OF _ assms(3)] by blast

lemma filter_live_slots: "filter slot_live (map bucket_slot bs) = map bucket_slot (filter bucket_live bs)"
  by (simp add: filter_map comp_def)

lemma size_bound_step:
  "\<lbrakk>(a::nat) \<le> max 128 (max b (4 * (i + 1))); b \<le> max (2 ^ 30) (4 * n); i < n\<rbrakk>
     \<Longrightarrow> a \<le> max (2 ^ 30) (4 * n)"
  by (auto simp: le_max_iff_disj)

lemma refhat_migrate_ok:
  assumes inv: "refhat_inv t" and full: "rh_used_count t + 1 = rh_threshold t"
  obtains t' where "refhat_migrate t = Inr t'" "refhat_inv t'" "refhat_dict t' = refhat_dict t"
    "rh_next_epoch t' = rh_next_epoch t" "rh_used_count t' + 1 < rh_threshold t'"
proof -
  obtain k where k: "refhat_geom k t" using inv by (rule refhat_invE)
  note b = refhat_geom_bounds [OF inv k]
  note D = refhat_invD [OF inv]
  have ls: "rh_last_slot t = 2 ^ k - 1"
    and thr: "rh_threshold t = hatrack_compute_table_threshold (2 ^ k)"
    and kb: "(2::nat) ^ k \<le> max (2 ^ 30) (4 * rh_next_epoch t)"
    using k by (simp_all add: refhat_geom_def)
  have items: "rh_item_count t = length (filter bucket_live (rh_buckets t))"
    by (simp add: D(3) refhat_slots_def filter_live_slots)
  have used: "rh_used_count t = length (filter (\<lambda>b. rb_hv b \<noteq> 0) (rh_buckets t))"
    by (simp add: D(1) refhat_keys_def filter_map comp_def)
  have le: "rh_item_count t \<le> rh_used_count t"
    unfolding items used using D(4) by (intro length_filter_mono) auto
  have lt: "rh_item_count t < rh_next_epoch t"
    using slots_ok_count [OF D(5,6)] D(3) by simp
  obtain k' where k': "4 \<le> k'" "hatrack_new_size (2 ^ k - 1) (rh_item_count t + 1) = 2 ^ k'"
    "rh_item_count t + 1 < hatrack_compute_table_threshold (2 ^ k')"
    "(2::nat) ^ k' \<le> max 128 (max (2 ^ k) (4 * (rh_item_count t + 1)))"
    using new_size_room [OF b(1), of "rh_item_count t + 1"] b(2) full le thr by auto
  have kb': "(2::nat) ^ k' \<le> max (2 ^ 30) (4 * rh_next_epoch t)" using k'(4) kb lt by (rule size_bound_step)
  also have "\<dots> \<le> 2 ^ 57" using D(7) by (simp add: epoch_limit_def)
  finally have p57: "(2::nat) ^ k' \<le> 2 ^ 57" .
  then have k57: "k' \<le> 57" using power_le_imp_le_exp [of "2::nat" k' 57] by simp
  have thr': "hatrack_compute_table_threshold (2 ^ k') < 2 ^ k'"
    using threshold_eq [of "2 ^ k'"] p57 power_increasing [OF k'(1), of "2::nat"] by simp
  have item64: "wrap64 (rh_item_count t + 1) = rh_item_count t + 1"
    using lt D(7) by (intro wrap64_id) (simp add: epoch_limit_def)
  have new_last: "wrap64 (2 ^ k' + 2 ^ 64 - 1) = 2 ^ k' - 1"
  proof -
    have "(2::nat) ^ k' + 2 ^ 64 - 1 = (2 ^ k' - 1) + 1 * 2 ^ 64" by simp
    then show ?thesis using p57 by (simp only: wrap64_add_mult) (simp add: wrap64_id)
  qed
  have bytes: "wrap64 (2 ^ k' * sizeof_refhat_bucket) = 2 ^ k' * sizeof_refhat_bucket"
    using p57 by (simp add: wrap64_id sizeof_refhat_bucket_def)
  have zal: "zalloc_buckets (2 ^ k' * sizeof_refhat_bucket) = replicate (2 ^ k') zero_bucket"
    by (simp add: zalloc_buckets_def sizeof_refhat_bucket_def)
  obtain nb where nb: "refhat_migrate_loop (2 ^ k' - 1) (2 ^ k') (rh_buckets t)
        (replicate (2 ^ k') zero_bucket) = Inr nb"
    and wf: "probe_wf k' (map rb_hv nb)"
    and nbz: "\<forall>b \<in> set nb. rb_hv b = 0 \<longleftrightarrow> \<not> bucket_live b"
    and ms: "mset (filter bucket_live nb) = mset (filter bucket_live (rh_buckets t))"
  proof -
    have "distinct (map rb_hv (filter bucket_live (rh_buckets t)))"
      using D(5) by (simp add: slots_ok_def refhat_slots_def filter_live_slots bucket_slot_def comp_def)
    moreover have "0 \<notin> rb_hv ` set (filter bucket_live (rh_buckets t))" using D(4) by auto
    moreover have "rb_hv ` set (replicate (2 ^ k') zero_bucket) = {0}"
      by (auto simp: zero_bucket_def image_iff)
    ultimately show ?thesis
      using refhat_migrate_loop_ok [of k' "replicate (2 ^ k') zero_bucket" "rh_buckets t"] that
        k57 probe_wf_empty [of k'] D(4) k'(3) thr' items
      by (auto simp: zero_bucket_def)
  qed
  let ?t = "t\<lparr>rh_used_count := rh_item_count t, rh_buckets := nb,
      rh_buckets_size := 2 ^ k' * sizeof_refhat_bucket, rh_last_slot := 2 ^ k' - 1,
      rh_threshold := hatrack_compute_table_threshold (2 ^ k')\<rparr>"
  have tk: "take (2 ^ k - 1 + 1) (rh_buckets t) = rh_buckets t"
    and inside: "\<not> length (rh_buckets t) \<le> 2 ^ k - 1"
    using b(3) zero_less_power [of "2::nat" k] by (simp_all, linarith)
  have mig: "refhat_migrate t = Inr ?t"
    unfolding refhat_migrate_def Let_def ls item64 k'(2) new_last bytes zal tk nb
      if_not_P [OF inside] and_then_Inr ..
  have slots_ms: "mset (filter slot_live (refhat_slots ?t)) = mset (filter slot_live (refhat_slots t))"
  proof -
    have "refhat_slots ?t = map bucket_slot nb" by (simp add: refhat_slots_def)
    then show ?thesis
      by (simp only: refhat_slots_def [of t] filter_live_slots mset_map ms)
  qed
  have dict: "refhat_dict ?t = refhat_dict t"
    unfolding refhat_dict_def using slots_ms D(5) by (rule odict_moved)
  have ok: "slots_ok (rh_next_epoch t) (refhat_slots ?t)"
    using slots_ms D(5,6) by (rule slots_ok_moved)
  have reserved: "length (filter (\<lambda>h. h \<noteq> 0) (refhat_keys ?t)) = rh_item_count t"
  proof -
    have "filter (\<lambda>b. rb_hv b \<noteq> 0) nb = filter bucket_live nb"
      using nbz by (intro filter_cong) auto
    then show ?thesis
      using arg_cong [OF ms, of size] 
      by (simp add: refhat_keys_def filter_map comp_def items del: mset_filter)
  qed
  have "refhat_geom k' ?t" using k'(1) kb' wf by (simp add: refhat_geom_def refhat_keys_def)
  moreover have "rh_item_count t = length (filter slot_live (refhat_slots ?t))"
    using arg_cong [OF slots_ms, of size] D(3) by (simp del: mset_filter)
  ultimately have "refhat_inv ?t"
    using ok reserved k'(3) nbz D(6,7) unfolding refhat_inv_def by auto
  then show ?thesis using that [of ?t] mig dict k'(3) by simp
qed

section \<open>The operations implement the dictionary\<close>

text \<open>A key's bucket against the dictionary.\<close>

lemma refhat_get_present:
  assumes "refhat_inv t" "i < length (rh_buckets t)" "rb_hv (rh_buckets t ! i) = hv"
    "rb_epoch (rh_buckets t ! i) \<noteq> 0"
  shows "od_get (refhat_dict t) hv = (rb_item (rh_buckets t ! i), True)"
proof -
  have "(hv, rb_item (rh_buckets t ! i), rb_epoch (rh_buckets t ! i)) \<in> set (refhat_slots t)"
    using assms(2,3) by (force simp: refhat_slots_def bucket_slot_def)
  then show ?thesis
    unfolding refhat_dict_def using odict_get refhat_invD(5) [OF assms(1)] assms(4) by blast
qed

lemma refhat_get_dead:
  assumes "refhat_inv t" "i < length (rh_buckets t)" "rb_hv (rh_buckets t ! i) = hv"
    "rb_epoch (rh_buckets t ! i) = 0" "hv \<noteq> 0"
  shows "od_get (refhat_dict t) hv = (0, False)"
  unfolding refhat_dict_def using refhat_present_dead [OF assms] by (rule odict_get_absent)

lemma refhat_get_absent:
  assumes "hv \<notin> set (refhat_keys t)"
  shows "od_get (refhat_dict t) hv = (0, False)"
  unfolding refhat_dict_def using refhat_absent_dead [OF assms] by (rule odict_get_absent)

lemma refhat_get_ok:
  assumes inv: "refhat_inv t" and h: "hv \<noteq> 0"
  shows "refhat_get t hv = Inr (od_get (refhat_dict t) hv)"
  using inv h
proof (cases rule: refhat_find_cases)
  case (present i)
  then show ?thesis
    using refhat_get_present [OF inv present(1,2)] refhat_get_dead [OF inv present(1,2) _ h]
    by (simp add: refhat_get_def Let_def)
next
  case (absent k i)
  then show ?thesis using refhat_get_absent by (simp add: refhat_get_def)
qed

lemma refhat_replace_ok:
  assumes inv: "refhat_inv t" and h: "hv \<noteq> 0"
  obtains t' where "refhat_replace t hv v = Inr (t', od_get (refhat_dict t) hv)" "refhat_inv t'"
    "refhat_dict t' = od_set hv v (refhat_dict t)" "rh_next_epoch t' = rh_next_epoch t"
  using inv h
proof (cases rule: refhat_find_cases)
  case (present i)
  show ?thesis
  proof (cases "rb_epoch (rh_buckets t ! i) = 0")
    case True
    then show ?thesis
      using that [of t] present refhat_get_dead [OF inv present(1,2) _ h] inv
      by (simp add: refhat_replace_def od_set_absent)
  next
    case False
    then show ?thesis
      using that [of "refhat_set_item t i v"] present refhat_get_present [OF inv present(1,2)]
        refhat_set_item_ok [OF inv present(1,2) _ h]
      by (simp add: refhat_replace_def) (simp add: refhat_set_item_def)
  qed
next
  case (absent k i)
  then show ?thesis
    using that [of t] refhat_get_absent [of hv t] inv by (simp add: refhat_replace_def od_set_absent)
qed

lemma refhat_remove_ok:
  assumes inv: "refhat_inv t" and h: "hv \<noteq> 0"
  obtains t' where "refhat_remove t hv = Inr (t', od_get (refhat_dict t) hv)" "refhat_inv t'"
    "refhat_dict t' = od_remove hv (refhat_dict t)" "rh_next_epoch t' = rh_next_epoch t"
  using inv h
proof (cases rule: refhat_find_cases)
  case (present i)
  show ?thesis
  proof (cases "rb_epoch (rh_buckets t ! i) = 0")
    case True
    then show ?thesis
      using that [of t] present refhat_get_dead [OF inv present(1,2) _ h] inv
      by (simp add: refhat_remove_def od_remove_absent)
  next
    case False
    obtain k where k: "refhat_geom k t" "probe_wf k (refhat_keys t)"
      and len: "i < length (refhat_slots t)"
      and ok: "slots_ok (rh_next_epoch t) (refhat_slots t)"
      and old: "refhat_slots t ! i = bucket_slot (rh_buckets t ! i)"
      and same: "(refhat_keys t)[i := rb_hv (rh_buckets t ! i)] = refhat_keys t"
      and c: "rh_item_count t \<le> 2 ^ 57"
      using refhat_ctx [OF inv present(1)] by metis
    let ?b = "(rh_buckets t ! i)\<lparr>rb_epoch := 0\<rparr>"
    let ?t = "t\<lparr>rh_buckets := (rh_buckets t)[i := ?b],
      rh_item_count := wrap64 (rh_item_count t + 2 ^ 64 - 1)\<rparr>"
    have old': "refhat_slots t ! i = (hv, rb_item (rh_buckets t ! i), rb_epoch (rh_buckets t ! i))"
      using old present(2) by (simp add: bucket_slot_def)
    have new: "bucket_slot ?b = (hv, rb_item (rh_buckets t ! i), 0)"
      using present(2) by (simp add: bucket_slot_def)
    note w = odict_kill [OF ok len old' False, folded new]
    have pos: "0 < rh_item_count t"
    proof -
      have "refhat_slots t ! i \<in> set (filter slot_live (refhat_slots t))"
        using nth_mem [OF len] old False by simp
      then have "filter slot_live (refhat_slots t) \<noteq> []" by (metis empty_iff list.set(1))
      then show ?thesis using refhat_invD(3) [OF inv] by simp
    qed
    have dec: "wrap64 (rh_item_count t + 2 ^ 64 - 1) = rh_item_count t - 1"
    proof -
      have "rh_item_count t + 2 ^ 64 - 1 = (rh_item_count t - 1) + 1 * 2 ^ 64" using pos by simp
      then show ?thesis using c by (simp only: wrap64_add_mult) (simp add: wrap64_id)
    qed
    have t': "?t = t\<lparr>rh_buckets := (rh_buckets t)[i := ?b], rh_used_count := rh_used_count t,
        rh_item_count := rh_item_count t - 1, rh_next_epoch := rh_next_epoch t\<rparr>"
      unfolding dec by simp
    have "refhat_inv ?t"
      by (rule refhat_write_inv [OF inv k(1) present(1) t'])
         (use k(2) same w(2) present(2) False h pos refhat_invD [OF inv] in simp_all)
    moreover have "refhat_dict ?t = od_remove hv (refhat_dict t)"
      using w(1) by (simp add: refhat_dict_def refhat_slots_def map_update)
    moreover have "refhat_remove t hv = Inr (?t, od_get (refhat_dict t) hv)"
      using present False refhat_get_present [OF inv present(1,2)] by (simp add: refhat_remove_def)
    ultimately show ?thesis using that [of ?t] by simp
  qed
next
  case (absent k i)
  then show ?thesis
    using that [of t] refhat_get_absent [of hv t] inv
    by (simp add: refhat_remove_def od_remove_absent)
qed

text \<open>
  Insertion. With room below the threshold no migration happens; otherwise one migration
  makes room, so the recursion of \<^verbatim>\<open>refhat_put\<close> and \<^verbatim>\<open>refhat_add\<close> ends after one call.
\<close>

lemma used_wrap:
  assumes "refhat_inv t"
  shows "wrap64 (rh_used_count t + 1) = rh_used_count t + 1"
proof -
  obtain k where k: "refhat_geom k t" using assms by (rule refhat_invE)
  note b = refhat_geom_bounds [OF assms k]
  have "(2::nat) ^ k \<le> 2 ^ 57" using b(2) by (intro power_increasing) auto
  then show ?thesis
    using refhat_invD(2) [OF assms] b(4) by (intro wrap64_id) simp
qed

lemma refhat_put_present:
  assumes inv: "refhat_inv t" and h: "hv \<noteq> 0" and room: "rh_next_epoch t < epoch_limit"
    and i: "i < length (rh_buckets t)" "rb_hv (rh_buckets t ! i) = hv"
    and find: "refhat_find t hv = Inr (Hit i)"
  obtains t' where "refhat_put t hv v = Some (Inr (t', od_get (refhat_dict t) hv))" "refhat_inv t'"
    "refhat_dict t' = od_put hv v (refhat_dict t)" "rh_next_epoch t' \<le> rh_next_epoch t + 1"
proof (cases "rb_epoch (rh_buckets t ! i) = 0")
  case True
  then show ?thesis
    using that [of "refhat_revive t i v"] find refhat_get_dead [OF inv i _ h]
      refhat_revive_ok [OF inv i _ h room]
    by (simp add: refhat_put.simps [of t] od_put_append)
next
  case False
  then show ?thesis
    using that [of "refhat_set_item t i v"] find refhat_get_present [OF inv i]
      refhat_set_item_ok [OF inv i _ h]
    by (simp add: refhat_put.simps [of t] od_put_set) (simp add: refhat_set_item_def)
qed

lemma refhat_put_room:
  assumes inv: "refhat_inv t" and h: "hv \<noteq> 0" and room: "rh_next_epoch t < epoch_limit"
    and below: "rh_used_count t + 1 < rh_threshold t"
  obtains t' where "refhat_put t hv v = Some (Inr (t', od_get (refhat_dict t) hv))" "refhat_inv t'"
    "refhat_dict t' = od_put hv v (refhat_dict t)" "rh_next_epoch t' \<le> rh_next_epoch t + 1"
  using inv h
proof (cases rule: refhat_find_cases)
  case (present i)
  then show ?thesis using refhat_put_present [OF inv h room] that by metis
next
  case (absent k i)
  then show ?thesis
    using that [of "refhat_reserve t i hv v"] refhat_get_absent [OF absent(2)]
      refhat_reserve_ok [OF inv absent(1,3,4) h absent(2,5) room below] used_wrap [OF inv] below
    by (simp add: refhat_put.simps [of t] od_put_append)
qed

lemma refhat_put_ok:
  assumes inv: "refhat_inv t" and h: "hv \<noteq> 0" and room: "rh_next_epoch t < epoch_limit"
  obtains t' where "refhat_put t hv v = Some (Inr (t', od_get (refhat_dict t) hv))" "refhat_inv t'"
    "refhat_dict t' = od_put hv v (refhat_dict t)" "rh_next_epoch t' \<le> rh_next_epoch t + 1"
proof (cases "rh_used_count t + 1 < rh_threshold t")
  case True
  then show ?thesis using refhat_put_room [OF inv h room] that by metis
next
  case False
  then have full: "rh_used_count t + 1 = rh_threshold t" using refhat_invD(2) [OF inv] by simp
  obtain m where m: "refhat_migrate t = Inr m" "refhat_inv m" "refhat_dict m = refhat_dict t"
    "rh_next_epoch m = rh_next_epoch t" "rh_used_count m + 1 < rh_threshold m"
    by (rule refhat_migrate_ok [OF inv full])
  from inv h show ?thesis
  proof (cases rule: refhat_find_cases)
    case (present i)
    then show ?thesis using refhat_put_present [OF inv h room] that by metis
  next
    case (absent k i)
    then have "refhat_put t hv v = refhat_put m hv v"
      using m(1) full used_wrap [OF inv] by (simp add: refhat_put.simps [of t])
    then show ?thesis using refhat_put_room [OF m(2) h _ m(5)] m(3,4) room that by metis
  qed
qed

lemma refhat_add_present:
  assumes inv: "refhat_inv t" and h: "hv \<noteq> 0" and room: "rh_next_epoch t < epoch_limit"
    and i: "i < length (rh_buckets t)" "rb_hv (rh_buckets t ! i) = hv"
    and find: "refhat_find t hv = Inr (Hit i)"
  obtains t' where "refhat_add t hv v = Some (Inr (t', \<not> snd (od_get (refhat_dict t) hv)))"
    "refhat_inv t'" "refhat_dict t' = od_add hv v (refhat_dict t)"
    "rh_next_epoch t' \<le> rh_next_epoch t + 1"
proof (cases "rb_epoch (rh_buckets t ! i) = 0")
  case True
  then show ?thesis
    using that [of "refhat_revive t i v"] find refhat_get_dead [OF inv i _ h]
      refhat_revive_ok [OF inv i _ h room]
    by (simp add: refhat_add.simps [of t] od_add_cases)
next
  case False
  then show ?thesis
    using that [of t] find refhat_get_present [OF inv i] inv
    by (simp add: refhat_add.simps [of t] od_add_cases)
qed

lemma refhat_add_room:
  assumes inv: "refhat_inv t" and h: "hv \<noteq> 0" and room: "rh_next_epoch t < epoch_limit"
    and below: "rh_used_count t + 1 < rh_threshold t"
  obtains t' where "refhat_add t hv v = Some (Inr (t', \<not> snd (od_get (refhat_dict t) hv)))"
    "refhat_inv t'" "refhat_dict t' = od_add hv v (refhat_dict t)"
    "rh_next_epoch t' \<le> rh_next_epoch t + 1"
  using inv h
proof (cases rule: refhat_find_cases)
  case (present i)
  then show ?thesis using refhat_add_present [OF inv h room] that by metis
next
  case (absent k i)
  then show ?thesis
    using that [of "refhat_reserve t i hv v"] refhat_get_absent [OF absent(2)]
      refhat_reserve_ok [OF inv absent(1,3,4) h absent(2,5) room below] used_wrap [OF inv] below
    by (simp add: refhat_add.simps [of t] od_add_cases)
qed

lemma refhat_add_ok:
  assumes inv: "refhat_inv t" and h: "hv \<noteq> 0" and room: "rh_next_epoch t < epoch_limit"
  obtains t' where "refhat_add t hv v = Some (Inr (t', \<not> snd (od_get (refhat_dict t) hv)))"
    "refhat_inv t'" "refhat_dict t' = od_add hv v (refhat_dict t)"
    "rh_next_epoch t' \<le> rh_next_epoch t + 1"
proof (cases "rh_used_count t + 1 < rh_threshold t")
  case True
  then show ?thesis using refhat_add_room [OF inv h room] that by metis
next
  case False
  then have full: "rh_used_count t + 1 = rh_threshold t" using refhat_invD(2) [OF inv] by simp
  obtain m where m: "refhat_migrate t = Inr m" "refhat_inv m" "refhat_dict m = refhat_dict t"
    "rh_next_epoch m = rh_next_epoch t" "rh_used_count m + 1 < rh_threshold m"
    by (rule refhat_migrate_ok [OF inv full])
  from inv h show ?thesis
  proof (cases rule: refhat_find_cases)
    case (present i)
    then show ?thesis using refhat_add_present [OF inv h room] that by metis
  next
    case (absent k i)
    then have "refhat_add t hv v = refhat_add m hv v"
      using m(1) full used_wrap [OF inv] by (simp add: refhat_add.simps [of t])
    then show ?thesis using refhat_add_room [OF m(2) h _ m(5)] m(3,4) room that by metis
  qed
qed

lemma refhat_len_ok: "refhat_inv t \<Longrightarrow> refhat_len t = length (refhat_dict t)"
  using refhat_invD(3) by (simp add: refhat_len_def refhat_dict_def length_odict)

section \<open>Views\<close>

lemma refhat_view_live:
  assumes inv: "refhat_inv t"
  shows "refhat_view t srt =
    (let view = map (\<lambda>b. \<lparr>view_item = rb_item b, sort_epoch = of_nat (rb_epoch b)\<rparr>)
                    (filter bucket_live (rh_buckets t))
     in Inr (if srt then qsort hatrack_quicksort_cmp view else view, length (refhat_dict t)))"
proof -
  obtain k where k: "refhat_geom k t" using inv by (rule refhat_invE)
  have ls: "rh_last_slot t = 2 ^ k - 1" using k by (simp add: refhat_geom_def)
  note b = refhat_geom_bounds [OF inv k]
  have tk: "take (2 ^ k - 1 + 1) (rh_buckets t) = rh_buckets t"
    and inside: "\<not> length (rh_buckets t) \<le> 2 ^ k - 1"
    using b(3) zero_less_power [of "2::nat" k] by (simp_all, linarith)
  have flt: "filter (\<lambda>cur. \<not> (hatrack_bucket_unreserved (rb_hv cur) \<or> rb_epoch cur = 0))
      (rh_buckets t) = filter bucket_live (rh_buckets t)"
    using refhat_invD(4) [OF inv] by (intro filter_cong) auto
  have "rh_item_count t = length (filter bucket_live (rh_buckets t))"
    using refhat_invD(3) [OF inv] by (simp add: refhat_slots_def filter_live_slots)
  then show ?thesis
    using refhat_len_ok [OF inv] unfolding refhat_view_def ls tk if_not_P [OF inside] flt
    by (simp add: Let_def refhat_len_def)
qed

lemma refhat_live_sorted:
  "map rb_item (sort_key rb_epoch (filter bucket_live (rh_buckets t))) = map snd (refhat_dict t)"
  by (simp add: refhat_dict_def odict_def live_slots_def refhat_slots_def filter_live_slots
      sort_key_map bucket_slot_def comp_def)

lemma refhat_view_sorted_ok:
  assumes inv: "refhat_inv t" and e: "rh_next_epoch t \<le> 2 ^ 31"
  obtains view where "refhat_view t True = Inr (view, length (refhat_dict t))"
    "map view_item view = map snd (refhat_dict t)"
proof -
  let ?g = "\<lambda>b. \<lparr>view_item = rb_item b, sort_epoch = of_nat (rb_epoch b)\<rparr>"
  have ep: "rb_epoch b < 2 ^ 31" if "b \<in> set (rh_buckets t)" for b
  proof -
    have "bucket_slot b \<in> set (refhat_slots t)" using that by (simp add: refhat_slots_def)
    then show ?thesis
      using refhat_invD(5) [OF inv] e by (fastforce simp: slots_ok_def bucket_slot_def)
  qed
  have "qsort hatrack_quicksort_cmp (map ?g (filter bucket_live (rh_buckets t))) =
      map ?g (sort_key rb_epoch (filter bucket_live (rh_buckets t)))"
  proof (rule qsort_key)
    fix x y assume "x \<in> set (filter bucket_live (rh_buckets t))"
      "y \<in> set (filter bucket_live (rh_buckets t))"
    then have "rb_epoch x < 2 ^ 31" "rb_epoch y < 2 ^ 31" using ep by auto
    then show "(hatrack_quicksort_cmp (?g x) (?g y) \<le> 0) = (rb_epoch x \<le> rb_epoch y)"
      using quicksort_cmp_near [of "?g x" "rb_epoch x" "?g y" "rb_epoch y"] by simp
  qed
  then have "refhat_view t True =
      Inr (map ?g (sort_key rb_epoch (filter bucket_live (rh_buckets t))), length (refhat_dict t))"
    using refhat_view_live [OF inv, of True] by simp
  then show ?thesis
    using that refhat_live_sorted [of t] by (simp add: comp_def)
qed

section \<open>Initial state\<close>

lemma refhat_init_size_ok:
  assumes "4 \<le> sz" "sz \<le> 30"
  obtains t where "refhat_init_size sz = Inr t" "refhat_inv t" "refhat_dict t = []"
    "rh_next_epoch t = 1"
proof -
  define k where "k = nat sz"
  have k: "4 \<le> k" "k \<le> 30" using assms by (auto simp: k_def)
  have p: "(2::nat) ^ k \<le> 2 ^ 30" using k(2) by (intro power_increasing) auto
  have p4: "(16::nat) \<le> 2 ^ k" using power_increasing [OF k(1), of "2::nat"] by simp
  let ?t = "\<lparr>rh_last_slot = 2 ^ k - 1, rh_threshold = hatrack_compute_table_threshold (2 ^ k),
    rh_used_count = 0, rh_item_count = 0, rh_buckets = replicate (2 ^ k) zero_bucket,
    rh_buckets_size = 2 ^ k * sizeof_refhat_bucket, rh_next_epoch = 1\<rparr>"
  have bytes: "wrap64 (2 ^ k * sizeof_refhat_bucket) = 2 ^ k * sizeof_refhat_bucket"
    using p by (intro wrap64_id) (simp add: sizeof_refhat_bucket_def)
  have "refhat_init_size sz = Inr ?t"
    using assms unfolding refhat_init_size_def Let_def push_bit_eq_mult k_def [symmetric] mult_1 bytes
    by (simp add: HATRACK_MIN_SIZE_LOG_def zalloc_buckets_def sizeof_refhat_bucket_def)
  moreover have dead: "slot_epoch s = 0" if "s \<in> set (refhat_slots ?t)" for s
    using that by (auto simp: refhat_slots_def bucket_slot_def zero_bucket_def)
  then have dict: "refhat_dict ?t = []" by (simp add: refhat_dict_def odict_all_dead)
  have live: "filter slot_live (refhat_slots ?t) = []"
    using dead by (simp add: filter_empty_conv slot_live_def)
  have "refhat_inv ?t"
    unfolding refhat_inv_def slots_ok_def live
  proof (intro conjI exI [of _ k])
    show "refhat_geom k ?t"
      using k p probe_wf_empty [of k] by (simp add: refhat_geom_def refhat_keys_def zero_bucket_def)
    show "rh_used_count ?t < rh_threshold ?t"
      using threshold_eq [of "2 ^ k"] p p4 by simp
  qed (use dead in \<open>auto simp: refhat_keys_def zero_bucket_def epoch_limit_def\<close>)
  ultimately show ?thesis using that [of ?t] dict by simp
qed

section \<open>The vtable contract\<close>

interpretation refhat: hatrack_table refhat_vtable refhat_inv refhat_dict rh_next_epoch epoch_limit
proof
  show "\<exists>t. vt_init refhat_vtable = Inr t \<and> refhat_inv t \<and> refhat_dict t = [] \<and> rh_next_epoch t = 1"
    by (rule refhat_init_size_ok [of 4])
       (auto simp: refhat_vtable_def refhat_init_def HATRACK_MIN_SIZE_LOG_def)
  show "\<exists>t. vt_init_sz refhat_vtable sz = Inr t \<and> refhat_inv t \<and> refhat_dict t = [] \<and>
      rh_next_epoch t = 1" if "4 \<le> sz" "sz \<le> 30" for sz
    using that by (rule refhat_init_size_ok) (auto simp: refhat_vtable_def)
  fix t :: refhat and hv :: hatrack_hash and v :: ptr
  assume inv: "refhat_inv t"
  show "vt_len refhat_vtable t = length (refhat_dict t)"
    using refhat_len_ok [OF inv] by (simp add: refhat_vtable_def)
  {
    assume "rh_next_epoch t \<le> 2 ^ 31"
    then obtain view where "refhat_view t True = Inr (view, length (refhat_dict t))"
      "map view_item view = map snd (refhat_dict t)"
      by (rule refhat_view_sorted_ok [OF inv])
    then show "\<exists>t' view. vt_view refhat_vtable t True = Some (Inr (t', view, length (refhat_dict t))) \<and>
        refhat_inv t' \<and> refhat_dict t' = refhat_dict t \<and> map view_item view = map snd (refhat_dict t)"
      using inv by (auto simp: refhat_vtable_def)
  }
  assume h: "hv \<noteq> 0"
  show "\<exists>t'. vt_get refhat_vtable t hv = Some (Inr (t', od_get (refhat_dict t) hv)) \<and>
      refhat_inv t' \<and> refhat_dict t' = refhat_dict t \<and> rh_next_epoch t' \<le> rh_next_epoch t"
    using refhat_get_ok [OF inv h] inv by (simp add: refhat_vtable_def)
  show "\<exists>t'. vt_replace refhat_vtable t hv v = Some (Inr (t', od_get (refhat_dict t) hv)) \<and>
      refhat_inv t' \<and> refhat_dict t' = od_set hv v (refhat_dict t) \<and>
      rh_next_epoch t' \<le> rh_next_epoch t"
    by (rule refhat_replace_ok [OF inv h, of v]) (auto simp: refhat_vtable_def)
  show "\<exists>t'. vt_remove refhat_vtable t hv = Some (Inr (t', od_get (refhat_dict t) hv)) \<and>
      refhat_inv t' \<and> refhat_dict t' = od_remove hv (refhat_dict t) \<and>
      rh_next_epoch t' \<le> rh_next_epoch t"
    by (rule refhat_remove_ok [OF inv h]) (auto simp: refhat_vtable_def)
  assume room: "rh_next_epoch t < epoch_limit"
  show "\<exists>t'. vt_put refhat_vtable t hv v = Some (Inr (t', od_get (refhat_dict t) hv)) \<and>
      refhat_inv t' \<and> refhat_dict t' = od_put hv v (refhat_dict t) \<and>
      rh_next_epoch t' \<le> rh_next_epoch t + 1"
    by (rule refhat_put_ok [OF inv h room, of v]) (auto simp: refhat_vtable_def)
  show "\<exists>t'. vt_add refhat_vtable t hv v = Some (Inr (t', \<not> snd (od_get (refhat_dict t) hv))) \<and>
      refhat_inv t' \<and> refhat_dict t' = od_add hv v (refhat_dict t) \<and>
      rh_next_epoch t' \<le> rh_next_epoch t + 1"
    by (rule refhat_add_ok [OF inv h room, of v]) (auto simp: refhat_vtable_def)
qed

section \<open>A table one reservation below its threshold\<close>

text \<open>
  Ten buckets of sixteen are reserved, each key in its home bucket and inserted in the reverse
  order of the buckets; the bucket of key 4 is deleted.
\<close>

definition refhat_full :: refhat where
  "refhat_full = \<lparr>rh_last_slot = 15, rh_threshold = 11, rh_used_count = 10, rh_item_count = 9,
     rh_buckets = zero_bucket # map (\<lambda>i. \<lparr>rb_hv = of_nat i, rb_item = of_nat (100 + i),
        rb_epoch = (if i = 4 then 0 else 11 - i)\<rparr>) [1..<11] @ replicate 5 zero_bucket,
     rh_buckets_size = 512, rh_next_epoch = 12\<rparr>"

lemma refhat_full_inv: "refhat_inv refhat_full" (is "refhat_inv ?t")
proof -
  have keys: "refhat_keys ?t = [0, 1, 2, 3, 4, 5, 6, 7, 8, 9, 10, 0, 0, 0, 0, 0]"
    by (simp add: refhat_keys_def refhat_full_def zero_bucket_def upt_rec numeral_eq_Suc)
  have home_small: "home 4 1 = 1" "home 4 2 = 2" "home 4 3 = 3" "home 4 4 = 4" "home 4 5 = 5"
    "home 4 6 = 6" "home 4 7 = 7" "home 4 8 = 8" "home 4 9 = 9" "home 4 10 = 10"
    by (simp_all add: home_def)
  have "probe_wf 4 (refhat_keys ?t)"
    unfolding keys by (rule probe_wf_home) (simp_all add: home_small)
  moreover have "hatrack_compute_table_threshold 16 = 11" by (simp add: threshold_eq)
  ultimately have "refhat_geom 4 ?t"
    by (simp add: refhat_geom_def refhat_full_def sizeof_refhat_bucket_def)
  moreover have "rh_used_count ?t = length (filter (\<lambda>h. h \<noteq> 0) (refhat_keys ?t))"
    unfolding keys by (simp add: refhat_full_def)
  moreover have "rh_item_count ?t = length (filter slot_live (refhat_slots ?t))" by code_simp
  moreover have "\<forall>b \<in> set (rh_buckets ?t). rb_hv b = 0 \<longrightarrow> rb_epoch b = 0" by code_simp
  moreover have "slots_ok (rh_next_epoch ?t) (refhat_slots ?t)" by code_simp
  moreover have "rh_used_count ?t < rh_threshold ?t" "0 < rh_next_epoch ?t" "rh_next_epoch ?t \<le> epoch_limit"
    by (simp_all add: refhat_full_def epoch_limit_def)
  ultimately show ?thesis unfolding refhat_inv_def by blast
qed
section \<open>Properties\<close>

text \<open>C1: Any sequence of calls through the vtable (get, put, replace, add, remove and len, with
  non-null hash values) on a new reference table returns without panic or undefined
  behaviour, gives exactly the answers of the insertion-ordered dictionary, and leaves
  the table holding that dictionary.\<close>

theorem refhat_run_refines:
  assumes "list_all call_ok cs" "length cs < epoch_limit"
  shows "\<exists>t0 s'. refhat_new = Inr t0 \<and>
     testhat_run \<lparr>th_vtable = refhat_vtable, th_htable = t0\<rparr> cs = Some (Inr (s', snd (od_run [] cs))) \<and>
     refhat_inv (th_htable s') \<and> refhat_dict (th_htable s') = fst (od_run [] cs)"
proof -
  obtain t0 where t0: "refhat_init = Inr t0" "refhat_inv t0" "refhat_dict t0 = []"
    "rh_next_epoch t0 = 1"
    using refhat.init_ok by (auto simp: refhat_vtable_def)
  with assms refhat.run_refines [of "\<lparr>th_vtable = refhat_vtable, th_htable = t0\<rparr>" cs]
  show ?thesis by (auto simp: refhat_new_def)
qed

theorem refhat_run_refines_witness:
  "\<exists>t0 s'. refhat_new = Inr t0 \<and>
     testhat_run \<lparr>th_vtable = refhat_vtable, th_htable = t0\<rparr>
       [CallPut 5 7, CallAdd 21 8, CallRemove 5, CallPut 5 9, CallGet 5, CallLen] =
       Some (Inr (s', [Item 0 False, Added True, Item 7 True, Item 0 False, Item 9 True, Length 2])) \<and>
     refhat_dict (th_htable s') = [(21, 8), (5, 9)]"
proof -
  let ?cs = "[CallPut 5 7, CallAdd 21 8, CallRemove 5, CallPut 5 9, CallGet 5, CallLen]"
  have run: "od_run [] ?cs = ([(21, 8), (5, 9)],
      [Item 0 False, Added True, Item 7 True, Item 0 False, Item 9 True, Length 2])"
    by code_simp
  have "list_all call_ok ?cs" "length ?cs < epoch_limit" by (simp_all add: epoch_limit_def)
  from refhat_run_refines [OF this] show ?thesis unfolding run fst_conv snd_conv by blast
qed

text \<open>C23: \<^verbatim>\<open>refhat_put\<close> returns (its recursion after a migration ends), keeps the table
  invariant, hands back the previous item and whether there was one, and changes the dictionary
  as a put does: an old key keeps its place, a new one goes to the end.\<close>

theorem refhat_put_refines:
  assumes "refhat_inv t" "hv \<noteq> 0" "rh_next_epoch t < epoch_limit"
  shows "\<exists>t'. refhat_put t hv item = Some (Inr (t', od_get (refhat_dict t) hv)) \<and> refhat_inv t' \<and>
     refhat_dict t' = od_put hv item (refhat_dict t)"
  using refhat_put_ok [OF assms] by metis

theorem refhat_put_refines_witness:
  "\<exists>t t'. refhat_inv t \<and> refhat_put t 5 7 = Some (Inr (t', 0, False)) \<and> refhat_dict t' = [(5, 7)]"
proof -
  obtain t where t: "refhat_inv t" "refhat_dict t = []" "rh_next_epoch t = 1"
    by (rule refhat_init_size_ok [of 4]) auto
  then show ?thesis
    using refhat_put_refines [of t 5 7] by (auto simp: epoch_limit_def od_get_def od_put_def)
qed

text \<open>C24: Migration, called when one more reservation would reach the threshold, loses and reorders
  nothing, keeps the invariant, drops the deletion marks, and leaves the new table
  below its own threshold by more than one reservation, whether it grew, shrank or kept its size.\<close>

theorem refhat_migrate_makes_room:
  assumes "refhat_inv t" "rh_used_count t + 1 = rh_threshold t"
  shows "\<exists>t'. refhat_migrate t = Inr t' \<and> refhat_inv t' \<and> refhat_dict t' = refhat_dict t \<and>
     rh_used_count t' = rh_item_count t \<and> rh_used_count t' + 1 < rh_threshold t'"
proof -
  obtain t' where t': "refhat_migrate t = Inr t'" "refhat_inv t'" "refhat_dict t' = refhat_dict t"
    "rh_used_count t' + 1 < rh_threshold t'"
    using refhat_migrate_ok [OF assms] by metis
  then have "rh_used_count t' = rh_item_count t"
    by (auto simp: refhat_migrate_def Let_def outcome_simps split: if_splits)
  with t' show ?thesis by blast
qed

theorem refhat_migrate_makes_room_witness:
  "\<exists>t'. refhat_migrate refhat_full = Inr t' \<and> refhat_dict t' = refhat_dict refhat_full \<and>
     rh_used_count t' = 9 \<and> 10 < rh_threshold t'"
proof -
  have "rh_used_count refhat_full + 1 = rh_threshold refhat_full" "rh_item_count refhat_full = 9"
    by (simp_all add: refhat_full_def)
  then show ?thesis using refhat_migrate_makes_room [OF refhat_full_inv] by auto
qed

text \<open>C25: A sorted view lists the items of the table in insertion order, each exactly once, as long
  as fewer than \<open>2 ^ 31\<close> insertions have been made.\<close>

theorem refhat_view_insertion_order:
  assumes "refhat_inv t" "rh_next_epoch t \<le> 2 ^ 31"
  shows "\<exists>view. refhat_view t True = Inr (view, refhat_len t) \<and>
     map view_item view = map snd (refhat_dict t)"
  using refhat_view_sorted_ok [OF assms] refhat_len_ok [OF assms(1)] by metis

theorem refhat_view_insertion_order_witness:
  "\<exists>view. refhat_view refhat_full True = Inr (view, 9) \<and>
     map view_item view = [110, 109, 108, 107, 106, 105, 103, 102, 101]"
proof -
  have "refhat_len refhat_full = 9" by (simp add: refhat_len_def refhat_full_def)
  moreover have "map snd (refhat_dict refhat_full) = [110, 109, 108, 107, 106, 105, 103, 102, 101]"
    by code_simp
  moreover have "rh_next_epoch refhat_full \<le> 2 ^ 31" by (simp add: refhat_full_def)
  ultimately show ?thesis using refhat_view_insertion_order [OF refhat_full_inv] by metis
qed

text \<open>C26: \<^verbatim>\<open>refhat_init_size\<close> panics below the minimum size and above 64, and gives an empty
  well-formed table from 4 to 30; from 31 to 64, which its guard lets through, the size is
  computed with an undefined shift of an \<^verbatim>\<open>int\<close>.\<close>

theorem refhat_init_size_outcomes:
  "case refhat_init_size sz of
     Inl (Panic msg) \<Rightarrow> sz < 4 \<or> 64 < sz
   | Inl e \<Rightarrow> e = BadShift \<and> 31 \<le> sz \<and> sz \<le> 64
   | Inr t \<Rightarrow> 4 \<le> sz \<and> sz \<le> 30 \<and> refhat_inv t \<and> refhat_dict t = []"
proof (cases "4 \<le> sz \<and> sz \<le> 30")
  case True
  then show ?thesis by (auto intro: refhat_init_size_ok [of sz])
next
  case False
  then show ?thesis by (auto simp: refhat_init_size_def HATRACK_MIN_SIZE_LOG_def)
qed

text \<open>C27: The null hash value is accepted by \<^verbatim>\<open>refhat_put\<close> but not stored as a key: the item is
  counted, no bucket is reserved for it, and the view of the table overstates its contents
  by an uninitialised entry.\<close>

theorem refhat_null_hash_lost:
  "\<exists>t0 t. refhat_new = Inr t0 \<and> refhat_put t0 0 item = Some (Inr (t, 0, False)) \<and>
     refhat_len t = 1 \<and> rh_used_count t = 0 \<and> refhat_view t True = Inl Uninit"
proof -
  have t0: "refhat_new = Inr \<lparr>rh_last_slot = 15, rh_threshold = 11, rh_used_count = 0,
      rh_item_count = 0, rh_buckets = replicate 16 zero_bucket, rh_buckets_size = 512,
      rh_next_epoch = 1\<rparr>" (is "_ = Inr ?t")
    by (simp add: refhat_new_def refhat_init_def refhat_init_size_def HATRACK_MIN_SIZE_LOG_def
        Let_def push_bit_eq_mult wrap64_def sizeof_refhat_bucket_def zalloc_buckets_def
        threshold_eq)
  have bs: "replicate 16 zero_bucket = zero_bucket # replicate 15 zero_bucket"
    using replicate_Suc [of 15 zero_bucket] by simp
  have find: "refhat_find ?t 0 = Inr (Hit 0)"
    using probe.simps(2) [of "map rb_hv (replicate 16 zero_bucket)" 15 0 0 15]
    by (simp add: refhat_find_def zero_bucket_def hatrack_bucket_index_def wrap64_def)
  have "refhat_put ?t 0 item = Some (Inr (refhat_revive ?t 0 item, 0, False))"
    using find by (simp add: refhat_put.simps zero_bucket_def)
  moreover have "refhat_len (refhat_revive ?t 0 item) = 1" "rh_used_count (refhat_revive ?t 0 item) = 0"
    by (simp_all add: refhat_revive_def refhat_len_def wrap64_def)
  moreover have "refhat_view (refhat_revive ?t 0 item) True = Inl Uninit"
    unfolding bs by (simp add: refhat_view_def refhat_revive_def wrap64_def zero_bucket_def)
  ultimately show ?thesis using t0 by blast
qed

end
