(* ===== verification/Refhat_Simulation.thy ===== *)
theory Refhat_Simulation
  imports Refhat
begin

text \<open>
  Several hatrack tables are the reference table with another layout: their buckets and counters
  map onto a \<^verbatim>\<open>refhat_t\<close>, and every operation does to that image what the reference operation
  does. The locale \<open>refhat_simulation\<close> states this as one law per operation of the vtable; \<open>own\<close>
  is what the table keeps beside its image (no lock held, no registered reader, and so on). Such a
  table fulfils the contract of \<open>Hatrack_Table\<close>, which is proved once, here.
\<close>

section \<open>The contract of a table that simulates the reference table\<close>

locale refhat_simulation =
  fixes vt :: "'t hatrack_vtable"
    and abs :: "'t \<Rightarrow> refhat"
    and own :: "'t \<Rightarrow> bool"
  assumes init_sim: "refhat_init = Inr r \<Longrightarrow> \<exists>t. vt_init vt = Inr t \<and> own t \<and> abs t = r"
    and init_sz_sim: "\<lbrakk>4 \<le> sz; sz \<le> 30; refhat_init_size sz = Inr r\<rbrakk> \<Longrightarrow>
      \<exists>t. vt_init_sz vt sz = Inr t \<and> own t \<and> abs t = r"
    and get_sim: "\<lbrakk>own t; refhat_get (abs t) hv = Inr x\<rbrakk> \<Longrightarrow>
      \<exists>t'. vt_get vt t hv = Some (Inr (t', x)) \<and> own t' \<and> abs t' = abs t"
    and put_sim: "\<lbrakk>own t; refhat_inv (abs t); hv \<noteq> 0; refhat_put (abs t) hv v = Some (Inr (r, x))\<rbrakk> \<Longrightarrow>
      \<exists>t'. vt_put vt t hv v = Some (Inr (t', x)) \<and> own t' \<and> abs t' = r"
    and replace_sim: "\<lbrakk>own t; refhat_replace (abs t) hv v = Inr (r, x)\<rbrakk> \<Longrightarrow>
      \<exists>t'. vt_replace vt t hv v = Some (Inr (t', x)) \<and> own t' \<and> abs t' = r"
    and add_sim: "\<lbrakk>own t; refhat_inv (abs t); hv \<noteq> 0; refhat_add (abs t) hv v = Some (Inr (r, b))\<rbrakk> \<Longrightarrow>
      \<exists>t'. vt_add vt t hv v = Some (Inr (t', b)) \<and> own t' \<and> abs t' = r"
    and remove_sim: "\<lbrakk>own t; refhat_remove (abs t) hv = Inr (r, x)\<rbrakk> \<Longrightarrow>
      \<exists>t'. vt_remove vt t hv = Some (Inr (t', x)) \<and> own t' \<and> abs t' = r"
    and len_sim: "own t \<Longrightarrow> vt_len vt t = refhat_len (abs t)"
    and view_sim: "\<lbrakk>own t; refhat_inv (abs t); refhat_view (abs t) True = Inr view\<rbrakk> \<Longrightarrow>
      \<exists>t'. vt_view vt t True = Some (Inr (t', view)) \<and> own t' \<and> abs t' = abs t"
text \<open>What the reference table promises, in the form the laws of the simulation take.\<close>

lemma refhat_init_total:
  "\<exists>t. refhat_init = Inr t \<and> refhat_inv t \<and> refhat_dict t = [] \<and> rh_next_epoch t = 1"
  using refhat.init_ok by (simp add: refhat_vtable_def)

lemma refhat_view_total:
  assumes "refhat_inv t" "rh_next_epoch t \<le> 2 ^ 31"
  shows "\<exists>view. refhat_view t True = Inr (view, length (refhat_dict t)) \<and>
     map view_item view = map snd (refhat_dict t)"
  by (rule refhat_view_sorted_ok [OF assms]) blast

text \<open>The table a migration asks for is small enough for its size computations.\<close>

lemma refhat_new_size_bound:
  assumes "refhat_inv t"
  shows "0 < hatrack_new_size (rh_last_slot t) n" "hatrack_new_size (rh_last_slot t) n \<le> 2 ^ 58"
proof -
  obtain k where k: "refhat_geom k t" using assms by (rule refhat_invE)
  note b = refhat_geom_bounds [OF assms k]
  have p: "(2::nat) ^ k \<le> 2 ^ 57" "(16::nat) \<le> 2 ^ k"
    using power_increasing [OF b(2), of "2::nat"] power_increasing [OF b(1), of "2::nat"] by simp_all
  have "rh_last_slot t + 1 = 2 ^ k" using k by (simp add: refhat_geom_def)
  then show "0 < hatrack_new_size (rh_last_slot t) n" "hatrack_new_size (rh_last_slot t) n \<le> 2 ^ 58"
    using new_size_eq [of "rh_last_slot t" n] p by auto
qed

lemma probe_in_range:
  "probe ks ls hv b n = Inr r \<Longrightarrow> (case r of Hit i \<Rightarrow> i | Vacant i \<Rightarrow> i) < length ks"
  by (induction ks ls hv b n rule: probe.induct) (auto simp: outcome_simps split: if_splits)

lemma refhat_find_ends:
  obtains (fails) e where "refhat_find t hv = Inl e"
  | (hits) i where "refhat_find t hv = Inr (Hit i)" "i < length (rh_buckets t)"
  | (vacant) i where "refhat_find t hv = Inr (Vacant i)" "i < length (rh_buckets t)"
proof (cases "refhat_find t hv")
  case (Inr r)
  then have "(case r of Hit i \<Rightarrow> i | Vacant i \<Rightarrow> i) < length (rh_buckets t)"
    using probe_in_range [OF Inr [unfolded refhat_find_def]] by simp
  with Inr that show ?thesis by (cases r) auto
qed (use that in auto)

lemma refhat_full_iff:
  assumes "refhat_inv t"
  shows "wrap64 (rh_used_count t + 1) = rh_threshold t \<longleftrightarrow> rh_used_count t + 1 = rh_threshold t"
  using used_wrap [OF assms] by simp

sublocale refhat_simulation \<subseteq> hatrack_table vt "\<lambda>t. own t \<and> refhat_inv (abs t)"
  "\<lambda>t. refhat_dict (abs t)" "\<lambda>t. rh_next_epoch (abs t)" epoch_limit
proof
  show "\<exists>t. vt_init vt = Inr t \<and> (own t \<and> refhat_inv (abs t)) \<and> refhat_dict (abs t) = [] \<and>
      rh_next_epoch (abs t) = 1"
    using refhat_init_total init_sim by force
  show "\<exists>t. vt_init_sz vt sz = Inr t \<and> (own t \<and> refhat_inv (abs t)) \<and> refhat_dict (abs t) = [] \<and>
      rh_next_epoch (abs t) = 1"
    if "4 \<le> sz" "sz \<le> 30" for sz
    using that by (rule refhat_init_size_ok) (use init_sz_sim that in force)
  fix t and hv :: hatrack_hash and v :: ptr
  assume "own t \<and> refhat_inv (abs t)"
  then have own: "own t" and inv: "refhat_inv (abs t)" by simp_all
  show "vt_len vt t = length (refhat_dict (abs t))"
    using len_sim [OF own] refhat_len_ok [OF inv] by simp
  {
    assume "rh_next_epoch (abs t) \<le> 2 ^ 31"
    then obtain view where "refhat_view (abs t) True = Inr (view, length (refhat_dict (abs t)))"
      and items: "map view_item view = map snd (refhat_dict (abs t))"
      using refhat_view_total [OF inv] by blast
    from view_sim [OF own inv this(1)] items inv
    show "\<exists>t' view. vt_view vt t True = Some (Inr (t', view, length (refhat_dict (abs t)))) \<and>
        (own t' \<and> refhat_inv (abs t')) \<and> refhat_dict (abs t') = refhat_dict (abs t) \<and>
        map view_item view = map snd (refhat_dict (abs t))"
      by force
  }
  assume h: "hv \<noteq> 0"
  show "\<exists>t'. vt_get vt t hv = Some (Inr (t', od_get (refhat_dict (abs t)) hv)) \<and>
      (own t' \<and> refhat_inv (abs t')) \<and> refhat_dict (abs t') = refhat_dict (abs t) \<and>
      rh_next_epoch (abs t') \<le> rh_next_epoch (abs t)"
    using get_sim [OF own refhat_get_ok [OF inv h]] inv by force
  show "\<exists>t'. vt_replace vt t hv v = Some (Inr (t', od_get (refhat_dict (abs t)) hv)) \<and>
      (own t' \<and> refhat_inv (abs t')) \<and> refhat_dict (abs t') = od_set hv v (refhat_dict (abs t)) \<and>
      rh_next_epoch (abs t') \<le> rh_next_epoch (abs t)"
    by (rule refhat_replace_ok [OF inv h, of v])
       (use replace_sim [OF own] in fastforce)
  show "\<exists>t'. vt_remove vt t hv = Some (Inr (t', od_get (refhat_dict (abs t)) hv)) \<and>
      (own t' \<and> refhat_inv (abs t')) \<and> refhat_dict (abs t') = od_remove hv (refhat_dict (abs t)) \<and>
      rh_next_epoch (abs t') \<le> rh_next_epoch (abs t)"
    by (rule refhat_remove_ok [OF inv h])
       (use remove_sim [OF own] in fastforce)
  assume room: "rh_next_epoch (abs t) < epoch_limit"
  show "\<exists>t'. vt_put vt t hv v = Some (Inr (t', od_get (refhat_dict (abs t)) hv)) \<and>
      (own t' \<and> refhat_inv (abs t')) \<and> refhat_dict (abs t') = od_put hv v (refhat_dict (abs t)) \<and>
      rh_next_epoch (abs t') \<le> rh_next_epoch (abs t) + 1"
    by (rule refhat_put_ok [OF inv h room, of v])
       (use put_sim [OF own inv h] in fastforce)
  show "\<exists>t'. vt_add vt t hv v = Some (Inr (t', \<not> snd (od_get (refhat_dict (abs t)) hv))) \<and>
      (own t' \<and> refhat_inv (abs t')) \<and> refhat_dict (abs t') = od_add hv v (refhat_dict (abs t)) \<and>
      rh_next_epoch (abs t') \<le> rh_next_epoch (abs t) + 1"
    by (rule refhat_add_ok [OF inv h room, of v])
       (use add_sim [OF own inv h] in fastforce)
qed

text \<open>Beside the contract: call for call, the table and its image stay in step.\<close>

context refhat_simulation
begin

lemma call_sim:
  assumes own: "own t" and inv: "refhat_inv (abs t)" and c: "call_ok c"
    and ref: "testhat_call \<lparr>th_vtable = refhat_vtable, th_htable = abs t\<rparr> c = Some (Inr (r', a))"
  shows "\<exists>t'. testhat_call \<lparr>th_vtable = vt, th_htable = t\<rparr> c =
      Some (Inr (\<lparr>th_vtable = vt, th_htable = t'\<rparr>, a)) \<and> own t' \<and>
      r' = \<lparr>th_vtable = refhat_vtable, th_htable = abs t'\<rparr>"
proof (cases c)
  case (CallGet hv)
  with ref obtain x where "refhat_get (abs t) hv = Inr x"
    by (cases "refhat_get (abs t) hv") (auto simp: answer_def refhat_vtable_def)
  with ref CallGet get_sim [OF own this] show ?thesis
    by (auto simp: answer_def refhat_vtable_def split: prod.splits)
next
  case (CallPut hv v)
  with ref obtain r x where "refhat_put (abs t) hv v = Some (Inr (r, x))"
    by (cases "refhat_put (abs t) hv v"; cases "the (refhat_put (abs t) hv v)")
       (auto simp: answer_def refhat_vtable_def)
  with ref CallPut c put_sim [OF own inv _ this] show ?thesis
    by (auto simp: answer_def refhat_vtable_def split: prod.splits)
next
  case (CallReplace hv v)
  with ref obtain r x where "refhat_replace (abs t) hv v = Inr (r, x)"
    by (cases "refhat_replace (abs t) hv v") (auto simp: answer_def refhat_vtable_def)
  with ref CallReplace replace_sim [OF own this] show ?thesis
    by (auto simp: answer_def refhat_vtable_def split: prod.splits)
next
  case (CallAdd hv v)
  with ref obtain r b where "refhat_add (abs t) hv v = Some (Inr (r, b))"
    by (cases "refhat_add (abs t) hv v"; cases "the (refhat_add (abs t) hv v)")
       (auto simp: answer_def refhat_vtable_def)
  with ref CallAdd c add_sim [OF own inv _ this] show ?thesis
    by (auto simp: answer_def refhat_vtable_def)
next
  case (CallRemove hv)
  with ref obtain r x where "refhat_remove (abs t) hv = Inr (r, x)"
    by (cases "refhat_remove (abs t) hv") (auto simp: answer_def refhat_vtable_def)
  with ref CallRemove remove_sim [OF own this] show ?thesis
    by (auto simp: answer_def refhat_vtable_def split: prod.splits)
next
  case CallLen
  with ref len_sim [OF own] own show ?thesis by (auto simp: refhat_vtable_def)
qed

lemma run_sim:
  assumes "own t" "refhat_inv (abs t)" "list_all call_ok cs"
    "rh_next_epoch (abs t) + length cs \<le> epoch_limit"
  shows "\<exists>t' as. testhat_run \<lparr>th_vtable = vt, th_htable = t\<rparr> cs =
       Some (Inr (\<lparr>th_vtable = vt, th_htable = t'\<rparr>, as)) \<and> own t' \<and>
     testhat_run \<lparr>th_vtable = refhat_vtable, th_htable = abs t\<rparr> cs =
       Some (Inr (\<lparr>th_vtable = refhat_vtable, th_htable = abs t'\<rparr>, as))"
  using assms
proof (induction cs arbitrary: t)
  case (Cons c cs)
  let ?r = "\<lparr>th_vtable = refhat_vtable, th_htable = abs t\<rparr>"
  obtain r a where r: "testhat_call ?r c = Some (Inr (r, a))" "refhat_inv (th_htable r)"
    "rh_next_epoch (th_htable r) \<le> rh_next_epoch (abs t) + 1"
    using refhat.call_refines [of ?r c] Cons.prems by auto
  obtain u where u: "testhat_call \<lparr>th_vtable = vt, th_htable = t\<rparr> c =
      Some (Inr (\<lparr>th_vtable = vt, th_htable = u\<rparr>, a))" "own u"
    "r = \<lparr>th_vtable = refhat_vtable, th_htable = abs u\<rparr>"
    using call_sim [OF Cons.prems(1,2) _ r(1)] Cons.prems(3) by auto
  obtain t' as where "testhat_run \<lparr>th_vtable = vt, th_htable = u\<rparr> cs =
      Some (Inr (\<lparr>th_vtable = vt, th_htable = t'\<rparr>, as))" "own t'"
    "testhat_run \<lparr>th_vtable = refhat_vtable, th_htable = abs u\<rparr> cs =
      Some (Inr (\<lparr>th_vtable = refhat_vtable, th_htable = abs t'\<rparr>, as))"
    using Cons.IH [of u] Cons.prems(3,4) u(2,3) r(2,3) by auto
  with r(1) u show ?case by auto
qed auto

lemma new_run_sim:
  assumes "list_all call_ok cs" "length cs < epoch_limit"
  shows "\<exists>t0 r0 t' as. vt_init vt = Inr t0 \<and> refhat_new = Inr r0 \<and> abs t0 = r0 \<and>
     testhat_run \<lparr>th_vtable = vt, th_htable = t0\<rparr> cs =
       Some (Inr (\<lparr>th_vtable = vt, th_htable = t'\<rparr>, as)) \<and> own t' \<and>
     testhat_run \<lparr>th_vtable = refhat_vtable, th_htable = r0\<rparr> cs =
       Some (Inr (\<lparr>th_vtable = refhat_vtable, th_htable = abs t'\<rparr>, as))"
proof -
  obtain r0 where r0: "refhat_init = Inr r0" "refhat_inv r0" "rh_next_epoch r0 = 1"
    using refhat_init_total by blast
  obtain t0 where "vt_init vt = Inr t0" "own t0" "abs t0 = r0"
    using init_sim [OF r0(1)] by blast
  with r0 run_sim [of t0 cs] assms show ?thesis by (auto simp: refhat_new_def)
qed

end

end
