(* ===== verification/Duncecap.thy ===== *)
theory Duncecap
  imports Refhat_Simulation
begin

text \<open>
  \<^verbatim>\<open>src/hatrack/hash/duncecap.c\<close>: one mutex serialises the writers; readers take it only to register
  with the current store, and a migration waits for the readers of the old store before freeing it.

  This theory has the operations as one thread runs them. A lock that is already held, and a
  migration whose old store has a registered reader, block the caller for ever: \<open>None\<close>.
  A \<^verbatim>\<open>duncecap_store_t *\<close> parameter is always \<^verbatim>\<open>top->store_current\<close>, so the writers take only the
  table. A \<^verbatim>\<open>NULL\<close> view is the empty list. What threads may do to one another between these
  steps is the subject of \<open>Duncecap_Threads\<close>.
\<close>

section \<open>Definitions\<close>

record duncecap_record =
  dr_item :: ptr
  dr_epoch :: nat

record duncecap_bucket =
  db_record :: duncecap_record
  db_hv :: hatrack_hash

record duncecap_store =
  ds_readers :: nat
  ds_last_slot :: nat
  ds_threshold :: nat
  ds_used_count :: nat
  ds_alloc_len :: nat
  ds_buckets :: "duncecap_bucket list"

record duncecap =
  dc_store_current :: duncecap_store
  dc_item_count :: nat
  dc_next_epoch :: nat
  dc_mutex :: bool

definition sizeof_duncecap_store :: nat where
  "sizeof_duncecap_store = 48"

definition sizeof_duncecap_bucket :: nat where
  "sizeof_duncecap_bucket = 32"

definition sizeof_duncecap :: nat where
  "sizeof_duncecap = 64"

definition zero_duncecap_bucket :: duncecap_bucket where
  "zero_duncecap_bucket = \<lparr>db_record = \<lparr>dr_item = 0, dr_epoch = 0\<rparr>, db_hv = 0\<rparr>"

text \<open>The mutex, as the thread that holds or wants it sees it.\<close>

definition duncecap_lock :: "duncecap \<Rightarrow> duncecap option" where
  "duncecap_lock self = (if dc_mutex self then None else Some (self\<lparr>dc_mutex := True\<rparr>))"

definition duncecap_unlock :: "duncecap \<Rightarrow> duncecap" where
  "duncecap_unlock self = self\<lparr>dc_mutex := False\<rparr>"

definition duncecap_reader_enter :: "duncecap \<Rightarrow> duncecap option" where
  "duncecap_reader_enter self =
     map_option (\<lambda>self. duncecap_unlock (self\<lparr>dc_store_current := (dc_store_current self)
         \<lparr>ds_readers := wrap64 (ds_readers (dc_store_current self) + 1)\<rparr>\<rparr>))
       (duncecap_lock self)"

definition duncecap_reader_exit :: "duncecap \<Rightarrow> duncecap" where
  "duncecap_reader_exit self = self\<lparr>dc_store_current := (dc_store_current self)
     \<lparr>ds_readers := wrap64 (ds_readers (dc_store_current self) + 2 ^ 64 - 1)\<rparr>\<rparr>"

definition duncecap_store_new :: "nat \<Rightarrow> duncecap_store" where
  "duncecap_store_new sz =
     (let alloc_len = wrap64 (sizeof_duncecap_store + wrap64 (sz * sizeof_duncecap_bucket)) in
      \<lparr>ds_readers = 0,
       ds_last_slot = wrap64 (sz + 2 ^ 64 - 1),
       ds_threshold = hatrack_compute_table_threshold sz,
       ds_used_count = 0,
       ds_alloc_len = alloc_len,
       ds_buckets = replicate ((alloc_len - sizeof_duncecap_store) div sizeof_duncecap_bucket)
         zero_duncecap_bucket\<rparr>)"

definition duncecap_init_size :: "int \<Rightarrow> duncecap outcome" where
  "duncecap_init_size sz =
     (if sz < 0 \<or> 64 < sz then Inl (Panic ''invalid size in duncecap_init_size'')
      else if sz < int HATRACK_MIN_SIZE_LOG then Inl (Panic ''invalid size in duncecap_init_size'')
      else if 31 \<le> sz then Inl BadShift
      else Inr \<lparr>dc_store_current = duncecap_store_new (push_bit (nat sz) 1),
                dc_item_count = 0,
                dc_next_epoch = 1,
                dc_mutex = False\<rparr>)"

definition duncecap_init :: "duncecap outcome" where
  "duncecap_init = duncecap_init_size (int HATRACK_MIN_SIZE_LOG)"

definition duncecap_new :: "duncecap outcome" where
  "duncecap_new = duncecap_init"

definition duncecap_new_size :: "int \<Rightarrow> duncecap outcome" where
  "duncecap_new_size sz = duncecap_init_size sz"

text \<open>Deletion gives the sizes of the freed blocks.\<close>

definition duncecap_cleanup :: "duncecap \<Rightarrow> nat list" where
  "duncecap_cleanup self = [ds_alloc_len (dc_store_current self)]"

definition duncecap_delete :: "duncecap \<Rightarrow> nat list" where
  "duncecap_delete self = duncecap_cleanup self @ [sizeof_duncecap]"

definition duncecap_len :: "duncecap \<Rightarrow> nat" where
  "duncecap_len self = dc_item_count self"

text \<open>The probe loop of the operations on one key.\<close>

definition duncecap_find :: "duncecap_store \<Rightarrow> hatrack_hash \<Rightarrow> probe_end outcome" where
  "duncecap_find self hv =
     probe (map db_hv (ds_buckets self)) (ds_last_slot self) hv
       (hatrack_bucket_index hv (ds_last_slot self)) (ds_last_slot self + 1)"

definition duncecap_store_get :: "duncecap_store \<Rightarrow> hatrack_hash \<Rightarrow> (ptr \<times> bool) outcome" where
  "duncecap_store_get self hv =
     and_then (duncecap_find self hv) (\<lambda>r. case r of
       Hit i \<Rightarrow>
         (let record = db_record (ds_buckets self ! i) in
          if dr_epoch record \<noteq> 0 then Inr (dr_item record, True) else Inr (0, False))
     | Vacant i \<Rightarrow> Inr (0, False))"

definition duncecap_get :: "duncecap \<Rightarrow> hatrack_hash \<Rightarrow> (duncecap \<times> ptr \<times> bool) outcome option" where
  "duncecap_get self hv =
     map_option (\<lambda>self'. and_then (duncecap_store_get (dc_store_current self') hv)
         (\<lambda>ret. Inr (duncecap_reader_exit self', ret)))
       (duncecap_reader_enter self)"

text \<open>\<^verbatim>\<open>atomic_store(&cur->record, record)\<close> into bucket \<open>i\<close> of the current store.\<close>

definition duncecap_store_record :: "duncecap \<Rightarrow> nat \<Rightarrow> duncecap_record \<Rightarrow> duncecap" where
  "duncecap_store_record table i record = table\<lparr>dc_store_current := (dc_store_current table)
     \<lparr>ds_buckets := (ds_buckets (dc_store_current table))
        [i := (ds_buckets (dc_store_current table) ! i)\<lparr>db_record := record\<rparr>]\<rparr>\<rparr>"

text \<open>The writes that reserve bucket \<open>i\<close> in \<^verbatim>\<open>duncecap_store_put\<close> and \<^verbatim>\<open>duncecap_store_add\<close>.\<close>

definition duncecap_reserve :: "duncecap \<Rightarrow> nat \<Rightarrow> hatrack_hash \<Rightarrow> ptr \<Rightarrow> duncecap" where
  "duncecap_reserve table i hv item =
     table\<lparr>dc_store_current := (dc_store_current table)
          \<lparr>ds_used_count := wrap64 (ds_used_count (dc_store_current table) + 1),
           ds_buckets := (ds_buckets (dc_store_current table))
             [i := (ds_buckets (dc_store_current table) ! i)
                \<lparr>db_hv := hv, db_record := \<lparr>dr_item = item, dr_epoch = dc_next_epoch table\<rparr>\<rparr>]\<rparr>,
         dc_item_count := wrap64 (dc_item_count table + 1),
         dc_next_epoch := wrap64 (dc_next_epoch table + 1)\<rparr>"

definition duncecap_place ::
  "nat \<Rightarrow> nat \<Rightarrow> duncecap_bucket list \<Rightarrow> duncecap_bucket \<Rightarrow> duncecap_bucket list outcome" where
  "duncecap_place new_last_slot new_size new_buckets cur =
     and_then (probe_free (map db_hv new_buckets) new_last_slot
                 (hatrack_bucket_index (db_hv cur) new_last_slot) new_size)
       (\<lambda>r. case r of None \<Rightarrow> Inr new_buckets
        | Some i \<Rightarrow> Inr (new_buckets[i := (new_buckets ! i)
                      \<lparr>db_hv := db_hv cur, db_record := db_record cur\<rparr>]))"

fun duncecap_migrate_loop ::
  "nat \<Rightarrow> nat \<Rightarrow> duncecap_bucket list \<Rightarrow> duncecap_bucket list \<Rightarrow> duncecap_bucket list outcome" where
  "duncecap_migrate_loop new_last_slot new_size [] new_buckets = Inr new_buckets"
| "duncecap_migrate_loop new_last_slot new_size (cur # cs) new_buckets =
     (if dr_epoch (db_record cur) = 0
      then duncecap_migrate_loop new_last_slot new_size cs new_buckets
      else and_then (duncecap_place new_last_slot new_size new_buckets cur)
             (duncecap_migrate_loop new_last_slot new_size cs))"

text \<open>The new store a migration builds, before it is published.\<close>

definition duncecap_copy :: "duncecap \<Rightarrow> duncecap_store outcome" where
  "duncecap_copy self =
     (let cur_store = dc_store_current self;
          new_size = hatrack_new_size (ds_last_slot cur_store) (wrap64 (duncecap_len self + 1));
          cur_last_slot = ds_last_slot cur_store;
          new_last_slot = wrap64 (new_size + 2 ^ 64 - 1);
          new_store = duncecap_store_new new_size
      in if length (ds_buckets cur_store) \<le> cur_last_slot then Inl OutOfBounds
         else and_then (duncecap_migrate_loop new_last_slot new_size
                     (take (cur_last_slot + 1) (ds_buckets cur_store)) (ds_buckets new_store))
           (\<lambda>new_buckets. Inr (new_store
              \<lparr>ds_buckets := new_buckets, ds_used_count := dc_item_count self\<rparr>)))"

definition duncecap_migrate :: "duncecap \<Rightarrow> duncecap outcome option" where
  "duncecap_migrate self =
     (case duncecap_copy self of
        Inl e \<Rightarrow> Some (Inl e)
      | Inr new_store \<Rightarrow>
          (if ds_readers (dc_store_current self) \<noteq> 0 then None
           else Some (Inr (self\<lparr>dc_store_current := new_store\<rparr>))))"

partial_function (option) duncecap_store_put ::
  "duncecap \<Rightarrow> hatrack_hash \<Rightarrow> ptr \<Rightarrow> (duncecap \<times> ptr \<times> bool) outcome option" where
  "duncecap_store_put table hv item =
     (let self = dc_store_current table in
      case duncecap_find self hv of
        Inl e \<Rightarrow> Some (Inl e)
      | Inr (Hit i) \<Rightarrow>
          (let record = db_record (ds_buckets self ! i) in
           if dr_epoch record = 0
           then Some (Inr (duncecap_store_record
                  (table\<lparr>dc_next_epoch := wrap64 (dc_next_epoch table + 1),
                       dc_item_count := wrap64 (dc_item_count table + 1)\<rparr>)
                  i (record\<lparr>dr_epoch := dc_next_epoch table, dr_item := item\<rparr>), 0, False))
           else Some (Inr (duncecap_store_record table i (record\<lparr>dr_item := item\<rparr>),
                  dr_item record, True)))
      | Inr (Vacant i) \<Rightarrow>
          (if wrap64 (ds_used_count self + 1) = ds_threshold self
           then (case duncecap_migrate table of
                   None \<Rightarrow> None
                 | Some (Inl e) \<Rightarrow> Some (Inl e)
                 | Some (Inr table') \<Rightarrow> duncecap_store_put table' hv item)
           else Some (Inr (duncecap_reserve table i hv item, 0, False))))"

definition duncecap_store_replace ::
  "duncecap \<Rightarrow> hatrack_hash \<Rightarrow> ptr \<Rightarrow> (duncecap \<times> ptr \<times> bool) outcome" where
  "duncecap_store_replace table hv item =
     (let self = dc_store_current table in
      and_then (duncecap_find self hv) (\<lambda>r. case r of
        Hit i \<Rightarrow>
          (let record = db_record (ds_buckets self ! i) in
           if dr_epoch record = 0 then Inr (table, 0, False)
           else Inr (duncecap_store_record table i (record\<lparr>dr_item := item\<rparr>), dr_item record, True))
      | Vacant i \<Rightarrow> Inr (table, 0, False)))"

partial_function (option) duncecap_store_add ::
  "duncecap \<Rightarrow> hatrack_hash \<Rightarrow> ptr \<Rightarrow> (duncecap \<times> bool) outcome option" where
  "duncecap_store_add table hv item =
     (let self = dc_store_current table in
      case duncecap_find self hv of
        Inl e \<Rightarrow> Some (Inl e)
      | Inr (Hit i) \<Rightarrow>
          (let record = db_record (ds_buckets self ! i) in
           if dr_epoch record \<noteq> 0 then Some (Inr (table, False))
           else Some (Inr (duncecap_store_record
                  (table\<lparr>dc_next_epoch := wrap64 (dc_next_epoch table + 1),
                       dc_item_count := wrap64 (dc_item_count table + 1)\<rparr>)
                  i (record\<lparr>dr_item := item, dr_epoch := dc_next_epoch table\<rparr>), True)))
      | Inr (Vacant i) \<Rightarrow>
          (if wrap64 (ds_used_count self + 1) = ds_threshold self
           then (case duncecap_migrate table of
                   None \<Rightarrow> None
                 | Some (Inl e) \<Rightarrow> Some (Inl e)
                 | Some (Inr table') \<Rightarrow> duncecap_store_add table' hv item)
           else Some (Inr (duncecap_reserve table i hv item, True))))"

definition duncecap_store_remove :: "duncecap \<Rightarrow> hatrack_hash \<Rightarrow> (duncecap \<times> ptr \<times> bool) outcome" where
  "duncecap_store_remove table hv =
     (let self = dc_store_current table in
      and_then (duncecap_find self hv) (\<lambda>r. case r of
        Hit i \<Rightarrow>
          (let record = db_record (ds_buckets self ! i) in
           if dr_epoch record = 0 then Inr (table, 0, False)
           else Inr ((duncecap_store_record table i (record\<lparr>dr_epoch := 0\<rparr>))
                  \<lparr>dc_item_count := wrap64 (dc_item_count table + 2 ^ 64 - 1)\<rparr>,
                dr_item record, True))
      | Vacant i \<Rightarrow> Inr (table, 0, False)))"

text \<open>The writers hold the mutex for the whole operation.\<close>

definition duncecap_locked ::
  "(duncecap \<Rightarrow> (duncecap \<times> 'a) outcome option) \<Rightarrow> duncecap \<Rightarrow> (duncecap \<times> 'a) outcome option" where
  "duncecap_locked body self =
     Option.bind (duncecap_lock self) (\<lambda>self.
       map_option (\<lambda>r. and_then r (\<lambda>(self, ret). Inr (duncecap_unlock self, ret))) (body self))"

definition duncecap_put ::
  "duncecap \<Rightarrow> hatrack_hash \<Rightarrow> ptr \<Rightarrow> (duncecap \<times> ptr \<times> bool) outcome option" where
  "duncecap_put self hv item = duncecap_locked (\<lambda>self. duncecap_store_put self hv item) self"

definition duncecap_replace ::
  "duncecap \<Rightarrow> hatrack_hash \<Rightarrow> ptr \<Rightarrow> (duncecap \<times> ptr \<times> bool) outcome option" where
  "duncecap_replace self hv item =
     duncecap_locked (\<lambda>self. Some (duncecap_store_replace self hv item)) self"

definition duncecap_add ::
  "duncecap \<Rightarrow> hatrack_hash \<Rightarrow> ptr \<Rightarrow> (duncecap \<times> bool) outcome option" where
  "duncecap_add self hv item = duncecap_locked (\<lambda>self. duncecap_store_add self hv item) self"

definition duncecap_remove ::
  "duncecap \<Rightarrow> hatrack_hash \<Rightarrow> (duncecap \<times> ptr \<times> bool) outcome option" where
  "duncecap_remove self hv = duncecap_locked (\<lambda>self. Some (duncecap_store_remove self hv)) self"

text \<open>
  The view of a store: every record with an epoch, in a buffer of one entry per bucket that is
  cut to the number of entries found, and that number.
\<close>

definition duncecap_store_view :: "duncecap_store \<Rightarrow> bool \<Rightarrow> (hatrack_view list \<times> nat) outcome" where
  "duncecap_store_view store srt =
     (if length (ds_buckets store) \<le> ds_last_slot store then Inl OutOfBounds
      else let view = map (\<lambda>cur. \<lparr>view_item = dr_item (db_record cur),
                 sort_epoch = of_nat (dr_epoch (db_record cur))\<rparr>)
             (filter (\<lambda>cur. dr_epoch (db_record cur) \<noteq> 0)
               (take (ds_last_slot store + 1) (ds_buckets store)));
             count = length view
           in if count = 0 then Inr ([], 0)
              else Inr (if srt then qsort hatrack_quicksort_cmp view else view, count))"

definition duncecap_view ::
  "duncecap \<Rightarrow> bool \<Rightarrow> (duncecap \<times> hatrack_view list \<times> nat) outcome option" where
  "duncecap_view self srt =
     map_option (\<lambda>self'. and_then (duncecap_store_view (dc_store_current self') srt)
         (\<lambda>ret. Inr (duncecap_reader_exit self', ret)))
       (duncecap_reader_enter self)"

definition dcap_vtable :: "duncecap hatrack_vtable" where
  "dcap_vtable = \<lparr>
     vt_init = duncecap_init,
     vt_init_sz = duncecap_init_size,
     vt_get = duncecap_get,
     vt_put = duncecap_put,
     vt_replace = duncecap_replace,
     vt_add = duncecap_add,
     vt_remove = duncecap_remove,
     vt_delete = duncecap_delete,
     vt_len = duncecap_len,
     vt_view = duncecap_view\<rparr>"

section \<open>The table as a reference table\<close>

definition duncecap_bucket_refhat :: "duncecap_bucket \<Rightarrow> refhat_bucket" where
  "duncecap_bucket_refhat b =
     \<lparr>rb_hv = db_hv b, rb_item = dr_item (db_record b), rb_epoch = dr_epoch (db_record b)\<rparr>"

definition duncecap_refhat :: "duncecap \<Rightarrow> refhat" where
  "duncecap_refhat t = \<lparr>
     rh_last_slot = ds_last_slot (dc_store_current t),
     rh_threshold = ds_threshold (dc_store_current t),
     rh_used_count = ds_used_count (dc_store_current t),
     rh_item_count = dc_item_count t,
     rh_buckets = map duncecap_bucket_refhat (ds_buckets (dc_store_current t)),
     rh_buckets_size = ds_alloc_len (dc_store_current t) - sizeof_duncecap_store,
     rh_next_epoch = dc_next_epoch t\<rparr>"

text \<open>Between operations nobody holds the mutex and no reader is registered.\<close>

definition duncecap_idle :: "duncecap \<Rightarrow> bool" where
  "duncecap_idle t \<longleftrightarrow> \<not> dc_mutex t \<and> ds_readers (dc_store_current t) = 0"

lemma duncecap_refhat_sel [simp]:
  "rh_last_slot (duncecap_refhat t) = ds_last_slot (dc_store_current t)"
  "rh_threshold (duncecap_refhat t) = ds_threshold (dc_store_current t)"
  "rh_used_count (duncecap_refhat t) = ds_used_count (dc_store_current t)"
  "rh_item_count (duncecap_refhat t) = dc_item_count t"
  "rh_buckets (duncecap_refhat t) = map duncecap_bucket_refhat (ds_buckets (dc_store_current t))"
  "rh_next_epoch (duncecap_refhat t) = dc_next_epoch t"
  by (simp_all add: duncecap_refhat_def)

lemma duncecap_bucket_sel [simp]:
  "rb_hv (duncecap_bucket_refhat b) = db_hv b"
  "rb_item (duncecap_bucket_refhat b) = dr_item (db_record b)"
  "rb_epoch (duncecap_bucket_refhat b) = dr_epoch (db_record b)"
  by (simp_all add: duncecap_bucket_refhat_def)

lemma duncecap_hvs [simp]: "map rb_hv (map duncecap_bucket_refhat bs) = map db_hv bs"
  by simp

lemma duncecap_refhat_mutex [simp]: "duncecap_refhat (t\<lparr>dc_mutex := b\<rparr>) = duncecap_refhat t"
  by (simp add: duncecap_refhat_def)

lemma duncecap_refhat_counts [simp]:
  "duncecap_refhat (t\<lparr>dc_item_count := n\<rparr>) = (duncecap_refhat t)\<lparr>rh_item_count := n\<rparr>"
  "duncecap_refhat (t\<lparr>dc_next_epoch := n\<rparr>) = (duncecap_refhat t)\<lparr>rh_next_epoch := n\<rparr>"
  by (simp_all add: duncecap_refhat_def)

lemma duncecap_find_refhat:
  "duncecap_find (dc_store_current t) hv = refhat_find (duncecap_refhat t) hv"
  by (simp add: duncecap_find_def refhat_find_def comp_def)

section \<open>Each operation simulates the reference operation\<close>

text \<open>The three writes.\<close>

lemma duncecap_store_record_refhat:
  assumes "i < length (ds_buckets (dc_store_current t))"
  shows "duncecap_refhat (duncecap_store_record t i r) = (duncecap_refhat t)
     \<lparr>rh_buckets := (rh_buckets (duncecap_refhat t))
       [i := (rh_buckets (duncecap_refhat t) ! i)\<lparr>rb_item := dr_item r, rb_epoch := dr_epoch r\<rparr>]\<rparr>"
  using assms
  by (simp add: duncecap_refhat_def duncecap_store_record_def map_update duncecap_bucket_refhat_def)

lemma duncecap_reserve_refhat:
  assumes "i < length (ds_buckets (dc_store_current t))"
  shows "duncecap_refhat (duncecap_reserve t i hv v) = refhat_reserve (duncecap_refhat t) i hv v"
  using assms
  by (simp add: duncecap_refhat_def duncecap_reserve_def refhat_reserve_def map_update
      duncecap_bucket_refhat_def)

lemma duncecap_write_frame [simp]:
  "ds_readers (dc_store_current (duncecap_store_record t i r)) = ds_readers (dc_store_current t)"
  "dc_mutex (duncecap_store_record t i r) = dc_mutex t"
  "ds_readers (dc_store_current (duncecap_reserve t i hv v)) = ds_readers (dc_store_current t)"
  "dc_mutex (duncecap_reserve t i hv v) = dc_mutex t"
  by (simp_all add: duncecap_store_record_def duncecap_reserve_def)

lemma duncecap_get_sim:
  assumes "refhat_get (duncecap_refhat t) hv = Inr x"
  shows "duncecap_store_get (dc_store_current t) hv = Inr x"
  using assms
  by (cases rule: refhat_find_ends [of "duncecap_refhat t" hv])
     (auto simp: duncecap_store_get_def refhat_get_def duncecap_find_refhat Let_def split: if_splits)

lemma duncecap_replace_sim:
  assumes "refhat_replace (duncecap_refhat t) hv v = Inr (r, x)"
  shows "\<exists>t'. duncecap_store_replace t hv v = Inr (t', x) \<and> duncecap_refhat t' = r \<and>
     ds_readers (dc_store_current t') = ds_readers (dc_store_current t)"
  using assms
  by (cases rule: refhat_find_ends [of "duncecap_refhat t" hv])
     (auto simp: duncecap_store_replace_def refhat_replace_def duncecap_find_refhat Let_def
       duncecap_store_record_refhat duncecap_bucket_refhat_def refhat_set_item_def split: if_splits)

lemma duncecap_remove_sim:
  assumes "refhat_remove (duncecap_refhat t) hv = Inr (r, x)"
  shows "\<exists>t'. duncecap_store_remove t hv = Inr (t', x) \<and> duncecap_refhat t' = r \<and>
     ds_readers (dc_store_current t') = ds_readers (dc_store_current t)"
  using assms
  by (cases rule: refhat_find_ends [of "duncecap_refhat t" hv])
     (auto simp: duncecap_store_remove_def refhat_remove_def duncecap_find_refhat Let_def
       duncecap_store_record_refhat duncecap_bucket_refhat_def split: if_splits)

text \<open>
  Migration. A bucket with no hash value has no record, so skipping on the epoch alone, as
  \<^verbatim>\<open>duncecap_migrate\<close> does, skips the same buckets as the reference.
\<close>

lemma duncecap_place_refhat:
  "map_sum (\<lambda>e. e) (map duncecap_bucket_refhat) (duncecap_place ls n nb cur) =
     refhat_place ls n (map duncecap_bucket_refhat nb) (duncecap_bucket_refhat cur)"
proof -
  have "map duncecap_bucket_refhat
      (nb[i := (nb ! i)\<lparr>db_hv := db_hv cur, db_record := db_record cur\<rparr>]) =
    (map duncecap_bucket_refhat nb)[i := duncecap_bucket_refhat cur]" for i
    by (simp add: map_update duncecap_bucket_refhat_def)
  then show ?thesis
    by (simp add: duncecap_place_def refhat_place_def comp_def and_then_def split: sum.split option.split)
qed

lemma duncecap_migrate_loop_refhat:
  assumes "\<And>b. b \<in> set cs \<Longrightarrow> db_hv b = 0 \<Longrightarrow> dr_epoch (db_record b) = 0"
  shows "map_sum (\<lambda>e. e) (map duncecap_bucket_refhat) (duncecap_migrate_loop ls n cs nb) =
     refhat_migrate_loop ls n (map duncecap_bucket_refhat cs) (map duncecap_bucket_refhat nb)"
  using assms
proof (induction cs arbitrary: nb)
  case (Cons c cs)
  show ?case
  proof (cases "dr_epoch (db_record c) = 0")
    case False
    then have "db_hv c \<noteq> 0" using Cons.prems [of c] by auto
    moreover have "map_sum (\<lambda>e. e) (map duncecap_bucket_refhat) (duncecap_migrate_loop ls n cs nb') =
        refhat_migrate_loop ls n (map duncecap_bucket_refhat cs) (map duncecap_bucket_refhat nb')" for nb'
      by (rule Cons.IH) (use Cons.prems in auto)
    ultimately show ?thesis
      using False by (cases "duncecap_place ls n nb c") (simp_all flip: duncecap_place_refhat)
  qed (use Cons in simp)
qed simp

lemma duncecap_store_new_refhat:
  assumes "0 < n" "n \<le> 2 ^ 58"
  shows "map duncecap_bucket_refhat (ds_buckets (duncecap_store_new n)) =
      zalloc_buckets (wrap64 (n * sizeof_refhat_bucket))"
    "ds_alloc_len (duncecap_store_new n) - sizeof_duncecap_store = wrap64 (n * sizeof_refhat_bucket)"
    "ds_last_slot (duncecap_store_new n) = wrap64 (n + 2 ^ 64 - 1)"
    "ds_threshold (duncecap_store_new n) = hatrack_compute_table_threshold n"
    "ds_readers (duncecap_store_new n) = 0"
    "ds_used_count (duncecap_store_new n) = 0"
proof -
  have "n * 32 < 2 ^ 64" "48 + n * 32 < 2 ^ 64" using assms by simp_all
  then have w: "wrap64 (n * 32) = n * 32" "wrap64 (48 + n * 32) = 48 + n * 32"
    by (simp_all only: wrap64_id)
  show "map duncecap_bucket_refhat (ds_buckets (duncecap_store_new n)) =
      zalloc_buckets (wrap64 (n * sizeof_refhat_bucket))"
    "ds_alloc_len (duncecap_store_new n) - sizeof_duncecap_store = wrap64 (n * sizeof_refhat_bucket)"
    by (simp_all add: duncecap_store_new_def sizeof_duncecap_store_def sizeof_duncecap_bucket_def
        sizeof_refhat_bucket_def w zalloc_buckets_def zero_bucket_def zero_duncecap_bucket_def
        duncecap_bucket_refhat_def Let_def)
qed (simp_all add: duncecap_store_new_def Let_def)

lemma duncecap_copy_sim:
  assumes inv: "refhat_inv (duncecap_refhat t)"
    and ref: "refhat_migrate (duncecap_refhat t) = Inr r"
  obtains st where "duncecap_copy t = Inr st" "ds_readers st = 0"
    "duncecap_refhat (t\<lparr>dc_store_current := st\<rparr>) = r"
proof -
  define n where "n = hatrack_new_size (ds_last_slot (dc_store_current t)) (wrap64 (dc_item_count t + 1))"
  have n: "0 < n" "n \<le> 2 ^ 58" using refhat_new_size_bound [OF inv] by (simp_all add: n_def)
  note new = duncecap_store_new_refhat [OF n]
  let ?cs = "take (ds_last_slot (dc_store_current t) + 1) (ds_buckets (dc_store_current t))"
  have "dr_epoch (db_record b) = 0" if "b \<in> set ?cs" "db_hv b = 0" for b
    using refhat_invD(4) [OF inv, of "duncecap_bucket_refhat b"] that by (auto dest: in_set_takeD)
  from duncecap_migrate_loop_refhat [OF this, of ?cs _ n "ds_buckets (duncecap_store_new n)"]
  have loop: "refhat_migrate_loop ls n (map duncecap_bucket_refhat ?cs)
      (zalloc_buckets (wrap64 (n * sizeof_refhat_bucket))) =
    map_sum (\<lambda>e. e) (map duncecap_bucket_refhat)
      (duncecap_migrate_loop ls n ?cs (ds_buckets (duncecap_store_new n)))" for ls
    by (simp add: new)
  from ref have len: "\<not> length (ds_buckets (dc_store_current t)) \<le> ds_last_slot (dc_store_current t)"
    by (auto simp: refhat_migrate_def Let_def split: if_splits)
  note fold_n = n_def [symmetric]
  have ref': "refhat_migrate (duncecap_refhat t) =
      and_then (refhat_migrate_loop (wrap64 (n + 2 ^ 64 - 1)) n (map duncecap_bucket_refhat ?cs)
          (zalloc_buckets (wrap64 (n * sizeof_refhat_bucket))))
        (\<lambda>nb. Inr ((duncecap_refhat t)\<lparr>rh_used_count := dc_item_count t, rh_buckets := nb,
            rh_buckets_size := wrap64 (n * sizeof_refhat_bucket),
            rh_last_slot := wrap64 (n + 2 ^ 64 - 1),
            rh_threshold := hatrack_compute_table_threshold n\<rparr>))"
    using len
    by (simp only: refhat_migrate_def Let_def duncecap_refhat_sel length_map if_False take_map fold_n)
  then obtain nb where nb: "duncecap_migrate_loop (wrap64 (n + 2 ^ 64 - 1)) n ?cs
      (ds_buckets (duncecap_store_new n)) = Inr nb"
    using ref unfolding loop
    by (cases "duncecap_migrate_loop (wrap64 (n + 2 ^ 64 - 1)) n ?cs (ds_buckets (duncecap_store_new n))")
       simp_all
  let ?st = "(duncecap_store_new n)\<lparr>ds_buckets := nb, ds_used_count := dc_item_count t\<rparr>"
  have "duncecap_copy t = Inr ?st"
    using len nb
    by (simp only: duncecap_copy_def duncecap_len_def Let_def if_False fold_n and_then_Inr)
  moreover have "duncecap_refhat (t\<lparr>dc_store_current := ?st\<rparr>) = r"
    using ref unfolding ref' loop nb by (auto simp: duncecap_refhat_def new)
  ultimately show ?thesis using that [of ?st] by (simp add: new)
qed

lemma duncecap_migrate_sim:
  assumes "refhat_inv (duncecap_refhat t)" "ds_readers (dc_store_current t) = 0"
    "refhat_migrate (duncecap_refhat t) = Inr r"
  shows "\<exists>t'. duncecap_migrate t = Some (Inr t') \<and> duncecap_refhat t' = r \<and>
     ds_readers (dc_store_current t') = 0 \<and> dc_mutex t' = dc_mutex t"
  by (rule duncecap_copy_sim [OF assms(1,3)]) (use assms(2) in \<open>simp add: duncecap_migrate_def\<close>)

lemma duncecap_migrate_waits:
  assumes "refhat_inv (duncecap_refhat t)" "ds_readers (dc_store_current t) \<noteq> 0"
    "refhat_migrate (duncecap_refhat t) = Inr r"
  shows "duncecap_migrate t = None"
  by (rule duncecap_copy_sim [OF assms(1,3)]) (use assms(2) in \<open>simp add: duncecap_migrate_def\<close>)

text \<open>
  Insertion. Without a migration one unfolding on each side suffices; a migration leaves room, so
  the call after it is such a case.
\<close>

lemma duncecap_put_room:
  assumes "refhat_find (duncecap_refhat t) hv = Inr (Hit j) \<or>
      wrap64 (ds_used_count (dc_store_current t) + 1) \<noteq> ds_threshold (dc_store_current t)"
    and "refhat_put (duncecap_refhat t) hv v = Some (Inr (r, x))"
  shows "\<exists>t'. duncecap_store_put t hv v = Some (Inr (t', x)) \<and> duncecap_refhat t' = r \<and>
     ds_readers (dc_store_current t') = ds_readers (dc_store_current t) \<and> dc_mutex t' = dc_mutex t"
  using assms
  by (cases rule: refhat_find_ends [of "duncecap_refhat t" hv])
     (auto simp: duncecap_store_put.simps [of t] refhat_put.simps [of "duncecap_refhat t"]
       duncecap_find_refhat Let_def duncecap_store_record_refhat duncecap_reserve_refhat
       duncecap_bucket_refhat_def refhat_set_item_def refhat_revive_def
       split: if_splits)

lemma duncecap_add_room:
  assumes "refhat_find (duncecap_refhat t) hv = Inr (Hit j) \<or>
      wrap64 (ds_used_count (dc_store_current t) + 1) \<noteq> ds_threshold (dc_store_current t)"
    and "refhat_add (duncecap_refhat t) hv v = Some (Inr (r, b))"
  shows "\<exists>t'. duncecap_store_add t hv v = Some (Inr (t', b)) \<and> duncecap_refhat t' = r \<and>
     ds_readers (dc_store_current t') = ds_readers (dc_store_current t) \<and> dc_mutex t' = dc_mutex t"
  using assms
  by (cases rule: refhat_find_ends [of "duncecap_refhat t" hv])
     (auto simp: duncecap_store_add.simps [of t] refhat_add.simps [of "duncecap_refhat t"]
       duncecap_find_refhat Let_def duncecap_store_record_refhat duncecap_reserve_refhat
       duncecap_bucket_refhat_def refhat_revive_def
       split: if_splits)

lemma duncecap_put_sim:
  assumes inv: "refhat_inv (duncecap_refhat t)" and h: "hv \<noteq> 0"
    and readers: "ds_readers (dc_store_current t) = 0"
    and put: "refhat_put (duncecap_refhat t) hv v = Some (Inr (r, x))"
  shows "\<exists>t'. duncecap_store_put t hv v = Some (Inr (t', x)) \<and> duncecap_refhat t' = r \<and>
     ds_readers (dc_store_current t') = 0 \<and> dc_mutex t' = dc_mutex t"
proof (cases "(\<exists>j. refhat_find (duncecap_refhat t) hv = Inr (Hit j)) \<or>
      wrap64 (ds_used_count (dc_store_current t) + 1) \<noteq> ds_threshold (dc_store_current t)")
  case True
  then show ?thesis using duncecap_put_room [of t hv _ v] put readers by auto
next
  case False
  then have full: "rh_used_count (duncecap_refhat t) + 1 = rh_threshold (duncecap_refhat t)"
    using refhat_full_iff [OF inv] by simp
  obtain i where i: "refhat_find (duncecap_refhat t) hv = Inr (Vacant i)"
    using False by (cases rule: refhat_find_cases [OF inv h]) auto
  obtain m where m: "refhat_migrate (duncecap_refhat t) = Inr m" "refhat_inv m"
    "rh_used_count m + 1 < rh_threshold m"
    by (rule refhat_migrate_ok [OF inv full])
  obtain u where u: "duncecap_migrate t = Some (Inr u)" "duncecap_refhat u = m"
    "ds_readers (dc_store_current u) = 0" "dc_mutex u = dc_mutex t"
    using duncecap_migrate_sim [OF inv readers m(1)] by blast
  have "duncecap_store_put t hv v = duncecap_store_put u hv v"
    using False i u by (simp add: duncecap_store_put.simps [of t] duncecap_find_refhat)
  moreover have "refhat_put m hv v = Some (Inr (r, x))"
    using put False i m by (simp add: refhat_put.simps [of "duncecap_refhat t"])
  moreover have "wrap64 (ds_used_count (dc_store_current u) + 1) \<noteq> ds_threshold (dc_store_current u)"
    using refhat_full_iff [OF m(2)] m(3) u(2) by auto
  ultimately show ?thesis using duncecap_put_room [of u hv _ v r x] u by simp
qed

lemma duncecap_add_sim:
  assumes inv: "refhat_inv (duncecap_refhat t)" and h: "hv \<noteq> 0"
    and readers: "ds_readers (dc_store_current t) = 0"
    and add: "refhat_add (duncecap_refhat t) hv v = Some (Inr (r, b))"
  shows "\<exists>t'. duncecap_store_add t hv v = Some (Inr (t', b)) \<and> duncecap_refhat t' = r \<and>
     ds_readers (dc_store_current t') = 0 \<and> dc_mutex t' = dc_mutex t"
proof (cases "(\<exists>j. refhat_find (duncecap_refhat t) hv = Inr (Hit j)) \<or>
      wrap64 (ds_used_count (dc_store_current t) + 1) \<noteq> ds_threshold (dc_store_current t)")
  case True
  then show ?thesis using duncecap_add_room [of t hv _ v] add readers by auto
next
  case False
  then have full: "rh_used_count (duncecap_refhat t) + 1 = rh_threshold (duncecap_refhat t)"
    using refhat_full_iff [OF inv] by simp
  obtain i where i: "refhat_find (duncecap_refhat t) hv = Inr (Vacant i)"
    using False by (cases rule: refhat_find_cases [OF inv h]) auto
  obtain m where m: "refhat_migrate (duncecap_refhat t) = Inr m" "refhat_inv m"
    "rh_used_count m + 1 < rh_threshold m"
    by (rule refhat_migrate_ok [OF inv full])
  obtain u where u: "duncecap_migrate t = Some (Inr u)" "duncecap_refhat u = m"
    "ds_readers (dc_store_current u) = 0" "dc_mutex u = dc_mutex t"
    using duncecap_migrate_sim [OF inv readers m(1)] by blast
  have "duncecap_store_add t hv v = duncecap_store_add u hv v"
    using False i u by (simp add: duncecap_store_add.simps [of t] duncecap_find_refhat)
  moreover have "refhat_add m hv v = Some (Inr (r, b))"
    using add False i m by (simp add: refhat_add.simps [of "duncecap_refhat t"])
  moreover have "wrap64 (ds_used_count (dc_store_current u) + 1) \<noteq> ds_threshold (dc_store_current u)"
    using refhat_full_iff [OF m(2)] m(3) u(2) by auto
  ultimately show ?thesis using duncecap_add_room [of u hv _ v r b] u by simp
qed

section \<open>The vtable contract\<close>

lemma duncecap_enter_idle:
  assumes "duncecap_idle t"
  obtains u where "duncecap_reader_enter t = Some u" "duncecap_refhat u = duncecap_refhat t"
    "ds_buckets (dc_store_current u) = ds_buckets (dc_store_current t)"
    "duncecap_idle (duncecap_reader_exit u)"
    "duncecap_refhat (duncecap_reader_exit u) = duncecap_refhat t"
  using assms that
  by (auto simp: duncecap_idle_def duncecap_reader_enter_def duncecap_lock_def duncecap_unlock_def
      duncecap_reader_exit_def duncecap_refhat_def wrap64_def)

lemma duncecap_locked_idle:
  assumes "duncecap_idle t" "\<exists>u. body (t\<lparr>dc_mutex := True\<rparr>) = Some (Inr (u, x)) \<and>
      duncecap_refhat u = r \<and> ds_readers (dc_store_current u) = 0"
  shows "\<exists>t'. duncecap_locked body t = Some (Inr (t', x)) \<and> duncecap_idle t' \<and> duncecap_refhat t' = r"
  using assms by (auto simp: duncecap_locked_def duncecap_lock_def duncecap_unlock_def duncecap_idle_def)

lemma duncecap_view_sim:
  assumes inv: "refhat_inv (duncecap_refhat t)"
    and view: "refhat_view (duncecap_refhat t) srt = Inr (view, n)"
  shows "duncecap_store_view (dc_store_current t) srt = Inr (view, n)"
proof -
  let ?bs = "take (ds_last_slot (dc_store_current t) + 1) (ds_buckets (dc_store_current t))"
  let ?g = "\<lambda>cur. \<lparr>view_item = rb_item cur, sort_epoch = of_nat (rb_epoch cur)\<rparr>"
  have "db_hv b = 0 \<Longrightarrow> dr_epoch (db_record b) = 0" if "b \<in> set ?bs" for b
    using refhat_invD(4) [OF inv, of "duncecap_bucket_refhat b"] that by (auto dest: in_set_takeD)
  then have live: "filter (\<lambda>b. \<not> (db_hv b = 0 \<or> dr_epoch (db_record b) = 0)) ?bs =
      filter (\<lambda>b. dr_epoch (db_record b) \<noteq> 0) ?bs"
    by (intro filter_cong) auto
  have same: "map ?g (filter (\<lambda>cur. \<not> (rb_hv cur = 0 \<or> rb_epoch cur = 0))
        (map duncecap_bucket_refhat ?bs)) =
      map (\<lambda>cur. \<lparr>view_item = dr_item (db_record cur), sort_epoch = of_nat (dr_epoch (db_record cur))\<rparr>)
        (filter (\<lambda>b. dr_epoch (db_record b) \<noteq> 0) ?bs)"
    unfolding filter_map map_map comp_def duncecap_bucket_sel live ..
  show ?thesis
    using view unfolding refhat_view_def duncecap_store_view_def duncecap_refhat_sel take_map
      unreserved_iff same Let_def by (auto split: if_splits)
qed

interpretation duncecap: refhat_simulation dcap_vtable duncecap_refhat duncecap_idle
proof
  have init: "\<exists>t. duncecap_init_size sz = Inr t \<and> duncecap_idle t \<and> duncecap_refhat t = r"
    if "4 \<le> sz" "sz \<le> 30" "refhat_init_size sz = Inr r" for sz r
  proof -
    define n where "n = push_bit (nat sz) (1::nat)"
    have n: "0 < n" "n \<le> 2 ^ 58"
      using that(1,2) power_increasing [of "nat sz" 58 "2::nat"] by (simp_all add: n_def push_bit_eq_mult)
    from that wrap64_pred [of n] n show ?thesis
      unfolding duncecap_init_size_def refhat_init_size_def Let_def n_def [symmetric]
      by (auto simp: duncecap_idle_def duncecap_refhat_def HATRACK_MIN_SIZE_LOG_def
          duncecap_store_new_refhat [OF n])
  qed
  show "\<exists>t. vt_init_sz dcap_vtable sz = Inr t \<and> duncecap_idle t \<and> duncecap_refhat t = r"
    if "4 \<le> sz" "sz \<le> 30" "refhat_init_size sz = Inr r" for sz r
    using init [OF that] by (simp add: dcap_vtable_def)
  show "\<exists>t. vt_init dcap_vtable = Inr t \<and> duncecap_idle t \<and> duncecap_refhat t = r"
    if "refhat_init = Inr r" for r
    using init [of 4 r] that
    by (simp add: dcap_vtable_def duncecap_init_def refhat_init_def HATRACK_MIN_SIZE_LOG_def)
  fix t assume idle: "duncecap_idle t"
  then have readers: "ds_readers (dc_store_current (t\<lparr>dc_mutex := True\<rparr>)) = 0"
    by (simp add: duncecap_idle_def)
  obtain u where u: "duncecap_reader_enter t = Some u" "duncecap_refhat u = duncecap_refhat t"
    "duncecap_idle (duncecap_reader_exit u)"
    "duncecap_refhat (duncecap_reader_exit u) = duncecap_refhat t"
    using duncecap_enter_idle [OF idle] by metis
  show "vt_len dcap_vtable t = refhat_len (duncecap_refhat t)"
    by (simp add: dcap_vtable_def duncecap_len_def refhat_len_def)
  fix hv v r
  show "\<exists>t'. vt_get dcap_vtable t hv = Some (Inr (t', x)) \<and> duncecap_idle t' \<and>
      duncecap_refhat t' = duncecap_refhat t" if "refhat_get (duncecap_refhat t) hv = Inr x" for x
    using u duncecap_get_sim [of u hv x] that by (simp add: dcap_vtable_def duncecap_get_def)
  show "\<exists>t'. vt_view dcap_vtable t True = Some (Inr (t', view)) \<and> duncecap_idle t' \<and>
      duncecap_refhat t' = duncecap_refhat t"
    if "refhat_inv (duncecap_refhat t)" "refhat_view (duncecap_refhat t) True = Inr view" for view
    using u duncecap_view_sim [of u True "fst view" "snd view"] that
    by (simp add: dcap_vtable_def duncecap_view_def)
  show "\<exists>t'. vt_replace dcap_vtable t hv v = Some (Inr (t', x)) \<and> duncecap_idle t' \<and>
      duncecap_refhat t' = r" if "refhat_replace (duncecap_refhat t) hv v = Inr (r, x)" for x
    using duncecap_replace_sim [of "t\<lparr>dc_mutex := True\<rparr>" hv v r x] that readers
    by (simp add: dcap_vtable_def duncecap_replace_def duncecap_locked_idle [OF idle])
  show "\<exists>t'. vt_remove dcap_vtable t hv = Some (Inr (t', x)) \<and> duncecap_idle t' \<and>
      duncecap_refhat t' = r" if "refhat_remove (duncecap_refhat t) hv = Inr (r, x)" for x
    using duncecap_remove_sim [of "t\<lparr>dc_mutex := True\<rparr>" hv r x] that readers
    by (simp add: dcap_vtable_def duncecap_remove_def duncecap_locked_idle [OF idle])
  assume inv: "refhat_inv (duncecap_refhat t)" and h: "hv \<noteq> 0"
  then have inv': "refhat_inv (duncecap_refhat (t\<lparr>dc_mutex := True\<rparr>))" by simp
  show "\<exists>t'. vt_put dcap_vtable t hv v = Some (Inr (t', x)) \<and> duncecap_idle t' \<and>
      duncecap_refhat t' = r" if "refhat_put (duncecap_refhat t) hv v = Some (Inr (r, x))" for x
    using duncecap_put_sim [OF inv' h readers, of v r x] that
    by (simp add: dcap_vtable_def duncecap_put_def) (auto intro!: duncecap_locked_idle [OF idle])
  show "\<exists>t'. vt_add dcap_vtable t hv v = Some (Inr (t', b)) \<and> duncecap_idle t' \<and>
      duncecap_refhat t' = r" if "refhat_add (duncecap_refhat t) hv v = Some (Inr (r, b))" for b
    using duncecap_add_sim [OF inv' h readers, of v r b] that
    by (simp add: dcap_vtable_def duncecap_add_def) (auto intro!: duncecap_locked_idle [OF idle])
qed

section \<open>A table one reservation below its threshold, with a reader\<close>

definition duncecap_full :: duncecap where
  "duncecap_full = \<lparr>dc_store_current =
     \<lparr>ds_readers = 1, ds_last_slot = 15, ds_threshold = 11, ds_used_count = 10, ds_alloc_len = 560,
      ds_buckets = map (\<lambda>b. \<lparr>db_record = \<lparr>dr_item = rb_item b, dr_epoch = rb_epoch b\<rparr>, db_hv = rb_hv b\<rparr>)
        (rh_buckets refhat_full)\<rparr>,
     dc_item_count = 9, dc_next_epoch = 12, dc_mutex = False\<rparr>"

lemma duncecap_full_refhat: "duncecap_refhat duncecap_full = refhat_full"
  by (simp add: duncecap_refhat_def duncecap_full_def refhat_full_def sizeof_duncecap_store_def
      duncecap_bucket_refhat_def comp_def zero_bucket_def)

section \<open>Properties\<close>

text \<open>C17: Any sequence of calls through the vtable gives the same answers on a new duncecap as on a
  new reference table, and leaves a duncecap that, bucket for bucket and counter for counter, is
  that reference table, with the mutex free and no reader registered.\<close>

theorem duncecap_equals_refhat:
  assumes "list_all call_ok cs" "length cs < epoch_limit"
  shows "\<exists>t0 r0 t' as. duncecap_new = Inr t0 \<and> refhat_new = Inr r0 \<and> duncecap_refhat t0 = r0 \<and>
     testhat_run \<lparr>th_vtable = dcap_vtable, th_htable = t0\<rparr> cs =
       Some (Inr (\<lparr>th_vtable = dcap_vtable, th_htable = t'\<rparr>, as)) \<and> duncecap_idle t' \<and>
     testhat_run \<lparr>th_vtable = refhat_vtable, th_htable = r0\<rparr> cs =
       Some (Inr (\<lparr>th_vtable = refhat_vtable, th_htable = duncecap_refhat t'\<rparr>, as))"
proof -
  have "vt_init dcap_vtable = duncecap_new" by (simp add: dcap_vtable_def duncecap_new_def)
  with duncecap.new_run_sim [OF assms] show ?thesis by simp
qed

theorem duncecap_equals_refhat_witness:
  "\<exists>t0 r0 t' as. duncecap_new = Inr t0 \<and> refhat_new = Inr r0 \<and> duncecap_refhat t0 = r0 \<and>
     testhat_run \<lparr>th_vtable = dcap_vtable, th_htable = t0\<rparr> [CallPut 5 7, CallRemove 5, CallLen] =
       Some (Inr (\<lparr>th_vtable = dcap_vtable, th_htable = t'\<rparr>, as)) \<and> duncecap_idle t' \<and>
     testhat_run \<lparr>th_vtable = refhat_vtable, th_htable = r0\<rparr> [CallPut 5 7, CallRemove 5, CallLen] =
       Some (Inr (\<lparr>th_vtable = refhat_vtable, th_htable = duncecap_refhat t'\<rparr>, as))"
  by (rule duncecap_equals_refhat) (simp_all add: epoch_limit_def)

text \<open>A migration with a reader registered in the old store does not return: \<^verbatim>\<open>duncecap_put\<close> of a
  key that is not in the table, called when one more reservation would reach the threshold,
  spins for as long as some reader stays.\<close>

theorem duncecap_put_waits_for_readers:
  assumes "refhat_inv (duncecap_refhat t)" "hv \<noteq> 0" "\<not> dc_mutex t"
    "ds_readers (dc_store_current t) \<noteq> 0"
    "ds_used_count (dc_store_current t) + 1 = ds_threshold (dc_store_current t)"
    "hv \<notin> set (map db_hv (ds_buckets (dc_store_current t)))"
  shows "duncecap_put t hv item = None"
proof -
  let ?t = "t\<lparr>dc_mutex := True\<rparr>"
  have find: "\<exists>i. refhat_find (duncecap_refhat t) hv = Inr (Vacant i)"
    using assms(6) by (cases rule: refhat_find_cases [OF assms(1,2)]) (simp_all, metis image_eqI nth_mem)
  have full: "wrap64 (ds_used_count (dc_store_current t) + 1) = ds_threshold (dc_store_current t)"
    using refhat_full_iff [OF assms(1)] assms(5) by simp
  have "\<exists>m. refhat_migrate (duncecap_refhat t) = Inr m"
    by (rule refhat_migrate_ok [OF assms(1)]) (use assms(5) in auto)
  then have "duncecap_migrate ?t = None"
    using duncecap_migrate_waits [of ?t] assms(1,4) by auto
  with find full have "duncecap_store_put ?t hv item = None"
    using duncecap_find_refhat [of ?t hv]
    by (auto simp: duncecap_store_put.simps [of ?t])
  with assms(3) show ?thesis
    by (simp add: duncecap_put_def duncecap_locked_def duncecap_lock_def)
qed

theorem duncecap_put_waits_for_readers_witness: "duncecap_put duncecap_full 11 7 = None"
proof (rule duncecap_put_waits_for_readers)
  show "refhat_inv (duncecap_refhat duncecap_full)"
    by (simp add: duncecap_full_refhat refhat_full_inv)
  show "(11 :: hatrack_hash) \<notin> set (map db_hv (ds_buckets (dc_store_current duncecap_full)))"
    by code_simp
qed (simp_all add: duncecap_full_def)

end
