(* ===== verification/Duncecap_Threads.thy ===== *)
theory Duncecap_Threads
  imports Duncecap
begin

text \<open>
  Threads on one duncecap table (\<^verbatim>\<open>duncecap.c\<close>), interleaved at the accesses to shared memory:
  locking and unlocking the mutex, loading \<^verbatim>\<open>store_current\<close>, counting readers in and out, reading
  the hash value and the record of one bucket, reserving a bucket, storing a record, publishing a new
  store, and freeing the old one.

  The memory is a list of stores by address; \<open>None\<close> is a freed store, and touching it is
  \<open>UseAfterFree\<close>. A writer holds the mutex from before its first read to after its last
  write, so its probe, and the copying into a store nobody else can see yet, are part of the step
  that follows them. A thread waiting for the mutex, or for the readers of the old store, takes no step.

  \<open>y_seen\<close> is a history variable, not part of the program: for each thread, the contents the
  table has had since the thread began its operation.
  Memory is sequentially consistent, and the store of a hash value, two words in C, is one step.
\<close>

section \<open>Definitions\<close>

datatype duncecap_pc =
    Idle
  | Enter hatrack_hash
  | Load hatrack_hash
  | Count hatrack_hash nat
  | Leave hatrack_hash nat
  | Probe hatrack_hash nat nat nat
  | Record hatrack_hash nat nat
  | Exit hatrack_hash nat "ptr \<times> bool"
  | Lock hat_call
  | Body hat_call
  | Fill hat_call nat
  | Drain hat_call nat
  | Free hat_call nat
  | Unlock hat_call hat_answer
  | Done hat_answer
  | Fault c_error

record duncecap_system =
  y_stores :: "duncecap_store option list"
  y_current :: nat
  y_item_count :: nat
  y_next_epoch :: nat
  y_mutex :: "nat option"
  y_pcs :: "duncecap_pc list"
  y_seen :: "odict set list"

definition store_at :: "duncecap_system \<Rightarrow> nat \<Rightarrow> duncecap_store option" where
  "store_at g s = (if s < length (y_stores g) then y_stores g ! s else None)"

definition set_store :: "duncecap_system \<Rightarrow> nat \<Rightarrow> duncecap_store option \<Rightarrow> duncecap_system" where
  "set_store g s st = g\<lparr>y_stores := (y_stores g)[s := st]\<rparr>"

definition set_pc :: "duncecap_system \<Rightarrow> nat \<Rightarrow> duncecap_pc \<Rightarrow> duncecap_system" where
  "set_pc g i p = g\<lparr>y_pcs := (y_pcs g)[i := p]\<rparr>"

text \<open>The table as the holder of the mutex sees it, and its contents.\<close>

definition table_of :: "duncecap_system \<Rightarrow> duncecap_store \<Rightarrow> duncecap" where
  "table_of g st = \<lparr>dc_store_current = st, dc_item_count = y_item_count g,
     dc_next_epoch = y_next_epoch g, dc_mutex = (y_mutex g \<noteq> None)\<rparr>"

definition set_table :: "duncecap_system \<Rightarrow> duncecap \<Rightarrow> duncecap_system" where
  "set_table g t = (set_store g (y_current g) (Some (dc_store_current t)))
     \<lparr>y_item_count := dc_item_count t, y_next_epoch := dc_next_epoch t\<rparr>"

definition store_slots :: "duncecap_store \<Rightarrow> slot list" where
  "store_slots st = map (\<lambda>b. (db_hv b, dr_item (db_record b), dr_epoch (db_record b))) (ds_buckets st)"

definition system_dict :: "duncecap_system \<Rightarrow> odict" where
  "system_dict g = (case store_at g (y_current g) of None \<Rightarrow> [] | Some st \<Rightarrow> odict (store_slots st))"

text \<open>An access to store \<open>s\<close> by thread \<open>i\<close>.\<close>

definition with_store ::
  "duncecap_system \<Rightarrow> nat \<Rightarrow> nat \<Rightarrow> (duncecap_store \<Rightarrow> duncecap_system option) \<Rightarrow> duncecap_system option" where
  "with_store g i s f =
     (case store_at g s of None \<Rightarrow> Some (set_pc g i (Fault UseAfterFree)) | Some st \<Rightarrow> f st)"

text \<open>The two steps that \<open>duncecap_reserve\<close> does in one: the reservation, then the record.\<close>

definition duncecap_claim :: "duncecap \<Rightarrow> nat \<Rightarrow> hatrack_hash \<Rightarrow> duncecap" where
  "duncecap_claim table i hv =
     table\<lparr>dc_store_current := (dc_store_current table)
          \<lparr>ds_used_count := wrap64 (ds_used_count (dc_store_current table) + 1),
           ds_buckets := (ds_buckets (dc_store_current table))
             [i := (ds_buckets (dc_store_current table) ! i)\<lparr>db_hv := hv\<rparr>]\<rparr>,
         dc_item_count := wrap64 (dc_item_count table + 1)\<rparr>"

definition duncecap_fill :: "duncecap \<Rightarrow> nat \<Rightarrow> ptr \<Rightarrow> duncecap" where
  "duncecap_fill table i item =
     (duncecap_store_record table i \<lparr>dr_item = item, dr_epoch = dc_next_epoch table\<rparr>)
       \<lparr>dc_next_epoch := wrap64 (dc_next_epoch table + 1)\<rparr>"

fun call_key :: "hat_call \<Rightarrow> hatrack_hash" where
  "call_key (CallGet hv) = hv"
| "call_key (CallPut hv item) = hv"
| "call_key (CallReplace hv item) = hv"
| "call_key (CallAdd hv item) = hv"
| "call_key (CallRemove hv) = hv"
| "call_key CallLen = 0"

fun call_item :: "hat_call \<Rightarrow> ptr" where
  "call_item (CallPut hv item) = item"
| "call_item (CallReplace hv item) = item"
| "call_item (CallAdd hv item) = item"
| "call_item c = 0"

fun call_inserts :: "hat_call \<Rightarrow> bool" where
  "call_inserts (CallPut hv item) = True"
| "call_inserts (CallAdd hv item) = True"
| "call_inserts c = False"

text \<open>What an insertion into a vacant bucket answers.\<close>

fun new_answer :: "hat_call \<Rightarrow> hat_answer" where
  "new_answer (CallAdd hv item) = Added True"
| "new_answer c = Item 0 False"

text \<open>A writer's operation that neither reserves a bucket nor migrates, with its answer.\<close>

fun duncecap_body :: "hat_call \<Rightarrow> duncecap \<Rightarrow> (duncecap \<times> hat_answer) outcome option" where
  "duncecap_body (CallPut hv item) t =
     map_option (\<lambda>r. and_then r (\<lambda>(t, x, f). Inr (t, Item x f))) (duncecap_store_put t hv item)"
| "duncecap_body (CallReplace hv item) t =
     Some (and_then (duncecap_store_replace t hv item) (\<lambda>(t, x, f). Inr (t, Item x f)))"
| "duncecap_body (CallAdd hv item) t =
     map_option (\<lambda>r. and_then r (\<lambda>(t, b). Inr (t, Added b))) (duncecap_store_add t hv item)"
| "duncecap_body (CallRemove hv) t =
     Some (and_then (duncecap_store_remove t hv) (\<lambda>(t, x, f). Inr (t, Item x f)))"
| "duncecap_body c t = None"

definition body_step ::
  "duncecap_system \<Rightarrow> nat \<Rightarrow> hat_call \<Rightarrow> duncecap_store \<Rightarrow> duncecap_system option" where
  "body_step g i c st =
     (let t = table_of g st in
      case duncecap_find st (call_key c) of
        Inl e \<Rightarrow> Some (set_pc g i (Fault e))
      | Inr (Vacant j) \<Rightarrow>
          (if \<not> call_inserts c
           then (case duncecap_body c t of
                   Some (Inr (t', a)) \<Rightarrow> Some (set_pc (set_table g t') i (Unlock c a))
                 | Some (Inl e) \<Rightarrow> Some (set_pc g i (Fault e))
                 | None \<Rightarrow> None)
           else if wrap64 (ds_used_count st + 1) = ds_threshold st
           then (case duncecap_copy t of
                   Inl e \<Rightarrow> Some (set_pc g i (Fault e))
                 | Inr new_store \<Rightarrow>
                     Some (set_pc (g\<lparr>y_stores := y_stores g @ [Some new_store],
                                    y_current := length (y_stores g)\<rparr>) i (Drain c (y_current g))))
           else Some (set_pc (set_table g (duncecap_claim t j (call_key c))) i (Fill c j)))
      | Inr (Hit j) \<Rightarrow>
          (case duncecap_body c t of
             Some (Inr (t', a)) \<Rightarrow> Some (set_pc (set_table g t') i (Unlock c a))
           | Some (Inl e) \<Rightarrow> Some (set_pc g i (Fault e))
           | None \<Rightarrow> None))"

definition probe_step ::
  "duncecap_system \<Rightarrow> nat \<Rightarrow> hatrack_hash \<Rightarrow> nat \<Rightarrow> nat \<Rightarrow> nat \<Rightarrow> duncecap_store \<Rightarrow> duncecap_pc" where
  "probe_step g i hv s bix n st =
     (if ds_last_slot st < n then Fault Unreachable
      else if length (ds_buckets st) \<le> bix then Fault OutOfBounds
      else if hatrack_hashes_eq hv (db_hv (ds_buckets st ! bix)) then Record hv s bix
      else if hatrack_bucket_unreserved (db_hv (ds_buckets st ! bix)) then Exit hv s (0, False)
      else Probe hv s (wrap64 (bix + 1) AND ds_last_slot st) (n + 1))"

definition record_step :: "hatrack_hash \<Rightarrow> nat \<Rightarrow> nat \<Rightarrow> duncecap_store \<Rightarrow> duncecap_pc" where
  "record_step hv s bix st =
     (let record = db_record (ds_buckets st ! bix) in
      if dr_epoch record \<noteq> 0 then Exit hv s (dr_item record, True) else Exit hv s (0, False))"

fun thread_step :: "duncecap_system \<Rightarrow> nat \<Rightarrow> duncecap_pc \<Rightarrow> duncecap_system option" where
  "thread_step g i (Enter hv) =
     (if y_mutex g = None then Some (set_pc (g\<lparr>y_mutex := Some i\<rparr>) i (Load hv)) else None)"
| "thread_step g i (Load hv) = Some (set_pc g i (Count hv (y_current g)))"
| "thread_step g i (Count hv s) = with_store g i s (\<lambda>st.
     Some (set_pc (set_store g s (Some (st\<lparr>ds_readers := wrap64 (ds_readers st + 1)\<rparr>))) i (Leave hv s)))"
| "thread_step g i (Leave hv s) = with_store g i s (\<lambda>st.
     Some (set_pc (g\<lparr>y_mutex := None\<rparr>) i (Probe hv s (hatrack_bucket_index hv (ds_last_slot st)) 0)))"
| "thread_step g i (Probe hv s bix n) = with_store g i s (\<lambda>st.
     Some (set_pc g i (probe_step g i hv s bix n st)))"
| "thread_step g i (Record hv s bix) = with_store g i s (\<lambda>st.
     Some (set_pc g i (record_step hv s bix st)))"
| "thread_step g i (Exit hv s x) = with_store g i s (\<lambda>st.
     Some (set_pc (set_store g s (Some (st\<lparr>ds_readers := wrap64 (ds_readers st + 2 ^ 64 - 1)\<rparr>))) i
       (Done (Item (fst x) (snd x)))))"
| "thread_step g i (Lock c) =
     (if y_mutex g = None then Some (set_pc (g\<lparr>y_mutex := Some i\<rparr>) i (Body c)) else None)"
| "thread_step g i (Body c) = with_store g i (y_current g) (body_step g i c)"
| "thread_step g i (Fill c j) = with_store g i (y_current g) (\<lambda>st.
     Some (set_pc (set_table g (duncecap_fill (table_of g st) j (call_item c))) i
       (Unlock c (new_answer c))))"
| "thread_step g i (Drain c s) = with_store g i s (\<lambda>st.
     if ds_readers st = 0 then Some (set_pc g i (Free c s)) else None)"
| "thread_step g i (Free c s) = with_store g i s (\<lambda>st.
     Some (set_pc (set_store g s None) i (Body c)))"
| "thread_step g i (Unlock c a) = Some (set_pc (g\<lparr>y_mutex := None\<rparr>) i (Done a))"
| "thread_step g i Idle = None"
| "thread_step g i (Done a) = None"
| "thread_step g i (Fault e) = None"

fun at_rest :: "duncecap_pc \<Rightarrow> bool" where
  "at_rest Idle = True"
| "at_rest (Done a) = True"
| "at_rest p = False"

fun first_pc :: "hat_call \<Rightarrow> duncecap_pc" where
  "first_pc (CallGet hv) = Enter hv"
| "first_pc c = Lock c"

definition observe :: "duncecap_system \<Rightarrow> duncecap_system" where
  "observe g = g\<lparr>y_seen := map (insert (system_dict g)) (y_seen g)\<rparr>"

definition begin_call :: "duncecap_system \<Rightarrow> nat \<Rightarrow> hat_call \<Rightarrow> duncecap_system" where
  "begin_call g i c = (set_pc g i (first_pc c))\<lparr>y_seen := (y_seen g)[i := {}]\<rparr>"

inductive system_step :: "duncecap_system \<Rightarrow> duncecap_system \<Rightarrow> bool" where
  call: "\<lbrakk>i < length (y_pcs g); at_rest (y_pcs g ! i); call_ok c; c \<noteq> CallLen\<rbrakk>
     \<Longrightarrow> system_step g (observe (begin_call g i c))"
| run: "\<lbrakk>i < length (y_pcs g); thread_step g i (y_pcs g ! i) = Some g'\<rbrakk>
     \<Longrightarrow> system_step g (observe g')"

text \<open>A table between operations, with all threads idle.\<close>

definition system_start :: "nat \<Rightarrow> duncecap \<Rightarrow> duncecap_system" where
  "system_start threads t = observe \<lparr>y_stores = [Some (dc_store_current t)], y_current = 0,
     y_item_count = dc_item_count t, y_next_epoch = dc_next_epoch t, y_mutex = None,
     y_pcs = replicate threads Idle, y_seen = replicate threads {}\<rparr>"

text \<open>The states that \<open>n\<close> steps of any threads in any order can lead to from table \<open>t\<close>.\<close>

inductive system_reach :: "nat \<Rightarrow> duncecap \<Rightarrow> nat \<Rightarrow> duncecap_system \<Rightarrow> bool" for threads t where
  start: "system_reach threads t 0 (system_start threads t)"
| step: "\<lbrakk>system_reach threads t n g; system_step g g'\<rbrakk> \<Longrightarrow> system_reach threads t (Suc n) g'"

section \<open>Memory safety\<close>

fun registered :: "duncecap_pc \<Rightarrow> nat option" where
  "registered (Leave hv s) = Some s"
| "registered (Probe hv s bix n) = Some s"
| "registered (Record hv s bix) = Some s"
| "registered (Exit hv s x) = Some s"
| "registered p = None"

fun holds :: "duncecap_pc \<Rightarrow> bool" where
  "holds (Load hv) = True"
| "holds (Count hv s) = True"
| "holds (Leave hv s) = True"
| "holds (Body c) = True"
| "holds (Fill c j) = True"
| "holds (Drain c s) = True"
| "holds (Free c s) = True"
| "holds (Unlock c a) = True"
| "holds p = False"

text \<open>The old store a migrating writer still has to free.\<close>

fun retiring :: "duncecap_pc \<Rightarrow> nat option" where
  "retiring (Drain c s) = Some s"
| "retiring (Free c s) = Some s"
| "retiring p = None"

definition readers_of :: "duncecap_system \<Rightarrow> nat \<Rightarrow> nat" where
  "readers_of g s = length (filter (\<lambda>p. registered p = Some s) (y_pcs g))"

fun pc_mem_ok :: "duncecap_system \<Rightarrow> duncecap_pc \<Rightarrow> bool" where
  "pc_mem_ok g (Count hv s) = (s = y_current g)"
| "pc_mem_ok g (Leave hv s) = (s = y_current g)"
| "pc_mem_ok g (Drain c s) = (s \<noteq> y_current g \<and> store_at g s \<noteq> None)"
| "pc_mem_ok g (Free c s) = (s \<noteq> y_current g \<and> store_at g s \<noteq> None \<and> readers_of g s = 0)"
| "pc_mem_ok g p = True"

definition mem_inv :: "duncecap_system \<Rightarrow> bool" where
  "mem_inv g \<longleftrightarrow>
     length (y_pcs g) < 2 ^ 64 \<and>
     store_at g (y_current g) \<noteq> None \<and>
     (\<forall>i < length (y_pcs g). holds (y_pcs g ! i) \<longleftrightarrow> y_mutex g = Some i) \<and>
     (\<forall>i < length (y_pcs g). pc_mem_ok g (y_pcs g ! i)) \<and>
     (\<forall>i < length (y_pcs g). \<forall>s. registered (y_pcs g ! i) = Some s \<longrightarrow> store_at g s \<noteq> None) \<and>
     (\<forall>s st. store_at g s = Some st \<longrightarrow> ds_readers st = readers_of g s) \<and>
     (\<forall>s. store_at g s \<noteq> None \<longrightarrow> s = y_current g \<or>
        (\<exists>i < length (y_pcs g). retiring (y_pcs g ! i) = Some s))"

lemma mem_invD:
  assumes "mem_inv g"
  shows "length (y_pcs g) < 2 ^ 64" "store_at g (y_current g) \<noteq> None"
    "i < length (y_pcs g) \<Longrightarrow> holds (y_pcs g ! i) \<longleftrightarrow> y_mutex g = Some i"
    "i < length (y_pcs g) \<Longrightarrow> pc_mem_ok g (y_pcs g ! i)"
    "i < length (y_pcs g) \<Longrightarrow> registered (y_pcs g ! i) = Some s \<Longrightarrow> store_at g s \<noteq> None"
    "store_at g s = Some st \<Longrightarrow> ds_readers st = readers_of g s"
    "store_at g s \<noteq> None \<Longrightarrow> s = y_current g \<or>
        (\<exists>i < length (y_pcs g). retiring (y_pcs g ! i) = Some s)"
  using assms unfolding mem_inv_def by blast+

lemma set_pc_sel [simp]:
  "y_stores (set_pc g i p) = y_stores g" "y_current (set_pc g i p) = y_current g"
  "y_item_count (set_pc g i p) = y_item_count g" "y_next_epoch (set_pc g i p) = y_next_epoch g"
  "y_mutex (set_pc g i p) = y_mutex g" "y_seen (set_pc g i p) = y_seen g"
  "y_pcs (set_pc g i p) = (y_pcs g)[i := p]"
  by (simp_all add: set_pc_def)

lemma set_store_sel [simp]:
  "y_stores (set_store g s st) = (y_stores g)[s := st]" "y_current (set_store g s st) = y_current g"
  "y_item_count (set_store g s st) = y_item_count g" "y_next_epoch (set_store g s st) = y_next_epoch g"
  "y_mutex (set_store g s st) = y_mutex g" "y_seen (set_store g s st) = y_seen g"
  "y_pcs (set_store g s st) = y_pcs g"
  by (simp_all add: set_store_def)

lemma set_table_sel [simp]:
  "y_stores (set_table g t) = (y_stores g)[y_current g := Some (dc_store_current t)]"
  "y_current (set_table g t) = y_current g"
  "y_item_count (set_table g t) = dc_item_count t" "y_next_epoch (set_table g t) = dc_next_epoch t"
  "y_mutex (set_table g t) = y_mutex g" "y_seen (set_table g t) = y_seen g"
  "y_pcs (set_table g t) = y_pcs g"
  by (simp_all add: set_table_def)

lemma store_at_cong: "y_stores g' = y_stores g \<Longrightarrow> store_at g' s = store_at g s"
  by (simp add: store_at_def)

lemma store_at_update:
  "y_stores g' = (y_stores g)[s := st] \<Longrightarrow> store_at g s \<noteq> None \<Longrightarrow>
     store_at g' s' = (if s' = s then st else store_at g s')"
  by (auto simp: store_at_def split: if_splits)

lemma readers_of_cong: "y_pcs g' = y_pcs g \<Longrightarrow> readers_of g' s = readers_of g s"
  by (simp add: readers_of_def)

lemma readers_of_update:
  assumes "y_pcs g' = (y_pcs g)[i := p]" "i < length (y_pcs g)"
  shows "readers_of g' s + (if registered (y_pcs g ! i) = Some s then 1 else 0) =
     readers_of g s + (if registered p = Some s then 1 else 0)"
  using length_filter_update [OF assms(2), of "\<lambda>p. registered p = Some s" p] assms(1)
  by (simp add: readers_of_def)

lemma readers_of_same:
  assumes "y_pcs g' = (y_pcs g)[i := p]" "i < length (y_pcs g)"
    "registered p = registered (y_pcs g ! i)"
  shows "readers_of g' s = readers_of g s"
  using readers_of_update [OF assms(1,2), of s] assms(3) by (simp split: if_splits)

text \<open>
  A step of thread \<open>i\<close> that allocates and frees nothing keeps the invariant if the reader
  counts, the thread's lock status and the conditions of the threads fit.
\<close>

lemma mem_inv_intro:
  assumes inv: "mem_inv g" and i: "i < length (y_pcs g)"
    and pcs: "y_pcs g' = (y_pcs g)[i := p]" and cur: "y_current g' = y_current g"
    and none: "\<And>s. store_at g' s = None \<longleftrightarrow> store_at g s = None"
    and rd: "\<And>s st. store_at g' s = Some st \<Longrightarrow> ds_readers st = readers_of g' s"
    and reg: "\<And>s. registered p = Some s \<Longrightarrow> store_at g s \<noteq> None"
    and ret: "retiring p = retiring (y_pcs g ! i)"
    and mutex: "holds p \<and> y_mutex g' = Some i \<and> (y_mutex g = None \<or> y_mutex g = Some i) \<or>
      \<not> holds p \<and> y_mutex g' = y_mutex g \<and> y_mutex g \<noteq> Some i \<or>
      \<not> holds p \<and> y_mutex g' = None \<and> y_mutex g = Some i"
    and ok: "pc_mem_ok g' p"
    and others: "\<And>j. j < length (y_pcs g) \<Longrightarrow> j \<noteq> i \<Longrightarrow> pc_mem_ok g' (y_pcs g ! j)"
  shows "mem_inv g'"
proof -
  note D = mem_invD [OF inv]
  have "holds (y_pcs g' ! j) \<longleftrightarrow> y_mutex g' = Some j" if "j < length (y_pcs g')" for j
    using mutex D(3) [of j] D(3) [of i] that i pcs by (auto simp: nth_list_update)
  moreover have "s = y_current g' \<or> (\<exists>j < length (y_pcs g'). retiring (y_pcs g' ! j) = Some s)"
    if "store_at g' s \<noteq> None" for s
  proof -
    have "retiring (y_pcs g' ! j) = retiring (y_pcs g ! j)" if "j < length (y_pcs g)" for j
      using that ret pcs i by (simp add: nth_list_update)
    moreover have "s = y_current g \<or> (\<exists>j < length (y_pcs g). retiring (y_pcs g ! j) = Some s)"
      using D(7) [of s] that none [of s] by simp
    moreover have "length (y_pcs g') = length (y_pcs g)" using pcs by simp
    ultimately show ?thesis using cur by auto
  qed
  moreover have "pc_mem_ok g' (y_pcs g' ! j)" if "j < length (y_pcs g')" for j
    using that others [of j] ok i pcs by (auto simp: nth_list_update)
  moreover have "store_at g' s \<noteq> None"
    if "j < length (y_pcs g')" "registered (y_pcs g' ! j) = Some s" for j s
    using that D(5) [of j s] i pcs reg [of s] none by (auto simp: nth_list_update split: if_splits)
  moreover have "length (y_pcs g') < 2 ^ 64" "store_at g' (y_current g') \<noteq> None"
    using D(1,2) pcs none cur by simp_all
  ultimately show ?thesis using rd unfolding mem_inv_def by blast
qed

text \<open>The special case of a step that keeps the registration and all reader counts.\<close>

lemma mem_inv_move:
  assumes inv: "mem_inv g" and i: "i < length (y_pcs g)"
    and pcs: "y_pcs g' = (y_pcs g)[i := p]" and cur: "y_current g' = y_current g"
    and alloc: "\<And>s. map_option ds_readers (store_at g' s) = map_option ds_readers (store_at g s)"
    and reg: "registered p = registered (y_pcs g ! i)"
    and ret: "retiring p = retiring (y_pcs g ! i)"
    and mutex: "holds p \<and> y_mutex g' = Some i \<and> (y_mutex g = None \<or> y_mutex g = Some i) \<or>
      \<not> holds p \<and> y_mutex g' = y_mutex g \<and> y_mutex g \<noteq> Some i \<or>
      \<not> holds p \<and> y_mutex g' = None \<and> y_mutex g = Some i"
    and ok: "pc_mem_ok g p"
  shows "mem_inv g'"
proof -
  note D = mem_invD [OF inv]
  have rd: "readers_of g' s = readers_of g s" for s
    by (rule readers_of_same [OF pcs i reg])
  have none: "store_at g' s = None \<longleftrightarrow> store_at g s = None" for s
    using alloc [of s] by (metis map_option_is_None)
  have pc_ok: "pc_mem_ok g' q = pc_mem_ok g q" for q
    using none by (cases q) (simp_all add: cur rd)
  show ?thesis
  proof (rule mem_inv_intro [OF inv i pcs cur none _ _ ret mutex])
    show "ds_readers st = readers_of g' s" if "store_at g' s = Some st" for s st
      using alloc [of s] that D(6) [of s] rd by (cases "store_at g s") auto
    show "store_at g s \<noteq> None" if "registered p = Some s" for s
      using that reg D(5) [OF i] by simp
  qed (use D(4) ok pc_ok in auto)
qed

text \<open>Counting a reader in and out.\<close>

lemma mem_inv_count:
  assumes inv: "mem_inv g" and i: "i < length (y_pcs g)" and pc: "y_pcs g ! i = Count hv s"
    and st: "store_at g s = Some st" and pcs: "y_pcs g' = (y_pcs g)[i := Leave hv s]"
    and stores: "y_stores g' = (y_stores g)[s := Some (st\<lparr>ds_readers := wrap64 (ds_readers st + 1)\<rparr>)]"
    and same: "y_current g' = y_current g" "y_mutex g' = y_mutex g"
  shows "mem_inv g'"
proof -
  note D = mem_invD [OF inv]
  have s: "s = y_current g" using D(4) [OF i] pc by simp
  have at: "store_at g' s' = (if s' = s then Some (st\<lparr>ds_readers := wrap64 (ds_readers st + 1)\<rparr>) else store_at g s')"
    for s' using st stores by (intro store_at_update) auto
  have rd: "readers_of g' s' = readers_of g s' + (if s' = s then 1 else 0)" for s'
    using readers_of_update [OF pcs i, of s'] pc by (simp split: if_splits)
  have "readers_of g' s \<le> length (y_pcs g)"
    using length_filter_le [of _ "y_pcs g'"] pcs by (simp add: readers_of_def)
  then have wr: "wrap64 (ds_readers st + 1) = readers_of g' s"
    using D(1) D(6) [OF st] rd [of s] by (intro trans [OF wrap64_id]) auto
  show ?thesis
  proof (rule mem_inv_intro [OF inv i pcs same(1)])
    show "store_at g' s' = None \<longleftrightarrow> store_at g s' = None" for s' using at st by simp
    show "ds_readers st' = readers_of g' s'" if "store_at g' s' = Some st'" for s' st'
      using that D(6) [of s' st'] rd [of s'] wr at by (auto split: if_splits)
    show "pc_mem_ok g' (y_pcs g ! j)" if "j < length (y_pcs g)" for j
      using D(4) [OF that] at rd s same by (cases "y_pcs g ! j") auto
  qed (use D(3) [OF i] pc st s same in auto)
qed

lemma mem_inv_exit:
  assumes inv: "mem_inv g" and i: "i < length (y_pcs g)" and pc: "y_pcs g ! i = Exit hv s x"
    and st: "store_at g s = Some st" and pcs: "y_pcs g' = (y_pcs g)[i := Done a]"
    and stores: "y_stores g' = (y_stores g)[s := Some (st\<lparr>ds_readers := wrap64 (ds_readers st + 2 ^ 64 - 1)\<rparr>)]"
    and same: "y_current g' = y_current g" "y_mutex g' = y_mutex g"
  shows "mem_inv g'"
proof -
  note D = mem_invD [OF inv]
  have at: "store_at g' s' = (if s' = s then Some (st\<lparr>ds_readers := wrap64 (ds_readers st + 2 ^ 64 - 1)\<rparr>)
      else store_at g s')" for s' using st stores by (intro store_at_update) auto
  have rd: "readers_of g' s' + (if s' = s then 1 else 0) = readers_of g s'" for s'
    using readers_of_update [OF pcs i, of s'] pc by (simp split: if_splits)
  have "readers_of g s \<le> length (y_pcs g)" by (simp add: readers_of_def)
  then have wr: "wrap64 (ds_readers st + 2 ^ 64 - 1) = readers_of g' s"
    using D(1) D(6) [OF st] rd [of s] wrap64_pred [of "ds_readers st"] by simp
  show ?thesis
  proof (rule mem_inv_intro [OF inv i pcs same(1)])
    show "store_at g' s' = None \<longleftrightarrow> store_at g s' = None" for s' using at st by simp
    show "ds_readers st' = readers_of g' s'" if "store_at g' s' = Some st'" for s' st'
      using that D(6) [of s' st'] rd [of s'] wr at by (auto split: if_splits)
    show "pc_mem_ok g' (y_pcs g ! j)" if "j < length (y_pcs g)" for j
      using D(4) [OF that] at rd [of "the (retiring (y_pcs g ! j))"] same
      by (cases "y_pcs g ! j") (auto split: if_splits)
  qed (use D(3) [OF i] pc st same in auto)
qed

text \<open>Publishing a new store and freeing the old one.\<close>

lemma mem_inv_publish:
  assumes inv: "mem_inv g" and i: "i < length (y_pcs g)" and pc: "y_pcs g ! i = Body c"
    and new: "ds_readers new_store = 0" and pcs: "y_pcs g' = (y_pcs g)[i := Drain c (y_current g)]"
    and stores: "y_stores g' = y_stores g @ [Some new_store]"
    and cur: "y_current g' = length (y_stores g)" and mutex: "y_mutex g' = y_mutex g"
  shows "mem_inv g'"
proof -
  note D = mem_invD [OF inv]
  have m: "y_mutex g = Some i" using D(3) [OF i] pc by simp
  have at: "store_at g' s = (if s = length (y_stores g) then Some new_store else store_at g s)" for s
    by (auto simp: store_at_def stores nth_append)
  have rd: "readers_of g' s = readers_of g s" for s
    using readers_of_same [OF pcs i] pc by simp
  have out: "store_at g (length (y_stores g)) = None" by (simp add: store_at_def)
  have "registered (y_pcs g ! j) \<noteq> Some (length (y_stores g))" if "j < length (y_pcs g)" for j
    using D(5) [OF that] out by auto
  then have none: "readers_of g (length (y_stores g)) = 0"
    by (auto simp: readers_of_def filter_empty_conv in_set_conv_nth)
  have cl: "y_current g \<noteq> length (y_stores g)" using D(2) out by auto
  have other: "\<not> holds (y_pcs g ! j)" if "j < length (y_pcs g)" "j \<noteq> i" for j
    using D(3) [OF that(1)] m that(2) by simp
  have "pc_mem_ok g' (y_pcs g' ! j)" if "j < length (y_pcs g')" for j
  proof (cases "j = i")
    case False
    then show ?thesis using other [of j] that i pcs by (cases "y_pcs g ! j") auto
  qed (use i pcs cur cl D(2) at in auto)
  moreover have "s = y_current g' \<or> (\<exists>j < length (y_pcs g'). retiring (y_pcs g' ! j) = Some s)"
    if "store_at g' s \<noteq> None" for s
  proof (cases "s = y_current g'")
    case False
    then have "s = y_current g \<or> (\<exists>j < length (y_pcs g). retiring (y_pcs g ! j) = Some s)"
      using D(7) [of s] that at cur by (auto split: if_splits)
    moreover have "retiring (y_pcs g ! j) = None" if "j < length (y_pcs g)" for j
      using other [OF that] pc by (cases "j = i"; cases "y_pcs g ! j") auto
    ultimately show ?thesis using i pcs by (auto intro!: exI [of _ i])
  qed simp
  ultimately show ?thesis
    using D m i pcs pc new none out unfolding mem_inv_def
    by (auto simp: at rd cur mutex nth_list_update split: if_splits)
qed

lemma mem_inv_free:
  assumes inv: "mem_inv g" and i: "i < length (y_pcs g)" and pc: "y_pcs g ! i = Free c s"
    and pcs: "y_pcs g' = (y_pcs g)[i := Body c]" and stores: "y_stores g' = (y_stores g)[s := None]"
    and same: "y_current g' = y_current g" "y_mutex g' = y_mutex g"
  shows "mem_inv g'"
proof -
  note D = mem_invD [OF inv]
  have m: "y_mutex g = Some i" using D(3) [OF i] pc by simp
  have s: "s \<noteq> y_current g" "store_at g s \<noteq> None" "readers_of g s = 0" using D(4) [OF i] pc by simp_all
  have at: "store_at g' s' = (if s' = s then None else store_at g s')" for s'
    using s(2) stores by (intro store_at_update) auto
  have rd: "readers_of g' s' = readers_of g s'" for s'
    using readers_of_same [OF pcs i] pc by simp
  have other: "\<not> holds (y_pcs g ! j)" if "j < length (y_pcs g)" "j \<noteq> i" for j
    using D(3) [OF that(1)] m that(2) by simp
  have unreg: "registered (y_pcs g ! j) \<noteq> Some s" if "j < length (y_pcs g)" for j
    using s(3) that by (auto simp: readers_of_def filter_empty_conv)
  have "pc_mem_ok g' (y_pcs g' ! j)" if "j < length (y_pcs g')" for j
    using other [of j] that i pcs by (cases "j = i"; cases "y_pcs g ! j") auto
  moreover have "s' = y_current g' \<or> (\<exists>j < length (y_pcs g'). retiring (y_pcs g' ! j) = Some s')"
    if "store_at g' s' \<noteq> None" for s'
  proof -
    have s': "s' \<noteq> s" "store_at g s' \<noteq> None" using that at by (auto split: if_splits)
    have "retiring (y_pcs g ! j) \<noteq> Some s'" if "j < length (y_pcs g)" for j
      using other [OF that] pc s'(1) by (cases "j = i"; cases "y_pcs g ! j") auto
    then show ?thesis using D(7) [OF s'(2)] same by auto
  qed
  ultimately show ?thesis
    using D m i pcs pc s unreg same unfolding mem_inv_def
    by (auto simp: at rd nth_list_update split: if_splits)
qed

fun is_fault :: "duncecap_pc \<Rightarrow> bool" where
  "is_fault (Fault e) = True"
| "is_fault p = False"

lemma with_storeE:
  assumes "with_store g i s f = Some g'" "\<not> is_fault (y_pcs g' ! i)" "i < length (y_pcs g)"
  obtains st where "store_at g s = Some st" "f st = Some g'"
  using assms that by (auto simp: with_store_def split: option.splits)

lemma duncecap_body_readers:
  assumes "duncecap_find (dc_store_current t) (call_key c) = Inr (Hit j) \<or>
      duncecap_find (dc_store_current t) (call_key c) = Inr (Vacant j) \<and> \<not> call_inserts c"
    and "duncecap_body c t = Some (Inr (t', a))"
  shows "ds_readers (dc_store_current t') = ds_readers (dc_store_current t)"
  using assms
  by (cases c) (auto simp: duncecap_store_put.simps [of t] duncecap_store_add.simps [of t]
      duncecap_store_replace_def duncecap_store_remove_def Let_def outcome_simps split: if_splits)

lemma duncecap_copy_readers: "duncecap_copy t = Inr st \<Longrightarrow> ds_readers st = 0"
  by (auto simp: duncecap_copy_def Let_def outcome_simps duncecap_store_new_def split: if_splits)

lemma table_of_sel [simp]:
  "dc_store_current (table_of g st) = st" "dc_item_count (table_of g st) = y_item_count g"
  "dc_next_epoch (table_of g st) = y_next_epoch g"
  by (simp_all add: table_of_def)

text \<open>A writer that changes only the current store's buckets and the counters.\<close>

lemma mem_inv_write:
  assumes inv: "mem_inv g" and i: "i < length (y_pcs g)" and st: "store_at g (y_current g) = Some st"
    and t: "ds_readers (dc_store_current t) = ds_readers st"
    and pc: "registered p = None" "registered (y_pcs g ! i) = None" "retiring p = None"
      "retiring (y_pcs g ! i) = None" "holds p" "holds (y_pcs g ! i)" "pc_mem_ok g p"
  shows "mem_inv (set_pc (set_table g t) i p)" (is "mem_inv ?g")
proof (rule mem_inv_move [OF inv i])
  show "map_option ds_readers (store_at ?g s) = map_option ds_readers (store_at g s)" for s
    using store_at_update [of ?g g "y_current g" "Some (dc_store_current t)" s] st t by simp
qed (use pc mem_invD(3) [OF inv i] in auto)

lemma mem_inv_body:
  assumes inv: "mem_inv g" and i: "i < length (y_pcs g)" and pc: "y_pcs g ! i = Body c"
    and st: "store_at g (y_current g) = Some st" and step: "body_step g i c st = Some g'"
    and fault: "\<not> is_fault (y_pcs g' ! i)"
  shows "mem_inv g'"
proof -
  note wr = mem_inv_write [OF inv i st]
  consider (table) j t' a where "duncecap_find st (call_key c) = Inr (Hit j) \<or>
        duncecap_find st (call_key c) = Inr (Vacant j) \<and> \<not> call_inserts c"
      "duncecap_body c (table_of g st) = Some (Inr (t', a))"
      "g' = set_pc (set_table g t') i (Unlock c a)"
    | (publish) new_store where "duncecap_copy (table_of g st) = Inr new_store"
      "g' = set_pc (g\<lparr>y_stores := y_stores g @ [Some new_store], y_current := length (y_stores g)\<rparr>) i
        (Drain c (y_current g))"
    | (claim) j where "g' = set_pc (set_table g (duncecap_claim (table_of g st) j (call_key c))) i (Fill c j)"
    using step fault i
    by (auto simp: body_step_def Let_def split: sum.splits probe_end.splits if_splits option.splits)
  then show ?thesis
  proof cases
    case table
    then show ?thesis
      using wr [of t' "Unlock c a"] duncecap_body_readers [of "table_of g st" c j t' a] pc by simp
  next
    case publish
    then show ?thesis
      by (intro mem_inv_publish [OF inv i pc duncecap_copy_readers [OF publish(1)]]) simp_all
  next
    case claim
    then show ?thesis
      using wr [of "duncecap_claim (table_of g st) j (call_key c)" "Fill c j"] pc
      by (simp add: duncecap_claim_def)
  qed
qed

lemma mem_inv_thread:
  assumes inv: "mem_inv g" and i: "i < length (y_pcs g)"
    and step: "thread_step g i (y_pcs g ! i) = Some g'"
    and fault: "\<not> is_fault (y_pcs g' ! i)"
  shows "mem_inv g'"
proof -
  note D = mem_invD [OF inv]
  note acc = with_storeE [OF _ fault i]
  note move = mem_inv_move [OF inv i]
  show ?thesis
  proof (cases "y_pcs g ! i")
    case (Enter hv)
    then show ?thesis using step D(3) [OF i]
      by (auto intro!: move [of _ "Load hv"] simp: store_at_def split: if_splits)
  next
    case (Load hv)
    then show ?thesis using step D(3) [OF i]
      by (auto intro!: move [of _ "Count hv (y_current g)"] simp: store_at_def)
  next
    case (Count hv s)
    with step show ?thesis by (auto elim!: acc intro!: mem_inv_count [OF inv i Count])
  next
    case (Leave hv s)
    with step D(3) [OF i] show ?thesis by (auto elim!: acc intro!: move simp: store_at_def)
  next
    case (Probe hv s bix n)
    with step D(3) [OF i] fault i show ?thesis
      by (auto elim!: acc intro!: move simp: store_at_def probe_step_def split: if_splits)
  next
    case (Record hv s bix)
    with step D(3) [OF i] show ?thesis
      by (auto elim!: acc intro!: move simp: store_at_def record_step_def Let_def split: if_splits)
  next
    case (Exit hv s x)
    with step show ?thesis by (auto elim!: acc intro!: mem_inv_exit [OF inv i Exit])
  next
    case (Lock c)
    then show ?thesis using step D(3) [OF i]
      by (auto intro!: move [of _ "Body c"] simp: store_at_def split: if_splits)
  next
    case (Body c)
    with step fault show ?thesis by (auto elim!: acc intro!: mem_inv_body [OF inv i Body])
  next
    case (Fill c j)
    with step show ?thesis
      by (auto elim!: acc simp: duncecap_fill_def intro!: mem_inv_write [OF inv i])
  next
    case (Drain c s)
    with step D(3,4) [OF i] D(6) [of s] show ?thesis
      by (auto elim!: acc intro!: move split: if_splits simp: store_at_def)
  next
    case (Free c s)
    with step show ?thesis by (auto elim!: acc intro!: mem_inv_free [OF inv i Free])
  next
    case (Unlock c a)
    then show ?thesis using step D(3) [OF i]
      by (auto intro!: move [of _ "Done a"] simp: store_at_def)
  qed (use step in auto)
qed

section \<open>What a reader sees in one store\<close>

definition store_keys :: "duncecap_store \<Rightarrow> hatrack_hash list" where
  "store_keys st = map db_hv (ds_buckets st)"

definition store_ok :: "duncecap_store \<Rightarrow> bool" where
  "store_ok st \<longleftrightarrow>
     (\<exists>k \<le> 57. ds_last_slot st = 2 ^ k - 1 \<and> probe_wf k (store_keys st) \<and> 0 \<in> set (store_keys st)) \<and>
     (\<exists>n. slots_ok n (store_slots st))"

text \<open>The reader for \<open>hv\<close> is at its \<open>n\<close>-th bucket, and all before it held other hash values.\<close>

definition probing :: "duncecap_store \<Rightarrow> hatrack_hash \<Rightarrow> nat \<Rightarrow> nat \<Rightarrow> bool" where
  "probing st hv bix n \<longleftrightarrow>
     bix = (unat hv + n) mod (ds_last_slot st + 1) \<and>
     (\<forall>j < n. store_keys st ! ((unat hv + j) mod (ds_last_slot st + 1)) \<notin> {0, hv})"

text \<open>A store changes only by reserving buckets and by storing records.\<close>

definition evolves :: "duncecap_store \<Rightarrow> duncecap_store \<Rightarrow> bool" where
  "evolves st st' \<longleftrightarrow>
     ds_last_slot st' = ds_last_slot st \<and> length (ds_buckets st') = length (ds_buckets st) \<and>
     (\<forall>b < length (ds_buckets st). store_keys st ! b \<noteq> 0 \<longrightarrow> store_keys st' ! b = store_keys st ! b)"

lemma evolves_refl: "evolves st st"
  by (simp add: evolves_def)

lemma store_okE:
  assumes "store_ok st"
  obtains k n where "k \<le> 57" "ds_last_slot st = 2 ^ k - 1" "probe_wf k (store_keys st)"
    "0 \<in> set (store_keys st)" "length (ds_buckets st) = 2 ^ k" "slots_ok n (store_slots st)"
  using assms probe_wf_length unfolding store_ok_def store_keys_def by fastforce

lemma store_slots_nth:
  "b < length (ds_buckets st) \<Longrightarrow> store_slots st ! b =
     (store_keys st ! b, dr_item (db_record (ds_buckets st ! b)), dr_epoch (db_record (ds_buckets st ! b)))"
  by (simp add: store_slots_def store_keys_def)

lemma probing_evolves:
  assumes "store_ok st" "evolves st st'" "probing st hv bix n"
  shows "probing st' hv bix n"
proof -
  obtain k where "ds_last_slot st = 2 ^ k - 1" "length (ds_buckets st) = 2 ^ k"
    using assms(1) by (rule store_okE)
  then have "(unat hv + j) mod (ds_last_slot st + 1) < length (ds_buckets st)" for j by simp
  with assms(2,3) show ?thesis by (auto simp: probing_def evolves_def)
qed

lemma store_lookup_hit:
  assumes ok: "store_ok st" and b: "b < length (ds_buckets st)" "store_keys st ! b = hv" and h: "hv \<noteq> 0"
  shows "od_get (odict (store_slots st)) hv =
    (if dr_epoch (db_record (ds_buckets st ! b)) \<noteq> 0
     then (dr_item (db_record (ds_buckets st ! b)), True) else (0, False))"
proof -
  obtain k n where k: "probe_wf k (store_keys st)" "length (ds_buckets st) = 2 ^ k"
    and n: "slots_ok n (store_slots st)"
    using ok by (rule store_okE)
  have len: "length (store_slots st) = length (ds_buckets st)" by (simp add: store_slots_def)
  have only: "c = b" if "c < length (ds_buckets st)" "store_keys st ! c = hv" for c
    using k that b h unfolding probe_wf_def by metis
  show ?thesis
  proof (cases "dr_epoch (db_record (ds_buckets st ! b)) = 0")
    case True
    have "e = 0" if "(hv, v, e) \<in> set (store_slots st)" for v e
      using that only True by (auto simp: in_set_conv_nth len store_slots_nth)
    then show ?thesis using True by (simp add: odict_get_absent)
  next
    case False
    have "(hv, dr_item (db_record (ds_buckets st ! b)), dr_epoch (db_record (ds_buckets st ! b)))
        \<in> set (store_slots st)"
      using b store_slots_nth [OF b(1)] len by (metis nth_mem)
    from odict_get [OF n this False] False show ?thesis by simp
  qed
qed

lemma store_lookup_miss:
  assumes ok: "store_ok st" and pr: "probing st hv bix n" and h: "hv \<noteq> 0"
    and z: "store_keys st ! bix = 0"
  shows "od_get (odict (store_slots st)) hv = (0, False)"
proof -
  obtain k where k: "probe_wf k (store_keys st)" "length (ds_buckets st) = 2 ^ k"
    "ds_last_slot st = 2 ^ k - 1"
    using ok by (rule store_okE)
  let ?at = "\<lambda>j. store_keys st ! ((home k hv + j) mod 2 ^ k)"
  have home: "(home k hv + j) mod 2 ^ k = (unat hv + j) mod (ds_last_slot st + 1)" for j
    by (simp add: home_def k(3) mod_add_left_eq)
  have before: "?at j \<notin> {0, hv}" if "j < n" for j using pr that home by (simp add: probing_def)
  have here: "?at n = 0" using pr z home by (simp add: probing_def)
  have "hv \<notin> set (store_keys st)"
  proof
    assume "hv \<in> set (store_keys st)"
    then obtain b where "b < 2 ^ k" "store_keys st ! b = hv"
      using k(2) by (auto simp: in_set_conv_nth store_keys_def)
    then have "reached k (store_keys st) b hv" using k(1) h by (auto simp: probe_wf_def)
    then obtain e where e: "b = (home k hv + e) mod 2 ^ k" "\<And>j. j < e \<Longrightarrow> ?at j \<noteq> 0"
      by (auto simp: reached_def)
    then have "?at e = hv" using \<open>store_keys st ! b = hv\<close> by simp
    then show False using before [of e] here e(2) [of n] h by (cases e n rule: linorder_cases) auto
  qed
  then have "e = 0" if "(hv, v, e) \<in> set (store_slots st)" for v e
    using that by (force simp: store_slots_def store_keys_def)
  then show ?thesis by (rule odict_get_absent)
qed

text \<open>A probe finds an end before it has gone round: some bucket is unreserved.\<close>

lemma probing_bound:
  assumes ok: "store_ok st" and pr: "probing st hv bix n"
  shows "n \<le> ds_last_slot st" "bix < length (ds_buckets st)"
proof -
  obtain k where k: "probe_wf k (store_keys st)" "length (ds_buckets st) = 2 ^ k"
    "ds_last_slot st = 2 ^ k - 1" "0 \<in> set (store_keys st)"
    using ok by (rule store_okE)
  show "bix < length (ds_buckets st)" using pr k by (simp add: probing_def)
  obtain b where b: "b < 2 ^ k" "store_keys st ! b = 0"
    using k(2,4) by (auto simp: in_set_conv_nth store_keys_def)
  show "n \<le> ds_last_slot st"
  proof (rule ccontr)
    assume "\<not> n \<le> ds_last_slot st"
    then have n: "2 ^ k \<le> n" using k(3) by simp
    obtain j where "j < 2 ^ k" "b = (unat hv mod 2 ^ k + j) mod 2 ^ k"
      by (rule cyc_surj [OF b(1), of "unat hv mod 2 ^ k"]) simp_all
    then have "j < 2 ^ k" "(unat hv + j) mod 2 ^ k = b" by (simp_all add: mod_add_left_eq)
    with n b pr k(3) show False by (auto simp: probing_def)
  qed
qed

section \<open>The contents of the table\<close>

text \<open>The image of a table in which bucket \<open>i\<close> is reserved and its record not yet stored.\<close>

definition refhat_claim :: "refhat \<Rightarrow> nat \<Rightarrow> hatrack_hash \<Rightarrow> refhat" where
  "refhat_claim r i hv = r\<lparr>
     rh_used_count := wrap64 (rh_used_count r + 1),
     rh_item_count := wrap64 (rh_item_count r + 1),
     rh_buckets := (rh_buckets r)[i := (rh_buckets r ! i)\<lparr>rb_hv := hv\<rparr>]\<rparr>"

definition pending :: "duncecap_system \<Rightarrow> (hat_call \<times> nat) option" where
  "pending g = (case y_mutex g of None \<Rightarrow> None
     | Some i \<Rightarrow> (case y_pcs g ! i of Fill c j \<Rightarrow> Some (c, j) | _ \<Rightarrow> None))"

definition image_ok :: "nat \<Rightarrow> (hat_call \<times> nat) option \<Rightarrow> refhat \<Rightarrow> bool" where
  "image_ok n pend r \<longleftrightarrow>
     (\<exists>r0. refhat_inv r0 \<and> rh_next_epoch r0 \<le> n + 1 \<and>
        (case pend of None \<Rightarrow> r = r0
         | Some (c, j) \<Rightarrow> refhat_find r0 (call_key c) = Inr (Vacant j) \<and>
             rh_used_count r0 + 1 < rh_threshold r0 \<and> r = refhat_claim r0 j (call_key c)))"

definition table_inv :: "nat \<Rightarrow> duncecap_system \<Rightarrow> bool" where
  "table_inv n g \<longleftrightarrow>
     (\<exists>st. store_at g (y_current g) = Some st \<and> image_ok n (pending g) (duncecap_refhat (table_of g st)))"

fun call_writes :: "hat_call \<Rightarrow> bool" where
  "call_writes (CallGet hv) = False"
| "call_writes CallLen = False"
| "call_writes c = True"

fun pc_data_ok :: "duncecap_system \<Rightarrow> odict set \<Rightarrow> duncecap_pc \<Rightarrow> bool" where
  "pc_data_ok g D (Enter hv) = (hv \<noteq> 0)"
| "pc_data_ok g D (Load hv) = (hv \<noteq> 0)"
| "pc_data_ok g D (Count hv s) = (hv \<noteq> 0)"
| "pc_data_ok g D (Leave hv s) = (hv \<noteq> 0)"
| "pc_data_ok g D (Probe hv s bix n) =
     (hv \<noteq> 0 \<and> (case store_at g s of None \<Rightarrow> True | Some st \<Rightarrow> probing st hv bix n))"
| "pc_data_ok g D (Record hv s bix) =
     (hv \<noteq> 0 \<and> (case store_at g s of None \<Rightarrow> True
        | Some st \<Rightarrow> bix < length (ds_buckets st) \<and> store_keys st ! bix = hv))"
| "pc_data_ok g D (Exit hv s x) = (\<exists>d \<in> D. od_get d hv = x)"
| "pc_data_ok g D (Lock c) = (call_ok c \<and> call_writes c)"
| "pc_data_ok g D (Body c) = (call_ok c \<and> call_writes c)"
| "pc_data_ok g D (Fill c j) = (call_ok c \<and> call_inserts c)"
| "pc_data_ok g D (Drain c s) = (call_ok c \<and> call_inserts c)"
| "pc_data_ok g D (Free c s) = (call_ok c \<and> call_inserts c)"
| "pc_data_ok g D (Unlock c a) = True"
| "pc_data_ok g D Idle = True"
| "pc_data_ok g D (Done a) = True"
| "pc_data_ok g D (Fault e) = False"

definition data_inv :: "nat \<Rightarrow> duncecap_system \<Rightarrow> bool" where
  "data_inv n g \<longleftrightarrow>
     length (y_seen g) = length (y_pcs g) \<and>
     (\<forall>i < length (y_pcs g). system_dict g \<in> y_seen g ! i) \<and>
     table_inv n g \<and>
     (\<forall>s st. store_at g s = Some st \<longrightarrow> store_ok st) \<and>
     (\<forall>i < length (y_pcs g). \<forall>s st. registered (y_pcs g ! i) = Some s \<longrightarrow> store_at g s = Some st \<longrightarrow>
        odict (store_slots st) \<in> y_seen g ! i) \<and>
     (\<forall>i < length (y_pcs g). pc_data_ok g (y_seen g ! i) (y_pcs g ! i))"

lemma data_invD:
  assumes "data_inv n g"
  shows "length (y_seen g) = length (y_pcs g)"
    "i < length (y_pcs g) \<Longrightarrow> system_dict g \<in> y_seen g ! i"
    "table_inv n g" "store_at g s = Some st \<Longrightarrow> store_ok st"
    "i < length (y_pcs g) \<Longrightarrow> registered (y_pcs g ! i) = Some s \<Longrightarrow> store_at g s = Some st \<Longrightarrow>
        odict (store_slots st) \<in> y_seen g ! i"
    "i < length (y_pcs g) \<Longrightarrow> pc_data_ok g (y_seen g ! i) (y_pcs g ! i)"
  using assms unfolding data_inv_def by blast+

lemma observe_sel [simp]:
  "y_stores (observe g) = y_stores g" "y_current (observe g) = y_current g"
  "y_item_count (observe g) = y_item_count g" "y_next_epoch (observe g) = y_next_epoch g"
  "y_mutex (observe g) = y_mutex g" "y_pcs (observe g) = y_pcs g"
  "y_seen (observe g) = map (insert (system_dict g)) (y_seen g)"
  "store_at (observe g) s = store_at g s" "system_dict (observe g) = system_dict g"
  "table_of (observe g) st = table_of g st"
  by (simp_all add: observe_def store_at_def system_dict_def table_of_def)

lemma pending_observe [simp]: "pending (observe g) = pending g"
  by (simp add: pending_def split: option.split)

lemma table_inv_observe [simp]: "table_inv n (observe g) = table_inv n g"
  by (simp add: table_inv_def)

lemma pc_data_ok_observe [simp]: "pc_data_ok (observe g) D p = pc_data_ok g D p"
  by (cases p) simp_all

text \<open>
  The other threads, when stores only evolve: a store that is not current keeps its contents,
  and no thread is registered with a new one.
\<close>

lemma pc_data_ok_others:
  assumes ok: "pc_data_ok g D p" and D: "D \<subseteq> D'"
    and reg: "\<And>s. registered p = Some s \<Longrightarrow> store_at g s \<noteq> None"
    and evo: "\<And>s st st'. store_at g s = Some st \<Longrightarrow> store_at g' s = Some st' \<Longrightarrow> store_ok st \<and> evolves st st'"
  shows "pc_data_ok g' D' p"
proof (cases p)
  case (Probe hv s bix n)
  then show ?thesis using ok reg evo [of s] probing_evolves
    by (fastforce split: option.splits)
next
  case (Record hv s bix)
  then show ?thesis using ok reg evo [of s]
    by (fastforce simp: evolves_def split: option.splits)
qed (use ok D in auto)

lemma data_inv_intro_seen:
  assumes inv: "data_inv n g" and mem: "mem_inv g" and i: "i < length (y_pcs g)"
    and pcs: "y_pcs g' = (y_pcs g)[i := p]" and seen: "y_seen g' = (y_seen g)[i := S]"
    and evo: "\<And>s st'. store_at g' s = Some st' \<Longrightarrow>
      store_ok st' \<and> (s = y_current g' \<or> (\<exists>st. store_at g s = Some st \<and> store_slots st' = store_slots st)) \<and>
      (\<forall>st. store_at g s = Some st \<longrightarrow> evolves st st')"
    and table: "table_inv n' g'"
    and reg: "\<And>s st. registered p = Some s \<Longrightarrow> store_at g' s = Some st \<Longrightarrow>
      odict (store_slots st) \<in> insert (system_dict g') S"
    and ok: "pc_data_ok g' (insert (system_dict g') S) p"
  shows "data_inv n' (observe g')"
proof -
  note D = data_invD [OF inv] and M = mem_invD [OF mem]
  have dict: "odict (store_slots st) = system_dict g'" if "store_at g' (y_current g') = Some st" for st
    using that by (simp add: system_dict_def)
  have seen': "y_seen (observe g') ! j = insert (system_dict g') (if j = i then S else y_seen g ! j)"
    if "j < length (y_pcs g)" for j
    using that D(1) seen by (simp add: nth_list_update)
  have slots: "odict (store_slots st) \<in> y_seen (observe g') ! j"
    if j: "j < length (y_pcs g)" and r: "registered (y_pcs g' ! j) = Some s" and st: "store_at g' s = Some st"
    for j s st
  proof (cases "j = i \<or> s = y_current g'")
    case True
    then show ?thesis using reg [of s st] r st seen' [OF j] dict i pcs by auto
  next
    case False
    then obtain st0 where "store_at g s = Some st0" "store_slots st = store_slots st0"
      using evo [OF st] by blast
    with False r j pcs D(5) [OF j] seen' [OF j] show ?thesis by simp
  qed
  have pcok: "pc_data_ok g' (y_seen (observe g') ! j) (y_pcs g' ! j)" if j: "j < length (y_pcs g)" for j
  proof (cases "j = i")
    case True
    then show ?thesis using ok seen' i pcs by simp
  next
    case False
    have "pc_data_ok g' (insert (system_dict g') (y_seen g ! j)) (y_pcs g ! j)"
      by (rule pc_data_ok_others [OF D(6) [OF j]]) (use M(5) [OF j] evo D(4) in auto)
    then show ?thesis using False pcs seen' [OF j] by simp
  qed
  show ?thesis
    unfolding data_inv_def
  proof (intro conjI allI impI)
    show "length (y_seen (observe g')) = length (y_pcs (observe g'))" using D(1) seen pcs by simp
    show "table_inv n' (observe g')" using table by simp
    show "system_dict (observe g') \<in> y_seen (observe g') ! j" if "j < length (y_pcs (observe g'))" for j
      using seen' [of j] that pcs by simp
    show "odict (store_slots st) \<in> y_seen (observe g') ! j" if "j < length (y_pcs (observe g'))"
      "registered (y_pcs (observe g') ! j) = Some s" "store_at (observe g') s = Some st" for j s st
      by (rule slots) (use that pcs in simp_all)
    show "pc_data_ok (observe g') (y_seen (observe g') ! j) (y_pcs (observe g') ! j)"
      if "j < length (y_pcs (observe g'))" for j
      using pcok [of j] that pcs by simp
    show "store_ok st" if "store_at (observe g') s = Some st" for s st
      using evo [of s st] that by simp
  qed
qed

lemma data_inv_intro:
  assumes inv: "data_inv n g" "mem_inv g" "i < length (y_pcs g)"
    and pcs: "y_pcs g' = (y_pcs g)[i := p]" and seen: "y_seen g' = y_seen g"
    and evo: "\<And>s st'. store_at g' s = Some st' \<Longrightarrow>
      store_ok st' \<and> (s = y_current g' \<or> (\<exists>st. store_at g s = Some st \<and> store_slots st' = store_slots st)) \<and>
      (\<forall>st. store_at g s = Some st \<longrightarrow> evolves st st')"
    and table: "table_inv n' g'"
    and reg: "\<And>s st. registered p = Some s \<Longrightarrow> store_at g' s = Some st \<Longrightarrow>
      odict (store_slots st) \<in> insert (system_dict g') (y_seen g ! i)"
    and ok: "pc_data_ok g' (insert (system_dict g') (y_seen g ! i)) p"
  shows "data_inv n' (observe g')"
  by (rule data_inv_intro_seen [OF inv pcs _ evo table reg ok]) (simp_all add: seen)

section \<open>A writer's steps on the image of the table\<close>

lemma map_update_same [simp]: "(map f xs)[j := f (xs ! j)] = map f xs"
  by (metis list_update_id map_update)

lemma image_keys: "refhat_keys (duncecap_refhat t) = store_keys (dc_store_current t)"
  by (simp add: refhat_keys_def store_keys_def)

lemma image_slots: "refhat_slots (duncecap_refhat t) = store_slots (dc_store_current t)"
  by (simp add: refhat_slots_def store_slots_def bucket_slot_def)

lemma image_dict: "refhat_dict (duncecap_refhat t) = odict (store_slots (dc_store_current t))"
  by (simp add: refhat_dict_def image_slots)

lemma image_store_ok:
  assumes inv: "refhat_inv (duncecap_refhat t)"
  shows "store_ok (dc_store_current t)"
proof -
  obtain k where k: "refhat_geom k (duncecap_refhat t)" using inv by (rule refhat_invE)
  then show ?thesis
    using refhat_geom_bounds [OF inv k] refhat_keys_vacant [OF inv] refhat_invD(5) [OF inv]
    unfolding store_ok_def refhat_geom_def image_keys image_slots by auto
qed

lemma refhat_vacant_reserve:
  assumes inv: "refhat_inv r" and h: "hv \<noteq> 0" and find: "refhat_find r hv = Inr (Vacant j)"
    and room: "rh_next_epoch r < epoch_limit" "rh_used_count r + 1 < rh_threshold r"
  shows "j < length (rh_buckets r)" "rb_hv (rh_buckets r ! j) = 0" "rb_epoch (rh_buckets r ! j) = 0"
    "refhat_inv (refhat_reserve r j hv v)"
    "refhat_dict (refhat_reserve r j hv v) = refhat_dict r @ [(hv, v)]"
    "od_get (refhat_dict r) hv = (0, False)"
    "rh_next_epoch (refhat_reserve r j hv v) = rh_next_epoch r + 1"
  using inv h
  by (cases rule: refhat_find_cases;
      use find refhat_reserve_ok [OF inv _ _ _ h _ _ room] refhat_get_absent refhat_invD(4) [OF inv]
        in \<open>simp; metis nth_mem\<close>)+

lemma claim_image:
  assumes "j < length (ds_buckets (dc_store_current t))"
  shows "duncecap_refhat (duncecap_claim t j hv) = refhat_claim (duncecap_refhat t) j hv"
  using assms
  by (simp add: duncecap_refhat_def duncecap_claim_def refhat_claim_def map_update
      duncecap_bucket_refhat_def)

lemma fill_image:
  assumes "duncecap_refhat t = refhat_claim r j hv" "j < length (rh_buckets r)"
  shows "duncecap_refhat (duncecap_fill t j v) = refhat_reserve r j hv v"
proof -
  have len: "j < length (ds_buckets (dc_store_current t))"
  proof -
    have "length (rh_buckets (duncecap_refhat t)) = length (rh_buckets r)"
      unfolding assms(1) by (simp add: refhat_claim_def)
    then show ?thesis using assms(2) by simp
  qed
  have "dc_next_epoch t = rh_next_epoch r"
    using arg_cong [OF assms(1), of rh_next_epoch] by (simp add: refhat_claim_def)
  then show ?thesis
    using assms(2) unfolding duncecap_fill_def duncecap_refhat_counts duncecap_store_record_refhat [OF len] assms(1)
    by (simp add: refhat_claim_def refhat_reserve_def)
qed

text \<open>A reservation alone changes neither the contents nor what a reader needs of the store.\<close>

lemma claim_store:
  assumes inv: "refhat_inv r" and h: "hv \<noteq> 0" and find: "refhat_find r hv = Inr (Vacant j)"
    and room: "rh_next_epoch r < epoch_limit" "rh_used_count r + 1 < rh_threshold r"
    and t: "duncecap_refhat t = refhat_claim r j hv"
  shows "store_ok (dc_store_current t)" "odict (store_slots (dc_store_current t)) = refhat_dict r"
proof -
  note v = refhat_vacant_reserve [OF inv h find room]
  let ?u = "duncecap_fill t j 0"
  have "store_ok (dc_store_current ?u)"
    using image_store_ok [of ?u] v(4) fill_image [OF t v(1)] by simp
  moreover have "store_keys (dc_store_current ?u) = store_keys (dc_store_current t)"
    "ds_last_slot (dc_store_current ?u) = ds_last_slot (dc_store_current t)"
    by (simp_all add: duncecap_fill_def duncecap_store_record_def store_keys_def map_update)
  moreover have slots: "store_slots (dc_store_current t) =
      (refhat_slots r)[j := (hv, rb_item (rh_buckets r ! j), 0)]"
    using v(1,3) by (simp add: image_slots [symmetric] t refhat_claim_def refhat_slots_def map_update bucket_slot_def)
  have dead: "\<not> slot_live (refhat_slots r ! j)" "\<not> slot_live (hv, rb_item (rh_buckets r ! j), 0)"
    using v(1,3) by (simp_all add: slot_live_def refhat_slots_def bucket_slot_def)
  have live: "filter slot_live (store_slots (dc_store_current t)) = filter slot_live (refhat_slots r)"
    unfolding slots by (rule filter_update_dead [OF dead])
  have "\<forall>s \<in> set (store_slots (dc_store_current t)). slot_epoch s < rh_next_epoch r"
    using refhat_invD(5,6) [OF inv] unfolding slots slots_ok_def
    by (auto dest!: set_update_subset_insert [THEN subsetD])
  then have "slots_ok (rh_next_epoch r) (store_slots (dc_store_current t))"
    using refhat_invD(5) [OF inv] unfolding slots_ok_def live by blast
  ultimately show "store_ok (dc_store_current t)" unfolding store_ok_def by auto
  show "odict (store_slots (dc_store_current t)) = refhat_dict r"
    unfolding refhat_dict_def odict_def live_slots_def live ..
qed

lemma body_image:
  assumes inv: "refhat_inv (duncecap_refhat t)" and c: "call_ok c" "call_writes c"
    and room: "dc_next_epoch t < epoch_limit"
    and hit: "duncecap_find (dc_store_current t) (call_key c) = Inr (Hit j) \<or> \<not> call_inserts c"
  obtains t' where
    "duncecap_body c t = Some (Inr (t', snd (od_call (refhat_dict (duncecap_refhat t)) c)))"
    "refhat_inv (duncecap_refhat t')"
    "refhat_dict (duncecap_refhat t') = fst (od_call (refhat_dict (duncecap_refhat t)) c)"
    "dc_next_epoch t' \<le> dc_next_epoch t + 1"
proof (cases c)
  case (CallPut hv v)
  obtain r where r: "refhat_put (duncecap_refhat t) hv v = Some (Inr (r, od_get (refhat_dict (duncecap_refhat t)) hv))"
    "refhat_inv r" "refhat_dict r = od_put hv v (refhat_dict (duncecap_refhat t))"
    "rh_next_epoch r \<le> rh_next_epoch (duncecap_refhat t) + 1"
    using CallPut c room by (auto intro: refhat_put_ok [OF inv, of hv v])
  with duncecap_put_room [OF _ r(1), of j] CallPut hit show ?thesis
    by (auto simp: duncecap_find_refhat split: prod.splits intro: that)
next
  case (CallReplace hv v)
  obtain r where r: "refhat_replace (duncecap_refhat t) hv v = Inr (r, od_get (refhat_dict (duncecap_refhat t)) hv)"
    "refhat_inv r" "refhat_dict r = od_set hv v (refhat_dict (duncecap_refhat t))"
    "rh_next_epoch r \<le> rh_next_epoch (duncecap_refhat t)"
    using CallReplace c by (auto intro: refhat_replace_ok [OF inv, of hv v])
  with duncecap_replace_sim [OF r(1)] CallReplace show ?thesis
    by (auto split: prod.splits intro: that)
next
  case (CallAdd hv v)
  obtain r where r: "refhat_add (duncecap_refhat t) hv v =
      Some (Inr (r, \<not> snd (od_get (refhat_dict (duncecap_refhat t)) hv)))"
    "refhat_inv r" "refhat_dict r = od_add hv v (refhat_dict (duncecap_refhat t))"
    "rh_next_epoch r \<le> rh_next_epoch (duncecap_refhat t) + 1"
    using CallAdd c room by (auto intro: refhat_add_ok [OF inv, of hv v])
  with duncecap_add_room [OF _ r(1), of j] CallAdd hit show ?thesis
    by (auto simp: duncecap_find_refhat intro: that)
next
  case (CallRemove hv)
  obtain r where r: "refhat_remove (duncecap_refhat t) hv = Inr (r, od_get (refhat_dict (duncecap_refhat t)) hv)"
    "refhat_inv r" "refhat_dict r = od_remove hv (refhat_dict (duncecap_refhat t))"
    "rh_next_epoch r \<le> rh_next_epoch (duncecap_refhat t)"
    using CallRemove c by (auto intro: refhat_remove_ok [OF inv, of hv])
  with duncecap_remove_sim [OF r(1)] CallRemove show ?thesis
    by (auto split: prod.splits intro: that)
qed (use c in auto)

lemma duncecap_body_evolves:
  assumes "duncecap_find (dc_store_current t) (call_key c) = Inr (Hit j) \<or>
      duncecap_find (dc_store_current t) (call_key c) = Inr (Vacant j) \<and> \<not> call_inserts c"
    and "duncecap_body c t = Some (Inr (t', a))"
  shows "evolves (dc_store_current t) (dc_store_current t')"
proof -
  have "store_keys (dc_store_current (duncecap_store_record u i r)) = store_keys (dc_store_current u)" for u i r
    by (simp add: duncecap_store_record_def store_keys_def map_update)
  moreover have "ds_last_slot (dc_store_current (duncecap_store_record u i r)) = ds_last_slot (dc_store_current u)"
    "length (ds_buckets (dc_store_current (duncecap_store_record u i r))) = length (ds_buckets (dc_store_current u))"
    for u i r
    by (simp_all add: duncecap_store_record_def)
  ultimately show ?thesis
    using assms
    by (cases c) (auto simp: duncecap_store_put.simps [of t] duncecap_store_add.simps [of t] evolves_def
      duncecap_store_replace_def duncecap_store_remove_def Let_def outcome_simps split: if_splits)
qed

section \<open>Every step keeps the contents consistent\<close>

lemma image_ok_mono: "image_ok n pend r \<Longrightarrow> n \<le> n' \<Longrightarrow> image_ok n' pend r"
  unfolding image_ok_def by (meson add_le_mono1 order_trans)

lemma store_readers_sel [simp]:
  "store_keys (st\<lparr>ds_readers := r\<rparr>) = store_keys st" "store_slots (st\<lparr>ds_readers := r\<rparr>) = store_slots st"
  "store_ok (st\<lparr>ds_readers := r\<rparr>) = store_ok st" "evolves st (st\<lparr>ds_readers := r\<rparr>)"
  "probing (st\<lparr>ds_readers := r\<rparr>) hv bix n = probing st hv bix n"
  by (simp_all add: store_keys_def store_slots_def store_ok_def evolves_def probing_def)

lemma store_readers_id [simp]: "\<exists>r. st = st\<lparr>ds_readers := r\<rparr>"
  by (rule exI [of _ "ds_readers st"]) simp

lemma image_readers [simp]:
  "duncecap_refhat (table_of g (st\<lparr>ds_readers := r\<rparr>)) = duncecap_refhat (table_of g st)"
  by (simp add: duncecap_refhat_def table_of_def)

fun is_fill :: "duncecap_pc \<Rightarrow> bool" where
  "is_fill (Fill c j) = True"
| "is_fill p = False"

lemma pending_unfilled:
  assumes "y_mutex g = Some i" "\<not> is_fill (y_pcs g ! i)"
  shows "pending g = None"
  using assms by (cases "y_pcs g ! i") (simp_all add: pending_def)

lemma pending_move:
  assumes "i < length (y_pcs g)" "y_pcs g' = (y_pcs g)[i := p]" "\<not> is_fill p" "\<not> is_fill (y_pcs g ! i)"
    "y_mutex g' = y_mutex g \<or> y_mutex g = None \<and> y_mutex g' = Some i \<or> y_mutex g = Some i \<and> y_mutex g' = None"
  shows "pending g' = pending g"
proof -
  have 1: "y_mutex g = Some i \<Longrightarrow> pending g = None" and 2: "y_mutex g' = Some i \<Longrightarrow> pending g' = None"
    using assms pending_unfilled [of g i] pending_unfilled [of g' i] by auto
  show ?thesis
  proof (cases "y_mutex g = Some i \<or> y_mutex g' = Some i")
    case True
    then show ?thesis using 1 2 assms(5) by (auto simp: pending_def)
  next
    case False
    then have "y_mutex g' = y_mutex g" using assms(5) by auto
    with False show ?thesis by (auto simp: pending_def assms(2) nth_list_update split: option.splits)
  qed
qed

lemma table_inv_move:
  assumes "table_inv n g" "pending g' = pending g" "y_current g' = y_current g"
    "y_item_count g' = y_item_count g" "y_next_epoch g' = y_next_epoch g"
    and st: "\<And>st. store_at g (y_current g) = Some st \<Longrightarrow> \<exists>r. store_at g' (y_current g) = Some (st\<lparr>ds_readers := r\<rparr>)"
  shows "table_inv (Suc n) g'"
proof -
  obtain st where s: "store_at g (y_current g) = Some st"
    and ok: "image_ok n (pending g) (duncecap_refhat (table_of g st))"
    using assms(1) by (auto simp: table_inv_def)
  obtain r where r: "store_at g' (y_current g) = Some (st\<lparr>ds_readers := r\<rparr>)" using st [OF s] by blast
  have "duncecap_refhat (table_of g' (st\<lparr>ds_readers := r\<rparr>)) = duncecap_refhat (table_of g st)"
    using assms(4,5) by (simp add: duncecap_refhat_def table_of_def)
  then show ?thesis
    using r image_ok_mono [OF ok, of "Suc n"] assms(2,3) by (auto simp: table_inv_def)
qed

lemma data_inv_move:
  assumes inv: "data_inv n g" and mem: "mem_inv g" and i: "i < length (y_pcs g)"
    and pcs: "y_pcs g' = (y_pcs g)[i := p]"
    and same: "y_seen g' = y_seen g" "y_current g' = y_current g"
      "y_item_count g' = y_item_count g" "y_next_epoch g' = y_next_epoch g"
    and mutex: "y_mutex g' = y_mutex g \<or> y_mutex g = None \<and> y_mutex g' = Some i \<or>
      y_mutex g = Some i \<and> y_mutex g' = None"
    and fill: "\<not> is_fill p" "\<not> is_fill (y_pcs g ! i)"
    and stores: "\<And>s. case store_at g s of None \<Rightarrow> store_at g' s = None
      | Some st \<Rightarrow> \<exists>r. store_at g' s = Some (st\<lparr>ds_readers := r\<rparr>)"
    and reg: "\<And>s. registered p = Some s \<Longrightarrow> registered (y_pcs g ! i) = Some s \<or> s = y_current g"
    and ok: "pc_data_ok g (y_seen g ! i) p"
  shows "data_inv (Suc n) (observe g')"
proof -
  note D = data_invD [OF inv]
  have st: "\<exists>st r. store_at g s = Some st \<and> st' = st\<lparr>ds_readers := r\<rparr>" if "store_at g' s = Some st'" for s st'
    using that stores [of s] by (auto split: option.splits)
  have dict: "system_dict g' = system_dict g"
    using stores [of "y_current g"] same(2) by (auto simp: system_dict_def split: option.splits)
  show ?thesis
  proof (rule data_inv_intro [OF inv mem i pcs same(1)])
    show "store_ok st' \<and> (s = y_current g' \<or> (\<exists>st. store_at g s = Some st \<and> store_slots st' = store_slots st)) \<and>
      (\<forall>st. store_at g s = Some st \<longrightarrow> evolves st st')" if "store_at g' s = Some st'" for s st'
      using st [OF that] D(4) by force
    show "table_inv (Suc n) g'"
      by (rule table_inv_move [OF D(3) pending_move [OF i pcs fill mutex] same(2-4)])
         (use stores [of "y_current g"] in auto)
    show "odict (store_slots st') \<in> insert (system_dict g') (y_seen g ! i)"
      if r: "registered p = Some s" "store_at g' s = Some st'" for s st'
      using st [OF r(2)] reg [OF r(1)] D(5) [OF i] by (auto simp: dict) (auto simp: system_dict_def)
    show "pc_data_ok g' (insert (system_dict g') (y_seen g ! i)) p"
    proof -
      have "case store_at g' s of None \<Rightarrow> True | Some st \<Rightarrow> Q st"
        if "case store_at g s of None \<Rightarrow> True | Some st \<Rightarrow> Q st" "\<And>st r. Q (st\<lparr>ds_readers := r\<rparr>) = Q st" for s Q
        using that st [of s] by (auto split: option.splits)
      then show ?thesis using ok by (cases p) auto
    qed
  qed
qed

text \<open>
  What a step does to the contents: nothing, unless it brings a writer to the end of its
  operation; then it is that operation on the dictionary, and the writer has its answer.
\<close>

definition effect :: "duncecap_system \<Rightarrow> nat \<Rightarrow> duncecap_system \<Rightarrow> bool" where
  "effect g i g' \<longleftrightarrow>
     (case y_pcs g' ! i of
        Unlock c a \<Rightarrow> od_call (system_dict g) c = (system_dict g', a)
      | _ \<Rightarrow> system_dict g' = system_dict g)"

text \<open>A writer has written the current store: \<open>t\<close> is the table it leaves.\<close>

lemma data_inv_write:
  assumes inv: "data_inv n g" and mem: "mem_inv g" and i: "i < length (y_pcs g)"
    and st: "store_at g (y_current g) = Some st"
    and g': "g' = set_pc (set_table g t) i p"
    and ok: "store_ok (dc_store_current t)" "evolves st (dc_store_current t)"
    and image: "image_ok (Suc n) (pending g') (duncecap_refhat t)"
    and p: "registered p = None" "pc_data_ok g {} p"
  shows "data_inv (Suc n) (observe g')"
proof -
  note D = data_invD [OF inv]
  have at: "store_at g' s = (if s = y_current g then Some (dc_store_current t) else store_at g s)" for s
    using st g' by (intro store_at_update) auto
  have cur: "y_current g' = y_current g" by (simp add: g')
  show ?thesis
  proof (rule data_inv_intro [OF inv mem i])
    show "store_ok st' \<and> (s = y_current g' \<or> (\<exists>st. store_at g s = Some st \<and> store_slots st' = store_slots st)) \<and>
      (\<forall>st. store_at g s = Some st \<longrightarrow> evolves st st')" if "store_at g' s = Some st'" for s st'
      using that ok st D(4) by (auto simp: at cur evolves_refl split: if_splits)
    have "duncecap_refhat (table_of g' (dc_store_current t)) = duncecap_refhat t"
      by (simp add: g' duncecap_refhat_def table_of_def)
    with image show "table_inv (Suc n) g'" by (auto simp: table_inv_def at cur)
    show "pc_data_ok g' (insert (system_dict g') (y_seen g ! i)) p"
      using p by (cases p) auto
  qed (use p g' in simp_all)
qed

lemma system_dict_write:
  assumes "store_at g (y_current g) = Some st"
  shows "system_dict (set_pc (set_table g t) i p) = odict (store_slots (dc_store_current t))"
  using store_at_update [of "set_pc (set_table g t) i p" g "y_current g" "Some (dc_store_current t)"] assms
  by (simp add: system_dict_def)

lemma pending_of_holder:
  assumes "mem_inv g" "i < length (y_pcs g)" "holds (y_pcs g ! i)" "y_mutex g' = y_mutex g"
    "y_pcs g' = (y_pcs g)[i := p]"
  shows "pending g' = (case p of Fill c j \<Rightarrow> Some (c, j) | _ \<Rightarrow> None)"
proof -
  have "y_mutex g' = Some i" using mem_invD(3) [OF assms(1,2)] assms(3,4) by simp
  then show ?thesis using assms(2,5) by (simp add: pending_def)
qed

lemma publish_data:
  assumes inv: "data_inv n g" and mem: "mem_inv g" and i: "i < length (y_pcs g)"
    and st: "store_at g (y_current g) = Some st"
    and g': "g' = set_pc (g\<lparr>y_stores := y_stores g @ [Some new], y_current := length (y_stores g)\<rparr>) i
        (Drain c (y_current g))"
    and r: "refhat_inv r" "duncecap_refhat ((table_of g st)\<lparr>dc_store_current := new\<rparr>) = r"
      "refhat_dict r = system_dict g" "rh_next_epoch r \<le> n + 1"
    and pend: "pending g' = None" and c: "call_ok c" "call_inserts c"
  shows "data_inv (Suc n) (observe g') \<and> effect g i g'"
proof -
  note D = data_invD [OF inv]
  have at: "store_at g' s = (if s = length (y_stores g) then Some new else store_at g s)" for s
    by (auto simp: store_at_def g' nth_append)
  have image: "duncecap_refhat (table_of g' new) = r"
    using r(2) by (simp add: g' duncecap_refhat_def table_of_def)
  have sok: "store_ok new" using image_store_ok [of "table_of g' new"] r(1) image by simp
  have cur: "y_current g' = length (y_stores g)" by (simp add: g')
  have "image_ok (Suc n) (pending g') r" using r(1,4) pend by (auto simp: image_ok_def)
  then have "table_inv (Suc n) g'" by (auto simp: table_inv_def cur at image)
  moreover have "store_at g (length (y_stores g)) = None" by (simp add: store_at_def)
  moreover have "y_pcs g' = (y_pcs g)[i := Drain c (y_current g)]" "y_seen g' = y_seen g"
    by (simp_all add: g')
  ultimately have "data_inv (Suc n) (observe g')"
    using c sok by (intro data_inv_intro [OF inv mem i, of _ "Drain c (y_current g)"])
      (auto simp: at cur evolves_refl D(4) split: if_splits)
  moreover have "system_dict g' = refhat_dict r"
    using image_dict [of "table_of g' new"] image by (simp add: system_dict_def cur at)
  ultimately show ?thesis using r(3) i by (simp add: effect_def g')
qed

lemma claim_data:
  assumes inv: "data_inv n g" and mem: "mem_inv g" and i: "i < length (y_pcs g)"
    and st: "store_at g (y_current g) = Some st"
    and g': "g' = set_pc (set_table g (duncecap_claim (table_of g st) j (call_key c))) i (Fill c j)"
    and r: "refhat_inv (duncecap_refhat (table_of g st))" "y_next_epoch g \<le> n + 1"
    and h: "call_key c \<noteq> 0" and find: "refhat_find (duncecap_refhat (table_of g st)) (call_key c) = Inr (Vacant j)"
    and room: "y_next_epoch g < epoch_limit"
      "rh_used_count (duncecap_refhat (table_of g st)) + 1 < rh_threshold (duncecap_refhat (table_of g st))"
    and pend: "pending g' = Some (c, j)" and c: "call_ok c" "call_inserts c"
  shows "data_inv (Suc n) (observe g') \<and> effect g i g'"
proof -
  let ?t = "table_of g st" let ?u = "duncecap_claim ?t j (call_key c)"
  have room': "rh_next_epoch (duncecap_refhat ?t) < epoch_limit" using room(1) by simp
  note v = refhat_vacant_reserve [OF r(1) h find room' room(2)]
  have j: "j < length (ds_buckets st)" "store_keys st ! j = 0" using v(1,2) by (simp_all add: store_keys_def)
  have image: "duncecap_refhat ?u = refhat_claim (duncecap_refhat ?t) j (call_key c)"
    using j by (intro claim_image) simp
  note s = claim_store [OF r(1) h find room' room(2) image]
  have "data_inv (Suc n) (observe g')"
  proof (rule data_inv_write [OF inv mem i st g' s(1)])
    show "evolves st (dc_store_current ?u)"
      using j by (auto simp: evolves_def duncecap_claim_def store_keys_def map_update nth_list_update)
    show "image_ok (Suc n) (pending g') (duncecap_refhat ?u)"
      using r room(2) find image pend by (auto simp: image_ok_def intro!: exI [of _ "duncecap_refhat ?t"])
  qed (use c in simp_all)
  moreover have "system_dict g' = system_dict g"
    using s(2) system_dict_write [OF st, of ?u i "Fill c j"] st image_dict [of ?t]
    by (simp add: g' system_dict_def [of g])
  ultimately show ?thesis using i by (simp add: effect_def g')
qed

lemma body_data:
  assumes inv: "data_inv n g" and mem: "mem_inv g" and i: "i < length (y_pcs g)"
    and pc: "y_pcs g ! i = Body c" and st: "store_at g (y_current g) = Some st"
    and step: "body_step g i c st = Some g'" and room: "n + 1 < epoch_limit"
  shows "data_inv (Suc n) (observe g') \<and> effect g i g'"
proof -
  note D = data_invD [OF inv]
  let ?t = "table_of g st" let ?h = "call_key c"
  have m: "y_mutex g = Some i" using mem_invD(3) [OF mem i] pc by simp
  have c: "call_ok c" "call_writes c" using D(6) [OF i] pc by simp_all
  have h: "?h \<noteq> 0" using c by (cases c) auto
  have "pending g = None" using pending_unfilled [OF m] pc by simp
  then have ri: "refhat_inv (duncecap_refhat ?t)" and epoch: "y_next_epoch g \<le> n + 1"
    using D(3) st by (auto simp: table_inv_def image_ok_def)
  have dict: "system_dict g = refhat_dict (duncecap_refhat ?t)"
    using st by (simp add: system_dict_def image_dict)
  have find: "duncecap_find st ?h = refhat_find (duncecap_refhat ?t) ?h"
    using duncecap_find_refhat [of ?t] by simp
  have pend: "pending g'' = (case p of Fill c j \<Rightarrow> Some (c, j) | _ \<Rightarrow> None)"
    if "y_mutex g'' = y_mutex g" "y_pcs g'' = (y_pcs g)[i := p]" for g'' p
    using pending_of_holder [OF mem i _ that] pc by simp
  have table: ?thesis
    if hit: "duncecap_find st ?h = Inr (Hit j) \<or> duncecap_find st ?h = Inr (Vacant j) \<and> \<not> call_inserts c"
      and "\<And>t' a. duncecap_body c ?t = Some (Inr (t', a)) \<Longrightarrow> g' = set_pc (set_table g t') i (Unlock c a)" for j
  proof -
    obtain t' where t': "duncecap_body c ?t = Some (Inr (t', snd (od_call (refhat_dict (duncecap_refhat ?t)) c)))"
      "refhat_inv (duncecap_refhat t')"
      "refhat_dict (duncecap_refhat t') = fst (od_call (refhat_dict (duncecap_refhat ?t)) c)"
      "dc_next_epoch t' \<le> dc_next_epoch ?t + 1"
      by (rule body_image [OF ri c, of j]) (use hit epoch room in auto)
    let ?p = "Unlock c (snd (od_call (refhat_dict (duncecap_refhat ?t)) c))"
    have g': "g' = set_pc (set_table g t') i ?p" using that(2) [OF t'(1)] .
    have "data_inv (Suc n) (observe g')"
    proof (rule data_inv_write [OF inv mem i st g' image_store_ok [OF t'(2)]])
      show "evolves st (dc_store_current t')"
        using duncecap_body_evolves [of ?t c j] hit t'(1) by simp
      show "image_ok (Suc n) (pending g') (duncecap_refhat t')"
        using t'(2,4) epoch pend [of g' ?p] by (auto simp: g' image_ok_def)
    qed simp_all
    moreover have "effect g i g'"
      using system_dict_write [OF st, of t' i ?p] t'(3) i by (simp add: effect_def g' dict image_dict [symmetric])
    ultimately show ?thesis ..
  qed
  from ri h show ?thesis
  proof (cases rule: refhat_find_cases)
    case (present j)
    with step find show ?thesis by (intro table [of j]) (auto simp: body_step_def Let_def)
  next
    case (absent k j)
    then have vac: "duncecap_find st ?h = Inr (Vacant j)" using find by simp
    show ?thesis
    proof (cases "call_inserts c")
      case False
      with step vac show ?thesis by (intro table [of j]) (auto simp: body_step_def Let_def)
    next
      case ins: True
      show ?thesis
      proof (cases "wrap64 (ds_used_count st + 1) = ds_threshold st")
        case True
        then have full: "rh_used_count (duncecap_refhat ?t) + 1 = rh_threshold (duncecap_refhat ?t)"
          using refhat_full_iff [OF ri] by simp
        obtain r where r: "refhat_migrate (duncecap_refhat ?t) = Inr r" "refhat_inv r"
          "refhat_dict r = refhat_dict (duncecap_refhat ?t)" "rh_next_epoch r = rh_next_epoch (duncecap_refhat ?t)"
          by (rule refhat_migrate_ok [OF ri full])
        obtain new where new: "duncecap_copy ?t = Inr new"
          "duncecap_refhat (?t\<lparr>dc_store_current := new\<rparr>) = r"
          by (rule duncecap_copy_sim [OF ri r(1)])
        have g': "g' = set_pc (g\<lparr>y_stores := y_stores g @ [Some new], y_current := length (y_stores g)\<rparr>) i
            (Drain c (y_current g))"
          using step vac ins True new(1) by (simp add: body_step_def)
        then show ?thesis
          using publish_data [OF inv mem i st g' r(2) new(2)] pend [of g' "Drain c (y_current g)"]
            r(3,4) epoch ins c dict by simp
      next
        case False
        then have below: "rh_used_count (duncecap_refhat ?t) + 1 < rh_threshold (duncecap_refhat ?t)"
          using refhat_full_iff [OF ri] refhat_invD(2) [OF ri] by auto
        have g': "g' = set_pc (set_table g (duncecap_claim ?t j ?h)) i (Fill c j)"
          using step vac ins False by (simp add: body_step_def)
        then show ?thesis
          using claim_data [OF inv mem i st g' ri epoch h absent(6) _ below] pend [of g' "Fill c j"]
            epoch room ins c by simp
      qed
    qed
  qed
qed

lemma fill_data:
  assumes inv: "data_inv n g" and mem: "mem_inv g" and i: "i < length (y_pcs g)"
    and pc: "y_pcs g ! i = Fill c j" and st: "store_at g (y_current g) = Some st"
    and g': "g' = set_pc (set_table g (duncecap_fill (table_of g st) j (call_item c))) i (Unlock c (new_answer c))"
    and room: "n + 1 < epoch_limit"
  shows "data_inv (Suc n) (observe g') \<and> effect g i g'"
proof -
  note D = data_invD [OF inv]
  let ?t = "table_of g st" let ?u = "duncecap_fill ?t j (call_item c)"
  have m: "y_mutex g = Some i" using mem_invD(3) [OF mem i] pc by simp
  have c: "call_ok c" "call_inserts c" using D(6) [OF i] pc by simp_all
  have h: "call_key c \<noteq> 0" using c by (cases c) auto
  have pend: "pending g = Some (c, j)" using m pc by (simp add: pending_def)
  have pend': "pending g' = None"
    using pending_of_holder [OF mem i, of g' "Unlock c (new_answer c)"] pc by (simp add: g')
  obtain r where r: "refhat_inv r" "rh_next_epoch r \<le> n + 1" "refhat_find r (call_key c) = Inr (Vacant j)"
    "rh_used_count r + 1 < rh_threshold r" "duncecap_refhat ?t = refhat_claim r j (call_key c)"
    using D(3) st pend by (auto simp: table_inv_def image_ok_def)
  have ep: "rh_next_epoch r < epoch_limit" using r(2) room by simp
  note v = refhat_vacant_reserve(1,6) [OF r(1) h r(3) ep r(4)]
    and w = refhat_vacant_reserve(4,5,7) [OF r(1) h r(3) ep r(4), of "call_item c"]
  have image: "duncecap_refhat ?u = refhat_reserve r j (call_key c) (call_item c)"
    by (rule fill_image [OF r(5) v(1)])
  have dict: "system_dict g = refhat_dict r"
    using claim_store(2) [OF r(1) h r(3) ep r(4,5)] st by (simp add: system_dict_def)
  have dict': "system_dict g' = refhat_dict r @ [(call_key c, call_item c)]"
    using system_dict_write [OF st, of ?u i] image_dict [of ?u] image w(2) by (simp add: g')
  have "data_inv (Suc n) (observe g')"
  proof (rule data_inv_write [OF inv mem i st g'])
    show "store_ok (dc_store_current ?u)" using image_store_ok [of ?u] image w(1) by simp
    show "evolves st (dc_store_current ?u)"
      by (simp add: evolves_def duncecap_fill_def duncecap_store_record_def store_keys_def map_update)
    show "image_ok (Suc n) (pending g') (duncecap_refhat ?u)"
      using w(1,3) r(2) pend' by (auto simp: image_ok_def image)
  qed simp_all
  moreover have "od_call (system_dict g) c = (system_dict g', new_answer c)"
    using c v(2) dict' dict by (cases c) (auto simp: od_put_append od_add_cases)
  ultimately show ?thesis using i by (simp add: effect_def g')
qed

lemma free_data:
  assumes inv: "data_inv n g" and mem: "mem_inv g" and i: "i < length (y_pcs g)"
    and pc: "y_pcs g ! i = Free c s" and g': "g' = set_pc (set_store g s None) i (Body c)"
  shows "data_inv (Suc n) (observe g') \<and> effect g i g'"
proof -
  note D = data_invD [OF inv]
  have s: "s \<noteq> y_current g" "store_at g s \<noteq> None" using mem_invD(4) [OF mem i] pc by simp_all
  have at: "store_at g' s' = (if s' = s then None else store_at g s')" for s'
    using s(2) g' by (intro store_at_update) auto
  have sel: "y_current g' = y_current g" "y_pcs g' = (y_pcs g)[i := Body c]" "y_seen g' = y_seen g"
    "y_item_count g' = y_item_count g" "y_next_epoch g' = y_next_epoch g" "y_mutex g' = y_mutex g"
    by (simp_all add: g')
  have "y_mutex g = Some i" using mem_invD(3) [OF mem i] pc by simp
  then have pend: "pending g' = pending g"
    using pending_unfilled [of g i] pending_unfilled [of g' i] pc i sel by simp
  have "table_inv (Suc n) g'"
    using D(3) s(1) by (intro table_inv_move [OF _ pend sel(1,4,5)]) (auto simp: at)
  moreover have "call_ok c" "call_writes c" using D(6) [OF i] pc by (cases c; simp)+
  ultimately have "data_inv (Suc n) (observe g')"
    by (intro data_inv_intro [OF inv mem i sel(2,3)]) (auto simp: at evolves_refl D(4) split: if_splits)
  moreover have "system_dict g' = system_dict g" using s(1) by (simp add: system_dict_def at sel)
  ultimately show ?thesis using i by (simp add: effect_def sel)
qed

fun is_unlock :: "duncecap_pc \<Rightarrow> bool" where
  "is_unlock (Unlock c a) = True"
| "is_unlock p = False"

lemma probe_data:
  assumes ok: "store_ok st" and pr: "probing st hv bix n" and h: "hv \<noteq> 0"
    and st: "store_at g s = Some st" and seen: "odict (store_slots st) \<in> D"
  shows "pc_data_ok g D (probe_step g i hv s bix n st)"
    "registered (probe_step g i hv s bix n st) = Some s" "\<not> is_fill (probe_step g i hv s bix n st)"
    "\<not> holds (probe_step g i hv s bix n st)" "\<not> is_unlock (probe_step g i hv s bix n st)"
proof -
  obtain k where k: "ds_last_slot st = 2 ^ k - 1" "k \<le> 57" using ok by (rule store_okE)
  note b = probing_bound [OF ok pr]
  have bix: "bix = (unat hv + n) mod 2 ^ k" using pr k by (simp add: probing_def)
  have "probing st hv (wrap64 (bix + 1) AND ds_last_slot st) (n + 1)"
    if "store_keys st ! bix \<noteq> 0" "store_keys st ! bix \<noteq> hv"
  proof -
    have "wrap64 (bix + 1) AND ds_last_slot st = (unat hv + Suc n) mod 2 ^ k"
      using wrap_step [of k "unat hv" n] k by (simp add: bix)
    then show ?thesis using pr that by (auto simp: probing_def k less_Suc_eq bix)
  qed
  then show "pc_data_ok g D (probe_step g i hv s bix n st)"
    using b h st seen store_lookup_miss [OF ok pr h] by (auto simp: probe_step_def store_keys_def)
  show "registered (probe_step g i hv s bix n st) = Some s" "\<not> is_fill (probe_step g i hv s bix n st)"
    "\<not> holds (probe_step g i hv s bix n st)" "\<not> is_unlock (probe_step g i hv s bix n st)"
    using b by (auto simp: probe_step_def)
qed

definition readers_only :: "duncecap_system \<Rightarrow> duncecap_system \<Rightarrow> bool" where
  "readers_only g g' \<longleftrightarrow> y_stores g' = y_stores g \<or>
     (\<exists>s st r. store_at g s = Some st \<and> y_stores g' = (y_stores g)[s := Some (st\<lparr>ds_readers := r\<rparr>)])"

lemma readers_only_intros [intro]:
  "y_stores g' = y_stores g \<Longrightarrow> readers_only g g'"
  "store_at g s = Some st \<Longrightarrow> y_stores g' = (y_stores g)[s := Some (st\<lparr>ds_readers := r\<rparr>)] \<Longrightarrow> readers_only g g'"
  by (auto simp: readers_only_def)

lemma move_data:
  assumes inv: "data_inv n g" and mem: "mem_inv g" and i: "i < length (y_pcs g)"
    and pcs: "y_pcs g' = (y_pcs g)[i := p]"
    and same: "y_seen g' = y_seen g" "y_current g' = y_current g"
      "y_item_count g' = y_item_count g" "y_next_epoch g' = y_next_epoch g"
    and mutex: "y_mutex g' = y_mutex g \<or> y_mutex g = None \<and> y_mutex g' = Some i \<or>
      y_mutex g = Some i \<and> y_mutex g' = None"
    and fill: "\<not> is_fill p" "\<not> is_fill (y_pcs g ! i)" "\<not> is_unlock p"
    and stores: "readers_only g g'"
    and reg: "\<And>s. registered p = Some s \<Longrightarrow> registered (y_pcs g ! i) = Some s \<or> s = y_current g"
    and ok: "pc_data_ok g (y_seen g ! i) p"
  shows "data_inv (Suc n) (observe g') \<and> effect g i g'"
proof -
  have st: "case store_at g s of None \<Rightarrow> store_at g' s = None
      | Some st \<Rightarrow> \<exists>r. store_at g' s = Some (st\<lparr>ds_readers := r\<rparr>)" for s
    using stores unfolding readers_only_def
  proof (elim disjE exE conjE)
    assume "y_stores g' = y_stores g"
    then show ?thesis using store_at_cong [of g' g s] by (auto split: option.split)
  next
    fix s' st r
    assume "store_at g s' = Some st" "y_stores g' = (y_stores g)[s' := Some (st\<lparr>ds_readers := r\<rparr>)]"
    then show ?thesis using store_at_update [of g' g s' _ s] by (auto split: option.split)
  qed
  have "data_inv (Suc n) (observe g')"
    by (rule data_inv_move [OF inv mem i pcs same mutex fill(1,2) st reg ok])
  moreover have "system_dict g' = system_dict g"
    using st [of "y_current g"] same(2) by (auto simp: system_dict_def split: option.splits)
  then have "effect g i g'" using fill(3) pcs i by (cases p) (simp_all add: effect_def)
  ultimately show ?thesis ..
qed

lemma thread_data:
  assumes inv: "data_inv n g" and mem: "mem_inv g" and i: "i < length (y_pcs g)"
    and step: "thread_step g i (y_pcs g ! i) = Some g'" and room: "n + 1 < epoch_limit"
  shows "data_inv (Suc n) (observe g') \<and> effect g i g'"
proof -
  note D = data_invD [OF inv] and M = mem_invD [OF mem]
  note ok = D(6) [OF i] and move = move_data [OF inv mem i]
  obtain cur where cur: "store_at g (y_current g) = Some cur" using M(2) by auto
  have reg: "\<exists>st. store_at g s = Some st \<and> store_ok st \<and> odict (store_slots st) \<in> y_seen g ! i"
    if "registered (y_pcs g ! i) = Some s" for s
    using that M(5) [OF i that] D(4,5) i by blast
  show ?thesis
  proof (cases "y_pcs g ! i")
    case (Enter hv)
    with step ok show ?thesis by (intro move [of _ "Load hv"]) (auto split: if_splits)
  next
    case (Load hv)
    with step ok show ?thesis by (intro move [of _ "Count hv (y_current g)"]) auto
  next
    case (Count hv s)
    then have s: "s = y_current g" using M(4) [OF i] by simp
    with step ok Count cur show ?thesis
      by (intro move [of _ "Leave hv s"]) (auto simp: with_store_def)
  next
    case (Leave hv s)
    then obtain st where st: "store_at g s = Some st" "store_ok st" using reg [of s] by auto
    obtain k where k: "ds_last_slot st = 2 ^ k - 1" "k \<le> 57" using st(2) by (rule store_okE)
    have "probing st hv (hatrack_bucket_index hv (ds_last_slot st)) 0"
      using bucket_index_mask [of k hv] k by (simp add: probing_def)
    with step ok Leave st M(3) [OF i] show ?thesis
      by (intro move [of _ "Probe hv s (hatrack_bucket_index hv (ds_last_slot st)) 0"]) (auto simp: with_store_def)
  next
    case (Probe hv s bix m)
    then obtain st where st: "store_at g s = Some st" "store_ok st" "odict (store_slots st) \<in> y_seen g ! i"
      using reg [of s] by auto
    have "probing st hv bix m" "hv \<noteq> 0" using ok Probe st(1) by simp_all
    note p = probe_data [OF st(2) this st(1,3)]
    with step Probe st show ?thesis
      by (intro move [of _ "probe_step g i hv s bix m st"]) (auto simp: with_store_def)
  next
    case (Record hv s bix)
    then obtain st where st: "store_at g s = Some st" "store_ok st" "odict (store_slots st) \<in> y_seen g ! i"
      using reg [of s] by auto
    then have "pc_data_ok g (y_seen g ! i) (record_step hv s bix st)"
      using store_lookup_hit [OF st(2), of bix hv] ok Record
      by (auto simp: record_step_def Let_def intro!: bexI [OF _ st(3)])
    with step Record st show ?thesis
      by (intro move [of _ "record_step hv s bix st"])
         (auto simp: with_store_def record_step_def Let_def split: if_splits)
  next
    case (Exit hv s x)
    then obtain st where st: "store_at g s = Some st" using reg [of s] by auto
    with step Exit show ?thesis
      by (intro move [of _ "Done (Item (fst x) (snd x))"]) (auto simp: with_store_def)
  next
    case (Lock c)
    with step ok show ?thesis by (intro move [of _ "Body c"]) (auto split: if_splits)
  next
    case (Body c)
    with step cur room show ?thesis by (intro body_data [OF inv mem i Body cur]) (auto simp: with_store_def)
  next
    case (Fill c j)
    with step cur room show ?thesis by (intro fill_data [OF inv mem i Fill cur]) (auto simp: with_store_def)
  next
    case (Drain c s)
    then obtain st where "store_at g s = Some st" using M(4) [OF i] by auto
    with step ok Drain show ?thesis
      by (intro move [of _ "Free c s"]) (auto simp: with_store_def split: if_splits)
  next
    case (Free c s)
    then obtain st where "store_at g s = Some st" using M(4) [OF i] by auto
    with step Free show ?thesis by (intro free_data [OF inv mem i Free]) (auto simp: with_store_def)
  next
    case (Unlock c a)
    with step ok M(3) [OF i] show ?thesis by (intro move [of _ "Done a"]) auto
  qed (use step in auto)
qed

section \<open>Reachable states\<close>

lemma system_start_inv:
  assumes t: "duncecap_idle t" "refhat_inv (duncecap_refhat t)" and n: "threads < 2 ^ 64"
  shows "mem_inv (system_start threads t) \<and> data_inv (dc_next_epoch t) (system_start threads t)"
    (is "mem_inv ?g \<and> _")
proof
  have at: "store_at ?g s = (if s = 0 then Some (dc_store_current t) else None)" for s
    by (simp add: system_start_def store_at_def observe_def)
  have sel: "y_current ?g = 0" "y_mutex ?g = None" "y_pcs ?g = replicate threads Idle"
    "length (y_seen ?g) = threads" "y_next_epoch ?g = dc_next_epoch t"
    "\<And>i. i < threads \<Longrightarrow> y_seen ?g ! i = {system_dict ?g}"
    by (simp_all add: system_start_def)
  have none: "readers_of ?g s = 0" for s by (simp add: readers_of_def sel filter_empty_conv)
  show "mem_inv ?g" unfolding mem_inv_def using t(1) n by (simp add: at none sel duncecap_idle_def)
  have "duncecap_refhat (table_of ?g (dc_store_current t)) = duncecap_refhat t"
    by (simp add: system_start_def duncecap_refhat_def table_of_def observe_def)
  then have "table_inv (dc_next_epoch t) ?g"
    using t(2) by (simp add: table_inv_def image_ok_def at sel pending_def)
  then show "data_inv (dc_next_epoch t) ?g"
    unfolding data_inv_def using image_store_ok [OF t(2)] by (simp add: at sel)
qed

lemma begin_call_inv:
  assumes inv: "data_inv n g" and mem: "mem_inv g" and i: "i < length (y_pcs g)"
    and rest: "at_rest (y_pcs g ! i)" and c: "call_ok c" "c \<noteq> CallLen"
  shows "mem_inv (begin_call g i c) \<and> data_inv (Suc n) (observe (begin_call g i c))"
proof
  note D = data_invD [OF inv] and M = mem_invD [OF mem]
  let ?g = "begin_call g i c"
  have at: "store_at ?g s = store_at g s" for s by (simp add: begin_call_def store_at_def)
  have sel: "y_current ?g = y_current g" "y_mutex ?g = y_mutex g" "y_pcs ?g = (y_pcs g)[i := first_pc c]"
    "y_seen ?g = (y_seen g)[i := {}]" "y_item_count ?g = y_item_count g" "y_next_epoch ?g = y_next_epoch g"
    by (simp_all add: begin_call_def)
  have old: "registered (y_pcs g ! i) = None" "retiring (y_pcs g ! i) = None" "\<not> holds (y_pcs g ! i)"
    "\<not> is_fill (y_pcs g ! i)"
    using rest by (cases "y_pcs g ! i"; simp)+
  have new: "registered (first_pc c) = None" "retiring (first_pc c) = None" "\<not> holds (first_pc c)"
    "\<not> is_fill (first_pc c)" "pc_mem_ok g (first_pc c)" "pc_data_ok g D (first_pc c)" for D
    using c by (cases c; simp)+
  show "mem_inv ?g"
    by (rule mem_inv_move [OF mem i sel(3,1)]) (use old new sel(2) M(3) [OF i] at in auto)
  have pend: "pending ?g = pending g"
    by (rule pending_move [OF i sel(3)]) (use old new sel in auto)
  have "table_inv (Suc n) ?g"
    by (rule table_inv_move [OF D(3) pend sel(1,5,6)]) (simp add: at)
  then show "data_inv (Suc n) (observe ?g)"
  proof (rule data_inv_intro_seen [OF inv mem i sel(3,4), rotated])
    show "pc_data_ok ?g (insert (system_dict ?g) {}) (first_pc c)"
      using new(6) c by (cases c) auto
  qed (use new(1) D(4) in \<open>auto simp: at evolves_refl\<close>)
qed

lemma mem_inv_observe [simp]: "mem_inv (observe g) = mem_inv g"
proof -
  have "pc_mem_ok (observe g) p = pc_mem_ok g p" for p
    by (cases p) (simp_all add: readers_of_def)
  then show ?thesis by (simp add: mem_inv_def readers_of_def)
qed

lemma thread_step_inv:
  assumes inv: "data_inv n g" "mem_inv g" and i: "i < length (y_pcs g)"
    and step: "thread_step g i (y_pcs g ! i) = Some g'" and room: "n + 1 < epoch_limit"
  shows "mem_inv g' \<and> data_inv (Suc n) (observe g') \<and> effect g i g'"
proof -
  have d: "data_inv (Suc n) (observe g')" "effect g i g'"
    using thread_data [OF inv i step room] by blast+
  have "length (y_pcs g') = length (y_pcs g)"
    using step by (cases "y_pcs g ! i")
      (auto simp: with_store_def body_step_def Let_def split: option.splits if_splits sum.splits probe_end.splits)
  then have "\<not> is_fault (y_pcs g' ! i)"
    using data_invD(6) [OF d(1), of i] i by (cases "y_pcs g' ! i") auto
  with mem_inv_thread [OF inv(2) i step] d show ?thesis by blast
qed

lemma system_reach_inv:
  assumes "duncecap_idle t" "refhat_inv (duncecap_refhat t)" "threads < 2 ^ 64"
    "dc_next_epoch t + n < epoch_limit" "system_reach threads t n g"
  shows "mem_inv g \<and> data_inv (dc_next_epoch t + n) g"
  using assms(5,4)
proof (induction rule: system_reach.induct)
  case start
  then show ?case using system_start_inv [OF assms(1-3)] by simp
next
  case (step n g g')
  then have inv: "data_inv (dc_next_epoch t + n) g" "mem_inv g" by simp_all
  from step.hyps(2) show ?case
  proof cases
    case (call i c)
    then show ?thesis using begin_call_inv [OF inv] by simp
  next
    case (run i g1)
    then show ?thesis using thread_step_inv [OF inv] step.prems by simp
  qed
qed

section \<open>Waiting for the readers\<close>

text \<open>How many steps the registered readers of store \<open>s\<close> still take, at most.\<close>

fun reader_work :: "nat \<Rightarrow> duncecap_pc \<Rightarrow> nat" where
  "reader_work last_slot (Leave hv s) = last_slot + 5"
| "reader_work last_slot (Probe hv s bix n) = (last_slot + 1 - n) + 3"
| "reader_work last_slot (Record hv s bix) = 2"
| "reader_work last_slot (Exit hv s x) = 1"
| "reader_work last_slot p = 0"

definition store_work :: "duncecap_system \<Rightarrow> nat \<Rightarrow> duncecap_pc \<Rightarrow> nat" where
  "store_work g s p =
     (case store_at g s of None \<Rightarrow> 0
      | Some st \<Rightarrow> if registered p = Some s then reader_work (ds_last_slot st) p else 0)"

definition drain_work :: "duncecap_system \<Rightarrow> nat \<Rightarrow> nat" where
  "drain_work g s = sum_list (map (store_work g s) (y_pcs g))"

lemma reader_work_pos: "registered p = Some s \<Longrightarrow> 0 < reader_work l p"
  by (cases p) auto

lemma drain_work_zero_iff: "drain_work g s = 0 \<longleftrightarrow> (\<forall>p \<in> set (y_pcs g). store_work g s p = 0)"
  by (simp add: drain_work_def sum_list_eq_0_iff)

lemma drain_work_zero:
  assumes st: "store_at g s = Some st" and z: "drain_work g s = 0"
  shows "readers_of g s = 0"
proof -
  have "registered p \<noteq> Some s" if "p \<in> set (y_pcs g)" for p
  proof
    assume "registered p = Some s"
    then have "0 < store_work g s p" using reader_work_pos st by (simp add: store_work_def)
    then show False using z that by (simp add: drain_work_zero_iff)
  qed
  then show ?thesis by (simp add: readers_of_def filter_empty_conv)
qed

lemma drain_work_pos:
  assumes "drain_work g s \<noteq> 0"
  obtains j where "j < length (y_pcs g)" "registered (y_pcs g ! j) = Some s"
proof -
  obtain p where "p \<in> set (y_pcs g)" "store_work g s p \<noteq> 0"
    using assms unfolding drain_work_zero_iff by blast
  then show ?thesis
    using that by (auto simp: store_work_def in_set_conv_nth split: option.splits if_splits)
qed

lemma drain_work_update:
  assumes "j < length (y_pcs g)" "y_pcs g' = (y_pcs g)[j := p]"
    "map_option ds_last_slot (store_at g' s) = map_option ds_last_slot (store_at g s)"
  shows "drain_work g' s + store_work g s (y_pcs g ! j) = drain_work g s + store_work g s p"
proof -
  have same: "store_work g' s = store_work g s"
    using assms(3) by (cases "store_at g s"; cases "store_at g' s") (auto simp: store_work_def fun_eq_iff)
  have "map (store_work g s) (y_pcs g) ! j \<le> sum_list (map (store_work g s) (y_pcs g))"
    using assms(1) by (intro elem_le_sum_list) simp
  then show ?thesis
    using assms(1,2) sum_list_update [of j "map (store_work g s) (y_pcs g)" "store_work g s p"]
    by (simp add: drain_work_def same map_update)
qed

text \<open>A registered reader outside the mutex always has a step, and fewer steps left after it.\<close>

lemma reader_step:
  assumes inv: "data_inv n g" "mem_inv g" and j: "j < length (y_pcs g)"
    and r: "registered (y_pcs g ! j) = Some s" "\<not> holds (y_pcs g ! j)" and st: "store_at g s = Some st"
  obtains g' p where "thread_step g j (y_pcs g ! j) = Some g'" "y_pcs g' = (y_pcs g)[j := p]"
    "\<And>s'. map_option ds_last_slot (store_at g' s') = map_option ds_last_slot (store_at g s')"
    "store_work g s p < store_work g s (y_pcs g ! j)" "registered p = Some s \<or> registered p = None"
proof (cases "y_pcs g ! j")
  case (Probe hv s' bix m)
  then have s': "s' = s" using r by simp
  have pr: "probing st hv bix m" using data_invD(6) [OF inv(1) j] Probe st s' by simp
  note b = probing_bound [OF data_invD(4) [OF inv(1) st] pr]
  let ?p = "probe_step g j hv s bix m st"
  have "store_work g s ?p < store_work g s (y_pcs g ! j)" "registered ?p = Some s"
    using Probe st s' b by (auto simp: store_work_def probe_step_def)
  moreover have "thread_step g j (y_pcs g ! j) = Some (set_pc g j ?p)"
    using Probe st s' by (simp add: with_store_def)
  ultimately show ?thesis
    using that [of "set_pc g j ?p" ?p] by (simp add: store_at_def)
next
  case (Record hv s' bix)
  then have s': "s' = s" using r by simp
  let ?p = "record_step hv s bix st"
  have "store_work g s ?p < store_work g s (y_pcs g ! j)" "registered ?p = Some s"
    using Record st s' by (auto simp: store_work_def record_step_def Let_def)
  moreover have "thread_step g j (y_pcs g ! j) = Some (set_pc g j ?p)"
    using Record st s' by (simp add: with_store_def)
  ultimately show ?thesis
    using that [of "set_pc g j ?p" ?p] by (simp add: store_at_def)
next
  case (Exit hv s' x)
  let ?st = "st\<lparr>ds_readers := wrap64 (ds_readers st + 2 ^ 64 - 1)\<rparr>"
  let ?g = "set_pc (set_store g s (Some ?st)) j (Done (Item (fst x) (snd x)))"
  have "map_option ds_last_slot (store_at ?g t) = map_option ds_last_slot (store_at g t)" for t
    using store_at_update [of ?g g s "Some ?st" t] st by simp
  then show ?thesis
    using that [of ?g "Done (Item (fst x) (snd x))"] Exit st r
    by (auto simp: with_store_def store_work_def)
qed (use r in auto)

lemma drain_progress:
  assumes inv: "data_inv n g" "mem_inv g" and i: "i < length (y_pcs g)" and pc: "y_pcs g ! i = Drain c s"
  shows "drain_work g s = 0 \<Longrightarrow> thread_step g i (y_pcs g ! i) \<noteq> None"
    "drain_work g s \<noteq> 0 \<Longrightarrow>
       \<exists>j < length (y_pcs g). registered (y_pcs g ! j) = Some s \<and> thread_step g j (y_pcs g ! j) \<noteq> None"
    "\<lbrakk>j < length (y_pcs g); j \<noteq> i; thread_step g j (y_pcs g ! j) = Some g'\<rbrakk> \<Longrightarrow>
       y_pcs g' ! i = Drain c s \<and>
       drain_work g' s + (if registered (y_pcs g ! j) = Some s then 1 else 0) \<le> drain_work g s"
proof -
  note M = mem_invD [OF inv(2)]
  obtain st where st: "store_at g s = Some st" using M(4) [OF i] pc by auto
  have m: "y_mutex g = Some i" using M(3) [OF i] pc by simp
  have free: "\<not> holds (y_pcs g ! j)" if "j < length (y_pcs g)" "j \<noteq> i" for j
    using M(3) [OF that(1)] m that(2) by simp
  show "thread_step g i (y_pcs g ! i) \<noteq> None" if "drain_work g s = 0"
    using drain_work_zero [OF st that] M(6) [OF st] pc st by (simp add: with_store_def)
  show "\<exists>j < length (y_pcs g). registered (y_pcs g ! j) = Some s \<and> thread_step g j (y_pcs g ! j) \<noteq> None"
    if nz: "drain_work g s \<noteq> 0"
  proof -
    obtain j where j: "j < length (y_pcs g)" "registered (y_pcs g ! j) = Some s"
      using nz by (rule drain_work_pos)
    then have "j \<noteq> i" using pc by auto
    from j free [OF j(1) this] show ?thesis
      using reader_step [OF inv j(1,2) _ st] by (metis option.distinct(1))
  qed
  assume j: "j < length (y_pcs g)" "j \<noteq> i" and step: "thread_step g j (y_pcs g ! j) = Some g'"
  obtain s' where s': "registered (y_pcs g ! j) = Some s'"
    using step free [OF j] m by (cases "y_pcs g ! j") auto
  obtain st' where st': "store_at g s' = Some st'" using M(5) [OF j(1) s'] by auto
  obtain p where p: "y_pcs g' = (y_pcs g)[j := p]"
    "\<And>s'. map_option ds_last_slot (store_at g' s') = map_option ds_last_slot (store_at g s')"
    "store_work g s' p < store_work g s' (y_pcs g ! j)" "registered p = Some s' \<or> registered p = None"
    using reader_step [OF inv j(1) s' free [OF j] st'] step by (metis option.inject)
  have "drain_work g' s + store_work g s (y_pcs g ! j) = drain_work g s + store_work g s p"
    by (rule drain_work_update [OF j(1) p(1,2)])
  moreover have "store_work g s p + (if s' = s then 1 else 0) \<le> store_work g s (y_pcs g ! j)"
    using p(3,4) s' by (auto simp: store_work_def split: option.splits)
  ultimately show "y_pcs g' ! i = Drain c s \<and>
      drain_work g' s + (if registered (y_pcs g ! j) = Some s then 1 else 0) \<le> drain_work g s"
    using p(1) j pc s' by (auto split: if_splits)
qed

section \<open>A run into a migration that waits for a reader\<close>

text \<open>
  On a table one reservation below its threshold, thread 1 registers as a reader, then thread 0
  puts a new key.
\<close>

definition duncecap_quiet :: duncecap where
  "duncecap_quiet = duncecap_full\<lparr>dc_store_current := (dc_store_current duncecap_full)\<lparr>ds_readers := 0\<rparr>\<rparr>"

lemma duncecap_quiet_ok:
  "duncecap_idle duncecap_quiet" "duncecap_refhat duncecap_quiet = refhat_full"
  "refhat_inv (duncecap_refhat duncecap_quiet)" "dc_next_epoch duncecap_quiet = 12"
proof -
  have "duncecap_refhat duncecap_quiet = duncecap_refhat duncecap_full"
    by (simp add: duncecap_quiet_def duncecap_refhat_def)
  then show "duncecap_refhat duncecap_quiet = refhat_full" by (simp add: duncecap_full_refhat)
  then show "refhat_inv (duncecap_refhat duncecap_quiet)" by (simp add: refhat_full_inv)
qed (simp_all add: duncecap_quiet_def duncecap_full_def duncecap_idle_def)

lemma reach_run:
  assumes "system_reach threads t n g" "i < length (y_pcs g)" "thread_step g i (y_pcs g ! i) = Some g'"
  shows "system_reach threads t (Suc n) (observe g')"
  using assms by (blast intro: system_reach.step system_step.run)

lemma reach_call:
  assumes "system_reach threads t n g" "i < length (y_pcs g)" "at_rest (y_pcs g ! i)" "call_ok c" "c \<noteq> CallLen"
  shows "system_reach threads t (Suc n) (observe (begin_call g i c))"
  using assms by (blast intro: system_reach.step system_step.call)

lemma drain_reachable:
  obtains g where "system_reach 2 duncecap_quiet 8 g" "length (y_pcs g) = 2"
    "y_pcs g ! 0 = Drain (CallPut 11 7) 0" "registered (y_pcs g ! 1) = Some 0"
proof -
  let ?t = duncecap_quiet let ?st = "dc_store_current ?t"
  let ?st1 = "?st\<lparr>ds_readers := 1\<rparr>" let ?bix = "hatrack_bucket_index 3 15"
  let ?R = "system_reach 2 ?t"
  have last: "ds_last_slot ?st = 15" "ds_readers ?st = 0" "ds_threshold ?st = 11" "ds_used_count ?st = 10"
    "dc_item_count ?t = 9" "dc_next_epoch ?t = 12"
    by (simp_all add: duncecap_quiet_def duncecap_full_def)
  define ok where "ok g st p q m \<longleftrightarrow> y_stores g = [Some st] \<and> y_current g = 0 \<and> y_pcs g = [p, q] \<and>
      y_mutex g = m \<and> y_item_count g = 9 \<and> y_next_epoch g = 12"
    for g :: duncecap_system and st p q m
  note sel = ok_def store_at_def with_store_def begin_call_def set_store_def set_pc_def wrap64_def
  have "?R 0 (system_start 2 ?t)" "ok (system_start 2 ?t) ?st Idle Idle None"
    by (rule system_reach.start) (simp add: ok_def system_start_def last numeral_2_eq_2)
  then obtain g where "?R 1 g" "ok g ?st Idle (Enter 3) None"
    using reach_call [of 2 ?t 0 "system_start 2 ?t" 1 "CallGet 3"] by (auto simp: sel)
  then obtain g where "?R 2 g" "ok g ?st Idle (Load 3) (Some 1)"
    using reach_run [of 2 ?t 1 g 1] by (auto simp: sel numeral_2_eq_2)
  then obtain g where "?R 3 g" "ok g ?st Idle (Count 3 0) (Some 1)"
    using reach_run [of 2 ?t 2 g 1] by (auto simp: sel numeral_3_eq_3)
  then obtain g where "?R 4 g" "ok g ?st1 Idle (Leave 3 0) (Some 1)"
    using reach_run [of 2 ?t 3 g 1] last by (auto simp: sel)
  then obtain g where "?R 5 g" "ok g ?st1 Idle (Probe 3 0 ?bix 0) None"
    using reach_run [of 2 ?t 4 g 1] last by (auto simp: sel)
  then obtain g where "?R 6 g" "ok g ?st1 (Lock (CallPut 11 7)) (Probe 3 0 ?bix 0) None"
    using reach_call [of 2 ?t 5 g 0 "CallPut 11 7"] by (auto simp: sel)
  then obtain g where g: "?R 7 g" "ok g ?st1 (Body (CallPut 11 7)) (Probe 3 0 ?bix 0) (Some 0)"
    using reach_run [of 2 ?t 6 g 0] by (auto simp: sel)
  have img: "duncecap_refhat (table_of g ?st1) = refhat_full"
    using g(2) last duncecap_quiet_ok(2) by (simp add: ok_def table_of_def duncecap_refhat_def)
  have vac: "\<exists>j. duncecap_find ?st1 11 = Inr (Vacant j)"
  proof -
    have "(11::hatrack_hash) \<notin> set (refhat_keys refhat_full)" by code_simp
    then have "\<exists>j. refhat_find refhat_full 11 = Inr (Vacant j)"
      by (cases rule: refhat_find_cases [OF refhat_full_inv, of 11]) (auto simp: refhat_keys_def)
    then show ?thesis using duncecap_find_refhat [of "table_of g ?st1" 11] img by simp
  qed
  obtain r where r: "refhat_migrate refhat_full = Inr r"
    by (rule refhat_migrate_ok [OF refhat_full_inv]) (auto simp: refhat_full_def)
  obtain new where new: "duncecap_copy (table_of g ?st1) = Inr new"
    by (rule duncecap_copy_sim [of "table_of g ?st1" r]) (simp_all only: img refhat_full_inv r)
  let ?g = "set_pc (g\<lparr>y_stores := y_stores g @ [Some new], y_current := length (y_stores g)\<rparr>) 0
      (Drain (CallPut 11 7) 0)"
  have "thread_step g 0 (y_pcs g ! 0) = Some ?g"
    using g(2) vac new last by (auto simp: ok_def with_store_def store_at_def body_step_def wrap64_def)
  then have "?R 8 (observe ?g)" using reach_run [OF g(1), of 0 ?g] g(2) by (simp add: ok_def)
  then show ?thesis using that [of "observe ?g"] g(2) by (simp add: ok_def)
qed

lemma quiet_reach:
  assumes "system_reach 2 duncecap_quiet 8 g"
  shows "duncecap_idle duncecap_quiet" "refhat_inv (duncecap_refhat duncecap_quiet)" "(2::nat) < 2 ^ 64"
    "dc_next_epoch duncecap_quiet + 8 < epoch_limit" "system_reach 2 duncecap_quiet 8 g"
  using assms duncecap_quiet_ok by (simp_all add: epoch_limit_def)

section \<open>Properties\<close>

text \<open>C7: However the steps of any number of threads interleave, no thread ever touches a freed store,
  leaves the bucket array, or runs its probe loop to the point the source marks unreachable.\<close>

theorem duncecap_threads_never_fault:
  assumes "duncecap_idle t" "refhat_inv (duncecap_refhat t)" "threads < 2 ^ 64"
    "dc_next_epoch t + n < epoch_limit" "system_reach threads t n g"
  shows "Fault e \<notin> set (y_pcs g)"
proof
  assume "Fault e \<in> set (y_pcs g)"
  then obtain i where "i < length (y_pcs g)" "y_pcs g ! i = Fault e" by (auto simp: in_set_conv_nth)
  moreover have "data_inv (dc_next_epoch t + n) g" using system_reach_inv [OF assms] by blast
  ultimately show False using data_invD(6) by fastforce
qed

theorem duncecap_threads_never_fault_witness:
  "\<exists>g. system_reach 2 duncecap_quiet 8 g \<and> registered (y_pcs g ! 1) = Some 0 \<and>
     Fault UseAfterFree \<notin> set (y_pcs g)"
proof -
  obtain g where g: "system_reach 2 duncecap_quiet 8 g" "registered (y_pcs g ! 1) = Some 0"
    by (rule drain_reachable)
  from duncecap_threads_never_fault [OF quiet_reach [OF g(1)]] g show ?thesis by blast
qed

text \<open>C6: The table is linearizable. A step of a writer that ends its operation does to the contents
  what the operation does to the insertion-ordered dictionary, and the writer has the dictionary's
  answer; every other step leaves the contents alone, a migration included. What a reader is about to
  return is what a lookup gave in the contents at some moment since the reader began, even when it
  reads a store that has been replaced meanwhile.\<close>

theorem duncecap_threads_linearizable:
  assumes "duncecap_idle t" "refhat_inv (duncecap_refhat t)" "threads < 2 ^ 64"
    "dc_next_epoch t + n + 1 < epoch_limit" "system_reach threads t n g" "i < length (y_pcs g)"
  shows "(case thread_step g i (y_pcs g ! i) of None \<Rightarrow> True
     | Some g' \<Rightarrow> (case y_pcs g' ! i of
          Unlock c a \<Rightarrow> od_call (system_dict g) c = (system_dict g', a)
        | _ \<Rightarrow> system_dict g' = system_dict g)) \<and>
     (case y_pcs g ! i of Exit hv s x \<Rightarrow> \<exists>d \<in> y_seen g ! i. od_get d hv = x | _ \<Rightarrow> True)"
proof
  have inv: "mem_inv g" "data_inv (dc_next_epoch t + n) g"
    using system_reach_inv [OF assms(1-3) _ assms(5)] assms(4) by simp_all
  show "case y_pcs g ! i of Exit hv s x \<Rightarrow> \<exists>d \<in> y_seen g ! i. od_get d hv = x | _ \<Rightarrow> True"
    using data_invD(6) [OF inv(2) assms(6)] by (cases "y_pcs g ! i") auto
  show "case thread_step g i (y_pcs g ! i) of None \<Rightarrow> True
     | Some g' \<Rightarrow> (case y_pcs g' ! i of
          Unlock c a \<Rightarrow> od_call (system_dict g) c = (system_dict g', a)
        | _ \<Rightarrow> system_dict g' = system_dict g)"
    using thread_data [OF inv(2,1) assms(6) _ assms(4)]
    by (cases "thread_step g i (y_pcs g ! i)") (auto simp: effect_def)
qed

theorem duncecap_threads_linearizable_witness:
  "\<exists>g. system_reach 2 duncecap_quiet 8 g \<and> registered (y_pcs g ! 1) = Some 0 \<and>
     (case thread_step g 1 (y_pcs g ! 1) of None \<Rightarrow> True
      | Some g' \<Rightarrow> (case y_pcs g' ! 1 of
           Unlock c a \<Rightarrow> od_call (system_dict g) c = (system_dict g', a)
         | _ \<Rightarrow> system_dict g' = system_dict g))"
proof -
  obtain g where g: "system_reach 2 duncecap_quiet 8 g" "length (y_pcs g) = 2"
    "registered (y_pcs g ! 1) = Some 0"
    by (rule drain_reachable)
  have "dc_next_epoch duncecap_quiet + 8 + 1 < epoch_limit"
    using duncecap_quiet_ok(4) by (simp add: epoch_limit_def)
  from duncecap_threads_linearizable [OF quiet_reach(1-3) [OF g(1)] this g(1), of 1] g show ?thesis by auto
qed

text \<open>C19: The reader count of every store that is not freed is the number of threads registered with
  it; at most one thread is inside the mutex; and every store that is neither current nor freed is
  one that a migrating writer is waiting to free, so none is leaked.\<close>

theorem duncecap_reader_counts_exact:
  assumes "duncecap_idle t" "refhat_inv (duncecap_refhat t)" "threads < 2 ^ 64"
    "dc_next_epoch t + n < epoch_limit" "system_reach threads t n g" "store_at g s = Some st"
    "i < length (y_pcs g)" "j < length (y_pcs g)"
  shows "ds_readers st = readers_of g s \<and>
     (holds (y_pcs g ! i) \<and> holds (y_pcs g ! j) \<longrightarrow> i = j) \<and>
     (s = y_current g \<or> (\<exists>w < length (y_pcs g). retiring (y_pcs g ! w) = Some s))"
proof -
  have inv: "mem_inv g" using system_reach_inv [OF assms(1-5)] by blast
  show ?thesis
    using mem_invD(3) [OF inv assms(7)] mem_invD(3) [OF inv assms(8)] mem_invD(6,7) [OF inv] assms(6) by auto
qed

theorem duncecap_reader_counts_exact_witness:
  "\<exists>g st. system_reach 2 duncecap_quiet 8 g \<and> store_at g 0 = Some st \<and> ds_readers st = readers_of g 0"
proof -
  obtain g where g: "system_reach 2 duncecap_quiet 8 g" "length (y_pcs g) = 2"
    "y_pcs g ! 0 = Drain (CallPut 11 7) 0"
    by (rule drain_reachable)
  have "mem_inv g" using system_reach_inv [OF quiet_reach [OF g(1)]] by blast
  from mem_invD(4) [OF this, of 0] g obtain st where "store_at g 0 = Some st" by auto
  with duncecap_reader_counts_exact [OF quiet_reach [OF g(1)] this, of 0 0] g show ?thesis by auto
qed

text \<open>C18: A migration's wait for the readers of the old store ends. The steps those readers still take
  never grow and shrink with each of their steps; while some are left, one of the readers can take
  a step, whatever the other threads do; when none are left, the writer can go on.\<close>

theorem duncecap_drain_ends:
  assumes "duncecap_idle t" "refhat_inv (duncecap_refhat t)" "threads < 2 ^ 64"
    "dc_next_epoch t + n < epoch_limit" "system_reach threads t n g"
    "i < length (y_pcs g)" "y_pcs g ! i = Drain c s"
  shows "(if drain_work g s = 0 then thread_step g i (y_pcs g ! i) \<noteq> None
      else \<exists>j < length (y_pcs g). registered (y_pcs g ! j) = Some s \<and> thread_step g j (y_pcs g ! j) \<noteq> None) \<and>
     (\<forall>j < length (y_pcs g). \<forall>g'. j \<noteq> i \<longrightarrow> thread_step g j (y_pcs g ! j) = Some g' \<longrightarrow>
        y_pcs g' ! i = Drain c s \<and>
        drain_work g' s + (if registered (y_pcs g ! j) = Some s then 1 else 0) \<le> drain_work g s)"
proof -
  have inv: "data_inv (dc_next_epoch t + n) g" "mem_inv g" using system_reach_inv [OF assms(1-5)] by blast+
  note p = drain_progress [OF inv assms(6,7)]
  have "if drain_work g s = 0 then thread_step g i (y_pcs g ! i) \<noteq> None
      else \<exists>j < length (y_pcs g). registered (y_pcs g ! j) = Some s \<and> thread_step g j (y_pcs g ! j) \<noteq> None"
    using p(1,2) by presburger
  with p(3) show ?thesis by blast
qed

theorem duncecap_drain_ends_witness:
  "\<exists>g. system_reach 2 duncecap_quiet 8 g \<and> y_pcs g ! 0 = Drain (CallPut 11 7) 0 \<and>
     (if drain_work g 0 = 0 then thread_step g 0 (y_pcs g ! 0) \<noteq> None
      else \<exists>j < length (y_pcs g). registered (y_pcs g ! j) = Some 0 \<and> thread_step g j (y_pcs g ! j) \<noteq> None)"
proof -
  obtain g where g: "system_reach 2 duncecap_quiet 8 g" "length (y_pcs g) = 2"
    "y_pcs g ! 0 = Drain (CallPut 11 7) 0"
    by (rule drain_reachable)
  from duncecap_drain_ends [OF quiet_reach [OF g(1)], of 0] g show ?thesis by auto
qed

end
