(* ===== verification/Mmm.thy ===== *)
theory Mmm
  imports Hatrack_Common
begin

text \<open>
  The epoch-based memory manager of hatrack, \<^verbatim>\<open>src/hatrack/support/mmm.c\<close> and \<^verbatim>\<open>mmm.h\<close>. Threads
  write the epoch they read in to a global array of reservations; memory that was unlinked from a
  data structure is put on the retiring thread's list with the epoch of its retirement, and freed once
  every reservation is later.

  Memory is a list of cells by address; \<open>None\<close> is freed memory and touching it is
  \<open>UseAfterFree\<close>. A cell is its header: the data behind it belongs to the client. A thread's
  retire list, a chain of \<^verbatim>\<open>next\<close> pointers only that thread follows, is the list of the addresses
  on it; the list of thread ids given back likewise. \<open>mm_log\<close> records the cleanup handlers called
  and the blocks handed to \<^verbatim>\<open>hatrack_free\<close> with the size passed.

  Every function of the file is one definition, as one thread runs it; the debug printer and the
  pthread key that finds a thread's record are left out (the record is an argument). Threads
  interleaved, with their reservations and retire lists, are in \<open>Llstack_Threads\<close>.
\<close>

section \<open>Definitions\<close>

record mmm_header =
  mh_create_epoch :: nat
  mh_write_epoch :: nat
  mh_retire_epoch :: nat
  mh_cleanup :: "(nat \<times> ptr) option"
  mh_size :: nat

record mmm_thread =
  mt_tid :: nat
  mt_retire_ctr :: nat
  mt_retire_list :: "nat list"
  mt_initialized :: bool

datatype mmm_event = CleanupCall nat nat ptr | FreeCall nat nat

record mmm =
  mm_nexttid :: nat
  mm_epoch :: nat
  mm_reservations :: "nat list"
  mm_cells :: "mmm_header option list"
  mm_free_tids :: "(nat \<times> nat) list"
  mm_log :: "mmm_event list"

definition HATRACK_THREADS_MAX :: nat where
  "HATRACK_THREADS_MAX = 4096"

definition HATRACK_RETIRE_FREQ_LOG :: nat where
  "HATRACK_RETIRE_FREQ_LOG = 7"

definition HATRACK_RETIRE_FREQ :: nat where
  "HATRACK_RETIRE_FREQ = push_bit HATRACK_RETIRE_FREQ_LOG 1"

definition HATRACK_EPOCH_MAX :: nat where
  "HATRACK_EPOCH_MAX = 2 ^ 64 - 1"

definition HATRACK_EPOCH_UNRESERVED :: nat where
  "HATRACK_EPOCH_UNRESERVED = 2 ^ 64 - 1"

definition HATRACK_EPOCH_FIRST :: nat where
  "HATRACK_EPOCH_FIRST = 1"

definition sizeof_mmm_header :: nat where
  "sizeof_mmm_header = 64"

text \<open>The static variables when the program starts, and a thread's zeroed record.\<close>

definition mmm_start :: mmm where
  "mmm_start = \<lparr>mm_nexttid = 0, mm_epoch = HATRACK_EPOCH_FIRST,
     mm_reservations = replicate HATRACK_THREADS_MAX 0, mm_cells = [], mm_free_tids = [], mm_log = []\<rparr>"

definition mmm_thread_zero :: mmm_thread where
  "mmm_thread_zero = \<lparr>mt_tid = 0, mt_retire_ctr = 0, mt_retire_list = [], mt_initialized = False\<rparr>"

definition mmm_get_header :: "mmm \<Rightarrow> nat \<Rightarrow> mmm_header outcome" where
  "mmm_get_header m p =
     and_then (read_at (mm_cells m) p) (\<lambda>c. case c of None \<Rightarrow> Inl UseAfterFree | Some h \<Rightarrow> Inr h)"

definition mmm_set_header :: "mmm \<Rightarrow> nat \<Rightarrow> mmm_header \<Rightarrow> mmm" where
  "mmm_set_header m p h = m\<lparr>mm_cells := (mm_cells m)[p := Some h]\<rparr>"

text \<open>\<^verbatim>\<open>hatrack_zalloc\<close>, and \<^verbatim>\<open>mmm_reservations[tid] = e\<close>.\<close>

definition zero_header :: mmm_header where
  "zero_header = \<lparr>mh_create_epoch = 0, mh_write_epoch = 0, mh_retire_epoch = 0,
     mh_cleanup = None, mh_size = 0\<rparr>"

definition mmm_zalloc :: "mmm \<Rightarrow> mmm \<times> nat" where
  "mmm_zalloc m = (m\<lparr>mm_cells := mm_cells m @ [Some zero_header]\<rparr>, length (mm_cells m))"

definition mmm_reserve :: "mmm \<Rightarrow> nat \<Rightarrow> nat \<Rightarrow> mmm outcome" where
  "mmm_reserve m tid e =
     (if tid < length (mm_reservations m)
      then Inr (m\<lparr>mm_reservations := (mm_reservations m)[tid := e]\<rparr>)
      else Inl OutOfBounds)"

definition mmm_alloc :: "mmm \<Rightarrow> nat \<Rightarrow> mmm \<times> nat" where
  "mmm_alloc m sz = mmm_zalloc m"

text \<open>\<^verbatim>\<open>atomic_fetch_add(&mmm_epoch, 1) + 1\<close>.\<close>

definition mmm_next_epoch :: "mmm \<Rightarrow> mmm \<times> nat" where
  "mmm_next_epoch m = (m\<lparr>mm_epoch := wrap64 (mm_epoch m + 1)\<rparr>, wrap64 (mm_epoch m + 1))"

definition mmm_alloc_committed :: "mmm \<Rightarrow> nat \<Rightarrow> mmm \<times> nat" where
  "mmm_alloc_committed m sz =
     (let (m1, item) = mmm_zalloc m; (m2, e) = mmm_next_epoch m1
      in (mmm_set_header m2 item (zero_header\<lparr>mh_write_epoch := e\<rparr>), item))"

definition mmm_add_cleanup_handler :: "mmm \<Rightarrow> nat \<Rightarrow> nat \<Rightarrow> ptr \<Rightarrow> mmm outcome" where
  "mmm_add_cleanup_handler m p handler aux =
     and_then (mmm_get_header m p) (\<lambda>h. Inr (mmm_set_header m p (h\<lparr>mh_cleanup := Some (handler, aux)\<rparr>)))"

definition mmm_commit_write :: "mmm \<Rightarrow> nat \<Rightarrow> mmm outcome" where
  "mmm_commit_write m p =
     and_then (mmm_get_header m p) (\<lambda>h.
       let (m1, cur_epoch) = mmm_next_epoch m
       in Inr (if mh_write_epoch h = 0 then mmm_set_header m1 p (h\<lparr>mh_write_epoch := cur_epoch\<rparr>) else m1))"

definition mmm_help_commit :: "mmm \<Rightarrow> nat \<Rightarrow> mmm outcome" where
  "mmm_help_commit m p =
     and_then (mmm_get_header m p) (\<lambda>h.
       if mh_write_epoch h = 0
       then let (m1, cur_epoch) = mmm_next_epoch m
            in Inr (mmm_set_header m1 p (h\<lparr>mh_write_epoch := cur_epoch\<rparr>))
       else Inr m)"

definition mmm_get_write_epoch :: "mmm \<Rightarrow> nat \<Rightarrow> nat outcome" where
  "mmm_get_write_epoch m p = and_then (mmm_get_header m p) (\<lambda>h. Inr (mh_write_epoch h))"

definition mmm_set_create_epoch :: "mmm \<Rightarrow> nat \<Rightarrow> nat \<Rightarrow> mmm outcome" where
  "mmm_set_create_epoch m p e =
     and_then (mmm_get_header m p) (\<lambda>h. Inr (mmm_set_header m p (h\<lparr>mh_create_epoch := e\<rparr>)))"

definition mmm_get_create_epoch :: "mmm \<Rightarrow> nat \<Rightarrow> nat outcome" where
  "mmm_get_create_epoch m p =
     and_then (mmm_get_header m p) (\<lambda>h.
       Inr (if mh_create_epoch h \<noteq> 0 then mh_create_epoch h else mh_write_epoch h))"

definition mmm_copy_create_epoch :: "mmm \<Rightarrow> nat \<Rightarrow> nat \<Rightarrow> mmm outcome" where
  "mmm_copy_create_epoch m dst src =
     and_then (mmm_get_create_epoch m src) (mmm_set_create_epoch m dst)"

definition mmm_start_basic_op :: "mmm \<Rightarrow> mmm_thread \<Rightarrow> mmm outcome" where
  "mmm_start_basic_op m thread = mmm_reserve m (mt_tid thread) (mm_epoch m)"

definition mmm_start_linearized_op :: "mmm \<Rightarrow> mmm_thread \<Rightarrow> (mmm \<times> nat) outcome" where
  "mmm_start_linearized_op m thread =
     and_then (mmm_reserve m (mt_tid thread) (mm_epoch m)) (\<lambda>m. Inr (m, mm_epoch m))"

definition mmm_end_op :: "mmm \<Rightarrow> mmm_thread \<Rightarrow> mmm outcome" where
  "mmm_end_op m thread = mmm_reserve m (mt_tid thread) HATRACK_EPOCH_UNRESERVED"

text \<open>\<^verbatim>\<open>mmm_empty\<close>: the lowest reservation, the cut of the retire list, the frees.\<close>

definition mmm_lowest :: "mmm \<Rightarrow> nat" where
  "mmm_lowest m =
     (let lasttid = (if HATRACK_THREADS_MAX < mm_nexttid m then HATRACK_THREADS_MAX else mm_nexttid m)
      in foldl (\<lambda>lowest reservation. if reservation < lowest then reservation else lowest)
           HATRACK_EPOCH_MAX (take lasttid (mm_reservations m)))"

fun mmm_cut :: "mmm \<Rightarrow> nat \<Rightarrow> nat \<Rightarrow> nat list \<Rightarrow> (nat list \<times> nat list) outcome" where
  "mmm_cut m lowest cell [] = Inr ([cell], [])"
| "mmm_cut m lowest cell (next # rest) =
     and_then (mmm_get_header m next) (\<lambda>h.
       if mh_retire_epoch h < lowest then Inr ([cell], next # rest)
       else and_then (mmm_cut m lowest next rest) (\<lambda>(kept, doomed). Inr (cell # kept, doomed)))"

definition mmm_free :: "mmm \<Rightarrow> nat \<Rightarrow> mmm outcome" where
  "mmm_free m p =
     and_then (mmm_get_header m p) (\<lambda>h.
       Inr (m\<lparr>mm_cells := (mm_cells m)[p := None],
              mm_log := mm_log m @
                (case mh_cleanup h of None \<Rightarrow> [] | Some (f, aux) \<Rightarrow> [CleanupCall f p aux]) @
                [FreeCall p (wrap64 (sizeof_mmm_header + mh_size h))]\<rparr>))"

fun mmm_free_all :: "mmm \<Rightarrow> nat list \<Rightarrow> mmm outcome" where
  "mmm_free_all m [] = Inr m"
| "mmm_free_all m (p # ps) = and_then (mmm_free m p) (\<lambda>m. mmm_free_all m ps)"

definition mmm_split :: "mmm \<Rightarrow> nat \<Rightarrow> nat list \<Rightarrow> (nat list \<times> nat list) outcome" where
  "mmm_split m lowest cells =
     (case cells of
        [] \<Rightarrow> Inl NullDeref
      | cell # rest \<Rightarrow>
          and_then (mmm_get_header m cell) (\<lambda>h.
            if mh_retire_epoch h < lowest then Inr ([], cell # rest) else mmm_cut m lowest cell rest))"

definition mmm_empty :: "mmm \<Rightarrow> mmm_thread \<Rightarrow> (mmm \<times> mmm_thread) outcome" where
  "mmm_empty m thread =
     and_then (mmm_split m (mmm_lowest m) (mt_retire_list thread)) (\<lambda>(kept, doomed).
       and_then (mmm_free_all m doomed) (\<lambda>m. Inr (m, thread\<lparr>mt_retire_list := kept\<rparr>)))"

definition mmm_retire_fast :: "mmm \<Rightarrow> mmm_thread \<Rightarrow> nat \<Rightarrow> (mmm \<times> mmm_thread) outcome" where
  "mmm_retire_fast m thread p =
     and_then (mmm_get_header m p) (\<lambda>cell.
       Inr (mmm_set_header m p (cell\<lparr>mh_retire_epoch := mm_epoch m\<rparr>),
            thread\<lparr>mt_retire_list := p # mt_retire_list thread\<rparr>))"

definition mmm_retire :: "mmm \<Rightarrow> mmm_thread \<Rightarrow> nat \<Rightarrow> (mmm \<times> mmm_thread) outcome" where
  "mmm_retire m thread p =
     and_then (mmm_get_header m p) (\<lambda>cell.
       let m1 = mmm_set_header m p (cell\<lparr>mh_retire_epoch := mm_epoch m\<rparr>);
           thread1 = thread\<lparr>mt_retire_list := p # mt_retire_list thread,
                            mt_retire_ctr := mt_retire_ctr thread + 1\<rparr>
       in if mt_retire_ctr thread1 AND HATRACK_RETIRE_FREQ \<noteq> 0
          then mmm_empty m1 (thread1\<lparr>mt_retire_ctr := 0\<rparr>)
          else Inr (m1, thread1))"

definition mmm_retire_unused :: "mmm \<Rightarrow> nat \<Rightarrow> mmm outcome" where
  "mmm_retire_unused m p =
     and_then (mmm_get_header m p) (\<lambda>item.
       Inr (m\<lparr>mm_cells := (mm_cells m)[p := None],
              mm_log := mm_log m @ [FreeCall p (wrap64 (sizeof_mmm_header + mh_size item))]\<rparr>))"

text \<open>Thread ids.\<close>

definition sizeof_mmm_free_tids :: nat where
  "sizeof_mmm_free_tids = 16"

definition mmm_tid_giveback :: "mmm \<Rightarrow> mmm_thread \<Rightarrow> mmm \<times> mmm_thread" where
  "mmm_tid_giveback m thread =
     (let (m1, new_head) = mmm_alloc m sizeof_mmm_free_tids
      in (m1\<lparr>mm_free_tids := (new_head, mt_tid thread) # mm_free_tids m1\<rparr>,
          thread\<lparr>mt_initialized := False\<rparr>))"

definition mmm_reset_tids :: "mmm \<Rightarrow> mmm" where
  "mmm_reset_tids m = m\<lparr>mm_nexttid := 0\<rparr>"

definition mmm_thread_acquire :: "mmm \<Rightarrow> mmm_thread \<Rightarrow> (mmm \<times> mmm_thread) outcome" where
  "mmm_thread_acquire m thread =
     (if mt_initialized thread then Inr (m, thread)
      else let tid = mm_nexttid m;
               m1 = m\<lparr>mm_nexttid := wrap64 (tid + 1)\<rparr>;
               thread1 = thread\<lparr>mt_initialized := True, mt_tid := tid\<rparr>
           in and_then
                (if tid < HATRACK_THREADS_MAX then Inr (m1, thread1)
                 else case mm_free_tids m1 of
                   [] \<Rightarrow> Inl (Panic ''HATRACK_THREADS_MAX limit reached'')
                 | (head, htid) # rest \<Rightarrow>
                     mmm_retire (m1\<lparr>mm_free_tids := rest\<rparr>) (thread1\<lparr>mt_tid := htid\<rparr>) head)
                (\<lambda>(m2, thread2).
                  and_then (mmm_reserve m2 (mt_tid thread2) HATRACK_EPOCH_UNRESERVED)
                    (\<lambda>m3. Inr (m3, thread2))))"

partial_function (option) mmm_drain :: "mmm \<Rightarrow> mmm_thread \<Rightarrow> (mmm \<times> mmm_thread) outcome option" where
  "mmm_drain m thread =
     (if mt_retire_list thread = [] then Some (Inr (m, thread))
      else case mmm_empty m thread of
        Inl e \<Rightarrow> Some (Inl e)
      | Inr (m', thread') \<Rightarrow> mmm_drain m' thread')"

definition mmm_thread_release :: "mmm \<Rightarrow> mmm_thread \<Rightarrow> (mmm \<times> mmm_thread) outcome option" where
  "mmm_thread_release m thread =
     (if \<not> mt_initialized thread then Some (Inr (m, thread))
      else case mmm_end_op m thread of
        Inl e \<Rightarrow> Some (Inl e)
      | Inr m1 \<Rightarrow> map_option (\<lambda>r. and_then r (\<lambda>(m2, thread2). Inr (mmm_tid_giveback m2 thread2)))
                    (mmm_drain m1 thread))"

section \<open>The lowest reservation\<close>

lemma foldl_lowest:
  "foldl (\<lambda>lowest r. if r < lowest then r else lowest) a rs = Min (insert (a::nat) (set rs))"
proof (induction rs arbitrary: a)
  case (Cons r rs)
  have "(if r < a then r else a) = min r a" by auto
  moreover have "Min (insert (min r a) (set rs)) = Min (insert a (insert r (set rs)))"
    by (cases "rs = []") (simp_all add: min.assoc min.commute min.left_commute)
  ultimately show ?case using Cons.IH [of "min r a"] by simp
qed simp

definition used_tid :: "mmm \<Rightarrow> nat \<Rightarrow> bool" where
  "used_tid m tid \<longleftrightarrow> tid < mm_nexttid m \<and> tid < HATRACK_THREADS_MAX \<and> tid < length (mm_reservations m)"

lemma mmm_lowest_eq:
  "mmm_lowest m = Min (insert HATRACK_EPOCH_MAX {mm_reservations m ! tid | tid. used_tid m tid})"
proof -
  have "set (take (min HATRACK_THREADS_MAX (mm_nexttid m)) (mm_reservations m)) =
      {mm_reservations m ! tid | tid. used_tid m tid}"
    unfolding set_conv_nth used_tid_def by force
  moreover have "(if HATRACK_THREADS_MAX < mm_nexttid m then HATRACK_THREADS_MAX else mm_nexttid m) =
      min HATRACK_THREADS_MAX (mm_nexttid m)"
    by auto
  ultimately show ?thesis by (simp only: mmm_lowest_def Let_def foldl_lowest)
qed

lemma finite_reservations: "finite {mm_reservations m ! tid | tid. used_tid m tid}"
  by (rule finite_subset [of _ "set (mm_reservations m)"]) (auto simp: used_tid_def)

lemma mmm_lowest_le: "used_tid m tid \<Longrightarrow> mmm_lowest m \<le> mm_reservations m ! tid"
  unfolding mmm_lowest_eq using finite_reservations by (intro Min_le) auto

lemma mmm_lowest_greater:
  "e < mmm_lowest m \<longleftrightarrow> e < HATRACK_EPOCH_MAX \<and> (\<forall>tid. used_tid m tid \<longrightarrow> e < mm_reservations m ! tid)"
  unfolding mmm_lowest_eq using finite_reservations by (subst Min_gr_iff) auto

section \<open>Retire lists\<close>

definition allocated :: "mmm \<Rightarrow> nat \<Rightarrow> bool" where
  "allocated m p \<longleftrightarrow> p < length (mm_cells m) \<and> mm_cells m ! p \<noteq> None"

definition retired_at :: "mmm \<Rightarrow> nat \<Rightarrow> nat" where
  "retired_at m p = mh_retire_epoch (the (mm_cells m ! p))"

text \<open>
  A retire list holds allocated cells, each once, the latest retirement first, and none from an
  epoch that has not begun.
\<close>

definition retire_ok :: "mmm \<Rightarrow> nat list \<Rightarrow> bool" where
  "retire_ok m ps \<longleftrightarrow>
     distinct ps \<and> (\<forall>p \<in> set ps. allocated m p \<and> retired_at m p \<le> mm_epoch m) \<and>
     sorted_wrt (\<lambda>p q. retired_at m q \<le> retired_at m p) ps"

lemma get_header_allocated:
  "allocated m p \<Longrightarrow> \<exists>h. mmm_get_header m p = Inr h \<and> mm_cells m ! p = Some h \<and> mh_retire_epoch h = retired_at m p"
  by (auto simp: allocated_def mmm_get_header_def retired_at_def)

lemma mmm_cut_eq:
  assumes "\<forall>p \<in> set rest. allocated m p"
  shows "mmm_cut m lowest cell rest =
     Inr (cell # takeWhile (\<lambda>p. lowest \<le> retired_at m p) rest, dropWhile (\<lambda>p. lowest \<le> retired_at m p) rest)"
  using assms
proof (induction rest arbitrary: cell)
  case (Cons p ps)
  obtain h where "mmm_get_header m p = Inr h" "mh_retire_epoch h = retired_at m p"
    using get_header_allocated [of m p] Cons.prems by auto
  with Cons show ?case by auto
qed simp

lemma sorted_cut:
  assumes "sorted_wrt (\<lambda>p q. f q \<le> f p) ps"
  shows "takeWhile (\<lambda>p. (x::nat) \<le> f p) ps = filter (\<lambda>p. x \<le> f p) ps"
    "dropWhile (\<lambda>p. x \<le> f p) ps = filter (\<lambda>p. f p < x) ps"
proof -
  have "takeWhile (\<lambda>p. x \<le> f p) ps = filter (\<lambda>p. x \<le> f p) ps \<and>
      dropWhile (\<lambda>p. x \<le> f p) ps = filter (\<lambda>p. f p < x) ps"
    using assms
  proof (induction ps)
    case (Cons a ps)
    show ?case
    proof (cases "x \<le> f a")
      case False
      then have "f p < x" if "p \<in> set ps" for p using Cons.prems that by (meson le_less_trans not_le sorted_wrt.simps(2))
      then show ?thesis using False by (auto simp: filter_empty_conv filter_id_conv not_le)
    qed (use Cons in auto)
  qed simp
  then show "takeWhile (\<lambda>p. x \<le> f p) ps = filter (\<lambda>p. x \<le> f p) ps"
    "dropWhile (\<lambda>p. x \<le> f p) ps = filter (\<lambda>p. f p < x) ps" by simp_all
qed

lemma mmm_free_all_eq:
  assumes "distinct ps" "\<forall>p \<in> set ps. allocated m p"
  shows "\<exists>m'. mmm_free_all m ps = Inr m' \<and> length (mm_cells m') = length (mm_cells m) \<and>
     (\<forall>p. mm_cells m' ! p = (if p \<in> set ps then None else mm_cells m ! p)) \<and>
     mm_epoch m' = mm_epoch m \<and> mm_reservations m' = mm_reservations m \<and> mm_nexttid m' = mm_nexttid m \<and>
     mm_free_tids m' = mm_free_tids m"
  using assms
proof (induction ps arbitrary: m)
  case (Cons p ps)
  then have p: "p < length (mm_cells m)" "mm_cells m ! p \<noteq> None" by (auto simp: allocated_def)
  then obtain m1 where m1: "mmm_free m p = Inr m1" "mm_cells m1 = (mm_cells m)[p := None]"
    "mm_epoch m1 = mm_epoch m" "mm_reservations m1 = mm_reservations m" "mm_nexttid m1 = mm_nexttid m"
    "mm_free_tids m1 = mm_free_tids m"
    by (auto simp: mmm_free_def mmm_get_header_def)
  have "\<forall>q \<in> set ps. allocated m1 q"
    using Cons.prems m1(2) by (auto simp: allocated_def nth_list_update)
  with Cons.IH [of m1] Cons.prems m1 p show ?case by (auto simp: nth_list_update)
qed simp

lemma mmm_split_eq:
  assumes ok: "retire_ok m cs" and ne: "cs \<noteq> []"
  shows "mmm_split m lo cs = Inr (filter (\<lambda>p. lo \<le> retired_at m p) cs, filter (\<lambda>p. retired_at m p < lo) cs)"
proof -
  obtain c ps where l: "cs = c # ps" using ne by (cases cs) auto
  have alloc: "\<forall>p \<in> set (c # ps). allocated m p"
    and sorted: "sorted_wrt (\<lambda>p q. retired_at m q \<le> retired_at m p) (c # ps)"
    using ok by (auto simp: retire_ok_def l)
  obtain h where h: "mmm_get_header m c = Inr h" "mh_retire_epoch h = retired_at m c"
    using get_header_allocated [of m c] alloc by auto
  have "(if retired_at m c < lo then Inr ([], c # ps) else mmm_cut m lo c ps) =
      Inr (filter (\<lambda>p. lo \<le> retired_at m p) (c # ps), filter (\<lambda>p. retired_at m p < lo) (c # ps))"
  proof (cases "retired_at m c < lo")
    case True
    then have "retired_at m p < lo" if "p \<in> set ps" for p using sorted that by auto
    then show ?thesis using True by (auto simp: filter_empty_conv not_le)
  next
    case False
    then show ?thesis
      using mmm_cut_eq [of ps m lo c] alloc sorted sorted_cut [of "retired_at m" ps lo] by auto
  qed
  then show ?thesis unfolding mmm_split_def l list.case h and_then_Inr .
qed

lemma mmm_empty_spec:
  assumes ok: "retire_ok m (mt_retire_list thread)" and ne: "mt_retire_list thread \<noteq> []"
  obtains m' where
    "mmm_empty m thread = Inr (m', thread\<lparr>mt_retire_list :=
       filter (\<lambda>p. mmm_lowest m \<le> retired_at m p) (mt_retire_list thread)\<rparr>)"
    "length (mm_cells m') = length (mm_cells m)"
    "\<forall>p. mm_cells m' ! p =
       (if p \<in> set (mt_retire_list thread) \<and> retired_at m p < mmm_lowest m then None else mm_cells m ! p)"
    "mm_epoch m' = mm_epoch m" "mm_reservations m' = mm_reservations m" "mm_nexttid m' = mm_nexttid m"
    "mm_free_tids m' = mm_free_tids m"
proof -
  let ?cs = "mt_retire_list thread" and ?lo = "mmm_lowest m"
  obtain m' where m': "mmm_free_all m (filter (\<lambda>p. retired_at m p < ?lo) ?cs) = Inr m'"
    "length (mm_cells m') = length (mm_cells m)"
    "\<forall>p. mm_cells m' ! p = (if p \<in> set (filter (\<lambda>p. retired_at m p < ?lo) ?cs) then None else mm_cells m ! p)"
    "mm_epoch m' = mm_epoch m" "mm_reservations m' = mm_reservations m" "mm_nexttid m' = mm_nexttid m"
    "mm_free_tids m' = mm_free_tids m"
  proof -
    have "distinct (filter (\<lambda>p. retired_at m p < ?lo) ?cs)"
      "\<forall>p \<in> set (filter (\<lambda>p. retired_at m p < ?lo) ?cs). allocated m p"
      using ok by (auto simp: retire_ok_def)
    from mmm_free_all_eq [OF this] that show ?thesis by blast
  qed
  show ?thesis
  proof (rule that)
    show "mmm_empty m thread = Inr (m', thread\<lparr>mt_retire_list :=
       filter (\<lambda>p. mmm_lowest m \<le> retired_at m p) (mt_retire_list thread)\<rparr>)"
      unfolding mmm_empty_def mmm_split_eq [OF ok ne] and_then_Inr prod.case m'(1) ..
  qed (use m' in auto)
qed

lemma retire_ok_cong:
  assumes "retire_ok m ps" "mm_epoch m \<le> mm_epoch m'"
    "\<And>p. p \<in> set ps \<Longrightarrow> allocated m' p \<and> retired_at m' p = retired_at m p"
  shows "retire_ok m' ps"
proof -
  have "sorted_wrt (\<lambda>p q. retired_at m' q \<le> retired_at m' p) ps"
    by (rule sorted_wrt_mono_rel [of ps "\<lambda>p q. retired_at m q \<le> retired_at m p"])
       (use assms in \<open>auto simp: retire_ok_def\<close>)
  with assms show ?thesis by (fastforce simp: retire_ok_def)
qed

lemma retire_ok_filter: "retire_ok m ps \<Longrightarrow> retire_ok m (filter P ps)"
  by (auto simp: retire_ok_def sorted_wrt_filter)

lemma mmm_empty_ok:
  assumes ok: "retire_ok m (mt_retire_list thread)" and ne: "mt_retire_list thread \<noteq> []"
  obtains m' thread' where "mmm_empty m thread = Inr (m', thread')" "retire_ok m' (mt_retire_list thread')"
    "thread' = thread\<lparr>mt_retire_list := filter (\<lambda>p. mmm_lowest m \<le> retired_at m p) (mt_retire_list thread)\<rparr>"
    "length (mm_cells m') = length (mm_cells m)"
    "\<forall>p. mm_cells m' ! p =
       (if p \<in> set (mt_retire_list thread) \<and> retired_at m p < mmm_lowest m then None else mm_cells m ! p)"
    "mm_epoch m' = mm_epoch m" "mm_reservations m' = mm_reservations m" "mm_nexttid m' = mm_nexttid m"
    "mm_free_tids m' = mm_free_tids m"
proof -
  let ?kept = "filter (\<lambda>p. mmm_lowest m \<le> retired_at m p) (mt_retire_list thread)"
  obtain m' where m': "mmm_empty m thread = Inr (m', thread\<lparr>mt_retire_list := ?kept\<rparr>)"
    "length (mm_cells m') = length (mm_cells m)"
    "\<forall>p. mm_cells m' ! p =
       (if p \<in> set (mt_retire_list thread) \<and> retired_at m p < mmm_lowest m then None else mm_cells m ! p)"
    "mm_epoch m' = mm_epoch m" "mm_reservations m' = mm_reservations m" "mm_nexttid m' = mm_nexttid m"
    "mm_free_tids m' = mm_free_tids m"
    by (rule mmm_empty_spec [OF ok ne])
  have "retire_ok m' ?kept"
    using m'(2-4) ok
    by (intro retire_ok_cong [OF retire_ok_filter [OF ok]])
       (auto simp: allocated_def retired_at_def retire_ok_def)
  with m' that show ?thesis by simp
qed

text \<open>Retiring a cell that is not on the list puts it there with the current epoch.\<close>

lemma retire_ok_push:
  assumes ok: "retire_ok m ps" and p: "mm_cells m ! p = Some h" "p < length (mm_cells m)" "p \<notin> set ps"
  shows "retire_ok (mmm_set_header m p (h\<lparr>mh_retire_epoch := mm_epoch m\<rparr>)) (p # ps)"
    (is "retire_ok ?m _")
proof -
  have other: "allocated ?m q \<and> retired_at ?m q = retired_at m q" if "q \<in> set ps" for q
    using ok p that by (auto simp: retire_ok_def allocated_def retired_at_def mmm_set_header_def nth_list_update)
  have "retire_ok ?m ps"
    by (rule retire_ok_cong [OF ok _ other]) (simp_all add: mmm_set_header_def)
  moreover have "retired_at ?m p = mm_epoch m" "allocated ?m p" "mm_epoch ?m = mm_epoch m"
    using p by (simp_all add: retired_at_def allocated_def mmm_set_header_def)
  ultimately show ?thesis using p(3) by (auto simp: retire_ok_def)
qed

lemma mmm_retire_ok:
  assumes ok: "retire_ok m (mt_retire_list thread)" and p: "allocated m p" "p \<notin> set (mt_retire_list thread)"
  obtains m' thread' where "mmm_retire m thread p = Inr (m', thread')" "retire_ok m' (mt_retire_list thread')"
    "mm_reservations m' = mm_reservations m" "mm_nexttid m' = mm_nexttid m" "mt_tid thread' = mt_tid thread"
    "mt_initialized thread' = mt_initialized thread"
    "mm_free_tids m' = mm_free_tids m" "mm_epoch m' = mm_epoch m"
    "set (mt_retire_list thread') \<subseteq> insert p (set (mt_retire_list thread))"
    "\<forall>q. allocated m q \<longrightarrow> q \<noteq> p \<longrightarrow> q \<notin> set (mt_retire_list thread) \<longrightarrow> allocated m' q"
proof -
  obtain h where h: "mmm_get_header m p = Inr h" "mm_cells m ! p = Some h"
    using get_header_allocated [OF p(1)] by blast
  let ?m = "mmm_set_header m p (h\<lparr>mh_retire_epoch := mm_epoch m\<rparr>)"
  let ?t = "thread\<lparr>mt_retire_list := p # mt_retire_list thread, mt_retire_ctr := mt_retire_ctr thread + 1\<rparr>"
  have push: "retire_ok ?m (p # mt_retire_list thread)"
    using retire_ok_push [OF ok h(2) _ p(2)] p(1) by (simp add: allocated_def)
  have same: "mm_reservations ?m = mm_reservations m" "mm_nexttid ?m = mm_nexttid m"
    "mm_free_tids ?m = mm_free_tids m" "mm_epoch ?m = mm_epoch m"
    "length (mm_cells ?m) = length (mm_cells m)"
    by (simp_all add: mmm_set_header_def)
  have alloc: "allocated ?m q" if "allocated m q" for q
    using that by (cases "q = p") (auto simp: allocated_def mmm_set_header_def)
  show ?thesis
  proof (cases "mt_retire_ctr ?t AND HATRACK_RETIRE_FREQ = 0")
    case True
    then show ?thesis
      using that [of ?m ?t] h(1) push same alloc by (simp add: mmm_retire_def subset_insertI)
  next
    case False
    let ?t0 = "?t\<lparr>mt_retire_ctr := 0\<rparr>"
    have list0: "mt_retire_list ?t0 = p # mt_retire_list thread" by simp
    obtain m' thread' where e: "mmm_empty ?m ?t0 = Inr (m', thread')" "retire_ok m' (mt_retire_list thread')"
      "thread' = ?t0\<lparr>mt_retire_list := filter (\<lambda>p. mmm_lowest ?m \<le> retired_at ?m p) (mt_retire_list ?t0)\<rparr>"
      "length (mm_cells m') = length (mm_cells ?m)"
      "\<forall>q. mm_cells m' ! q =
         (if q \<in> set (mt_retire_list ?t0) \<and> retired_at ?m q < mmm_lowest ?m then None else mm_cells ?m ! q)"
      "mm_epoch m' = mm_epoch ?m" "mm_reservations m' = mm_reservations ?m" "mm_nexttid m' = mm_nexttid ?m"
      "mm_free_tids m' = mm_free_tids ?m"
      using mmm_empty_ok [of ?m ?t0] push unfolding list0 by blast
    have kept: "set (mt_retire_list thread') \<subseteq> insert p (set (mt_retire_list thread))" "mt_tid thread' = mt_tid thread"
      "mt_initialized thread' = mt_initialized thread"
      unfolding e(3) by auto
    have "allocated m' q" if q: "allocated m q" "q \<noteq> p" "q \<notin> set (mt_retire_list thread)" for q
    proof -
      have "mm_cells m' ! q = mm_cells ?m ! q" using e(5) q(2,3) unfolding list0 by simp
      then show ?thesis using alloc [OF q(1)] e(4) by (simp add: allocated_def)
    qed
    moreover have "mmm_retire m thread p = Inr (m', thread')" using e(1) False h(1) by (simp add: mmm_retire_def)
    ultimately show ?thesis using that [of m' thread'] e(2,6-9) kept same by simp
  qed
qed

text \<open>What a retirement does to every cell: one that is on the list goes if its retirement is before the lowest reservation.\<close>

lemma retire_effect:
  assumes ok: "retire_ok m (mt_retire_list mt)" and p: "allocated m p" "p \<notin> set (mt_retire_list mt)"
  defines "at q \<equiv> if q = p then mm_epoch m else retired_at m q"
  obtains m' mt' where "mmm_retire m mt p = Inr (m', mt')" "retire_ok m' (mt_retire_list mt')"
    "mm_reservations m' = mm_reservations m" "mm_nexttid m' = mm_nexttid m" "mt_tid mt' = mt_tid mt"
    "mt_initialized mt' = mt_initialized mt" "mm_epoch m' = mm_epoch m"
    "set (mt_retire_list mt') \<subseteq> insert p (set (mt_retire_list mt))"
    "\<And>q. \<lbrakk>allocated m q; q \<in> insert p (set (mt_retire_list mt)) \<Longrightarrow> mmm_lowest m \<le> at q\<rbrakk> \<Longrightarrow> allocated m' q \<and> retired_at m' q = at q"
    "\<And>q. allocated m' q \<Longrightarrow> allocated m q \<and> (q \<in> insert p (set (mt_retire_list mt)) \<longrightarrow> q \<in> set (mt_retire_list mt'))"
proof -
  obtain h where h: "mmm_get_header m p = Inr h" "mm_cells m ! p = Some h"
    using get_header_allocated [OF p(1)] by blast
  let ?m = "mmm_set_header m p (h\<lparr>mh_retire_epoch := mm_epoch m\<rparr>)"
  let ?t = "mt\<lparr>mt_retire_list := p # mt_retire_list mt, mt_retire_ctr := mt_retire_ctr mt + 1\<rparr>"
  have push: "retire_ok ?m (p # mt_retire_list mt)"
    using retire_ok_push [OF ok h(2) _ p(2)] p(1) by (simp add: allocated_def)
  have same: "mm_reservations ?m = mm_reservations m" "mm_nexttid ?m = mm_nexttid m" "mm_epoch ?m = mm_epoch m" "mmm_lowest ?m = mmm_lowest m"
    "length (mm_cells ?m) = length (mm_cells m)"
    by (simp_all add: mmm_set_header_def mmm_lowest_def)
  have at: "allocated ?m q \<and> retired_at ?m q = at q" if "allocated m q" for q
    using that by (auto simp: allocated_def retired_at_def mmm_set_header_def nth_list_update at_def)
  have only: "allocated m q" if "allocated ?m q" for q
    using that h(2) p(1) by (auto simp: allocated_def mmm_set_header_def nth_list_update split: if_splits)
  show ?thesis
  proof (cases "mt_retire_ctr ?t AND HATRACK_RETIRE_FREQ = 0")
    case True
    show ?thesis
    proof (rule that [of ?m ?t])
      show "mmm_retire m mt p = Inr (?m, ?t)" using True h(1) by (simp add: mmm_retire_def)
    qed (use push same at only in \<open>auto\<close>)
  next
    case False
    let ?t0 = "?t\<lparr>mt_retire_ctr := 0\<rparr>"
    have list0: "mt_retire_list ?t0 = p # mt_retire_list mt" by simp
    obtain m' mt' where e: "mmm_empty ?m ?t0 = Inr (m', mt')" "retire_ok m' (mt_retire_list mt')"
      "mt' = ?t0\<lparr>mt_retire_list := filter (\<lambda>p. mmm_lowest ?m \<le> retired_at ?m p) (mt_retire_list ?t0)\<rparr>"
      "length (mm_cells m') = length (mm_cells ?m)"
      "\<forall>q. mm_cells m' ! q =
         (if q \<in> set (mt_retire_list ?t0) \<and> retired_at ?m q < mmm_lowest ?m then None else mm_cells ?m ! q)"
      "mm_epoch m' = mm_epoch ?m" "mm_reservations m' = mm_reservations ?m" "mm_nexttid m' = mm_nexttid ?m"
      "mm_free_tids m' = mm_free_tids ?m"
      using mmm_empty_ok [of ?m ?t0] push unfolding list0 by blast
    have kept: "allocated m' q \<and> retired_at m' q = at q"
      if q: "allocated m q" "q \<in> insert p (set (mt_retire_list mt)) \<Longrightarrow> mmm_lowest m \<le> at q" for q
    proof -
      have "mm_cells m' ! q = mm_cells ?m ! q" using e(5) at [OF q(1)] q(2) same(4) unfolding list0 by auto
      then show ?thesis using at [OF q(1)] e(4) by (simp add: allocated_def retired_at_def)
    qed
    have parts: "set (mt_retire_list mt') \<subseteq> insert p (set (mt_retire_list mt))" "mt_tid mt' = mt_tid mt"
      "mt_initialized mt' = mt_initialized mt"
      unfolding e(3) by auto
    have listed: "allocated m q \<and> (q \<in> insert p (set (mt_retire_list mt)) \<longrightarrow> q \<in> set (mt_retire_list mt'))" if q: "allocated m' q" for q
    proof -
      have "mm_cells m' ! q \<noteq> None" using q by (simp add: allocated_def)
      then have "mm_cells m' ! q = mm_cells ?m ! q" "q \<in> set (mt_retire_list ?t0) \<longrightarrow> mmm_lowest ?m \<le> retired_at ?m q"
        using e(5) by (auto split: if_splits)
      then show ?thesis using only [of q] q e(4) unfolding e(3) list0 by (auto simp: allocated_def)
    qed
    have "mmm_retire m mt p = Inr (m', mt')" using e(1) False h(1) by (simp add: mmm_retire_def)
    then show ?thesis
    proof (rule that [of m' mt'])
      show "allocated m' q \<and> retired_at m' q = at q"
        if "allocated m q" "q \<in> insert p (set (mt_retire_list mt)) \<Longrightarrow> mmm_lowest m \<le> at q" for q
        using that by (rule kept)
    qed (use e(2,6-8) parts same listed in simp_all)
  qed
qed

section \<open>The contract with the data structures\<close>

text \<open>
  What a data structure relies on: entering and leaving an operation changes no memory, an allocation is
  fresh, retiring a cell once it is unlinked succeeds and leaves every cell that is neither retired
  nor waiting for it; a retired cell that is not freed yet is on the thread's list. The lemmas are the four ways the data structures combine the calls.
\<close>

locale reclaimer =
  fixes enter leave :: "'m \<Rightarrow> 't \<Rightarrow> 'm outcome"
    and alloc :: "'m \<Rightarrow> nat \<Rightarrow> 'm \<times> nat"
    and retire :: "'m \<Rightarrow> 't \<Rightarrow> nat \<Rightarrow> ('m \<times> 't) outcome"
    and ok :: "'m \<Rightarrow> 't \<Rightarrow> bool"
    and live :: "'m \<Rightarrow> nat \<Rightarrow> bool"
    and dying :: "'t \<Rightarrow> nat set"
    and clock :: "'m \<Rightarrow> nat"
  assumes enter_ok: "ok m t \<Longrightarrow> \<exists>m'. enter m t = Inr m' \<and> ok m' t \<and> live m' = live m \<and> clock m' = clock m"
    and leave_ok: "ok m t \<Longrightarrow> \<exists>m'. leave m t = Inr m' \<and> ok m' t \<and> live m' = live m \<and> clock m' = clock m"
    and dying_live: "\<lbrakk>ok m t; p \<in> dying t\<rbrakk> \<Longrightarrow> live m p"
    and alloc_ok: "\<lbrakk>ok m t; clock m + 1 < 2 ^ 64\<rbrakk> \<Longrightarrow>
      \<exists>m' p. alloc m n = (m', p) \<and> ok m' t \<and> \<not> live m p \<and> live m' p \<and> (\<forall>q. live m q \<longrightarrow> live m' q) \<and>
        clock m' = clock m + 1"
    and retire_ok: "\<lbrakk>ok m t; live m p; p \<notin> dying t\<rbrakk> \<Longrightarrow>
      \<exists>m' t'. retire m t p = Inr (m', t') \<and> ok m' t' \<and> dying t' \<subseteq> insert p (dying t) \<and>
        (\<forall>q. live m q \<longrightarrow> q \<noteq> p \<longrightarrow> q \<notin> dying t \<longrightarrow> live m' q) \<and> clock m' = clock m"
    and alloc_only: "\<lbrakk>alloc m n = (m', p); live m' q\<rbrakk> \<Longrightarrow> q = p \<or> live m q"
    and retire_only: "\<lbrakk>ok m t; live m p; p \<notin> dying t; retire m t p = Inr (m', t'); live m' q\<rbrakk> \<Longrightarrow>
      live m q \<and> (q \<in> insert p (dying t) \<longrightarrow> q \<in> dying t')"
begin

lemma read_ok:
  assumes "ok m t"
  obtains m1 m2 where "enter m t = Inr m1" "leave m1 t = Inr m2" "ok m2 t" "live m2 = live m" "clock m2 = clock m"
  using enter_ok [OF assms] leave_ok by metis

lemma insert_ok:
  assumes "ok m t" "clock m + 1 < 2 ^ 64"
  obtains m1 m2 p m3 where "enter m t = Inr m1" "alloc m1 n = (m2, p)" "leave m2 t = Inr m3" "ok m3 t"
    "\<not> live m p" "p \<notin> dying t" "live m3 p" "\<forall>q. live m q \<longrightarrow> live m3 q" "clock m3 = clock m + 1"
proof -
  obtain m1 where m1: "enter m t = Inr m1" "ok m1 t" "live m1 = live m" "clock m1 = clock m"
    using enter_ok [OF assms(1)] by blast
  obtain m2 p where m2: "alloc m1 n = (m2, p)" "ok m2 t" "\<not> live m1 p" "live m2 p" "\<forall>q. live m1 q \<longrightarrow> live m2 q"
    "clock m2 = clock m1 + 1"
    using alloc_ok [OF m1(2)] assms(2) m1(4) by metis
  obtain m3 where "leave m2 t = Inr m3" "ok m3 t" "live m3 = live m2" "clock m3 = clock m2"
    using leave_ok [OF m2(2)] by blast
  moreover have "p \<notin> dying t" using dying_live [OF assms(1)] m1(3) m2(3) by auto
  ultimately show ?thesis using that m1 m2 by simp
qed

lemma remove_ok:
  assumes "ok m t" "live m p" "p \<notin> dying t"
  obtains m1 m2 t2 m3 where "enter m t = Inr m1" "retire m1 t p = Inr (m2, t2)" "leave m2 t2 = Inr m3" "ok m3 t2"
    "dying t2 \<subseteq> insert p (dying t)" "\<forall>q. live m q \<longrightarrow> q \<noteq> p \<longrightarrow> q \<notin> dying t \<longrightarrow> live m3 q" "clock m3 = clock m"
proof -
  obtain m1 where m1: "enter m t = Inr m1" "ok m1 t" "live m1 = live m" "clock m1 = clock m"
    using enter_ok [OF assms(1)] by blast
  obtain m2 t2 where m2: "retire m1 t p = Inr (m2, t2)" "ok m2 t2" "dying t2 \<subseteq> insert p (dying t)"
    "\<forall>q. live m1 q \<longrightarrow> q \<noteq> p \<longrightarrow> q \<notin> dying t \<longrightarrow> live m2 q" "clock m2 = clock m1"
    using retire_ok [OF m1(2)] assms(2,3) m1(3) by metis
  obtain m3 where "leave m2 t2 = Inr m3" "ok m3 t2" "live m3 = live m2" "clock m3 = clock m2"
    using leave_ok [OF m2(2)] by blast
  then show ?thesis using that m1 m2 by simp
qed

lemma replace_ok:
  assumes "ok m t" "clock m + 1 < 2 ^ 64" "live m old" "old \<notin> dying t"
  obtains m1 p m2 t2 where "alloc m n = (m1, p)" "retire m1 t old = Inr (m2, t2)" "ok m2 t2" "live m2 p"
    "p \<notin> dying t2" "clock m2 = clock m + 1"
    "\<forall>q. live m2 q \<longrightarrow> q = p \<or> q \<in> dying t2 \<or> live m q \<and> q \<noteq> old \<and> q \<notin> dying t"
proof -
  obtain m1 p where m1: "alloc m n = (m1, p)" "ok m1 t" "\<not> live m p" "live m1 p" "\<forall>q. live m q \<longrightarrow> live m1 q"
    "clock m1 = clock m + 1"
    using alloc_ok [OF assms(1,2)] by blast
  have p: "p \<notin> dying t" "p \<noteq> old" using dying_live [OF assms(1)] m1(3) assms(3) by auto
  obtain m2 t2 where "retire m1 t old = Inr (m2, t2)" "ok m2 t2" "dying t2 \<subseteq> insert old (dying t)"
    "\<forall>q. live m1 q \<longrightarrow> q \<noteq> old \<longrightarrow> q \<notin> dying t \<longrightarrow> live m2 q" "clock m2 = clock m1"
    using retire_ok [OF m1(2)] m1(5) assms(3,4) by metis
  moreover from this have "q = p \<or> q \<in> dying t2 \<or> live m q \<and> q \<noteq> old \<and> q \<notin> dying t" if "live m2 q" for q
    using retire_only [OF m1(2) _ assms(4), of m2 t2 q] alloc_only [OF m1(1), of q] m1(5) assms(3) that by auto
  ultimately show ?thesis using m1 p that [of m1 p m2 t2] by auto
qed

end

definition mmm_ok :: "mmm \<Rightarrow> mmm_thread \<Rightarrow> bool" where
  "mmm_ok m thread \<longleftrightarrow> mt_initialized thread \<and> mt_tid thread < length (mm_reservations m) \<and>
     retire_ok m (mt_retire_list thread)"

text \<open>Reservations do not concern the cells.\<close>

lemma cells_reservations [simp]:
  "allocated (m\<lparr>mm_reservations := rs\<rparr>) p = allocated m p"
  "retired_at (m\<lparr>mm_reservations := rs\<rparr>) p = retired_at m p"
  "retire_ok (m\<lparr>mm_reservations := rs\<rparr>) ps = retire_ok m ps"
  by (simp_all add: allocated_def retired_at_def retire_ok_def)

text \<open>A committed allocation adds one cell at the end and moves the epoch.\<close>

lemma mmm_alloc_committed_eq:
  "mmm_alloc_committed m sz =
     (m\<lparr>mm_cells := mm_cells m @ [Some (zero_header\<lparr>mh_write_epoch := wrap64 (mm_epoch m + 1)\<rparr>)],
        mm_epoch := wrap64 (mm_epoch m + 1)\<rparr>, length (mm_cells m))"
  by (simp add: mmm_alloc_committed_def mmm_zalloc_def mmm_next_epoch_def mmm_set_header_def)

lemma alloc_committed_cells:
  assumes "mmm_alloc_committed m n = (m', p)" "mm_epoch m + 1 < 2 ^ 64"
  shows "p = length (mm_cells m)" "allocated m' p" "\<And>q. allocated m q \<Longrightarrow> allocated m' q"
    "retire_ok m ps \<Longrightarrow> retire_ok m' ps" "mm_epoch m' = mm_epoch m + 1"
    "mm_reservations m' = mm_reservations m"
proof -
  have m': "m' = m\<lparr>mm_cells := mm_cells m @ [Some (zero_header\<lparr>mh_write_epoch := mm_epoch m + 1\<rparr>)],
      mm_epoch := mm_epoch m + 1\<rparr>" "p = length (mm_cells m)"
    using assms wrap64_id [OF assms(2)] by (auto simp: mmm_alloc_committed_eq)
  then show "p = length (mm_cells m)" "allocated m' p" "mm_epoch m' = mm_epoch m + 1"
    "mm_reservations m' = mm_reservations m"
    by (simp_all add: allocated_def)
  have keep: "allocated m' q \<and> retired_at m' q = retired_at m q" if "allocated m q" for q
    using that m' by (simp add: allocated_def retired_at_def nth_append)
  then show "\<And>q. allocated m q \<Longrightarrow> allocated m' q" by blast
  show "retire_ok m' ps" if ok: "retire_ok m ps"
    by (rule retire_ok_cong [OF ok]) (use ok keep m' in \<open>auto simp: retire_ok_def\<close>)
qed

interpretation mmm: reclaimer mmm_start_basic_op mmm_end_op mmm_alloc_committed mmm_retire mmm_ok allocated
  "\<lambda>thread. set (mt_retire_list thread)" mm_epoch
proof
  fix m thread n p
  assume ok: "mmm_ok m thread"
  then show "\<exists>m'. mmm_start_basic_op m thread = Inr m' \<and> mmm_ok m' thread \<and> allocated m' = allocated m \<and>
      mm_epoch m' = mm_epoch m"
    by (auto simp: mmm_ok_def mmm_start_basic_op_def mmm_reserve_def)
  show "\<exists>m'. mmm_end_op m thread = Inr m' \<and> mmm_ok m' thread \<and> allocated m' = allocated m \<and>
      mm_epoch m' = mm_epoch m"
    using ok by (auto simp: mmm_ok_def mmm_end_op_def mmm_reserve_def)
  show "allocated m p" if "p \<in> set (mt_retire_list thread)"
    using ok that by (auto simp: mmm_ok_def retire_ok_def)
  show "\<exists>m' p. mmm_alloc_committed m n = (m', p) \<and> mmm_ok m' thread \<and> \<not> allocated m p \<and> allocated m' p \<and>
      (\<forall>q. allocated m q \<longrightarrow> allocated m' q) \<and> mm_epoch m' = mm_epoch m + 1"
    if e: "mm_epoch m + 1 < 2 ^ 64"
  proof -
    obtain m' p where a: "mmm_alloc_committed m n = (m', p)" by fastforce
    show ?thesis using a ok alloc_committed_cells [OF a e] by (auto simp: mmm_ok_def allocated_def)
  qed
  show "\<exists>m' thread'. mmm_retire m thread p = Inr (m', thread') \<and> mmm_ok m' thread' \<and>
      set (mt_retire_list thread') \<subseteq> insert p (set (mt_retire_list thread)) \<and>
      (\<forall>q. allocated m q \<longrightarrow> q \<noteq> p \<longrightarrow> q \<notin> set (mt_retire_list thread) \<longrightarrow> allocated m' q) \<and>
      mm_epoch m' = mm_epoch m"
    if "allocated m p" "p \<notin> set (mt_retire_list thread)"
    using ok that mmm_retire_ok [of m thread p] unfolding mmm_ok_def by metis
  show "allocated m q \<and> (q \<in> insert p (set (mt_retire_list thread)) \<longrightarrow> q \<in> set (mt_retire_list thread'))"
    if r: "allocated m p" "p \<notin> set (mt_retire_list thread)" "mmm_retire m thread p = Inr (m', thread')" "allocated m' q" for m' thread' q
    using retire_effect [of m thread p] ok r unfolding mmm_ok_def by (metis sum.inject(2) prod.inject)
next
  fix m n m' p q
  assume "mmm_alloc_committed m n = (m', p)" "allocated m' q"
  then show "q = p \<or> allocated m q" by (auto simp: mmm_alloc_committed_eq allocated_def nth_append less_Suc_eq split: if_splits)
qed
text \<open>A thread's record, on the first call of the first thread and on later calls.\<close>

lemma threads_max_pos [simp]: "0 < HATRACK_THREADS_MAX"
  by (simp add: HATRACK_THREADS_MAX_def)

lemma acquire_initialized [simp]: "mt_initialized thread \<Longrightarrow> mmm_thread_acquire m thread = Inr (m, thread)"
  by (simp add: mmm_thread_acquire_def)

lemma first_acquire:
  obtains m thread where "mmm_thread_acquire mmm_start mmm_thread_zero = Inr (m, thread)" "mmm_ok m thread"
    "mm_epoch m = 1" "mt_retire_list thread = []"
  using that
  by (simp add: mmm_thread_acquire_def mmm_start_def mmm_thread_zero_def mmm_reserve_def
      HATRACK_EPOCH_FIRST_def mmm_ok_def retire_ok_def)


section \<open>Releasing a thread\<close>

lemma mmm_drain_returns:
  assumes ok: "retire_ok m (mt_retire_list thread)"
    and low: "\<And>p. p \<in> set (mt_retire_list thread) \<Longrightarrow> retired_at m p < mmm_lowest m"
  obtains m' where "mmm_drain m thread = Some (Inr (m', thread\<lparr>mt_retire_list := []\<rparr>))"
    "length (mm_cells m') = length (mm_cells m)"
    "\<forall>p. mm_cells m' ! p = (if p \<in> set (mt_retire_list thread) then None else mm_cells m ! p)"
    "mm_reservations m' = mm_reservations m" "mm_nexttid m' = mm_nexttid m" "mm_free_tids m' = mm_free_tids m"
proof (cases "mt_retire_list thread = []")
  case True
  moreover have "thread\<lparr>mt_retire_list := []\<rparr> = thread" using True by (cases thread) simp
  ultimately show ?thesis using that [of m] by (simp add: mmm_drain.simps)
next
  case False
  obtain m' where m': "mmm_empty m thread = Inr (m', thread\<lparr>mt_retire_list := []\<rparr>)"
    "length (mm_cells m') = length (mm_cells m)"
    "\<forall>p. mm_cells m' ! p = (if p \<in> set (mt_retire_list thread) then None else mm_cells m ! p)"
    "mm_reservations m' = mm_reservations m" "mm_nexttid m' = mm_nexttid m" "mm_free_tids m' = mm_free_tids m"
  proof (rule mmm_empty_spec [OF ok False])
    fix m'
    assume "mmm_empty m thread = Inr (m', thread\<lparr>mt_retire_list :=
        filter (\<lambda>p. mmm_lowest m \<le> retired_at m p) (mt_retire_list thread)\<rparr>)"
      "length (mm_cells m') = length (mm_cells m)"
      "\<forall>p. mm_cells m' ! p =
         (if p \<in> set (mt_retire_list thread) \<and> retired_at m p < mmm_lowest m then None else mm_cells m ! p)"
      "mm_reservations m' = mm_reservations m" "mm_nexttid m' = mm_nexttid m" "mm_free_tids m' = mm_free_tids m"
    moreover have "filter (\<lambda>p. mmm_lowest m \<le> retired_at m p) (mt_retire_list thread) = []"
      using low by (auto simp: filter_empty_conv not_le)
    ultimately show thesis using that [of m'] low by auto
  qed
  then show ?thesis
    using that [of m'] False by (simp add: mmm_drain.simps [of m] mmm_drain.simps [of m'])
qed

text \<open>
  While some thread's reservation is not later than a retirement, emptying the list leaves that
  cell on it, for ever: the loop does not end.
\<close>

lemma mmm_drain_stuck:
  assumes "retire_ok m (mt_retire_list thread)" "p \<in> set (mt_retire_list thread)"
    "used_tid m tid" "mm_reservations m ! tid \<le> retired_at m p"
  shows "mmm_drain m thread = None"
proof (rule ccontr)
  assume "mmm_drain m thread \<noteq> None"
  then obtain r where "mmm_drain m thread = Some r" by blast
  from this assms show False
  proof (induction m thread r rule: mmm_drain.raw_induct [rotated, consumes 1, case_names 1])
    case (1 drain m thread r)
    obtain m' thread' where e: "mmm_empty m thread = Inr (m', thread')"
      "retire_ok m' (mt_retire_list thread')"
      "thread' = thread\<lparr>mt_retire_list := filter (\<lambda>p. mmm_lowest m \<le> retired_at m p) (mt_retire_list thread)\<rparr>"
      "length (mm_cells m') = length (mm_cells m)"
      "\<forall>p. mm_cells m' ! p =
         (if p \<in> set (mt_retire_list thread) \<and> retired_at m p < mmm_lowest m then None else mm_cells m ! p)"
      "mm_reservations m' = mm_reservations m" "mm_nexttid m' = mm_nexttid m"
      by (rule mmm_empty_ok [of m thread]) (use 1(3,4) in auto)
    have low: "mmm_lowest m \<le> retired_at m p"
      using mmm_lowest_le [OF 1(5)] 1(6) by simp
    have "p \<in> set (mt_retire_list thread')" using e(3) 1(4) low by simp
    moreover have "retired_at m' p = retired_at m p" using e(5) low by (simp add: retired_at_def)
    moreover have "used_tid m' tid" using 1(5) e(6,7) by (simp add: used_tid_def)
    moreover have "drain m' thread' = Some r" using 1(2,4) e(1) by (auto split: if_splits)
    ultimately show False using 1(1) [of m' thread' r] e(2,6) 1(6) by simp
  qed
qed

section \<open>Properties\<close>

text \<open>C21: \<^verbatim>\<open>mmm_empty\<close> frees exactly the cells of the thread's retire list that were retired before
  every reservation of a thread id in use, so a cell that some reader's reservation still covers
  survives; it keeps the list well-formed and touches no other memory.\<close>

theorem mmm_empty_exact:
  assumes "retire_ok m (mt_retire_list thread)" "mt_retire_list thread \<noteq> []"
    "mm_epoch m < HATRACK_EPOCH_MAX"
  shows "\<exists>m' thread'. mmm_empty m thread = Inr (m', thread') \<and> retire_ok m' (mt_retire_list thread') \<and>
     set (mt_retire_list thread') = {p \<in> set (mt_retire_list thread). allocated m' p} \<and>
     (\<forall>p. mm_cells m' ! p =
        (if p \<in> set (mt_retire_list thread) \<and>
            (\<forall>tid. used_tid m tid \<longrightarrow> retired_at m p < mm_reservations m ! tid)
         then None else mm_cells m ! p))"
proof (rule mmm_empty_ok [OF assms(1,2)])
  fix m' thread'
  assume e: "mmm_empty m thread = Inr (m', thread')" "retire_ok m' (mt_retire_list thread')"
    "thread' = thread\<lparr>mt_retire_list := filter (\<lambda>p. mmm_lowest m \<le> retired_at m p) (mt_retire_list thread)\<rparr>"
    "length (mm_cells m') = length (mm_cells m)"
    "\<forall>p. mm_cells m' ! p =
       (if p \<in> set (mt_retire_list thread) \<and> retired_at m p < mmm_lowest m then None else mm_cells m ! p)"
  have low: "retired_at m p < mmm_lowest m \<longleftrightarrow>
      (\<forall>tid. used_tid m tid \<longrightarrow> retired_at m p < mm_reservations m ! tid)"
    if "p \<in> set (mt_retire_list thread)" for p
    using assms(1,3) that unfolding mmm_lowest_greater retire_ok_def by fastforce
  have "allocated m' p \<longleftrightarrow> \<not> retired_at m p < mmm_lowest m" if "p \<in> set (mt_retire_list thread)" for p
    using e(4,5) assms(1) that by (auto simp: allocated_def retire_ok_def)
  then have "set (mt_retire_list thread') = {p \<in> set (mt_retire_list thread). allocated m' p}"
    using e(3) by auto
  moreover have "mm_cells m' ! p =
        (if p \<in> set (mt_retire_list thread) \<and>
            (\<forall>tid. used_tid m tid \<longrightarrow> retired_at m p < mm_reservations m ! tid)
         then None else mm_cells m ! p)" for p
    using e(5) low [of p] by auto
  ultimately show ?thesis using e(1,2) by blast
qed

text \<open>A manager with two thread ids in use, one of them reserved, and two retired cells.\<close>

definition mmm_sample :: mmm where
  "mmm_sample = mmm_start\<lparr>mm_nexttid := 2, mm_epoch := 9, mm_reservations := [2 ^ 64 - 1, 5] @ replicate 4094 0,
     mm_cells := [Some (zero_header\<lparr>mh_write_epoch := 2, mh_retire_epoch := 4\<rparr>),
                  Some (zero_header\<lparr>mh_write_epoch := 3, mh_retire_epoch := 7\<rparr>)]\<rparr>"

definition mmm_thread_sample :: mmm_thread where
  "mmm_thread_sample = \<lparr>mt_tid = 0, mt_retire_ctr = 2, mt_retire_list = [1, 0], mt_initialized = True\<rparr>"

lemma mmm_sample_ok:
  "retire_ok mmm_sample (mt_retire_list mmm_thread_sample)" "mm_epoch mmm_sample < HATRACK_EPOCH_MAX"
  "used_tid mmm_sample tid \<longleftrightarrow> tid = 0 \<or> tid = 1"
  "mm_reservations mmm_sample ! 0 = 2 ^ 64 - 1" "mm_reservations mmm_sample ! 1 = 5"
  "retired_at mmm_sample 0 = 4" "retired_at mmm_sample 1 = 7"
  by (auto simp: retire_ok_def allocated_def retired_at_def mmm_sample_def mmm_thread_sample_def mmm_start_def
      HATRACK_EPOCH_MAX_def used_tid_def HATRACK_THREADS_MAX_def)

theorem mmm_empty_exact_witness:
  "\<exists>m' thread'. mmm_empty mmm_sample mmm_thread_sample = Inr (m', thread') \<and>
     mm_cells m' ! 0 = None \<and> mm_cells m' ! 1 \<noteq> None"
proof -
  note s = mmm_sample_ok
  have l: "mt_retire_list mmm_thread_sample = [1, 0]" by (simp add: mmm_thread_sample_def)
  obtain m' thread' where m': "mmm_empty mmm_sample mmm_thread_sample = Inr (m', thread')"
    "\<forall>p. mm_cells m' ! p =
        (if p \<in> set (mt_retire_list mmm_thread_sample) \<and>
            (\<forall>tid. used_tid mmm_sample tid \<longrightarrow> retired_at mmm_sample p < mm_reservations mmm_sample ! tid)
         then None else mm_cells mmm_sample ! p)"
    using mmm_empty_exact [OF s(1) _ s(2)] l by auto
  then have "mm_cells m' ! 0 = None" using s l by auto
  moreover have "mm_cells m' ! 1 = mm_cells mmm_sample ! 1" using m'(2) s by auto
  ultimately show ?thesis using m'(1) by (auto simp: mmm_sample_def)
qed

text \<open>C37: Releasing a thread frees its retired memory and gives its thread id back, unless some other
  thread id in use has a reservation not later than one of the retirements; then the release spins
  and does not return.\<close>

theorem mmm_thread_release_outcomes:
  assumes "mt_initialized thread" "used_tid m (mt_tid thread)"
    "retire_ok m (mt_retire_list thread)" "mm_epoch m < HATRACK_EPOCH_MAX"
  shows "if \<exists>tid. used_tid m tid \<and> tid \<noteq> mt_tid thread \<and>
            (\<exists>p \<in> set (mt_retire_list thread). mm_reservations m ! tid \<le> retired_at m p)
     then mmm_thread_release m thread = None
     else \<exists>m' thread' p. mmm_thread_release m thread = Some (Inr (m', thread')) \<and>
            mt_retire_list thread' = [] \<and> \<not> mt_initialized thread' \<and>
            mm_free_tids m' = (p, mt_tid thread) # mm_free_tids m \<and>
            (\<forall>q \<in> set (mt_retire_list thread). \<not> allocated m' q)"
proof -
  let ?tid = "mt_tid thread"
  let ?m = "m\<lparr>mm_reservations := (mm_reservations m)[?tid := HATRACK_EPOCH_UNRESERVED]\<rparr>"
  have end_op: "mmm_end_op m thread = Inr ?m"
    using assms(2) by (simp add: mmm_end_op_def mmm_reserve_def used_tid_def)
  have used: "used_tid ?m t = used_tid m t" for t by (simp add: used_tid_def)
  have at: "retired_at ?m q = retired_at m q" for q by (simp add: retired_at_def)
  have ok: "retire_ok ?m (mt_retire_list thread)"
    by (rule retire_ok_cong [OF assms(3)]) (use assms(3) in \<open>auto simp: at allocated_def retire_ok_def\<close>)
  show ?thesis
  proof (cases "\<exists>tid. used_tid m tid \<and> tid \<noteq> ?tid \<and>
      (\<exists>p \<in> set (mt_retire_list thread). mm_reservations m ! tid \<le> retired_at m p)")
    case True
    then have "mmm_drain ?m thread = None"
      using mmm_drain_stuck [OF ok] by (auto simp: used at)
    with True assms(1) end_op show ?thesis by (simp add: mmm_thread_release_def)
  next
    case False
    have small: "retired_at m q < HATRACK_EPOCH_MAX" "q < length (mm_cells m)"
      if "q \<in> set (mt_retire_list thread)" for q
      using assms(3,4) that by (auto simp: retire_ok_def allocated_def)
    have low: "retired_at ?m q < mmm_lowest ?m" if q: "q \<in> set (mt_retire_list thread)" for q
      unfolding mmm_lowest_greater at used
    proof (intro conjI allI impI)
      show "retired_at m q < HATRACK_EPOCH_MAX" using small(1) [OF q] .
      show "retired_at m q < mm_reservations ?m ! tid" if "used_tid m tid" for tid
        using False that q small(1) [OF q] by (cases "tid = ?tid")
          (auto simp: used_tid_def HATRACK_EPOCH_UNRESERVED_def HATRACK_EPOCH_MAX_def not_le)
    qed
    obtain m' where m': "mmm_drain ?m thread = Some (Inr (m', thread\<lparr>mt_retire_list := []\<rparr>))"
      "length (mm_cells m') = length (mm_cells ?m)"
      "\<forall>p. mm_cells m' ! p = (if p \<in> set (mt_retire_list thread) then None else mm_cells ?m ! p)"
      "mm_free_tids m' = mm_free_tids ?m"
      by (rule mmm_drain_returns [OF ok low])
    have "\<exists>m' thread' p. mmm_thread_release m thread = Some (Inr (m', thread')) \<and>
        mt_retire_list thread' = [] \<and> \<not> mt_initialized thread' \<and>
        mm_free_tids m' = (p, ?tid) # mm_free_tids m \<and> (\<forall>q \<in> set (mt_retire_list thread). \<not> allocated m' q)"
      using m' assms(1) end_op small(2)
      by (auto simp: mmm_thread_release_def mmm_tid_giveback_def mmm_alloc_def mmm_zalloc_def allocated_def
          nth_append)
    with False show ?thesis by (simp only: if_False)
  qed
qed

theorem mmm_thread_release_outcomes_witness:
  "mmm_thread_release mmm_sample mmm_thread_sample = None"
proof -
  have "used_tid mmm_sample 1 \<and> 1 \<noteq> mt_tid mmm_thread_sample \<and>
      (\<exists>p \<in> set (mt_retire_list mmm_thread_sample). mm_reservations mmm_sample ! 1 \<le> retired_at mmm_sample p)"
    using mmm_sample_ok by (simp add: mmm_thread_sample_def)
  then have c: "\<exists>tid. used_tid mmm_sample tid \<and> tid \<noteq> mt_tid mmm_thread_sample \<and>
      (\<exists>p \<in> set (mt_retire_list mmm_thread_sample). mm_reservations mmm_sample ! tid \<le> retired_at mmm_sample p)"
    by blast
  have "mt_initialized mmm_thread_sample" "used_tid mmm_sample (mt_tid mmm_thread_sample)"
    using mmm_sample_ok(3) by (simp_all add: mmm_thread_sample_def)
  from mmm_thread_release_outcomes [OF this mmm_sample_ok(1,2)] show ?thesis unfolding if_P [OF c] .
qed

text \<open>The first commit decides the write epoch of a record: whoever commits or helps to commit later
  leaves it as it is, so all readers agree when the record was written.\<close>

theorem mmm_commit_first_wins:
  assumes "allocated m p" "mm_epoch m + 1 < 2 ^ 64"
  shows "\<exists>m1. mmm_commit_write m p = Inr m1 \<and>
     (\<exists>e. mmm_get_write_epoch m1 p = Inr e \<and> e \<noteq> 0 \<and>
        mmm_help_commit m1 p = Inr m1 \<and>
        (\<exists>m2. mmm_commit_write m1 p = Inr m2 \<and> mmm_get_write_epoch m2 p = Inr e) \<and>
        (case mmm_get_write_epoch m p of Inl _ \<Rightarrow> False
         | Inr e0 \<Rightarrow> e = (if e0 = 0 then mm_epoch m + 1 else e0)))"
proof -
  obtain h where h: "mm_cells m ! p = Some h" "p < length (mm_cells m)"
    using assms(1) by (auto simp: allocated_def)
  have "wrap64 (mm_epoch m + 1) = mm_epoch m + 1" using assms(2) by (rule wrap64_id)
  with h show ?thesis
    by (cases "mh_write_epoch h = 0")
       (simp_all add: mmm_commit_write_def mmm_help_commit_def mmm_get_write_epoch_def mmm_get_header_def
         mmm_next_epoch_def mmm_set_header_def Let_def)
qed

theorem mmm_commit_first_wins_witness:
  "\<exists>m1. mmm_commit_write (mmm_start\<lparr>mm_cells := [Some zero_header]\<rparr>) 0 = Inr m1 \<and>
     mmm_get_write_epoch m1 0 = Inr 2 \<and> mmm_help_commit m1 0 = Inr m1"
proof -
  let ?m = "mmm_start\<lparr>mm_cells := [Some zero_header]\<rparr>"
  have "allocated ?m 0" "mm_epoch ?m + 1 < 2 ^ 64" "mm_epoch ?m = 1" "mmm_get_write_epoch ?m 0 = Inr 0"
    by (simp_all add: allocated_def mmm_start_def HATRACK_EPOCH_FIRST_def mmm_get_write_epoch_def
        mmm_get_header_def zero_header_def)
  with mmm_commit_first_wins [of ?m 0] show ?thesis by auto
qed

text \<open>\<^verbatim>\<open>mmm_alloc\<close> and \<^verbatim>\<open>mmm_alloc_committed\<close> do not store the size of the block, so the size handed to
  \<^verbatim>\<open>hatrack_free\<close> is that of the header alone, whatever was allocated.\<close>

theorem mmm_free_size_of_header:
  "(let (m1, p) = mmm_alloc_committed m sz in
     \<exists>m2. mmm_retire_unused m1 p = Inr m2 \<and> mm_log m2 = mm_log m @ [FreeCall p sizeof_mmm_header]) \<and>
   (let (m1, p) = mmm_alloc m sz in
     \<exists>m2. mmm_retire_unused m1 p = Inr m2 \<and> mm_log m2 = mm_log m @ [FreeCall p sizeof_mmm_header])"
  by (simp add: mmm_alloc_committed_def mmm_alloc_def mmm_zalloc_def mmm_next_epoch_def mmm_set_header_def
      mmm_retire_unused_def mmm_get_header_def zero_header_def Let_def wrap64_def sizeof_mmm_header_def)

end
