(* ===== verification/Swimcap.thy ===== *)
theory Swimcap
  imports Refhat_Simulation Mmm
begin

text \<open>
  \<^verbatim>\<open>src/hatrack/hash/swimcap.c\<close>: one mutex serialises the writers, readers take no lock. Stores
  are cells of the memory manager (\<open>Mmm\<close>): a reader reserves the epoch it reads in, and a migration
  retires the old store, which is freed once no reservation covers it.

  The operations as one thread runs them. The table is extended with what every call passes
  along: the memory manager's variables and the calling thread's record. \<open>ss_cell\<close> is the cell a
  store lives in. As in \<open>Duncecap\<close>, the writers take only the table, blocking on the mutex is \<open>None\<close>
  and a \<^verbatim>\<open>NULL\<close> view is the empty list. Views are the inconsistent ones, the default.
\<close>

section \<open>Definitions\<close>

record swimcap_record =
  sr_item :: ptr
  sr_epoch :: nat

record swimcap_bucket =
  sb_record :: swimcap_record
  sb_hv :: hatrack_hash

record swimcap_store =
  ss_cell :: nat
  ss_last_slot :: nat
  ss_threshold :: nat
  ss_used_count :: nat
  ss_buckets :: "swimcap_bucket list"

record swimcap =
  sc_store_current :: swimcap_store
  sc_item_count :: nat
  sc_next_epoch :: nat
  sc_write_mutex :: bool

record swimcap_call = swimcap +
  sc_mmm :: mmm
  sc_thread :: mmm_thread

definition sizeof_swimcap_store :: nat where
  "sizeof_swimcap_store = 32"

definition sizeof_swimcap_bucket :: nat where
  "sizeof_swimcap_bucket = 32"

definition sizeof_swimcap :: nat where
  "sizeof_swimcap = 64"

definition zero_swimcap_bucket :: swimcap_bucket where
  "zero_swimcap_bucket = \<lparr>sb_record = \<lparr>sr_item = 0, sr_epoch = 0\<rparr>, sb_hv = 0\<rparr>"

text \<open>The mutex, as the thread that holds or wants it sees it.\<close>

definition swimcap_lock :: "swimcap_call \<Rightarrow> swimcap_call option" where
  "swimcap_lock self = (if sc_write_mutex self then None else Some (self\<lparr>sc_write_mutex := True\<rparr>))"

definition swimcap_unlock :: "swimcap_call \<Rightarrow> swimcap_call" where
  "swimcap_unlock self = self\<lparr>sc_write_mutex := False\<rparr>"

definition swimcap_store_new :: "mmm \<Rightarrow> nat \<Rightarrow> mmm \<times> swimcap_store" where
  "swimcap_store_new m sz =
     (let alloc_len = wrap64 (sizeof_swimcap_store + wrap64 (sz * sizeof_swimcap_bucket));
          (m1, cell) = mmm_alloc_committed m alloc_len in
      (m1, \<lparr>ss_cell = cell,
            ss_last_slot = wrap64 (sz + 2 ^ 64 - 1),
            ss_threshold = hatrack_compute_table_threshold sz,
            ss_used_count = 0,
            ss_buckets = replicate ((alloc_len - sizeof_swimcap_store) div sizeof_swimcap_bucket)
              zero_swimcap_bucket\<rparr>))"

definition swimcap_init_size :: "mmm \<Rightarrow> mmm_thread \<Rightarrow> int \<Rightarrow> swimcap_call outcome" where
  "swimcap_init_size m thread sz =
     (if sz < 0 \<or> 64 < sz then Inl (Panic ''invalid size in swimcap_init_size'')
      else if sz < int HATRACK_MIN_SIZE_LOG then Inl (Panic ''invalid size in swimcap_init_size'')
      else if 31 \<le> sz then Inl BadShift
      else let (m1, store) = swimcap_store_new m (push_bit (nat sz) 1) in
        Inr \<lparr>sc_store_current = store,
             sc_item_count = 0,
             sc_next_epoch = 1,
             sc_write_mutex = False,
             sc_mmm = m1,
             sc_thread = thread\<rparr>)"

definition swimcap_init :: "mmm \<Rightarrow> mmm_thread \<Rightarrow> swimcap_call outcome" where
  "swimcap_init m thread = swimcap_init_size m thread (int HATRACK_MIN_SIZE_LOG)"

definition swimcap_new :: "mmm \<Rightarrow> mmm_thread \<Rightarrow> swimcap_call outcome" where
  "swimcap_new m thread = swimcap_init m thread"

definition swimcap_new_size :: "mmm \<Rightarrow> mmm_thread \<Rightarrow> int \<Rightarrow> swimcap_call outcome" where
  "swimcap_new_size m thread sz = swimcap_init_size m thread sz"

text \<open>
  Deletion frees the store through the memory manager, whose log has the blocks freed; then
  the table itself.
\<close>

definition swimcap_cleanup :: "swimcap_call \<Rightarrow> mmm outcome" where
  "swimcap_cleanup self = mmm_retire_unused (sc_mmm self) (ss_cell (sc_store_current self))"

definition swimcap_delete :: "swimcap_call \<Rightarrow> (mmm \<times> nat) outcome" where
  "swimcap_delete self = and_then (swimcap_cleanup self) (\<lambda>m. Inr (m, sizeof_swimcap))"

definition swimcap_len :: "swimcap_call \<Rightarrow> nat" where
  "swimcap_len self = sc_item_count self"

text \<open>The probe loop of the operations on one key.\<close>

definition swimcap_find :: "swimcap_store \<Rightarrow> hatrack_hash \<Rightarrow> probe_end outcome" where
  "swimcap_find self hv =
     probe (map sb_hv (ss_buckets self)) (ss_last_slot self) hv
       (hatrack_bucket_index hv (ss_last_slot self)) (ss_last_slot self + 1)"

definition swimcap_store_get :: "swimcap_store \<Rightarrow> hatrack_hash \<Rightarrow> (ptr \<times> bool) outcome" where
  "swimcap_store_get self hv =
     and_then (swimcap_find self hv) (\<lambda>r. case r of
       Hit i \<Rightarrow>
         (let record = sb_record (ss_buckets self ! i) in
          if sr_epoch record \<noteq> 0 then Inr (sr_item record, True) else Inr (0, False))
     | Vacant i \<Rightarrow> Inr (0, False))"

text \<open>A reader reserves the current epoch for the time it reads.\<close>

definition swimcap_reading ::
  "(swimcap_store \<Rightarrow> 'a outcome) \<Rightarrow> swimcap_call \<Rightarrow> (swimcap_call \<times> 'a) outcome" where
  "swimcap_reading body self =
     and_then (mmm_start_basic_op (sc_mmm self) (sc_thread self)) (\<lambda>m1.
       and_then (body (sc_store_current self)) (\<lambda>ret.
         and_then (mmm_end_op m1 (sc_thread self)) (\<lambda>m2. Inr (self\<lparr>sc_mmm := m2\<rparr>, ret))))"

definition swimcap_get :: "swimcap_call \<Rightarrow> hatrack_hash \<Rightarrow> (swimcap_call \<times> ptr \<times> bool) outcome" where
  "swimcap_get self hv = swimcap_reading (\<lambda>store. swimcap_store_get store hv) self"

text \<open>\<^verbatim>\<open>atomic_store(&cur->record, record)\<close> into bucket \<open>i\<close> of the current store.\<close>

definition swimcap_store_record :: "swimcap_call \<Rightarrow> nat \<Rightarrow> swimcap_record \<Rightarrow> swimcap_call" where
  "swimcap_store_record table i record = table\<lparr>sc_store_current := (sc_store_current table)
     \<lparr>ss_buckets := (ss_buckets (sc_store_current table))
        [i := (ss_buckets (sc_store_current table) ! i)\<lparr>sb_record := record\<rparr>]\<rparr>\<rparr>"

text \<open>The writes that reserve bucket \<open>i\<close> in \<^verbatim>\<open>swimcap_store_put\<close> and \<^verbatim>\<open>swimcap_store_add\<close>.\<close>

definition swimcap_reserve :: "swimcap_call \<Rightarrow> nat \<Rightarrow> hatrack_hash \<Rightarrow> ptr \<Rightarrow> swimcap_call" where
  "swimcap_reserve table i hv item =
     table\<lparr>sc_store_current := (sc_store_current table)
          \<lparr>ss_used_count := wrap64 (ss_used_count (sc_store_current table) + 1),
           ss_buckets := (ss_buckets (sc_store_current table))
             [i := (ss_buckets (sc_store_current table) ! i)
                \<lparr>sb_hv := hv, sb_record := \<lparr>sr_item = item, sr_epoch = sc_next_epoch table\<rparr>\<rparr>]\<rparr>,
         sc_item_count := wrap64 (sc_item_count table + 1),
         sc_next_epoch := wrap64 (sc_next_epoch table + 1)\<rparr>"

definition swimcap_place ::
  "nat \<Rightarrow> nat \<Rightarrow> swimcap_bucket list \<Rightarrow> swimcap_bucket \<Rightarrow> swimcap_bucket list outcome" where
  "swimcap_place new_last_slot new_size new_buckets cur =
     and_then (probe_free (map sb_hv new_buckets) new_last_slot
                 (hatrack_bucket_index (sb_hv cur) new_last_slot) new_size)
       (\<lambda>r. case r of None \<Rightarrow> Inr new_buckets
        | Some i \<Rightarrow> Inr (new_buckets[i := (new_buckets ! i)
                      \<lparr>sb_hv := sb_hv cur, sb_record := sb_record cur\<rparr>]))"

fun swimcap_migrate_loop ::
  "nat \<Rightarrow> nat \<Rightarrow> swimcap_bucket list \<Rightarrow> swimcap_bucket list \<Rightarrow> swimcap_bucket list outcome" where
  "swimcap_migrate_loop new_last_slot new_size [] new_buckets = Inr new_buckets"
| "swimcap_migrate_loop new_last_slot new_size (cur # cs) new_buckets =
     (if sr_epoch (sb_record cur) = 0
      then swimcap_migrate_loop new_last_slot new_size cs new_buckets
      else and_then (swimcap_place new_last_slot new_size new_buckets cur)
             (swimcap_migrate_loop new_last_slot new_size cs))"

text \<open>The new store a migration builds, before it is published.\<close>

definition swimcap_copy :: "swimcap_call \<Rightarrow> (mmm \<times> swimcap_store) outcome" where
  "swimcap_copy self =
     (let cur_store = sc_store_current self;
          cur_last_slot = ss_last_slot cur_store;
          new_size = hatrack_new_size cur_last_slot (wrap64 (swimcap_len self + 1));
          new_last_slot = wrap64 (new_size + 2 ^ 64 - 1);
          (m1, new_store) = swimcap_store_new (sc_mmm self) new_size
      in if length (ss_buckets cur_store) \<le> cur_last_slot then Inl OutOfBounds
         else and_then (swimcap_migrate_loop new_last_slot new_size
                     (take (cur_last_slot + 1) (ss_buckets cur_store)) (ss_buckets new_store))
           (\<lambda>new_buckets. Inr (m1, new_store
              \<lparr>ss_buckets := new_buckets, ss_used_count := sc_item_count self\<rparr>)))"

definition swimcap_migrate :: "swimcap_call \<Rightarrow> swimcap_call outcome" where
  "swimcap_migrate self =
     and_then (swimcap_copy self) (\<lambda>(m1, new_store).
       and_then (mmm_retire m1 (sc_thread self) (ss_cell (sc_store_current self))) (\<lambda>(m2, thread2).
         Inr (self\<lparr>sc_store_current := new_store, sc_mmm := m2, sc_thread := thread2\<rparr>)))"

partial_function (option) swimcap_store_put ::
  "swimcap_call \<Rightarrow> hatrack_hash \<Rightarrow> ptr \<Rightarrow> (swimcap_call \<times> ptr \<times> bool) outcome option" where
  "swimcap_store_put table hv item =
     (let self = sc_store_current table in
      case swimcap_find self hv of
        Inl e \<Rightarrow> Some (Inl e)
      | Inr (Hit i) \<Rightarrow>
          (let record = sb_record (ss_buckets self ! i) in
           if sr_epoch record = 0
           then Some (Inr (swimcap_store_record
                  (table\<lparr>sc_next_epoch := wrap64 (sc_next_epoch table + 1),
                       sc_item_count := wrap64 (sc_item_count table + 1)\<rparr>)
                  i (record\<lparr>sr_epoch := sc_next_epoch table, sr_item := item\<rparr>), 0, False))
           else Some (Inr (swimcap_store_record table i (record\<lparr>sr_item := item\<rparr>),
                  sr_item record, True)))
      | Inr (Vacant i) \<Rightarrow>
          (if wrap64 (ss_used_count self + 1) = ss_threshold self
           then (case swimcap_migrate table of
                   Inl e \<Rightarrow> Some (Inl e)
                 | Inr table' \<Rightarrow> swimcap_store_put table' hv item)
           else Some (Inr (swimcap_reserve table i hv item, 0, False))))"

definition swimcap_store_replace ::
  "swimcap_call \<Rightarrow> hatrack_hash \<Rightarrow> ptr \<Rightarrow> (swimcap_call \<times> ptr \<times> bool) outcome" where
  "swimcap_store_replace table hv item =
     (let self = sc_store_current table in
      and_then (swimcap_find self hv) (\<lambda>r. case r of
        Hit i \<Rightarrow>
          (let record = sb_record (ss_buckets self ! i) in
           if sr_epoch record = 0 then Inr (table, 0, False)
           else Inr (swimcap_store_record table i (record\<lparr>sr_item := item\<rparr>), sr_item record, True))
      | Vacant i \<Rightarrow> Inr (table, 0, False)))"

partial_function (option) swimcap_store_add ::
  "swimcap_call \<Rightarrow> hatrack_hash \<Rightarrow> ptr \<Rightarrow> (swimcap_call \<times> bool) outcome option" where
  "swimcap_store_add table hv item =
     (let self = sc_store_current table in
      case swimcap_find self hv of
        Inl e \<Rightarrow> Some (Inl e)
      | Inr (Hit i) \<Rightarrow>
          (let record = sb_record (ss_buckets self ! i) in
           if sr_epoch record \<noteq> 0 then Some (Inr (table, False))
           else Some (Inr (swimcap_store_record
                  (table\<lparr>sc_next_epoch := wrap64 (sc_next_epoch table + 1),
                       sc_item_count := wrap64 (sc_item_count table + 1)\<rparr>)
                  i (record\<lparr>sr_item := item, sr_epoch := sc_next_epoch table\<rparr>), True)))
      | Inr (Vacant i) \<Rightarrow>
          (if wrap64 (ss_used_count self + 1) = ss_threshold self
           then (case swimcap_migrate table of
                   Inl e \<Rightarrow> Some (Inl e)
                 | Inr table' \<Rightarrow> swimcap_store_add table' hv item)
           else Some (Inr (swimcap_reserve table i hv item, True))))"

definition swimcap_store_remove :: "swimcap_call \<Rightarrow> hatrack_hash \<Rightarrow> (swimcap_call \<times> ptr \<times> bool) outcome" where
  "swimcap_store_remove table hv =
     (let self = sc_store_current table in
      and_then (swimcap_find self hv) (\<lambda>r. case r of
        Hit i \<Rightarrow>
          (let record = sb_record (ss_buckets self ! i) in
           if sr_epoch record = 0 then Inr (table, 0, False)
           else Inr ((swimcap_store_record table i (record\<lparr>sr_epoch := 0\<rparr>))
                  \<lparr>sc_item_count := wrap64 (sc_item_count table + 2 ^ 64 - 1)\<rparr>,
                sr_item record, True))
      | Vacant i \<Rightarrow> Inr (table, 0, False)))"

text \<open>The writers hold the mutex for the whole operation.\<close>

definition swimcap_locked ::
  "(swimcap_call \<Rightarrow> (swimcap_call \<times> 'a) outcome option) \<Rightarrow> swimcap_call \<Rightarrow> (swimcap_call \<times> 'a) outcome option" where
  "swimcap_locked body self =
     Option.bind (swimcap_lock self) (\<lambda>self.
       map_option (\<lambda>r. and_then r (\<lambda>(self, ret). Inr (swimcap_unlock self, ret))) (body self))"

definition swimcap_put ::
  "swimcap_call \<Rightarrow> hatrack_hash \<Rightarrow> ptr \<Rightarrow> (swimcap_call \<times> ptr \<times> bool) outcome option" where
  "swimcap_put self hv item = swimcap_locked (\<lambda>self. swimcap_store_put self hv item) self"

definition swimcap_replace ::
  "swimcap_call \<Rightarrow> hatrack_hash \<Rightarrow> ptr \<Rightarrow> (swimcap_call \<times> ptr \<times> bool) outcome option" where
  "swimcap_replace self hv item =
     swimcap_locked (\<lambda>self. Some (swimcap_store_replace self hv item)) self"

definition swimcap_add ::
  "swimcap_call \<Rightarrow> hatrack_hash \<Rightarrow> ptr \<Rightarrow> (swimcap_call \<times> bool) outcome option" where
  "swimcap_add self hv item = swimcap_locked (\<lambda>self. swimcap_store_add self hv item) self"

definition swimcap_remove ::
  "swimcap_call \<Rightarrow> hatrack_hash \<Rightarrow> (swimcap_call \<times> ptr \<times> bool) outcome option" where
  "swimcap_remove self hv = swimcap_locked (\<lambda>self. Some (swimcap_store_remove self hv)) self"

text \<open>
  The view of a store: every record with an epoch, in a buffer of one entry per bucket that is
  cut to the number of entries found, and that number.
\<close>

definition swimcap_store_view :: "swimcap_store \<Rightarrow> bool \<Rightarrow> (hatrack_view list \<times> nat) outcome" where
  "swimcap_store_view store srt =
     (if length (ss_buckets store) \<le> ss_last_slot store then Inl OutOfBounds
      else let view = map (\<lambda>cur. \<lparr>view_item = sr_item (sb_record cur),
                 sort_epoch = of_nat (sr_epoch (sb_record cur))\<rparr>)
             (filter (\<lambda>cur. sr_epoch (sb_record cur) \<noteq> 0)
               (take (ss_last_slot store + 1) (ss_buckets store)));
             count = length view
           in if count = 0 then Inr ([], 0)
              else Inr (if srt then qsort hatrack_quicksort_cmp view else view, count))"

definition swimcap_view ::
  "swimcap_call \<Rightarrow> bool \<Rightarrow> (swimcap_call \<times> hatrack_view list \<times> nat) outcome" where
  "swimcap_view self srt = swimcap_reading (\<lambda>store. swimcap_store_view store srt) self"

fun freed_sizes :: "mmm_event list \<Rightarrow> nat list" where
  "freed_sizes [] = []"
| "freed_sizes (FreeCall p n # es) = n # freed_sizes es"
| "freed_sizes (CleanupCall f p aux # es) = freed_sizes es"

text \<open>The calls of a program's first thread.\<close>

definition swimcap_thread :: "(mmm \<times> mmm_thread) outcome" where
  "swimcap_thread = mmm_thread_acquire mmm_start mmm_thread_zero"

definition swimcap_vtable :: "swimcap_call hatrack_vtable" where
  "swimcap_vtable = \<lparr>
     vt_init = and_then swimcap_thread (\<lambda>(m, thread). swimcap_init m thread),
     vt_init_sz = (\<lambda>sz. and_then swimcap_thread (\<lambda>(m, thread). swimcap_init_size m thread sz)),
     vt_get = (\<lambda>t hv. Some (swimcap_get t hv)),
     vt_put = swimcap_put,
     vt_replace = swimcap_replace,
     vt_add = swimcap_add,
     vt_remove = swimcap_remove,
     vt_delete = (\<lambda>t. case swimcap_delete t of Inl e \<Rightarrow> []
        | Inr (m, sz) \<Rightarrow> freed_sizes (drop (length (mm_log (sc_mmm t))) (mm_log m)) @ [sz]),
     vt_len = swimcap_len,
     vt_view = (\<lambda>t srt. Some (swimcap_view t srt))\<rparr>"

section \<open>The table as a reference table\<close>

definition swimcap_bucket_refhat :: "swimcap_bucket \<Rightarrow> refhat_bucket" where
  "swimcap_bucket_refhat b =
     \<lparr>rb_hv = sb_hv b, rb_item = sr_item (sb_record b), rb_epoch = sr_epoch (sb_record b)\<rparr>"

definition swimcap_refhat :: "swimcap_call \<Rightarrow> refhat" where
  "swimcap_refhat t = \<lparr>
     rh_last_slot = ss_last_slot (sc_store_current t),
     rh_threshold = ss_threshold (sc_store_current t),
     rh_used_count = ss_used_count (sc_store_current t),
     rh_item_count = sc_item_count t,
     rh_buckets = map swimcap_bucket_refhat (ss_buckets (sc_store_current t)),
     rh_buckets_size = (ss_last_slot (sc_store_current t) + 1) * sizeof_swimcap_bucket,
     rh_next_epoch = sc_next_epoch t\<rparr>"

text \<open>
  The memory of the table: the current store's cell is allocated and not retired, and the memory
  manager is in order for the thread. The epoch of the memory manager runs
  at most \<open>k\<close> ahead of the insertions, as every store but the first is made for one.
\<close>

definition swimcap_mem :: "nat \<Rightarrow> swimcap_call \<Rightarrow> bool" where
  "swimcap_mem k t \<longleftrightarrow>
     mmm_ok (sc_mmm t) (sc_thread t) \<and>
     allocated (sc_mmm t) (ss_cell (sc_store_current t)) \<and>
     ss_cell (sc_store_current t) \<notin> set (mt_retire_list (sc_thread t)) \<and>
     (\<forall>p. allocated (sc_mmm t) p \<longrightarrow> p = ss_cell (sc_store_current t) \<or> p \<in> set (mt_retire_list (sc_thread t))) \<and>
     mm_epoch (sc_mmm t) \<le> sc_next_epoch t + k"

definition swimcap_idle :: "swimcap_call \<Rightarrow> bool" where
  "swimcap_idle t \<longleftrightarrow> \<not> sc_write_mutex t \<and> swimcap_mem 1 t"

text \<open>The table apart from its buckets and counters.\<close>

definition swimcap_env :: "swimcap_call \<Rightarrow> mmm \<times> mmm_thread \<times> nat \<times> bool" where
  "swimcap_env t = (sc_mmm t, sc_thread t, ss_cell (sc_store_current t), sc_write_mutex t)"

lemma swimcap_mem_env:
  assumes "swimcap_mem k t" "swimcap_env t' = swimcap_env t" "sc_next_epoch t + k \<le> sc_next_epoch t' + k'"
  shows "swimcap_mem k' t'"
  using assms by (simp add: swimcap_mem_def swimcap_env_def)

lemma swimcap_refhat_sel [simp]:
  "rh_last_slot (swimcap_refhat t) = ss_last_slot (sc_store_current t)"
  "rh_threshold (swimcap_refhat t) = ss_threshold (sc_store_current t)"
  "rh_used_count (swimcap_refhat t) = ss_used_count (sc_store_current t)"
  "rh_item_count (swimcap_refhat t) = sc_item_count t"
  "rh_buckets (swimcap_refhat t) = map swimcap_bucket_refhat (ss_buckets (sc_store_current t))"
  "rh_next_epoch (swimcap_refhat t) = sc_next_epoch t"
  by (simp_all add: swimcap_refhat_def)

lemma swimcap_bucket_sel [simp]:
  "rb_hv (swimcap_bucket_refhat b) = sb_hv b"
  "rb_item (swimcap_bucket_refhat b) = sr_item (sb_record b)"
  "rb_epoch (swimcap_bucket_refhat b) = sr_epoch (sb_record b)"
  by (simp_all add: swimcap_bucket_refhat_def)

lemma swimcap_hvs [simp]: "map rb_hv (map swimcap_bucket_refhat bs) = map sb_hv bs"
  by simp

lemma swimcap_refhat_mutex [simp]: "swimcap_refhat (t\<lparr>sc_write_mutex := b\<rparr>) = swimcap_refhat t"
  by (simp add: swimcap_refhat_def)

lemma swimcap_refhat_counts [simp]:
  "swimcap_refhat (t\<lparr>sc_item_count := n\<rparr>) = (swimcap_refhat t)\<lparr>rh_item_count := n\<rparr>"
  "swimcap_refhat (t\<lparr>sc_next_epoch := n\<rparr>) = (swimcap_refhat t)\<lparr>rh_next_epoch := n\<rparr>"
  by (simp_all add: swimcap_refhat_def)

lemma swimcap_find_refhat:
  "swimcap_find (sc_store_current t) hv = refhat_find (swimcap_refhat t) hv"
  by (simp add: swimcap_find_def refhat_find_def comp_def)

section \<open>Each operation simulates the reference operation\<close>

text \<open>The three writes.\<close>

lemma swimcap_store_record_refhat:
  assumes "i < length (ss_buckets (sc_store_current t))"
  shows "swimcap_refhat (swimcap_store_record t i r) = (swimcap_refhat t)
     \<lparr>rh_buckets := (rh_buckets (swimcap_refhat t))
       [i := (rh_buckets (swimcap_refhat t) ! i)\<lparr>rb_item := sr_item r, rb_epoch := sr_epoch r\<rparr>]\<rparr>"
  using assms
  by (simp add: swimcap_refhat_def swimcap_store_record_def map_update swimcap_bucket_refhat_def)

lemma swimcap_reserve_refhat:
  assumes "i < length (ss_buckets (sc_store_current t))"
  shows "swimcap_refhat (swimcap_reserve t i hv v) = refhat_reserve (swimcap_refhat t) i hv v"
  using assms
  by (simp add: swimcap_refhat_def swimcap_reserve_def refhat_reserve_def map_update
      swimcap_bucket_refhat_def)

lemma swimcap_write_frame [simp]:
  "swimcap_env (swimcap_store_record t i r) = swimcap_env t"
  "swimcap_env (swimcap_reserve t i hv v) = swimcap_env t"
  "swimcap_env (t\<lparr>sc_item_count := n\<rparr>) = swimcap_env t"
  "swimcap_env (t\<lparr>sc_next_epoch := n\<rparr>) = swimcap_env t"
  "sc_next_epoch (swimcap_store_record t i r) = sc_next_epoch t"
  "sc_next_epoch (swimcap_reserve t i hv v) = wrap64 (sc_next_epoch t + 1)"
  by (simp_all add: swimcap_store_record_def swimcap_reserve_def swimcap_env_def)

lemma swimcap_get_sim:
  assumes "refhat_get (swimcap_refhat t) hv = Inr x"
  shows "swimcap_store_get (sc_store_current t) hv = Inr x"
  using assms
  by (cases rule: refhat_find_ends [of "swimcap_refhat t" hv])
     (auto simp: swimcap_store_get_def refhat_get_def swimcap_find_refhat Let_def split: if_splits)

lemma swimcap_replace_sim:
  assumes "refhat_replace (swimcap_refhat t) hv v = Inr (r, x)"
  shows "\<exists>t'. swimcap_store_replace t hv v = Inr (t', x) \<and> swimcap_refhat t' = r \<and> swimcap_env t' = swimcap_env t \<and>
     sc_next_epoch t' = sc_next_epoch t"
  using assms
  by (cases rule: refhat_find_ends [of "swimcap_refhat t" hv])
     (auto simp: swimcap_store_replace_def refhat_replace_def swimcap_find_refhat Let_def
       swimcap_store_record_refhat swimcap_bucket_refhat_def refhat_set_item_def split: if_splits)

lemma swimcap_remove_sim:
  assumes "refhat_remove (swimcap_refhat t) hv = Inr (r, x)"
  shows "\<exists>t'. swimcap_store_remove t hv = Inr (t', x) \<and> swimcap_refhat t' = r \<and> swimcap_env t' = swimcap_env t \<and>
     sc_next_epoch t' = sc_next_epoch t"
  using assms
  by (cases rule: refhat_find_ends [of "swimcap_refhat t" hv])
     (auto simp: swimcap_store_remove_def refhat_remove_def swimcap_find_refhat Let_def
       swimcap_store_record_refhat swimcap_bucket_refhat_def split: if_splits)

text \<open>
  Migration. A bucket with no hash value has no record, so skipping on the epoch alone, as
  \<^verbatim>\<open>swimcap_migrate\<close> does, skips the same buckets as the reference.
\<close>

lemma swimcap_place_refhat:
  "map_sum (\<lambda>e. e) (map swimcap_bucket_refhat) (swimcap_place ls n nb cur) =
     refhat_place ls n (map swimcap_bucket_refhat nb) (swimcap_bucket_refhat cur)"
proof -
  have "map swimcap_bucket_refhat
      (nb[i := (nb ! i)\<lparr>sb_hv := sb_hv cur, sb_record := sb_record cur\<rparr>]) =
    (map swimcap_bucket_refhat nb)[i := swimcap_bucket_refhat cur]" for i
    by (simp add: map_update swimcap_bucket_refhat_def)
  then show ?thesis
    by (simp add: swimcap_place_def refhat_place_def comp_def and_then_def split: sum.split option.split)
qed

lemma swimcap_migrate_loop_refhat:
  assumes "\<And>b. b \<in> set cs \<Longrightarrow> sb_hv b = 0 \<Longrightarrow> sr_epoch (sb_record b) = 0"
  shows "map_sum (\<lambda>e. e) (map swimcap_bucket_refhat) (swimcap_migrate_loop ls n cs nb) =
     refhat_migrate_loop ls n (map swimcap_bucket_refhat cs) (map swimcap_bucket_refhat nb)"
  using assms
proof (induction cs arbitrary: nb)
  case (Cons c cs)
  show ?case
  proof (cases "sr_epoch (sb_record c) = 0")
    case False
    then have "sb_hv c \<noteq> 0" using Cons.prems [of c] by auto
    moreover have "map_sum (\<lambda>e. e) (map swimcap_bucket_refhat) (swimcap_migrate_loop ls n cs nb') =
        refhat_migrate_loop ls n (map swimcap_bucket_refhat cs) (map swimcap_bucket_refhat nb')" for nb'
      by (rule Cons.IH) (use Cons.prems in auto)
    ultimately show ?thesis
      using False by (cases "swimcap_place ls n nb c") (simp_all flip: swimcap_place_refhat)
  qed (use Cons in simp)
qed simp

lemma swimcap_store_new_refhat:
  assumes n: "0 < n" "n \<le> 2 ^ 58" and st: "swimcap_store_new m n = (m1, st)"
  shows "map swimcap_bucket_refhat (ss_buckets st) = zalloc_buckets (wrap64 (n * sizeof_refhat_bucket))"
    "(ss_last_slot st + 1) * sizeof_swimcap_bucket = wrap64 (n * sizeof_refhat_bucket)"
    "ss_last_slot st = wrap64 (n + 2 ^ 64 - 1)" "ss_threshold st = hatrack_compute_table_threshold n"
    "ss_used_count st = 0" "ss_cell st = length (mm_cells m)"
    "m1 = fst (mmm_alloc_committed m 0)"
proof -
  have "n * 32 < 2 ^ 64" "32 + n * 32 < 2 ^ 64" using n by simp_all
  then have w: "wrap64 (n * 32) = n * 32" "wrap64 (32 + n * 32) = 32 + n * 32"
    by (simp_all only: wrap64_id)
  have last: "wrap64 (n + 2 ^ 64 - 1) = n - 1" using n by (intro wrap64_pred) simp_all
  have eq: "st = \<lparr>ss_cell = length (mm_cells m), ss_last_slot = wrap64 (n + 2 ^ 64 - 1),
      ss_threshold = hatrack_compute_table_threshold n, ss_used_count = 0,
      ss_buckets = replicate n zero_swimcap_bucket\<rparr>" "m1 = fst (mmm_alloc_committed m 0)"
    using st
    by (simp_all add: swimcap_store_new_def Let_def mmm_alloc_committed_eq sizeof_swimcap_store_def
        sizeof_swimcap_bucket_def w)
  then show "map swimcap_bucket_refhat (ss_buckets st) = zalloc_buckets (wrap64 (n * sizeof_refhat_bucket))"
    "ss_last_slot st = wrap64 (n + 2 ^ 64 - 1)" "ss_threshold st = hatrack_compute_table_threshold n"
    "ss_used_count st = 0" "ss_cell st = length (mm_cells m)" "m1 = fst (mmm_alloc_committed m 0)"
    by (simp_all add: sizeof_refhat_bucket_def w zalloc_buckets_def
        zero_bucket_def zero_swimcap_bucket_def swimcap_bucket_refhat_def)
  have "ss_last_slot st = n - 1" using eq(1) last by simp
  then show "(ss_last_slot st + 1) * sizeof_swimcap_bucket = wrap64 (n * sizeof_refhat_bucket)"
    using n by (simp add: sizeof_refhat_bucket_def sizeof_swimcap_bucket_def w)
qed

lemma swimcap_copy_sim:
  assumes inv: "refhat_inv (swimcap_refhat t)"
    and ref: "refhat_migrate (swimcap_refhat t) = Inr r"
  obtains st where "swimcap_copy t = Inr (fst (mmm_alloc_committed (sc_mmm t) 0), st)"
    "ss_cell st = length (mm_cells (sc_mmm t))"
    "swimcap_refhat (t\<lparr>sc_store_current := st\<rparr>) = r"
proof -
  define n where "n = hatrack_new_size (ss_last_slot (sc_store_current t)) (wrap64 (sc_item_count t + 1))"
  have n: "0 < n" "n \<le> 2 ^ 58" using refhat_new_size_bound [OF inv] by (simp_all add: n_def)
  obtain m1 ns where ns: "swimcap_store_new (sc_mmm t) n = (m1, ns)" by fastforce
  note new = swimcap_store_new_refhat [OF n ns]
  let ?cs = "take (ss_last_slot (sc_store_current t) + 1) (ss_buckets (sc_store_current t))"
  have "sr_epoch (sb_record b) = 0" if "b \<in> set ?cs" "sb_hv b = 0" for b
    using refhat_invD(4) [OF inv, of "swimcap_bucket_refhat b"] that by (auto dest: in_set_takeD)
  from swimcap_migrate_loop_refhat [OF this, of ?cs _ n "ss_buckets ns"]
  have loop: "refhat_migrate_loop ls n (map swimcap_bucket_refhat ?cs)
      (zalloc_buckets (wrap64 (n * sizeof_refhat_bucket))) =
    map_sum (\<lambda>e. e) (map swimcap_bucket_refhat)
      (swimcap_migrate_loop ls n ?cs (ss_buckets ns))" for ls
    by (simp add: new)
  from ref have len: "\<not> length (ss_buckets (sc_store_current t)) \<le> ss_last_slot (sc_store_current t)"
    by (auto simp: refhat_migrate_def Let_def split: if_splits)
  note fold_n = n_def [symmetric]
  have ref': "refhat_migrate (swimcap_refhat t) =
      and_then (refhat_migrate_loop (wrap64 (n + 2 ^ 64 - 1)) n (map swimcap_bucket_refhat ?cs)
          (zalloc_buckets (wrap64 (n * sizeof_refhat_bucket))))
        (\<lambda>nb. Inr ((swimcap_refhat t)\<lparr>rh_used_count := sc_item_count t, rh_buckets := nb,
            rh_buckets_size := wrap64 (n * sizeof_refhat_bucket),
            rh_last_slot := wrap64 (n + 2 ^ 64 - 1),
            rh_threshold := hatrack_compute_table_threshold n\<rparr>))"
    using len
    by (simp only: refhat_migrate_def Let_def swimcap_refhat_sel length_map if_False take_map fold_n)
  then obtain nb where nb: "swimcap_migrate_loop (wrap64 (n + 2 ^ 64 - 1)) n ?cs (ss_buckets ns) = Inr nb"
    using ref unfolding loop
    by (cases "swimcap_migrate_loop (wrap64 (n + 2 ^ 64 - 1)) n ?cs (ss_buckets ns)") simp_all
  let ?st = "ns\<lparr>ss_buckets := nb, ss_used_count := sc_item_count t\<rparr>"
  have "swimcap_copy t = Inr (m1, ?st)"
    using len nb
    by (simp only: swimcap_copy_def swimcap_len_def Let_def if_False fold_n ns prod.case and_then_Inr)
  moreover have "swimcap_refhat (t\<lparr>sc_store_current := ?st\<rparr>) = r"
    using ref unfolding ref' loop nb using new by (auto simp: swimcap_refhat_def)
  ultimately show ?thesis using that [of ?st] new by simp
qed

text \<open>The memory side of a migration: a new cell, and the old store's cell retired.\<close>

lemma swimcap_migrate_sim:
  assumes inv: "refhat_inv (swimcap_refhat t)" and mem: "swimcap_mem 1 t"
    and ref: "refhat_migrate (swimcap_refhat t) = Inr r"
  shows "\<exists>t'. swimcap_migrate t = Inr t' \<and> swimcap_refhat t' = r \<and> swimcap_mem 2 t' \<and>
     sc_next_epoch t' = sc_next_epoch t \<and> sc_write_mutex t' = sc_write_mutex t"
proof -
  let ?old = "ss_cell (sc_store_current t)"
  obtain st where st: "swimcap_copy t = Inr (fst (mmm_alloc_committed (sc_mmm t) 0), st)"
    "ss_cell st = length (mm_cells (sc_mmm t))" "swimcap_refhat (t\<lparr>sc_store_current := st\<rparr>) = r"
    by (rule swimcap_copy_sim [OF inv ref])
  have mem': "mmm_ok (sc_mmm t) (sc_thread t)" "mm_epoch (sc_mmm t) + 1 < 2 ^ 64" "allocated (sc_mmm t) ?old"
    "?old \<notin> set (mt_retire_list (sc_thread t))" and all: "\<And>q. allocated (sc_mmm t) q \<Longrightarrow> q = ?old \<or> q \<in> set (mt_retire_list (sc_thread t))"
    using mem refhat_invD(7) [OF inv] by (simp_all add: swimcap_mem_def epoch_limit_def)
  obtain m1 p m2 th2 where r: "mmm_alloc_committed (sc_mmm t) 0 = (m1, p)"
    "mmm_retire m1 (sc_thread t) ?old = Inr (m2, th2)" "mmm_ok m2 th2" "allocated m2 p"
    "p \<notin> set (mt_retire_list th2)" "mm_epoch m2 = mm_epoch (sc_mmm t) + 1"
    "\<forall>q. allocated m2 q \<longrightarrow> q = p \<or> q \<in> set (mt_retire_list th2) \<or>
       allocated (sc_mmm t) q \<and> q \<noteq> ?old \<and> q \<notin> set (mt_retire_list (sc_thread t))"
    by (rule mmm.replace_ok [where n = 0, OF mem'])
  let ?t = "t\<lparr>sc_store_current := st, sc_mmm := m2, sc_thread := th2\<rparr>"
  have "p = ss_cell st" using r(1) st(2) by (simp add: mmm_alloc_committed_eq)
  then have "swimcap_mem 2 ?t" using r(3-7) mem all by (auto simp: swimcap_mem_def)
  moreover have "swimcap_migrate t = Inr ?t" using st(1) r(1,2) by (simp add: swimcap_migrate_def)
  moreover have "swimcap_refhat ?t = r" using st(3) by (simp add: swimcap_refhat_def)
  ultimately show ?thesis by (intro exI [of _ ?t]) simp
qed

text \<open>
  Insertion. Without a migration one unfolding on each side suffices; a migration leaves room, so
  the call after it is such a case.
\<close>

lemma swimcap_put_room:
  assumes "refhat_find (swimcap_refhat t) hv = Inr (Hit j) \<or>
      wrap64 (ss_used_count (sc_store_current t) + 1) \<noteq> ss_threshold (sc_store_current t)"
    and "refhat_put (swimcap_refhat t) hv v = Some (Inr (r, x))"
    and "refhat_get (swimcap_refhat t) hv = Inr (w, found)"
  shows "\<exists>t'. swimcap_store_put t hv v = Some (Inr (t', x)) \<and> swimcap_refhat t' = r \<and>
     swimcap_env t' = swimcap_env t \<and>
     sc_next_epoch t' = (if found then sc_next_epoch t else wrap64 (sc_next_epoch t + 1))"
  using assms
  by (cases rule: refhat_find_ends [of "swimcap_refhat t" hv])
     (auto simp: swimcap_store_put.simps [of t] refhat_put.simps [of "swimcap_refhat t"] refhat_get_def
       swimcap_find_refhat Let_def swimcap_store_record_refhat swimcap_reserve_refhat
       swimcap_bucket_refhat_def refhat_set_item_def refhat_revive_def
       split: if_splits)

lemma swimcap_add_room:
  assumes "refhat_find (swimcap_refhat t) hv = Inr (Hit j) \<or>
      wrap64 (ss_used_count (sc_store_current t) + 1) \<noteq> ss_threshold (sc_store_current t)"
    and "refhat_add (swimcap_refhat t) hv v = Some (Inr (r, x))"
    and "refhat_get (swimcap_refhat t) hv = Inr (w, found)"
  shows "\<exists>t'. swimcap_store_add t hv v = Some (Inr (t', x)) \<and> swimcap_refhat t' = r \<and>
     swimcap_env t' = swimcap_env t \<and>
     sc_next_epoch t' = (if found then sc_next_epoch t else wrap64 (sc_next_epoch t + 1))"
  using assms
  by (cases rule: refhat_find_ends [of "swimcap_refhat t" hv])
     (auto simp: swimcap_store_add.simps [of t] refhat_add.simps [of "swimcap_refhat t"] refhat_get_def
       swimcap_find_refhat Let_def swimcap_store_record_refhat swimcap_reserve_refhat
       swimcap_bucket_refhat_def refhat_revive_def
       split: if_splits)

lemma swimcap_mem_write:
  assumes "swimcap_mem 1 t" "swimcap_env t' = swimcap_env t" "sc_next_epoch t < 2 ^ 64 - 1"
    "sc_next_epoch t' = (if found then sc_next_epoch t else wrap64 (sc_next_epoch t + 1))"
  shows "swimcap_mem 1 t' \<and> sc_write_mutex t' = sc_write_mutex t"
proof -
  have "sc_next_epoch t \<le> sc_next_epoch t'" using assms(3,4) wrap64_id [of "sc_next_epoch t + 1"] by auto
  then show ?thesis using swimcap_mem_env [OF assms(1,2)] assms(2) by (simp add: swimcap_env_def)
qed

lemma swimcap_mem_migrated:
  assumes "swimcap_mem 2 u" "sc_next_epoch u < 2 ^ 64 - 1" "swimcap_env t' = swimcap_env u"
    "sc_next_epoch t' = wrap64 (sc_next_epoch u + 1)"
  shows "swimcap_mem 1 t' \<and> sc_write_mutex t' = sc_write_mutex u"
proof -
  have "sc_next_epoch t' = sc_next_epoch u + 1" using assms(2,4) wrap64_id [of "sc_next_epoch u + 1"] by simp
  then show ?thesis using swimcap_mem_env [OF assms(1,3), of 1] assms(3) by (simp add: swimcap_env_def)
qed

text \<open>Either there is room for the key, or the table migrates and then there is.\<close>

lemma swimcap_room_cases:
  assumes inv: "refhat_inv (swimcap_refhat t)" and h: "hv \<noteq> 0" and mem: "swimcap_mem 1 t"
  obtains (room) j w found where
      "refhat_find (swimcap_refhat t) hv = Inr (Hit j) \<or>
       wrap64 (ss_used_count (sc_store_current t) + 1) \<noteq> ss_threshold (sc_store_current t)"
      "refhat_get (swimcap_refhat t) hv = Inr (w, found)" "sc_next_epoch t < 2 ^ 64 - 1"
    | (full) i u w where "refhat_find (swimcap_refhat t) hv = Inr (Vacant i)"
      "wrap64 (ss_used_count (sc_store_current t) + 1) = ss_threshold (sc_store_current t)"
      "swimcap_migrate t = Inr u" "refhat_migrate (swimcap_refhat t) = Inr (swimcap_refhat u)"
      "wrap64 (ss_used_count (sc_store_current u) + 1) \<noteq> ss_threshold (sc_store_current u)"
      "refhat_get (swimcap_refhat u) hv = Inr (w, False)"
      "swimcap_mem 2 u" "sc_next_epoch u < 2 ^ 64 - 1" "sc_write_mutex u = sc_write_mutex t"
proof (cases "(\<exists>j. refhat_find (swimcap_refhat t) hv = Inr (Hit j)) \<or>
      wrap64 (ss_used_count (sc_store_current t) + 1) \<noteq> ss_threshold (sc_store_current t)")
  case True
  then show ?thesis
    using room refhat_get_ok [OF inv h] refhat_invD(7) [OF inv]
    by (cases "od_get (refhat_dict (swimcap_refhat t)) hv") (auto simp: epoch_limit_def)
next
  case False
  then have fl: "rh_used_count (swimcap_refhat t) + 1 = rh_threshold (swimcap_refhat t)"
    using refhat_full_iff [OF inv] by simp
  obtain i where i: "refhat_find (swimcap_refhat t) hv = Inr (Vacant i)"
    and get: "od_get (refhat_dict (swimcap_refhat t)) hv = (0, False)"
    using False by (cases rule: refhat_find_cases [OF inv h]) (auto simp: refhat_get_absent)
  obtain m where m: "refhat_migrate (swimcap_refhat t) = Inr m" "refhat_inv m"
    "refhat_dict m = refhat_dict (swimcap_refhat t)" "rh_used_count m + 1 < rh_threshold m"
    by (rule refhat_migrate_ok [OF inv fl])
  obtain u where u: "swimcap_migrate t = Inr u" "swimcap_refhat u = m" "swimcap_mem 2 u"
    "sc_next_epoch u = sc_next_epoch t" "sc_write_mutex u = sc_write_mutex t"
    using swimcap_migrate_sim [OF inv mem m(1)] by blast
  have "wrap64 (ss_used_count (sc_store_current u) + 1) \<noteq> ss_threshold (sc_store_current u)"
    using refhat_full_iff [OF m(2)] m(4) u(2) by auto
  moreover have "refhat_get (swimcap_refhat u) hv = Inr (0, False)"
    using refhat_get_ok [OF m(2) h] get m(3) u(2) by simp
  moreover have "sc_next_epoch u < 2 ^ 64 - 1"
    using refhat_invD(7) [OF inv] u(4) by (simp add: epoch_limit_def)
  ultimately show ?thesis using full [OF i _ u(1)] False u m(1) by auto
qed

lemma swimcap_put_sim:
  assumes inv: "refhat_inv (swimcap_refhat t)" and h: "hv \<noteq> 0" and mem: "swimcap_mem 1 t"
    and put: "refhat_put (swimcap_refhat t) hv v = Some (Inr (r, x))"
  shows "\<exists>t'. swimcap_store_put t hv v = Some (Inr (t', x)) \<and> swimcap_refhat t' = r \<and>
     swimcap_mem 1 t' \<and> sc_write_mutex t' = sc_write_mutex t"
  using inv h mem
proof (cases rule: swimcap_room_cases)
  case (room j w found)
  then show ?thesis
    using swimcap_put_room [OF room(1) put room(2)] swimcap_mem_write [OF mem _ room(3)] by blast
next
  case (full i u w)
  have "swimcap_store_put t hv v = swimcap_store_put u hv v"
    using full(1-3) by (simp add: swimcap_store_put.simps [of t] swimcap_find_refhat)
  moreover have "refhat_put (swimcap_refhat u) hv v = Some (Inr (r, x))"
    using put full(1,2,4) by (simp add: refhat_put.simps [of "swimcap_refhat t"])
  ultimately show ?thesis
    using swimcap_put_room [of u hv _ v r x w False] swimcap_mem_migrated [OF full(7,8)] full(5,6,9) by fastforce
qed

lemma swimcap_add_sim:
  assumes inv: "refhat_inv (swimcap_refhat t)" and h: "hv \<noteq> 0" and mem: "swimcap_mem 1 t"
    and add: "refhat_add (swimcap_refhat t) hv v = Some (Inr (r, x))"
  shows "\<exists>t'. swimcap_store_add t hv v = Some (Inr (t', x)) \<and> swimcap_refhat t' = r \<and>
     swimcap_mem 1 t' \<and> sc_write_mutex t' = sc_write_mutex t"
  using inv h mem
proof (cases rule: swimcap_room_cases)
  case (room j w found)
  then show ?thesis
    using swimcap_add_room [OF room(1) add room(2)] swimcap_mem_write [OF mem _ room(3)] by blast
next
  case (full i u w)
  have "swimcap_store_add t hv v = swimcap_store_add u hv v"
    using full(1-3) by (simp add: swimcap_store_add.simps [of t] swimcap_find_refhat)
  moreover have "refhat_add (swimcap_refhat u) hv v = Some (Inr (r, x))"
    using add full(1,2,4) by (simp add: refhat_add.simps [of "swimcap_refhat t"])
  ultimately show ?thesis
    using swimcap_add_room [of u hv _ v r x w False] swimcap_mem_migrated [OF full(7,8)] full(5,6,9) by fastforce
qed

section \<open>The vtable contract\<close>

lemma swimcap_reading_idle:
  assumes idle: "swimcap_idle t" and body: "body (sc_store_current t) = Inr x"
  shows "\<exists>t'. swimcap_reading body t = Inr (t', x) \<and> swimcap_idle t' \<and> swimcap_refhat t' = swimcap_refhat t"
proof -
  have "mmm_ok (sc_mmm t) (sc_thread t)" using idle by (simp add: swimcap_idle_def swimcap_mem_def)
  then obtain m1 m2 where m: "mmm_start_basic_op (sc_mmm t) (sc_thread t) = Inr m1"
    "mmm_end_op m1 (sc_thread t) = Inr m2" "mmm_ok m2 (sc_thread t)" "allocated m2 = allocated (sc_mmm t)"
    "mm_epoch m2 = mm_epoch (sc_mmm t)"
    by (rule mmm.read_ok)
  then have "swimcap_reading body t = Inr (t\<lparr>sc_mmm := m2\<rparr>, x)" using body by (simp add: swimcap_reading_def)
  moreover have "swimcap_idle (t\<lparr>sc_mmm := m2\<rparr>)" using idle m(3-5) by (simp add: swimcap_idle_def swimcap_mem_def)
  moreover have "swimcap_refhat (t\<lparr>sc_mmm := m2\<rparr>) = swimcap_refhat t" by (simp add: swimcap_refhat_def)
  ultimately show ?thesis by blast
qed

lemma swimcap_locked_idle:
  assumes "swimcap_idle t" "\<exists>u. body (t\<lparr>sc_write_mutex := True\<rparr>) = Some (Inr (u, x)) \<and>
      swimcap_refhat u = r \<and> swimcap_mem 1 u"
  shows "\<exists>t'. swimcap_locked body t = Some (Inr (t', x)) \<and> swimcap_idle t' \<and> swimcap_refhat t' = r"
  using assms
  by (auto simp: swimcap_locked_def swimcap_lock_def swimcap_unlock_def swimcap_idle_def swimcap_mem_def)

lemma swimcap_view_sim:
  assumes inv: "refhat_inv (swimcap_refhat t)"
    and view: "refhat_view (swimcap_refhat t) srt = Inr (view, n)"
  shows "swimcap_store_view (sc_store_current t) srt = Inr (view, n)"
proof -
  let ?bs = "take (ss_last_slot (sc_store_current t) + 1) (ss_buckets (sc_store_current t))"
  let ?g = "\<lambda>cur. \<lparr>view_item = rb_item cur, sort_epoch = of_nat (rb_epoch cur)\<rparr>"
  have "sb_hv b = 0 \<Longrightarrow> sr_epoch (sb_record b) = 0" if "b \<in> set ?bs" for b
    using refhat_invD(4) [OF inv, of "swimcap_bucket_refhat b"] that by (auto dest: in_set_takeD)
  then have live: "filter (\<lambda>b. \<not> (sb_hv b = 0 \<or> sr_epoch (sb_record b) = 0)) ?bs =
      filter (\<lambda>b. sr_epoch (sb_record b) \<noteq> 0) ?bs"
    by (intro filter_cong) auto
  have same: "map ?g (filter (\<lambda>cur. \<not> (rb_hv cur = 0 \<or> rb_epoch cur = 0))
        (map swimcap_bucket_refhat ?bs)) =
      map (\<lambda>cur. \<lparr>view_item = sr_item (sb_record cur), sort_epoch = of_nat (sr_epoch (sb_record cur))\<rparr>)
        (filter (\<lambda>b. sr_epoch (sb_record b) \<noteq> 0) ?bs)"
    unfolding filter_map map_map comp_def swimcap_bucket_sel live ..
  show ?thesis
    using view unfolding refhat_view_def swimcap_store_view_def swimcap_refhat_sel take_map
      unreserved_iff same Let_def by (auto split: if_splits)
qed

lemma swimcap_thread_eq:
  "swimcap_thread = Inr (mmm_start\<lparr>mm_nexttid := 1,
      mm_reservations := (replicate HATRACK_THREADS_MAX 0)[0 := HATRACK_EPOCH_UNRESERVED]\<rparr>,
    mmm_thread_zero\<lparr>mt_initialized := True\<rparr>)"
  by (simp add: swimcap_thread_def mmm_thread_acquire_def mmm_start_def mmm_thread_zero_def mmm_reserve_def
      HATRACK_THREADS_MAX_def wrap64_def)

lemma swimcap_init_size_sim:
  assumes "4 \<le> sz" "sz \<le> 30" "refhat_init_size sz = Inr r"
  shows "\<exists>t. and_then swimcap_thread (\<lambda>(m, thread). swimcap_init_size m thread sz) = Inr t \<and>
     swimcap_idle t \<and> swimcap_refhat t = r"
proof -
  define n where "n = push_bit (nat sz) (1::nat)"
  have n: "0 < n" "n \<le> 2 ^ 58"
    using assms(1,2) power_increasing [of "nat sz" 58 "2::nat"] by (simp_all add: n_def push_bit_eq_mult)
  obtain m th where th: "swimcap_thread = Inr (m, th)" "mm_cells m = []" "mm_epoch m = 1"
    "length (mm_reservations m) = HATRACK_THREADS_MAX" "mt_retire_list th = []" "mt_tid th = 0" "mt_initialized th"
    by (simp add: swimcap_thread_eq mmm_start_def mmm_thread_zero_def HATRACK_EPOCH_FIRST_def)
  obtain m1 st where st: "swimcap_store_new m n = (m1, st)" by fastforce
  note new = swimcap_store_new_refhat [OF n st]
  let ?t = "\<lparr>sc_store_current = st, sc_item_count = 0, sc_next_epoch = 1, sc_write_mutex = False,
      sc_mmm = m1, sc_thread = th\<rparr>"
  have "and_then swimcap_thread (\<lambda>(m, thread). swimcap_init_size m thread sz) = Inr ?t"
    unfolding th(1) using assms(1,2) st [unfolded n_def]
    by (simp add: swimcap_init_size_def HATRACK_MIN_SIZE_LOG_def)
  moreover have "swimcap_idle ?t"
    using th new(6,7)
    by (simp add: swimcap_idle_def swimcap_mem_def mmm_ok_def mmm_alloc_committed_eq allocated_def retire_ok_def
        HATRACK_THREADS_MAX_def wrap64_def)
  moreover have last_slot: "ss_last_slot st = n - 1" using new(3) wrap64_pred [of n] n by simp
  moreover have "swimcap_refhat ?t = r"
    using assms new(1,2,4,5) last_slot
    unfolding refhat_init_size_def Let_def n_def [symmetric]
    by (simp add: swimcap_refhat_def HATRACK_MIN_SIZE_LOG_def)
  ultimately show ?thesis by blast
qed

interpretation swimcap: refhat_simulation swimcap_vtable swimcap_refhat swimcap_idle
proof
  show "\<exists>t. vt_init_sz swimcap_vtable sz = Inr t \<and> swimcap_idle t \<and> swimcap_refhat t = r"
    if "4 \<le> sz" "sz \<le> 30" "refhat_init_size sz = Inr r" for sz r
    using swimcap_init_size_sim [OF that] by (simp add: swimcap_vtable_def)
  show "\<exists>t. vt_init swimcap_vtable = Inr t \<and> swimcap_idle t \<and> swimcap_refhat t = r"
    if "refhat_init = Inr r" for r
    using swimcap_init_size_sim [of 4 r] that
    by (simp add: swimcap_vtable_def swimcap_init_def refhat_init_def HATRACK_MIN_SIZE_LOG_def)
  fix t assume idle: "swimcap_idle t"
  then have mem: "swimcap_mem 1 (t\<lparr>sc_write_mutex := True\<rparr>)"
    by (simp add: swimcap_idle_def swimcap_mem_def)
  show "vt_len swimcap_vtable t = refhat_len (swimcap_refhat t)"
    by (simp add: swimcap_vtable_def swimcap_len_def refhat_len_def)
  fix hv v r
  show "\<exists>t'. vt_get swimcap_vtable t hv = Some (Inr (t', x)) \<and> swimcap_idle t' \<and>
      swimcap_refhat t' = swimcap_refhat t" if "refhat_get (swimcap_refhat t) hv = Inr x" for x
    using swimcap_reading_idle [OF idle, of "\<lambda>store. swimcap_store_get store hv" x] swimcap_get_sim [OF that]
    by (simp add: swimcap_vtable_def swimcap_get_def)
  show "\<exists>t'. vt_view swimcap_vtable t True = Some (Inr (t', view)) \<and> swimcap_idle t' \<and>
      swimcap_refhat t' = swimcap_refhat t"
    if "refhat_inv (swimcap_refhat t)" "refhat_view (swimcap_refhat t) True = Inr view" for view
    using swimcap_reading_idle [OF idle, of "\<lambda>store. swimcap_store_view store True" view]
      swimcap_view_sim [of t True "fst view" "snd view"] that
    by (simp add: swimcap_vtable_def swimcap_view_def)
  show "\<exists>t'. vt_replace swimcap_vtable t hv v = Some (Inr (t', x)) \<and> swimcap_idle t' \<and>
      swimcap_refhat t' = r" if "refhat_replace (swimcap_refhat t) hv v = Inr (r, x)" for x
    unfolding swimcap_vtable_def hatrack_vtable.select_convs swimcap_replace_def
    using swimcap_replace_sim [of "t\<lparr>sc_write_mutex := True\<rparr>" hv v r x] that swimcap_mem_env [OF mem]
    by (intro swimcap_locked_idle [OF idle]) auto
  show "\<exists>t'. vt_remove swimcap_vtable t hv = Some (Inr (t', x)) \<and> swimcap_idle t' \<and>
      swimcap_refhat t' = r" if "refhat_remove (swimcap_refhat t) hv = Inr (r, x)" for x
    unfolding swimcap_vtable_def hatrack_vtable.select_convs swimcap_remove_def
    using swimcap_remove_sim [of "t\<lparr>sc_write_mutex := True\<rparr>" hv r x] that swimcap_mem_env [OF mem]
    by (intro swimcap_locked_idle [OF idle]) auto
  assume inv: "refhat_inv (swimcap_refhat t)" and h: "hv \<noteq> 0"
  then have inv': "refhat_inv (swimcap_refhat (t\<lparr>sc_write_mutex := True\<rparr>))" by simp
  show "\<exists>t'. vt_put swimcap_vtable t hv v = Some (Inr (t', x)) \<and> swimcap_idle t' \<and>
      swimcap_refhat t' = r" if "refhat_put (swimcap_refhat t) hv v = Some (Inr (r, x))" for x
    using swimcap_put_sim [OF inv' h mem, of v r x] that
    by (simp add: swimcap_vtable_def swimcap_put_def) (auto intro!: swimcap_locked_idle [OF idle])
  show "\<exists>t'. vt_add swimcap_vtable t hv v = Some (Inr (t', b)) \<and> swimcap_idle t' \<and>
      swimcap_refhat t' = r" if "refhat_add (swimcap_refhat t) hv v = Some (Inr (r, b))" for b
    using swimcap_add_sim [OF inv' h mem, of v r b] that
    by (simp add: swimcap_vtable_def swimcap_add_def) (auto intro!: swimcap_locked_idle [OF idle])
qed

lemma swimcap_idle_cells:
  "swimcap_idle t \<Longrightarrow> {p. allocated (sc_mmm t) p} = insert (ss_cell (sc_store_current t)) (set (mt_retire_list (sc_thread t)))"
  using mmm.dying_live [of "sc_mmm t" "sc_thread t"] by (auto simp: swimcap_idle_def swimcap_mem_def)

section \<open>Properties\<close>

text \<open>C20: Any sequence of calls through the vtable gives the same answers on a new swimcap as on a
  new reference table, and leaves a swimcap that, bucket for bucket and counter for counter, is
  that reference table, with the mutex free and its memory in order. Migrations leak nothing: every store they replaced has been
  retired, so that the only cells of the memory manager still allocated are the current store and stores on the thread's retire list.\<close>

theorem swimcap_equals_refhat:
  assumes "list_all call_ok cs" "length cs < epoch_limit"
  shows "\<exists>m thread t0 r0 t' as. mmm_thread_acquire mmm_start mmm_thread_zero = Inr (m, thread) \<and>
     swimcap_new m thread = Inr t0 \<and> refhat_new = Inr r0 \<and> swimcap_refhat t0 = r0 \<and>
     testhat_run \<lparr>th_vtable = swimcap_vtable, th_htable = t0\<rparr> cs =
       Some (Inr (\<lparr>th_vtable = swimcap_vtable, th_htable = t'\<rparr>, as)) \<and> swimcap_idle t' \<and>
     testhat_run \<lparr>th_vtable = refhat_vtable, th_htable = r0\<rparr> cs =
       Some (Inr (\<lparr>th_vtable = refhat_vtable, th_htable = swimcap_refhat t'\<rparr>, as)) \<and>
     {p. allocated (sc_mmm t') p} = insert (ss_cell (sc_store_current t')) (set (mt_retire_list (sc_thread t')))"
proof -
  obtain m thread where th: "mmm_thread_acquire mmm_start mmm_thread_zero = Inr (m, thread)"
    using swimcap_thread_eq by (simp add: swimcap_thread_def)
  then have "vt_init swimcap_vtable = swimcap_new m thread"
    by (simp add: swimcap_vtable_def swimcap_thread_def swimcap_new_def)
  with th swimcap.new_run_sim [OF assms] show ?thesis
    using swimcap_idle_cells by (simp add: swimcap_new_def) blast
qed

theorem swimcap_equals_refhat_witness:
  "\<exists>m thread t0 r0 t' as. mmm_thread_acquire mmm_start mmm_thread_zero = Inr (m, thread) \<and>
     swimcap_new m thread = Inr t0 \<and> refhat_new = Inr r0 \<and> swimcap_refhat t0 = r0 \<and>
     testhat_run \<lparr>th_vtable = swimcap_vtable, th_htable = t0\<rparr> (map (\<lambda>i. CallPut (of_nat i) 7) [1..<20]) =
       Some (Inr (\<lparr>th_vtable = swimcap_vtable, th_htable = t'\<rparr>, as)) \<and> swimcap_idle t' \<and>
     testhat_run \<lparr>th_vtable = refhat_vtable, th_htable = r0\<rparr> (map (\<lambda>i. CallPut (of_nat i) 7) [1..<20]) =
       Some (Inr (\<lparr>th_vtable = refhat_vtable, th_htable = swimcap_refhat t'\<rparr>, as)) \<and>
     {p. allocated (sc_mmm t') p} = insert (ss_cell (sc_store_current t')) (set (mt_retire_list (sc_thread t')))"
proof (rule swimcap_equals_refhat)
  show "list_all call_ok (map (\<lambda>i. CallPut (of_nat i) 7) [1..<20])" by (simp add: upt_rec)
qed (simp add: epoch_limit_def)

text \<open>C22: The memory of a swimcap is well-typed after every call that starts from a well-typed one: the
  call returns, the current store's cell is allocated and on no retire list, every cell on the
  thread's retire list is still allocated, no cell is there twice, and the list is ordered by
  retirement epoch.\<close>

theorem swimcap_calls_well_typed:
  assumes "swimcap_idle t" "refhat_inv (swimcap_refhat t)" "call_ok c" "sc_next_epoch t < epoch_limit"
  shows "\<exists>t' a. testhat_call \<lparr>th_vtable = swimcap_vtable, th_htable = t\<rparr> c =
       Some (Inr (\<lparr>th_vtable = swimcap_vtable, th_htable = t'\<rparr>, a)) \<and>
     allocated (sc_mmm t') (ss_cell (sc_store_current t')) \<and>
     ss_cell (sc_store_current t') \<notin> set (mt_retire_list (sc_thread t')) \<and>
     (\<forall>p \<in> set (mt_retire_list (sc_thread t')). allocated (sc_mmm t') p) \<and>
     distinct (mt_retire_list (sc_thread t')) \<and>
     sorted_wrt (\<lambda>p q. retired_at (sc_mmm t') q \<le> retired_at (sc_mmm t') p) (mt_retire_list (sc_thread t')) \<and>
     swimcap_idle t' \<and> refhat_inv (swimcap_refhat t')"
proof -
  obtain s' a where s': "testhat_call \<lparr>th_vtable = swimcap_vtable, th_htable = t\<rparr> c = Some (Inr (s', a))"
    "th_vtable s' = swimcap_vtable" "swimcap_idle (th_htable s')" "refhat_inv (swimcap_refhat (th_htable s'))"
    using swimcap.call_refines [of "\<lparr>th_vtable = swimcap_vtable, th_htable = t\<rparr>" c] assms by auto
  from s'(2) have "s' = \<lparr>th_vtable = swimcap_vtable, th_htable = th_htable s'\<rparr>" by (cases s') simp
  with s' show ?thesis
    by (intro exI [of _ "th_htable s'"] exI [of _ a])
       (auto simp: swimcap_idle_def swimcap_mem_def mmm_ok_def retire_ok_def)
qed

theorem swimcap_calls_well_typed_witness:
  "\<exists>t. (\<exists>m thread. mmm_thread_acquire mmm_start mmm_thread_zero = Inr (m, thread) \<and> swimcap_new m thread = Inr t) \<and>
   (\<exists>t' a. testhat_call \<lparr>th_vtable = swimcap_vtable, th_htable = t\<rparr> (CallPut 5 7) =
       Some (Inr (\<lparr>th_vtable = swimcap_vtable, th_htable = t'\<rparr>, a)) \<and>
     allocated (sc_mmm t') (ss_cell (sc_store_current t')) \<and>
     ss_cell (sc_store_current t') \<notin> set (mt_retire_list (sc_thread t')) \<and>
     (\<forall>p \<in> set (mt_retire_list (sc_thread t')). allocated (sc_mmm t') p) \<and>
     distinct (mt_retire_list (sc_thread t')) \<and>
     sorted_wrt (\<lambda>p q. retired_at (sc_mmm t') q \<le> retired_at (sc_mmm t') p) (mt_retire_list (sc_thread t')) \<and>
     swimcap_idle t' \<and> refhat_inv (swimcap_refhat t'))"
proof -
  obtain m thread where th: "swimcap_thread = Inr (m, thread)" using swimcap_thread_eq by blast
  obtain t where "swimcap_new m thread = Inr t" "swimcap_idle t" "refhat_inv (swimcap_refhat t)"
    "rh_next_epoch (swimcap_refhat t) = 1"
    using swimcap.init_ok by (auto simp: swimcap_vtable_def swimcap_new_def th)
  with th swimcap_calls_well_typed [of t "CallPut 5 7"] show ?thesis
    by (auto simp: swimcap_thread_def epoch_limit_def)
qed

end
