(* ===== verification/Llstack.thy ===== *)
theory Llstack
  imports Mmm
begin

text \<open>
  \<^verbatim>\<open>src/hatrack/queue/llstack.c\<close>: the classic lock-free stack, a linked list whose head is swapped with
  CAS, with its nodes allocated and retired through the memory manager.

  The operations as one thread runs them: a CAS that no other thread disturbs succeeds at once.
  \<open>ll_nodes\<close> is the data behind the cells of the memory manager, by address; reading a node is reading
  its cell, so a freed node is \<open>UseAfterFree\<close>. \<open>None\<close> is the null pointer. Threads interleaved are in
  \<open>Llstack_Threads\<close>.
\<close>

section \<open>Definitions\<close>

record llstack_node =
  ln_next :: "nat option"
  ln_item :: ptr

record llstack =
  ll_head :: "nat option"
  ll_nodes :: "nat \<Rightarrow> llstack_node"
  ll_mmm :: mmm

definition sizeof_llstack_node :: nat where
  "sizeof_llstack_node = 16"

definition sizeof_llstack :: nat where
  "sizeof_llstack = 8"

definition llstack_init :: "(nat \<Rightarrow> llstack_node) \<Rightarrow> mmm \<Rightarrow> llstack" where
  "llstack_init nodes m = \<lparr>ll_head = None, ll_nodes = nodes, ll_mmm = m\<rparr>"

definition llstack_new :: "(nat \<Rightarrow> llstack_node) \<Rightarrow> mmm \<Rightarrow> llstack" where
  "llstack_new nodes m = llstack_init nodes m"

text \<open>A node behind a pointer.\<close>

definition read_node :: "'a llstack_scheme \<Rightarrow> nat \<Rightarrow> llstack_node outcome" where
  "read_node self p = and_then (mmm_get_header (ll_mmm self) p) (\<lambda>h. Inr (ll_nodes self p))"

definition llstack_push_mmm :: "llstack \<Rightarrow> mmm_thread \<Rightarrow> ptr \<Rightarrow> llstack outcome" where
  "llstack_push_mmm self thread item =
     and_then (mmm_start_basic_op (ll_mmm self) thread) (\<lambda>m1.
       let (m2, node) = mmm_alloc_committed m1 sizeof_llstack_node;
           head = ll_head self
       in and_then (mmm_end_op m2 thread) (\<lambda>m3.
            Inr (self\<lparr>ll_nodes := (ll_nodes self)(node := \<lparr>ln_next = head, ln_item = item\<rparr>),
                      ll_head := Some node, ll_mmm := m3\<rparr>)))"

definition llstack_pop_mmm ::
  "llstack \<Rightarrow> mmm_thread \<Rightarrow> (llstack \<times> mmm_thread \<times> ptr \<times> bool) outcome" where
  "llstack_pop_mmm self thread =
     and_then (mmm_start_basic_op (ll_mmm self) thread) (\<lambda>m1.
       case ll_head self of
         None \<Rightarrow> and_then (mmm_end_op m1 thread) (\<lambda>m2. Inr (self\<lparr>ll_mmm := m2\<rparr>, thread, 0, False))
       | Some old_head \<Rightarrow>
           and_then (read_node self old_head) (\<lambda>node.
             and_then (mmm_retire m1 thread old_head) (\<lambda>(m2, thread2).
               and_then (mmm_end_op m2 thread2) (\<lambda>m3.
                 Inr (self\<lparr>ll_head := ln_next node, ll_mmm := m3\<rparr>, thread2, ln_item node, True)))))"

partial_function (option) llstack_cleanup :: "llstack \<Rightarrow> llstack outcome option" where
  "llstack_cleanup self =
     (case ll_head self of
        None \<Rightarrow> Some (Inr self)
      | Some old_head \<Rightarrow>
          (case read_node self old_head of
             Inl e \<Rightarrow> Some (Inl e)
           | Inr node \<Rightarrow>
               (case mmm_retire_unused (ll_mmm self) old_head of
                  Inl e \<Rightarrow> Some (Inl e)
                | Inr m \<Rightarrow> llstack_cleanup (self\<lparr>ll_head := ln_next node, ll_mmm := m\<rparr>))))"

definition llstack_delete :: "llstack \<Rightarrow> (llstack \<times> nat) outcome option" where
  "llstack_delete self =
     map_option (\<lambda>r. and_then r (\<lambda>self. Inr (self, sizeof_llstack))) (llstack_cleanup self)"

text \<open>\<^verbatim>\<open>llstack_push\<close> and \<^verbatim>\<open>llstack_pop\<close> find the calling thread's record first.\<close>

definition llstack_push :: "llstack \<Rightarrow> mmm_thread \<Rightarrow> ptr \<Rightarrow> (llstack \<times> mmm_thread) outcome" where
  "llstack_push self thread item =
     and_then (mmm_thread_acquire (ll_mmm self) thread) (\<lambda>(m, thread).
       and_then (llstack_push_mmm (self\<lparr>ll_mmm := m\<rparr>) thread item) (\<lambda>self. Inr (self, thread)))"

definition llstack_pop :: "llstack \<Rightarrow> mmm_thread \<Rightarrow> (llstack \<times> mmm_thread \<times> ptr \<times> bool) outcome" where
  "llstack_pop self thread =
     and_then (mmm_thread_acquire (ll_mmm self) thread) (\<lambda>(m, thread).
       llstack_pop_mmm (self\<lparr>ll_mmm := m\<rparr>) thread)"

text \<open>A sequence of calls of one thread: \<open>Some\<close> pushes, \<open>None\<close> pops; with the items popped.\<close>

fun llstack_calls ::
  "llstack \<Rightarrow> mmm_thread \<Rightarrow> ptr option list \<Rightarrow> (llstack \<times> mmm_thread \<times> (ptr \<times> bool) list) outcome"
where
  "llstack_calls self thread [] = Inr (self, thread, [])"
| "llstack_calls self thread (Some item # cs) =
     and_then (llstack_push self thread item) (\<lambda>(self, thread). llstack_calls self thread cs)"
| "llstack_calls self thread (None # cs) =
     and_then (llstack_pop self thread) (\<lambda>(self, thread, r).
       and_then (llstack_calls self thread cs) (\<lambda>(self, thread, rs). Inr (self, thread, r # rs)))"

section \<open>The stack as a list\<close>

fun chain :: "(nat \<Rightarrow> llstack_node) \<Rightarrow> nat option \<Rightarrow> nat list \<Rightarrow> bool" where
  "chain nodes h [] \<longleftrightarrow> h = None"
| "chain nodes h (p # ps) \<longleftrightarrow> h = Some p \<and> chain nodes (ln_next (nodes p)) ps"

text \<open>The same calls on a list.\<close>

fun lifo_calls :: "ptr list \<Rightarrow> ptr option list \<Rightarrow> ptr list \<times> (ptr \<times> bool) list" where
  "lifo_calls xs [] = (xs, [])"
| "lifo_calls xs (Some item # cs) = lifo_calls (item # xs) cs"
| "lifo_calls [] (None # cs) = (let (ys, rs) = lifo_calls [] cs in (ys, (0, False) # rs))"
| "lifo_calls (x # xs) (None # cs) = (let (ys, rs) = lifo_calls xs cs in (ys, (x, True) # rs))"

definition llstack_inv :: "llstack \<Rightarrow> mmm_thread \<Rightarrow> nat list \<Rightarrow> bool" where
  "llstack_inv s thread ps \<longleftrightarrow>
     chain (ll_nodes s) (ll_head s) ps \<and> distinct ps \<and> (\<forall>p \<in> set ps. allocated (ll_mmm s) p) \<and>
     mmm_ok (ll_mmm s) thread \<and> set ps \<inter> set (mt_retire_list thread) = {}"

lemma chain_cong: "(\<And>p. p \<in> set ps \<Longrightarrow> ns p = ns' p) \<Longrightarrow> chain ns h ps = chain ns' h ps"
  by (induction ps arbitrary: h) auto

lemma chain_upd [simp]: "p \<notin> set ps \<Longrightarrow> chain (ns(p := n)) h ps = chain ns h ps"
  by (rule chain_cong) auto

lemma chain_unique: "chain ns h ps \<Longrightarrow> chain ns h qs \<Longrightarrow> ps = qs"
  by (induction ps arbitrary: h qs; case_tac qs) auto

lemma llstack_push_ok:
  assumes inv: "llstack_inv s thread ps" and e: "mm_epoch (ll_mmm s) + 1 < 2 ^ 64"
  shows "\<exists>s' p. llstack_push s thread item = Inr (s', thread) \<and> llstack_inv s' thread (p # ps) \<and>
     map (\<lambda>q. ln_item (ll_nodes s' q)) (p # ps) = item # map (\<lambda>q. ln_item (ll_nodes s q)) ps \<and>
     mm_epoch (ll_mmm s') = mm_epoch (ll_mmm s) + 1"
proof -
  have ok: "mmm_ok (ll_mmm s) thread" "mt_initialized thread" using inv by (simp_all add: llstack_inv_def mmm_ok_def)
  obtain m1 m2 p m3 where m: "mmm_start_basic_op (ll_mmm s) thread = Inr m1"
    "mmm_alloc_committed m1 sizeof_llstack_node = (m2, p)" "mmm_end_op m2 thread = Inr m3" "mmm_ok m3 thread"
    "\<not> allocated (ll_mmm s) p" "p \<notin> set (mt_retire_list thread)" "allocated m3 p"
    "\<forall>q. allocated (ll_mmm s) q \<longrightarrow> allocated m3 q" "mm_epoch m3 = mm_epoch (ll_mmm s) + 1"
    by (rule mmm.insert_ok [OF ok(1) e])
  let ?s = "s\<lparr>ll_nodes := (ll_nodes s)(p := \<lparr>ln_next = ll_head s, ln_item = item\<rparr>), ll_head := Some p, ll_mmm := m3\<rparr>"
  have new: "p \<notin> set ps" using inv m(5) by (auto simp: llstack_inv_def)
  have "llstack_push s thread item = Inr (?s, thread)"
    using ok(2) m(1-3) by (simp add: llstack_push_def llstack_push_mmm_def)
  moreover have "llstack_inv ?s thread (p # ps)" using inv new m(4-8) by (auto simp: llstack_inv_def)
  moreover have "map (\<lambda>q. ln_item (ll_nodes ?s q)) (p # ps) = item # map (\<lambda>q. ln_item (ll_nodes s q)) ps"
    using new by auto
  ultimately show ?thesis using m(9) by (intro exI [of _ ?s] exI [of _ p]) simp
qed

lemma llstack_pop_ok:
  assumes inv: "llstack_inv s thread ps"
  shows "\<exists>s' thread' r. llstack_pop s thread = Inr (s', thread', r) \<and> llstack_inv s' thread' (tl ps) \<and>
     r = (case ps of [] \<Rightarrow> (0, False) | p # _ \<Rightarrow> (ln_item (ll_nodes s p), True)) \<and>
     ll_nodes s' = ll_nodes s \<and> mm_epoch (ll_mmm s') = mm_epoch (ll_mmm s)"
proof -
  have ok: "mmm_ok (ll_mmm s) thread" "mt_initialized thread" using inv by (simp_all add: llstack_inv_def mmm_ok_def)
  show ?thesis
  proof (cases ps)
    case Nil
    obtain m1 m2 where "mmm_start_basic_op (ll_mmm s) thread = Inr m1" "mmm_end_op m1 thread = Inr m2"
      "mmm_ok m2 thread" "mm_epoch m2 = mm_epoch (ll_mmm s)"
      by (rule mmm.read_ok [OF ok(1)])
    with Nil ok(2) inv show ?thesis by (auto simp: llstack_pop_def llstack_pop_mmm_def llstack_inv_def)
  next
    case (Cons p qs)
    then have p: "ll_head s = Some p" "allocated (ll_mmm s) p" "p \<notin> set (mt_retire_list thread)"
      using inv by (auto simp: llstack_inv_def)
    obtain m1 m2 th2 m3 where m: "mmm_start_basic_op (ll_mmm s) thread = Inr m1"
      "mmm_retire m1 thread p = Inr (m2, th2)" "mmm_end_op m2 th2 = Inr m3" "mmm_ok m3 th2"
      "set (mt_retire_list th2) \<subseteq> insert p (set (mt_retire_list thread))"
      "\<forall>q. allocated (ll_mmm s) q \<longrightarrow> q \<noteq> p \<longrightarrow> q \<notin> set (mt_retire_list thread) \<longrightarrow> allocated m3 q"
      "mm_epoch m3 = mm_epoch (ll_mmm s)"
      by (rule mmm.remove_ok [OF ok(1) p(2,3)])
    let ?s = "s\<lparr>ll_head := ln_next (ll_nodes s p), ll_mmm := m3\<rparr>"
    have "llstack_pop s thread = Inr (?s, th2, ln_item (ll_nodes s p), True)"
      using ok(2) p m(1-3) get_header_allocated [OF p(2)]
      by (auto simp: llstack_pop_def llstack_pop_mmm_def read_node_def)
    moreover have "llstack_inv ?s th2 qs" using inv m(4-6) Cons by (auto simp: llstack_inv_def)
    ultimately show ?thesis using Cons m(7) by simp
  qed
qed

lemma llstack_calls_ok:
  assumes "llstack_inv s thread ps" "mm_epoch (ll_mmm s) + length cs < 2 ^ 64"
  shows "\<exists>s' thread' ps'. llstack_calls s thread cs =
       Inr (s', thread', snd (lifo_calls (map (\<lambda>p. ln_item (ll_nodes s p)) ps) cs)) \<and>
     llstack_inv s' thread' ps' \<and>
     map (\<lambda>p. ln_item (ll_nodes s' p)) ps' = fst (lifo_calls (map (\<lambda>p. ln_item (ll_nodes s p)) ps) cs)"
  using assms
proof (induction s thread cs arbitrary: ps rule: llstack_calls.induct)
  case (2 s thread item cs)
  obtain s1 p where s1: "llstack_push s thread item = Inr (s1, thread)" "llstack_inv s1 thread (p # ps)"
    "map (\<lambda>q. ln_item (ll_nodes s1 q)) (p # ps) = item # map (\<lambda>q. ln_item (ll_nodes s q)) ps"
    "mm_epoch (ll_mmm s1) = mm_epoch (ll_mmm s) + 1"
    using llstack_push_ok [OF 2(2), of item] 2(3) by auto
  have "mm_epoch (ll_mmm s1) + length cs < 2 ^ 64" using s1(4) 2(3) by simp
  from 2(1) [OF s1(1) refl s1(2) this] show ?case
    unfolding s1(3) using s1(1) by simp
next
  case (3 s thread cs)
  obtain s1 thread1 r where s1: "llstack_pop s thread = Inr (s1, thread1, r)" "llstack_inv s1 thread1 (tl ps)"
    "r = (case ps of [] \<Rightarrow> (0, False) | p # _ \<Rightarrow> (ln_item (ll_nodes s p), True))"
    "ll_nodes s1 = ll_nodes s" "mm_epoch (ll_mmm s1) = mm_epoch (ll_mmm s)"
    using llstack_pop_ok [OF 3(2)] by auto
  have "mm_epoch (ll_mmm s1) + length cs < 2 ^ 64" using s1(5) 3(3) by simp
  from 3(1) [OF s1(1) refl refl s1(2) this] show ?case
    using s1(1,3,4) by (cases ps) (auto simp: Let_def split: prod.splits)
qed auto

text \<open>Cleaning up frees the nodes one by one, from the head.\<close>

lemma llstack_cleanup_ok:
  assumes "chain (ll_nodes s) (ll_head s) ps" "distinct ps" "\<forall>p \<in> set ps. allocated (ll_mmm s) p"
  shows "\<exists>s'. llstack_cleanup s = Some (Inr s') \<and> ll_head s' = None \<and>
     (\<forall>q. allocated (ll_mmm s') q \<longleftrightarrow> allocated (ll_mmm s) q \<and> q \<notin> set ps)"
  using assms
proof (induction ps arbitrary: s)
  case Nil
  then show ?case by (simp add: llstack_cleanup.simps)
next
  case (Cons p ps)
  then have p: "ll_head s = Some p" "allocated (ll_mmm s) p" by simp_all
  obtain h where h: "mmm_get_header (ll_mmm s) p = Inr h" using get_header_allocated [OF p(2)] by blast
  then obtain m where m: "mmm_retire_unused (ll_mmm s) p = Inr m" "mm_cells m = (mm_cells (ll_mmm s))[p := None]"
    by (simp add: mmm_retire_unused_def)
  let ?s = "s\<lparr>ll_head := ln_next (ll_nodes s p), ll_mmm := m\<rparr>"
  have freed: "allocated m q \<longleftrightarrow> allocated (ll_mmm s) q \<and> q \<noteq> p" for q
    using p(2) m(2) by (auto simp: allocated_def nth_list_update)
  have "\<exists>s'. llstack_cleanup ?s = Some (Inr s') \<and> ll_head s' = None \<and>
     (\<forall>q. allocated (ll_mmm s') q \<longleftrightarrow> allocated (ll_mmm ?s) q \<and> q \<notin> set ps)"
    by (rule Cons.IH) (use Cons.prems freed in auto)
  moreover have "llstack_cleanup s = llstack_cleanup ?s"
    using p(1) h m(1) by (simp add: llstack_cleanup.simps [of s] read_node_def)
  ultimately show ?case using freed by auto
qed

section \<open>Properties\<close>

text \<open>C38: Any sequence of pushes and pops by one thread on a new stack returns what a list used as a
  stack returns, and leaves a well-formed stack with the contents of that list: no call fails or
  touches freed memory, although every pop retires its node and the memory manager frees them.\<close>

theorem llstack_calls_lifo:
  assumes "length cs < 2 ^ 64 - 1"
  shows "\<exists>m thread s' thread' ps. mmm_thread_acquire mmm_start mmm_thread_zero = Inr (m, thread) \<and>
     llstack_calls (llstack_new nodes m) thread cs = Inr (s', thread', snd (lifo_calls [] cs)) \<and>
     llstack_inv s' thread' ps \<and> map (\<lambda>p. ln_item (ll_nodes s' p)) ps = fst (lifo_calls [] cs)"
proof -
  obtain m thread where th: "mmm_thread_acquire mmm_start mmm_thread_zero = Inr (m, thread)" "mmm_ok m thread"
    "mm_epoch m = 1" "mt_retire_list thread = []"
    by (rule first_acquire)
  then have "llstack_inv (llstack_new nodes m) thread []"
    by (simp add: llstack_inv_def llstack_new_def llstack_init_def)
  from llstack_calls_ok [OF this, of cs] th assms show ?thesis
    by (auto simp: llstack_new_def llstack_init_def)
qed

theorem llstack_calls_lifo_witness:
  "\<exists>m thread s' thread'. mmm_thread_acquire mmm_start mmm_thread_zero = Inr (m, thread) \<and>
     llstack_calls (llstack_new (\<lambda>_. \<lparr>ln_next = None, ln_item = 0\<rparr>) m) thread [Some 7, Some 8, None, None, None] =
       Inr (s', thread', [(8, True), (7, True), (0, False)])"
proof -
  have "lifo_calls [] [Some 7, Some 8, None, None, None] = ([], [(8, True), (7, True), (0, False)])" by simp
  with llstack_calls_lifo [of "[Some 7, Some 8, None, None, None]"] show ?thesis
    by (simp del: llstack_calls.simps lifo_calls.simps) blast
qed

text \<open>Deleting a stack returns, frees every node still on it and nothing else, and then the stack
  itself.\<close>

theorem llstack_delete_frees_nodes:
  assumes "llstack_inv s thread ps"
  shows "\<exists>s'. llstack_delete s = Some (Inr (s', sizeof_llstack)) \<and> ll_head s' = None \<and>
     (\<forall>q. allocated (ll_mmm s') q \<longleftrightarrow> allocated (ll_mmm s) q \<and> q \<notin> set ps)"
  using llstack_cleanup_ok [of s ps] assms by (auto simp: llstack_delete_def llstack_inv_def)

definition llstack_sample :: llstack where
  "llstack_sample = \<lparr>ll_head = Some 1,
     ll_nodes = (\<lambda>p. if p = 1 then \<lparr>ln_next = Some 0, ln_item = 8\<rparr> else \<lparr>ln_next = None, ln_item = 7\<rparr>),
     ll_mmm = mmm_start\<lparr>mm_epoch := 3, mm_cells := [Some zero_header, Some zero_header, Some zero_header]\<rparr>\<rparr>"

theorem llstack_delete_frees_nodes_witness:
  "\<exists>s'. llstack_delete llstack_sample = Some (Inr (s', sizeof_llstack)) \<and> ll_head s' = None \<and>
     (\<forall>q. allocated (ll_mmm s') q \<longleftrightarrow> q = 2)"
proof -
  have alloc: "allocated (ll_mmm llstack_sample) q \<longleftrightarrow> q < 3" for q
    by (auto simp: llstack_sample_def allocated_def less_Suc_eq numeral_3_eq_3)
  have "llstack_inv llstack_sample (mmm_thread_zero\<lparr>mt_initialized := True\<rparr>) [1, 0]"
    unfolding llstack_inv_def mmm_ok_def alloc retire_ok_def
    by (simp add: llstack_sample_def mmm_thread_zero_def mmm_start_def)
  moreover have "q < 3 \<and> q \<notin> set [1, 0] \<longleftrightarrow> q = 2" for q :: nat by auto
  ultimately show ?thesis using llstack_delete_frees_nodes [of llstack_sample _ "[1, 0]"] unfolding alloc by metis
qed

end
