(* ===== verification/Llstack_Threads.thy ===== *)
theory Llstack_Threads
  imports Llstack
begin

text \<open>
  Threads on one stack (\<^verbatim>\<open>llstack.c\<close>) with the memory manager (\<^verbatim>\<open>mmm.c\<close>), interleaved at the accesses to
  shared memory: the epoch, the reservations, the head, the nodes, the allocator. The allocator may hand
  out any free address, so a node can be freed and its address reused between two steps of a
  thread: what keeps a stale pointer from being followed, and a CAS from succeeding on a reused
  address, are the reservations alone.

  Each constructor of \<open>llstack_pc\<close> is a point of \<^verbatim>\<open>llstack_push_mmm\<close>, \<^verbatim>\<open>llstack_pop_mmm\<close>, \<^verbatim>\<open>mmm_retire\<close> or
  \<^verbatim>\<open>mmm_empty\<close> before one such access, with the local variables that are live there. Writes to memory only
  the thread can reach (a node not yet published, a retired cell's header) go with the next shared
  access. Memory is sequentially consistent. The threads have their ids; the events of the log are
  for stating what is proved.
\<close>

section \<open>Definitions\<close>

datatype llstack_op = Push ptr | Pop

datatype llstack_pc =
    Rest
  | Epoch llstack_op
  | Reserve llstack_op nat
  | Alloc ptr
  | Commit ptr nat
  | PushRead ptr nat
  | PushCas ptr nat "nat option"
  | PopRead
  | PopNext nat
  | PopCas nat "nat option"
  | PopItem nat
  | Retire ptr nat
  | Empty ptr
  | Scan ptr nat nat nat
  | Cut ptr nat
  | FreeCells ptr "nat list"
  | EndOp llstack_op "(ptr \<times> bool) option"
  | Crash c_error

datatype llstack_event =
    Called nat llstack_op
  | Effect nat llstack_op "(ptr \<times> bool) option"
  | Returned nat "(ptr \<times> bool) option"

record llstack_system = llstack +
  lt_threads :: "mmm_thread list"
  lt_pcs :: "llstack_pc list"
  lt_log :: "llstack_event list"

definition goto_pc :: "llstack_system \<Rightarrow> nat \<Rightarrow> llstack_pc \<Rightarrow> llstack_system" where
  "goto_pc g i pc = g\<lparr>lt_pcs := (lt_pcs g)[i := pc]\<rparr>"

definition log_event :: "llstack_system \<Rightarrow> llstack_event \<Rightarrow> llstack_system" where
  "log_event g e = g\<lparr>lt_log := e # lt_log g\<rparr>"

text \<open>A step that can fail leaves the thread at the failure.\<close>

definition step_with :: "llstack_system \<Rightarrow> nat \<Rightarrow> 'a outcome \<Rightarrow> ('a \<Rightarrow> llstack_system) \<Rightarrow> llstack_system option" where
  "step_with g i r f = (case r of Inl e \<Rightarrow> Some (goto_pc g i (Crash e)) | Inr x \<Rightarrow> Some (f x))"

text \<open>\<^verbatim>\<open>hatrack_zalloc\<close> at an address of the allocator's choice.\<close>

definition free_address :: "mmm \<Rightarrow> nat \<Rightarrow> bool" where
  "free_address m a \<longleftrightarrow> a \<le> length (mm_cells m) \<and> (a < length (mm_cells m) \<longrightarrow> mm_cells m ! a = None)"

definition mmm_zalloc_at :: "mmm \<Rightarrow> nat \<Rightarrow> mmm" where
  "mmm_zalloc_at m a =
     m\<lparr>mm_cells := (if a < length (mm_cells m) then (mm_cells m)[a := Some zero_header]
                    else mm_cells m @ [Some zero_header])\<rparr>"

text \<open>The head has been read into \<^verbatim>\<open>old_head\<close>: the loop condition of \<^verbatim>\<open>llstack_pop_mmm\<close>.\<close>

definition pop_look :: "llstack_system \<Rightarrow> nat \<Rightarrow> llstack_system" where
  "pop_look g i =
     (case ll_head g of
        None \<Rightarrow> goto_pc (log_event g (Effect i Pop (Some (0, False)))) i (EndOp Pop (Some (0, False)))
      | Some p \<Rightarrow> goto_pc g i (PopNext p))"

definition retire_push :: "mmm_thread \<Rightarrow> nat \<Rightarrow> mmm_thread" where
  "retire_push thread p =
     (let ctr = mt_retire_ctr thread + 1
      in thread\<lparr>mt_retire_list := p # mt_retire_list thread,
                mt_retire_ctr := (if ctr AND HATRACK_RETIRE_FREQ \<noteq> 0 then 0 else ctr)\<rparr>)"

fun llstack_step :: "llstack_system \<Rightarrow> nat \<Rightarrow> nat \<Rightarrow> llstack_pc \<Rightarrow> llstack_system option" where
  "llstack_step g i a (Epoch op) = Some (goto_pc g i (Reserve op (mm_epoch (ll_mmm g))))"
| "llstack_step g i a (Reserve op e) =
     step_with g i (mmm_reserve (ll_mmm g) (mt_tid (lt_threads g ! i)) e) (\<lambda>m.
       goto_pc (g\<lparr>ll_mmm := m\<rparr>) i (case op of Push v \<Rightarrow> Alloc v | Pop \<Rightarrow> PopRead))"
| "llstack_step g i a (Alloc v) =
     (if free_address (ll_mmm g) a
      then Some (goto_pc (g\<lparr>ll_mmm := mmm_zalloc_at (ll_mmm g) a\<rparr>) i (Commit v a)) else None)"
| "llstack_step g i a (Commit v p) =
     step_with g i (mmm_get_header (ll_mmm g) p) (\<lambda>h.
       let (m1, e) = mmm_next_epoch (ll_mmm g)
       in goto_pc (g\<lparr>ll_mmm := mmm_set_header m1 p (h\<lparr>mh_write_epoch := e\<rparr>)\<rparr>) i (PushRead v p))"
| "llstack_step g i a (PushRead v p) =
     step_with g i (read_node g p) (\<lambda>node.
       goto_pc (g\<lparr>ll_nodes := (ll_nodes g)(p := node\<lparr>ln_item := v\<rparr>)\<rparr>) i (PushCas v p (ll_head g)))"
| "llstack_step g i a (PushCas v p h) =
     step_with g i (read_node g p) (\<lambda>node.
       let g1 = g\<lparr>ll_nodes := (ll_nodes g)(p := node\<lparr>ln_next := h\<rparr>)\<rparr>
       in if ll_head g = h
          then goto_pc (log_event (g1\<lparr>ll_head := Some p\<rparr>) (Effect i (Push v) None)) i (EndOp (Push v) None)
          else goto_pc g1 i (PushCas v p (ll_head g)))"
| "llstack_step g i a PopRead = Some (pop_look g i)"
| "llstack_step g i a (PopNext p) =
     step_with g i (read_node g p) (\<lambda>node. goto_pc g i (PopCas p (ln_next node)))"
| "llstack_step g i a (PopCas p n) =
     Some (if ll_head g = Some p
           then goto_pc (log_event (g\<lparr>ll_head := n\<rparr>) (Effect i Pop (Some (ln_item (ll_nodes g p), True)))) i
                  (PopItem p)
           else pop_look g i)"
| "llstack_step g i a (PopItem p) =
     step_with g i (read_node g p) (\<lambda>node. goto_pc g i (Retire (ln_item node) p))"
| "llstack_step g i a (Retire v p) =
     step_with g i (mmm_get_header (ll_mmm g) p) (\<lambda>cell.
       let thread = retire_push (lt_threads g ! i) p
       in goto_pc (g\<lparr>ll_mmm := mmm_set_header (ll_mmm g) p (cell\<lparr>mh_retire_epoch := mm_epoch (ll_mmm g)\<rparr>),
                   lt_threads := (lt_threads g)[i := thread]\<rparr>) i
            (if (mt_retire_ctr (lt_threads g ! i) + 1) AND HATRACK_RETIRE_FREQ \<noteq> 0
             then Empty v else EndOp Pop (Some (v, True))))"
| "llstack_step g i a (Empty v) =
     Some (goto_pc g i (Scan v
       (if HATRACK_THREADS_MAX < mm_nexttid (ll_mmm g) then HATRACK_THREADS_MAX else mm_nexttid (ll_mmm g))
       0 HATRACK_EPOCH_MAX))"
| "llstack_step g i a (Scan v lasttid k lowest) =
     (if k < lasttid
      then step_with g i (read_at (mm_reservations (ll_mmm g)) k) (\<lambda>reservation.
        goto_pc g i (Scan v lasttid (k + 1) (if reservation < lowest then reservation else lowest)))
      else Some (goto_pc g i (Cut v lowest)))"
| "llstack_step g i a (Cut v lowest) =
     step_with g i (mmm_split (ll_mmm g) lowest (mt_retire_list (lt_threads g ! i))) (\<lambda>(kept, doomed).
       goto_pc (g\<lparr>lt_threads := (lt_threads g)[i := (lt_threads g ! i)\<lparr>mt_retire_list := kept\<rparr>]\<rparr>) i
         (FreeCells v doomed))"
| "llstack_step g i a (FreeCells v []) = Some (goto_pc g i (EndOp Pop (Some (v, True))))"
| "llstack_step g i a (FreeCells v (p # ps)) =
     step_with g i (mmm_free (ll_mmm g) p) (\<lambda>m. goto_pc (g\<lparr>ll_mmm := m\<rparr>) i (FreeCells v ps))"
| "llstack_step g i a (EndOp op r) =
     step_with g i (mmm_reserve (ll_mmm g) (mt_tid (lt_threads g ! i)) HATRACK_EPOCH_UNRESERVED) (\<lambda>m.
       goto_pc (log_event (g\<lparr>ll_mmm := m\<rparr>) (Returned i r)) i Rest)"
| "llstack_step g i a Rest = None"
| "llstack_step g i a (Crash e) = None"

inductive stack_step :: "llstack_system \<Rightarrow> llstack_system \<Rightarrow> bool" where
  call: "\<lbrakk>i < length (lt_pcs g); lt_pcs g ! i = Rest\<rbrakk>
     \<Longrightarrow> stack_step g (goto_pc (log_event g (Called i op)) i (Epoch op))"
| run: "\<lbrakk>i < length (lt_pcs g); llstack_step g i a (lt_pcs g ! i) = Some g'\<rbrakk> \<Longrightarrow> stack_step g g'"

text \<open>An empty stack and threads that have their ids and nothing else.\<close>

definition stack_start :: "nat \<Rightarrow> llstack_system" where
  "stack_start n = \<lparr>ll_head = None, ll_nodes = (\<lambda>_. \<lparr>ln_next = None, ln_item = 0\<rparr>),
     ll_mmm = mmm_start\<lparr>mm_nexttid := n,
       mm_reservations := replicate n HATRACK_EPOCH_UNRESERVED @ replicate (HATRACK_THREADS_MAX - n) 0\<rparr>,
     lt_threads = map (\<lambda>i. \<lparr>mt_tid = i, mt_retire_ctr = 0, mt_retire_list = [], mt_initialized = True\<rparr>) [0..<n],
     lt_pcs = replicate n Rest, lt_log = []\<rparr>"

inductive stack_reach :: "nat \<Rightarrow> nat \<Rightarrow> llstack_system \<Rightarrow> bool" for n where
  start: "stack_reach n 0 (stack_start n)"
| step: "\<lbrakk>stack_reach n k g; stack_step g g'\<rbrakk> \<Longrightarrow> stack_reach n (Suc k) g'"

section \<open>Who owns a cell\<close>

datatype owner = NoOwner | InStack | InHand nat | InList nat

fun in_hand :: "llstack_pc \<Rightarrow> nat list" where
  "in_hand (Commit v p) = [p]"
| "in_hand (PushRead v p) = [p]"
| "in_hand (PushCas v p h) = [p]"
| "in_hand (PopItem p) = [p]"
| "in_hand (Retire v p) = [p]"
| "in_hand (FreeCells v ps) = ps"
| "in_hand _ = []"

fun popped :: "llstack_pc \<Rightarrow> bool" where
  "popped (PopItem p) = True"
| "popped (Retire v p) = True"
| "popped _ = False"

fun held :: "llstack_pc \<Rightarrow> nat option" where
  "held (PopNext p) = Some p"
| "held (PopCas p n) = Some p"
| "held _ = None"

fun faulted :: "llstack_pc \<Rightarrow> bool" where
  "faulted (Crash e) = True"
| "faulted _ = False"

text \<open>The epoch a thread has reserved, or is about to: from the load of the epoch to the last pointer read.\<close>

fun reserving :: "llstack_pc \<Rightarrow> bool" where
  "reserving PopRead = True"
| "reserving (PopNext p) = True"
| "reserving (PopCas p n) = True"
| "reserving _ = False"

fun scan_ok :: "nat \<Rightarrow> nat list \<Rightarrow> llstack_pc \<Rightarrow> bool" where
  "scan_ok n cs (Empty v) = (cs \<noteq> [])"
| "scan_ok n cs (Scan v lasttid k lowest) = (cs \<noteq> [] \<and> lasttid = n)"
| "scan_ok n cs (Cut v lowest) = (cs \<noteq> [])"
| "scan_ok n cs _ = True"

text \<open>What a scanning thread has made of thread \<open>i\<close>'s reservation, when it stands for a cell retired at \<open>r\<close>.\<close>

fun minds :: "nat \<Rightarrow> nat \<Rightarrow> llstack_pc \<Rightarrow> bool" where
  "minds i r (Scan v lasttid k lowest) = (i < k \<longrightarrow> lowest \<le> r)"
| "minds i r (Cut v lowest) = (lowest \<le> r)"
| "minds i r _ = True"

text \<open>Why thread \<open>i\<close> may follow its pointer to \<open>p\<close>.\<close>

definition protected :: "llstack_system \<Rightarrow> (nat \<Rightarrow> owner) \<Rightarrow> nat \<Rightarrow> nat \<Rightarrow> bool" where
  "protected g w i p =
     (case w p of NoOwner \<Rightarrow> False | InStack \<Rightarrow> True | InHand j \<Rightarrow> popped (lt_pcs g ! j)
      | InList j \<Rightarrow> mm_reservations (ll_mmm g) ! i \<le> retired_at (ll_mmm g) p \<and>
          minds i (retired_at (ll_mmm g) p) (lt_pcs g ! j))"

definition owner_inv :: "nat \<Rightarrow> llstack_system \<Rightarrow> nat list \<Rightarrow> (nat \<Rightarrow> owner) \<Rightarrow> bool" where
  "owner_inv n g ps w \<longleftrightarrow>
     chain (ll_nodes g) (ll_head g) ps \<and> distinct ps \<and>
     (\<forall>p. w p \<noteq> NoOwner \<longleftrightarrow> allocated (ll_mmm g) p) \<and>
     (\<forall>p. w p = InStack \<longleftrightarrow> p \<in> set ps) \<and>
     (\<forall>p i. w p = InHand i \<longleftrightarrow> i < n \<and> p \<in> set (in_hand (lt_pcs g ! i))) \<and>
     (\<forall>p i. w p = InList i \<longleftrightarrow> i < n \<and> p \<in> set (mt_retire_list (lt_threads g ! i))) \<and>
     (\<forall>i < n. distinct (in_hand (lt_pcs g ! i)))"

definition local_inv :: "nat \<Rightarrow> llstack_system \<Rightarrow> bool" where
  "local_inv n g \<longleftrightarrow>
     length (lt_pcs g) = n \<and> length (lt_threads g) = n \<and> n \<le> HATRACK_THREADS_MAX \<and>
     mm_nexttid (ll_mmm g) = n \<and> length (mm_reservations (ll_mmm g)) = HATRACK_THREADS_MAX \<and>
     (\<forall>i < n. mt_tid (lt_threads g ! i) = i \<and> \<not> faulted (lt_pcs g ! i) \<and> 
        scan_ok n (mt_retire_list (lt_threads g ! i)) (lt_pcs g ! i) \<and>
        retire_ok (ll_mmm g) (mt_retire_list (lt_threads g ! i)) \<and>
        (\<forall>op e. lt_pcs g ! i = Reserve op e \<longrightarrow> e \<le> mm_epoch (ll_mmm g)) \<and>
        (reserving (lt_pcs g ! i) \<longrightarrow> mm_reservations (ll_mmm g) ! i \<le> mm_epoch (ll_mmm g)))"

definition held_inv :: "nat \<Rightarrow> llstack_system \<Rightarrow> (nat \<Rightarrow> owner) \<Rightarrow> bool" where
  "held_inv n g w \<longleftrightarrow>
     (\<forall>i < n. \<forall>p. held (lt_pcs g ! i) = Some p \<longrightarrow> protected g w i p) \<and>
     (\<forall>i < n. \<forall>p m. lt_pcs g ! i = PopCas p m \<longrightarrow> ln_next (ll_nodes g p) = m)"

text \<open>What the log says a thread is doing, and what its point in the program says.\<close>

datatype phase = Quiet | Running llstack_op | Effected llstack_op "(ptr \<times> bool) option"

fun event_thread :: "llstack_event \<Rightarrow> nat" where
  "event_thread (Called i op) = i"
| "event_thread (Effect i op r) = i"
| "event_thread (Returned i r) = i"

fun next_phase :: "phase \<Rightarrow> llstack_event \<Rightarrow> phase option" where
  "next_phase Quiet (Called i op) = Some (Running op)"
| "next_phase (Running op) (Effect i op' r) = (if op' = op then Some (Effected op r) else None)"
| "next_phase (Effected op r) (Returned i r') = (if r' = r then Some Quiet else None)"
| "next_phase _ _ = None"

fun thread_phase :: "nat \<Rightarrow> llstack_event list \<Rightarrow> phase option" where
  "thread_phase i [] = Some Quiet"
| "thread_phase i (e # log) =
     (if event_thread e = i then Option.bind (thread_phase i log) (\<lambda>ph. next_phase ph e)
      else thread_phase i log)"

text \<open>The operations in the order they took effect, on a list: \<open>None\<close> where a result is not what the list gives.\<close>

fun lifo_op :: "ptr list \<Rightarrow> llstack_op \<Rightarrow> ptr list \<times> (ptr \<times> bool) option" where
  "lifo_op xs (Push v) = (v # xs, None)"
| "lifo_op [] Pop = ([], Some (0, False))"
| "lifo_op (x # xs) Pop = (xs, Some (x, True))"

fun replay :: "llstack_event list \<Rightarrow> ptr list option" where
  "replay [] = Some []"
| "replay (Effect i op r # log) =
     Option.bind (replay log) (\<lambda>xs. let (ys, r') = lifo_op xs op in if r = r' then Some ys else None)"
| "replay (Called i op # log) = replay log"
| "replay (Returned i r # log) = replay log"

fun pc_phase :: "(nat \<Rightarrow> llstack_node) \<Rightarrow> llstack_pc \<Rightarrow> phase" where
  "pc_phase ns Rest = Quiet"
| "pc_phase ns (Epoch op) = Running op"
| "pc_phase ns (Reserve op e) = Running op"
| "pc_phase ns (Alloc v) = Running (Push v)"
| "pc_phase ns (Commit v p) = Running (Push v)"
| "pc_phase ns (PushRead v p) = Running (Push v)"
| "pc_phase ns (PushCas v p h) = Running (Push v)"
| "pc_phase ns PopRead = Running Pop"
| "pc_phase ns (PopNext p) = Running Pop"
| "pc_phase ns (PopCas p n) = Running Pop"
| "pc_phase ns (PopItem p) = Effected Pop (Some (ln_item (ns p), True))"
| "pc_phase ns (Retire v p) = Effected Pop (Some (v, True))"
| "pc_phase ns (Empty v) = Effected Pop (Some (v, True))"
| "pc_phase ns (Scan v lasttid k lowest) = Effected Pop (Some (v, True))"
| "pc_phase ns (Cut v lowest) = Effected Pop (Some (v, True))"
| "pc_phase ns (FreeCells v ps) = Effected Pop (Some (v, True))"
| "pc_phase ns (EndOp op r) = Effected op r"
| "pc_phase ns (Crash e) = Quiet"

fun item_set :: "(nat \<Rightarrow> llstack_node) \<Rightarrow> llstack_pc \<Rightarrow> bool" where
  "item_set ns (PushCas v p h) = (ln_item (ns p) = v)"
| "item_set ns _ = True"

definition log_inv :: "nat \<Rightarrow> llstack_system \<Rightarrow> nat list \<Rightarrow> bool" where
  "log_inv n g ps \<longleftrightarrow>
     replay (lt_log g) = Some (map (\<lambda>p. ln_item (ll_nodes g p)) ps) \<and>
     (\<forall>i < n. thread_phase i (lt_log g) = Some (pc_phase (ll_nodes g) (lt_pcs g ! i)) \<and>
        item_set (ll_nodes g) (lt_pcs g ! i))"

definition stack_inv :: "nat \<Rightarrow> llstack_system \<Rightarrow> nat list \<Rightarrow> (nat \<Rightarrow> owner) \<Rightarrow> bool" where
  "stack_inv n g ps w \<longleftrightarrow> owner_inv n g ps w \<and> local_inv n g \<and> held_inv n g w \<and> log_inv n g ps"

named_theorems inv_defs \<open>the parts of the invariant\<close>
declare stack_inv_def [inv_defs] owner_inv_def [inv_defs] local_inv_def [inv_defs] held_inv_def [inv_defs]
  log_inv_def [inv_defs]

lemma goto_pc_sel [simp]:
  "ll_head (goto_pc g i pc) = ll_head g" "ll_nodes (goto_pc g i pc) = ll_nodes g"
  "ll_mmm (goto_pc g i pc) = ll_mmm g" "lt_threads (goto_pc g i pc) = lt_threads g"
  "lt_log (goto_pc g i pc) = lt_log g" "lt_pcs (goto_pc g i pc) = (lt_pcs g)[i := pc]"
  by (simp_all add: goto_pc_def)

lemma log_event_sel [simp]:
  "ll_head (log_event g e) = ll_head g" "ll_nodes (log_event g e) = ll_nodes g"
  "ll_mmm (log_event g e) = ll_mmm g" "lt_threads (log_event g e) = lt_threads g"
  "lt_log (log_event g e) = e # lt_log g" "lt_pcs (log_event g e) = lt_pcs g"
  by (simp_all add: log_event_def)

lemma step_with_simps [simp]:
  "step_with g i (Inr x) f = Some (f x)" "step_with g i (Inl e) f = Some (goto_pc g i (Crash e))"
  by (simp_all add: step_with_def)

lemma held_minds: "held pc = Some p \<Longrightarrow> minds j r pc"
  by (cases pc) auto

lemma stack_inv_owner:
  assumes "stack_inv n g ps w"
  shows "w p = InStack \<longleftrightarrow> p \<in> set ps" "w p \<noteq> NoOwner \<longleftrightarrow> allocated (ll_mmm g) p"
    "w p = InHand i \<longleftrightarrow> i < n \<and> p \<in> set (in_hand (lt_pcs g ! i))"
    "w p = InList i \<longleftrightarrow> i < n \<and> p \<in> set (mt_retire_list (lt_threads g ! i))"
  using assms unfolding stack_inv_def owner_inv_def by blast+

lemma stack_inv_length:
  assumes "stack_inv n g ps w"
  shows "length (lt_pcs g) = n" "length (lt_threads g) = n" "n \<le> HATRACK_THREADS_MAX"
    "mm_nexttid (ll_mmm g) = n" "length (mm_reservations (ll_mmm g)) = HATRACK_THREADS_MAX"
  using assms by (simp_all add: inv_defs)

lemma stack_inv_local:
  assumes "stack_inv n g ps w" "i < n"
  shows "mt_tid (lt_threads g ! i) = i" "retire_ok (ll_mmm g) (mt_retire_list (lt_threads g ! i))"
    "scan_ok n (mt_retire_list (lt_threads g ! i)) (lt_pcs g ! i)"
    "lt_pcs g ! i = Reserve op e \<Longrightarrow> e \<le> mm_epoch (ll_mmm g)"
    "reserving (lt_pcs g ! i) \<Longrightarrow> mm_reservations (ll_mmm g) ! i \<le> mm_epoch (ll_mmm g)"
    "held (lt_pcs g ! i) = Some p \<Longrightarrow> protected g w i p"
    "lt_pcs g ! i = PopCas p m \<Longrightarrow> ln_next (ll_nodes g p) = m"
    "item_set (ll_nodes g) (lt_pcs g ! i)"
    "thread_phase i (lt_log g) = Some (pc_phase (ll_nodes g) (lt_pcs g ! i))"
  using assms by (simp_all add: inv_defs)

section \<open>Steps that only move a thread\<close>

lemma stack_inv_moved:
  assumes inv: "stack_inv n g ps w" and i: "i < n"
    and hand: "in_hand pc = in_hand (lt_pcs g ! i)" and pop: "popped (lt_pcs g ! i) \<longrightarrow> popped pc"
    and minds: "\<And>j p. \<lbrakk>w p = InList i; held (lt_pcs g ! j) = Some p; j < n; minds j (retired_at (ll_mmm g) p) (lt_pcs g ! i);
        mm_reservations (ll_mmm g) ! j \<le> retired_at (ll_mmm g) p\<rbrakk>
        \<Longrightarrow> minds j (retired_at (ll_mmm g) p) pc"
    and held: "\<And>p. held pc = Some p \<Longrightarrow> protected g w i p"
    and cas: "\<And>p m. pc = PopCas p m \<Longrightarrow> ln_next (ll_nodes g p) = m"
    and ok: "\<not> faulted pc" "scan_ok n (mt_retire_list (lt_threads g ! i)) pc"
      "\<And>op e. pc = Reserve op e \<Longrightarrow> e \<le> mm_epoch (ll_mmm g)"
      "reserving pc \<Longrightarrow> mm_reservations (ll_mmm g) ! i \<le> mm_epoch (ll_mmm g)"
  shows "owner_inv n (goto_pc g i pc) ps w \<and> local_inv n (goto_pc g i pc) \<and> held_inv n (goto_pc g i pc) w"
proof -
  have len: "length (lt_pcs g) = n" using inv by (simp add: inv_defs)
  have "owner_inv n (goto_pc g i pc) ps w"
    using inv i hand len by (auto simp: inv_defs nth_list_update)
  moreover have "local_inv n (goto_pc g i pc)"
    using inv i ok len by (auto simp: inv_defs nth_list_update)
  moreover have "held_inv n (goto_pc g i pc) w"
  proof -
    have "protected (goto_pc g i pc) w j p" if "j < n" "held ((lt_pcs g)[i := pc] ! j) = Some p" for j p
    proof (cases "j = i")
      case True
      then have p: "held pc = Some p" "protected g w i p" using that held i len by simp_all
      then show ?thesis using True pop held_minds [OF p(1)] i len
        by (auto simp: protected_def nth_list_update split: owner.splits)
    next
      case False
      then have j: "held (lt_pcs g ! j) = Some p" "protected g w j p"
        using inv that by (auto simp: inv_defs nth_list_update)
      then show ?thesis using pop minds [OF _ j(1) that(1)] i len
        by (auto simp: protected_def nth_list_update split: owner.splits)
    qed
    then show ?thesis using inv cas i len by (auto simp: held_inv_def stack_inv_def nth_list_update)
  qed
  ultimately show ?thesis by blast
qed

lemma stack_inv_move:
  assumes inv: "stack_inv n g ps w" and i: "i < n"
    and moved: "owner_inv n (goto_pc g i pc) ps w \<and> local_inv n (goto_pc g i pc) \<and> held_inv n (goto_pc g i pc) w"
    and phase: "pc_phase (ll_nodes g) pc = pc_phase (ll_nodes g) (lt_pcs g ! i)" "item_set (ll_nodes g) pc"
  shows "stack_inv n (goto_pc g i pc) ps w"
  using moved inv i phase stack_inv_length(1) [OF inv] by (auto simp: stack_inv_def log_inv_def nth_list_update)

lemma protected_log: "protected (goto_pc (log_event g e) i pc) w j p = protected (goto_pc g i pc) w j p"
  by (simp add: protected_def split: owner.split)

lemma stack_inv_event:
  assumes inv: "stack_inv n g ps w" and i: "i < n"
    and moved: "owner_inv n (goto_pc g i pc) ps w \<and> local_inv n (goto_pc g i pc) \<and> held_inv n (goto_pc g i pc) w"
    and e: "event_thread e = i" "next_phase (pc_phase (ll_nodes g) (lt_pcs g ! i)) e = Some (pc_phase (ll_nodes g) pc)"
      "replay (e # lt_log g) = replay (lt_log g)" "item_set (ll_nodes g) pc"
  shows "stack_inv n (goto_pc (log_event g e) i pc) ps w"
proof -
  have "log_inv n (goto_pc (log_event g e) i pc) ps"
    using inv i e stack_inv_length(1) [OF inv]
    by (auto simp: stack_inv_def log_inv_def nth_list_update)
  moreover have "owner_inv n (goto_pc (log_event g e) i pc) ps w \<and> local_inv n (goto_pc (log_event g e) i pc) \<and>
      held_inv n (goto_pc (log_event g e) i pc) w"
    using moved by (simp add: owner_inv_def local_inv_def held_inv_def protected_log)
  ultimately show ?thesis by (simp add: stack_inv_def)
qed

section \<open>Changes of the shared state\<close>

lemma stack_inv_reservation:
  assumes inv: "stack_inv n g ps w" and i: "i < n" and free: "held (lt_pcs g ! i) = None" "\<not> reserving (lt_pcs g ! i)"
  shows "stack_inv n (g\<lparr>ll_mmm := (ll_mmm g)\<lparr>mm_reservations := (mm_reservations (ll_mmm g))[i := e]\<rparr>\<rparr>) ps w"
proof -
  let ?g = "g\<lparr>ll_mmm := (ll_mmm g)\<lparr>mm_reservations := (mm_reservations (ll_mmm g))[i := e]\<rparr>\<rparr>"
  have "protected ?g w j p = protected g w j p" if "j \<noteq> i" for j p
    using that by (auto simp: protected_def split: owner.splits)
  then have "held_inv n ?g w" using inv free unfolding stack_inv_def held_inv_def by simp (metis option.distinct(1))
  moreover have "local_inv n ?g" using inv i free by (auto simp: inv_defs nth_list_update)
  moreover have "owner_inv n ?g ps w" "log_inv n ?g ps" using inv by (simp_all add: inv_defs)
  ultimately show ?thesis by (simp add: stack_inv_def)
qed

lemma stack_inv_mmm:
  assumes inv: "stack_inv n g ps w"
    and m: "\<And>p. allocated m p = allocated (ll_mmm g) p" "\<And>p. retired_at m p = retired_at (ll_mmm g) p"
      "mm_epoch (ll_mmm g) \<le> mm_epoch m" "mm_reservations m = mm_reservations (ll_mmm g)"
      "mm_nexttid m = mm_nexttid (ll_mmm g)"
  shows "stack_inv n (g\<lparr>ll_mmm := m\<rparr>) ps w"
proof -
  have "protected (g\<lparr>ll_mmm := m\<rparr>) w j p = protected g w j p" for j p
    by (simp add: protected_def m split: owner.splits)
  then have "held_inv n (g\<lparr>ll_mmm := m\<rparr>) w" using inv by (simp add: stack_inv_def held_inv_def)
  moreover have "retire_ok m cs" if "retire_ok (ll_mmm g) cs" for cs
    by (rule retire_ok_cong [OF that]) (use that m in \<open>auto simp: retire_ok_def\<close>)
  then have "local_inv n (g\<lparr>ll_mmm := m\<rparr>)" using inv m(3-5) by (fastforce simp: inv_defs)
  moreover have "owner_inv n (g\<lparr>ll_mmm := m\<rparr>) ps w" "log_inv n (g\<lparr>ll_mmm := m\<rparr>) ps"
    using inv by (simp_all add: inv_defs m)
  ultimately show ?thesis by (simp add: stack_inv_def)
qed

lemma popped_in_hand: "popped pc \<Longrightarrow> \<exists>p. in_hand pc = [p]"
  by (cases pc) auto

lemma pc_phase_upd:
  assumes "p \<notin> set (in_hand pc) \<or> \<not> popped pc"
  shows "pc_phase (ns(p := x)) pc = pc_phase ns pc"
  using assms by (cases pc) auto

lemma item_set_upd: "p \<notin> set (in_hand pc) \<Longrightarrow> item_set (ns(p := x)) pc = item_set ns pc"
  by (cases pc) auto

lemma stack_inv_node:
  assumes inv: "stack_inv n g ps w" and i: "i < n"
    and p: "p \<in> set (in_hand (lt_pcs g ! i))" "\<not> popped (lt_pcs g ! i)"
    and item: "item_set ((ll_nodes g)(p := x)) (lt_pcs g ! i)"
  shows "stack_inv n (g\<lparr>ll_nodes := (ll_nodes g)(p := x)\<rparr>) ps w"
proof -
  let ?g = "g\<lparr>ll_nodes := (ll_nodes g)(p := x)\<rparr>"
  have w: "w p = InHand i" using inv i p(1) by (simp add: inv_defs)
  then have notin: "p \<notin> set ps" using stack_inv_owner(1) [OF inv, of p] by simp
  have other: "p \<notin> set (in_hand (lt_pcs g ! j))" if "j < n" "j \<noteq> i" for j
    using inv w that unfolding stack_inv_def owner_inv_def by (metis owner.inject(1))
  have "protected ?g w j q = protected g w j q" for j q by (simp add: protected_def split: owner.splits)
  moreover have "p \<noteq> q" if "j < n" "held (lt_pcs g ! j) = Some q" for j q
  proof
    assume "p = q"
    then have "protected g w j p" using inv that by (auto simp: inv_defs)
    then show False using w p(2) by (simp add: protected_def)
  qed
  ultimately have "held_inv n ?g w" using inv unfolding stack_inv_def held_inv_def by fastforce
  moreover have "owner_inv n ?g ps w" using inv notin by (simp add: inv_defs)
  moreover have "local_inv n ?g" using inv by (simp add: inv_defs)
  moreover have "map (\<lambda>q. ln_item (((ll_nodes g)(p := x)) q)) ps = map (\<lambda>q. ln_item (ll_nodes g q)) ps"
    using notin by auto
  then have "log_inv n ?g ps"
    using inv item p(2) other by (auto simp: stack_inv_def log_inv_def pc_phase_upd item_set_upd)
       (metis pc_phase_upd, metis item_set_upd)
  ultimately show ?thesis by (simp add: stack_inv_def)
qed

section \<open>Steps that pass a cell on\<close>

lemma zalloc_at:
  assumes "free_address m a"
  shows "allocated (mmm_zalloc_at m a) p \<longleftrightarrow> p = a \<or> allocated m p" "\<not> allocated m a"
    "allocated m p \<Longrightarrow> retired_at (mmm_zalloc_at m a) p = retired_at m p"
    "mm_epoch (mmm_zalloc_at m a) = mm_epoch m" "mm_reservations (mmm_zalloc_at m a) = mm_reservations m"
    "mm_nexttid (mmm_zalloc_at m a) = mm_nexttid m"
  using assms
  by (auto simp: free_address_def allocated_def mmm_zalloc_at_def retired_at_def nth_append nth_list_update)

lemma retire_ok_same:
  assumes "retire_ok m cs" "\<And>p. p \<in> set cs \<Longrightarrow> allocated m' p \<and> retired_at m' p = retired_at m p" "mm_epoch m \<le> mm_epoch m'"
  shows "retire_ok m' cs"
  by (rule retire_ok_cong [OF assms(1)]) (use assms in \<open>auto simp: retire_ok_def\<close>)

lemma stack_inv_alloc:
  assumes inv: "stack_inv n g ps w" and i: "i < n" "lt_pcs g ! i = Alloc v" and a: "free_address (ll_mmm g) a"
  shows "stack_inv n (goto_pc (g\<lparr>ll_mmm := mmm_zalloc_at (ll_mmm g) a\<rparr>) i (Commit v a)) ps (w(a := InHand i))"
proof -
  let ?g = "goto_pc (g\<lparr>ll_mmm := mmm_zalloc_at (ll_mmm g) a\<rparr>) i (Commit v a)" and ?w = "w(a := InHand i)"
  note len = stack_inv_length [OF inv] and own = stack_inv_owner [OF inv] and z = zalloc_at [OF a]
  have wa: "w a = NoOwner" using own(2) z(2) by blast
  have "owner_inv n ?g ps ?w" unfolding owner_inv_def
    using inv i len wa own(1,3,4) [of a] by (auto simp: inv_defs nth_list_update z)
  moreover have "retire_ok (mmm_zalloc_at (ll_mmm g) a) (mt_retire_list (lt_threads g ! j))" if "j < n" for j
    by (rule retire_ok_same [OF stack_inv_local(2) [OF inv that]])
       (use stack_inv_local(2) [OF inv that] in \<open>auto simp: z retire_ok_def\<close>)
  then have "local_inv n ?g" using inv i len by (auto simp: inv_defs nth_list_update z)
  moreover have "protected ?g ?w j p" if "j < n" "held (lt_pcs g ! j) = Some p" for j p
    using stack_inv_local(6) [OF inv that] wa own(2) [of p] i len z(3) [of p]
    by (auto simp: protected_def z nth_list_update split: owner.splits)
  then have "held_inv n ?g ?w" using inv i len by (auto simp: inv_defs nth_list_update)
  moreover have "log_inv n ?g ps" using inv i len by (auto simp: inv_defs nth_list_update)
  ultimately show ?thesis by (simp add: stack_inv_def)
qed

lemma stack_inv_publish:
  assumes inv: "stack_inv n g ps w" and i: "i < n" "lt_pcs g ! i = PushCas v p h"
    and p: "ln_next (ll_nodes g p) = ll_head g"
  shows "stack_inv n (goto_pc (log_event (g\<lparr>ll_head := Some p\<rparr>) (Effect i (Push v) None)) i (EndOp (Push v) None))
     (p # ps) (w(p := InStack))"
proof -
  let ?g = "goto_pc (log_event (g\<lparr>ll_head := Some p\<rparr>) (Effect i (Push v) None)) i (EndOp (Push v) None)"
  note len = stack_inv_length [OF inv] and own = stack_inv_owner [OF inv]
  have wp: "w p = InHand i" using own(3) [of p i] i by simp
  have alloc: "allocated (ll_mmm g) p" using own(2) [of p] wp by simp
  have "p \<notin> set ps" "j < n \<Longrightarrow> j \<noteq> i \<Longrightarrow> p \<notin> set (in_hand (lt_pcs g ! j))"
    "j < n \<Longrightarrow> p \<notin> set (mt_retire_list (lt_threads g ! j))" for j
    using own(1) [of p] own(3,4) [of p j] wp by auto
  then have "owner_inv n ?g (p # ps) (w(p := InStack))" unfolding owner_inv_def
    using inv i len wp p alloc by (auto simp: inv_defs nth_list_update)
  moreover have "local_inv n ?g" using inv i len by (auto simp: inv_defs nth_list_update)
  moreover have "protected ?g (w(p := InStack)) j q" if "j < n" "held (lt_pcs g ! j) = Some q" for j q
    using stack_inv_local(6) [OF inv that] wp i len
    by (auto simp: protected_def nth_list_update split: owner.splits)
  then have "held_inv n ?g (w(p := InStack))" using inv i len by (auto simp: inv_defs nth_list_update)
  moreover have "log_inv n ?g (p # ps)"
    using inv i len stack_inv_local(8,9) [OF inv i(1)] by (auto simp: inv_defs nth_list_update)
  ultimately show ?thesis by (simp add: stack_inv_def)
qed

lemma stack_inv_unlink:
  assumes inv: "stack_inv n g (p # ps) w" and i: "i < n" "lt_pcs g ! i = PopCas p m"
  shows "stack_inv n (goto_pc (log_event (g\<lparr>ll_head := m\<rparr>) (Effect i Pop (Some (ln_item (ll_nodes g p), True)))) i
     (PopItem p)) ps (w(p := InHand i))"
proof -
  let ?g = "goto_pc (log_event (g\<lparr>ll_head := m\<rparr>) (Effect i Pop (Some (ln_item (ll_nodes g p), True)))) i (PopItem p)"
  note len = stack_inv_length [OF inv] and own = stack_inv_owner [OF inv]
  have wp: "w p = InStack" using own(1) [of p] by simp
  have alloc: "allocated (ll_mmm g) p" using own(2) [of p] wp by simp
  have "p \<notin> set ps" "ln_next (ll_nodes g p) = m" using inv i by (simp_all add: inv_defs)
  moreover have "p \<notin> set (in_hand (lt_pcs g ! j))" "p \<notin> set (mt_retire_list (lt_threads g ! j))" if "j < n" for j
    using own(3,4) [of p j] wp that by auto
  ultimately have "owner_inv n ?g ps (w(p := InHand i))" unfolding owner_inv_def
    using inv i len wp alloc by (auto simp: inv_defs nth_list_update)
  moreover have "local_inv n ?g" using inv i len by (auto simp: inv_defs nth_list_update)
  moreover have "protected ?g (w(p := InHand i)) j q" if "j < n" "held (lt_pcs g ! j) = Some q" for j q
    using stack_inv_local(6) [OF inv that] wp i len
    by (auto simp: protected_def nth_list_update split: owner.splits)
  then have "held_inv n ?g (w(p := InHand i))" using inv i len by (auto simp: inv_defs nth_list_update)
  moreover have "log_inv n ?g ps"
    using inv i len stack_inv_local(9) [OF inv i(1)] by (auto simp: inv_defs nth_list_update)
  ultimately show ?thesis by (simp add: stack_inv_def)
qed

lemma set_header_facts:
  assumes "mmm_get_header m p = Inr h"
  shows "allocated (mmm_set_header m p h') q = allocated m q"
    "retired_at (mmm_set_header m p h') q = (if q = p then mh_retire_epoch h' else retired_at m q)"
    "mm_epoch (mmm_set_header m p h') = mm_epoch m" "mm_reservations (mmm_set_header m p h') = mm_reservations m"
    "mm_nexttid (mmm_set_header m p h') = mm_nexttid m" "allocated m p" "mm_cells m ! p = Some h"
  using assms
  by (auto simp: allocated_def mmm_set_header_def retired_at_def mmm_get_header_def nth_list_update outcome_simps
      split: if_splits option.splits)

lemma stack_inv_retire:
  assumes inv: "stack_inv n g ps w" and i: "i < n" "lt_pcs g ! i = Retire v p"
    and h: "mmm_get_header (ll_mmm g) p = Inr h"
    and pc: "pc = Empty v \<or> pc = EndOp Pop (Some (v, True))"
  shows "stack_inv n (goto_pc (g\<lparr>ll_mmm := mmm_set_header (ll_mmm g) p (h\<lparr>mh_retire_epoch := mm_epoch (ll_mmm g)\<rparr>),
     lt_threads := (lt_threads g)[i := retire_push (lt_threads g ! i) p]\<rparr>) i pc) ps (w(p := InList i))"
proof -
  let ?m = "mmm_set_header (ll_mmm g) p (h\<lparr>mh_retire_epoch := mm_epoch (ll_mmm g)\<rparr>)"
  let ?t = "retire_push (lt_threads g ! i) p"
  let ?g = "goto_pc (g\<lparr>ll_mmm := ?m, lt_threads := (lt_threads g)[i := ?t]\<rparr>) i pc"
  note len = stack_inv_length [OF inv] and own = stack_inv_owner [OF inv] and f = set_header_facts [OF h]
  have t: "mt_retire_list ?t = p # mt_retire_list (lt_threads g ! i)" "mt_tid ?t = mt_tid (lt_threads g ! i)"
    by (simp_all add: retire_push_def Let_def)
  have wp: "w p = InHand i" using own(3) [of p i] i by simp
  have no: "p \<notin> set ps" "j < n \<Longrightarrow> j \<noteq> i \<Longrightarrow> p \<notin> set (in_hand (lt_pcs g ! j))"
    "j < n \<Longrightarrow> p \<notin> set (mt_retire_list (lt_threads g ! j))" for j
    using own(1) [of p] own(3,4) [of p j] wp by auto
  then have owner: "owner_inv n ?g ps (w(p := InList i))" unfolding owner_inv_def
    using inv i len wp pc f(6) by (auto simp: inv_defs nth_list_update f t)
  have "retire_ok ?m (mt_retire_list (lt_threads g ! j))" if "j < n" for j
    by (rule retire_ok_same [OF stack_inv_local(2) [OF inv that]])
       (use stack_inv_local(2) [OF inv that] no(3) [OF that] in \<open>auto simp: f retire_ok_def\<close>)
  moreover have "retire_ok ?m (mt_retire_list ?t)" unfolding t
    using retire_ok_push [OF stack_inv_local(2) [OF inv i(1)] f(7)] f(6) no(3) [OF i(1)] by (simp add: allocated_def)
  ultimately have "local_inv n ?g" using inv i len pc by (auto simp: inv_defs nth_list_update f t)
  moreover have "protected ?g (w(p := InList i)) j q" if "j < n" "held (lt_pcs g ! j) = Some q" for j q
  proof -
    have "reserving (lt_pcs g ! j)" using that(2) by (cases "lt_pcs g ! j") auto
    then show ?thesis
      using stack_inv_local(5,6) [OF inv that(1)] that(2) wp i len pc own(3) [of q i]
      by (auto simp: protected_def nth_list_update f split: owner.splits)
  qed
  then have "held_inv n ?g (w(p := InList i))" using inv i len pc by (auto simp: inv_defs nth_list_update)
  moreover have "log_inv n ?g ps" using inv i len pc stack_inv_local(9) [OF inv i(1)] by (auto simp: inv_defs nth_list_update)
  ultimately show ?thesis using owner by (simp add: stack_inv_def)
qed

lemma stack_inv_cut:
  assumes inv: "stack_inv n g ps w" and i: "i < n" "lt_pcs g ! i = Cut v low"
  defines "cs \<equiv> mt_retire_list (lt_threads g ! i)"
  defines "doomed \<equiv> filter (\<lambda>p. retired_at (ll_mmm g) p < low) cs"
  shows "stack_inv n (goto_pc (g\<lparr>lt_threads := (lt_threads g)
       [i := (lt_threads g ! i)\<lparr>mt_retire_list := filter (\<lambda>p. low \<le> retired_at (ll_mmm g) p) cs\<rparr>]\<rparr>) i (FreeCells v doomed))
     ps (\<lambda>p. if p \<in> set doomed then InHand i else w p)"
proof -
  let ?t = "(lt_threads g ! i)\<lparr>mt_retire_list := filter (\<lambda>p. low \<le> retired_at (ll_mmm g) p) cs\<rparr>"
  let ?g = "goto_pc (g\<lparr>lt_threads := (lt_threads g)[i := ?t]\<rparr>) i (FreeCells v doomed)"
  let ?w = "\<lambda>p. if p \<in> set doomed then InHand i else w p"
  note len = stack_inv_length [OF inv] and own = stack_inv_owner [OF inv]
  have ok: "retire_ok (ll_mmm g) cs" unfolding cs_def by (rule stack_inv_local(2) [OF inv i(1)])
  have wd: "w p = InList i" if "p \<in> set doomed" for p
    using own(4) [of p i] i(1) that by (simp add: doomed_def cs_def)
  have "owner_inv n ?g ps ?w"
  proof -
    have "p \<notin> set ps" "allocated (ll_mmm g) p" "j < n \<Longrightarrow> p \<notin> set (in_hand (lt_pcs g ! j))"
        "j < n \<Longrightarrow> j \<noteq> i \<Longrightarrow> p \<notin> set (mt_retire_list (lt_threads g ! j))" if "p \<in> set doomed" for p j
      using own(1,2) [of p] own(3,4) [of p j] wd [OF that] by auto
    moreover have "p \<in> set cs \<and> low \<le> retired_at (ll_mmm g) p \<longleftrightarrow> p \<in> set cs \<and> p \<notin> set doomed" for p
      by (auto simp: doomed_def)
    moreover have "distinct doomed" using ok by (simp add: doomed_def retire_ok_def)
    moreover have "in_hand (lt_pcs g ! i) = []" using i(2) by simp
    ultimately show ?thesis unfolding owner_inv_def
      using inv i(1) len by (auto simp: inv_defs nth_list_update cs_def [symmetric] split: if_splits)
  qed
  moreover have "local_inv n ?g"
    using inv i len retire_ok_filter [OF ok] by (auto simp: inv_defs nth_list_update)
  moreover have "protected ?g ?w j q" if "j < n" "held (lt_pcs g ! j) = Some q" for j q
    using stack_inv_local(6) [OF inv that] i len wd [of q]
    by (auto simp: protected_def nth_list_update doomed_def split: owner.splits if_splits)
  then have "held_inv n ?g ?w" using inv i len by (auto simp: inv_defs nth_list_update)
  moreover have "log_inv n ?g ps" using inv i len stack_inv_local(9) [OF inv i(1)] by (auto simp: inv_defs nth_list_update)
  ultimately show ?thesis by (simp add: stack_inv_def)
qed

lemma free_facts:
  assumes "allocated m p"
  obtains m' where "mmm_free m p = Inr m'" "\<forall>q. allocated m' q \<longleftrightarrow> allocated m q \<and> q \<noteq> p"
    "\<forall>q. q \<noteq> p \<longrightarrow> retired_at m' q = retired_at m q" "mm_epoch m' = mm_epoch m"
    "mm_reservations m' = mm_reservations m" "mm_nexttid m' = mm_nexttid m"
  using assms that by (auto simp: mmm_free_def mmm_get_header_def allocated_def retired_at_def nth_list_update)

lemma stack_inv_free:
  assumes inv: "stack_inv n g ps w" and i: "i < n" "lt_pcs g ! i = FreeCells v (p # cs)"
  obtains m where "mmm_free (ll_mmm g) p = Inr m"
    "stack_inv n (goto_pc (g\<lparr>ll_mmm := m\<rparr>) i (FreeCells v cs)) ps (w(p := NoOwner))"
proof -
  note len = stack_inv_length [OF inv] and own = stack_inv_owner [OF inv]
  have wp: "w p = InHand i" using own(3) [of p i] i by simp
  then have "allocated (ll_mmm g) p" using own(2) [of p] by simp
  then obtain m where m: "mmm_free (ll_mmm g) p = Inr m"
    "\<forall>q. allocated m q \<longleftrightarrow> allocated (ll_mmm g) q \<and> q \<noteq> p"
    "\<forall>q. q \<noteq> p \<longrightarrow> retired_at m q = retired_at (ll_mmm g) q" "mm_epoch m = mm_epoch (ll_mmm g)"
    "mm_reservations m = mm_reservations (ll_mmm g)" "mm_nexttid m = mm_nexttid (ll_mmm g)"
    by (rule free_facts)
  let ?g = "goto_pc (g\<lparr>ll_mmm := m\<rparr>) i (FreeCells v cs)" and ?w = "w(p := NoOwner)"
  have no: "p \<notin> set ps" "j < n \<Longrightarrow> j \<noteq> i \<Longrightarrow> p \<notin> set (in_hand (lt_pcs g ! j))"
    "j < n \<Longrightarrow> p \<notin> set (mt_retire_list (lt_threads g ! j))" for j
    using own(1) [of p] own(3,4) [of p j] wp by auto
  have cs: "p \<notin> set cs" "distinct cs" using inv i by (auto simp: stack_inv_def owner_inv_def)
  then have owner: "owner_inv n ?g ps ?w" unfolding owner_inv_def
    using no inv i len wp m by (auto simp: inv_defs nth_list_update)
  have "retire_ok m (mt_retire_list (lt_threads g ! j))" if "j < n" for j
    by (rule retire_ok_same [OF stack_inv_local(2) [OF inv that]])
       (use stack_inv_local(2) [OF inv that] no(3) [OF that] m in \<open>auto simp: retire_ok_def\<close>)
  then have "local_inv n ?g" using inv i len m(4-6) by (auto simp: inv_defs nth_list_update)
  moreover have "protected ?g ?w j q" if "j < n" "held (lt_pcs g ! j) = Some q" for j q
  proof -
    have "q \<noteq> p" using stack_inv_local(6) [OF inv that] wp i by (auto simp: protected_def)
    then show ?thesis
      using stack_inv_local(6) [OF inv that] i len m
      by (auto simp: protected_def nth_list_update split: owner.splits)
  qed
  then have "held_inv n ?g ?w" using inv i len by (auto simp: inv_defs nth_list_update)
  moreover have "log_inv n ?g ps" using inv i len stack_inv_local(9) [OF inv i(1)] by (auto simp: inv_defs nth_list_update)
  ultimately show ?thesis using that [of m] m(1) owner by (simp add: stack_inv_def)
qed

text \<open>What a thread holds or has in hand can be read.\<close>

lemma stack_inv_allocated:
  assumes inv: "stack_inv n g ps w" and i: "i < n" and p: "held (lt_pcs g ! i) = Some p \<or> p \<in> set (in_hand (lt_pcs g ! i))"
  shows "allocated (ll_mmm g) p" "read_node g p = Inr (ll_nodes g p)" "\<exists>h. mmm_get_header (ll_mmm g) p = Inr h"
proof -
  have "w p \<noteq> NoOwner"
    using stack_inv_local(6) [OF inv i, of p] stack_inv_owner(3) [OF inv, of p i] i p by (auto simp: protected_def)
  then show "allocated (ll_mmm g) p" using stack_inv_owner(2) [OF inv] by blast
  from get_header_allocated [OF this]
  show "read_node g p = Inr (ll_nodes g p)" "\<exists>h. mmm_get_header (ll_mmm g) p = Inr h"
    by (auto simp: read_node_def)
qed

section \<open>Every step keeps the invariant\<close>

lemma pop_look_inv:
  assumes inv: "stack_inv n g ps w" and i: "i < n" and pc: "lt_pcs g ! i = PopRead \<or> lt_pcs g ! i = PopCas p m"
  shows "stack_inv n (pop_look g i) ps w"
proof (cases "ll_head g")
  case None
  then have "ps = []" using inv by (cases ps) (auto simp: inv_defs)
  then have replay: "replay (lt_log g) = Some []" using inv by (simp add: inv_defs)
  show ?thesis unfolding pop_look_def None option.case
    by (rule stack_inv_event [OF inv i stack_inv_moved [OF inv i]]) (use pc replay in auto)
next
  case (Some q)
  then have "q \<in> set ps" using inv by (cases ps) (auto simp: inv_defs)
  then have q: "w q = InStack" using stack_inv_owner(1) [OF inv] by blast
  have "reserving (lt_pcs g ! i)" using pc by auto
  then have res: "mm_reservations (ll_mmm g) ! i \<le> mm_epoch (ll_mmm g)" by (rule stack_inv_local(5) [OF inv i])
  show ?thesis unfolding pop_look_def Some option.case
    by (rule stack_inv_move [OF inv i stack_inv_moved [OF inv i]]) (use pc q res in \<open>auto simp: protected_def\<close>)
qed

lemma call_inv:
  assumes inv: "stack_inv n g ps w" and i: "i < n" "lt_pcs g ! i = Rest"
  shows "stack_inv n (goto_pc (log_event g (Called i op)) i (Epoch op)) ps w"
  by (rule stack_inv_event [OF inv i(1) stack_inv_moved [OF inv i(1)]]) (use i in auto)

lemma reserve_eq:
  assumes inv: "stack_inv n g ps w" and i: "i < n"
  shows "mmm_reserve (ll_mmm g) (mt_tid (lt_threads g ! i)) e =
    Inr ((ll_mmm g)\<lparr>mm_reservations := (mm_reservations (ll_mmm g))[i := e]\<rparr>)"
  using stack_inv_length [OF inv] stack_inv_local(1) [OF inv i] i by (simp add: mmm_reserve_def)

lemma reserve_inv:
  assumes inv: "stack_inv n g ps w" and i: "i < n" and pc: "lt_pcs g ! i = Reserve op e"
  shows "\<exists>g'. llstack_step g i a (Reserve op e) = Some g' \<and> stack_inv n g' ps w"
proof -
  let ?g = "g\<lparr>ll_mmm := (ll_mmm g)\<lparr>mm_reservations := (mm_reservations (ll_mmm g))[i := e]\<rparr>\<rparr>"
  have inv1: "stack_inv n ?g ps w" by (rule stack_inv_reservation [OF inv i]) (simp_all add: pc)
  have e: "e \<le> mm_epoch (ll_mmm g)" "i < length (mm_reservations (ll_mmm g))"
    using stack_inv_local(4) [OF inv i pc] stack_inv_length [OF inv] i by simp_all
  have "stack_inv n (goto_pc ?g i (case op of Push v \<Rightarrow> Alloc v | Pop \<Rightarrow> PopRead)) ps w"
    by (rule stack_inv_move [OF inv1 i stack_inv_moved [OF inv1 i]]) (use pc e in \<open>auto split: llstack_op.splits\<close>)
  then show ?thesis by (simp add: reserve_eq [OF inv i])
qed

lemma commit_inv:
  assumes inv: "stack_inv n g ps w" and i: "i < n" and pc: "lt_pcs g ! i = Commit v p"
    and e: "mm_epoch (ll_mmm g) + 1 < 2 ^ 64"
  shows "\<exists>g'. llstack_step g i a (Commit v p) = Some g' \<and> stack_inv n g' ps w"
proof -
  obtain h where h: "mmm_get_header (ll_mmm g) p = Inr h" using stack_inv_allocated(3) [OF inv i] pc by auto
  define e' where "e' = mm_epoch (ll_mmm g) + 1"
  let ?m1 = "(ll_mmm g)\<lparr>mm_epoch := e'\<rparr>"
  let ?m = "mmm_set_header ?m1 p (h\<lparr>mh_write_epoch := e'\<rparr>)"
  have h1: "mmm_get_header ?m1 p = Inr h" using h by (simp add: mmm_get_header_def)
  note f = set_header_facts [OF h1] and f0 = set_header_facts [OF h]
  have h_at: "mh_retire_epoch h = retired_at (ll_mmm g) p" using f0(7) by (simp add: retired_at_def)
  have inv1: "stack_inv n (g\<lparr>ll_mmm := ?m\<rparr>) ps w"
    by (rule stack_inv_mmm [OF inv]) (simp_all add: f h_at, simp_all add: allocated_def retired_at_def e'_def)
  have "stack_inv n (goto_pc (g\<lparr>ll_mmm := ?m\<rparr>) i (PushRead v p)) ps w"
    by (rule stack_inv_move [OF inv1 i stack_inv_moved [OF inv1 i]]) (use pc in auto)
  then show ?thesis using h wrap64_id [OF e] by (simp add: mmm_next_epoch_def e'_def)
qed

lemma push_read_inv:
  assumes inv: "stack_inv n g ps w" and i: "i < n" and pc: "lt_pcs g ! i = PushRead v p"
  shows "\<exists>g'. llstack_step g i a (PushRead v p) = Some g' \<and> stack_inv n g' ps w"
proof -
  have node: "read_node g p = Inr (ll_nodes g p)" using stack_inv_allocated(2) [OF inv i] pc by simp
  let ?g = "g\<lparr>ll_nodes := (ll_nodes g)(p := (ll_nodes g p)\<lparr>ln_item := v\<rparr>)\<rparr>"
  have inv1: "stack_inv n ?g ps w" by (rule stack_inv_node [OF inv i]) (simp_all add: pc)
  have "stack_inv n (goto_pc ?g i (PushCas v p (ll_head g))) ps w"
    by (rule stack_inv_move [OF inv1 i stack_inv_moved [OF inv1 i]]) (use pc in auto)
  then show ?thesis by (simp add: node)
qed

lemma push_cas_inv:
  assumes inv: "stack_inv n g ps w" and i: "i < n" and pc: "lt_pcs g ! i = PushCas v p h"
  shows "\<exists>g' ps' w'. llstack_step g i a (PushCas v p h) = Some g' \<and> stack_inv n g' ps' w'"
proof -
  have node: "read_node g p = Inr (ll_nodes g p)" using stack_inv_allocated(2) [OF inv i] pc by simp
  let ?g = "g\<lparr>ll_nodes := (ll_nodes g)(p := (ll_nodes g p)\<lparr>ln_next := h\<rparr>)\<rparr>"
  have inv1: "stack_inv n ?g ps w"
    by (rule stack_inv_node [OF inv i]) (use stack_inv_local(8) [OF inv i] in \<open>simp_all add: pc\<close>)
  have pc1: "lt_pcs ?g ! i = PushCas v p h" using pc by simp
  show ?thesis
  proof (cases "ll_head g = h")
    case True
    then show ?thesis using stack_inv_publish [OF inv1 i pc1] by (auto simp: node)
  next
    case False
    have "stack_inv n (goto_pc ?g i (PushCas v p (ll_head g))) ps w"
      by (rule stack_inv_move [OF inv1 i stack_inv_moved [OF inv1 i]])
         (use pc stack_inv_local(8) [OF inv1 i] in auto)
    then show ?thesis using False by (auto simp: node)
  qed
qed

lemma pop_next_inv:
  assumes inv: "stack_inv n g ps w" and i: "i < n" and pc: "lt_pcs g ! i = PopNext p"
  shows "\<exists>g'. llstack_step g i a (PopNext p) = Some g' \<and> stack_inv n g' ps w"
proof -
  have node: "read_node g p = Inr (ll_nodes g p)" using stack_inv_allocated(2) [OF inv i] pc by simp
  have "stack_inv n (goto_pc g i (PopCas p (ln_next (ll_nodes g p)))) ps w"
    by (rule stack_inv_move [OF inv i stack_inv_moved [OF inv i]])
       (use pc stack_inv_local(5,6) [OF inv i] in auto)
  then show ?thesis by (simp add: node)
qed

lemma pop_cas_inv:
  assumes inv: "stack_inv n g ps w" and i: "i < n" and pc: "lt_pcs g ! i = PopCas p m"
  shows "\<exists>g' ps' w'. llstack_step g i a (PopCas p m) = Some g' \<and> stack_inv n g' ps' w'"
proof (cases "ll_head g = Some p")
  case True
  then obtain qs where ps: "ps = p # qs" using inv by (cases ps) (auto simp: inv_defs)
  from stack_inv_unlink [OF inv [unfolded ps] i pc] show ?thesis using True by auto
next
  case False
  then show ?thesis using pop_look_inv [OF inv i disjI2 [OF pc]] by auto
qed

lemma pop_item_inv:
  assumes inv: "stack_inv n g ps w" and i: "i < n" and pc: "lt_pcs g ! i = PopItem p"
  shows "\<exists>g'. llstack_step g i a (PopItem p) = Some g' \<and> stack_inv n g' ps w"
proof -
  have node: "read_node g p = Inr (ll_nodes g p)" using stack_inv_allocated(2) [OF inv i] pc by simp
  have "stack_inv n (goto_pc g i (Retire (ln_item (ll_nodes g p)) p)) ps w"
    by (rule stack_inv_move [OF inv i stack_inv_moved [OF inv i]]) (use pc in auto)
  then show ?thesis by (simp add: node)
qed

lemma retire_inv:
  assumes inv: "stack_inv n g ps w" and i: "i < n" and pc: "lt_pcs g ! i = Retire v p"
  shows "\<exists>g' w'. llstack_step g i a (Retire v p) = Some g' \<and> stack_inv n g' ps w'"
proof -
  obtain h where h: "mmm_get_header (ll_mmm g) p = Inr h" using stack_inv_allocated(3) [OF inv i] pc by auto
  note r = stack_inv_retire [OF inv i pc h]
  show ?thesis
    by (cases "(mt_retire_ctr (lt_threads g ! i) + 1) AND HATRACK_RETIRE_FREQ = 0")
       (use r [of "Empty v"] r [of "EndOp Pop (Some (v, True))"] in \<open>auto simp: h Let_def\<close>)
qed

lemma empty_inv:
  assumes inv: "stack_inv n g ps w" and i: "i < n" and pc: "lt_pcs g ! i = Empty v"
  shows "\<exists>g'. llstack_step g i a (Empty v) = Some g' \<and> stack_inv n g' ps w"
proof -
  have "stack_inv n (goto_pc g i (Scan v n 0 HATRACK_EPOCH_MAX)) ps w"
    by (rule stack_inv_move [OF inv i stack_inv_moved [OF inv i]])
       (use pc stack_inv_local(3) [OF inv i] in auto)
  then show ?thesis using stack_inv_length(3,4) [OF inv] by simp
qed

lemma scan_inv:
  assumes inv: "stack_inv n g ps w" and i: "i < n" and pc: "lt_pcs g ! i = Scan v lasttid k low"
  shows "\<exists>g'. llstack_step g i a (Scan v lasttid k low) = Some g' \<and> stack_inv n g' ps w"
proof -
  have l: "lasttid = n" "mt_retire_list (lt_threads g ! i) \<noteq> []" using stack_inv_local(3) [OF inv i] pc by simp_all
  show ?thesis
  proof (cases "k < n")
    case True
    let ?r = "mm_reservations (ll_mmm g) ! k"
    have "stack_inv n (goto_pc g i (Scan v n (k + 1) (if ?r < low then ?r else low))) ps w"
      by (rule stack_inv_move [OF inv i stack_inv_moved [OF inv i]])
         (use pc l in \<open>auto simp: less_Suc_eq\<close>)
    moreover have "read_at (mm_reservations (ll_mmm g)) k = Inr ?r"
      using True stack_inv_length(3,5) [OF inv] by simp
    ultimately show ?thesis using True l by simp
  next
    case False
    have "stack_inv n (goto_pc g i (Cut v low)) ps w"
      by (rule stack_inv_move [OF inv i stack_inv_moved [OF inv i]]) (use pc l False in auto)
    then show ?thesis using False l by simp
  qed
qed

lemma cut_inv:
  assumes inv: "stack_inv n g ps w" and i: "i < n" and pc: "lt_pcs g ! i = Cut v low"
  shows "\<exists>g' w'. llstack_step g i a (Cut v low) = Some g' \<and> stack_inv n g' ps w'"
proof -
  have "mt_retire_list (lt_threads g ! i) \<noteq> []" using stack_inv_local(3) [OF inv i] pc by simp
  from mmm_split_eq [OF stack_inv_local(2) [OF inv i] this] stack_inv_cut [OF inv i pc]
  show ?thesis by auto
qed

lemma free_inv:
  assumes inv: "stack_inv n g ps w" and i: "i < n" and pc: "lt_pcs g ! i = FreeCells v cs"
  shows "\<exists>g' w'. llstack_step g i a (FreeCells v cs) = Some g' \<and> stack_inv n g' ps w'"
proof (cases cs)
  case Nil
  have "stack_inv n (goto_pc g i (EndOp Pop (Some (v, True)))) ps w"
    by (rule stack_inv_move [OF inv i stack_inv_moved [OF inv i]]) (use pc Nil in auto)
  then show ?thesis using Nil by auto
next
  case (Cons p cs')
  show ?thesis by (rule stack_inv_free [OF inv i pc [unfolded Cons]]) (auto simp: Cons)
qed

lemma end_op_inv:
  assumes inv: "stack_inv n g ps w" and i: "i < n" and pc: "lt_pcs g ! i = EndOp op r"
  shows "\<exists>g'. llstack_step g i a (EndOp op r) = Some g' \<and> stack_inv n g' ps w"
proof -
  let ?g = "g\<lparr>ll_mmm := (ll_mmm g)\<lparr>mm_reservations := (mm_reservations (ll_mmm g))[i := HATRACK_EPOCH_UNRESERVED]\<rparr>\<rparr>"
  have inv1: "stack_inv n ?g ps w" by (rule stack_inv_reservation [OF inv i]) (simp_all add: pc)
  have "stack_inv n (goto_pc (log_event ?g (Returned i r)) i Rest) ps w"
    by (rule stack_inv_event [OF inv1 i stack_inv_moved [OF inv1 i]]) (use pc in auto)
  then show ?thesis by (simp add: reserve_eq [OF inv i])
qed

text \<open>A thread in an operation can always take its next step, and the step keeps the invariant.\<close>

lemma llstack_step_inv:
  assumes inv: "stack_inv n g ps w" and i: "i < n" and e: "mm_epoch (ll_mmm g) + 1 < 2 ^ 64"
    and busy: "lt_pcs g ! i \<noteq> Rest" and a: "\<And>v. lt_pcs g ! i = Alloc v \<Longrightarrow> free_address (ll_mmm g) a"
  shows "\<exists>g' ps' w'. llstack_step g i a (lt_pcs g ! i) = Some g' \<and> stack_inv n g' ps' w'"
proof (cases "lt_pcs g ! i")
  case (Epoch op)
  have "stack_inv n (goto_pc g i (Reserve op (mm_epoch (ll_mmm g)))) ps w"
    by (rule stack_inv_move [OF inv i stack_inv_moved [OF inv i]]) (use Epoch in auto)
  then show ?thesis by (auto simp: Epoch)
next
  case (Alloc v)
  then show ?thesis using stack_inv_alloc [OF inv i Alloc a] a [OF Alloc] by auto
next
  case PopRead
  then show ?thesis using pop_look_inv [OF inv i disjI1 [OF PopRead]] by auto
next
  case (Crash e)
  then show ?thesis using inv i by (auto simp: inv_defs)
next
  case (Reserve op e')
  show ?thesis unfolding Reserve using reserve_inv [OF inv i Reserve] by blast
next
  case (Commit v p)
  show ?thesis unfolding Commit using commit_inv [OF inv i Commit e] by blast
next
  case (PushRead v p)
  show ?thesis unfolding PushRead using push_read_inv [OF inv i PushRead] by blast
next
  case (PushCas v p h)
  show ?thesis unfolding PushCas using push_cas_inv [OF inv i PushCas] by blast
next
  case (PopNext p)
  show ?thesis unfolding PopNext using pop_next_inv [OF inv i PopNext] by blast
next
  case (PopCas p m)
  show ?thesis unfolding PopCas using pop_cas_inv [OF inv i PopCas] by blast
next
  case (PopItem p)
  show ?thesis unfolding PopItem using pop_item_inv [OF inv i PopItem] by blast
next
  case (Retire v p)
  show ?thesis unfolding Retire using retire_inv [OF inv i Retire] by blast
next
  case (Empty v)
  show ?thesis unfolding Empty using empty_inv [OF inv i Empty] by blast
next
  case (Scan v l k low)
  show ?thesis unfolding Scan using scan_inv [OF inv i Scan] by blast
next
  case (Cut v low)
  show ?thesis unfolding Cut using cut_inv [OF inv i Cut] by blast
next
  case (FreeCells v cs)
  show ?thesis unfolding FreeCells using free_inv [OF inv i FreeCells] by blast
next
  case (EndOp op r)
  show ?thesis unfolding EndOp using end_op_inv [OF inv i EndOp] by blast
qed (use busy in simp)

lemma wrap64_le: "wrap64 n \<le> n"
  by (simp add: wrap64_def)

lemma pop_look_mmm [simp]: "ll_mmm (pop_look g i) = ll_mmm g"
  by (simp add: pop_look_def split: option.split)

lemma llstack_step_epoch:
  assumes "llstack_step g i a pc = Some g'"
  shows "mm_epoch (ll_mmm g') \<le> mm_epoch (ll_mmm g) + 1"
  using assms
proof (cases pc)
  case (FreeCells v cs)
  then show ?thesis using assms
    by (cases cs) (auto simp: step_with_def mmm_free_def and_then_def split: sum.splits)
qed (auto simp: step_with_def mmm_reserve_def mmm_zalloc_at_def mmm_next_epoch_def mmm_set_header_def Let_def
      wrap64_le split: sum.splits if_splits)

lemma stack_step_inv:
  assumes inv: "stack_inv n g ps w" and e: "mm_epoch (ll_mmm g) + 1 < 2 ^ 64" and st: "stack_step g g'"
  shows "(\<exists>ps' w'. stack_inv n g' ps' w') \<and> mm_epoch (ll_mmm g') \<le> mm_epoch (ll_mmm g) + 1"
  using st
proof cases
  case (call i op)
  then show ?thesis using call_inv [OF inv] stack_inv_length(1) [OF inv] by auto
next
  case (run i a)
  then have i: "i < n" "lt_pcs g ! i \<noteq> Rest" using stack_inv_length(1) [OF inv] by auto
  have "free_address (ll_mmm g) a" if "lt_pcs g ! i = Alloc v" for v
    using run(2) that by (auto split: if_splits)
  from llstack_step_inv [OF inv i(1) e i(2) this] llstack_step_epoch [OF run(2)] run(2)
  show ?thesis by auto
qed

lemma stack_start_inv:
  assumes "n \<le> HATRACK_THREADS_MAX"
  shows "stack_inv n (stack_start n) [] (\<lambda>_. NoOwner)"
  using assms
  by (auto simp: inv_defs stack_start_def mmm_start_def allocated_def retire_ok_def nth_append)

lemma stack_reach_inv:
  assumes "stack_reach n k g" "n \<le> HATRACK_THREADS_MAX" "k + 2 < 2 ^ 64"
  shows "(\<exists>ps w. stack_inv n g ps w) \<and> mm_epoch (ll_mmm g) \<le> k + 1"
  using assms
proof (induction rule: stack_reach.induct)
  case start
  then show ?case using stack_start_inv by (auto simp: stack_start_def mmm_start_def HATRACK_EPOCH_FIRST_def)
next
  case (step k g g')
  then obtain ps w where inv: "stack_inv n g ps w" and e: "mm_epoch (ll_mmm g) \<le> k + 1" by auto
  have "mm_epoch (ll_mmm g) + 1 < 2 ^ 64" using e step.prems by simp
  from stack_step_inv [OF inv this step.hyps(2)] e show ?case by auto
qed

section \<open>A thread that runs alone\<close>

definition todo :: "llstack_system \<Rightarrow> nat \<Rightarrow> nat" where
  "todo g i =
     (let r = mm_nexttid (ll_mmm g) + length (mt_retire_list (lt_threads g ! i)) in
      case lt_pcs g ! i of
        Rest \<Rightarrow> 0 | Crash e \<Rightarrow> 0
      | EndOp op r \<Rightarrow> 1
      | FreeCells v cs \<Rightarrow> 2 + length cs
      | Cut v low \<Rightarrow> 3 + length (mt_retire_list (lt_threads g ! i))
      | Scan v lasttid k low \<Rightarrow> 4 + (lasttid - k) + length (mt_retire_list (lt_threads g ! i))
      | Empty v \<Rightarrow> 5 + r
      | Retire v p \<Rightarrow> 7 + r
      | PopItem p \<Rightarrow> 8 + r
      | PopCas p m \<Rightarrow> (if ll_head g = Some p then 9 else 11) + r
      | PopNext p \<Rightarrow> (if ll_head g = Some p then 10 else 12) + r
      | PopRead \<Rightarrow> 13 + r
      | PushCas v p h \<Rightarrow> (if ll_head g = h then 2 else 3)
      | PushRead v p \<Rightarrow> 4
      | Commit v p \<Rightarrow> 5
      | Alloc v \<Rightarrow> 6
      | Reserve op e \<Rightarrow> 14 + r
      | Epoch op \<Rightarrow> 15 + r)"

text \<open>Thread \<open>i\<close> runs \<open>k\<close> steps with no other thread in between.\<close>

fun solo_run :: "nat \<Rightarrow> llstack_system \<Rightarrow> nat \<Rightarrow> llstack_system" where
  "solo_run 0 g i = g"
| "solo_run (Suc k) g i =
     (case llstack_step g i (length (mm_cells (ll_mmm g))) (lt_pcs g ! i) of
        None \<Rightarrow> g | Some g' \<Rightarrow> solo_run k g' i)"

lemma todo_decreases:
  assumes inv: "stack_inv n g ps w" and i: "i < n" and st: "llstack_step g i a (lt_pcs g ! i) = Some g'"
  shows "todo g' i < todo g i"
proof (cases "lt_pcs g ! i")
  case (Cut v low)
  have ne: "mt_retire_list (lt_threads g ! i) \<noteq> []" using stack_inv_local(3) [OF inv i] Cut by simp
  show ?thesis
    using st mmm_split_eq [OF stack_inv_local(2) [OF inv i] ne] Cut stack_inv_length [OF inv] i
    by (auto simp: todo_def le_imp_less_Suc)
next
  case (FreeCells v cs)
  then show ?thesis using st stack_inv_length [OF inv] i
    by (cases cs) (auto simp: todo_def step_with_def Let_def mmm_free_def and_then_def split: sum.splits)
next
  case (Retire v p)
  then show ?thesis using st stack_inv_length [OF inv] i
    by (auto simp: todo_def step_with_def Let_def retire_push_def mmm_set_header_def split: sum.splits if_splits)
qed (use st stack_inv_length [OF inv] i in \<open>auto simp: todo_def step_with_def Let_def pop_look_def log_event_def mmm_reserve_def mmm_zalloc_at_def
   mmm_next_epoch_def mmm_set_header_def read_node_def and_then_def read_at_def split: sum.splits if_splits option.splits llstack_op.splits\<close>)

lemma solo_run_rest:
  assumes "stack_inv n g ps w" "i < n" "mm_epoch (ll_mmm g) + k < 2 ^ 64" "todo g i \<le> k"
  shows "lt_pcs (solo_run k g i) ! i = Rest"
  using assms
proof (induction k arbitrary: g ps w)
  case 0
  then have "\<not> faulted (lt_pcs g ! i)" by (simp add: inv_defs)
  with 0 show ?case by (cases "lt_pcs g ! i") (auto simp: todo_def Let_def split: if_splits)
next
  case (Suc k)
  let ?a = "length (mm_cells (ll_mmm g))"
  show ?case
  proof (cases "lt_pcs g ! i = Rest")
    case False
    have "free_address (ll_mmm g) ?a" by (simp add: free_address_def)
    then obtain g' ps' w' where g': "llstack_step g i ?a (lt_pcs g ! i) = Some g'" "stack_inv n g' ps' w'"
      using llstack_step_inv [OF Suc.prems(1,2) _ False, of ?a] Suc.prems(3) by auto
    have "mm_epoch (ll_mmm g') + k < 2 ^ 64" "todo g' i \<le> k"
      using llstack_step_epoch [OF g'(1)] todo_decreases [OF Suc.prems(1,2) g'(1)] Suc.prems(3,4) by auto
    from Suc.IH [OF g'(2) Suc.prems(2) this] show ?thesis by (simp add: g'(1))
  qed simp
qed

lemma todo_bound:
  assumes "stack_inv n g ps w" "i < n"
  shows "todo g i \<le> 15 + n + length (mt_retire_list (lt_threads g ! i)) \<or> (\<exists>v cs. lt_pcs g ! i = FreeCells v cs)"
  using stack_inv_length(4) [OF assms(1)] stack_inv_local(3) [OF assms]
  by (cases "lt_pcs g ! i") (auto simp: todo_def Let_def)

text \<open>Two threads, one of which has called push.\<close>

definition stack_called :: llstack_system where
  "stack_called = goto_pc (log_event (stack_start 2) (Called 0 (Push 7))) 0 (Epoch (Push 7))"

lemma stack_called_reach: "stack_reach 2 1 stack_called"
proof -
  have "stack_step (stack_start 2) stack_called"
    unfolding stack_called_def by (rule stack_step.call) (simp_all add: stack_start_def)
  from stack_reach.step [OF stack_reach.start this] show ?thesis by simp
qed

section \<open>Properties\<close>

text \<open>C9: Any number of threads may push and pop at once: no interleaving makes a thread read or free
  memory that was freed, even though nodes are freed while other threads still hold pointers to
  them and their addresses are handed out again; and no node is leaked: every allocated cell is on
  the stack, in the hands of one thread, or on one thread's retire list.\<close>

theorem llstack_threads_memory_safe:
  assumes "stack_reach n k g" "n \<le> HATRACK_THREADS_MAX" "k + 2 < 2 ^ 64"
  shows "(\<forall>i < n. \<not> faulted (lt_pcs g ! i)) \<and>
     (\<exists>ps. chain (ll_nodes g) (ll_head g) ps \<and> distinct ps \<and>
        (\<forall>p. allocated (ll_mmm g) p \<longleftrightarrow> p \<in> set ps \<or>
           (\<exists>i < n. p \<in> set (in_hand (lt_pcs g ! i)) \<or> p \<in> set (mt_retire_list (lt_threads g ! i)))))"
proof -
  obtain ps w where inv: "stack_inv n g ps w" using stack_reach_inv [OF assms] by blast
  note own = stack_inv_owner [OF inv]
  have "allocated (ll_mmm g) p \<longleftrightarrow> p \<in> set ps \<or>
      (\<exists>i < n. p \<in> set (in_hand (lt_pcs g ! i)) \<or> p \<in> set (mt_retire_list (lt_threads g ! i)))" for p
    using own(1,2) [of p] own(3,4) [of p] by (cases "w p") auto
  with inv show ?thesis by (auto simp: stack_inv_def owner_inv_def local_inv_def)
qed

theorem llstack_threads_memory_safe_witness:
  "\<exists>ps. chain (ll_nodes stack_called) (ll_head stack_called) ps \<and>
     (\<forall>p. allocated (ll_mmm stack_called) p \<longleftrightarrow> p \<in> set ps \<or>
        (\<exists>i < 2. p \<in> set (in_hand (lt_pcs stack_called ! i)) \<or> p \<in> set (mt_retire_list (lt_threads stack_called ! i))))"
  using llstack_threads_memory_safe [OF stack_called_reach] by (auto simp: HATRACK_THREADS_MAX_def)

text \<open>C8: The stack is linearizable: in any interleaving, each operation takes effect once between its call
  and its return and returns the result it took effect with, and the operations in the order of
  their effects are a run of a sequential last-in first-out stack that ends with the items now on
  the list.\<close>

theorem llstack_threads_linearizable:
  assumes "stack_reach n k g" "n \<le> HATRACK_THREADS_MAX" "k + 2 < 2 ^ 64"
  shows "(\<exists>ps. chain (ll_nodes g) (ll_head g) ps \<and> replay (lt_log g) = Some (map (\<lambda>p. ln_item (ll_nodes g p)) ps)) \<and>
     (\<forall>i < n. thread_phase i (lt_log g) = Some (pc_phase (ll_nodes g) (lt_pcs g ! i)))"
proof -
  obtain ps w where "stack_inv n g ps w" using stack_reach_inv [OF assms] by blast
  then show ?thesis by (auto simp: stack_inv_def owner_inv_def log_inv_def)
qed

theorem llstack_threads_linearizable_witness:
  "\<exists>ps. chain (ll_nodes stack_called) (ll_head stack_called) ps \<and>
     replay (lt_log stack_called) = Some (map (\<lambda>p. ln_item (ll_nodes stack_called p)) ps)"
  using llstack_threads_linearizable [OF stack_called_reach] by (auto simp: HATRACK_THREADS_MAX_def)

text \<open>C10: Operations are obstruction-free: a thread in the middle of a push or a pop, whatever the others
  have left behind, returns within a bounded number of its own steps if it runs alone, even where its CAS
  has to fail first; the bound is the number of threads plus the cells it has retired, plus a
  constant.\<close>

theorem llstack_solo_returns:
  assumes "stack_reach n k g" "n \<le> HATRACK_THREADS_MAX" "i < n"
    "b = 15 + n + length (mt_retire_list (lt_threads g ! i)) + length (in_hand (lt_pcs g ! i))" "k + b + 2 < 2 ^ 64"
  shows "lt_pcs (solo_run b g i) ! i = Rest"
proof -
  obtain ps w where inv: "stack_inv n g ps w" and e: "mm_epoch (ll_mmm g) \<le> k + 1"
    using stack_reach_inv [OF assms(1,2)] assms(5) by auto
  have "todo g i \<le> b" using todo_bound [OF inv assms(3)] assms(4) by (auto simp: todo_def)
  then show ?thesis using solo_run_rest [OF inv assms(3)] e assms(5) by simp
qed

theorem llstack_solo_returns_witness: "lt_pcs (solo_run 17 stack_called 0) ! 0 = Rest"
proof -
  have "mt_retire_list (lt_threads stack_called ! 0) = []" "in_hand (lt_pcs stack_called ! 0) = []"
    by (simp_all add: stack_called_def stack_start_def)
  with llstack_solo_returns [OF stack_called_reach, of 0 17] show ?thesis by (simp add: HATRACK_THREADS_MAX_def)
qed

end
