(* ===== verification/Hatring.thy ===== *)
theory Hatring
  imports Hatrack_Common
begin

text \<open>
  \<^verbatim>\<open>src/hatrack/queue/hatring.c\<close> and \<^verbatim>\<open>hatring-internal.h\<close>: a ring buffer that many threads write and read.
  One 64-bit word holds the next write ticket above the next read ticket; a ticket names a cell, and a
  cell carries the ticket it was last written or read under, so a slow thread sees that it was passed.

  Each operation is a step function: a program point with its live locals, one access to shared
  memory per step. An operation as one thread runs it iterates its steps (\<open>run_alone\<close>); threads
  interleaved are in \<open>Hatring_Threads\<close>. Integers are words of their C width. The drop handler is code of the
  caller: \<open>hr_drop_handler\<close> says whether one is set and \<open>hr_dropped\<close> records the calls made to it.
  The back-off sleep of an enqueue has no effect on the state.
\<close>

section \<open>Definitions\<close>

record hatring_item =
  hi_item :: ptr
  hi_state :: "64 word"

record hatring_view =
  hv_next_ix :: nat
  hv_num_items :: nat
  hv_cells :: "ptr list"

record hatring =
  hr_epochs :: "64 word"
  hr_drop_handler :: bool
  hr_last_slot :: "64 word"
  hr_size :: "64 word"
  hr_cells :: "hatring_item list"
  hr_dropped :: "ptr list"

definition HATRING_ENQUEUED :: "64 word" where
  "HATRING_ENQUEUED = 0x8000000000000000"

definition HATRING_DEQUEUED :: "64 word" where
  "HATRING_DEQUEUED = 0x4000000000000000"

definition hatring_is_lagging :: "32 word \<Rightarrow> 32 word \<Rightarrow> 64 word \<Rightarrow> bool" where
  "hatring_is_lagging read_epoch write_epoch size' \<longleftrightarrow> ucast read_epoch + size' < ucast write_epoch"

definition hatring_enqueue_epoch :: "64 word \<Rightarrow> 32 word" where
  "hatring_enqueue_epoch ptrs = ucast (drop_bit 32 ptrs)"

definition hatring_dequeue_epoch :: "64 word \<Rightarrow> 32 word" where
  "hatring_dequeue_epoch ptrs = ucast (ptrs AND 0x00000000ffffffff)"

definition hatring_dequeue_ix :: "64 word \<Rightarrow> 32 word \<Rightarrow> 32 word" where
  "hatring_dequeue_ix epochs last_slot = ucast (epochs AND ucast last_slot)"

definition hatring_cell_epoch :: "64 word \<Rightarrow> 32 word" where
  "hatring_cell_epoch state = ucast (state AND 0x00000000ffffffff)"

definition hatring_is_enqueued :: "64 word \<Rightarrow> bool" where
  "hatring_is_enqueued state \<longleftrightarrow> state AND HATRING_ENQUEUED \<noteq> 0"

definition hatring_fixed_epoch :: "32 word \<Rightarrow> 64 word \<Rightarrow> 64 word" where
  "hatring_fixed_epoch write_epoch store_size =
     push_bit 32 (ucast write_epoch) OR (ucast write_epoch - store_size)"

definition HATRING_MINIMUM_SIZE :: nat where
  "HATRING_MINIMUM_SIZE = 16"

definition hatring_buckets :: "nat \<Rightarrow> nat outcome" where
  "hatring_buckets num_buckets =
     and_then (hatrack_round_up_to_power_of_2 num_buckets) (\<lambda>num_buckets.
       Inr (if num_buckets < HATRING_MINIMUM_SIZE then HATRING_MINIMUM_SIZE else num_buckets))"

definition hatring_new :: "nat \<Rightarrow> hatring outcome" where
  "hatring_new num_buckets =
     and_then (hatring_buckets num_buckets) (\<lambda>num_buckets.
       Inr \<lparr>hr_epochs = push_bit 32 (word_of_nat num_buckets) OR word_of_nat num_buckets,
            hr_drop_handler = False,
            hr_last_slot = word_of_nat num_buckets - 1,
            hr_size = word_of_nat num_buckets,
            hr_cells = replicate num_buckets \<lparr>hi_item = 0, hi_state = 0\<rparr>,
            hr_dropped = []\<rparr>)"

definition hatring_init :: "hatring \<Rightarrow> nat \<Rightarrow> hatring outcome" where
  "hatring_init self num_buckets =
     and_then (hatring_buckets num_buckets) (\<lambda>num_buckets.
       Inr (self\<lparr>hr_epochs := 0,
                 hr_drop_handler := False,
                 hr_last_slot := word_of_nat num_buckets - 1,
                 hr_size := 0,
                 hr_cells := replicate num_buckets \<lparr>hi_item = 0, hi_state = 0\<rparr>\<rparr>))"

text \<open>A call of the drop handler.\<close>

definition drop_item :: "'a hatring_scheme \<Rightarrow> ptr \<Rightarrow> 'a hatring_scheme" where
  "drop_item self item = self\<lparr>hr_dropped := hr_dropped self @ [item]\<rparr>"

definition hatring_cleanup :: "hatring \<Rightarrow> hatring" where
  "hatring_cleanup self =
     (if hr_drop_handler self
      then foldl (\<lambda>s i. let item = hr_cells s ! i
                        in if hatring_is_enqueued (hi_state item) then drop_item s (hi_item item) else s)
             self [0..<unat (hr_size self)]
      else self)"

definition sizeof_hatring :: nat where
  "sizeof_hatring = 32"

definition sizeof_hatring_cell :: nat where
  "sizeof_hatring_cell = 16"

definition sizeof_ptr :: nat where
  "sizeof_ptr = 8"

text \<open>Deleting a ring, with the size handed to the allocator.\<close>

definition hatring_delete :: "hatring \<Rightarrow> hatring \<times> nat" where
  "hatring_delete self = (hatring_cleanup self, sizeof_hatring)"

subsection \<open>Enqueue\<close>

datatype enqueue_pc =
    EnqPoll                              \<comment> \<open>read the epochs\<close>
  | EnqFix "64 word"                     \<comment> \<open>the readers lag: CAS the epochs read\<close>
  | EnqAdd                               \<comment> \<open>take a write ticket\<close>
  | EnqCell "32 word"                    \<comment> \<open>\<^verbatim>\<open>try_once\<close>: read the cell of the ticket\<close>
  | EnqCas "32 word" hatring_item        \<comment> \<open>CAS the cell, expected to be as read\<close>
  | EnqDrop "32 word" ptr                \<comment> \<open>call the drop handler on the item overwritten\<close>

text \<open>The test of the inner loop, on the cell just read.\<close>

definition enqueue_look :: "32 word \<Rightarrow> hatring_item \<Rightarrow> enqueue_pc" where
  "enqueue_look write_epoch expected =
     (if hatring_cell_epoch (hi_state expected) < write_epoch
      then EnqCas write_epoch expected else EnqPoll)"

definition cell_at :: "'a hatring_scheme \<Rightarrow> 64 word \<Rightarrow> hatring_item" where
  "cell_at self ix = hr_cells self ! unat ix"

definition set_cell :: "'a hatring_scheme \<Rightarrow> 64 word \<Rightarrow> hatring_item \<Rightarrow> 'a hatring_scheme" where
  "set_cell self ix item = self\<lparr>hr_cells := (hr_cells self)[unat ix := item]\<rparr>"

definition enqueue_ix :: "'a hatring_scheme \<Rightarrow> 32 word \<Rightarrow> 64 word" where
  "enqueue_ix self write_epoch = ucast write_epoch AND hr_last_slot self"

fun hatring_enqueue_step ::
  "ptr \<Rightarrow> enqueue_pc \<Rightarrow> 'a hatring_scheme \<Rightarrow> 'a hatring_scheme \<times> (enqueue_pc + 32 word)" where
  "hatring_enqueue_step item EnqPoll self =
     (let epochs = hr_epochs self;
          read_epoch = hatring_dequeue_epoch epochs;
          write_epoch = hatring_enqueue_epoch epochs
      in (self, Inl (if hatring_is_lagging read_epoch write_epoch (hr_size self)
                     then EnqFix epochs else EnqAdd)))"
| "hatring_enqueue_step item (EnqFix epochs) self =
     (let write_epoch = hatring_enqueue_epoch epochs;
          candidate_epoch = hatring_fixed_epoch (write_epoch + 1) (hr_size self)
      in if hr_epochs self = epochs
         then (self\<lparr>hr_epochs := candidate_epoch\<rparr>, Inl (EnqCell write_epoch))
         else (self, Inl EnqPoll))"
| "hatring_enqueue_step item EnqAdd self =
     (let epochs = hr_epochs self;
          read_epoch = hatring_dequeue_epoch epochs;
          write_epoch = hatring_enqueue_epoch epochs
      in (self\<lparr>hr_epochs := epochs + push_bit 32 1\<rparr>,
          Inl (if write_epoch < read_epoch then EnqAdd else EnqCell write_epoch)))"
| "hatring_enqueue_step item (EnqCell write_epoch) self =
     (self, Inl (enqueue_look write_epoch (cell_at self (enqueue_ix self write_epoch))))"
| "hatring_enqueue_step item (EnqCas write_epoch expected) self =
     (let ix = enqueue_ix self write_epoch;
          saw = cell_at self ix;
          candidate = \<lparr>hi_item = item, hi_state = HATRING_ENQUEUED OR ucast write_epoch\<rparr>
      in if saw = expected
         then (set_cell self ix candidate,
               if hatring_is_enqueued (hi_state expected) \<and> hr_drop_handler self
               then Inl (EnqDrop write_epoch (hi_item expected)) else Inr write_epoch)
         else (self, Inl (enqueue_look write_epoch saw)))"
| "hatring_enqueue_step item (EnqDrop write_epoch dropped) self = (drop_item self dropped, Inr write_epoch)"

subsection \<open>Dequeue\<close>

datatype dequeue_pc =
    DeqPoll                                       \<comment> \<open>read the epochs\<close>
  | DeqAdd                                        \<comment> \<open>take a read ticket\<close>
  | DeqCell "32 word" "32 word" "32 word"         \<comment> \<open>read the cell: its index, the tickets\<close>
  | DeqCas "32 word" "32 word" "32 word" hatring_item
  | DeqDrop "32 word" "32 word" ptr               \<comment> \<open>call the drop handler on a stale item\<close>

datatype dequeue_result =
    NothingFound
  | FoundItem ptr "32 word"                       \<comment> \<open>the item and its ticket\<close>

definition dequeue_look :: "32 word \<Rightarrow> 32 word \<Rightarrow> 32 word \<Rightarrow> hatring_item \<Rightarrow> dequeue_pc" where
  "dequeue_look ix read_epoch write_epoch expected =
     (if hatring_cell_epoch (hi_state expected) \<le> read_epoch
      then DeqCas ix read_epoch write_epoch expected else DeqPoll)"

text \<open>
  The body of both dequeues, which differ in what follows when the cell was older than the ticket:
  \<open>stale read_epoch write_epoch\<close>.
\<close>

fun dequeue_body ::
  "(32 word \<Rightarrow> 32 word \<Rightarrow> dequeue_pc + dequeue_result) \<Rightarrow> dequeue_pc \<Rightarrow> 'a hatring_scheme \<Rightarrow>
   'a hatring_scheme \<times> (dequeue_pc + dequeue_result)" where
  "dequeue_body stale DeqPoll self =
     (let epochs = hr_epochs self;
          read_epoch = hatring_dequeue_epoch epochs;
          write_epoch = hatring_enqueue_epoch epochs
      in (self, if write_epoch \<le> read_epoch then Inr NothingFound else Inl DeqAdd))"
| "dequeue_body stale DeqAdd self =
     (let epochs = hr_epochs self
      in (self\<lparr>hr_epochs := epochs + 1\<rparr>,
          Inl (DeqCell (hatring_dequeue_ix epochs (ucast (hr_last_slot self)))
                 (hatring_dequeue_epoch epochs) (hatring_enqueue_epoch epochs))))"
| "dequeue_body stale (DeqCell ix read_epoch write_epoch) self =
     (self, Inl (dequeue_look ix read_epoch write_epoch (cell_at self (ucast ix))))"
| "dequeue_body stale (DeqCas ix read_epoch write_epoch expected) self =
     (let saw = cell_at self (ucast ix);
          candidate = \<lparr>hi_item = 0, hi_state = HATRING_DEQUEUED OR ucast read_epoch\<rparr>
      in if saw = expected
         then (set_cell self (ucast ix) candidate,
               if hatring_cell_epoch (hi_state expected) = read_epoch
               then Inr (FoundItem (hi_item expected) read_epoch)
               else if hr_drop_handler self \<and> hatring_is_enqueued (hi_state expected)
                    then Inl (DeqDrop read_epoch write_epoch (hi_item expected))
                    else stale read_epoch write_epoch)
         else (self,
               if hatring_cell_epoch (hi_state expected) = read_epoch \<and> \<not> hr_drop_handler self
               then Inr (FoundItem (hi_item expected) read_epoch)
               else Inl (dequeue_look ix read_epoch write_epoch saw)))"
| "dequeue_body stale (DeqDrop read_epoch write_epoch item) self =
     (drop_item self item, stale read_epoch write_epoch)"

definition hatring_dequeue_step ::
  "dequeue_pc \<Rightarrow> 'a hatring_scheme \<Rightarrow> 'a hatring_scheme \<times> (dequeue_pc + dequeue_result)" where
  "hatring_dequeue_step =
     dequeue_body (\<lambda>read_epoch write_epoch.
       if read_epoch + 1 = write_epoch then Inr NothingFound else Inl DeqPoll)"

definition hatring_dequeue_w_epoch_step ::
  "dequeue_pc \<Rightarrow> 'a hatring_scheme \<Rightarrow> 'a hatring_scheme \<times> (dequeue_pc + dequeue_result)" where
  "hatring_dequeue_w_epoch_step = dequeue_body (\<lambda>read_epoch write_epoch. Inr NothingFound)"

subsection \<open>Views\<close>

text \<open>
  A view is a header and a buffer. \<^verbatim>\<open>hatring_view\<close> allocates, zeroed, as many bytes as \<open>size\<close> cells of the ring take, each a pointer and a
  state, and fills them with pointers; the buffer is the list \<open>hv_cells\<close>, and a store behind its end is an error.

  A view in the making: \<open>ViewCell n view\<close> reads the cell of ticket \<open>n\<close>, \<open>ViewEnd n view\<close> the epochs.
  \<open>view_test\<close> is the condition of the loop.
\<close>

datatype view_pc =
    ViewStart
  | ViewCell "32 word" hatring_view
  | ViewEnd "32 word" hatring_view

definition view_alloc :: "'a hatring_scheme \<Rightarrow> hatring_view" where
  "view_alloc self = \<lparr>hv_next_ix = 0, hv_num_items = 0,
     hv_cells = replicate (sizeof_hatring_cell * unat (hr_size self) div sizeof_ptr) 0\<rparr>"

definition view_test ::
  "64 word \<Rightarrow> 32 word \<Rightarrow> 32 word \<Rightarrow> hatring_view \<Rightarrow> view_pc + hatring_view outcome" where
  "view_test size' n end' view =
     (if n < end' \<and> hv_next_ix view < unat size' then Inl (ViewCell n view) else Inr (Inr view))"

definition view_append :: "hatring_view \<Rightarrow> ptr \<Rightarrow> hatring_view outcome" where
  "view_append view item =
     (if hv_num_items view < length (hv_cells view)
      then Inr (view\<lparr>hv_num_items := hv_num_items view + 1, hv_cells := (hv_cells view)[hv_num_items view := item]\<rparr>)
      else Inl OutOfBounds)"

fun hatring_view_step ::
  "view_pc \<Rightarrow> 'a hatring_scheme \<Rightarrow> 'a hatring_scheme \<times> (view_pc + hatring_view outcome)" where
  "hatring_view_step ViewStart self =
     (let epochs = hr_epochs self
      in (self, view_test (hr_size self) (hatring_dequeue_epoch epochs) (hatring_enqueue_epoch epochs) (view_alloc self)))"
| "hatring_view_step (ViewCell n view) self =
     (let cell = cell_at self (enqueue_ix self n)
      in if hatring_is_enqueued (hi_state cell) \<and> hatring_cell_epoch (hi_state cell) = n
         then or_fail self (view_append view (hi_item cell)) (\<lambda>view'. (self, Inl (ViewEnd (n + 1) view')))
         else (self, Inl (ViewEnd (n + 1) view)))"
| "hatring_view_step (ViewEnd n view) self =
     (self, view_test (hr_size self) n (hatring_enqueue_epoch (hr_epochs self)) view)"

definition hatring_view_next :: "hatring_view \<Rightarrow> (hatring_view \<times> ptr \<times> bool) outcome" where
  "hatring_view_next view =
     (if hv_next_ix view = hv_num_items view then Inr (view, 0, False)
      else and_then (read_at (hv_cells view) (hv_next_ix view)) (\<lambda>item.
        Inr (view\<lparr>hv_next_ix := hv_next_ix view + 1\<rparr>, item, True)))"

definition hatring_set_drop_handler :: "hatring \<Rightarrow> bool \<Rightarrow> hatring" where
  "hatring_set_drop_handler self func = self\<lparr>hr_drop_handler := func\<rparr>"

subsection \<open>One thread\<close>

definition hatring_enqueue :: "hatring \<Rightarrow> ptr \<Rightarrow> (hatring \<times> 32 word) option" where
  "hatring_enqueue self item = run_alone (hatring_enqueue_step item) EnqPoll self"

definition hatring_dequeue :: "hatring \<Rightarrow> (hatring \<times> dequeue_result) option" where
  "hatring_dequeue self = run_alone hatring_dequeue_step DeqPoll self"

definition hatring_dequeue_w_epoch :: "hatring \<Rightarrow> (hatring \<times> dequeue_result) option" where
  "hatring_dequeue_w_epoch self = run_alone hatring_dequeue_w_epoch_step DeqPoll self"

definition hatring_view_of :: "hatring \<Rightarrow> (hatring \<times> hatring_view outcome) option" where
  "hatring_view_of self = run_alone hatring_view_step ViewStart self"

section \<open>Epochs and tickets\<close>

named_theorems ring_words \<open>words that hold epochs and tickets, as natural numbers\<close>

text \<open>The word with write ticket \<open>w\<close> and read ticket \<open>r\<close>, and the states of a cell.\<close>

definition epochs_word :: "nat \<Rightarrow> nat \<Rightarrow> 64 word" where
  "epochs_word w r = word_of_nat (w * 2 ^ 32 + r)"

definition enqueued_at :: "nat \<Rightarrow> 64 word" where
  "enqueued_at e = HATRING_ENQUEUED OR ucast (word_of_nat e :: 32 word)"

definition dequeued_at :: "nat \<Rightarrow> 64 word" where
  "dequeued_at e = HATRING_DEQUEUED OR ucast (word_of_nat e :: 32 word)"

lemma ticket_less [ring_words]:
  "a < 2 ^ 32 \<Longrightarrow> b < 2 ^ 32 \<Longrightarrow> (word_of_nat a :: 32 word) < word_of_nat b \<longleftrightarrow> a < b"
  by (simp add: word_less_nat_alt unat_of_nat take_bit_nat_eq_self)

lemma ticket_le [ring_words]:
  "a < 2 ^ 32 \<Longrightarrow> b < 2 ^ 32 \<Longrightarrow> (word_of_nat a :: 32 word) \<le> word_of_nat b \<longleftrightarrow> a \<le> b"
  by (simp add: word_le_nat_alt unat_of_nat take_bit_nat_eq_self)

lemma ticket_eq [ring_words]:
  "a < 2 ^ 32 \<Longrightarrow> b < 2 ^ 32 \<Longrightarrow> (word_of_nat a :: 32 word) = word_of_nat b \<longleftrightarrow> a = b"
  by (metis nat_neq_iff order_less_irrefl ticket_less)

lemma unat_word64 [ring_words]: "n < 2 ^ 64 \<Longrightarrow> unat (word_of_nat n :: 64 word) = n"
  by (simp add: unat_of_nat take_bit_nat_eq_self)

lemma unat_ticket: "n < 2 ^ 32 \<Longrightarrow> unat (word_of_nat n :: 32 word) = n"
  by (simp add: unat_of_nat take_bit_nat_eq_self)

lemma ucast_ticket: "n < 2 ^ 32 \<Longrightarrow> ucast (word_of_nat n :: 32 word) = (word_of_nat n :: 64 word)"
  by (rule word_unat_eq_iff [THEN iffD2]) (simp add: unsigned_ucast_eq unat_of_nat take_bit_nat_eq_self)

lemma unat_epochs_word:
  assumes "w < 2 ^ 32" "r < 2 ^ 32"
  shows "unat (epochs_word w r) = w * 2 ^ 32 + r"
  unfolding epochs_word_def using assms by (intro unat_word64) simp

lemma low_half: "unat (ucast (x AND 0x00000000ffffffff :: 64 word) :: 32 word) = unat x mod 2 ^ 32"
  using and_mask_nat [of "unat x" 32] and_mask_nat [of "unat x mod 2 ^ 32" 32]
  by (simp add: unsigned_ucast_eq unsigned_and_eq take_bit_eq_mod)

lemma enqueue_epoch_word [ring_words]:
  assumes "w < 2 ^ 32" "r < 2 ^ 32"
  shows "hatring_enqueue_epoch (epochs_word w r) = word_of_nat w"
proof (rule word_unat_eq_iff [THEN iffD2])
  have "w * 2 ^ 32 + r < 2 ^ 64" using assms by simp
  then have "unat (hatring_enqueue_epoch (epochs_word w r)) = take_bit 32 (drop_bit 32 (w * 2 ^ 32 + r))"
    unfolding hatring_enqueue_epoch_def
    by (simp add: unsigned_ucast_eq unsigned_drop_bit_eq unat_epochs_word [OF assms] take_bit_nat_eq_self)
  also have "\<dots> = unat (word_of_nat w :: 32 word)"
    using assms by (simp add: drop_bit_eq_div unat_ticket take_bit_nat_eq_self)
  finally show "unat (hatring_enqueue_epoch (epochs_word w r)) = unat (word_of_nat w :: 32 word)" .
qed

lemma dequeue_epoch_word [ring_words]:
  assumes "w < 2 ^ 32" "r < 2 ^ 32"
  shows "hatring_dequeue_epoch (epochs_word w r) = word_of_nat r"
  unfolding hatring_dequeue_epoch_def
  using assms by (intro word_unat_eq_iff [THEN iffD2]) (simp add: low_half unat_epochs_word unat_ticket)

lemma epochs_add_write [ring_words]: "epochs_word w r + push_bit 32 1 = epochs_word (Suc w) r"
  by (simp add: epochs_word_def push_bit_eq_mult)

lemmas epochs_add_write_num [ring_words] = epochs_add_write [simplified]

lemma epochs_add_read [ring_words]: "epochs_word w r + 1 = epochs_word w (Suc r)"
  by (simp add: epochs_word_def)

lemma or_shifted:
  assumes "r < 2 ^ 32"
  shows "push_bit 32 (word_of_nat w) OR word_of_nat r = epochs_word w r"
proof -
  have "push_bit 32 (word_of_nat w) AND (word_of_nat r :: 64 word) = 0"
  proof (rule bit_eqI)
    fix n
    have "\<not> bit r n" if "32 \<le> n"
      using assms that by (metis bit_take_bit_iff linorder_not_less take_bit_nat_eq_self)
    then show "bit (push_bit 32 (word_of_nat w) AND (word_of_nat r :: 64 word)) n = bit 0 n"
      by (auto simp: bit_and_iff bit_push_bit_iff bit_of_nat_iff)
  qed
  then have "push_bit 32 (word_of_nat w) OR word_of_nat r = push_bit 32 (word_of_nat w) + (word_of_nat r :: 64 word)"
    by (simp add: disjunctive_add_eq_or)
  then show ?thesis by (simp add: epochs_word_def push_bit_eq_mult)
qed

lemma fixed_epoch_word [ring_words]:
  assumes "Suc w < 2 ^ 32" "n \<le> w"
  shows "hatring_fixed_epoch (word_of_nat w + 1) (word_of_nat n) = epochs_word (Suc w) (Suc w - n)"
proof -
  have "word_of_nat w + 1 = (word_of_nat (Suc w) :: 32 word)" by simp
  moreover have "(word_of_nat (Suc w) :: 64 word) - word_of_nat n = word_of_nat (Suc w - n)"
    using assms by (simp add: of_nat_diff)
  moreover have "Suc w - n < 2 ^ 32" using assms by simp
  ultimately show ?thesis
    unfolding hatring_fixed_epoch_def using assms(1) by (simp only: ucast_ticket or_shifted)
qed

lemma lagging_word [ring_words]:
  assumes "r < 2 ^ 32" "w < 2 ^ 32" "n < 2 ^ 32"
  shows "hatring_is_lagging (word_of_nat r) (word_of_nat w) (word_of_nat n) \<longleftrightarrow> r + n < w"
proof -
  have "(word_of_nat r :: 64 word) + word_of_nat n = word_of_nat (r + n)" by simp
  moreover have "unat (word_of_nat (r + n) :: 64 word) = r + n" using assms by (intro unat_word64) simp
  ultimately show ?thesis
    using assms by (simp only: hatring_is_lagging_def ucast_ticket word_less_nat_alt) (simp add: unat_word64)
qed

lemma and_pow2_pred:
  assumes "k < 64"
  shows "unat (x AND (word_of_nat (2 ^ k) - 1 :: 64 word)) = unat x mod 2 ^ k"
proof -
  have "unat (word_of_nat (2 ^ k) - 1 :: 64 word) = 2 ^ k - 1"
  proof -
    have "(2::nat) ^ k < 2 ^ 64" using assms by (intro power_strict_increasing) auto
    moreover have "(word_of_nat (2 ^ k) - 1 :: 64 word) = word_of_nat (2 ^ k - 1)"
      by (simp add: of_nat_diff)
    ultimately show ?thesis by (simp only:) (intro unat_word64, simp)
  qed
  then show ?thesis by (simp only: unsigned_and_eq and_mask_nat)
qed

lemma mask_words:
  "(0x00000000ffffffff :: 64 word) = mask 32"
  "HATRING_ENQUEUED = push_bit 63 1" "HATRING_DEQUEUED = push_bit 62 1"
  by (simp_all add: mask_eq_exp_minus_1 push_bit_eq_mult HATRING_ENQUEUED_def HATRING_DEQUEUED_def)

lemma flags_high: "n < 32 \<Longrightarrow> \<not> bit HATRING_ENQUEUED n" "n < 32 \<Longrightarrow> \<not> bit HATRING_DEQUEUED n"
  unfolding mask_words bit_push_bit_iff by auto

lemma cell_epoch_or:
  "hatring_cell_epoch (HATRING_ENQUEUED OR ucast t) = t"
  "hatring_cell_epoch (HATRING_DEQUEUED OR ucast t) = t"
  unfolding hatring_cell_epoch_def mask_words(1)
  by (auto intro!: bit_word_eqI simp: bit_simps flags_high)

lemma cell_epoch_states [ring_words]:
  "hatring_cell_epoch (enqueued_at e) = word_of_nat e"
  "hatring_cell_epoch (dequeued_at e) = word_of_nat e"
  "hatring_cell_epoch 0 = word_of_nat 0"
  by (simp_all add: enqueued_at_def dequeued_at_def cell_epoch_or) (simp add: hatring_cell_epoch_def)

lemma is_enqueued_bit: "hatring_is_enqueued s \<longleftrightarrow> bit s 63"
  using and_exp_eq_0_iff_not_bit [of s 63] by (simp add: hatring_is_enqueued_def HATRING_ENQUEUED_def)

lemma is_enqueued_states [ring_words]:
  "hatring_is_enqueued (enqueued_at e)" "\<not> hatring_is_enqueued (dequeued_at e)" "\<not> hatring_is_enqueued 0"
  unfolding is_enqueued_bit enqueued_at_def dequeued_at_def HATRING_ENQUEUED_def HATRING_DEQUEUED_def
  by (simp_all add: bit_simps)

section \<open>The shape of a ring\<close>

text \<open>A ring of \<open>n\<close> cells, a power of two that leaves room for tickets of 32 bits.\<close>

definition ring_frame :: "nat \<Rightarrow> 'a hatring_scheme \<Rightarrow> bool" where
  "ring_frame n s \<longleftrightarrow>
     (\<exists>k. n = 2 ^ k \<and> 4 \<le> k \<and> k < 32) \<and>
     hr_last_slot s = word_of_nat n - 1 \<and> length (hr_cells s) = n"

definition ring_of :: "nat \<Rightarrow> 'a hatring_scheme \<Rightarrow> bool" where
  "ring_of n s \<longleftrightarrow> ring_frame n s \<and> hr_size s = word_of_nat n"

lemmas ring_defs = ring_of_def ring_frame_def

lemma ring_of_bounds:
  assumes "ring_of n s"
  shows "16 \<le> n" "n < 2 ^ 32" "length (hr_cells s) = n"
proof -
  obtain k where k: "n = 2 ^ k" "4 \<le> k" "k < 32" and "length (hr_cells s) = n"
    using assms unfolding ring_defs by blast
  then show "length (hr_cells s) = n" by simp
  have "(2::nat) ^ 4 \<le> 2 ^ k" "(2::nat) ^ k < 2 ^ 32"
    using k by (auto intro!: power_increasing power_strict_increasing simp del: power_numeral)
  then show "16 \<le> n" "n < 2 ^ 32" using k(1) by simp_all
qed

lemma ring_of_frame: "ring_of n s \<Longrightarrow> ring_frame n s"
  by (simp add: ring_of_def)

lemma ucast_ix: "unat (ucast (ix :: 32 word) :: 64 word) = unat ix"
proof -
  have "unat ix < 2 ^ 32" using unsigned_less [of ix, where 'a = nat] by simp
  then show ?thesis by (simp add: unsigned_ucast_eq take_bit_nat_eq_self)
qed

lemma enqueue_ix_mod:
  assumes "ring_frame n s"
  shows "unat (enqueue_ix s t) = unat t mod n"
proof -
  obtain k where k: "n = 2 ^ k" "k < 64" "hr_last_slot s = word_of_nat n - 1"
    using assms unfolding ring_defs by auto
  then show ?thesis
    using and_pow2_pred [of k "ucast t"] by (simp add: enqueue_ix_def ucast_ix)
qed

lemma dequeue_ix_mod:
  assumes "ring_of n s" "w < 2 ^ 32" "r < 2 ^ 32"
  shows "unat (hatring_dequeue_ix (epochs_word w r) (ucast (hr_last_slot s))) = r mod n"
proof -
  obtain k where k: "n = 2 ^ k" "k < 32" "hr_last_slot s = word_of_nat n - 1"
    using assms(1) unfolding ring_defs by auto
  have n: "n \<le> 2 ^ 32" using ring_of_bounds [OF assms(1)] by simp
  have l: "unat (hr_last_slot s) = n - 1"
  proof -
    have "(word_of_nat n - 1 :: 64 word) = word_of_nat (n - 1)"
      using k(1) by (simp add: of_nat_diff)
    moreover have "n - 1 < 2 ^ 64" using n by simp
    ultimately show ?thesis unfolding k(3) by (simp only: unat_word64)
  qed
  then have u: "unat (ucast (hr_last_slot s) :: 32 word) = n - 1"
    using n by (simp add: unsigned_ucast_eq take_bit_nat_eq_self)
  have "unat (hatring_dequeue_ix (epochs_word w r) (ucast (hr_last_slot s))) =
      take_bit 32 (unat (epochs_word w r) AND unat (ucast (ucast (hr_last_slot s) :: 32 word) :: 64 word))"
    unfolding hatring_dequeue_ix_def by (simp only: unsigned_ucast_eq [where 'c = 32] unsigned_and_eq) simp
  also have "\<dots> = take_bit 32 ((w * 2 ^ 32 + r) AND (n - 1))"
    by (simp only: unat_epochs_word [OF assms(2,3)] ucast_ix u)
  also have "(w * 2 ^ 32 + r) AND (n - 1) = r mod n"
  proof -
    have "(2::nat) ^ 32 = 2 ^ (32 - k) * n" using k by (simp flip: power_add)
    then have "(w * 2 ^ 32 + r) mod n = r mod n" by (metis mod_mult_self3 mult.assoc)
    then show ?thesis unfolding k(1) and_mask_nat by simp
  qed
  also have "take_bit 32 (r mod n) = r mod n"
    using assms(3) by (simp add: take_bit_nat_eq_self le_less_trans [OF mod_less_eq_dividend])
  finally show ?thesis .
qed

lemma ring_of_updates [simp]:
  "ring_of n (s\<lparr>hr_epochs := e\<rparr>) = ring_of n s"
  "ring_of n (s\<lparr>hr_cells := (hr_cells s)[i := c]\<rparr>) = ring_of n s"
  "ring_of n (s\<lparr>hr_dropped := d\<rparr>) = ring_of n s"
  "ring_of n (set_cell s ix c) = ring_of n s"
  "ring_of n (drop_item s x) = ring_of n s"
  by (simp_all add: ring_defs set_cell_def drop_item_def)

lemma ring_new_size:
  assumes "num_buckets \<le> 2 ^ 31"
  obtains k where "hatring_buckets num_buckets = Inr (2 ^ k)" "num_buckets \<le> 2 ^ k" "4 \<le> k" "k < 32"
proof -
  have "\<exists>k. hatrack_round_up_to_power_of_2 num_buckets = Inr (2 ^ k) \<and> num_buckets \<le> 2 ^ k \<and> k < 32"
    if "0 < num_buckets"
  proof (cases "\<exists>k. num_buckets = 2 ^ k")
    case True
    then obtain k where k: "num_buckets = 2 ^ k" by blast
    have "k \<le> 31" using assms power_le_imp_le_exp [of "2::nat" k 31] by (simp add: k)
    moreover have "(2::nat) ^ k < 2 ^ 64" using assms k by simp
    ultimately show ?thesis using round_up_power [of k] k by auto
  next
    case False
    then have nk: "num_buckets \<noteq> 2 ^ k" for k by blast
    note b = bit_length_bounds [OF that]
    have "(2::nat) ^ bit_length num_buckets < 2 ^ 32" using b nk [of 31] assms by simp
    then have "bit_length num_buckets < 32" by (rule power_less_imp_less_exp [rotated]) simp
    moreover have "hatrack_round_up_to_power_of_2 num_buckets = Inr (2 ^ bit_length num_buckets)"
      using round_up_other [OF that _ nk] assms by simp
    ultimately show ?thesis using b by auto
  qed
  then obtain k where k: "0 < num_buckets \<longrightarrow> hatrack_round_up_to_power_of_2 num_buckets = Inr (2 ^ k) \<and>
      num_buckets \<le> 2 ^ k \<and> k < 32" by blast
  have zero: "hatrack_round_up_to_power_of_2 0 = Inr 0"
    by (simp add: hatrack_round_up_to_power_of_2_def)
  show ?thesis
  proof (cases "num_buckets = 0 \<or> 2 ^ k < (16::nat)")
    case True
    then show ?thesis using that [of 4] k zero
      by (auto simp: hatring_buckets_def HATRING_MINIMUM_SIZE_def)
  next
    case False
    then have "4 \<le> k" using power_strict_increasing [of k 4 "2::nat"] by (cases "4 \<le> k") auto
    then show ?thesis using that [of k] k False
      by (auto simp: hatring_buckets_def HATRING_MINIMUM_SIZE_def)
  qed
qed

lemma cell_of_write:
  assumes "ring_frame n s" "w < 2 ^ 32"
  shows "cell_at s (enqueue_ix s (word_of_nat w)) = hr_cells s ! (w mod n)"
    and "set_cell s (enqueue_ix s (word_of_nat w)) c = s\<lparr>hr_cells := (hr_cells s)[w mod n := c]\<rparr>"
  using assms by (simp_all add: cell_at_def set_cell_def enqueue_ix_mod unat_ticket)

lemma cell_of_read:
  fixes s s' :: "'a hatring_scheme"
  assumes "ring_of n s" "w < 2 ^ 32" "r < 2 ^ 32"
  defines "ix \<equiv> ucast (hatring_dequeue_ix (epochs_word w r) (ucast (hr_last_slot s))) :: 64 word"
  shows "cell_at s' ix = hr_cells s' ! (r mod n)"
    and "set_cell s' ix c = s'\<lparr>hr_cells := (hr_cells s')[r mod n := c]\<rparr>"
  using dequeue_ix_mod [OF assms(1-3)] unfolding ix_def by (simp_all add: cell_at_def set_cell_def ucast_ix)

section \<open>One thread: a queue that keeps the last items\<close>

text \<open>
  The specification: a list of at most \<open>n\<close> items, oldest first. Adding to a full list drops the oldest.
  Tickets count the items added.
\<close>

definition ring_put :: "nat \<Rightarrow> ptr list \<Rightarrow> ptr \<Rightarrow> ptr list" where
  "ring_put n q x = (if length q = n then tl q else q) @ [x]"

datatype ring_call = EnqueueCall ptr | DequeueCall | DequeueEpochCall | ViewCall

datatype ring_answer = Ticket "32 word" | Dequeued dequeue_result | Viewed "ptr list" | Faulted c_error

fun ring_spec ::
  "nat \<Rightarrow> bool \<Rightarrow> nat \<Rightarrow> ptr list \<Rightarrow> ring_call list \<Rightarrow> ring_answer list \<times> ptr list \<times> ptr list" where
  "ring_spec n h w q [] = ([], q, [])"
| "ring_spec n h w q (EnqueueCall x # cs) =
     (let (as, q', ds) = ring_spec n h (w + 1) (ring_put n q x) cs
      in (Ticket (word_of_nat w) # as, q', (if h \<and> length q = n then [hd q] else []) @ ds))"
| "ring_spec n h w q (ViewCall # cs) =
     (let (as, q', ds) = ring_spec n h w q cs in (Viewed q # as, q', ds))"
| "ring_spec n h w q (_ # cs) =
     (let (as, q', ds) = ring_spec n h w (tl q) cs
      in (Dequeued (if q = [] then NothingFound else FoundItem (hd q) (word_of_nat (w - length q))) # as,
          q', ds))"

text \<open>The same calls on a ring.\<close>

fun ring_call_run :: "hatring \<Rightarrow> ring_call \<Rightarrow> (hatring \<times> ring_answer) option" where
  "ring_call_run s (EnqueueCall x) = map_option (map_prod id Ticket) (hatring_enqueue s x)"
| "ring_call_run s DequeueCall = map_option (map_prod id Dequeued) (hatring_dequeue s)"
| "ring_call_run s DequeueEpochCall = map_option (map_prod id Dequeued) (hatring_dequeue_w_epoch s)"
| "ring_call_run s ViewCall =
     map_option (map_prod id (case_sum Faulted (\<lambda>v. Viewed (take (hv_num_items v) (hv_cells v))))) (hatring_view_of s)"

fun ring_calls :: "hatring \<Rightarrow> ring_call list \<Rightarrow> (hatring \<times> ring_answer list) option" where
  "ring_calls s [] = Some (s, [])"
| "ring_calls s (c # cs) =
     (case ring_call_run s c of
        None \<Rightarrow> None
      | Some (s', a) \<Rightarrow> map_option (map_prod id ((#) a)) (ring_calls s' cs))"

text \<open>A ring whose next write ticket is \<open>w\<close> holds the list \<open>q\<close>.\<close>

definition ring_tickets :: "nat \<Rightarrow> 'a hatring_scheme \<Rightarrow> nat \<Rightarrow> nat \<Rightarrow> nat \<Rightarrow> bool" where
  "ring_tickets n s w r m \<longleftrightarrow>
     hr_epochs s = epochs_word w r \<and> n \<le> w \<and> w < 2 ^ 32 \<and> m \<le> n \<and> (r + m = w \<or> m = n \<and> Suc r + n = w)"

definition ring_holds :: "nat \<Rightarrow> hatring \<Rightarrow> nat \<Rightarrow> nat \<Rightarrow> ptr list \<Rightarrow> bool" where
  "ring_holds n s w r q \<longleftrightarrow>
     ring_of n s \<and> ring_tickets n s w r (length q) \<and>
     (\<forall>i < length q. hr_cells s ! ((w - length q + i) mod n) =
        \<lparr>hi_item = q ! i, hi_state = enqueued_at (w - length q + i)\<rparr>) \<and>
     (\<forall>e. w - n \<le> e \<longrightarrow> e < w - length q \<longrightarrow> hi_state (hr_cells s ! (e mod n)) \<in> {0, dequeued_at e})"

lemma add_mod_n: "n \<le> w \<Longrightarrow> (w - n) mod n = w mod (n::nat)"
  by (metis le_mod_geq)

lemma mod_eq_window:
  assumes "(a::nat) mod n = b mod n" "w \<le> a + n" "a < w" "w \<le> b + n" "b < w"
  shows "a = b"
proof -
  have *: "c = d" if "c \<le> d" "c mod n = d mod n" "d < c + n" for c d
    using cyc_inj [of c 0 n "d - c"] that by (simp add: less_diff_conv2)
  show ?thesis using assms * [of a b] * [of b a] by (cases "a \<le> b") auto
qed

text \<open>What an enqueue does once it has its ticket, on a cell older than the ticket.\<close>

definition enqueue_write :: "nat \<Rightarrow> nat \<Rightarrow> ptr \<Rightarrow> hatring \<Rightarrow> hatring" where
  "enqueue_write n w x s =
     (let c = hr_cells s ! (w mod n);
          s' = s\<lparr>hr_cells := (hr_cells s)[w mod n := \<lparr>hi_item = x, hi_state = enqueued_at w\<rparr>]\<rparr>
      in if hatring_is_enqueued (hi_state c) \<and> hr_drop_handler s then drop_item s' (hi_item c) else s')"

lemma solo_enqueue_cell:
  assumes "ring_frame n s" "w < 2 ^ 32" "hatring_cell_epoch (hi_state (hr_cells s ! (w mod n))) < word_of_nat w"
  shows "run_alone (hatring_enqueue_step x) (EnqCell (word_of_nat w)) s =
    Some (enqueue_write n w x s, word_of_nat w)"
proof -
  let ?c = "hr_cells s ! (w mod n)"
  let ?s = "s\<lparr>hr_cells := (hr_cells s)[w mod n := \<lparr>hi_item = x, hi_state = enqueued_at w\<rparr>]\<rparr>"
  note cell = cell_of_write [OF assms(1,2)]
  have "run_alone (hatring_enqueue_step x) (EnqCell (word_of_nat w)) s =
      run_alone (hatring_enqueue_step x) (EnqCas (word_of_nat w) ?c) s"
    by (rule run_next) (simp add: cell enqueue_look_def assms(3))
  also have "\<dots> = Some (enqueue_write n w x s, word_of_nat w)"
  proof (cases "hatring_is_enqueued (hi_state ?c) \<and> hr_drop_handler s")
    case True
    then have "run_alone (hatring_enqueue_step x) (EnqCas (word_of_nat w) ?c) s =
        run_alone (hatring_enqueue_step x) (EnqDrop (word_of_nat w) (hi_item ?c)) ?s"
      by (intro run_next) (simp add: cell enqueued_at_def)
    also have "\<dots> = Some (drop_item ?s (hi_item ?c), word_of_nat w)"
      by (rule run_done) simp
    finally show ?thesis using True by (simp add: enqueue_write_def)
  next
    case False
    then show ?thesis
      by (intro run_done) (auto simp: cell enqueued_at_def enqueue_write_def)
  qed
  finally show ?thesis .
qed

lemma solo_enqueue:
  assumes "ring_of n s" "hr_epochs s = epochs_word w r" "r \<le> w" "Suc w < 2 ^ 32"
    and "hatring_cell_epoch (hi_state (hr_cells s ! (w mod n))) < word_of_nat w"
  shows "hatring_enqueue s x =
    Some (enqueue_write n w x (s\<lparr>hr_epochs := epochs_word (Suc w) (if r + n < w then Suc w - n else r)\<rparr>),
          word_of_nat w)"
proof -
  let ?step = "hatring_enqueue_step x"
  define r' where "r' = (if r + n < w then Suc w - n else r)"
  note bounds = ring_of_bounds [OF assms(1)]
  have size: "hr_size s = word_of_nat n" using assms(1) by (simp add: ring_defs)
  note words = ring_words assms(2) size
  have "run_alone ?step EnqPoll s = run_alone ?step (EnqCell (word_of_nat w)) (s\<lparr>hr_epochs := epochs_word (Suc w) r'\<rparr>)"
  proof (cases "r + n < w")
    case True
    have "run_alone ?step EnqPoll s = run_alone ?step (EnqFix (epochs_word w r)) s"
      by (rule run_next) (use True assms bounds in \<open>simp add: words\<close>)
    also have "\<dots> = run_alone ?step (EnqCell (word_of_nat w)) (s\<lparr>hr_epochs := epochs_word (Suc w) r'\<rparr>)"
      by (rule run_next) (use True assms bounds in \<open>simp add: words r'_def\<close>)
    finally show ?thesis .
  next
    case False
    have "run_alone ?step EnqPoll s = run_alone ?step EnqAdd s"
      by (rule run_next) (use False assms bounds in \<open>simp add: words\<close>)
    also have "\<dots> = run_alone ?step (EnqCell (word_of_nat w)) (s\<lparr>hr_epochs := epochs_word (Suc w) r'\<rparr>)"
      by (rule run_next) (use False assms bounds in \<open>simp add: words r'_def\<close>)
    finally show ?thesis .
  qed
  also have "\<dots> = Some (enqueue_write n w x (s\<lparr>hr_epochs := epochs_word (Suc w) r'\<rparr>), word_of_nat w)"
    by (rule solo_enqueue_cell) (use assms in \<open>simp_all add: ring_of_frame\<close>)
  finally show ?thesis unfolding hatring_enqueue_def r'_def .
qed

lemma ring_holds_next_cell:
  assumes "ring_holds n s w r q"
  shows "hatring_cell_epoch (hi_state (hr_cells s ! (w mod n))) < word_of_nat w"
    and "hatring_is_enqueued (hi_state (hr_cells s ! (w mod n))) \<longleftrightarrow> length q = n"
    and "length q = n \<Longrightarrow> hi_item (hr_cells s ! (w mod n)) = hd q"
proof -
  have ring: "ring_of n s" and t: "n \<le> w" "w < 2 ^ 32" "length q \<le> n"
    and full: "length q = n \<Longrightarrow> hr_cells s ! (w mod n) = \<lparr>hi_item = q ! 0, hi_state = enqueued_at (w - n)\<rparr>"
    and old: "length q < n \<Longrightarrow> hi_state (hr_cells s ! (w mod n)) \<in> {0, dequeued_at (w - n)}"
    using assms ring_of_bounds [of n s] add_mod_n [of n w]
    unfolding ring_holds_def ring_tickets_def by (auto dest: spec [of _ "0::nat"] spec [of _ "w - n"])
  have n: "16 \<le> n" using ring_of_bounds [OF ring] by simp
  have lt: "word_of_nat (w - n) < (word_of_nat w :: 32 word)" "word_of_nat 0 < (word_of_nat w :: 32 word)"
    using t n by (simp_all only: ticket_less)
  show "hatring_cell_epoch (hi_state (hr_cells s ! (w mod n))) < word_of_nat w"
    using full old t(3) lt by (cases "length q = n") (auto simp: ring_words)
  show "hatring_is_enqueued (hi_state (hr_cells s ! (w mod n))) \<longleftrightarrow> length q = n"
    using full old t(3) by (cases "length q = n") (auto simp: ring_words)
  show "hi_item (hr_cells s ! (w mod n)) = hd q" if "length q = n"
    using full [OF that] that n by (cases q) auto
qed

lemma length_ring_put: "length q \<le> n \<Longrightarrow> 0 < n \<Longrightarrow> length (ring_put n q x) = (if length q = n then n else Suc (length q))"
  by (auto simp: ring_put_def)

lemma nth_ring_put:
  assumes "length q \<le> n" "0 < n" "i < length (ring_put n q x)"
  shows "ring_put n q x ! i =
    (if Suc i = length (ring_put n q x) then x else if length q = n then q ! Suc i else q ! i)"
  using assms by (auto simp: ring_put_def nth_append nth_tl)

lemma ring_holds_enqueue:
  assumes h: "ring_holds n s w r q" and w: "Suc w < 2 ^ 32"
  obtains s' r' where "hatring_enqueue s x = Some (s', word_of_nat w)"
    "ring_holds n s' (Suc w) r' (ring_put n q x)" "hr_drop_handler s' = hr_drop_handler s"
    "hr_dropped s' = hr_dropped s @ (if hr_drop_handler s \<and> length q = n then [hd q] else [])"
proof -
  have ring: "ring_of n s" and ep: "hr_epochs s = epochs_word w r" and nw: "n \<le> w" and q: "length q \<le> n"
    and r: "r + length q = w \<or> length q = n \<and> Suc r + n = w"
    and cells: "\<And>i. i < length q \<Longrightarrow> hr_cells s ! ((w - length q + i) mod n) =
        \<lparr>hi_item = q ! i, hi_state = enqueued_at (w - length q + i)\<rparr>"
    and old: "\<And>e. w - n \<le> e \<Longrightarrow> e < w - length q \<Longrightarrow> hi_state (hr_cells s ! (e mod n)) \<in> {0, dequeued_at e}"
    using h unfolding ring_holds_def ring_tickets_def by auto
  have n: "0 < n" "length (hr_cells s) = n" using ring_of_bounds [OF ring] by auto
  define r' where "r' = (if r + n < w then Suc w - n else r)"
  define s1 where "s1 = s\<lparr>hr_epochs := epochs_word (Suc w) r'\<rparr>"
  define s' where "s' = enqueue_write n w x s1"
  let ?q = "ring_put n q x"
  have s': "hatring_enqueue s x = Some (s', word_of_nat w)"
    unfolding s'_def s1_def r'_def using r
    by (intro solo_enqueue ring ep w ring_holds_next_cell(1) [OF h]) auto
  have c': "hr_cells s' = (hr_cells s)[w mod n := \<lparr>hi_item = x, hi_state = enqueued_at w\<rparr>]"
    and e': "hr_epochs s' = epochs_word (Suc w) r'" and ring': "ring_of n s'"
    using ring by (auto simp: s'_def s1_def enqueue_write_def Let_def drop_item_def ring_defs)
  have tickets: "ring_tickets n s' (Suc w) r' (length ?q)"
    using r nw w q n by (auto simp: ring_tickets_def e' length_ring_put r'_def)
  have other: "hr_cells s' ! (e mod n) = hr_cells s ! (e mod n)" if "w < e + n" "e < w" for e
  proof -
    have "e mod n \<noteq> w mod n" using mod_eq_window [of e n w "Suc w"] that by auto
    then show ?thesis by (simp add: c')
  qed
  have new: "hr_cells s' ! ((Suc w - length ?q + i) mod n) =
      \<lparr>hi_item = ?q ! i, hi_state = enqueued_at (Suc w - length ?q + i)\<rparr>" if i: "i < length ?q" for i
  proof (cases "Suc i = length ?q")
    case True
    then have "Suc w - length ?q + i = w" using nw q n by (auto simp: length_ring_put)
    then show ?thesis using n nth_ring_put [OF q n(1) i] True by (simp add: c')
  next
    case False
    let ?j = "if length q = n then Suc i else i"
    have j: "?j < length q" "Suc w - length ?q + i = w - length q + ?j"
      using False i q n nw by (auto simp: length_ring_put split: if_splits)
    have "hr_cells s' ! ((w - length q + ?j) mod n) = hr_cells s ! ((w - length q + ?j) mod n)"
      using j(1) q nw by (intro other) (auto split: if_splits)
    with cells [OF j(1)] nth_ring_put [OF q n(1) i] False show ?thesis unfolding j(2) by auto
  qed
  have old': "hi_state (hr_cells s' ! (e mod n)) \<in> {0, dequeued_at e}"
    if "Suc w - n \<le> e" "e < Suc w - length ?q" for e
    using that q n nw other [of e] old [of e] by (auto simp: length_ring_put split: if_splits)
  have "ring_holds n s' (Suc w) r' ?q"
    unfolding ring_holds_def using ring' tickets new old' by blast
  moreover have "hr_drop_handler s' = hr_drop_handler s"
    "hr_dropped s' = hr_dropped s @ (if hr_drop_handler s \<and> length q = n then [hd q] else [])"
    using ring_holds_next_cell(2,3) [OF h] by (auto simp: s'_def s1_def enqueue_write_def Let_def drop_item_def)
  ultimately show ?thesis using that s' by blast
qed

lemma solo_dequeue_ticket:
  assumes "ring_of n s" "hr_epochs s = epochs_word w r" "r < w" "w < 2 ^ 32"
  shows "run_alone (dequeue_body stale) DeqPoll s =
    run_alone (dequeue_body stale)
      (dequeue_look (hatring_dequeue_ix (epochs_word w r) (ucast (hr_last_slot s))) (word_of_nat r)
        (word_of_nat w) (hr_cells s ! (r mod n)))
      (s\<lparr>hr_epochs := epochs_word w (Suc r)\<rparr>)"
proof -
  let ?ix = "hatring_dequeue_ix (epochs_word w r) (ucast (hr_last_slot s))"
  let ?s = "s\<lparr>hr_epochs := epochs_word w (Suc r)\<rparr>"
  have "run_alone (dequeue_body stale) DeqPoll s = run_alone (dequeue_body stale) DeqAdd s"
    by (rule run_next) (use assms in \<open>auto simp: ring_words Let_def\<close>)
  also have "\<dots> = run_alone (dequeue_body stale) (DeqCell ?ix (word_of_nat r) (word_of_nat w)) ?s"
    by (rule run_next) (use assms in \<open>auto simp: ring_words Let_def\<close>)
  also have "\<dots> = run_alone (dequeue_body stale)
      (dequeue_look ?ix (word_of_nat r) (word_of_nat w) (hr_cells s ! (r mod n))) ?s"
    by (rule run_next) (use assms in \<open>simp add: cell_of_read [of n s]\<close>)
  finally show ?thesis .
qed

lemma solo_dequeue_hit:
  assumes "ring_of n s" "hr_epochs s = epochs_word w r" "r < w" "w < 2 ^ 32"
    and c: "hr_cells s ! (r mod n) = \<lparr>hi_item = x, hi_state = enqueued_at r\<rparr>"
  shows "run_alone (dequeue_body stale) DeqPoll s =
    Some (s\<lparr>hr_epochs := epochs_word w (Suc r),
            hr_cells := (hr_cells s)[r mod n := \<lparr>hi_item = 0, hi_state = dequeued_at r\<rparr>]\<rparr>,
          FoundItem x (word_of_nat r))"
  unfolding solo_dequeue_ticket [OF assms(1-4)] c
  by (subst dequeue_look_def, simp add: ring_words, rule run_done)
     (use assms in \<open>simp add: cell_of_read [of n s] ring_words flip: dequeued_at_def\<close>)

lemma solo_dequeue_passed:
  assumes "ring_of n s" "hr_epochs s = epochs_word w r" "r < w" "w < 2 ^ 32"
    and "word_of_nat r < hatring_cell_epoch (hi_state (hr_cells s ! (r mod n)))"
  shows "run_alone (dequeue_body stale) DeqPoll s =
    run_alone (dequeue_body stale) DeqPoll (s\<lparr>hr_epochs := epochs_word w (Suc r)\<rparr>)"
proof -
  have "\<not> hatring_cell_epoch (hi_state (hr_cells s ! (r mod n))) \<le> word_of_nat r" using assms(5) by simp
  then show ?thesis unfolding solo_dequeue_ticket [OF assms(1-4)] by (simp only: dequeue_look_def if_False)
qed

lemma solo_dequeue_empty:
  assumes "hr_epochs s = epochs_word w r" "w \<le> r" "w < 2 ^ 32" "r < 2 ^ 32"
  shows "run_alone (dequeue_body stale) DeqPoll s = Some (s, NothingFound)"
  by (rule run_done) (use assms in \<open>simp add: ring_words\<close>)

lemma ring_holds_reread:
  assumes "ring_holds n s w r q" "r + length q \<noteq> w"
  shows "run_alone (dequeue_body stale) DeqPoll s =
      run_alone (dequeue_body stale) DeqPoll (s\<lparr>hr_epochs := epochs_word w (Suc r)\<rparr>)"
    and "ring_holds n (s\<lparr>hr_epochs := epochs_word w (Suc r)\<rparr>) w (Suc r) q"
proof -
  have ring: "ring_of n s" and ep: "hr_epochs s = epochs_word w r" and w: "Suc r + n = w" "w < 2 ^ 32"
    and q: "length q = n"
    and cells: "\<And>i. i < length q \<Longrightarrow> hr_cells s ! ((w - length q + i) mod n) =
        \<lparr>hi_item = q ! i, hi_state = enqueued_at (w - length q + i)\<rparr>"
    using assms unfolding ring_holds_def ring_tickets_def by auto
  have n: "16 \<le> n" using ring_of_bounds [OF ring] by simp
  have "w - length q + (n - 1) = r + n" using w q n by simp
  then have "hr_cells s ! ((r + n) mod n) = \<lparr>hi_item = q ! (n - 1), hi_state = enqueued_at (r + n)\<rparr>"
    using cells [of "n - 1"] q n by (simp only:)
  then have "hi_state (hr_cells s ! (r mod n)) = enqueued_at (r + n)" by simp
  moreover have "word_of_nat r < (word_of_nat (r + n) :: 32 word)"
    using w n by (simp only: ticket_less)
  ultimately have "word_of_nat r < hatring_cell_epoch (hi_state (hr_cells s ! (r mod n)))"
    by (simp only: ring_words)
  then show "run_alone (dequeue_body stale) DeqPoll s =
      run_alone (dequeue_body stale) DeqPoll (s\<lparr>hr_epochs := epochs_word w (Suc r)\<rparr>)"
    using w n by (intro solo_dequeue_passed [OF ring ep]) auto
  show "ring_holds n (s\<lparr>hr_epochs := epochs_word w (Suc r)\<rparr>) w (Suc r) q"
    using assms(1) w q unfolding ring_holds_def ring_tickets_def by auto
qed

lemma ring_holds_dequeue_front:
  assumes h: "ring_holds n s w r (x # q)" and r: "r + length (x # q) = w"
  defines "s' \<equiv> s\<lparr>hr_epochs := epochs_word w (Suc r),
            hr_cells := (hr_cells s)[r mod n := \<lparr>hi_item = 0, hi_state = dequeued_at r\<rparr>]\<rparr>"
  shows "run_alone (dequeue_body stale) DeqPoll s = Some (s', FoundItem x (word_of_nat r))"
    and "ring_holds n s' w (Suc r) q"
proof -
  have ring: "ring_of n s" and ep: "hr_epochs s = epochs_word w r" and w: "w < 2 ^ 32" "n \<le> w"
    and q: "length (x # q) \<le> n"
    and cells: "\<And>i. i < length (x # q) \<Longrightarrow> hr_cells s ! ((r + i) mod n) =
        \<lparr>hi_item = (x # q) ! i, hi_state = enqueued_at (r + i)\<rparr>"
    and old: "\<And>e. w - n \<le> e \<Longrightarrow> e < r \<Longrightarrow> hi_state (hr_cells s ! (e mod n)) \<in> {0, dequeued_at e}"
    using h r unfolding ring_holds_def ring_tickets_def by (auto simp flip: r)
  have n: "0 < n" "length (hr_cells s) = n" using ring_of_bounds [OF ring] by auto
  show "run_alone (dequeue_body stale) DeqPoll s = Some (s', FoundItem x (word_of_nat r))"
    unfolding s'_def using cells [of 0] r w by (intro solo_dequeue_hit ring ep) auto
  have other: "hr_cells s' ! (e mod n) = hr_cells s ! (e mod n)" if "w \<le> e + n" "e < w" "e \<noteq> r" for e
  proof -
    have "e mod n \<noteq> r mod n" using mod_eq_window [of e n r w] that r q by auto
    then show ?thesis by (simp add: s'_def)
  qed
  have "hr_cells s' ! ((Suc r + i) mod n) = \<lparr>hi_item = q ! i, hi_state = enqueued_at (Suc r + i)\<rparr>"
    if "i < length q" for i
    using cells [of "Suc i"] other [of "Suc r + i"] that r q by simp
  moreover have "hi_state (hr_cells s' ! (e mod n)) \<in> {0, dequeued_at e}" if "w - n \<le> e" "e < Suc r" for e
  proof (cases "e = r")
    case True
    then show ?thesis using n by (simp add: s'_def)
  next
    case False
    then show ?thesis using old [of e] other [of e] that r by auto
  qed
  moreover have "w - length q = Suc r" using r by simp
  moreover have "ring_of n s'" "ring_tickets n s' w (Suc r) (length q)"
    using ring w q r by (auto simp: s'_def ring_defs ring_tickets_def)
  ultimately show "ring_holds n s' w (Suc r) q" unfolding ring_holds_def by presburger
qed

lemma ring_holds_dequeue:
  assumes h: "ring_holds n s w r q"
  obtains s' r' where "run_alone (dequeue_body stale) DeqPoll s =
      Some (s', if q = [] then NothingFound else FoundItem (hd q) (word_of_nat (w - length q)))"
    "ring_holds n s' w r' (tl q)" "hr_drop_handler s' = hr_drop_handler s" "hr_dropped s' = hr_dropped s"
proof (cases q)
  case Nil
  have "ring_of n s" using h by (simp add: ring_holds_def)
  then have "0 < n" using ring_of_bounds [of n s] by simp
  then have "run_alone (dequeue_body stale) DeqPoll s = Some (s, NothingFound)"
    using h Nil by (intro solo_dequeue_empty [of s w r]) (auto simp: ring_holds_def ring_tickets_def)
  then show ?thesis using that [of s r] h Nil by simp
next
  case (Cons x q')
  note result = that
  have front: thesis if "ring_holds n s1 w r1 q" "r1 + length q = w" "hr_drop_handler s1 = hr_drop_handler s"
      "hr_dropped s1 = hr_dropped s"
      "run_alone (dequeue_body stale) DeqPoll s = run_alone (dequeue_body stale) DeqPoll s1" for s1 r1
    using ring_holds_dequeue_front(1) [of n s1 w r1 x q' stale] ring_holds_dequeue_front(2) [of n s1 w r1 x q']
      that Cons
    by (intro result [of "s1\<lparr>hr_epochs := epochs_word w (Suc r1),
        hr_cells := (hr_cells s1)[r1 mod n := \<lparr>hi_item = 0, hi_state = dequeued_at r1\<rparr>]\<rparr>" "Suc r1"]) auto
  show ?thesis
  proof (cases "r + length q = w")
    case True
    then show ?thesis using front [of s r] h by simp
  next
    case False
    have "Suc r + length q = w" using h False unfolding ring_holds_def ring_tickets_def by auto
    then show ?thesis using front [OF ring_holds_reread(2) [OF h False]] ring_holds_reread(1) [OF h False] by simp
  qed
qed

subsection \<open>Views\<close>

lemma view_step_cell:
  assumes "ring_of n s" "e < 2 ^ 32" "hr_cells s ! (e mod n) = c"
  shows "hatring_is_enqueued (hi_state c) \<Longrightarrow> hatring_cell_epoch (hi_state c) = word_of_nat e \<Longrightarrow> view_append v (hi_item c) = Inr v' \<Longrightarrow>
      run_alone hatring_view_step (ViewCell (word_of_nat e) v) s = run_alone hatring_view_step (ViewEnd (word_of_nat (Suc e)) v') s"
    "\<not> (hatring_is_enqueued (hi_state c) \<and> hatring_cell_epoch (hi_state c) = word_of_nat e) \<Longrightarrow>
      run_alone hatring_view_step (ViewCell (word_of_nat e) v) s = run_alone hatring_view_step (ViewEnd (word_of_nat (Suc e)) v) s"
  using cell_of_write(1) [OF ring_of_frame [OF assms(1)] assms(2)] assms(3)
  by (auto simp: Let_def add.commute intro!: run_next)

lemma view_step_test:
  assumes "ring_of n s" "hr_epochs s = epochs_word w r" "w < 2 ^ 32" "r < 2 ^ 32" "e < 2 ^ 32" "hv_next_ix v = 0"
  shows "run_alone hatring_view_step (ViewEnd (word_of_nat e) v) s =
    (if e < w then run_alone hatring_view_step (ViewCell (word_of_nat e) v) s else Some (s, Inr v))"
proof -
  have "hr_size s = word_of_nat n" using assms(1) by (simp add: ring_defs)
  then have "view_test (hr_size s) (word_of_nat e) (hatring_enqueue_epoch (hr_epochs s)) v =
      (if e < w then Inl (ViewCell (word_of_nat e) v) else Inr (Inr v))"
    using assms ring_of_bounds [OF assms(1)] by (simp add: view_test_def ring_words)
  then show ?thesis
    by (cases "e < w") (simp_all add: run_next [of hatring_view_step "ViewEnd (word_of_nat e) v"]
      run_done [of hatring_view_step "ViewEnd (word_of_nat e) v"])
qed

text \<open>A view whose buffer holds \<open>as\<close>, with room for \<open>m\<close> more.\<close>

definition part_view :: "ptr list \<Rightarrow> nat \<Rightarrow> hatring_view" where
  "part_view as m = \<lparr>hv_next_ix = 0, hv_num_items = length as, hv_cells = as @ replicate m 0\<rparr>"

lemma part_view_append: "0 < m \<Longrightarrow> view_append (part_view as m) x = Inr (part_view (as @ [x]) (m - 1))"
  by (cases m) (simp_all add: view_append_def part_view_def)

lemma view_alloc_part:
  assumes "ring_of n s"
  shows "view_alloc s = part_view [] (2 * n)"
proof -
  have "unat (hr_size s) = n" using ring_of_bounds [OF assms] assms by (auto simp: ring_defs unat_word64)
  then show ?thesis by (simp add: view_alloc_def part_view_def sizeof_hatring_cell_def sizeof_ptr_def)
qed

lemma view_collects:
  assumes "ring_of n s" "hr_epochs s = epochs_word w r" "w < 2 ^ 32" "r < 2 ^ 32" "w = e + length q"
    and "length q \<le> m"
    and "\<And>i. i < length q \<Longrightarrow> hr_cells s ! ((e + i) mod n) = \<lparr>hi_item = q ! i, hi_state = enqueued_at (e + i)\<rparr>"
  shows "run_alone hatring_view_step (ViewEnd (word_of_nat e) (part_view as m)) s = Some (s, Inr (part_view (as @ q) (m - length q)))"
  using assms(3-)
proof (induction q arbitrary: e as m)
  case Nil
  then show ?case using view_step_test [OF assms(1,2), of e "part_view as m"] by (simp add: part_view_def)
next
  case (Cons x q)
  have c: "hr_cells s ! (e mod n) = \<lparr>hi_item = x, hi_state = enqueued_at e\<rparr>" using Cons.prems(5) [of 0] by simp
  have e: "e < w" "e < 2 ^ 32" using Cons.prems(1,3) by simp_all
  have "run_alone hatring_view_step (ViewEnd (word_of_nat e) (part_view as m)) s =
      run_alone hatring_view_step (ViewCell (word_of_nat e) (part_view as m)) s"
    using view_step_test [OF assms(1,2) Cons.prems(1,2) e(2), of "part_view as m"] e(1) by (simp add: part_view_def)
  also have "\<dots> = run_alone hatring_view_step (ViewEnd (word_of_nat (Suc e)) (part_view (as @ [x]) (m - 1))) s"
    by (rule view_step_cell(1) [OF assms(1) e(2) c]) (use e Cons.prems(4) in \<open>simp_all add: ring_words part_view_append\<close>)
  also have "\<dots> = Some (s, Inr (part_view ((as @ [x]) @ q) (m - 1 - length q)))"
    using Cons.prems(5) [of "Suc i" for i] Cons.prems(1-4) by (intro Cons.IH) auto
  finally show ?case by simp
qed

lemma ring_holds_view:
  assumes h: "ring_holds n s w r q"
  shows "hatring_view_of s = Some (s, Inr (part_view q (2 * n - length q)))"
proof -
  have ring: "ring_of n s" and ep: "hr_epochs s = epochs_word w r" and w: "w < 2 ^ 32" "r < 2 ^ 32" "r \<le> w"
    and q: "r + length q = w \<or> length q = n \<and> Suc r + n = w" "n \<le> w" "length q \<le> n"
    and cells: "\<And>i. i < length q \<Longrightarrow> hr_cells s ! ((w - length q + i) mod n) =
        \<lparr>hi_item = q ! i, hi_state = enqueued_at (w - length q + i)\<rparr>"
    using h unfolding ring_holds_def ring_tickets_def by auto
  let ?v = "part_view [] (2 * n)"
  let ?e = "w - length q"
  have n: "16 \<le> n" using ring_of_bounds [OF ring] by simp
  have "hatring_view_of s = run_alone hatring_view_step (ViewEnd (word_of_nat r) ?v) s"
    unfolding hatring_view_of_def
    by (subst (1 2) run_alone.simps) (simp add: ep dequeue_epoch_word [OF w(1,2)] Let_def view_alloc_part [OF ring])
  also have "\<dots> = run_alone hatring_view_step (ViewEnd (word_of_nat ?e) ?v) s"
  proof (cases "r + length q = w")
    case True
    then show ?thesis by auto
  next
    case False
    then have f: "Suc r + n = w" "length q = n" using q by auto
    then have "w - length q + (n - 1) = r + n" using n by simp
    then have "hr_cells s ! ((r + n) mod n) = \<lparr>hi_item = q ! (n - 1), hi_state = enqueued_at (r + n)\<rparr>"
      using cells [of "n - 1"] f n by (simp only:)
    then have c: "hr_cells s ! (r mod n) = \<lparr>hi_item = q ! (n - 1), hi_state = enqueued_at (r + n)\<rparr>" by simp
    have e: "r + n < 2 ^ 32" "r \<noteq> r + n" "Suc r = ?e" using f w n by auto
    have "run_alone hatring_view_step (ViewEnd (word_of_nat r) ?v) s = run_alone hatring_view_step (ViewCell (word_of_nat r) ?v) s"
      using view_step_test [OF ring ep w(1,2,2), of ?v] f n by (simp add: part_view_def)
    also have "\<dots> = run_alone hatring_view_step (ViewEnd (word_of_nat (Suc r)) ?v) s"
      by (rule view_step_cell(2) [OF ring w(2) c])
        (use e w in \<open>simp add: cell_epoch_states ticket_eq del: of_nat_Suc of_nat_add\<close>)
    finally show ?thesis unfolding e(3) .
  qed
  also have "\<dots> = Some (s, Inr (part_view ([] @ q) (2 * n - length q)))"
    using cells w q by (intro view_collects [OF ring ep]) auto
  finally show ?thesis by simp
qed

section \<open>Properties\<close>

lemma ring_holds_new:
  assumes "hatring_new num_buckets = Inr s" "num_buckets \<le> 2 ^ 31"
  obtains n where "hatring_buckets num_buckets = Inr n" "ring_holds n s n n []"
    "hr_drop_handler s = False" "hr_dropped s = []"
proof -
  obtain k where k: "hatring_buckets num_buckets = Inr (2 ^ k)" "4 \<le> k" "k < 32"
    using ring_new_size [OF assms(2)] by metis
  define n :: nat where "n = 2 ^ k"
  have n: "n < 2 ^ 32" unfolding n_def using k by (intro power_strict_increasing) auto
  have s: "s = \<lparr>hr_epochs = epochs_word n n, hr_drop_handler = False, hr_last_slot = word_of_nat n - 1,
      hr_size = word_of_nat n, hr_cells = replicate n \<lparr>hi_item = 0, hi_state = 0\<rparr>, hr_dropped = []\<rparr>"
    using assms(1) k(1) or_shifted [OF n, of n] by (simp add: hatring_new_def flip: n_def)
  have "ring_holds n s n n []"
    using k(2,3) n unfolding ring_holds_def ring_tickets_def ring_defs s
    by (auto simp: n_def intro!: exI [of _ k])
  then show ?thesis using that [of n] k(1) by (simp add: n_def s)
qed

text \<open>Calls on a ring that give these answers, leave this list, and hand these items to the drop handler.\<close>

fun ring_answers :: "nat \<Rightarrow> hatring \<Rightarrow> ring_call list \<Rightarrow> ring_answer list \<times> ptr list \<times> ptr list \<Rightarrow> bool" where
  "ring_answers n s cs (as, q, ds) \<longleftrightarrow>
     (\<exists>s' w r. ring_calls s cs = Some (s', as) \<and> ring_holds n s' w r q \<and>
        hr_dropped s' = hr_dropped s @ ds \<and> hr_drop_handler s' = hr_drop_handler s)"

lemma ring_answers_Cons:
  assumes "ring_call_run s c = Some (s1, a)" "hr_dropped s1 = hr_dropped s @ d"
    "hr_drop_handler s1 = hr_drop_handler s" "ring_answers n s1 cs r"
  shows "ring_answers n s (c # cs) (let (as, q, ds) = r in (a # as, q, d @ ds))"
  using assms by (cases r) auto

lemma ring_calls_hold:
  assumes "ring_holds n s w r q" "w + length cs < 2 ^ 32" "hr_drop_handler s = h"
  shows "ring_answers n s cs (ring_spec n h w q cs)"
  using assms
proof (induction cs arbitrary: s w r q)
  case Nil
  then show ?case by auto
next
  case (Cons c cs)
  have deq: "ring_answers n s (c # cs)
      (let (as, q', ds) = ring_spec n h w (tl q) cs
       in (Dequeued (if q = [] then NothingFound else FoundItem (hd q) (word_of_nat (w - length q))) # as, q', [] @ ds))"
    if "ring_call_run s c = map_option (map_prod id Dequeued) (run_alone (dequeue_body stale) DeqPoll s)" for stale
  proof -
    obtain s1 r1 where "run_alone (dequeue_body stale) DeqPoll s =
        Some (s1, if q = [] then NothingFound else FoundItem (hd q) (word_of_nat (w - length q)))"
      "ring_holds n s1 w r1 (tl q)" "hr_drop_handler s1 = hr_drop_handler s" "hr_dropped s1 = hr_dropped s"
      by (rule ring_holds_dequeue [OF Cons.prems(1)])
    then show ?thesis
      using Cons.prems(2,3) that by (intro ring_answers_Cons [of _ _ s1] Cons.IH) auto
  qed
  show ?case
  proof (cases c)
    case (EnqueueCall x)
    obtain s1 r1 where "hatring_enqueue s x = Some (s1, word_of_nat w)"
      "ring_holds n s1 (Suc w) r1 (ring_put n q x)" "hr_drop_handler s1 = hr_drop_handler s"
      "hr_dropped s1 = hr_dropped s @ (if hr_drop_handler s \<and> length q = n then [hd q] else [])"
      by (rule ring_holds_enqueue [OF Cons.prems(1)]) (use Cons.prems(2) in auto)
    then show ?thesis
      using Cons.prems(2,3) unfolding EnqueueCall ring_spec.simps
      by (intro ring_answers_Cons [of _ _ s1] Cons.IH) auto
  next
    case DequeueCall
    with deq show ?thesis by (simp add: hatring_dequeue_def hatring_dequeue_step_def)
  next
    case DequeueEpochCall
    with deq show ?thesis by (simp add: hatring_dequeue_w_epoch_def hatring_dequeue_w_epoch_step_def)
  next
    case ViewCall
    then show ?thesis
      using ring_answers_Cons [of s ViewCall s "Viewed q" "[]", OF _ _ _ Cons.IH [OF Cons.prems(1)]]
        Cons.prems(2,3) ring_holds_view [OF Cons.prems(1)] by (simp add: part_view_def)
  qed
qed

text \<open>C14: One thread on a new ring: any sequence of enqueues, dequeues (with and without the ticket) and
  views returns, with the answers of a queue that keeps the last items up to the size of the ring: enqueues return
  consecutive tickets, dequeues the oldest item kept with the ticket it was enqueued under, and with a drop handler
  set exactly the items overwritten are handed to it, in order. Up to \<open>2 ^ 32\<close> tickets.\<close>

theorem hatring_calls_fifo:
  assumes "hatring_new num_buckets = Inr s" "num_buckets \<le> 2 ^ 31" "hatring_buckets num_buckets = Inr n"
    and "n + length cs < 2 ^ 32"
  shows "case ring_spec n h n [] cs of (answers, q, dropped) \<Rightarrow>
     \<exists>s'. ring_calls (hatring_set_drop_handler s h) cs = Some (s', answers) \<and> hr_dropped s' = dropped \<and>
          hatring_view_of s' = Some (s', Inr \<lparr>hv_next_ix = 0, hv_num_items = length q,
            hv_cells = q @ replicate (2 * n - length q) 0\<rparr>)"
proof -
  have new: "ring_holds n s n n []" "hr_dropped s = []"
    using ring_holds_new [OF assms(1,2)] assms(3) by (metis sum.inject(2))+
  then have "ring_holds n (hatring_set_drop_handler s h) n n []"
    by (simp add: ring_holds_def ring_tickets_def ring_defs hatring_set_drop_handler_def)
  from ring_calls_hold [OF this assms(4), of h] show ?thesis
    using new(2) ring_holds_view by (fastforce simp: hatring_set_drop_handler_def part_view_def split: prod.splits)
qed

theorem hatring_calls_fifo_witness:
  "\<exists>s s'. hatring_new 3 = Inr s \<and>
     ring_calls (hatring_set_drop_handler s True) [EnqueueCall 7, EnqueueCall 8, DequeueCall, ViewCall, DequeueEpochCall, DequeueCall] =
       Some (s', [Ticket 16, Ticket 17, Dequeued (FoundItem 7 16), Viewed [8], Dequeued (FoundItem 8 17),
                  Dequeued NothingFound]) \<and> hr_dropped s' = []"
proof -
  have "bit_length 3 = 2" by (simp add: bit_length.simps)
  then have b: "hatring_buckets 3 = Inr 16"
    by (simp add: hatring_buckets_def hatrack_round_up_to_power_of_2_def clzll_def wrap64_def HATRING_MINIMUM_SIZE_def)
  then obtain s where s: "hatring_new 3 = Inr s" by (simp add: hatring_new_def)
  show ?thesis
    using hatring_calls_fifo [OF s _ b, of "[EnqueueCall 7, EnqueueCall 8, DequeueCall, ViewCall, DequeueEpochCall, DequeueCall]" True]
    by (simp add: s ring_put_def) blast
qed

text \<open>When the 32-bit write ticket wraps around, items are lost: on an empty ring at write ticket
  \<open>2 ^ 32 - 1\<close> an enqueue returns normally, and the dequeue that follows finds nothing although the item is in its cell.\<close>

theorem hatring_wrap_loses_item:
  assumes "ring_of n s" "hr_epochs s = epochs_word (2 ^ 32 - 1) (2 ^ 32 - 1)"
    and "hatring_cell_epoch (hi_state (hr_cells s ! ((2 ^ 32 - 1) mod n))) < word_of_nat (2 ^ 32 - 1)"
  shows "\<exists>s'. hatring_enqueue s x = Some (s', word_of_nat (2 ^ 32 - 1)) \<and>
     hatring_dequeue s' = Some (s', NothingFound) \<and>
     hr_cells s' ! ((2 ^ 32 - 1) mod n) = \<lparr>hi_item = x, hi_state = enqueued_at (2 ^ 32 - 1)\<rparr>"
proof -
  define m :: nat where "m = 2 ^ 32 - 1"
  have m: "m < 2 ^ 32" "Suc m = 2 ^ 32" by (simp_all add: m_def)
  note a = assms [folded m_def]
  let ?step = "hatring_enqueue_step x"
  let ?s1 = "s\<lparr>hr_epochs := epochs_word 0 m\<rparr>"
  have n: "n < 2 ^ 32" "length (hr_cells s) = n" "0 < n" using ring_of_bounds [OF a(1)] by auto
  have wrap: "epochs_word (Suc m) m = epochs_word 0 m"
    unfolding m(2) epochs_word_def by (simp only: word_of_nat_eq_iff take_bit_eq_mod) simp
  have size: "hr_size s = word_of_nat n" using a(1) by (simp add: ring_defs)
  have "run_alone ?step EnqPoll s = run_alone ?step EnqAdd s"
    by (rule run_next) (use m(1) n in \<open>simp add: a ring_words size Let_def\<close>)
  also have "\<dots> = run_alone ?step (EnqCell (word_of_nat m)) ?s1"
    by (rule run_next) (use m(1) wrap in \<open>simp add: a ring_words Let_def\<close>)
  also have "\<dots> = Some (enqueue_write n m x ?s1, word_of_nat m)"
    by (rule solo_enqueue_cell) (use a m in \<open>simp_all add: ring_of_frame\<close>)
  finally have e: "hatring_enqueue s x = Some (enqueue_write n m x ?s1, word_of_nat m)"
    by (simp add: hatring_enqueue_def)
  have "hr_epochs (enqueue_write n m x ?s1) = epochs_word 0 m"
    by (simp add: enqueue_write_def Let_def drop_item_def)
  then have "hatring_dequeue (enqueue_write n m x ?s1) = Some (enqueue_write n m x ?s1, NothingFound)"
    unfolding hatring_dequeue_def hatring_dequeue_step_def using m(1) by (intro solo_dequeue_empty [of _ 0 m]) auto
  moreover have "hr_cells (enqueue_write n m x ?s1) ! (m mod n) = \<lparr>hi_item = x, hi_state = enqueued_at m\<rparr>"
    using n by (simp add: enqueue_write_def Let_def drop_item_def)
  ultimately show ?thesis using e unfolding m_def by blast
qed

text \<open>\<^verbatim>\<open>hatring_init\<close> leaves the size of the ring 0, so that the first item enqueued on a ring it
  initialised moves the read ticket past itself: the enqueue returns ticket 1 and the dequeue that follows finds nothing.\<close>

theorem hatring_init_loses_item:
  assumes "num_buckets \<le> 2 ^ 31" "hatring_init self num_buckets = Inr s"
  shows "\<exists>s'. hatring_enqueue s x = Some (s', 1) \<and> hatring_dequeue s' = Some (s', NothingFound)"
proof -
  obtain k where k: "hatring_buckets num_buckets = Inr (2 ^ k)" "4 \<le> k" "k < 32"
    using ring_new_size [OF assms(1)] by metis
  let ?step = "hatring_enqueue_step x"
  let ?n = "2 ^ k :: nat"
  let ?s1 = "s\<lparr>hr_epochs := epochs_word 1 0\<rparr>" and ?s2 = "s\<lparr>hr_epochs := epochs_word 2 2\<rparr>"
  have s: "hr_size s = word_of_nat 0" "hr_epochs s = epochs_word 0 0" "ring_frame ?n s"
    "\<And>i. i < ?n \<Longrightarrow> hr_cells s ! i = \<lparr>hi_item = 0, hi_state = 0\<rparr>"
    using assms(2) k by (auto simp: hatring_init_def ring_frame_def epochs_word_def)
  have f: "ring_frame ?n ?s1" "ring_frame ?n ?s2" using s(3) by (simp_all add: ring_frame_def)
  have n: "1 < ?n" using k(2) by (intro one_less_power) auto
  have "run_alone ?step EnqPoll s = run_alone ?step EnqAdd s"
    by (rule run_next) (simp add: s ring_words Let_def hatring_is_lagging_def)
  also have "\<dots> = run_alone ?step (EnqCell (word_of_nat 0)) ?s1"
    by (rule run_next) (simp add: s ring_words Let_def del: of_nat_0)
  also have "\<dots> = run_alone ?step EnqPoll ?s1"
    using cell_of_write(1) [OF f(1), of 0] s(4) [of 0] n
    by (intro run_next) (simp add: enqueue_look_def ring_words)
  also have "\<dots> = run_alone ?step (EnqFix (epochs_word 1 0)) ?s1"
    by (rule run_next) (simp add: s ring_words Let_def hatring_is_lagging_def)
  also have "\<dots> = run_alone ?step (EnqCell (word_of_nat 1)) ?s2"
    using fixed_epoch_word [of 1 0]
    by (intro run_next) (simp add: s ring_words Let_def del: of_nat_0 of_nat_1 flip: numeral_2_eq_2)
  also have "\<dots> = Some (enqueue_write ?n 1 x ?s2, word_of_nat 1)"
    by (rule solo_enqueue_cell [OF f(2)]) (use s(4) [of 1] n k(2) in \<open>simp_all add: ring_words\<close>)
  finally have e: "hatring_enqueue s x = Some (enqueue_write ?n 1 x ?s2, 1)"
    by (simp add: hatring_enqueue_def)
  have "hr_epochs (enqueue_write ?n 1 x ?s2) = epochs_word 2 2"
    by (simp add: enqueue_write_def Let_def drop_item_def)
  then have "hatring_dequeue (enqueue_write ?n 1 x ?s2) = Some (enqueue_write ?n 1 x ?s2, NothingFound)"
    unfolding hatring_dequeue_def hatring_dequeue_step_def by (intro solo_dequeue_empty) auto
  with e show ?thesis by blast
qed

theorem hatring_init_loses_item_witness:
  "\<exists>s s'. hatring_init \<lparr>hr_epochs = 0, hr_drop_handler = False, hr_last_slot = 0, hr_size = 0, hr_cells = [],
       hr_dropped = []\<rparr> 16 = Inr s \<and> hatring_enqueue s 7 = Some (s', 1) \<and> hatring_dequeue s' = Some (s', NothingFound)"
proof -
  have "hatring_buckets 16 = Inr 16"
    using round_up_power [of 4] by (simp add: hatring_buckets_def HATRING_MINIMUM_SIZE_def)
  then obtain s where s: "hatring_init \<lparr>hr_epochs = 0, hr_drop_handler = False, hr_last_slot = 0, hr_size = 0, hr_cells = [],
       hr_dropped = []\<rparr> 16 = Inr s" by (simp add: hatring_init_def)
  show ?thesis using hatring_init_loses_item [OF _ s, of 7] s by simp
qed

definition worn_ring :: hatring where
  "worn_ring = \<lparr>hr_epochs = epochs_word (2 ^ 32 - 1) (2 ^ 32 - 1), hr_drop_handler = False, hr_last_slot = 15,
     hr_size = 16, hr_cells = replicate 16 \<lparr>hi_item = 0, hi_state = 0\<rparr>, hr_dropped = []\<rparr>"

theorem hatring_wrap_loses_item_witness:
  "\<exists>s'. hatring_enqueue worn_ring 7 = Some (s', word_of_nat (2 ^ 32 - 1)) \<and> hatring_dequeue s' = Some (s', NothingFound)"
proof -
  have "ring_of 16 worn_ring" by (auto simp: ring_defs worn_ring_def intro!: exI [of _ 4])
  moreover have "hr_epochs worn_ring = epochs_word (2 ^ 32 - 1) (2 ^ 32 - 1)" by (simp add: worn_ring_def)
  moreover have "hatring_cell_epoch (hi_state (hr_cells worn_ring ! ((2 ^ 32 - 1) mod 16))) < word_of_nat (2 ^ 32 - 1)"
    by (simp add: worn_ring_def hatring_cell_epoch_def)
  ultimately show ?thesis using hatring_wrap_loses_item by blast
qed

text \<open>Cleaning up a ring hands every item still in it to the drop handler, each once.\<close>

lemma foldl_drop:
  "foldl (\<lambda>s i. let item = hr_cells s ! i
                in if hatring_is_enqueued (hi_state item) then drop_item s (hi_item item) else s) s is =
   s\<lparr>hr_dropped := hr_dropped s @ map (\<lambda>i. hi_item (hr_cells s ! i))
       (filter (\<lambda>i. hatring_is_enqueued (hi_state (hr_cells s ! i))) is)\<rparr>"
  by (induction "is" arbitrary: s) (simp_all add: drop_item_def Let_def)

lemma cells_of_tickets:
  assumes "0 < n" "n \<le> w"
  shows "mset [0..<n] = image_mset (\<lambda>e. e mod n) (mset [w - n..<w])"
proof -
  have inj: "inj_on (\<lambda>e. e mod n) {w - n..<w}"
  proof (rule inj_onI)
    fix a b assume "a \<in> {w - n..<w}" "b \<in> {w - n..<w}" "a mod n = b mod n"
    then show "a = b" using mod_eq_window [of a n b w] assms by auto
  qed
  have "(\<lambda>e. e mod n) ` {w - n..<w} = {0..<n}"
    by (rule card_subset_eq) (use assms inj in \<open>auto simp: card_image\<close>)
  with inj show ?thesis by (simp add: image_mset_mset_set)
qed

lemma mset_map_filter_map:
  assumes "mset xs = image_mset g (mset ys)"
  shows "mset (map f (filter P xs)) = mset (map (\<lambda>e. f (g e)) (filter (\<lambda>e. P (g e)) ys))"
  by (simp add: assms filter_mset_image_mset image_mset.compositionality comp_def)

lemma ring_holds_items:
  assumes h: "ring_holds n s w r q"
  shows "mset (map (\<lambda>i. hi_item (hr_cells s ! i)) (filter (\<lambda>i. hatring_is_enqueued (hi_state (hr_cells s ! i))) [0..<n])) = mset q"
proof -
  let ?c = "\<lambda>e. hr_cells s ! (e mod n)"
  let ?E = "\<lambda>i. hatring_is_enqueued (hi_state (hr_cells s ! i))"
  have ring: "ring_of n s" and w: "n \<le> w" "length q \<le> n"
    and cells: "\<And>i. i < length q \<Longrightarrow> ?c (w - length q + i) = \<lparr>hi_item = q ! i, hi_state = enqueued_at (w - length q + i)\<rparr>"
    and old: "\<And>e. w - n \<le> e \<Longrightarrow> e < w - length q \<Longrightarrow> hi_state (?c e) \<in> {0, dequeued_at e}"
    using h unfolding ring_holds_def ring_tickets_def by auto
  have n: "0 < n" using ring_of_bounds [OF ring] by simp
  have "[w - n..<w] = [w - n..<w - length q] @ [w - length q..<w]"
    using w upt_add_eq_append [of "w - n" "w - length q" "length q"] by simp
  moreover have "\<not> ?E (e mod n)" if "e \<in> set [w - n..<w - length q]" for e
    using old [of e] that by (auto simp: ring_words)
  moreover have "?E (e mod n)" if "e \<in> set [w - length q..<w]" for e
    using cells [of "e - (w - length q)"] that by (auto simp: ring_words)
  ultimately have f: "filter (\<lambda>e. ?E (e mod n)) [w - n..<w] = [w - length q..<w]" by simp
  have "mset (map (\<lambda>i. hi_item (hr_cells s ! i)) (filter ?E [0..<n])) =
      mset (map (\<lambda>e. hi_item (?c e)) (filter (\<lambda>e. ?E (e mod n)) [w - n..<w]))"
    by (rule mset_map_filter_map [OF cells_of_tickets [OF n w(1)]])
  also have "map (\<lambda>e. hi_item (?c e)) (filter (\<lambda>e. ?E (e mod n)) [w - n..<w]) = q"
    unfolding f by (rule nth_equalityI) (use cells w in auto)
  finally show ?thesis .
qed

text \<open>The items enqueued by calls, and those handed out by answers.\<close>

fun enqueued_items :: "ring_call list \<Rightarrow> ptr list" where
  "enqueued_items [] = []"
| "enqueued_items (EnqueueCall x # cs) = x # enqueued_items cs"
| "enqueued_items (_ # cs) = enqueued_items cs"

fun dequeued_items :: "ring_answer list \<Rightarrow> ptr list" where
  "dequeued_items [] = []"
| "dequeued_items (Dequeued (FoundItem x e) # as) = x # dequeued_items as"
| "dequeued_items (_ # as) = dequeued_items as"

lemma ring_spec_conserves:
  assumes "ring_spec n True w q cs = (as, q', ds)" "0 < n"
  shows "mset q + mset (enqueued_items cs) = mset (dequeued_items as) + mset q' + mset ds"
  using assms
proof (induction cs arbitrary: w q as q' ds)
  case (Cons c cs)
  have hd: "mset q = add_mset (hd q) (mset (tl q))" if "q \<noteq> []" using that by (cases q) auto
  show ?case
  proof (cases c)
    case (EnqueueCall x)
    then obtain as0 ds0 where r: "ring_spec n True (w + 1) (ring_put n q x) cs = (as0, q', ds0)"
      "as = Ticket (word_of_nat w) # as0" "ds = (if length q = n then [hd q] else []) @ ds0"
      using Cons.prems(1) by (auto split: prod.splits)
    then show ?thesis using Cons.IH [OF r(1) Cons.prems(2)] Cons.prems(2) EnqueueCall hd
      by (cases "length q = n") (auto simp: ring_put_def)
  qed (use Cons.prems hd in \<open>auto split: prod.splits if_splits dest!: Cons.IH\<close>)
qed simp

text \<open>With a drop handler set, a ring loses no item and hands none out twice: over any sequence of calls
  followed by the deletion of the ring, the items enqueued are exactly those returned by dequeues together with those handed
  to the handler, each as often as it was enqueued.\<close>

theorem hatring_accounts_for_items:
  assumes "hatring_new num_buckets = Inr s" "num_buckets \<le> 2 ^ 31" "hatring_buckets num_buckets = Inr n"
    and "n + length cs < 2 ^ 32"
  shows "\<exists>s' answers. ring_calls (hatring_set_drop_handler s True) cs = Some (s', answers) \<and>
     mset (enqueued_items cs) = mset (dequeued_items answers) + mset (hr_dropped (fst (hatring_delete s')))"
proof -
  have new: "ring_holds n (hatring_set_drop_handler s True) n n []" "hr_dropped s = []"
    using ring_holds_new [OF assms(1,2)] assms(3)
    by (auto simp: ring_holds_def ring_tickets_def ring_defs hatring_set_drop_handler_def)
  obtain answers q ds where spec: "ring_spec n True n [] cs = (answers, q, ds)" by (metis prod_cases3)
  have "ring_answers n (hatring_set_drop_handler s True) cs (answers, q, ds)"
    using ring_calls_hold [OF new(1) assms(4), of True] unfolding spec
    by (simp add: hatring_set_drop_handler_def del: ring_answers.simps)
  then obtain s' w r where s': "ring_calls (hatring_set_drop_handler s True) cs = Some (s', answers)"
    "ring_holds n s' w r q" "hr_dropped s' = ds" "hr_drop_handler s'"
    using new(2) by (auto simp: hatring_set_drop_handler_def)
  have n: "0 < n" "n < 2 ^ 32" "hr_size s' = word_of_nat n"
    using s'(2) ring_of_bounds [of n s'] by (auto simp: ring_holds_def ring_of_def)
  then have "unat (hr_size s') = n" by (simp add: unat_word64)
  then have "mset (hr_dropped (fst (hatring_delete s'))) = mset ds + mset q"
    using ring_holds_items [OF s'(2)] s'(3,4)
    by (simp add: hatring_delete_def hatring_cleanup_def foldl_drop)
  with ring_spec_conserves [OF spec n(1)] s'(1) show ?thesis by (intro exI [of _ s'] exI [of _ answers]) simp
qed

theorem hatring_accounts_for_items_witness:
  "\<exists>s s' answers. hatring_new 16 = Inr s \<and>
     ring_calls (hatring_set_drop_handler s True) [EnqueueCall 7, EnqueueCall 8, DequeueCall] = Some (s', answers) \<and>
     {#7, 8#} = mset (dequeued_items answers) + mset (hr_dropped (fst (hatring_delete s')))"
proof -
  have b: "hatring_buckets 16 = Inr 16"
    using round_up_power [of 4] by (simp add: hatring_buckets_def HATRING_MINIMUM_SIZE_def)
  then obtain s where s: "hatring_new 16 = Inr s" by (simp add: hatring_new_def)
  show ?thesis
    using hatring_accounts_for_items [OF s _ b, of "[EnqueueCall 7, EnqueueCall 8, DequeueCall]"] s
    by (simp add: add_mset_commute)
qed

end
