(* ===== verification/Hatring_Threads.thy ===== *)
theory Hatring_Threads
  imports Hatring
begin

text \<open>
  Any number of threads on one ring of \<^verbatim>\<open>hatring.c\<close>. A thread is idle or inside an enqueue, a dequeue or a
  view, at a program point of \<open>Hatring\<close>; a step of the system is a step of one thread, so one access to shared
  memory. Two logs record the items put into cells and the items handed out, with thread and ticket.

  What a step does is put into seven kinds (\<open>ring_effect\<close>), over which the invariants are proved.
\<close>

section \<open>Definitions\<close>

datatype ring_pc =
    RingIdle
  | RingEnq ptr enqueue_pc
  | RingDeq bool dequeue_pc          \<comment> \<open>true for \<^verbatim>\<open>hatring_dequeue_w_epoch\<close>\<close>
  | RingView view_pc
  | RingFailed c_error               \<comment> \<open>after a store outside the buffer of a view\<close>

record hatring_system = hatring +
  rs_threads :: "ring_pc list"
  rs_puts :: "(nat \<times> 32 word \<times> ptr) list"
  rs_gots :: "(nat \<times> 32 word \<times> ptr) list"

definition ring_system :: "hatring \<Rightarrow> nat \<Rightarrow> hatring_system" where
  "ring_system s m =
     hatring.extend s \<lparr>rs_threads = replicate m RingIdle, rs_puts = [], rs_gots = []\<rparr>"

definition set_thread :: "hatring_system \<Rightarrow> nat \<Rightarrow> ring_pc \<Rightarrow> hatring_system" where
  "set_thread s i pc = s\<lparr>rs_threads := (rs_threads s)[i := pc]\<rparr>"

text \<open>What an enqueue adds to the log: the item, when its CAS on the cell succeeds.\<close>

fun enqueue_log :: "nat \<Rightarrow> ptr \<Rightarrow> enqueue_pc \<Rightarrow> hatring_system \<Rightarrow> (nat \<times> 32 word \<times> ptr) list" where
  "enqueue_log i x (EnqCas w expected) s = (if cell_at s (enqueue_ix s w) = expected then [(i, w, x)] else [])"
| "enqueue_log i x _ s = []"

definition ring_enq_step :: "nat \<Rightarrow> ptr \<Rightarrow> enqueue_pc \<Rightarrow> hatring_system \<Rightarrow> hatring_system" where
  "ring_enq_step i x p s =
     (case hatring_enqueue_step x p s of (s', next) \<Rightarrow>
        set_thread (s'\<lparr>rs_puts := rs_puts s @ enqueue_log i x p s\<rparr>) i
          (case next of Inl p' \<Rightarrow> RingEnq x p' | Inr w \<Rightarrow> RingIdle))"

definition ring_deq_step :: "nat \<Rightarrow> bool \<Rightarrow> dequeue_pc \<Rightarrow> hatring_system \<Rightarrow> hatring_system" where
  "ring_deq_step i with_epoch p s =
     (case (if with_epoch then hatring_dequeue_w_epoch_step p s else hatring_dequeue_step p s) of (s', next) \<Rightarrow>
        (case next of
           Inl p' \<Rightarrow> set_thread s' i (RingDeq with_epoch p')
         | Inr NothingFound \<Rightarrow> set_thread s' i RingIdle
         | Inr (FoundItem x r) \<Rightarrow> set_thread (s'\<lparr>rs_gots := rs_gots s @ [(i, r, x)]\<rparr>) i RingIdle))"

definition ring_view_step :: "nat \<Rightarrow> view_pc \<Rightarrow> hatring_system \<Rightarrow> hatring_system" where
  "ring_view_step i p s =
     (case hatring_view_step p s of (s', next) \<Rightarrow>
        set_thread s' i (case next of Inl p' \<Rightarrow> RingView p' | Inr (Inr v) \<Rightarrow> RingIdle | Inr (Inl e) \<Rightarrow> RingFailed e))"

definition ring_step :: "nat \<Rightarrow> hatring_system \<Rightarrow> hatring_system" where
  "ring_step i s =
     (case rs_threads s ! i of
        RingIdle \<Rightarrow> s
      | RingEnq x p \<Rightarrow> ring_enq_step i x p s
      | RingDeq with_epoch p \<Rightarrow> ring_deq_step i with_epoch p s
      | RingView p \<Rightarrow> ring_view_step i p s
      | RingFailed e \<Rightarrow> s)"

text \<open>The operations a thread can start.\<close>

definition ring_entry :: "ring_pc \<Rightarrow> bool" where
  "ring_entry pc \<longleftrightarrow>
     (case pc of RingEnq x p \<Rightarrow> p = EnqPoll | RingDeq b p \<Rightarrow> p = DeqPoll | RingView p \<Rightarrow> p = ViewStart
      | RingIdle \<Rightarrow> False | RingFailed e \<Rightarrow> False)"

text \<open>Runs: idle threads call operations, threads inside an operation take steps; both are counted.\<close>

inductive ring_run :: "hatring_system \<Rightarrow> nat \<Rightarrow> hatring_system \<Rightarrow> bool" for s0 where
  run_start: "ring_run s0 0 s0"
| run_call: "\<lbrakk>ring_run s0 k s; i < length (rs_threads s); rs_threads s ! i = RingIdle; ring_entry pc\<rbrakk>
    \<Longrightarrow> ring_run s0 (Suc k) (set_thread s i pc)"
| run_step: "\<lbrakk>ring_run s0 k s; i < length (rs_threads s); rs_threads s ! i \<noteq> RingIdle\<rbrakk>
    \<Longrightarrow> ring_run s0 (Suc k) (ring_step i s)"

section \<open>What a step does\<close>

text \<open>Tickets, snapshots of cells and items to drop that a thread holds.\<close>

fun wticket :: "ring_pc \<Rightarrow> 32 word option" where
  "wticket (RingEnq x (EnqCell w)) = Some w"
| "wticket (RingEnq x (EnqCas w c)) = Some w"
| "wticket _ = None"

fun rticket :: "ring_pc \<Rightarrow> 32 word option" where
  "rticket (RingDeq b (DeqCell ix r w)) = Some r"
| "rticket (RingDeq b (DeqCas ix r w c)) = Some r"
| "rticket _ = None"

fun snapshot :: "ring_pc \<Rightarrow> hatring_item option" where
  "snapshot (RingEnq x (EnqCas w c)) = Some c"
| "snapshot (RingDeq b (DeqCas ix r w c)) = Some c"
| "snapshot _ = None"

fun to_drop :: "ring_pc \<Rightarrow> ptr list" where
  "to_drop (RingEnq x (EnqDrop w y)) = [y]"
| "to_drop (RingDeq b (DeqDrop r w y)) = [y]"
| "to_drop _ = []"

fun pc_ok :: "nat \<Rightarrow> ring_pc \<Rightarrow> bool" where
  "pc_ok n (RingEnq x (EnqFix e)) \<longleftrightarrow>
     hatring_is_lagging (hatring_dequeue_epoch e) (hatring_enqueue_epoch e) (word_of_nat n)"
| "pc_ok n (RingDeq b (DeqCell ix r w)) \<longleftrightarrow> unat ix = unat r mod n"
| "pc_ok n (RingDeq b (DeqCas ix r w c)) \<longleftrightarrow> unat ix = unat r mod n"
| "pc_ok n _ \<longleftrightarrow> True"

definition empty_handed :: "ring_pc \<Rightarrow> bool" where
  "empty_handed pc \<longleftrightarrow> wticket pc = None \<and> rticket pc = None \<and> snapshot pc = None \<and> to_drop pc = []"

inductive ring_effect :: "nat \<Rightarrow> nat \<Rightarrow> hatring_system \<Rightarrow> hatring_system \<Rightarrow> bool" for n i s where
  quiet: "\<lbrakk>wticket pc \<in> {None, wticket (rs_threads s ! i)}; rticket pc \<in> {None, rticket (rs_threads s ! i)};
      snapshot pc \<in> insert None (Some ` set (hr_cells s));
      to_drop (rs_threads s ! i) = []; to_drop pc = []; pc_ok n pc\<rbrakk>
    \<Longrightarrow> ring_effect n i s (set_thread s i pc)"
| take_write: "\<lbrakk>hr_epochs s = epochs_word w r; w < 2 ^ 32; r < 2 ^ 32; r \<le> r'; r' \<le> max r (Suc w);
      wticket pc \<in> {None, Some (word_of_nat w)}; rticket pc = None; snapshot pc = None;
      to_drop (rs_threads s ! i) = []; to_drop pc = []; pc_ok n pc\<rbrakk>
    \<Longrightarrow> ring_effect n i s (set_thread (s\<lparr>hr_epochs := epochs_word (Suc w) r'\<rparr>) i pc)"
| take_read: "\<lbrakk>hr_epochs s = epochs_word w r; w < 2 ^ 32; r < 2 ^ 32; wticket pc = None; rticket pc = Some (word_of_nat r);
      snapshot pc = None; to_drop (rs_threads s ! i) = []; to_drop pc = []; pc_ok n pc\<rbrakk>
    \<Longrightarrow> ring_effect n i s (set_thread (s\<lparr>hr_epochs := epochs_word w (Suc r)\<rparr>) i pc)"
| put_item: "\<lbrakk>wticket (rs_threads s ! i) = Some w; to_drop (rs_threads s ! i) = []; c = hr_cells s ! (unat w mod n);
      wticket pc = None; rticket pc = None; snapshot pc = None; pc_ok n pc;
      to_drop pc = (if hatring_is_enqueued (hi_state c) \<and> hr_drop_handler s then [hi_item c] else [])\<rbrakk>
    \<Longrightarrow> ring_effect n i s (set_thread (s\<lparr>hr_cells := (hr_cells s)[unat w mod n :=
            \<lparr>hi_item = x, hi_state = HATRING_ENQUEUED OR ucast w\<rparr>],
          rs_puts := rs_puts s @ [(i, w, x)]\<rparr>) i pc)"
| read_cell: "\<lbrakk>rticket (rs_threads s ! i) = Some r; to_drop (rs_threads s ! i) = []; c = hr_cells s ! (unat r mod n);
      wticket pc = None; rticket pc = None; snapshot pc = None; pc_ok n pc;
      to_drop pc = (if hatring_cell_epoch (hi_state c) \<noteq> r \<and> hatring_is_enqueued (hi_state c) \<and> hr_drop_handler s
        then [hi_item c] else []);
      got = (if hatring_cell_epoch (hi_state c) = r then [(i, r, hi_item c)] else [])\<rbrakk>
    \<Longrightarrow> ring_effect n i s (set_thread (s\<lparr>hr_cells := (hr_cells s)[unat r mod n :=
            \<lparr>hi_item = 0, hi_state = HATRING_DEQUEUED OR ucast r\<rparr>],
          rs_gots := rs_gots s @ got\<rparr>) i pc)"
| read_copy: "\<lbrakk>rticket (rs_threads s ! i) = Some r; to_drop (rs_threads s ! i) = []; snapshot (rs_threads s ! i) = Some c;
      hatring_cell_epoch (hi_state c) = r; \<not> hr_drop_handler s\<rbrakk>
    \<Longrightarrow> ring_effect n i s (set_thread (s\<lparr>rs_gots := rs_gots s @ [(i, r, hi_item c)]\<rparr>) i RingIdle)"
| drop: "\<lbrakk>to_drop (rs_threads s ! i) = [x]; empty_handed pc; pc_ok n pc\<rbrakk>
    \<Longrightarrow> ring_effect n i s (set_thread (s\<lparr>hr_dropped := hr_dropped s @ [x]\<rparr>) i pc)"

text \<open>The shape of the state that makes steps such effects.\<close>

definition ring_bounds :: "nat \<Rightarrow> nat \<Rightarrow> hatring_system \<Rightarrow> nat \<Rightarrow> nat \<Rightarrow> bool" where
  "ring_bounds n k s w r \<longleftrightarrow>
     ring_of n s \<and> hr_epochs s = epochs_word w r \<and> n \<le> w \<and> n \<le> r \<and> w \<le> n + k \<and> r \<le> n + k \<and>
     (\<forall>i < length (rs_threads s). pc_ok n (rs_threads s ! i))"

lemma cell_mem: "ring_of n s \<Longrightarrow> j < n \<Longrightarrow> hr_cells s ! j \<in> set (hr_cells s)"
  using ring_of_bounds(3) [of n s] by auto

lemma enqueue_effect:
  assumes b: "ring_bounds n k s w r" and k: "n + Suc k < 2 ^ 32" and pc: "rs_threads s ! i = RingEnq x p"
    and i: "i < length (rs_threads s)"
  shows "ring_effect n i s (ring_enq_step i x p s)"
proof -
  have ring: "ring_of n s" and ep: "hr_epochs s = epochs_word w r" and ok: "pc_ok n (RingEnq x p)"
    and wr: "Suc w < 2 ^ 32" "r < 2 ^ 32" "n \<le> w"
    using b k pc i unfolding ring_bounds_def by fastforce+
  have n: "0 < n" "n < 2 ^ 32" "length (hr_cells s) = n" and size: "hr_size s = word_of_nat n"
    using ring_of_bounds [OF ring] ring by (auto simp: ring_of_def)
  have cell: "cell_at s (enqueue_ix s v) = hr_cells s ! (unat v mod n)"
    and cell_set: "set_cell s (enqueue_ix s v) c = s\<lparr>hr_cells := (hr_cells s)[unat v mod n := c]\<rparr>" for v c
    by (simp_all add: cell_at_def set_cell_def enqueue_ix_mod [OF ring_of_frame [OF ring]])
  have same: "s\<lparr>rs_puts := rs_puts s\<rparr> = s" by simp
  show ?thesis
  proof (cases p)
    case EnqPoll
    then show ?thesis unfolding ring_enq_step_def
      by (auto simp: Let_def pc size same intro!: quiet)
  next
    case (EnqFix e)
    show ?thesis
    proof (cases "hr_epochs s = e")
      case True
      with EnqFix ok ep wr n have "r + n < w" by (simp add: ring_words)
      then show ?thesis unfolding ring_enq_step_def using EnqFix True pc ep wr n k
        by (auto simp: Let_def size fixed_epoch_word ring_words intro!: take_write [of s w r])
    next
      case False
      then show ?thesis unfolding ring_enq_step_def using EnqFix pc
        by (auto simp: Let_def same intro!: quiet)
    qed
  next
    case EnqAdd
    then show ?thesis unfolding ring_enq_step_def using pc ep wr
      by (auto simp: Let_def ring_words intro!: take_write [of s w r])
  next
    case (EnqCell v)
    then show ?thesis unfolding ring_enq_step_def using pc cell_mem [OF ring] n
      by (auto simp: Let_def same cell enqueue_look_def intro!: quiet)
  next
    case (EnqCas v c)
    show ?thesis
    proof (cases "cell_at s (enqueue_ix s v) = c")
      case True
      then show ?thesis unfolding ring_enq_step_def using EnqCas pc
        by (auto simp: Let_def cell cell_set intro!: put_item)
    next
      case False
      then show ?thesis unfolding ring_enq_step_def using EnqCas pc cell_mem [OF ring] n
        by (auto simp: Let_def same cell enqueue_look_def intro!: quiet)
    qed
  next
    case (EnqDrop v y)
    then show ?thesis unfolding ring_enq_step_def using pc
      by (auto simp: drop_item_def empty_handed_def intro!: drop)
  qed
qed

text \<open>The outcomes a dequeue may have after a stale cell.\<close>

definition stale_ok :: "(32 word \<Rightarrow> 32 word \<Rightarrow> dequeue_pc + dequeue_result) \<Rightarrow> bool" where
  "stale_ok stale \<longleftrightarrow> (\<forall>r w. stale r w \<in> {Inl DeqPoll, Inr NothingFound})"

text \<open>The thread after an outcome of a dequeue.\<close>

definition deq_next :: "nat \<Rightarrow> bool \<Rightarrow> hatring_system \<times> (dequeue_pc + dequeue_result) \<Rightarrow> hatring_system" where
  "deq_next i b o' =
     (case o' of (s', next) \<Rightarrow>
        (case next of
           Inl p' \<Rightarrow> set_thread s' i (RingDeq b p')
         | Inr NothingFound \<Rightarrow> set_thread s' i RingIdle
         | Inr (FoundItem x r) \<Rightarrow> set_thread (s'\<lparr>rs_gots := rs_gots s' @ [(i, r, x)]\<rparr>) i RingIdle))"

lemma deq_next_stale:
  "stale_ok stale \<Longrightarrow> \<exists>pc. deq_next i b (s, stale r w) = set_thread s i pc \<and> empty_handed pc \<and> (\<forall>n. pc_ok n pc)"
  unfolding stale_ok_def deq_next_def empty_handed_def
  by (drule spec [of _ r], drule spec [of _ w]) auto

lemma dequeue_gots [simp]: "rs_gots (fst (dequeue_body stale p s)) = rs_gots s"
  by (cases p) (simp_all add: Let_def set_cell_def drop_item_def)

lemma ring_deq_step_next:
  obtains stale where "stale_ok stale" "ring_deq_step i b p s = deq_next i b (dequeue_body stale p s)"
proof
  let ?stale = "if b then (\<lambda>r w. Inr NothingFound)
    else (\<lambda>read_epoch write_epoch. if read_epoch + 1 = write_epoch then Inr NothingFound else Inl DeqPoll)"
  show "stale_ok ?stale" by (simp add: stale_ok_def)
  have "dequeue_body ?stale p s = (if b then hatring_dequeue_w_epoch_step p s else hatring_dequeue_step p s)"
    by (simp add: hatring_dequeue_w_epoch_step_def hatring_dequeue_step_def)
  then show "ring_deq_step i b p s = deq_next i b (dequeue_body ?stale p s)"
    unfolding ring_deq_step_def deq_next_def using dequeue_gots [of ?stale p s]
    by (auto split: prod.splits sum.splits dequeue_result.splits)
qed

lemma dequeue_effect:
  assumes b: "ring_bounds n k s w r" and k: "n + Suc k < 2 ^ 32" and pc: "rs_threads s ! i = RingDeq we p"
    and i: "i < length (rs_threads s)"
  shows "ring_effect n i s (ring_deq_step i we p s)"
proof -
  obtain stale where stale: "stale_ok stale" and step: "ring_deq_step i we p s = deq_next i we (dequeue_body stale p s)"
    by (rule ring_deq_step_next)
  have ring: "ring_of n s" and ep: "hr_epochs s = epochs_word w r" and ok: "pc_ok n (RingDeq we p)"
    and wr: "w < 2 ^ 32" "r < 2 ^ 32" "n \<le> w"
    using b k pc i unfolding ring_bounds_def by fastforce+
  have n: "0 < n" using ring_of_bounds [OF ring] by auto
  show ?thesis
  proof (cases p)
    case DeqPoll
    then show ?thesis unfolding step deq_next_def
      by (auto simp: Let_def pc intro!: quiet)
  next
    case DeqAdd
    then show ?thesis unfolding step deq_next_def using ep wr dequeue_ix_mod [OF ring wr(1,2)]
      by (auto simp: Let_def pc ring_words unat_ticket intro!: take_read [of s w r])
  next
    case (DeqCell ix v u)
    then have "cell_at s (ucast ix) = hr_cells s ! (unat v mod n)" using ok by (simp add: cell_at_def ucast_ix)
    with DeqCell show ?thesis unfolding step deq_next_def using pc ok cell_mem [OF ring] n
      by (auto simp: dequeue_look_def intro!: quiet)
  next
    case (DeqCas ix v u c)
    have cell: "cell_at s (ucast ix) = hr_cells s ! (unat v mod n)"
      and cell_set: "set_cell s (ucast ix) c' = s\<lparr>hr_cells := (hr_cells s)[unat v mod n := c']\<rparr>" for c'
      using ok DeqCas by (simp_all add: cell_at_def set_cell_def ucast_ix)
    let ?s = "s\<lparr>hr_cells := (hr_cells s)[unat v mod n := \<lparr>hi_item = 0, hi_state = HATRING_DEQUEUED OR ucast v\<rparr>]\<rparr>"
    show ?thesis
    proof (cases "cell_at s (ucast ix) = c")
      case True
      then have c: "c = hr_cells s ! (unat v mod n)" using cell by simp
      have eff: "ring_effect n i s (set_thread (?s\<lparr>rs_gots := rs_gots s @ got\<rparr>) i pc')"
        if "wticket pc' = None" "rticket pc' = None" "snapshot pc' = None" "pc_ok n pc'"
          "to_drop pc' = (if hatring_cell_epoch (hi_state c) \<noteq> v \<and> hatring_is_enqueued (hi_state c) \<and> hr_drop_handler s
            then [hi_item c] else [])"
          "got = (if hatring_cell_epoch (hi_state c) = v then [(i, v, hi_item c)] else [])" for got pc'
        using read_cell [of s i v c n pc' got] that pc DeqCas c by simp
      obtain pc' where pc': "deq_next i we (?s, stale v u) = set_thread ?s i pc'" "empty_handed pc'" "pc_ok n pc'"
        using deq_next_stale [OF stale] by blast
      show ?thesis
      proof (cases "hatring_cell_epoch (hi_state c) = v \<or> hr_drop_handler s \<and> hatring_is_enqueued (hi_state c)")
        case t: True
        then show ?thesis unfolding step unfolding DeqCas using True
          using eff [of RingIdle "[(i, v, hi_item c)]"] eff [of "RingDeq we (DeqDrop v u (hi_item c))" "[]"]
          by (cases "hatring_cell_epoch (hi_state c) = v") (auto simp: Let_def cell_set deq_next_def)
      next
        case f: False
        then have "dequeue_body stale p s = (?s, stale v u)"
          using True DeqCas by (auto simp: Let_def cell_set)
        then show ?thesis unfolding step using pc' eff [of pc' "[]"] f by (auto simp: empty_handed_def)
      qed
    next
      case False
      show ?thesis
      proof (cases "hatring_cell_epoch (hi_state c) = v \<and> \<not> hr_drop_handler s")
        case True
        then show ?thesis unfolding step unfolding DeqCas deq_next_def using False pc DeqCas
          by (auto simp: Let_def intro!: read_copy)
      next
        case f: False
        then show ?thesis unfolding step unfolding DeqCas deq_next_def using False pc DeqCas ok cell cell_mem [OF ring] n
          by (auto simp: Let_def dequeue_look_def intro!: quiet)
      qed
    qed
  next
    case (DeqDrop v u y)
    obtain pc' where pc': "deq_next i we (drop_item s y, stale v u) = set_thread (drop_item s y) i pc'"
      "empty_handed pc'" "pc_ok n pc'"
      using deq_next_stale [OF stale] by blast
    then show ?thesis unfolding step using DeqDrop pc by (auto simp: drop_item_def intro!: drop)
  qed
qed

lemma view_effect: "rs_threads s ! i = RingView p \<Longrightarrow> ring_effect n i s (ring_view_step i p s)"
  unfolding ring_view_step_def
  by (cases p) (auto simp: Let_def view_test_def view_append_def intro!: quiet)

lemma failed_effect:
  assumes "rs_threads s ! i = RingFailed e"
  shows "ring_effect n i s s"
proof -
  have "ring_effect n i s (set_thread s i (RingFailed e))" by (rule quiet) (use assms in simp_all)
  also have "set_thread s i (RingFailed e) = s" unfolding set_thread_def assms [symmetric] by simp
  finally show ?thesis .
qed

lemma ring_step_effect:
  assumes "ring_bounds n k s w r" "n + Suc k < 2 ^ 32" "i < length (rs_threads s)" "rs_threads s ! i \<noteq> RingIdle"
  shows "ring_effect n i s (ring_step i s)"
  using assms enqueue_effect dequeue_effect view_effect failed_effect unfolding ring_step_def
  by (auto split: ring_pc.split)

section \<open>Invariants\<close>

lemma set_thread_simps [simp]:
  "rs_threads (set_thread s i pc) = (rs_threads s)[i := pc]"
  "hr_cells (set_thread s i pc) = hr_cells s" "hr_epochs (set_thread s i pc) = hr_epochs s"
  "rs_puts (set_thread s i pc) = rs_puts s" "rs_gots (set_thread s i pc) = rs_gots s"
  "hr_dropped (set_thread s i pc) = hr_dropped s" "hr_drop_handler (set_thread s i pc) = hr_drop_handler s"
  "ring_of n (set_thread s i pc) = ring_of n s"
  by (simp_all add: set_thread_def ring_defs)

lemma epochs_word_inject:
  assumes "epochs_word w r = epochs_word w' r'" "w < 2 ^ 32" "r < 2 ^ 32" "w' < 2 ^ 32" "r' < 2 ^ 32"
  shows "w = w' \<and> r = r'"
  using assms enqueue_epoch_word [of w r] enqueue_epoch_word [of w' r'] dequeue_epoch_word [of w r]
    dequeue_epoch_word [of w' r'] ticket_eq [of w w'] ticket_eq [of r r'] by simp

lemma bounds_effect:
  assumes b: "ring_bounds n k s w r" and k: "n + Suc k < 2 ^ 32" and e: "ring_effect n i s s'"
  shows "\<exists>w' r'. ring_bounds n (Suc k) s' w' r' \<and> w \<le> w' \<and> r \<le> r'"
proof -
  have *: "ring_of n s" "hr_epochs s = epochs_word w r" "n \<le> w" "n \<le> r" "w \<le> n + k" "r \<le> n + k"
    "\<And>j. j < length (rs_threads s) \<Longrightarrow> pc_ok n (rs_threads s ! j)"
    using b unfolding ring_bounds_def by auto
  have ok: "\<forall>j < length (rs_threads s). pc_ok n ((rs_threads s)[i := pc] ! j)" if "pc_ok n pc" for pc
    using *(7) that by (metis nth_list_update_eq nth_list_update_neq)
  have wr: "w < 2 ^ 32" "r < 2 ^ 32" using * k by auto
  have frame: "ring_of n (s\<lparr>hr_cells := (hr_cells s)[j := c], rs_puts := p\<rparr>)"
    "ring_of n (s\<lparr>hr_cells := (hr_cells s)[j := c], rs_gots := p\<rparr>)"
    "ring_of n (s\<lparr>rs_gots := p\<rparr>)" for j c p using *(1) by (auto simp: ring_defs)
  have stay: ?thesis if "ring_of n s'" "hr_epochs s' = hr_epochs s" "rs_threads s' = (rs_threads s)[i := pc]" "pc_ok n pc" for pc
    using * ok [of pc] that unfolding ring_bounds_def by (intro exI [of _ w] exI [of _ r]) auto
  show ?thesis using e
  proof cases
    case (take_write w0 r0 r' pc)
    then have "w0 = w" "r0 = r" using epochs_word_inject [of w0 r0 w r] *(2) wr by auto
    then show ?thesis using take_write * ok
      by (intro exI [of _ "Suc w"] exI [of _ r']) (auto simp: ring_bounds_def)
  next
    case (take_read w0 r0 pc)
    then have "w0 = w" "r0 = r" using epochs_word_inject [of w0 r0 w r] *(2) wr by auto
    then show ?thesis using take_read * ok
      by (intro exI [of _ w] exI [of _ "Suc r"]) (auto simp: ring_bounds_def)
  next
    case (quiet pc)
    then show ?thesis by (intro stay [of pc]) (simp_all add: *(1))
  next
    case (put_item v c pc x)
    then show ?thesis by (intro stay [of pc]) (simp_all add: frame)
  next
    case (read_cell v c pc got)
    then show ?thesis by (intro stay [of pc]) (simp_all add: frame)
  next
    case (read_copy v c)
    then show ?thesis by (intro stay [of RingIdle]) (simp_all add: frame)
  next
    case (drop x pc)
    then show ?thesis by (intro stay [of pc]) (simp_all add: *(1))
  qed
qed

subsection \<open>Tickets\<close>

text \<open>
  Tickets handed out in increasing order: every ticket is held by one thread at most, a ticket in the log is not
  held, and a thread's tickets are logged in increasing order.
\<close>

abbreviation ticket_of :: "nat \<times> 32 word \<times> ptr \<Rightarrow> 32 word" where
  "ticket_of e \<equiv> fst (snd e)"

definition tickets_of :: "nat \<Rightarrow> (nat \<times> 32 word \<times> ptr) list \<Rightarrow> 32 word list" where
  "tickets_of i log = map ticket_of (filter (\<lambda>e. fst e = i) log)"

definition dispenser :: "(nat \<Rightarrow> 32 word option) \<Rightarrow> (nat \<times> 32 word \<times> ptr) list \<Rightarrow> nat \<Rightarrow> bool" where
  "dispenser held log b \<longleftrightarrow>
     (\<forall>i v. held i = Some v \<longrightarrow> unat v < b \<and> v \<notin> ticket_of ` set log \<and> (\<forall>u \<in> set (tickets_of i log). u < v)) \<and>
     (\<forall>i j v. held i = Some v \<longrightarrow> held j = Some v \<longrightarrow> i = j) \<and>
     (\<forall>v \<in> ticket_of ` set log. unat v < b) \<and>
     distinct (map ticket_of log) \<and> (\<forall>i. sorted_wrt (<) (tickets_of i log))"

lemma dispenserD:
  assumes "dispenser held log b"
  shows "held i = Some v \<Longrightarrow> unat v < b" "held i = Some v \<Longrightarrow> v \<notin> ticket_of ` set log"
    "held i = Some v \<Longrightarrow> u \<in> set (tickets_of i log) \<Longrightarrow> u < v"
    "held i = Some v \<Longrightarrow> held j = Some v \<Longrightarrow> i = j"
    "v \<in> ticket_of ` set log \<Longrightarrow> unat v < b"
    "distinct (map ticket_of log)" "sorted_wrt (<) (tickets_of i log)"
  using assms unfolding dispenser_def by (simp_all) auto

lemma dispenserI:
  assumes "\<And>i v. held i = Some v \<Longrightarrow> unat v < b" "\<And>i v. held i = Some v \<Longrightarrow> v \<notin> ticket_of ` set log"
    "\<And>i v u. held i = Some v \<Longrightarrow> u \<in> set (tickets_of i log) \<Longrightarrow> u < v"
    "\<And>i j v. held i = Some v \<Longrightarrow> held j = Some v \<Longrightarrow> i = j"
    "\<And>v. v \<in> ticket_of ` set log \<Longrightarrow> unat v < b"
    "distinct (map ticket_of log)" "\<And>i. sorted_wrt (<) (tickets_of i log)"
  shows "dispenser held log b"
  unfolding dispenser_def by (intro conjI allI impI ballI; rule assms; assumption)

lemma tickets_of_snoc: "tickets_of i (log @ [(j, v, x)]) = tickets_of i log @ (if i = j then [v] else [])"
  by (simp add: tickets_of_def)

lemma tickets_of_sub: "u \<in> set (tickets_of i log) \<Longrightarrow> u \<in> ticket_of ` set log"
  by (auto simp: tickets_of_def)

lemma dispenser_release:
  assumes d: "dispenser held log b" shows "dispenser (held(i := None)) log b"
proof (rule dispenserI)
  fix j l u v
  assume h: "(held(i := None)) j = Some v"
  then have j: "held j = Some v" by (auto split: if_splits)
  show "unat v < b" by (rule dispenserD(1) [OF d j])
  show "v \<notin> ticket_of ` set log" by (rule dispenserD(2) [OF d j])
  show "u < v" if "u \<in> set (tickets_of j log)" by (rule dispenserD(3) [OF d j that])
  show "j = l" if "(held(i := None)) l = Some v"
    using that by (intro dispenserD(4) [OF d j]) (auto split: if_splits)
qed (rule dispenserD(5) [OF d], assumption, (rule dispenserD(6,7) [OF d])+)

lemma dispenser_mono: "dispenser held log b \<Longrightarrow> b \<le> b' \<Longrightarrow> dispenser held log b'"
  unfolding dispenser_def by (auto intro: less_le_trans)

lemma dispenser_take:
  assumes d: "dispenser held log b" and v: "unat v = b"
  shows "dispenser (held(i := Some v)) log (Suc b)"
proof -
  have new1: "held j \<noteq> Some v" for j using dispenserD(1) [OF d, of j v] v by auto
  have new2: "v \<notin> ticket_of ` set log" using dispenserD(5) [OF d, of v] v by auto
  have new3: "u < v" if "u \<in> set (tickets_of j log)" for u j
    using dispenserD(5) [OF d tickets_of_sub [OF that]] v by (simp add: word_less_nat_alt)
  show ?thesis
  proof (rule dispenserI)
    show "unat u < Suc b" if "(held(i := Some v)) j = Some u" for j u
      using that v dispenserD(1) [OF d, of j u] by (auto split: if_splits)
    show "u \<notin> ticket_of ` set log" if "(held(i := Some v)) j = Some u" for j u
      using that new2 dispenserD(2) [OF d, of j u] by (auto split: if_splits)
    show "u < t" if "(held(i := Some v)) j = Some t" "u \<in> set (tickets_of j log)" for j t u
      using that new3 dispenserD(3) [OF d, of j t u] by (auto split: if_splits)
    show "j = l" if "(held(i := Some v)) j = Some t" "(held(i := Some v)) l = Some t" for j l t
      using that new1 dispenserD(4) [OF d, of j t l] by (auto split: if_splits)
    show "unat t < Suc b" if "t \<in> ticket_of ` set log" for t
      using dispenserD(5) [OF d that] by simp
  qed (rule dispenserD [OF d])+
qed

lemma dispenser_log:
  assumes d: "dispenser held log b" and v: "held i = Some v"
  shows "dispenser (held(i := None)) (log @ [(i, v, x)]) b"
proof -
  note i = dispenserD(1-3) [OF d v]
  have own: "held j \<noteq> Some v" if "j \<noteq> i" for j using dispenserD(4) [OF d v] that by blast
  show ?thesis
  proof (rule dispenserI)
    show "unat t < b" if "(held(i := None)) j = Some t" for j t
      using that dispenserD(1) [OF d, of j t] by (auto split: if_splits)
    show "t \<notin> ticket_of ` set (log @ [(i, v, x)])" if "(held(i := None)) j = Some t" for j t
      using that own [of j] dispenserD(2) [OF d, of j t] by (auto split: if_splits)
    show "u < t" if "(held(i := None)) j = Some t" "u \<in> set (tickets_of j (log @ [(i, v, x)]))" for j t u
      using that dispenserD(3) [OF d, of j t u] by (auto simp: tickets_of_snoc split: if_splits)
    show "j = l" if "(held(i := None)) j = Some t" "(held(i := None)) l = Some t" for j l t
      using that dispenserD(4) [OF d, of j t l] by (auto split: if_splits)
    show "unat t < b" if "t \<in> ticket_of ` set (log @ [(i, v, x)])" for t
      using that i(1) dispenserD(5) [OF d, of t] by auto
    show "distinct (map ticket_of (log @ [(i, v, x)]))" using dispenserD(6) [OF d] i(2) by auto
    show "sorted_wrt (<) (tickets_of j (log @ [(i, v, x)]))" for j
      using dispenserD(7) [OF d, of j] i(3) by (auto simp: tickets_of_snoc sorted_wrt_append)
  qed
qed

text \<open>The two dispensers of a ring.\<close>

definition holds :: "(ring_pc \<Rightarrow> 32 word option) \<Rightarrow> hatring_system \<Rightarrow> nat \<Rightarrow> 32 word option" where
  "holds f s i = (if i < length (rs_threads s) then f (rs_threads s ! i) else None)"

lemma holds_set [simp]: "i < length (rs_threads s) \<Longrightarrow> rs_threads s' = (rs_threads s)[i := pc] \<Longrightarrow> holds f s' = (holds f s)(i := f pc)"
  by (auto simp: holds_def nth_list_update)

definition ring_dispensers :: "hatring_system \<Rightarrow> nat \<Rightarrow> nat \<Rightarrow> bool" where
  "ring_dispensers s w r \<longleftrightarrow> dispenser (holds wticket s) (rs_puts s) w \<and> dispenser (holds rticket s) (rs_gots s) r"

lemma dispenser_keep:
  assumes "dispenser held log b" "f \<in> {None, held i}" shows "dispenser (held(i := f)) log b"
  using assms dispenser_release by (cases "f = None") (auto simp: fun_upd_idem)

lemma dispensers_effect:
  assumes d: "ring_dispensers s w r" and b: "ring_bounds n k s w r" and k: "n + Suc k < 2 ^ 32"
    and i: "i < length (rs_threads s)" and e: "ring_effect n i s s'" and b': "ring_bounds n (Suc k) s' w' r'"
  shows "ring_dispensers s' w' r'"
proof -
  have dw: "dispenser (holds wticket s) (rs_puts s) w" and dr: "dispenser (holds rticket s) (rs_gots s) r"
    using d unfolding ring_dispensers_def by auto
  have wr: "w < 2 ^ 32" "r < 2 ^ 32" "w' < 2 ^ 32" "r' < 2 ^ 32" and lim: "Suc w < 2 ^ 32" "Suc r < 2 ^ 32" and ep: "hr_epochs s = epochs_word w r"
    "hr_epochs s' = epochs_word w' r'"
    using b b' k unfolding ring_bounds_def by auto
  have h: "holds wticket s i = wticket (rs_threads s ! i)" "holds rticket s i = rticket (rs_threads s ! i)"
    using i by (simp_all add: holds_def)
  have same: "w' = w \<and> r' = r" if "hr_epochs s' = hr_epochs s"
    using epochs_word_inject [of w' r' w r] that ep wr by simp
  show ?thesis using e
  proof cases
    case (quiet pc)
    then show ?thesis using same dispenser_keep [OF dw, of _ i] dispenser_keep [OF dr, of _ i] i
      by (simp add: ring_dispensers_def h)
  next
    case (take_write w0 r0 r1 pc)
    then have "w0 = w" "r0 = r" "w' = Suc w" "r' = r1"
      using epochs_word_inject [of w0 r0 w r] epochs_word_inject [of "Suc w0" r1 w' r'] ep wr lim by auto
    then show ?thesis using take_write i dispenser_take [OF dw, of "word_of_nat w" i] wr
        dispenser_mono [OF dispenser_release [OF dw], of "Suc w" i] dispenser_mono [OF dispenser_release [OF dr], of r1 i]
      by (auto simp: ring_dispensers_def unat_ticket)
  next
    case (take_read w0 r0 pc)
    then have "w0 = w" "r0 = r" "w' = w" "r' = Suc r"
      using epochs_word_inject [of w0 r0 w r] epochs_word_inject [of w0 "Suc r0" w' r'] ep wr lim by auto
    then show ?thesis using take_read i dispenser_take [OF dr, of "word_of_nat r" i] wr dispenser_release [OF dw, of i]
      by (auto simp: ring_dispensers_def unat_ticket)
  next
    case (put_item v c pc x)
    then have "rticket (rs_threads s ! i) = None" by (cases "rs_threads s ! i" rule: wticket.cases) auto
    then show ?thesis using put_item same i dispenser_log [OF dw, of i v x] dispenser_release [OF dr, of i]
      by (auto simp: ring_dispensers_def h)
  next
    case (read_cell v c pc got)
    then show ?thesis using same i dispenser_log [OF dr, of i v "hi_item c"] dispenser_release [OF dw, of i]
        dispenser_release [OF dr, of i]
      by (auto simp: ring_dispensers_def h)
  next
    case (read_copy v c)
    then show ?thesis using same i dispenser_log [OF dr, of i v "hi_item c"] dispenser_release [OF dw, of i]
      by (auto simp: ring_dispensers_def h)
  next
    case (drop x pc)
    then show ?thesis using same i dispenser_release [OF dw, of i] dispenser_release [OF dr, of i]
      by (auto simp: ring_dispensers_def empty_handed_def)
  qed
qed

subsection \<open>Cells\<close>

text \<open>
  Every cell, and every copy of one a thread has read, is empty, or carries an item put under the ticket it
  shows, or a read ticket that no thread holds any more.
\<close>

definition pairs :: "(nat \<times> 32 word \<times> ptr) list \<Rightarrow> (32 word \<times> ptr) set" where
  "pairs log = snd ` set log"

lemma pairs_simps [simp]: "pairs [] = {}" "pairs (a @ b) = pairs a \<union> pairs b" "pairs ((i, p) # b) = insert p (pairs b)"
  by (auto simp: pairs_def)

definition spent :: "hatring_system \<Rightarrow> nat \<Rightarrow> 32 word \<Rightarrow> bool" where
  "spent s r v \<longleftrightarrow> unat v < r \<and> (\<forall>i. holds rticket s i \<noteq> Some v)"

definition cell_known :: "(32 word \<times> ptr) set \<Rightarrow> (32 word \<Rightarrow> bool) \<Rightarrow> hatring_item \<Rightarrow> bool" where
  "cell_known puts used c \<longleftrightarrow>
     hi_state c = 0 \<or>
     (\<exists>v. hi_state c = HATRING_ENQUEUED OR ucast v \<and> (v, hi_item c) \<in> puts) \<or>
     (\<exists>v. hi_state c = HATRING_DEQUEUED OR ucast v \<and> used v)"

abbreviation known :: "hatring_system \<Rightarrow> nat \<Rightarrow> hatring_item \<Rightarrow> bool" where
  "known s r \<equiv> cell_known (pairs (rs_puts s)) (spent s r)"

definition ring_known :: "nat \<Rightarrow> hatring_system \<Rightarrow> nat \<Rightarrow> bool" where
  "ring_known n s r \<longleftrightarrow>
     (\<forall>c \<in> set (hr_cells s). known s r c) \<and>
     (\<forall>i < length (rs_threads s). \<forall>c. snapshot (rs_threads s ! i) = Some c \<longrightarrow> known s r c) \<and>
     (\<forall>i v. holds rticket s i = Some v \<longrightarrow> n \<le> unat v) \<and>
     pairs (rs_gots s) \<subseteq> pairs (rs_puts s)"

lemma cell_known_mono:
  "cell_known p u c \<Longrightarrow> p \<subseteq> p' \<Longrightarrow> (\<And>v. u v \<Longrightarrow> u' v) \<Longrightarrow> cell_known p' u' c"
  unfolding cell_known_def by blast

lemma states_distinct:
  "hatring_is_enqueued (HATRING_ENQUEUED OR ucast (v :: 32 word))"
  "\<not> hatring_is_enqueued (HATRING_DEQUEUED OR ucast (v :: 32 word))"
  using is_enqueued_states(1,2) [of "unat v"] by (simp_all add: enqueued_at_def dequeued_at_def)

lemma known_hit:
  assumes "known s r c" "holds rticket s i = Some v" "hatring_cell_epoch (hi_state c) = v" "n \<le> unat v" "0 < n"
  shows "hatring_is_enqueued (hi_state c)" "(v, hi_item c) \<in> pairs (rs_puts s)"
  using assms cell_epoch_states(3) unfolding cell_known_def spent_def by (auto simp: cell_epoch_or states_distinct)

lemma known_effect:
  assumes kn: "ring_known n s r" and d: "ring_dispensers s w r" and b: "ring_bounds n k s w r" and k: "n + Suc k < 2 ^ 32"
    and i: "i < length (rs_threads s)" and e: "ring_effect n i s s'" and b': "ring_bounds n (Suc k) s' w' r'"
    and mono: "r \<le> r'"
  shows "ring_known n s' r'"
proof -
  have n: "0 < n" "length (hr_cells s) = n" and nr: "n \<le> r" "r < 2 ^ 32"
    using b k ring_of_bounds [of n s] unfolding ring_bounds_def by auto
  have cells: "\<And>c. c \<in> set (hr_cells s) \<Longrightarrow> known s r c"
    and snaps: "\<And>j c. j < length (rs_threads s) \<Longrightarrow> snapshot (rs_threads s ! j) = Some c \<Longrightarrow> known s r c"
    and low: "\<And>j v. holds rticket s j = Some v \<Longrightarrow> n \<le> unat v"
    and gots: "pairs (rs_gots s) \<subseteq> pairs (rs_puts s)"
    using kn unfolding ring_known_def by blast+
  note dr = d [unfolded ring_dispensers_def, THEN conjunct2]
  have h: "holds rticket s i = rticket (rs_threads s ! i)" using i by (simp add: holds_def)
  have main: "ring_known n s' r'"
    if th: "rs_threads s' = (rs_threads s)[i := pc]"
      and rt: "rticket pc \<in> {None, rticket (rs_threads s ! i), Some (word_of_nat r)}"
      and puts: "pairs (rs_puts s) \<subseteq> pairs (rs_puts s')"
      and cs: "\<And>c. c \<in> set (hr_cells s') \<Longrightarrow> c \<in> set (hr_cells s) \<or> known s' r' c"
      and sn: "\<And>c. snapshot pc = Some c \<Longrightarrow> c \<in> set (hr_cells s)"
      and gs: "pairs (rs_gots s') \<subseteq> pairs (rs_gots s) \<union> pairs (rs_puts s)" for pc
  proof -
    have h': "holds rticket s' = (holds rticket s)(i := rticket pc)" using i th by simp
    have un: "unat (word_of_nat r :: 32 word) = r" using nr(2) by (rule unat_ticket)
    have sp: "spent s' r' v" if "spent s r v" for v
      using that mono rt un unfolding spent_def h' by (auto simp: h [symmetric] split: if_splits)
    have kc: "known s' r' c" if "known s r c" for c
      using cell_known_mono [OF that] puts sp by blast
    have "n \<le> unat v" if "holds rticket s' j = Some v" for j v
      using that low [of j] low [of i] rt un nr(1) unfolding h' by (auto simp: h split: if_splits)
    moreover have "known s' r' c" if "j < length (rs_threads s')" "snapshot (rs_threads s' ! j) = Some c" for j c
      using that kc snaps [of j c] sn cells [of c] i unfolding th by (cases "j = i") auto
    moreover have "pairs (rs_gots s') \<subseteq> pairs (rs_puts s')" using gs gots puts by blast
    ultimately show ?thesis unfolding ring_known_def using cs kc cells by blast
  qed
  have sp': "spent s' r' v" if v: "rticket (rs_threads s ! i) = Some v"
      and th: "rs_threads s' = (rs_threads s)[i := pc]" "rticket pc = None" for v pc
    using dispenserD(1,4) [OF dr, of i v] v th i mono unfolding spent_def by (auto simp: h split: if_splits)
  have mem: "hr_cells s ! (j mod n) \<in> set (hr_cells s)" for j using n by simp
  show ?thesis using e
  proof cases
    case (quiet pc)
    then show ?thesis by (intro main [of pc]) auto
  next
    case (take_write w0 r0 r1 pc)
    then show ?thesis by (intro main [of pc]) auto
  next
    case (take_read w0 r0 pc)
    then have "r0 = r" using epochs_word_inject [of w0 r0 w r] b k unfolding ring_bounds_def by auto
    with take_read show ?thesis by (intro main [of pc]) auto
  next
    case (put_item v c pc x)
    then have "known s' r' \<lparr>hi_item = x, hi_state = HATRING_ENQUEUED OR ucast v\<rparr>" by (auto simp: cell_known_def)
    with put_item show ?thesis by (intro main [of pc]) (auto dest!: set_update_subset_insert [THEN subsetD])
  next
    case (read_cell v c pc got)
    then have "spent s' r' v" by (intro sp' [of v pc]) simp_all
    then have "known s' r' \<lparr>hi_item = 0, hi_state = HATRING_DEQUEUED OR ucast v\<rparr>" by (auto simp: cell_known_def)
    moreover have "(v, hi_item c) \<in> pairs (rs_puts s)" if "hatring_cell_epoch (hi_state c) = v"
      using known_hit(2) [OF cells, of c i v n] that mem low [of i v] n read_cell h by simp
    ultimately show ?thesis using read_cell
      by (intro main [of pc]) (auto dest!: set_update_subset_insert [THEN subsetD] split: if_splits)
  next
    case (read_copy v c)
    then have "(v, hi_item c) \<in> pairs (rs_puts s)"
      using known_hit(2) [OF snaps, of i c i v n] low [of i v] n h i by simp
    with read_copy show ?thesis by (intro main [of RingIdle]) auto
  next
    case (drop x pc)
    then show ?thesis by (intro main [of pc]) (auto simp: empty_handed_def)
  qed
qed

subsection \<open>Items\<close>

definition items :: "(nat \<times> 32 word \<times> ptr) list \<Rightarrow> ptr multiset" where
  "items log = image_mset (\<lambda>e. snd (snd e)) (mset log)"

definition cell_items :: "hatring_item list \<Rightarrow> ptr multiset" where
  "cell_items cells = image_mset hi_item (mset (filter (\<lambda>c. hatring_is_enqueued (hi_state c)) cells))"

definition drop_items :: "ring_pc list \<Rightarrow> ptr multiset" where
  "drop_items threads = mset (concat (map to_drop threads))"

text \<open>With a drop handler, every item put is handed out, dropped, in a cell, or held by a thread about to drop it.\<close>

definition ring_conserves :: "hatring_system \<Rightarrow> bool" where
  "ring_conserves s \<longleftrightarrow> (hr_drop_handler s \<longrightarrow>
     items (rs_puts s) =
       items (rs_gots s) + mset (hr_dropped s) + cell_items (hr_cells s) + drop_items (rs_threads s))"

lemma items_simps [simp]: "items [] = {#}" "items (a @ b) = items a + items b" "items ((i, v, x) # b) = add_mset x (items b)"
  by (simp_all add: items_def)

lemma cell_items_update:
  assumes "j < length cs"
  shows "cell_items (cs[j := c]) + (if hatring_is_enqueued (hi_state (cs ! j)) then {#hi_item (cs ! j)#} else {#}) =
    cell_items cs + (if hatring_is_enqueued (hi_state c) then {#hi_item c#} else {#})"
  using arg_cong [OF mset_filter_update [OF assms, of "\<lambda>c. hatring_is_enqueued (hi_state c)" c], of "image_mset hi_item"]
  unfolding cell_items_def by (simp split: if_splits)

lemma drop_items_update:
  assumes "i < length ts"
  shows "drop_items (ts[i := pc]) + mset (to_drop (ts ! i)) = drop_items ts + mset (to_drop pc)"
proof -
  have "ts = take i ts @ ts ! i # drop (Suc i) ts" using assms by (simp add: id_take_nth_drop)
  then have "drop_items ts = drop_items (take i ts) + mset (to_drop (ts ! i)) + drop_items (drop (Suc i) ts)"
    by (metis (no_types, lifting) add.assoc concat.simps(2) concat_append drop_items_def list.simps(9) map_append mset_append)
  moreover have "drop_items (ts[i := pc]) = drop_items (take i ts) + mset (to_drop pc) + drop_items (drop (Suc i) ts)"
    using assms by (simp add: upd_conv_take_nth_drop drop_items_def)
  ultimately show ?thesis by (simp add: ac_simps)
qed

lemma conserves_effect:
  assumes c: "ring_conserves s" and kn: "ring_known n s r" and b: "ring_bounds n k s w r" and i: "i < length (rs_threads s)"
    and e: "ring_effect n i s s'"
  shows "ring_conserves s'"
proof -
  have n: "0 < n" "length (hr_cells s) = n" using b ring_of_bounds [of n s] unfolding ring_bounds_def by auto
  have h: "holds rticket s i = rticket (rs_threads s ! i)" using i by (simp add: holds_def)
  have mem: "j mod n < length (hr_cells s)" for j using n by simp
  note u = drop_items_update [OF i] cell_items_update [OF mem]
  show ?thesis
  proof (cases "hr_drop_handler s")
    case False
    with e show ?thesis by cases (auto simp: ring_conserves_def)
  next
    case True
    then have eq: "items (rs_puts s) =
       items (rs_gots s) + mset (hr_dropped s) + cell_items (hr_cells s) + drop_items (rs_threads s)"
      using c by (simp add: ring_conserves_def)
    show ?thesis using e
    proof cases
      case (put_item v c pc x)
      then show ?thesis
        using eq u(1) [of pc] u(2) [of "unat v" "\<lparr>hi_item = x, hi_state = HATRING_ENQUEUED OR ucast v\<rparr>"] True
        by (auto simp: ring_conserves_def states_distinct split: if_splits)
    next
      case (read_cell v c pc got)
      have "hatring_is_enqueued (hi_state c)" if "hatring_cell_epoch (hi_state c) = v"
        using known_hit(1) [of s r c i v n] kn mem [of "unat v"] that n read_cell h
        unfolding ring_known_def by auto
      with read_cell show ?thesis
        using eq u(1) [of pc] u(2) [of "unat v" "\<lparr>hi_item = 0, hi_state = HATRING_DEQUEUED OR ucast v\<rparr>"] True
        by (auto simp: ring_conserves_def states_distinct split: if_splits)
    qed (use eq u(1) True in \<open>auto simp: ring_conserves_def empty_handed_def\<close>)
  qed
qed

subsection \<open>Runs\<close>

definition ring_inv :: "nat \<Rightarrow> nat \<Rightarrow> hatring_system \<Rightarrow> bool" where
  "ring_inv n k s \<longleftrightarrow>
     (\<exists>w r. ring_bounds n k s w r \<and> ring_dispensers s w r \<and> ring_known n s r \<and> ring_conserves s)"

lemma ring_inv_effect:
  assumes "ring_inv n k s" "n + Suc k < 2 ^ 32" "i < length (rs_threads s)" "ring_effect n i s s'"
  shows "ring_inv n (Suc k) s'"
  using assms bounds_effect dispensers_effect known_effect conserves_effect unfolding ring_inv_def by meson

lemma entry_effect:
  assumes "rs_threads s ! i = RingIdle" "ring_entry pc" shows "ring_effect n i s (set_thread s i pc)"
  using assms by (intro quiet) (auto simp: ring_entry_def split: ring_pc.splits)

lemma ring_inv_start:
  assumes "hatring_new num_buckets = Inr s" "num_buckets \<le> 2 ^ 31" "hatring_buckets num_buckets = Inr n"
  shows "ring_inv n 0 (ring_system (hatring_set_drop_handler s h) m)"
proof -
  obtain k where k: "n = 2 ^ k" "4 \<le> k" "k < 32"
    using ring_new_size [OF assms(2)] assms(3) by (metis sum.inject(2))
  have n: "n < 2 ^ 32" unfolding k(1) using k by (intro power_strict_increasing) auto
  have s: "s = \<lparr>hr_epochs = epochs_word n n, hr_drop_handler = False, hr_last_slot = word_of_nat n - 1,
      hr_size = word_of_nat n, hr_cells = replicate n \<lparr>hi_item = 0, hi_state = 0\<rparr>, hr_dropped = []\<rparr>"
    using assms(1,3) or_shifted [OF n, of n] by (simp add: hatring_new_def)
  let ?S = "ring_system (hatring_set_drop_handler s h) m"
  note defs = ring_system_def hatring_set_drop_handler_def s hatring.extend_def
  have no: "holds f ?S j = None" if "f RingIdle = None" for f j using that by (simp add: holds_def defs)
  have "ring_bounds n 0 ?S n n" using k by (auto simp: ring_bounds_def ring_defs defs)
  moreover have "ring_dispensers ?S n n"
  proof -
    have "rs_puts ?S = []" "rs_gots ?S = []" by (simp_all add: defs)
    then show ?thesis
      unfolding ring_dispensers_def using no [of wticket] no [of rticket]
      by (intro conjI dispenserI) (simp_all add: tickets_of_def)
  qed
  moreover have "ring_known n ?S n"
    unfolding ring_known_def using no [of rticket] by (auto simp: cell_known_def defs)
  moreover have "ring_conserves ?S"
    by (auto simp: ring_conserves_def defs cell_items_def drop_items_def is_enqueued_states(3))
  ultimately show ?thesis unfolding ring_inv_def by blast
qed

lemma handler_effect: "ring_effect n i s s' \<Longrightarrow> hr_drop_handler s' = hr_drop_handler s"
  by (erule ring_effect.cases) simp_all

lemma ring_inv_run:
  assumes "ring_run s0 k s" "ring_inv n 0 s0" "n + k < 2 ^ 32"
  shows "ring_inv n k s \<and> hr_drop_handler s = hr_drop_handler s0"
  using assms
proof (induction rule: ring_run.induct)
  case (run_call k s i pc)
  then show ?case using ring_inv_effect [OF _ _ _ entry_effect] by simp
next
  case (run_step k s i)
  then have inv: "ring_inv n k s" by simp
  then obtain w r where "ring_bounds n k s w r" unfolding ring_inv_def by blast
  from ring_inv_effect [OF inv _ _ ring_step_effect [OF this]] handler_effect [OF ring_step_effect [OF this]]
  show ?case using run_step by simp
qed simp

section \<open>Every operation returns when its thread runs alone\<close>

text \<open>A dequeue takes read tickets until it has an item or reaches the write ticket.\<close>

lemma returns_dequeue_stale:
  assumes "stale_ok stale" "returns (dequeue_body stale) DeqPoll s" "step = dequeue_body stale" "step p s0 = (s, stale r w)"
  shows "returns step p s0"
proof -
  consider "stale r w = Inl DeqPoll" | "stale r w = Inr NothingFound" using assms(1) unfolding stale_ok_def by blast
  then show ?thesis using assms by cases (auto intro: returns_next returns_done)
qed

lemma returns_dequeue_cas:
  fixes s :: "'a hatring_scheme"
  assumes "stale_ok stale"
    and poll: "\<And>s' :: 'a hatring_scheme. hr_epochs s' = hr_epochs s \<Longrightarrow> returns (dequeue_body stale) DeqPoll s'"
  shows "returns (dequeue_body stale) (DeqCas ix r w (cell_at s (ucast ix))) s"
proof -
  let ?c = "cell_at s (ucast ix)"
  let ?s = "set_cell s (ucast ix) \<lparr>hi_item = 0, hi_state = HATRING_DEQUEUED OR ucast r\<rparr>"
  have p: "returns (dequeue_body stale) DeqPoll ?s"
    "returns (dequeue_body stale) DeqPoll (drop_item ?s (hi_item ?c))"
    by (rule poll, simp add: set_cell_def drop_item_def)+
  have d: "returns (dequeue_body stale) (DeqDrop r w (hi_item ?c)) ?s"
    by (rule returns_dequeue_stale [OF assms(1) p(2) refl]) simp
  consider "hatring_cell_epoch (hi_state ?c) = r"
    | "hatring_cell_epoch (hi_state ?c) \<noteq> r" "hr_drop_handler s \<and> hatring_is_enqueued (hi_state ?c)"
    | "hatring_cell_epoch (hi_state ?c) \<noteq> r" "\<not> (hr_drop_handler s \<and> hatring_is_enqueued (hi_state ?c))" by blast
  then show ?thesis
  proof cases
    case 1
    then show ?thesis by (intro returns_done) (simp add: Let_def)
  next
    case 2
    then show ?thesis by (intro returns_next [OF _ d]) (simp add: Let_def)
  next
    case 3
    then show ?thesis by (intro returns_dequeue_stale [OF assms(1) p(1) refl, of _ _ r w]) (auto simp: Let_def)
  qed
qed

lemma returns_dequeue_look:
  fixes s :: "'a hatring_scheme"
  assumes "stale_ok stale"
    and poll: "\<And>s' :: 'a hatring_scheme. hr_epochs s' = hr_epochs s \<Longrightarrow> returns (dequeue_body stale) DeqPoll s'"
  shows "returns (dequeue_body stale) (dequeue_look ix r w (cell_at s (ucast ix))) s"
  using returns_dequeue_cas [OF assms] poll [of s] by (simp add: dequeue_look_def)

lemma returns_dequeue_poll:
  assumes "stale_ok stale" "hr_epochs s = epochs_word w r" "w < 2 ^ 32" "r < 2 ^ 32"
  shows "returns (dequeue_body stale) DeqPoll s"
  using assms(2,4)
proof (induction "w - r" arbitrary: s r rule: less_induct)
  case less
  show ?case
  proof (cases "w \<le> r")
    case True
    then show ?thesis using less.prems assms(3) by (intro returns_done) (simp add: Let_def ring_words)
  next
    case False
    let ?s = "s\<lparr>hr_epochs := epochs_word w (Suc r)\<rparr>"
    let ?ix = "hatring_dequeue_ix (epochs_word w r) (ucast (hr_last_slot s))"
    have "returns (dequeue_body stale) (dequeue_look ?ix (word_of_nat r) (word_of_nat w) (cell_at ?s (ucast ?ix))) ?s"
    proof (rule returns_dequeue_look [OF assms(1)])
      fix s' :: "'a hatring_scheme"
      assume "hr_epochs s' = hr_epochs ?s"
      then show "returns (dequeue_body stale) DeqPoll s'"
        using False assms(3) by (intro less.hyps [of "Suc r"]) auto
    qed
    then have "returns (dequeue_body stale) (DeqCell ?ix (word_of_nat r) (word_of_nat w)) ?s"
      by (rule returns_next [rotated]) simp
    then have "returns (dequeue_body stale) DeqAdd s"
      by (rule returns_next [rotated]) (use less.prems assms(3) in \<open>simp add: Let_def ring_words\<close>)
    then show ?thesis
      by (rule returns_next [rotated]) (use False less.prems assms(3) in \<open>simp add: Let_def ring_words\<close>)
  qed
qed

lemma returns_dequeue:
  fixes s :: "'a hatring_scheme"
  assumes "stale_ok stale" "hr_epochs s = epochs_word w r" "w < 2 ^ 32" "Suc r < 2 ^ 32"
  shows "returns (dequeue_body stale) p s"
proof -
  have poll: "returns (dequeue_body stale) DeqPoll s'" if "hr_epochs s' = hr_epochs s" for s' :: "'a hatring_scheme"
    using that assms by (intro returns_dequeue_poll [of stale s' w r]) auto
  have cell: "returns (dequeue_body stale) (DeqCell ix v u) s'" 
    if "\<And>s'' :: 'a hatring_scheme. hr_epochs s'' = hr_epochs s' \<Longrightarrow> returns (dequeue_body stale) DeqPoll s''"
    for ix v u and s' :: "'a hatring_scheme"
    by (rule returns_next [OF _ returns_dequeue_look [OF assms(1) that]]) simp_all
  show ?thesis
  proof (cases p)
    case DeqPoll
    then show ?thesis using poll by simp
  next
    case DeqAdd
    have "returns (dequeue_body stale) DeqPoll s''" if "hr_epochs s'' = epochs_word w (Suc r)" for s'' :: "'a hatring_scheme"
      using that assms by (intro returns_dequeue_poll [of stale s'' w "Suc r"]) auto
    then have "returns (dequeue_body stale)
        (DeqCell (hatring_dequeue_ix (epochs_word w r) (ucast (hr_last_slot s))) (word_of_nat r) (word_of_nat w))
        (s\<lparr>hr_epochs := epochs_word w (Suc r)\<rparr>)"
      by (intro cell) simp
    then have "returns (dequeue_body stale) DeqAdd s"
      by (rule returns_next [rotated]) (use assms in \<open>simp add: Let_def ring_words\<close>)
    then show ?thesis using DeqAdd by simp
  next
    case (DeqCell ix v u)
    then show ?thesis using cell poll by auto
  next
    case (DeqCas ix v u c)
    consider "cell_at s (ucast ix) = c"
      | "cell_at s (ucast ix) \<noteq> c" "hatring_cell_epoch (hi_state c) = v \<and> \<not> hr_drop_handler s"
      | "cell_at s (ucast ix) \<noteq> c" "\<not> (hatring_cell_epoch (hi_state c) = v \<and> \<not> hr_drop_handler s)" by blast
    then show ?thesis
    proof cases
      case 1
      then show ?thesis using returns_dequeue_cas [where s = s and ix = ix and r = v and w = u, OF assms(1) poll] DeqCas by simp
    next
      case 2
      then show ?thesis unfolding DeqCas by (intro returns_done) (simp add: Let_def)
    next
      case 3
      then show ?thesis unfolding DeqCas
        by (intro returns_next [OF _ returns_dequeue_look [where s = s and ix = ix and r = v and w = u, OF assms(1) poll]]) (auto simp: Let_def)
    qed
  next
    case (DeqDrop v u x)
    have "returns (dequeue_body stale) DeqPoll (drop_item s x)" by (rule poll) (simp add: drop_item_def)
    then show ?thesis unfolding DeqDrop by (rule returns_dequeue_stale [where r = v and w = u, OF assms(1) _ refl]) simp
  qed
qed


text \<open>An enqueue: once a ticket is not behind any cell, the CAS succeeds, and the item is in the cell of the ticket returned.\<close>

definition enqueues :: "ptr \<Rightarrow> enqueue_pc \<Rightarrow> 'a hatring_scheme \<Rightarrow> bool" where
  "enqueues x p s \<longleftrightarrow> (\<exists>s' w. run_alone (hatring_enqueue_step x) p s = Some (s', w) \<and>
     cell_at s' (enqueue_ix s' w) = \<lparr>hi_item = x, hi_state = HATRING_ENQUEUED OR ucast w\<rparr>)"

lemma enqueues_next: "hatring_enqueue_step x p s = (s', Inl p') \<Longrightarrow> enqueues x p' s' \<Longrightarrow> enqueues x p s"
  unfolding enqueues_def by (simp add: run_next)

lemma enqueues_cas:
  assumes "unat (enqueue_ix s v) < length (hr_cells s)"
  shows "enqueues x (EnqCas v (cell_at s (enqueue_ix s v))) s"
proof -
  let ?c = "\<lparr>hi_item = x, hi_state = HATRING_ENQUEUED OR ucast v\<rparr>"
  let ?s = "set_cell s (enqueue_ix s v) ?c" and ?d = "EnqDrop v (hi_item (cell_at s (enqueue_ix s v)))"
  have st: "cell_at ?s (enqueue_ix ?s v) = ?c" using assms by (simp add: cell_at_def set_cell_def enqueue_ix_def)
  have drop: "run_alone (hatring_enqueue_step x) ?d ?s = Some (drop_item ?s (hi_item (cell_at s (enqueue_ix s v))), v)"
    by (rule run_done) simp
  have "run_alone (hatring_enqueue_step x) (EnqCas v (cell_at s (enqueue_ix s v))) s =
      (if hatring_is_enqueued (hi_state (cell_at s (enqueue_ix s v))) \<and> hr_drop_handler s
       then run_alone (hatring_enqueue_step x) ?d ?s else Some (?s, v))"
    by (auto simp: Let_def intro!: run_next run_done)
  then show ?thesis
    using st drop by (auto simp: enqueues_def drop_item_def cell_at_def enqueue_ix_def)
qed

text \<open>No cell is as new as the newest ticket.\<close>

definition cells_old :: "'a hatring_scheme \<Rightarrow> nat \<Rightarrow> bool" where
  "cells_old s b \<longleftrightarrow> (\<forall>c \<in> set (hr_cells s). unat (hatring_cell_epoch (hi_state c)) < b)"

lemma enqueues_cell:
  assumes "ring_of n s" "cells_old s v" "v < 2 ^ 32"
  shows "enqueues x (EnqCell (word_of_nat v)) s"
proof -
  have "v mod n < length (hr_cells s)" using ring_of_bounds [OF assms(1)] by simp
  then have "unat (hatring_cell_epoch (hi_state (hr_cells s ! (v mod n)))) < v"
    using assms(2) by (simp add: cells_old_def)
  then have "hatring_cell_epoch (hi_state (hr_cells s ! (v mod n))) < word_of_nat v"
    using assms(3) by (simp add: word_less_nat_alt unat_ticket)
  then have "enqueue_look (word_of_nat v) (cell_at s (enqueue_ix s (word_of_nat v))) =
      EnqCas (word_of_nat v) (cell_at s (enqueue_ix s (word_of_nat v)))"
    using cell_of_write(1) [OF ring_of_frame [OF assms(1)] assms(3)] by (simp add: enqueue_look_def)
  moreover have "unat (enqueue_ix s (word_of_nat v)) < length (hr_cells s)"
    using ring_of_bounds [OF assms(1)] assms(3) by (simp add: enqueue_ix_mod [OF ring_of_frame [OF assms(1)]] unat_ticket)
  ultimately show ?thesis by (intro enqueues_next [OF _ enqueues_cas]) simp_all
qed

lemma enqueues_add:
  assumes "ring_of n s" "cells_old s (max w r)" "hr_epochs s = epochs_word w r" "Suc w < 2 ^ 32" "Suc r < 2 ^ 32"
  shows "enqueues x EnqAdd s"
  using assms
proof (induction "r - w" arbitrary: s w rule: less_induct)
  case less
  let ?s = "s\<lparr>hr_epochs := epochs_word (Suc w) r\<rparr>"
  have ring: "ring_of n ?s" using less.prems(1) by simp
  have ep: "hatring_enqueue_epoch (hr_epochs s) = word_of_nat w" "hatring_dequeue_epoch (hr_epochs s) = word_of_nat r"
    "hr_epochs s + push_bit 32 1 = epochs_word (Suc w) r"
    using less.prems by (simp_all add: ring_words)
  show ?case
  proof (cases "w < r")
    case True
    have "enqueues x EnqAdd ?s"
      by (rule less.hyps [of "Suc w"]) (use True less.prems in \<open>auto simp: cells_old_def max_def split: if_splits\<close>)
    then show ?thesis
      by (rule enqueues_next [rotated]) (use True less.prems in \<open>simp add: Let_def ep ring_words\<close>)
  next
    case False
    have "enqueues x (EnqCell (word_of_nat w)) ?s"
      by (rule enqueues_cell [OF ring]) (use False less.prems in \<open>auto simp: cells_old_def max_def\<close>)
    then show ?thesis
      by (rule enqueues_next [rotated]) (use False less.prems in \<open>simp add: Let_def ep ring_words\<close>)
  qed
qed

lemma enqueues_poll:
  assumes "ring_of n s" "cells_old s (max w r)" "hr_epochs s = epochs_word w r" "Suc w < 2 ^ 32" "Suc r < 2 ^ 32"
  shows "enqueues x EnqPoll s"
proof -
  have n: "n < 2 ^ 32" and size: "hr_size s = word_of_nat n"
    using ring_of_bounds [OF assms(1)] assms(1) by (auto simp: ring_of_def)
  show ?thesis
  proof (cases "r + n < w")
    case True
    have "enqueues x (EnqCell (word_of_nat w)) (s\<lparr>hr_epochs := epochs_word (Suc w) (Suc w - n)\<rparr>)"
      by (rule enqueues_cell [of n]) (use True assms in \<open>auto simp: cells_old_def max_def\<close>)
    then have "enqueues x (EnqFix (hr_epochs s)) s"
      by (rule enqueues_next [rotated]) (use True assms n in \<open>simp add: Let_def ring_words size\<close>)
    then show ?thesis
      by (rule enqueues_next [rotated]) (use True assms n in \<open>simp add: Let_def ring_words size\<close>)
  next
    case False
    show ?thesis
      by (rule enqueues_next [OF _ enqueues_add [OF assms]]) (use False assms n in \<open>simp add: Let_def ring_words size\<close>)
  qed
qed

lemma enqueues_ok:
  assumes ring: "ring_of n s" and old: "cells_old s (max w r)" and ep: "hr_epochs s = epochs_word w r"
    and b: "Suc w < 2 ^ 32" "Suc r < 2 ^ 32" and ok: "pc_ok n (RingEnq x p)"
  shows "(\<exists>v y. p = EnqDrop v y) \<or> enqueues x p s"
proof -
  note poll = enqueues_poll [OF ring old ep b]
  have ix: "unat (enqueue_ix s v) < length (hr_cells s)" for v
    using ring_of_bounds [OF ring] by (simp add: enqueue_ix_mod [OF ring_of_frame [OF ring]])
  have look: "enqueues x (enqueue_look v (cell_at s (enqueue_ix s v))) s" for v
    using poll [of x] enqueues_cas [OF ix, of x v] by (simp add: enqueue_look_def)
  have n: "n < 2 ^ 32" and size: "hr_size s = word_of_nat n"
    using ring_of_bounds [OF ring] ring by (auto simp: ring_of_def)
  show ?thesis
  proof (cases p)
    case EnqPoll
    then show ?thesis using poll by simp
  next
    case (EnqFix e)
    show ?thesis
    proof (cases "hr_epochs s = e")
      case True
      then have "hatring_enqueue_step x EnqPoll s = (s, Inl (EnqFix e))"
        using ok EnqFix size by (simp add: Let_def)
      with poll show ?thesis unfolding EnqFix enqueues_def by (simp add: run_next)
    next
      case False
      then show ?thesis unfolding EnqFix by (intro disjI2 enqueues_next [OF _ poll]) (simp add: Let_def)
    qed
  next
    case EnqAdd
    then show ?thesis using enqueues_add [OF ring old ep b] by simp
  next
    case (EnqCell v)
    then show ?thesis by (auto intro!: disjI2 enqueues_next [OF _ look])
  next
    case (EnqCas v c)
    then show ?thesis using enqueues_cas [OF ix, of x v]
      by (cases "cell_at s (enqueue_ix s v) = c") (auto simp: Let_def intro!: enqueues_next [OF _ look])
  next
    case (EnqDrop v y)
    then show ?thesis by simp
  qed
qed

text \<open>
  A view reads on until it meets the write ticket. Alone it stores an item for a ticket only if the cell of the ticket holds it, so no more
  than the ring has cells.
\<close>

definition seen_at :: "nat \<Rightarrow> 'a hatring_scheme \<Rightarrow> nat \<Rightarrow> bool" where
  "seen_at n s t \<longleftrightarrow> hatring_is_enqueued (hi_state (hr_cells s ! (t mod n))) \<and>
     hatring_cell_epoch (hi_state (hr_cells s ! (t mod n))) = word_of_nat t"

definition seen_from :: "nat \<Rightarrow> 'a hatring_scheme \<Rightarrow> nat \<Rightarrow> nat \<Rightarrow> nat set" where
  "seen_from n s w e = {t. e \<le> t \<and> t < w \<and> seen_at n s t}"

lemma finite_seen [simp]: "finite (seen_from n s w e)"
  by (rule finite_subset [of _ "{..<w}"]) (auto simp: seen_from_def)

lemma card_seen_from:
  assumes "e < w"
  shows "card (seen_from n s w e) = (if seen_at n s e then Suc (card (seen_from n s w (Suc e))) else card (seen_from n s w (Suc e)))"
proof -
  have "seen_from n s w e = (if seen_at n s e then insert e (seen_from n s w (Suc e)) else seen_from n s w (Suc e))"
    using assms by (auto simp: seen_from_def le_Suc_eq Suc_le_eq order_le_less)
  moreover have "e \<notin> seen_from n s w (Suc e)" by (simp add: seen_from_def)
  ultimately show ?thesis by simp
qed

lemma card_seen:
  assumes "0 < n" "w \<le> 2 ^ 32"
  shows "card (seen_from n s w e) \<le> n"
proof -
  have "inj_on (\<lambda>t. t mod n) (seen_from n s w e)"
  proof (rule inj_onI)
    fix t u
    assume tu: "t \<in> seen_from n s w e" "u \<in> seen_from n s w e" "t mod n = u mod n"
    then have "(word_of_nat t :: 32 word) = word_of_nat u" by (simp add: seen_from_def seen_at_def)
    moreover have "t < 2 ^ 32" "u < 2 ^ 32" using tu(1,2) assms(2) by (auto simp: seen_from_def)
    ultimately show "t = u" using unat_ticket by metis
  qed
  then have "card (seen_from n s w e) \<le> card {..<n}"
    by (rule card_inj_on_le) (use assms(1) in auto)
  then show ?thesis by simp
qed

lemma view_end_returns:
  assumes ring: "ring_of n s" and ep: "hr_epochs s = epochs_word w r" and b: "w < 2 ^ 32" "r < 2 ^ 32"
  shows "e < 2 ^ 32 \<Longrightarrow> \<exists>a. run_alone hatring_view_step (ViewEnd (word_of_nat e) v) s = Some (s, a) \<and>
    (hv_num_items v + card (seen_from n s w e) \<le> length (hv_cells v) \<longrightarrow> (\<exists>v'. a = Inr v'))"
proof (induction "w - e" arbitrary: e v rule: less_induct)
  case less
  show ?case
  proof (cases "e < w \<and> hv_next_ix v < unat (hr_size s)")
    case False
    have "run_alone hatring_view_step (ViewEnd (word_of_nat e) v) s = Some (s, Inr v)"
      by (rule run_done) (use False less.prems b ticket_less [of e w] in \<open>auto simp: view_test_def ep enqueue_epoch_word\<close>)
    then show ?thesis by simp
  next
    case True
    let ?c = "hr_cells s ! (e mod n)"
    have next_cell: "run_alone hatring_view_step (ViewEnd (word_of_nat e) v) s = run_alone hatring_view_step (ViewCell (word_of_nat e) v) s"
      by (rule run_next) (use True less.prems b ticket_less [of e w] in \<open>simp add: view_test_def ep enqueue_epoch_word\<close>)
    have c: "cell_at s (enqueue_ix s (word_of_nat e)) = ?c" by (rule cell_of_write(1) [OF ring_of_frame [OF ring] less.prems])
    have IH: "\<exists>a. run_alone hatring_view_step (ViewEnd (word_of_nat (Suc e)) v') s = Some (s, a) \<and>
        (hv_num_items v' + card (seen_from n s w (Suc e)) \<le> length (hv_cells v') \<longrightarrow> (\<exists>v'. a = Inr v'))" for v'
      using True b by (intro less.hyps) auto
    show ?thesis
    proof (cases "seen_at n s e")
      case False
      have "run_alone hatring_view_step (ViewCell (word_of_nat e) v) s = run_alone hatring_view_step (ViewEnd (word_of_nat (Suc e)) v) s"
        by (rule view_step_cell(2) [OF ring less.prems refl]) (use False in \<open>simp add: seen_at_def\<close>)
      then show ?thesis using IH [of v] next_cell card_seen_from [of e w n s] True False by simp
    next
      case seen: True
      show ?thesis
      proof (cases "view_append v (hi_item ?c)")
        case (Inl f)
        have "run_alone hatring_view_step (ViewCell (word_of_nat e) v) s = Some (s, Inl f)"
          by (rule run_done) (use seen c Inl in \<open>simp add: Let_def seen_at_def\<close>)
        moreover have "length (hv_cells v) \<le> hv_num_items v" using Inl by (simp add: view_append_def split: if_splits)
        ultimately show ?thesis using next_cell card_seen_from [of e w n s] True seen by simp
      next
        case (Inr v')
        have "run_alone hatring_view_step (ViewCell (word_of_nat e) v) s = run_alone hatring_view_step (ViewEnd (word_of_nat (Suc e)) v') s"
          by (rule view_step_cell(1) [OF ring less.prems refl]) (use seen Inr in \<open>simp_all add: seen_at_def\<close>)
        moreover have "hv_num_items v' = Suc (hv_num_items v)" "length (hv_cells v') = length (hv_cells v)"
          using Inr by (auto simp: view_append_def split: if_splits)
        ultimately show ?thesis using IH [of v'] next_cell card_seen_from [of e w n s] True seen by simp
      qed
    qed
  qed
qed

text \<open>How many items a view has stored so far, and that its buffer is the one it was allocated with.\<close>

fun view_taken :: "view_pc \<Rightarrow> nat" where
  "view_taken ViewStart = 0"
| "view_taken (ViewCell m v) = hv_num_items v"
| "view_taken (ViewEnd m v) = hv_num_items v"

fun view_room :: "nat \<Rightarrow> ring_pc \<Rightarrow> bool" where
  "view_room n (RingView (ViewCell m v)) \<longleftrightarrow> length (hv_cells v) = 2 * n"
| "view_room n (RingView (ViewEnd m v)) \<longleftrightarrow> length (hv_cells v) = 2 * n"
| "view_room n _ \<longleftrightarrow> True"

lemma view_returns:
  assumes ring: "ring_of n s" and ep: "hr_epochs s = epochs_word w r" and b: "w < 2 ^ 32" "r < 2 ^ 32"
    and room: "view_room n (RingView p)"
  shows "\<exists>a. run_alone hatring_view_step p s = Some (s, a) \<and> (view_taken p < n \<longrightarrow> (\<exists>v. a = Inr v))"
proof -
  have n: "0 < n" using ring_of_bounds [OF ring] by simp
  have at_end: "\<exists>a. run_alone hatring_view_step (ViewEnd m v) s = Some (s, a) \<and> (hv_num_items v \<le> n \<longrightarrow> (\<exists>v. a = Inr v))"
    if "length (hv_cells v) = 2 * n" for m v
  proof -
    have "word_of_nat (unat m) = m" "unat m < 2 ^ 32" using unsigned_less [of m, where 'a = nat] by simp_all
    with view_end_returns [OF ring ep b, of "unat m" v] card_seen [OF n, of w s "unat m"] b(1) that show ?thesis by fastforce
  qed
  show ?thesis
  proof (cases p)
    case ViewStart
    have "hatring_view_step ViewStart s = hatring_view_step (ViewEnd (hatring_dequeue_epoch (hr_epochs s)) (part_view [] (2 * n))) s"
      by (simp add: Let_def view_alloc_part [OF ring])
    then have "run_alone hatring_view_step ViewStart s =
        run_alone hatring_view_step (ViewEnd (hatring_dequeue_epoch (hr_epochs s)) (part_view [] (2 * n))) s"
      by (subst (1 2) run_alone.simps) simp
    then show ?thesis using at_end [of "part_view [] (2 * n)" "hatring_dequeue_epoch (hr_epochs s)"] ViewStart
      by (auto simp: part_view_def)
  next
    case (ViewEnd m v)
    then show ?thesis using at_end [of v m] room by auto
  next
    case (ViewCell m v)
    let ?c = "cell_at s (enqueue_ix s m)"
    show ?thesis
    proof (cases "hatring_is_enqueued (hi_state ?c) \<and> hatring_cell_epoch (hi_state ?c) = m")
      case False
      have "run_alone hatring_view_step (ViewCell m v) s = run_alone hatring_view_step (ViewEnd (m + 1) v) s"
        by (rule run_next) (use False in \<open>auto simp: Let_def\<close>)
      then show ?thesis using at_end [of v "m + 1"] room ViewCell by auto
    next
      case True
      show ?thesis
      proof (cases "view_append v (hi_item ?c)")
        case (Inl f)
        have "run_alone hatring_view_step (ViewCell m v) s = Some (s, Inl f)"
          by (rule run_done) (use True Inl in \<open>simp add: Let_def\<close>)
        moreover have "length (hv_cells v) \<le> hv_num_items v" using Inl by (simp add: view_append_def split: if_splits)
        ultimately show ?thesis using ViewCell room n by simp
      next
        case (Inr v')
        have "run_alone hatring_view_step (ViewCell m v) s = run_alone hatring_view_step (ViewEnd (m + 1) v') s"
          by (rule run_next) (use True Inr in \<open>simp add: Let_def\<close>)
        moreover have "hv_num_items v' = Suc (hv_num_items v)" "length (hv_cells v') = length (hv_cells v)"
          using Inr by (auto simp: view_append_def split: if_splits)
        ultimately show ?thesis using at_end [of v' "m + 1"] ViewCell room by auto
      qed
    qed
  qed
qed

lemma step_rooms:
  assumes "\<forall>pc \<in> set (rs_threads s). view_room n pc" "2 * n = sizeof_hatring_cell * unat (hr_size s) div sizeof_ptr" "i < length (rs_threads s)"
  shows "(\<forall>pc \<in> set (rs_threads (ring_step i s)). view_room n pc) \<and> hr_size (ring_step i s) = hr_size s"
proof -
  have th: "view_room n (rs_threads s ! i)" using assms(1,3) by simp
  have upd: "\<forall>pc \<in> set ((rs_threads s)[i := q]). view_room n pc" if "view_room n q" for q
    using assms(1) that set_update_subset_insert [of "rs_threads s" i q] by auto
  have test: "view_room n (case view_test z m e v of Inl p' \<Rightarrow> RingView p' | Inr (Inr v) \<Rightarrow> RingIdle | Inr (Inl e) \<Rightarrow> RingFailed e)"
    if "length (hv_cells v) = 2 * n" for z m e v
    using that by (simp add: view_test_def)
  show ?thesis
  proof (cases "rs_threads s ! i")
    case (RingEnq x p)
    then show ?thesis
      by (cases p) (auto simp: ring_step_def ring_enq_step_def set_thread_def Let_def set_cell_def drop_item_def enqueue_look_def intro!: upd)
  next
    case (RingDeq we p)
    then show ?thesis
      by (cases p) (auto simp: ring_step_def ring_deq_step_def set_thread_def hatring_dequeue_w_epoch_step_def hatring_dequeue_step_def
          Let_def set_cell_def drop_item_def dequeue_look_def split: sum.splits dequeue_result.splits if_splits intro!: upd)
  next
    case (RingView p)
    then show ?thesis
      using th assms(2)
      by (cases p) (auto simp: ring_step_def ring_view_step_def set_thread_def Let_def view_alloc_def view_append_def intro!: upd test)
  qed (use assms(1) in \<open>simp_all add: ring_step_def\<close>)
qed

lemma run_rooms:
  assumes "ring_run s0 k s" "\<forall>pc \<in> set (rs_threads s0). view_room n pc" "2 * n = sizeof_hatring_cell * unat (hr_size s0) div sizeof_ptr"
  shows "(\<forall>pc \<in> set (rs_threads s). view_room n pc) \<and> hr_size s = hr_size s0"
  using assms
proof (induction rule: ring_run.induct)
  case (run_call k s i pc)
  have "view_room n pc" using run_call.hyps(4) by (auto simp: ring_entry_def split: ring_pc.splits)
  with run_call show ?case using set_update_subset_insert [of "rs_threads s" i pc] by (auto simp: set_thread_def)
next
  case (run_step k s i)
  then show ?case using step_rooms [of s n i] by auto
qed simp

section \<open>Schedules\<close>

text \<open>Runs of a schedule: \<open>Inl\<close> a call, \<open>Inr\<close> a number of steps of a thread.\<close>

fun ring_schedule :: "hatring_system \<Rightarrow> ((nat \<times> ring_pc) + nat) list \<Rightarrow> hatring_system" where
  "ring_schedule s [] = s"
| "ring_schedule s (Inl (i, pc) # es) = ring_schedule (set_thread s i pc) es"
| "ring_schedule s (Inr i # es) = ring_schedule (ring_step i s) es"

fun schedule_ok :: "hatring_system \<Rightarrow> ((nat \<times> ring_pc) + nat) list \<Rightarrow> bool" where
  "schedule_ok s [] \<longleftrightarrow> True"
| "schedule_ok s (Inl (i, pc) # es) \<longleftrightarrow>
     i < length (rs_threads s) \<and> rs_threads s ! i = RingIdle \<and> ring_entry pc \<and> schedule_ok (set_thread s i pc) es"
| "schedule_ok s (Inr i # es) \<longleftrightarrow>
     i < length (rs_threads s) \<and> rs_threads s ! i \<noteq> RingIdle \<and> schedule_ok (ring_step i s) es"

lemma schedule_run:
  "ring_run s0 k s \<Longrightarrow> schedule_ok s es \<Longrightarrow> ring_run s0 (k + length es) (ring_schedule s es)"
proof (induction s es arbitrary: k rule: ring_schedule.induct)
  case (2 s i pc es)
  then show ?case using run_call [of s0 k s i pc] by fastforce
next
  case (3 s i es)
  then show ?case using run_step [of s0 k s i] by fastforce
qed simp

definition small_ring :: hatring where
  "small_ring = \<lparr>hr_epochs = 0x0000001000000010, hr_drop_handler = False, hr_last_slot = 15, hr_size = 16,
     hr_cells = replicate 16 \<lparr>hi_item = 0, hi_state = 0\<rparr>, hr_dropped = []\<rparr>"

lemma buckets_16: "hatring_buckets 16 = Inr 16"
  using round_up_power [of 4] by (simp add: hatring_buckets_def HATRING_MINIMUM_SIZE_def)

lemma small_ring_new: "hatring_new 16 = Inr small_ring"
  by (simp add: hatring_new_def buckets_16 small_ring_def)

definition two_threads :: "((nat \<times> ring_pc) + nat) list" where
  "two_threads = [Inl (0, RingEnq 7 EnqPoll), Inl (1, RingDeq False DeqPoll), Inr 0, Inr 0, Inr 1, Inr 0, Inr 1, Inr 0, Inr 1]"

abbreviation race_end :: hatring_system where
  "race_end \<equiv> ring_schedule (ring_system (hatring_set_drop_handler small_ring True) 2) two_threads"

lemma two_threads_ok: "schedule_ok (ring_system (hatring_set_drop_handler small_ring True) 2) two_threads"
  by code_simp

lemma two_threads_run: "ring_run (ring_system (hatring_set_drop_handler small_ring True) 2) 9 race_end"
proof -
  have "0 + length two_threads = 9" by (simp add: two_threads_def)
  with schedule_run [OF run_start two_threads_ok] show ?thesis by (simp only:)
qed

lemma two_threads_end:
  "rs_puts race_end = [(0, 16, 7)]" "rs_gots race_end = []"
  "rs_threads race_end =
    [RingIdle, RingDeq False (DeqCas 0 16 17 \<lparr>hi_item = 7, hi_state = 0x8000000000000010\<rparr>)]"
  by code_simp+

text \<open>
  Thread 1 has read up to the last item put; thread 0 puts the next one, and the view goes on.
  Below, \<open>j\<close> counts the items of the view.
\<close>

definition view_follows :: "nat \<Rightarrow> nat \<Rightarrow> nat \<Rightarrow> hatring_system \<Rightarrow> bool" where
  "view_follows n w j s \<longleftrightarrow>
     ring_of n s \<and> \<not> hr_drop_handler s \<and> cells_old s (Suc w) \<and>
     hi_state (hr_cells s ! (w mod n)) = enqueued_at w \<and>
     (\<exists>r. hr_epochs s = epochs_word (Suc w) r \<and> r \<le> w) \<and>
     (\<exists>v. rs_threads s = [RingIdle, RingView (ViewCell (word_of_nat w) v)] \<and> hv_next_ix v = 0 \<and> hv_num_items v = j \<and>
       length (hv_cells v) = 2 * n)"

lemma step_enq: "rs_threads s ! i = RingEnq x p \<Longrightarrow> ring_step i s = ring_enq_step i x p s"
  by (simp add: ring_step_def)

lemma step_view: "rs_threads s ! i = RingView p \<Longrightarrow> ring_step i s = ring_view_step i p s"
  by (simp add: ring_step_def)

lemma steps_enqueue:
  assumes run: "ring_run s0 k s" and ring: "ring_of n s" and ep: "hr_epochs s = epochs_word w r" "r \<le> w" "Suc w < 2 ^ 32"
    and old: "cells_old s w" and h: "\<not> hr_drop_handler s" and th: "rs_threads s = [RingIdle, pc]"
  obtains s' r' where "ring_run s0 (k + 5) s'" "ring_of n s'" "hr_epochs s' = epochs_word (Suc w) r'" "r' \<le> w"
    "hr_cells s' = (hr_cells s)[w mod n := \<lparr>hi_item = x, hi_state = enqueued_at w\<rparr>]"
    "\<not> hr_drop_handler s'" "rs_threads s' = [RingIdle, pc]" "r' = (if r + n < w then Suc w - n else r)"
proof -
  have n: "n < 2 ^ 32" "length (hr_cells s) = n" "16 \<le> n" and size: "hr_size s = word_of_nat n"
    using ring_of_bounds [OF ring] ring by (auto simp: ring_of_def)
  define r' where "r' = (if r + n < w then Suc w - n else r)"
  let ?c = "hr_cells s ! (w mod n)"
  let ?t = "\<lambda>p. [RingEnq x p, pc]"
  have "w mod n < length (hr_cells s)" using n by simp
  then have "unat (hatring_cell_epoch (hi_state ?c)) < w" using old by (simp add: cells_old_def)
  then have c: "hatring_cell_epoch (hi_state ?c) < word_of_nat w"
    using ep(3) by (simp add: word_less_nat_alt unat_ticket)
  note cell = cell_of_write [OF ring_of_frame, of n _ w]
  have 1: "ring_run s0 (Suc k) (s\<lparr>rs_threads := ?t EnqPoll\<rparr>)"
    using run_call [OF run, of 0 "RingEnq x EnqPoll"] th by (simp add: set_thread_def ring_entry_def)
  have 2: "ring_run s0 (Suc (Suc (Suc k))) (s\<lparr>hr_epochs := epochs_word (Suc w) r', rs_threads := ?t (EnqCell (word_of_nat w))\<rparr>)"
  proof (cases "r + n < w")
    case True
    have a: "ring_step 0 (s\<lparr>rs_threads := ?t EnqPoll\<rparr>) = s\<lparr>rs_threads := ?t (EnqFix (epochs_word w r))\<rparr>"
      using True ep n by (simp add: step_enq ring_enq_step_def set_thread_def ring_words size Let_def)
    have "ring_step 0 (s\<lparr>rs_threads := ?t (EnqFix (epochs_word w r))\<rparr>) =
        s\<lparr>hr_epochs := epochs_word (Suc w) r', rs_threads := ?t (EnqCell (word_of_nat w))\<rparr>"
      using True ep n by (simp add: step_enq ring_enq_step_def set_thread_def ring_words size Let_def r'_def)
    with run_step [OF run_step [OF 1, of 0], of 0] show ?thesis by (simp add: a)
  next
    case False
    have a: "ring_step 0 (s\<lparr>rs_threads := ?t EnqPoll\<rparr>) = s\<lparr>rs_threads := ?t EnqAdd\<rparr>"
      using False ep n by (simp add: step_enq ring_enq_step_def set_thread_def ring_words size Let_def)
    have "ring_step 0 (s\<lparr>rs_threads := ?t EnqAdd\<rparr>) =
        s\<lparr>hr_epochs := epochs_word (Suc w) r', rs_threads := ?t (EnqCell (word_of_nat w))\<rparr>"
      using False ep n by (simp add: step_enq ring_enq_step_def set_thread_def ring_words size Let_def r'_def)
    with run_step [OF run_step [OF 1, of 0], of 0] show ?thesis by (simp add: a)
  qed
  define s2 where "s2 = s\<lparr>hr_epochs := epochs_word (Suc w) r'\<rparr>"
  have s2: "ring_of n (s2\<lparr>rs_threads := t\<rparr>)" "ring_frame n (s2\<lparr>rs_threads := t\<rparr>)" for t
    using ring by (simp_all add: s2_def ring_defs)
  have s2c: "hr_cells s2 = hr_cells s" "\<not> hr_drop_handler s2" "hr_epochs s2 = epochs_word (Suc w) r'"
    using h by (simp_all add: s2_def)
  have w: "w < 2 ^ 32" using ep(3) by simp
  note cell = cell_of_write [OF s2(2) w]
  define s4 where "s4 = s2\<lparr>hr_cells := (hr_cells s)[w mod n := \<lparr>hi_item = x, hi_state = enqueued_at w\<rparr>],
    rs_threads := [RingIdle, pc], rs_puts := rs_puts s2 @ [(0, word_of_nat w, x)]\<rparr>"
  have b: "ring_step 0 (s2\<lparr>rs_threads := ?t (EnqCell (word_of_nat w))\<rparr>) = s2\<lparr>rs_threads := ?t (EnqCas (word_of_nat w) ?c)\<rparr>"
    using c by (simp add: step_enq ring_enq_step_def set_thread_def cell enqueue_look_def s2c)
  have "ring_step 0 (s2\<lparr>rs_threads := ?t (EnqCas (word_of_nat w) ?c)\<rparr>) = s4"
    by (simp add: step_enq ring_enq_step_def set_thread_def cell s2c Let_def enqueued_at_def s4_def)
  with run_step [OF run_step [OF 2 [folded s2_def], of 0], of 0] b have "ring_run s0 (k + 5) s4"
    by (simp add: s2_def numeral_eq_Suc)
  moreover have "ring_of n s4" using ring n by (simp add: s4_def s2_def ring_defs)
  moreover have "r' \<le> w" using ep n by (auto simp: r'_def)
  ultimately show ?thesis
    by (intro that [of s4 r']) (use s2c in \<open>simp_all add: s4_def r'_def\<close>)
qed

lemma view_round:
  assumes run: "ring_run s0 k s" and f: "view_follows n w j s" and w: "Suc (Suc w) < 2 ^ 32" and j: "j < 2 * n"
  shows "\<exists>s'. ring_run s0 (k + 7) s' \<and> view_follows n (Suc w) (Suc j) s'"
proof -
  obtain r v where ring: "ring_of n s" and h: "\<not> hr_drop_handler s" and old: "cells_old s (Suc w)"
    and c: "hi_state (hr_cells s ! (w mod n)) = enqueued_at w" and ep: "hr_epochs s = epochs_word (Suc w) r" "r \<le> w"
    and th: "rs_threads s = [RingIdle, RingView (ViewCell (word_of_nat w) v)]" and v: "hv_next_ix v = 0" "hv_num_items v = j"
      "length (hv_cells v) = 2 * n"
    using f unfolding view_follows_def by blast
  define v' where "v' = v\<lparr>hv_num_items := Suc j, hv_cells := (hv_cells v)[j := hi_item (hr_cells s ! (w mod n))]\<rparr>"
  have app: "view_append v (hi_item (hr_cells s ! (w mod n))) = Inr v'" using v j by (simp add: view_append_def v'_def)
  define s1 where "s1 = s\<lparr>rs_threads := [RingIdle, RingView (ViewEnd (word_of_nat w + 1) v')]\<rparr>"
  have "w < 2 ^ 32" using w by simp
  then have "ring_step 1 s = s1"
    using th c cell_of_write(1) [OF ring_of_frame [OF ring], of w]
    by (simp add: step_view ring_view_step_def Let_def set_thread_def s1_def app ring_words)
  then have 1: "ring_run s0 (Suc k) s1" using run_step [OF run, of 1] th by simp
  have s1: "ring_of n s1" "hr_epochs s1 = epochs_word (Suc w) r" "r \<le> Suc w" "cells_old s1 (Suc w)" "\<not> hr_drop_handler s1"
    using ring ep old h by (simp_all add: s1_def ring_defs cells_old_def)
  obtain s2 r' where s2: "ring_run s0 (Suc k + 5) s2" "ring_of n s2" "hr_epochs s2 = epochs_word (Suc (Suc w)) r'"
    "r' \<le> Suc w" "hr_cells s2 = (hr_cells s1)[Suc w mod n := \<lparr>hi_item = 0, hi_state = enqueued_at (Suc w)\<rparr>]"
    "\<not> hr_drop_handler s2" "rs_threads s2 = [RingIdle, RingView (ViewEnd (word_of_nat w + 1) v')]"
    by (rule steps_enqueue [OF 1 s1(1-3) w s1(4,5)]) (simp add: s1_def)
  have n: "0 < n" "n < 2 ^ 32" "hr_size s2 = word_of_nat n" "length (hr_cells s1) = n"
    using ring_of_bounds [OF s2(2)] ring_of_bounds [OF s1(1)] s2(2) by (auto simp: ring_of_def)
  define s3 where "s3 = s2\<lparr>rs_threads := [RingIdle, RingView (ViewCell (word_of_nat (Suc w)) v')]\<rparr>"
  have ep2: "hatring_enqueue_epoch (hr_epochs s2) = word_of_nat (Suc (Suc w))"
    using s2(3,4) w by (simp only: ring_words)
  have "view_test (hr_size s2) (word_of_nat w + 1) (hatring_enqueue_epoch (hr_epochs s2)) v' =
      Inl (ViewCell (word_of_nat (Suc w)) v')"
  proof -
    have "(word_of_nat w + 1 :: 32 word) = word_of_nat (Suc w)" by simp
    moreover have "word_of_nat (Suc w) < (word_of_nat (Suc (Suc w)) :: 32 word)" using w by (simp only: ticket_less)
    moreover have "hv_next_ix v' < unat (hr_size s2)" using n v by (simp add: v'_def unat_word64)
    ultimately show ?thesis unfolding view_test_def ep2 by (simp only: if_True simp_thms)
  qed
  then have "ring_step 1 s2 = s3" using s2(7) by (simp add: step_view ring_view_step_def set_thread_def s3_def)
  then have "ring_run s0 (k + 7) s3" using run_step [OF s2(1), of 1] s2(7) by (simp add: numeral_eq_Suc)
  moreover have "cells_old s3 (Suc (Suc w))"
  proof -
    have "unat (hatring_cell_epoch (enqueued_at (Suc w))) = Suc w" using w by (simp only: ring_words unat_ticket)
    moreover have "set (hr_cells s3) \<subseteq> insert \<lparr>hi_item = 0, hi_state = enqueued_at (Suc w)\<rparr> (set (hr_cells s1))"
      unfolding s3_def using s2(5) set_update_subset_insert by simp
    ultimately show ?thesis using s1(4) unfolding cells_old_def by fastforce
  qed
  ultimately show ?thesis
    using s2 n v ring unfolding view_follows_def
    by (intro exI [of _ s3]) (auto simp: s3_def ring_defs v'_def)
qed

text \<open>From a new ring: one item is put, and a view starts.\<close>

lemma view_follows_start:
  assumes "hatring_new num_buckets = Inr s" "num_buckets \<le> 2 ^ 31" "hatring_buckets num_buckets = Inr n" "n \<le> 2 ^ 30"
  shows "\<exists>k s'. ring_run (ring_system s 2) k s' \<and> view_follows n n 0 s'"
proof -
  have new: "ring_holds n s n n []" "\<not> hr_drop_handler s"
    using ring_holds_new [OF assms(1)] assms(2,3) by (fastforce simp: sum.inject)+
  let ?s = "ring_system s 2"
  have ring: "ring_of n s" and ep: "hr_epochs s = epochs_word n n" using new(1) by (auto simp: ring_holds_def ring_tickets_def)
  have n: "16 \<le> n" "Suc (Suc n) < 2 ^ 32"
    using ring_of_bounds [OF ring] assms(4) by auto
  have cells: "hr_cells s = replicate n \<lparr>hi_item = 0, hi_state = 0\<rparr>" using assms(1,3) by (auto simp: hatring_new_def)
  have s: "ring_of n ?s" "hr_epochs ?s = epochs_word n n" "hr_cells ?s = hr_cells s" "\<not> hr_drop_handler ?s"
    "rs_threads ?s = [RingIdle, RingIdle]"
    using ring ep new(2) by (simp_all add: ring_system_def hatring.defs ring_defs numeral_eq_Suc)
  have old: "cells_old ?s n" using n cells s(3) by (simp add: cells_old_def cell_epoch_states(3))
  obtain s1 r1 where s1: "ring_run ?s (0 + 5) s1" "ring_of n s1" "hr_epochs s1 = epochs_word (Suc n) r1" "r1 \<le> n"
    "hr_cells s1 = (hr_cells ?s)[n mod n := \<lparr>hi_item = 7, hi_state = enqueued_at n\<rparr>]" "\<not> hr_drop_handler s1" "rs_threads s1 = [RingIdle, RingIdle]"
    "r1 = (if n + n < n then Suc n - n else n)"
    by (rule steps_enqueue [OF run_start s(1,2) order_refl _ old s(4,5)]) (use n in simp_all)
  have r1: "r1 = n" using s1(8) n by simp
  have "unat (hr_size s1) = n" using s1(2) n by (auto simp: ring_defs unat_word64)
  then have test: "view_test (hr_size s1) (hatring_dequeue_epoch (hr_epochs s1)) (hatring_enqueue_epoch (hr_epochs s1)) (view_alloc s1) =
      Inl (ViewCell (word_of_nat n) (part_view [] (2 * n)))"
    using n by (simp add: view_test_def view_alloc_part [OF s1(2)] s1(3) r1 ring_words part_view_def ticket_less del: of_nat_Suc)
  let ?s2 = "set_thread s1 1 (RingView ViewStart)"
  let ?s3 = "s1\<lparr>rs_threads := [RingIdle, RingView (ViewCell (word_of_nat n) (part_view [] (2 * n)))]\<rparr>"
  have call: "ring_run ?s (Suc (0 + 5)) ?s2" by (rule run_call [OF s1(1)]) (simp_all add: s1(7) ring_entry_def)
  have "ring_step 1 ?s2 = ?s3"
    using test by (simp add: step_view ring_view_step_def set_thread_def s1(7) Let_def view_alloc_def)
  moreover have "ring_run ?s (Suc (Suc (0 + 5))) (ring_step 1 ?s2)" by (rule run_step [OF call]) (simp_all add: s1(7))
  moreover have "view_follows n n 0 ?s3"
  proof -
    have "unat (hatring_cell_epoch (enqueued_at n)) = n" using n by (simp only: ring_words unat_ticket)
    moreover have "set (hr_cells s1) \<subseteq> insert \<lparr>hi_item = 7, hi_state = enqueued_at n\<rparr> (set (hr_cells ?s))"
      unfolding s1(5) by (rule set_update_subset_insert)
    ultimately have "cells_old s1 (Suc n)" using old unfolding cells_old_def by fastforce
    moreover have "hr_cells s1 ! (n mod n) = \<lparr>hi_item = 7, hi_state = enqueued_at n\<rparr>" using s1(5) cells s(3) n by simp
    ultimately show ?thesis
      using s1(2,3,6) r1 unfolding view_follows_def by (auto simp: ring_defs cells_old_def part_view_def)
  qed
  ultimately show ?thesis by metis
qed

text \<open>The view stores an item for every item put, up to the end of its buffer, and then behind it.\<close>

lemma view_follows_all:
  assumes start: "ring_run s0 k s" "view_follows n n 0 s" and n: "n \<le> 2 ^ 30"
  shows "j \<le> 2 * n \<Longrightarrow> \<exists>k s. ring_run s0 k s \<and> view_follows n (n + j) j s"
proof (induction j)
  case 0
  then show ?case using start by auto
next
  case (Suc j)
  then obtain k s where "ring_run s0 k s" "view_follows n (n + j) j s" by auto
  then show ?case using view_round [of _ k s n "n + j" j] Suc.prems n by force
qed

lemma start_rooms:
  fixes h :: bool and m :: nat
  assumes "hatring_new num_buckets = Inr s" "num_buckets \<le> 2 ^ 31" "hatring_buckets num_buckets = Inr n"
  defines "s0 \<equiv> ring_system (hatring_set_drop_handler s h) m"
  shows "\<forall>pc \<in> set (rs_threads s0). view_room n pc" "2 * n = sizeof_hatring_cell * unat (hr_size s0) div sizeof_ptr"
proof -
  have "ring_of n s" using ring_holds_new [OF assms(1,2)] assms(3) by (auto simp: ring_holds_def sum.inject)
  then have "unat (hr_size s) = n" using ring_of_bounds [of n s] by (auto simp: ring_defs unat_word64)
  then show "\<forall>pc \<in> set (rs_threads s0). view_room n pc" "2 * n = sizeof_hatring_cell * unat (hr_size s0) div sizeof_ptr"
    by (simp_all add: s0_def ring_system_def hatring.defs hatring_set_drop_handler_def sizeof_hatring_cell_def sizeof_ptr_def)
qed

text \<open>In a reachable state no cell is as new as the newest ticket.\<close>

lemma known_old:
  assumes kn: "ring_known n s' r" and d: "ring_dispensers s' w r" and n: "0 < w"
  shows "cells_old s' (max w r)"
proof -
  have "unat (hatring_cell_epoch (hi_state c)) < max w r" if c: "c \<in> set (hr_cells s')" for c
  proof -
    have "known s' r c" using kn c unfolding ring_known_def by blast
    then consider "hi_state c = 0" | v where "hi_state c = HATRING_ENQUEUED OR ucast v" "(v, hi_item c) \<in> pairs (rs_puts s')"
      | v where "hi_state c = HATRING_DEQUEUED OR ucast v" "spent s' r v"
      unfolding cell_known_def by blast
    then show ?thesis
    proof cases
      case 1
      then show ?thesis using n cell_epoch_states(3) by simp
    next
      case (2 v)
      then have "v \<in> ticket_of ` set (rs_puts s')" unfolding pairs_def by force
      then have "unat v < w" using d dispenserD(5) unfolding ring_dispensers_def by blast
      then show ?thesis using 2 by (simp add: cell_epoch_or)
    next
      case (3 v)
      then show ?thesis by (simp add: cell_epoch_or spent_def less_max_iff_disj)
    qed
  qed
  then show ?thesis by (simp add: cells_old_def)
qed

lemma view_overruns:
  assumes run: "ring_run s0 k s" and f: "view_follows n w (2 * n) s" and w: "w < 2 ^ 32"
  shows "\<exists>s'. ring_run s0 (Suc k) s' \<and> rs_threads s' ! 1 = RingFailed OutOfBounds"
proof -
  obtain v where ring: "ring_of n s" and c: "hi_state (hr_cells s ! (w mod n)) = enqueued_at w"
    and th: "rs_threads s = [RingIdle, RingView (ViewCell (word_of_nat w) v)]" and v: "hv_num_items v = 2 * n" "length (hv_cells v) = 2 * n"
    using f unfolding view_follows_def by blast
  have "ring_step 1 s = set_thread s 1 (RingFailed OutOfBounds)"
    using th c v w cell_of_write(1) [OF ring_of_frame [OF ring], of w]
    by (simp add: step_view ring_view_step_def Let_def set_thread_def view_append_def ring_words)
  with run_step [OF run, of 1] th show ?thesis by (intro exI [of _ "ring_step 1 s"]) simp
qed

section \<open>Properties\<close>

lemma run_inv:
  assumes "hatring_new num_buckets = Inr s" "num_buckets \<le> 2 ^ 31" "hatring_buckets num_buckets = Inr n"
    and "ring_run (ring_system (hatring_set_drop_handler s h) m) k s'" "n + k < 2 ^ 32"
  shows "ring_inv n k s'" "hr_drop_handler s' = h"
  using ring_inv_run [OF assms(4) ring_inv_start [OF assms(1-3)] assms(5)]
  by (simp_all add: ring_system_def hatring_set_drop_handler_def hatring.extend_def)

text \<open>C11: In any interleaving of enqueues, dequeues and views of any number of threads, every item
  handed out was put into the ring under the same ticket; no ticket is written twice and none is handed out twice; and
  the tickets of what one thread puts, and of what one thread gets, increase: items of one producer reach one consumer
  in the order they were put. For runs short enough that tickets do not wrap.\<close>

theorem hatring_threads_tickets:
  assumes "hatring_new num_buckets = Inr s" "num_buckets \<le> 2 ^ 31" "hatring_buckets num_buckets = Inr n"
    and "ring_run (ring_system (hatring_set_drop_handler s h) m) k s'" "n + k < 2 ^ 32"
  shows "snd ` set (rs_gots s') \<subseteq> snd ` set (rs_puts s') \<and>
     distinct (map ticket_of (rs_puts s')) \<and> distinct (map ticket_of (rs_gots s')) \<and>
     (\<forall>i. sorted_wrt (<) (tickets_of i (rs_puts s')) \<and> sorted_wrt (<) (tickets_of i (rs_gots s')))"
proof -
  obtain w r where "ring_dispensers s' w r" "ring_known n s' r"
    using run_inv(1) [OF assms] unfolding ring_inv_def by blast
  then have "dispenser (holds wticket s') (rs_puts s') w" "dispenser (holds rticket s') (rs_gots s') r"
    "pairs (rs_gots s') \<subseteq> pairs (rs_puts s')"
    unfolding ring_dispensers_def ring_known_def by simp_all
  then show ?thesis using dispenserD(6,7) unfolding pairs_def by simp
qed

text \<open>C12: With a drop handler set, no interleaving loses an item or duplicates one: the items put into the ring
  are at every moment exactly those handed out, those given to the handler, those in the cells, and those a thread has taken out
  of a cell and is about to give to the handler.\<close>

theorem hatring_threads_conserve:
  assumes "hatring_new num_buckets = Inr s" "num_buckets \<le> 2 ^ 31" "hatring_buckets num_buckets = Inr n"
    and "ring_run (ring_system (hatring_set_drop_handler s True) m) k s'" "n + k < 2 ^ 32"
  shows "items (rs_puts s') =
     items (rs_gots s') + mset (hr_dropped s') + cell_items (hr_cells s') + drop_items (rs_threads s')"
  using run_inv [OF assms] unfolding ring_inv_def ring_conserves_def by blast

text \<open>C13: A thread inside an enqueue, a dequeue or a view of a shared ring returns if it runs alone from there,
  whatever the other threads left half done. An enqueue returns a ticket, with its item in the cell of that ticket (unless it had
  put it there before and was only about to call the drop handler); a dequeue returns its answer; a view that has stored fewer items than the ring
  has cells returns a view, without a store outside its buffer.\<close>

theorem hatring_solo_returns:
  assumes "hatring_new num_buckets = Inr s" "num_buckets \<le> 2 ^ 31" "hatring_buckets num_buckets = Inr n"
    and "ring_run (ring_system (hatring_set_drop_handler s h) m) k s'" "n + Suc k < 2 ^ 32"
    and "i < length (rs_threads s')"
  shows "case rs_threads s' ! i of
       RingEnq x p \<Rightarrow> \<exists>s'' w. run_alone (hatring_enqueue_step x) p s' = Some (s'', w) \<and>
         ((\<exists>v y. p = EnqDrop v y) \<or> cell_at s'' (enqueue_ix s'' w) = \<lparr>hi_item = x, hi_state = HATRING_ENQUEUED OR ucast w\<rparr>)
     | RingDeq with_epoch p \<Rightarrow>
         \<exists>s'' a. run_alone (if with_epoch then hatring_dequeue_w_epoch_step else hatring_dequeue_step) p s' = Some (s'', a)
     | RingView p \<Rightarrow> \<exists>a. run_alone hatring_view_step p s' = Some (s', a) \<and> (view_taken p < n \<longrightarrow> (\<exists>v. a = Inr v))
     | _ \<Rightarrow> True"
proof -
  obtain w r where b: "ring_bounds n k s' w r" and d: "ring_dispensers s' w r" and kn: "ring_known n s' r"
    using run_inv(1) [OF assms(1-4)] assms(5) unfolding ring_inv_def by auto
  have bs: "ring_of n s'" "hr_epochs s' = epochs_word w r" "Suc w < 2 ^ 32" "Suc r < 2 ^ 32" "pc_ok n (rs_threads s' ! i)"
    and n: "0 < w"
    using b assms(5,6) ring_of_bounds [of n s'] unfolding ring_bounds_def by auto
  have old: "cells_old s' (max w r)" by (rule known_old [OF kn d n])
  have enq: "\<exists>s'' w. run_alone (hatring_enqueue_step x) p s' = Some (s'', w) \<and>
      ((\<exists>v y. p = EnqDrop v y) \<or> cell_at s'' (enqueue_ix s'' w) = \<lparr>hi_item = x, hi_state = HATRING_ENQUEUED OR ucast w\<rparr>)"
    if "rs_threads s' ! i = RingEnq x p" for x p
  proof -
    have "(\<exists>v y. p = EnqDrop v y) \<or> enqueues x p s'" by (rule enqueues_ok [OF bs(1) old bs(2-4)]) (use bs(5) that in simp)
    moreover have "run_alone (hatring_enqueue_step x) (EnqDrop v y) s' = Some (drop_item s' y, v)" for v y by (rule run_done) simp
    ultimately show ?thesis unfolding enqueues_def by blast
  qed
  have deq: "\<exists>s'' a. run_alone (if we then hatring_dequeue_w_epoch_step else hatring_dequeue_step) p s' = Some (s'', a)" for we p
  proof -
    have "stale_ok (\<lambda>r w. Inr NothingFound)"
      "stale_ok (\<lambda>r w. if r + 1 = w then Inr NothingFound else Inl DeqPoll)" by (simp_all add: stale_ok_def)
    then have "returns (if we then hatring_dequeue_w_epoch_step else hatring_dequeue_step) p s'"
      using returns_dequeue [OF _ bs(2)] bs(3,4)
      by (simp add: hatring_dequeue_w_epoch_step_def hatring_dequeue_step_def)
    then show ?thesis by (auto simp: returns_def)
  qed
  have room: "view_room n (rs_threads s' ! i)"
    using run_rooms [OF assms(4), of n] start_rooms [OF assms(1-3)] nth_mem [OF assms(6)] by simp
  have view: "\<exists>a. run_alone hatring_view_step p s' = Some (s', a) \<and> (view_taken p < n \<longrightarrow> (\<exists>v. a = Inr v))"
    if "rs_threads s' ! i = RingView p" for p
    by (rule view_returns [OF bs(1,2)]) (use bs(3,4) room that in simp_all)
  show ?thesis using enq deq view by (cases "rs_threads s' ! i") simp_all
qed

theorem hatring_threads_tickets_witness:
  "ring_run (ring_system (hatring_set_drop_handler small_ring True) 2) 9 race_end \<and>
   rs_puts race_end = [(0, 16, 7)] \<and> distinct (map ticket_of (rs_puts race_end))"
  using hatring_threads_tickets [OF small_ring_new _ buckets_16 two_threads_run] two_threads_run two_threads_end(1)
  by simp

theorem hatring_threads_conserve_witness:
  "ring_run (ring_system (hatring_set_drop_handler small_ring True) 2) 9 race_end \<and>
   {#7#} = items (rs_gots race_end) + mset (hr_dropped race_end) + cell_items (hr_cells race_end) +
     drop_items (rs_threads race_end)"
  using hatring_threads_conserve [OF small_ring_new _ buckets_16 two_threads_run] two_threads_run two_threads_end(1)
  by simp

theorem hatring_solo_returns_witness:
  "ring_run (ring_system (hatring_set_drop_handler small_ring True) 2) 9 race_end \<and>
   (\<exists>s'' a. run_alone hatring_dequeue_step (DeqCas 0 16 17 \<lparr>hi_item = 7, hi_state = 0x8000000000000010\<rparr>) race_end = Some (s'', a))"
  using hatring_solo_returns [OF small_ring_new _ buckets_16 two_threads_run, of 1] two_threads_run two_threads_end(3)
  by simp

text \<open>C39: A view taken while another thread enqueues overruns its buffer. The loop of \<^verbatim>\<open>hatring_view\<close> is limited by a field that does
  not move, so it follows the write ticket: on any new ring (of up to \<open>2 ^ 30\<close> cells), with two threads, there is a run in which the
  view stores outside the memory it allocated.\<close>

theorem hatring_view_overflows:
  assumes "hatring_new num_buckets = Inr s" "num_buckets \<le> 2 ^ 31" "hatring_buckets num_buckets = Inr n" "n \<le> 2 ^ 30"
  shows "\<exists>k s'. ring_run (ring_system s 2) k s' \<and> rs_threads s' ! 1 = RingFailed OutOfBounds"
proof -
  obtain k s1 where "ring_run (ring_system s 2) k s1" "view_follows n n 0 s1" using view_follows_start [OF assms] by blast
  from view_follows_all [OF this assms(4), of "2 * n"] obtain k s2 where
    "ring_run (ring_system s 2) k s2" "view_follows n (n + 2 * n) (2 * n) s2" by auto
  then show ?thesis using view_overruns [of _ k s2 n "n + 2 * n"] assms(4) by fastforce
qed

theorem hatring_view_overflows_witness:
  "hatring_new 16 = Inr small_ring \<and>
   (\<exists>k s'. ring_run (ring_system small_ring 2) k s' \<and> rs_threads s' ! 1 = RingFailed OutOfBounds)"
  using hatring_view_overflows [OF small_ring_new _ buckets_16] small_ring_new by simp

end
