(* ===== verification/Segment_Queue.thy ===== *)
theory Segment_Queue
  imports Mmm
begin

text \<open>
  \<^verbatim>\<open>src/hatrack/queue/queue.c\<close> and \<^verbatim>\<open>q64.c\<close>: a queue as a chain of segments, arrays of cells that writers and
  readers claim by adding to an index. The two files are the same code over different cells: \<^verbatim>\<open>queue\<close> keeps an
  item with a state word, \<^verbatim>\<open>q64\<close> packs the state into the two low bits of the item. The model has the code
  once, over a \<open>cell_codec\<close>, and the two codecs.

  Each operation is a step function with one access to shared memory per step; a call of the memory
  manager is one step, and every access to a segment reads the memory manager's cell for it first, so that touching a
  freed segment is \<open>UseAfterFree\<close>. The theorems are about the calls of one thread; the last two run one operation
  from a state that another thread has changed under it.
\<close>

section \<open>Definitions\<close>

record 'c cell_codec =
  cc_empty :: 'c
  cc_too_slow :: 'c
  cc_pack :: "ptr \<Rightarrow> 'c"
  cc_unpack :: "'c \<Rightarrow> ptr"
  cc_sizeof :: nat
  cc_name :: string

record 'c segment =
  sg_next :: "nat option"
  sg_size :: nat
  sg_enqueue_index :: nat
  sg_dequeue_index :: nat
  sg_cells :: "'c list"

record 'c seg_queue =
  sq_enqueue_segment :: nat
  sq_dequeue_segment :: nat
  sq_default_segment_size :: nat
  sq_help_needed :: nat
  sq_len :: nat
  sq_segments :: "nat \<Rightarrow> 'c segment"
  sq_mmm :: mmm

record queue_item =
  qi_item :: ptr
  qi_state :: nat

definition QUEUE_EMPTY :: nat where "QUEUE_EMPTY = 0"
definition QUEUE_TOOSLOW :: nat where "QUEUE_TOOSLOW = 1"
definition QUEUE_USED :: nat where "QUEUE_USED = 2"

definition queue_codec :: "queue_item cell_codec" where
  "queue_codec = \<lparr>cc_empty = \<lparr>qi_item = 0, qi_state = QUEUE_EMPTY\<rparr>,
     cc_too_slow = \<lparr>qi_item = 0, qi_state = QUEUE_TOOSLOW\<rparr>,
     cc_pack = (\<lambda>item. \<lparr>qi_item = item, qi_state = QUEUE_USED\<rparr>),
     cc_unpack = qi_item, cc_sizeof = 16, cc_name = ''queue''\<rparr>"

definition Q64_EMPTY :: "64 word" where "Q64_EMPTY = 0"
definition Q64_TOOSLOW :: "64 word" where "Q64_TOOSLOW = 1"
definition Q64_USED :: "64 word" where "Q64_USED = 2"

definition value_mask :: "64 word" where
  "value_mask = NOT (Q64_TOOSLOW OR Q64_USED)"

definition q64_codec :: "(64 word) cell_codec" where
  "q64_codec = \<lparr>cc_empty = Q64_EMPTY, cc_too_slow = Q64_TOOSLOW,
     cc_pack = (\<lambda>item. (item AND value_mask) OR Q64_USED),
     cc_unpack = (\<lambda>cell. cell AND value_mask), cc_sizeof = 8, cc_name = ''q64''\<rparr>"

definition QUEUE_HELP_STEPS :: nat where "QUEUE_HELP_STEPS = 4"
definition QUEUE_HELP_VALUE :: nat where "QUEUE_HELP_VALUE = push_bit QUEUE_HELP_STEPS 1"
definition QSIZE_LOG_DEFAULT :: int where "QSIZE_LOG_DEFAULT = 14"
definition QSIZE_LOG_MIN :: int where "QSIZE_LOG_MIN = 6"
definition QSIZE_LOG_MAX :: int where "QSIZE_LOG_MAX = 25"

definition sizeof_segment :: nat where "sizeof_segment = 32"
definition sizeof_queue :: nat where "sizeof_queue = 48"

definition queue_new_segment :: "'c cell_codec \<Rightarrow> 'c seg_queue \<Rightarrow> nat \<Rightarrow> 'c seg_queue \<times> nat" where
  "queue_new_segment codec self num_cells =
     (let len = wrap64 (sizeof_segment + cc_sizeof codec * num_cells);
          (m, ret) = mmm_alloc_committed (sq_mmm self) len
      in (self\<lparr>sq_mmm := m,
               sq_segments := (sq_segments self)(ret :=
                 \<lparr>sg_next = None, sg_size = num_cells, sg_enqueue_index = 0, sg_dequeue_index = 0,
                  sg_cells = replicate num_cells (cc_empty codec)\<rparr>)\<rparr>, ret))"

text \<open>\<open>queue_init_size\<close> writes every field of memory the caller provides; \<open>sq_segments\<close> is what lies behind
  the memory manager's cells already.\<close>

definition queue_init_size ::
  "'c cell_codec \<Rightarrow> (nat \<Rightarrow> 'c segment) \<Rightarrow> mmm \<Rightarrow> int \<Rightarrow> 'c seg_queue outcome" where
  "queue_init_size codec segs m size_log =
     (if size_log \<noteq> 0 \<and> (size_log < QSIZE_LOG_MIN \<or> QSIZE_LOG_MAX < size_log)
      then Inl (Panic (''invalid size_log value for '' @ cc_name codec @ ''_init_size''))
      else let size_log = (if size_log = 0 then QSIZE_LOG_DEFAULT else size_log);
               seg_cells = push_bit (nat size_log) 1;
               self = \<lparr>sq_enqueue_segment = 0, sq_dequeue_segment = 0, sq_default_segment_size = seg_cells,
                       sq_help_needed = 0, sq_len = 0, sq_segments = segs, sq_mmm = m\<rparr>;
               (self, initial_segment) = queue_new_segment codec self seg_cells
           in Inr (self\<lparr>sq_enqueue_segment := initial_segment, sq_dequeue_segment := initial_segment\<rparr>))"

definition queue_init :: "'c cell_codec \<Rightarrow> (nat \<Rightarrow> 'c segment) \<Rightarrow> mmm \<Rightarrow> 'c seg_queue outcome" where
  "queue_init codec segs m = queue_init_size codec segs m QSIZE_LOG_DEFAULT"

definition queue_new_size :: "'c cell_codec \<Rightarrow> (nat \<Rightarrow> 'c segment) \<Rightarrow> mmm \<Rightarrow> int \<Rightarrow> 'c seg_queue outcome" where
  "queue_new_size codec segs m size' = queue_init_size codec segs m size'"

definition queue_new :: "'c cell_codec \<Rightarrow> (nat \<Rightarrow> 'c segment) \<Rightarrow> mmm \<Rightarrow> 'c seg_queue outcome" where
  "queue_new codec segs m = queue_new_size codec segs m QSIZE_LOG_DEFAULT"

text \<open>A segment behind a pointer.\<close>

definition read_segment :: "'c seg_queue \<Rightarrow> nat \<Rightarrow> 'c segment outcome" where
  "read_segment self p = and_then (mmm_get_header (sq_mmm self) p) (\<lambda>h. Inr (sq_segments self p))"

definition set_segment :: "'c seg_queue \<Rightarrow> nat \<Rightarrow> 'c segment \<Rightarrow> 'c seg_queue" where
  "set_segment self p s = self\<lparr>sq_segments := (sq_segments self)(p := s)\<rparr>"

partial_function (option) queue_cleanup_loop :: "'c seg_queue \<Rightarrow> nat option \<Rightarrow> 'c seg_queue outcome option" where
  "queue_cleanup_loop self cur =
     (case cur of
        None \<Rightarrow> Some (Inr self)
      | Some p \<Rightarrow>
          (case read_segment self p of
             Inl e \<Rightarrow> Some (Inl e)
           | Inr s \<Rightarrow>
               (case mmm_retire_unused (sq_mmm self) p of
                  Inl e \<Rightarrow> Some (Inl e)
                | Inr m \<Rightarrow> queue_cleanup_loop (self\<lparr>sq_mmm := m\<rparr>) (sg_next s))))"

definition queue_cleanup :: "'c seg_queue \<Rightarrow> 'c seg_queue outcome option" where
  "queue_cleanup self = queue_cleanup_loop self (Some (sq_dequeue_segment self))"

definition queue_delete :: "'c seg_queue \<Rightarrow> ('c seg_queue \<times> nat) outcome option" where
  "queue_delete self = map_option (\<lambda>r. and_then r (\<lambda>self. Inr (self, sizeof_queue))) (queue_cleanup self)"

definition queue_len :: "'c seg_queue \<Rightarrow> nat" where
  "queue_len self = sq_len self"

definition queue_len_mmm :: "'c seg_queue \<Rightarrow> mmm_thread \<Rightarrow> nat" where
  "queue_len_mmm self thread = queue_len self"

type_synonym 'c queue_state = "'c seg_queue \<times> mmm_thread"

subsection \<open>Enqueue\<close>

text \<open>
  The points of \<^verbatim>\<open>queue_enqueue_mmm\<close>. The locals are the segment, \<^verbatim>\<open>end_size\<close> (read once, from the first
  segment), \<^verbatim>\<open>step\<close> and \<^verbatim>\<open>need_help\<close>; then the dequeue segment read with the enqueue segment, the new segment,
  and \<^verbatim>\<open>need_to_enqueue\<close>.
\<close>

datatype queue_enqueue_pc =
    QStart
  | QSegments
  | QFirst nat
  | QCell nat nat nat nat bool              \<comment> \<open>segment, end, index, step, help: CAS the cell\<close>
  | QClaim nat nat nat bool                 \<comment> \<open>add \<^verbatim>\<open>step\<close> to the enqueue index\<close>
  | QHelp nat nat nat                       \<comment> \<open>ask for help\<close>
  | QReread nat nat nat bool bool           \<comment> \<open>read the segments again; whether help was just asked for\<close>
  | QNeeded nat nat nat bool nat            \<comment> \<open>does anyone need help?\<close>
  | QAlloc nat nat nat bool nat bool        \<comment> \<open>allocate a segment, of double size or not\<close>
  | QLink nat nat nat bool nat nat          \<comment> \<open>CAS the segment's \<^verbatim>\<open>next\<close>\<close>
  | QDiscard nat nat nat bool nat nat nat   \<comment> \<open>someone else linked one: free ours\<close>
  | QInstall nat nat nat bool nat nat bool  \<comment> \<open>CAS the queue's segments\<close>
  | QUnhelp
  | QEnd
  | QLen

text \<open>The loop condition, and what follows the loop up to the next shared access.\<close>

definition enqueue_test :: "nat \<Rightarrow> nat \<Rightarrow> nat \<Rightarrow> nat \<Rightarrow> bool \<Rightarrow> queue_enqueue_pc" where
  "enqueue_test segment end_size cur_ix step need_help =
     (if cur_ix < end_size then QCell segment end_size cur_ix step need_help
      else if QUEUE_HELP_VALUE \<le> step \<and> \<not> need_help then QHelp segment end_size step
      else QReread segment end_size step need_help False)"

definition enqueue_leave :: "bool \<Rightarrow> queue_enqueue_pc" where
  "enqueue_leave need_help = (if need_help then QUnhelp else QEnd)"

fun queue_enqueue_step ::
  "'c cell_codec \<Rightarrow> ptr \<Rightarrow> queue_enqueue_pc \<Rightarrow> 'c queue_state \<Rightarrow>
   'c queue_state \<times> (queue_enqueue_pc + unit outcome)" where
  "queue_enqueue_step codec item QStart (self, thread) =
     or_fail (self, thread) (mmm_start_basic_op (sq_mmm self) thread) (\<lambda>m.
       ((self\<lparr>sq_mmm := m\<rparr>, thread), Inl QSegments))"
| "queue_enqueue_step codec item QSegments (self, thread) =
     ((self, thread), Inl (QFirst (sq_enqueue_segment self)))"
| "queue_enqueue_step codec item (QFirst segment) (self, thread) =
     or_fail (self, thread) (read_segment self segment) (\<lambda>s.
       ((set_segment self segment (s\<lparr>sg_enqueue_index := wrap64 (sg_enqueue_index s + 1)\<rparr>), thread),
        Inl (enqueue_test segment (sg_size s) (sg_enqueue_index s) 1 False)))"
| "queue_enqueue_step codec item (QCell segment end_size cur_ix step need_help) (self, thread) =
     or_fail (self, thread) (read_segment self segment) (\<lambda>s.
       or_fail (self, thread) (read_at (sg_cells s) cur_ix) (\<lambda>cell.
         if cell = cc_empty codec
         then ((set_segment self segment (s\<lparr>sg_cells := (sg_cells s)[cur_ix := cc_pack codec item]\<rparr>), thread),
               Inl (enqueue_leave need_help))
         else ((self, thread), Inl (QClaim segment end_size (wrap64 (step * 2)) need_help))))"
| "queue_enqueue_step codec item (QClaim segment end_size step need_help) (self, thread) =
     or_fail (self, thread) (read_segment self segment) (\<lambda>s.
       ((set_segment self segment (s\<lparr>sg_enqueue_index := wrap64 (sg_enqueue_index s + step)\<rparr>), thread),
        Inl (enqueue_test segment end_size (sg_enqueue_index s) step need_help)))"
| "queue_enqueue_step codec item (QHelp segment end_size step) (self, thread) =
     ((self\<lparr>sq_help_needed := wrap64 (sq_help_needed self + 1)\<rparr>, thread),
      Inl (QReread segment end_size step True True))"
| "queue_enqueue_step codec item (QReread segment end_size step need_help asked) (self, thread) =
     ((self, thread),
      Inl (if sq_enqueue_segment self \<noteq> segment
           then QClaim (sq_enqueue_segment self) end_size step need_help
           else if asked then QAlloc segment end_size step need_help (sq_dequeue_segment self) True
           else QNeeded segment end_size step need_help (sq_dequeue_segment self)))"
| "queue_enqueue_step codec item (QNeeded segment end_size step need_help dequeue_segment) (self, thread) =
     ((self, thread),
      Inl (QAlloc segment end_size step need_help dequeue_segment (sq_help_needed self \<noteq> 0)))"
| "queue_enqueue_step codec item (QAlloc segment end_size step need_help dequeue_segment double) (self, thread) =
     or_fail (self, thread) (read_segment self segment) (\<lambda>s.
       let new_size = (if double then wrap64 (sg_size s * 2) else sq_default_segment_size self);
           (self, new_segment) = queue_new_segment codec self new_size;
           n = sq_segments self new_segment
       in or_fail (self, thread) (read_at (sg_cells n) 0) (\<lambda>_.
            ((set_segment self new_segment
                (n\<lparr>sg_enqueue_index := 1, sg_cells := (sg_cells n)[0 := cc_pack codec item]\<rparr>), thread),
             Inl (QLink segment end_size step need_help dequeue_segment new_segment))))"
| "queue_enqueue_step codec item (QLink segment end_size step need_help dequeue_segment new_segment) (self, thread) =
     or_fail (self, thread) (read_segment self segment) (\<lambda>s.
       case sg_next s of
         None \<Rightarrow> ((set_segment self segment (s\<lparr>sg_next := Some new_segment\<rparr>), thread),
                  Inl (QInstall segment end_size step need_help dequeue_segment new_segment False))
       | Some other \<Rightarrow> ((self, thread),
                  Inl (QDiscard segment end_size step need_help dequeue_segment new_segment other)))"
| "queue_enqueue_step codec item (QDiscard segment end_size step need_help dequeue_segment new_segment other) (self, thread) =
     or_fail (self, thread) (mmm_retire_unused (sq_mmm self) new_segment) (\<lambda>m.
       ((self\<lparr>sq_mmm := m\<rparr>, thread),
        Inl (QInstall segment end_size step need_help dequeue_segment other True)))"
| "queue_enqueue_step codec item (QInstall segment end_size step need_help dequeue_segment new_segment need_to_enqueue) (self, thread) =
     (let after = (if need_to_enqueue then QClaim new_segment end_size step need_help else enqueue_leave need_help)
      in if sq_enqueue_segment self = segment \<and> sq_dequeue_segment self = dequeue_segment
         then ((self\<lparr>sq_enqueue_segment := new_segment\<rparr>, thread), Inl after)
         else ((self, thread),
               Inl (if sq_enqueue_segment self \<noteq> segment then after
                    else QInstall segment end_size step need_help (sq_dequeue_segment self) new_segment
                           need_to_enqueue)))"
| "queue_enqueue_step codec item QUnhelp (self, thread) =
     ((self\<lparr>sq_help_needed := wrap64 (sq_help_needed self + 2 ^ 64 - 1)\<rparr>, thread), Inl QEnd)"
| "queue_enqueue_step codec item QEnd (self, thread) =
     or_fail (self, thread) (mmm_end_op (sq_mmm self) thread) (\<lambda>m. ((self\<lparr>sq_mmm := m\<rparr>, thread), Inl QLen))"
| "queue_enqueue_step codec item QLen (self, thread) =
     ((self\<lparr>sq_len := wrap64 (sq_len self + 1)\<rparr>, thread), Inr (Inr ()))"

subsection \<open>Dequeue\<close>

text \<open>
  The points of \<^verbatim>\<open>queue_dequeue_mmm\<close>. The dequeue segment in the local \<^verbatim>\<open>segments\<close> is always \<^verbatim>\<open>segment\<close>, so the
  locals are the enqueue segment there and \<^verbatim>\<open>segment\<close>.
\<close>

datatype queue_dequeue_pc =
    DStart
  | DSegments
  | DIndex nat nat
  | DHead nat nat nat
  | DClaim nat nat
  | DCell nat nat nat
  | DLen ptr
  | DFound ptr
  | DNone
  | DNext nat nat
  | DInstall nat nat nat
  | DRetire nat nat nat

fun queue_dequeue_step ::
  "'c cell_codec \<Rightarrow> queue_dequeue_pc \<Rightarrow> 'c queue_state \<Rightarrow>
   'c queue_state \<times> (queue_dequeue_pc + (ptr \<times> bool) outcome)" where
  "queue_dequeue_step codec DStart (self, thread) =
     or_fail (self, thread) (mmm_start_basic_op (sq_mmm self) thread) (\<lambda>m.
       ((self\<lparr>sq_mmm := m\<rparr>, thread), Inl DSegments))"
| "queue_dequeue_step codec DSegments (self, thread) =
     ((self, thread), Inl (DIndex (sq_enqueue_segment self) (sq_dequeue_segment self)))"
| "queue_dequeue_step codec (DIndex enqueue_segment segment) (self, thread) =
     or_fail (self, thread) (read_segment self segment) (\<lambda>s.
       ((self, thread), Inl (DHead enqueue_segment segment (sg_dequeue_index s))))"
| "queue_dequeue_step codec (DHead enqueue_segment segment cur_ix) (self, thread) =
     or_fail (self, thread) (read_segment self segment) (\<lambda>s.
       ((self, thread),
        Inl (if sg_size s \<le> cur_ix then DNext enqueue_segment segment
             else if sg_enqueue_index s \<le> cur_ix then DNone
             else DClaim enqueue_segment segment)))"
| "queue_dequeue_step codec (DClaim enqueue_segment segment) (self, thread) =
     or_fail (self, thread) (read_segment self segment) (\<lambda>s.
       let cur_ix = sg_dequeue_index s
       in ((set_segment self segment (s\<lparr>sg_dequeue_index := wrap64 (cur_ix + 1)\<rparr>), thread),
           Inl (if sg_size s \<le> cur_ix then DNext enqueue_segment segment
                else DCell enqueue_segment segment cur_ix)))"
| "queue_dequeue_step codec (DCell enqueue_segment segment cur_ix) (self, thread) =
     or_fail (self, thread) (read_segment self segment) (\<lambda>s.
       or_fail (self, thread) (read_at (sg_cells s) cur_ix) (\<lambda>cell.
         if cell = cc_empty codec
         then ((set_segment self segment (s\<lparr>sg_cells := (sg_cells s)[cur_ix := cc_too_slow codec]\<rparr>), thread),
               Inl (DIndex enqueue_segment segment))
         else ((self, thread), Inl (DLen (cc_unpack codec cell)))))"
| "queue_dequeue_step codec (DLen ret) (self, thread) =
     ((self\<lparr>sq_len := wrap64 (sq_len self + 2 ^ 64 - 1)\<rparr>, thread), Inl (DFound ret))"
| "queue_dequeue_step codec (DFound ret) (self, thread) =
     or_fail (self, thread) (mmm_end_op (sq_mmm self) thread) (\<lambda>m.
       ((self\<lparr>sq_mmm := m\<rparr>, thread), Inr (Inr (ret, True))))"
| "queue_dequeue_step codec DNone (self, thread) =
     or_fail (self, thread) (mmm_end_op (sq_mmm self) thread) (\<lambda>m.
       ((self\<lparr>sq_mmm := m\<rparr>, thread), Inr (Inr (0, False))))"
| "queue_dequeue_step codec (DNext enqueue_segment segment) (self, thread) =
     or_fail (self, thread) (read_segment self segment) (\<lambda>s.
       ((self, thread),
        Inl (case sg_next s of None \<Rightarrow> DNone | Some new_segment \<Rightarrow> DInstall enqueue_segment segment new_segment)))"
| "queue_dequeue_step codec (DInstall enqueue_segment segment new_segment) (self, thread) =
     (if sq_enqueue_segment self = enqueue_segment \<and> sq_dequeue_segment self = segment
      then ((self\<lparr>sq_dequeue_segment := new_segment\<rparr>, thread), Inl (DRetire enqueue_segment segment new_segment))
      else ((self, thread),
            Inl (if sq_dequeue_segment self \<noteq> segment
                 then DIndex (sq_enqueue_segment self) (sq_dequeue_segment self)
                 else DInstall (sq_enqueue_segment self) segment new_segment)))"
| "queue_dequeue_step codec (DRetire enqueue_segment segment new_segment) (self, thread) =
     or_fail (self, thread) (mmm_retire (sq_mmm self) thread segment) (\<lambda>(m, thread).
       ((self\<lparr>sq_mmm := m\<rparr>, thread), Inl (DIndex enqueue_segment new_segment)))"

subsection \<open>One thread\<close>

definition queue_enqueue_mmm :: "'c cell_codec \<Rightarrow> 'c queue_state \<Rightarrow> ptr \<Rightarrow> ('c queue_state \<times> unit outcome) option" where
  "queue_enqueue_mmm codec st item = run_alone (queue_enqueue_step codec item) QStart st"

definition queue_dequeue_mmm :: "'c cell_codec \<Rightarrow> 'c queue_state \<Rightarrow> ('c queue_state \<times> (ptr \<times> bool) outcome) option" where
  "queue_dequeue_mmm codec st = run_alone (queue_dequeue_step codec) DStart st"

text \<open>\<^verbatim>\<open>queue_enqueue\<close> and \<^verbatim>\<open>queue_dequeue\<close> find the calling thread's record first.\<close>

definition queue_enqueue :: "'c cell_codec \<Rightarrow> 'c queue_state \<Rightarrow> ptr \<Rightarrow> ('c queue_state \<times> unit outcome) option" where
  "queue_enqueue codec st item =
     (case mmm_thread_acquire (sq_mmm (fst st)) (snd st) of
        Inl e \<Rightarrow> Some (st, Inl e)
      | Inr (m, thread) \<Rightarrow> queue_enqueue_mmm codec ((fst st)\<lparr>sq_mmm := m\<rparr>, thread) item)"

definition queue_dequeue :: "'c cell_codec \<Rightarrow> 'c queue_state \<Rightarrow> ('c queue_state \<times> (ptr \<times> bool) outcome) option" where
  "queue_dequeue codec st =
     (case mmm_thread_acquire (sq_mmm (fst st)) (snd st) of
        Inl e \<Rightarrow> Some (st, Inl e)
      | Inr (m, thread) \<Rightarrow> queue_dequeue_mmm codec ((fst st)\<lparr>sq_mmm := m\<rparr>, thread))"

text \<open>The functions of \<^verbatim>\<open>q64.c\<close> are those of \<^verbatim>\<open>queue.c\<close> on the other cells.\<close>

definition q64_new_segment :: "(64 word) seg_queue \<Rightarrow> nat \<Rightarrow> (64 word) seg_queue \<times> nat" where
  "q64_new_segment = queue_new_segment q64_codec"

definition q64_init_size :: "(nat \<Rightarrow> (64 word) segment) \<Rightarrow> mmm \<Rightarrow> int \<Rightarrow> (64 word) seg_queue outcome" where
  "q64_init_size = queue_init_size q64_codec"

definition q64_init :: "(nat \<Rightarrow> (64 word) segment) \<Rightarrow> mmm \<Rightarrow> (64 word) seg_queue outcome" where
  "q64_init = queue_init q64_codec"

definition q64_new_size :: "(nat \<Rightarrow> (64 word) segment) \<Rightarrow> mmm \<Rightarrow> int \<Rightarrow> (64 word) seg_queue outcome" where
  "q64_new_size = queue_new_size q64_codec"

definition q64_new :: "(nat \<Rightarrow> (64 word) segment) \<Rightarrow> mmm \<Rightarrow> (64 word) seg_queue outcome" where
  "q64_new = queue_new q64_codec"

definition q64_enqueue_mmm :: "(64 word) queue_state \<Rightarrow> ptr \<Rightarrow> ((64 word) queue_state \<times> unit outcome) option" where
  "q64_enqueue_mmm = queue_enqueue_mmm q64_codec"

definition q64_dequeue_mmm :: "(64 word) queue_state \<Rightarrow> ((64 word) queue_state \<times> (ptr \<times> bool) outcome) option" where
  "q64_dequeue_mmm = queue_dequeue_mmm q64_codec"

definition q64_enqueue :: "(64 word) queue_state \<Rightarrow> ptr \<Rightarrow> ((64 word) queue_state \<times> unit outcome) option" where
  "q64_enqueue = queue_enqueue q64_codec"

definition q64_dequeue :: "(64 word) queue_state \<Rightarrow> ((64 word) queue_state \<times> (ptr \<times> bool) outcome) option" where
  "q64_dequeue = queue_dequeue q64_codec"

definition q64_cleanup :: "(64 word) seg_queue \<Rightarrow> (64 word) seg_queue outcome option" where
  "q64_cleanup = queue_cleanup"

definition q64_delete :: "(64 word) seg_queue \<Rightarrow> ((64 word) seg_queue \<times> nat) outcome option" where
  "q64_delete = queue_delete"

definition q64_len :: "(64 word) seg_queue \<Rightarrow> nat" where
  "q64_len = queue_len"

definition q64_len_mmm :: "(64 word) seg_queue \<Rightarrow> mmm_thread \<Rightarrow> nat" where
  "q64_len_mmm = queue_len_mmm"

section \<open>The queue as a list\<close>

text \<open>What a codec promises: no item looks like an empty cell, and items come back as they went in.\<close>

locale queue_cells =
  fixes codec :: "'c cell_codec" and ok_item :: "ptr \<Rightarrow> bool"
  assumes pack_not_empty: "ok_item x \<Longrightarrow> cc_pack codec x \<noteq> cc_empty codec"
    and unpack_pack: "ok_item x \<Longrightarrow> cc_unpack codec (cc_pack codec x) = x"

text \<open>
  A segment holds the items \<open>xs\<close>: its cells before the dequeue index are spent, then come the items, then
  empty cells; a segment with a successor has none of those left.
\<close>

definition seg_ok :: "'c cell_codec \<Rightarrow> 'c segment \<Rightarrow> ptr list \<Rightarrow> nat option \<Rightarrow> bool" where
  "seg_ok codec s xs nx \<longleftrightarrow>
     sg_next s = nx \<and> 0 < sg_size s \<and> sg_size s \<le> 2 ^ 25 \<and> sg_size s = length (sg_cells s) \<and>
     (\<exists>junk r. sg_cells s = junk @ map (cc_pack codec) xs @ replicate r (cc_empty codec) \<and>
        length junk = sg_dequeue_index s \<and>
        (if nx = None then sg_enqueue_index s = sg_dequeue_index s + length xs
         else r = 0 \<and> sg_size s \<le> sg_enqueue_index s))"

fun seg_chain :: "'c cell_codec \<Rightarrow> (nat \<Rightarrow> 'c segment) \<Rightarrow> nat list \<Rightarrow> ptr list list \<Rightarrow> bool" where
  "seg_chain codec f [a] [xs] \<longleftrightarrow> seg_ok codec (f a) xs None"
| "seg_chain codec f (a # b # as) (xs # ys # xss) \<longleftrightarrow>
     seg_ok codec (f a) xs (Some b) \<and> ys \<noteq> [] \<and> seg_chain codec f (b # as) (ys # xss)"
| "seg_chain codec f _ _ \<longleftrightarrow> False"

definition queue_inv ::
  "'c cell_codec \<Rightarrow> (ptr \<Rightarrow> bool) \<Rightarrow> 'c queue_state \<Rightarrow> nat list \<Rightarrow> ptr list list \<Rightarrow> bool" where
  "queue_inv codec ok_item st as xss \<longleftrightarrow>
     (case st of (q, thread) \<Rightarrow>
        seg_chain codec (sq_segments q) as xss \<and> hd as = sq_dequeue_segment q \<and> last as = sq_enqueue_segment q \<and>
        distinct as \<and> (\<forall>a \<in> set as. allocated (sq_mmm q) a) \<and> mmm_ok (sq_mmm q) thread \<and>
        set as \<inter> set (mt_retire_list thread) = {} \<and> sq_help_needed q = 0 \<and>
        0 < sq_default_segment_size q \<and> sq_default_segment_size q \<le> 2 ^ 25 \<and>
        sq_len q = length (concat xss) \<and> list_all ok_item (concat xss))"

text \<open>The points of a solo run, unfolded one by one.\<close>

lemmas enqueue_run =
  run_alone.simps [of "queue_enqueue_step c x" "QStart" for c x ]
  run_alone.simps [of "queue_enqueue_step c x" "QSegments" for c x ]
  run_alone.simps [of "queue_enqueue_step c x" "QFirst a" for c x a]
  run_alone.simps [of "queue_enqueue_step c x" "QCell a e i k b" for c x a e i k b]
  run_alone.simps [of "queue_enqueue_step c x" "QReread a e k b d" for c x a e k b d]
  run_alone.simps [of "queue_enqueue_step c x" "QNeeded a e k b n" for c x a e k b n]
  run_alone.simps [of "queue_enqueue_step c x" "QAlloc a e k b n d" for c x a e k b n d]
  run_alone.simps [of "queue_enqueue_step c x" "QLink a e k b n m" for c x a e k b n m]
  run_alone.simps [of "queue_enqueue_step c x" "QInstall a e k b n m d" for c x a e k b n m d]
  run_alone.simps [of "queue_enqueue_step c x" "QEnd" for c x ]
  run_alone.simps [of "queue_enqueue_step c x" "QLen" for c x ]

lemmas dequeue_run =
  run_alone.simps [of "queue_dequeue_step c" "DStart" for c ]
  run_alone.simps [of "queue_dequeue_step c" "DSegments" for c ]
  run_alone.simps [of "queue_dequeue_step c" "DIndex e a" for c e a]
  run_alone.simps [of "queue_dequeue_step c" "DHead e a i" for c e a i]
  run_alone.simps [of "queue_dequeue_step c" "DClaim e a" for c e a]
  run_alone.simps [of "queue_dequeue_step c" "DCell e a i" for c e a i]
  run_alone.simps [of "queue_dequeue_step c" "DLen v" for c v]
  run_alone.simps [of "queue_dequeue_step c" "DFound v" for c v]
  run_alone.simps [of "queue_dequeue_step c" "DNone" for c ]
  run_alone.simps [of "queue_dequeue_step c" "DNext e a" for c e a]
  run_alone.simps [of "queue_dequeue_step c" "DInstall e a n" for c e a n]
  run_alone.simps [of "queue_dequeue_step c" "DRetire e a n" for c e a n]

lemma read_segment_allocated [simp]: "allocated (sq_mmm q) p \<Longrightarrow> read_segment q p = Inr (sq_segments q p)"
  using get_header_allocated [of "sq_mmm q" p] by (auto simp: read_segment_def)

lemma queue_invD:
  assumes "queue_inv codec ok_item (q, thread) as xss"
  shows "seg_chain codec (sq_segments q) as xss" "hd as = sq_dequeue_segment q" "last as = sq_enqueue_segment q"
    "distinct as" "\<And>a. a \<in> set as \<Longrightarrow> allocated (sq_mmm q) a" "mmm_ok (sq_mmm q) thread"
    "set as \<inter> set (mt_retire_list thread) = {}" "sq_help_needed q = 0" "0 < sq_default_segment_size q"
    "sq_default_segment_size q \<le> 2 ^ 25" "sq_len q = length (concat xss)" "list_all ok_item (concat xss)"
  using assms unfolding queue_inv_def by simp_all

text \<open>The last segment, and the chain with another last segment.\<close>

lemma seg_chain_ne: "seg_chain codec f as xss \<Longrightarrow> as \<noteq> [] \<and> xss \<noteq> []"
  by (induction codec f as xss rule: seg_chain.induct) auto

lemma seg_chain_cong: "seg_chain codec f as xss \<Longrightarrow> (\<And>a. a \<in> set as \<Longrightarrow> g a = f a) \<Longrightarrow> seg_chain codec g as xss"
  by (induction codec f as xss rule: seg_chain.induct) auto

lemma seg_chain_last: "seg_chain codec f as xss \<Longrightarrow> seg_ok codec (f (last as)) (last xss) None"
  by (induction codec f as xss rule: seg_chain.induct) auto

lemma seg_chain_grow_last:
  "seg_chain codec f as xss \<Longrightarrow> distinct as \<Longrightarrow> seg_ok codec s (last xss @ [x]) None \<Longrightarrow>
   seg_chain codec (f(last as := s)) as (butlast xss @ [last xss @ [x]])"
proof (induction codec f as xss rule: seg_chain.induct)
  case (2 codec f a b as xs ys xss)
  define l where "l = last (b # as)"
  have l: "last (a # b # as) = l" "a \<noteq> l" using 2(3) by (auto simp: l_def)
  have "seg_chain codec (f(l := s)) (b # as) (butlast (ys # xss) @ [last (ys # xss) @ [x]])"
    unfolding l_def by (rule 2(1)) (use 2(2-4) in auto)
  then show ?case unfolding l using 2(2) l(2) by (cases xss) (simp_all add: fun_upd_def)
qed auto

lemma seg_chain_append:
  "seg_chain codec f as xss \<Longrightarrow> distinct as \<Longrightarrow> b \<notin> set as \<Longrightarrow> seg_ok codec s (last xss) (Some b) \<Longrightarrow>
   seg_ok codec t [x] None \<Longrightarrow> seg_chain codec (f(last as := s, b := t)) (as @ [b]) (xss @ [[x]])"
proof (induction codec f as xss rule: seg_chain.induct)
  case (2 codec f a c as xs ys xss)
  define l where "l = last (c # as)"
  have l: "last (a # c # as) = l" "a \<noteq> l" "a \<noteq> b" using 2(3,4) by (auto simp: l_def)
  have "seg_chain codec (f(l := s, b := t)) ((c # as) @ [b]) ((ys # xss) @ [[x]])"
    unfolding l_def by (rule 2(1)) (use 2(2-6) in auto)
  then show ?case unfolding l using 2(2) l(2,3) by (simp add: fun_upd_def)
qed auto

lemma seg_chain_first:
  assumes c: "seg_chain codec f (a # as) xss" and d: "a \<notin> set as"
  obtains xs yss where "xss = xs # yss" "seg_ok codec (f a) xs (case as of [] \<Rightarrow> None | b # _ \<Rightarrow> Some b)"
    "\<And>s ys. seg_ok codec s ys (case as of [] \<Rightarrow> None | b # _ \<Rightarrow> Some b) \<Longrightarrow> seg_chain codec (f(a := s)) (a # as) (ys # yss)"
    "\<And>b bs. as = b # bs \<Longrightarrow> seg_chain codec f as yss \<and> hd yss \<noteq> []"
proof -
  have cong: "seg_chain codec (f(a := s)) as yss" if "seg_chain codec f as yss" for s yss
    by (rule seg_chain_cong [OF that]) (use d in auto)
  obtain xs yss where x: "xss = xs # yss" using seg_chain_ne [OF c] by (cases xss) auto
  show ?thesis
  proof (cases as)
    case Nil
    with c x have "yss = []" by (cases yss) auto
    with c x Nil show ?thesis by (intro that [of xs yss]) auto
  next
    case (Cons b bs)
    with c x obtain ys zss where "yss = ys # zss" by (cases yss) auto
    with c x Cons d cong [of yss] show ?thesis by (intro that [of xs yss]) auto
  qed
qed

text \<open>One segment.\<close>

lemma seg_ok_put:
  assumes "seg_ok codec s xs None" "sg_enqueue_index s < sg_size s"
  shows "sg_cells s ! sg_enqueue_index s = cc_empty codec" "sg_enqueue_index s < length (sg_cells s)"
    "seg_ok codec (s\<lparr>sg_enqueue_index := Suc (sg_enqueue_index s),
       sg_cells := (sg_cells s)[sg_enqueue_index s := cc_pack codec x]\<rparr>) (xs @ [x]) None"
proof -
  obtain junk r where s: "sg_next s = None" "0 < sg_size s" "sg_size s \<le> 2 ^ 25" "sg_size s = length (sg_cells s)"
    "sg_cells s = junk @ map (cc_pack codec) xs @ replicate r (cc_empty codec)" "length junk = sg_dequeue_index s"
    "sg_enqueue_index s = sg_dequeue_index s + length xs"
    using assms(1) unfolding seg_ok_def by auto
  obtain k where r: "r = Suc k" using s assms(2) by (cases r) auto
  have e: "sg_cells s = (junk @ map (cc_pack codec) xs) @ cc_empty codec # replicate k (cc_empty codec)"
    "sg_enqueue_index s = length (junk @ map (cc_pack codec) xs)" using s r by simp_all
  then show "sg_cells s ! sg_enqueue_index s = cc_empty codec" by (metis nth_append_length)
  show "sg_enqueue_index s < length (sg_cells s)" using s assms(2) by simp
  have n: "length (sg_cells s) = length junk + Suc (length xs + k)" using e(1) by simp
  have u: "(sg_cells s)[sg_enqueue_index s := cc_pack codec x] =
      junk @ map (cc_pack codec) (xs @ [x]) @ replicate k (cc_empty codec)"
    unfolding e list_update_length by simp
  show "seg_ok codec (s\<lparr>sg_enqueue_index := Suc (sg_enqueue_index s),
       sg_cells := (sg_cells s)[sg_enqueue_index s := cc_pack codec x]\<rparr>) (xs @ [x]) None"
    unfolding seg_ok_def by (intro conjI exI [of _ junk] exI [of _ k]) (use s(1-4,6,7) u n in simp_all)
qed

lemma seg_ok_close:
  assumes "seg_ok codec s xs None" "sg_size s \<le> sg_enqueue_index s"
  shows "seg_ok codec (s\<lparr>sg_enqueue_index := Suc (sg_enqueue_index s), sg_next := Some b\<rparr>) xs (Some b)"
  using assms by (auto simp: seg_ok_def)

lemma seg_ok_take:
  assumes "seg_ok codec s (x # xs) nx"
  shows "sg_dequeue_index s < sg_size s" "sg_dequeue_index s < sg_enqueue_index s"
    "sg_cells s ! sg_dequeue_index s = cc_pack codec x" "sg_dequeue_index s < length (sg_cells s)"
    "seg_ok codec (s\<lparr>sg_dequeue_index := Suc (sg_dequeue_index s)\<rparr>) xs nx"
proof -
  obtain junk r where s: "sg_next s = nx" "0 < sg_size s" "sg_size s \<le> 2 ^ 25" "sg_size s = length (sg_cells s)"
    "sg_cells s = junk @ map (cc_pack codec) (x # xs) @ replicate r (cc_empty codec)" "length junk = sg_dequeue_index s"
    "if nx = None then sg_enqueue_index s = sg_dequeue_index s + length (x # xs) else r = 0 \<and> sg_size s \<le> sg_enqueue_index s"
    using assms unfolding seg_ok_def by blast
  show lt: "sg_dequeue_index s < length (sg_cells s)" using s(5,6) by simp
  then show "sg_dequeue_index s < sg_size s" using s(4) by simp
  with s show "sg_dequeue_index s < sg_enqueue_index s" by (auto split: if_splits)
  show "sg_cells s ! sg_dequeue_index s = cc_pack codec x" using s(5,6) by (simp flip: s(6))
  have "sg_cells s = (junk @ [cc_pack codec x]) @ map (cc_pack codec) xs @ replicate r (cc_empty codec)" using s(5) by simp
  then show "seg_ok codec (s\<lparr>sg_dequeue_index := Suc (sg_dequeue_index s)\<rparr>) xs nx"
    unfolding seg_ok_def using s
    by (intro conjI exI [of _ "junk @ [cc_pack codec x]"] exI [of _ r]) (auto split: if_splits)
qed

lemma seg_ok_drained:
  assumes "seg_ok codec s [] nx"
  shows "nx = None \<Longrightarrow> sg_enqueue_index s = sg_dequeue_index s" "nx \<noteq> None \<Longrightarrow> sg_dequeue_index s = sg_size s"
    "sg_dequeue_index s \<le> sg_size s"
  using assms unfolding seg_ok_def by auto

text \<open>\<open>wrap64\<close> does nothing to the indices of a segment.\<close>

lemma seg_ok_wrap:
  assumes "seg_ok codec s xs None"
  shows "wrap64 (sg_enqueue_index s + 1) = Suc (sg_enqueue_index s)"
proof -
  have "sg_enqueue_index s \<le> 2 ^ 25" using assms by (auto simp: seg_ok_def)
  then show ?thesis by (simp add: wrap64_def)
qed

text \<open>The state after a call keeps the invariant when the chain does.\<close>

lemma queue_invI:
  assumes "seg_chain codec (sq_segments q) as xss" "hd as = sq_dequeue_segment q" "last as = sq_enqueue_segment q"
    "distinct as" "\<And>a. a \<in> set as \<Longrightarrow> allocated (sq_mmm q) a" "mmm_ok (sq_mmm q) thread"
    "set as \<inter> set (mt_retire_list thread) = {}" "sq_help_needed q = 0" "0 < sq_default_segment_size q"
    "sq_default_segment_size q \<le> 2 ^ 25" "sq_len q = length (concat xss)" "list_all ok_item (concat xss)"
  shows "queue_inv codec ok_item (q, thread) as xss"
  using assms unfolding queue_inv_def by simp

lemma concat_grow_last: "xss \<noteq> [] \<Longrightarrow> concat (butlast xss @ [last xss @ [x]]) = concat xss @ [x]"
  by (cases xss rule: rev_cases) simp_all

text \<open>A segment with one item in it, and linking it after the last segment.\<close>

definition fresh_segment :: "'c cell_codec \<Rightarrow> nat \<Rightarrow> ptr \<Rightarrow> 'c segment" where
  "fresh_segment codec k x = \<lparr>sg_next = None, sg_size = k, sg_enqueue_index = 1, sg_dequeue_index = 0,
     sg_cells = (replicate k (cc_empty codec))[0 := cc_pack codec x]\<rparr>"

lemma fresh_segment_ok: "0 < k \<Longrightarrow> k \<le> 2 ^ 25 \<Longrightarrow> seg_ok codec (fresh_segment codec k x) [x] None"
  unfolding seg_ok_def by (cases k) (auto simp: fresh_segment_def)

lemma enqueue_extend:
  assumes a: "sq_enqueue_segment q = a" and al: "allocated (sq_mmm q) a" and m: "mmm_ok (sq_mmm q) thread"
    and e: "mm_epoch (sq_mmm q) + 1 < 2 ^ 64" and nx: "sg_next (sq_segments q a) = None" and h: "sq_help_needed q = 0"
    and d: "0 < sq_default_segment_size q" and n: "sq_len q + 1 < 2 ^ 64"
  obtains m' b where "run_alone (queue_enqueue_step codec x) (QReread a end_size step False False) (q, thread) =
      Some ((q\<lparr>sq_mmm := m', sq_enqueue_segment := b, sq_len := Suc (sq_len q),
        sq_segments := (sq_segments q)(a := (sq_segments q a)\<lparr>sg_next := Some b\<rparr>,
          b := fresh_segment codec (sq_default_segment_size q) x)\<rparr>, thread), Inr ())"
    "mmm_ok m' thread" "\<not> allocated (sq_mmm q) b" "b \<notin> set (mt_retire_list thread)" "allocated m' b"
    "\<forall>p. allocated (sq_mmm q) p \<longrightarrow> allocated m' p" "mm_epoch m' = mm_epoch (sq_mmm q) + 1"
proof -
  define k where "k = sq_default_segment_size q"
  obtain m1 b where m1: "mmm_alloc_committed (sq_mmm q) (wrap64 (sizeof_segment + cc_sizeof codec * k)) = (m1, b)"
    "mmm_ok m1 thread" "\<not> allocated (sq_mmm q) b" "allocated m1 b" "\<forall>p. allocated (sq_mmm q) p \<longrightarrow> allocated m1 p"
    "mm_epoch m1 = mm_epoch (sq_mmm q) + 1"
    using mmm.alloc_ok [OF m e] by metis
  obtain m2 where m2: "mmm_end_op m1 thread = Inr m2" "mmm_ok m2 thread" "allocated m2 = allocated m1"
    "mm_epoch m2 = mm_epoch m1"
    using mmm.leave_ok [OF m1(2)] by blast
  have b: "b \<noteq> a" "b \<notin> set (mt_retire_list thread)" using al m1(3) mmm.dying_live [OF m, of b] by auto
  have al1: "allocated m1 a" using al m1(5) by simp
  have wrap: "wrap64 (sq_len q + 1) = Suc (sq_len q)" using n by (simp add: wrap64_def)
  have "run_alone (queue_enqueue_step codec x) (QReread a end_size step False False) (q, thread) =
      Some ((q\<lparr>sq_mmm := m2, sq_enqueue_segment := b, sq_len := Suc (sq_len q),
        sq_segments := (sq_segments q)(a := (sq_segments q a)\<lparr>sg_next := Some b\<rparr>, b := fresh_segment codec k x)\<rparr>, thread),
        Inr ())"
    using a al al1 nx h wrap b m1(1) m2(1) d
    by (simp add: enqueue_run set_segment_def enqueue_leave_def read_at_def k_def [symmetric] queue_new_segment_def
        fresh_segment_def Let_def fun_upd_twist)
  then show ?thesis using that m1 m2 b by (simp add: k_def)
qed

context queue_cells
begin

text \<open>The segment has room for another item.\<close>

lemma enqueue_room:
  assumes inv: "queue_inv codec ok_item (q, thread) as xss" and x: "ok_item x"
    and n: "length (concat xss) + 1 < 2 ^ 64"
    and room: "sg_enqueue_index (sq_segments q (last as)) < sg_size (sq_segments q (last as))"
  obtains q' where "queue_enqueue_mmm codec (q, thread) x = Some ((q', thread), Inr ())"
    "queue_inv codec ok_item (q', thread) as (butlast xss @ [last xss @ [x]])" "mm_epoch (sq_mmm q') = mm_epoch (sq_mmm q)"
proof -
  note i = queue_invD [OF inv]
  have ne: "as \<noteq> []" "xss \<noteq> []" using seg_chain_ne [OF i(1)] by simp_all
  define a s where "a = last as" and "s = sq_segments q a"
  have s: "seg_ok codec s (last xss) None" using seg_chain_last [OF i(1)] by (simp add: a_def s_def)
  have r: "sg_enqueue_index s < sg_size s" using room by (simp add: a_def s_def)
  note p = seg_ok_put [OF s r]
  define t where "t = s\<lparr>sg_enqueue_index := Suc (sg_enqueue_index s),
       sg_cells := (sg_cells s)[sg_enqueue_index s := cc_pack codec x]\<rparr>"
  obtain m1 m2 where m: "mmm_start_basic_op (sq_mmm q) thread = Inr m1" "mmm_end_op m1 thread = Inr m2"
    "mmm_ok m2 thread" "allocated m2 = allocated (sq_mmm q)" "mm_epoch m2 = mm_epoch (sq_mmm q)"
    by (rule mmm.read_ok [OF i(6)])
  have m1: "allocated m1 = allocated (sq_mmm q)" using mmm.enter_ok [OF i(6)] m(1) by auto
  have al: "allocated (sq_mmm q) a" using i(5) [of a] ne by (simp add: a_def)
  have a: "sq_enqueue_segment q = a" using i(3) by (simp add: a_def)
  define q' where "q' = q\<lparr>sq_mmm := m2, sq_segments := (sq_segments q)(a := t), sq_len := Suc (sq_len q)\<rparr>"
  have wrap: "wrap64 (sq_len q + 1) = Suc (sq_len q)" using n i(11) by (simp add: wrap64_def)
  have "queue_enqueue_mmm codec (q, thread) x = Some ((q', thread), Inr ())"
    using wrap m(1,2) al m1 a r p(1,2) seg_ok_wrap [OF s]
    by (simp add: queue_enqueue_mmm_def enqueue_run set_segment_def enqueue_test_def enqueue_leave_def read_at_def
        s_def [symmetric] q'_def t_def)
  moreover have "queue_inv codec ok_item (q', thread) as (butlast xss @ [last xss @ [x]])"
  proof (rule queue_invI)
    show "seg_chain codec (sq_segments q') as (butlast xss @ [last xss @ [x]])"
      using seg_chain_grow_last [OF i(1) i(4) p(3) [of x]] by (simp add: q'_def t_def a_def)
  qed (use i m(3,4) x ne in \<open>auto simp: q'_def concat_grow_last simp del: concat_append\<close>)
  ultimately show ?thesis using that m(5) by (simp add: q'_def)
qed

text \<open>The segment is full: a new one with the item is linked after it and installed.\<close>

lemma enqueue_full:
  assumes inv: "queue_inv codec ok_item (q, thread) as xss" and x: "ok_item x"
    and n: "length (concat xss) + 1 < 2 ^ 64" and e: "mm_epoch (sq_mmm q) + 1 < 2 ^ 64"
    and full: "sg_size (sq_segments q (last as)) \<le> sg_enqueue_index (sq_segments q (last as))"
  obtains q' b where "queue_enqueue_mmm codec (q, thread) x = Some ((q', thread), Inr ())"
    "queue_inv codec ok_item (q', thread) (as @ [b]) (xss @ [[x]])" "mm_epoch (sq_mmm q') = mm_epoch (sq_mmm q) + 1"
proof -
  note i = queue_invD [OF inv]
  have ne: "as \<noteq> []" "xss \<noteq> []" using seg_chain_ne [OF i(1)] by simp_all
  define a s where "a = last as" and "s = sq_segments q a"
  have s: "seg_ok codec s (last xss) None" using seg_chain_last [OF i(1)] by (simp add: a_def s_def)
  have r: "sg_size s \<le> sg_enqueue_index s" using full by (simp add: a_def s_def)
  have al: "allocated (sq_mmm q) a" using i(5) [of a] ne by (simp add: a_def)
  obtain m1 where m1: "mmm_start_basic_op (sq_mmm q) thread = Inr m1" "mmm_ok m1 thread"
    "allocated m1 = allocated (sq_mmm q)" "mm_epoch m1 = mm_epoch (sq_mmm q)"
    using mmm.enter_ok [OF i(6)] by blast
  have a: "sq_enqueue_segment q = a" using i(3) by (simp add: a_def)
  define t q1 where "t = s\<lparr>sg_enqueue_index := Suc (sg_enqueue_index s)\<rparr>"
    and "q1 = q\<lparr>sq_mmm := m1, sq_segments := (sq_segments q)(a := t)\<rparr>"
  have "sg_next s = None" using s by (simp add: seg_ok_def)
  then have t: "sq_segments q1 a = t" "sg_next t = None" by (simp_all add: q1_def t_def)
  define u where "u = fresh_segment codec (sq_default_segment_size q) x"
  obtain m b where m: "run_alone (queue_enqueue_step codec x) (QReread a (sg_size s) 1 False False) (q1, thread) =
      Some ((q1\<lparr>sq_mmm := m, sq_enqueue_segment := b, sq_len := Suc (sq_len q),
        sq_segments := (sq_segments q1)(a := t\<lparr>sg_next := Some b\<rparr>, b := u)\<rparr>, thread), Inr ())"
    "mmm_ok m thread" "\<not> allocated (sq_mmm q) b" "b \<notin> set (mt_retire_list thread)" "allocated m b"
    "\<forall>p. allocated (sq_mmm q) p \<longrightarrow> allocated m p" "mm_epoch m = mm_epoch (sq_mmm q) + 1"
    by (rule enqueue_extend [of q1 a thread codec x "sg_size s" 1])
      (use a al m1 e t i(8,9,11) n in \<open>auto simp: q1_def u_def\<close>)
  define q' where "q' = q\<lparr>sq_mmm := m, sq_enqueue_segment := b, sq_len := Suc (sq_len q),
    sq_segments := (sq_segments q)(a := t\<lparr>sg_next := Some b\<rparr>, b := u)\<rparr>"
  have b: "b \<notin> set as" using m(3) i(5) by auto
  have "queue_enqueue_mmm codec (q, thread) x =
      run_alone (queue_enqueue_step codec x) (QReread a (sg_size s) 1 False False) (q1, thread)"
    using m1 al a r seg_ok_wrap [OF s]
    by (simp add: queue_enqueue_mmm_def enqueue_run(1-3) set_segment_def enqueue_test_def s_def [symmetric] q1_def t_def
        QUEUE_HELP_VALUE_def QUEUE_HELP_STEPS_def)
  with m(1) have "queue_enqueue_mmm codec (q, thread) x = Some ((q', thread), Inr ())" by (simp add: q1_def q'_def)
  moreover have "queue_inv codec ok_item (q', thread) (as @ [b]) (xss @ [[x]])"
  proof (rule queue_invI)
    have "seg_ok codec u [x] None" using fresh_segment_ok i(9,10) by (auto simp: u_def)
    with seg_chain_append [OF i(1) i(4) b seg_ok_close [OF s r]]
    show "seg_chain codec (sq_segments q') (as @ [b]) (xss @ [[x]])" by (simp add: q'_def t_def a_def)
  qed (use i m(2-6) x ne b in \<open>auto simp: q'_def\<close>)
  ultimately show ?thesis using that m(7) by (simp add: q'_def)
qed

lemma enqueue_ok:
  assumes inv: "queue_inv codec ok_item (q, thread) as xss" and x: "ok_item x"
    and n: "length (concat xss) + 1 < 2 ^ 64" and e: "mm_epoch (sq_mmm q) + 1 < 2 ^ 64"
  shows "\<exists>q' as' xss'. queue_enqueue codec (q, thread) x = Some ((q', thread), Inr ()) \<and>
    queue_inv codec ok_item (q', thread) as' xss' \<and> concat xss' = concat xss @ [x] \<and>
    mm_epoch (sq_mmm q') \<le> mm_epoch (sq_mmm q) + 1"
proof -
  note i = queue_invD [OF inv]
  have th: "queue_enqueue codec (q, thread) x = queue_enqueue_mmm codec (q, thread) x"
    using i(6) by (simp add: queue_enqueue_def mmm_ok_def mmm_thread_acquire_def)
  show ?thesis
  proof (cases "sg_enqueue_index (sq_segments q (last as)) < sg_size (sq_segments q (last as))")
    case True
    from enqueue_room [OF inv x n True] obtain q' where
      "queue_enqueue_mmm codec (q, thread) x = Some ((q', thread), Inr ())"
      "queue_inv codec ok_item (q', thread) as (butlast xss @ [last xss @ [x]])" "mm_epoch (sq_mmm q') = mm_epoch (sq_mmm q)"
      by blast
    then show ?thesis using th concat_grow_last [of xss x] seg_chain_ne [OF i(1)]
      by (intro exI [of _ q'] exI [of _ as] exI [of _ "butlast xss @ [last xss @ [x]]"]) simp
  next
    case False
    then have "sg_size (sq_segments q (last as)) \<le> sg_enqueue_index (sq_segments q (last as))" by simp
    from enqueue_full [OF inv x n e this] obtain q' b where
      "queue_enqueue_mmm codec (q, thread) x = Some ((q', thread), Inr ())"
      "queue_inv codec ok_item (q', thread) (as @ [b]) (xss @ [[x]])" "mm_epoch (sq_mmm q') = mm_epoch (sq_mmm q) + 1"
      by blast
    then show ?thesis using th by (intro exI [of _ q'] exI [of _ "as @ [b]"] exI [of _ "xss @ [[x]]"]) simp
  qed
qed

text \<open>Taking the next item of a segment that has one.\<close>

lemma dequeue_hit:
  assumes s: "seg_ok codec (sq_segments q a) (x # xs) nx" and x: "ok_item x" and al: "allocated (sq_mmm q) a"
  shows "run_alone (queue_dequeue_step codec) (DIndex e a) (q, thread) =
    run_alone (queue_dequeue_step codec) (DLen x)
      (set_segment q a ((sq_segments q a)\<lparr>sg_dequeue_index := Suc (sg_dequeue_index (sq_segments q a))\<rparr>), thread)"
proof -
  note t = seg_ok_take [OF s]
  have "sg_size (sq_segments q a) \<le> 2 ^ 25" using s by (simp add: seg_ok_def)
  then have "wrap64 (sg_dequeue_index (sq_segments q a) + 1) = Suc (sg_dequeue_index (sq_segments q a))"
    using t(1) by (simp add: wrap64_def)
  then show ?thesis
    using t(1-4) al x pack_not_empty [OF x] unpack_pack [OF x]
    by (simp add: dequeue_run set_segment_def read_at_def Let_def)
qed

lemma dequeue_take:
  assumes inv: "queue_inv codec ok_item (q, thread) as xss" and x: "hd xss = x # xs"
    and n: "length (concat xss) < 2 ^ 64"
  obtains q' where "run_alone (queue_dequeue_step codec) (DIndex e (hd as)) (q, thread) =
      Some ((q', thread), Inr (x, True))"
    "queue_inv codec ok_item (q', thread) as (xs # tl xss)" "mm_epoch (sq_mmm q') = mm_epoch (sq_mmm q)"
proof -
  note i = queue_invD [OF inv]
  obtain a bs where as: "as = a # bs" using seg_chain_ne [OF i(1)] by (cases as) auto
  obtain ys yss where ys: "xss = ys # yss" "seg_ok codec (sq_segments q a) ys (case bs of [] \<Rightarrow> None | b # _ \<Rightarrow> Some b)"
    "\<And>s zs. seg_ok codec s zs (case bs of [] \<Rightarrow> None | b # _ \<Rightarrow> Some b) \<Longrightarrow>
       seg_chain codec ((sq_segments q)(a := s)) (a # bs) (zs # yss)"
    by (rule seg_chain_first [of codec "sq_segments q" a bs xss]) (use i(1,4) as in auto)
  have s: "seg_ok codec (sq_segments q a) (x # xs) (case bs of [] \<Rightarrow> None | b # _ \<Rightarrow> Some b)" using ys x by simp
  have ok: "ok_item x" using i(12) ys(1) x by simp
  have al: "allocated (sq_mmm q) a" using i(5) as by simp
  obtain m where m: "mmm_end_op (sq_mmm q) thread = Inr m" "mmm_ok m thread" "allocated m = allocated (sq_mmm q)"
    "mm_epoch m = mm_epoch (sq_mmm q)"
    using mmm.leave_ok [OF i(6)] by blast
  define q' where "q' = q\<lparr>sq_mmm := m, sq_len := sq_len q - 1, sq_segments := (sq_segments q)(a :=
     (sq_segments q a)\<lparr>sg_dequeue_index := Suc (sg_dequeue_index (sq_segments q a))\<rparr>)\<rparr>"
  have "0 < sq_len q" "sq_len q < 2 ^ 64" using i(11) ys(1) x n by simp_all
  note w = wrap64_pred [OF this]
  have "run_alone (queue_dequeue_step codec) (DIndex e (hd as)) (q, thread) = Some ((q', thread), Inr (x, True))"
    using dequeue_hit [OF s ok al, of e thread] m(1) w as
    by (simp add: dequeue_run set_segment_def q'_def)
  moreover have "queue_inv codec ok_item (q', thread) as (xs # tl xss)"
  proof (rule queue_invI)
    show "seg_chain codec (sq_segments q') as (xs # tl xss)"
      using ys(3) [OF seg_ok_take(5) [OF s]] ys(1) as by (simp add: q'_def)
  qed (use i m ys(1) x in \<open>auto simp: q'_def\<close>)
  ultimately show ?thesis using that m(4) by (simp add: q'_def)
qed

text \<open>A drained segment with a successor is left behind and retired.\<close>

lemma dequeue_cross:
  assumes inv: "queue_inv codec ok_item (q, thread) (a # b # bs) ([] # xss)"
  obtains q' thread' where "run_alone (queue_dequeue_step codec) (DIndex (sq_enqueue_segment q) a) (q, thread) =
      run_alone (queue_dequeue_step codec) (DIndex (sq_enqueue_segment q) b) (q', thread')"
    "queue_inv codec ok_item (q', thread') (b # bs) xss" "hd xss \<noteq> []" "mm_epoch (sq_mmm q') = mm_epoch (sq_mmm q)"
proof -
  note i = queue_invD [OF inv]
  obtain s where s: "sq_segments q a = s" "seg_ok codec s [] (Some b)" "seg_chain codec (sq_segments q) (b # bs) xss"
    "hd xss \<noteq> []"
    using i(1) by (cases xss) auto
  have al: "allocated (sq_mmm q) a" "a \<notin> set (mt_retire_list thread)" using i(5,7) by auto
  obtain m thread' where m: "mmm_retire (sq_mmm q) thread a = Inr (m, thread')" "mmm_ok m thread'"
    "set (mt_retire_list thread') \<subseteq> insert a (set (mt_retire_list thread))"
    "\<forall>p. allocated (sq_mmm q) p \<longrightarrow> p \<noteq> a \<longrightarrow> p \<notin> set (mt_retire_list thread) \<longrightarrow> allocated m p"
    "mm_epoch m = mm_epoch (sq_mmm q)"
    using mmm.retire_ok [OF i(6) al] by metis
  define q' where "q' = q\<lparr>sq_dequeue_segment := b, sq_mmm := m\<rparr>"
  have "sg_next s = Some b" using s(2) by (simp add: seg_ok_def)
  then have "run_alone (queue_dequeue_step codec) (DIndex (sq_enqueue_segment q) a) (q, thread) =
      run_alone (queue_dequeue_step codec) (DIndex (sq_enqueue_segment q) b) (q', thread')"
    using al(1) s(1) seg_ok_drained(2,3) [OF s(2)] i(2) m(1)
      run_alone.simps [of "queue_dequeue_step codec" "DIndex (sq_enqueue_segment q) a"]
    by (simp add: dequeue_run(4,10-12) q'_def)
  moreover have "queue_inv codec ok_item (q', thread') (b # bs) xss"
    by (rule queue_invI) (use i s(3) m(2-4) in \<open>auto simp: q'_def\<close>)
  ultimately show ?thesis using that m(5) s(4) by (simp add: q'_def)
qed

lemma dequeue_nothing:
  assumes inv: "queue_inv codec ok_item (q, thread) [a] [[]]"
  obtains q' where "run_alone (queue_dequeue_step codec) (DIndex e a) (q, thread) =
      Some ((q', thread), Inr (0, False))"
    "queue_inv codec ok_item (q', thread) [a] [[]]" "mm_epoch (sq_mmm q') = mm_epoch (sq_mmm q)"
proof -
  note i = queue_invD [OF inv]
  obtain s where s: "sq_segments q a = s" "seg_ok codec s [] None" using i(1) by simp
  obtain m where m: "mmm_end_op (sq_mmm q) thread = Inr m" "mmm_ok m thread" "allocated m = allocated (sq_mmm q)"
    "mm_epoch m = mm_epoch (sq_mmm q)"
    using mmm.leave_ok [OF i(6)] by blast
  have n: "sg_next s = None" using s(2) by (simp add: seg_ok_def)
  have "run_alone (queue_dequeue_step codec) (DIndex e a) (q, thread) =
      Some ((q\<lparr>sq_mmm := m\<rparr>, thread), Inr (0, False))"
    using i(5) s(1) seg_ok_drained(1,3) [OF s(2)] n m(1) by (simp add: dequeue_run)
  moreover have "queue_inv codec ok_item (q\<lparr>sq_mmm := m\<rparr>, thread) [a] [[]]"
    by (rule queue_invI) (use i m in auto)
  ultimately show ?thesis using that m(4) by simp
qed

lemma dequeue_ok:
  assumes inv: "queue_inv codec ok_item (q, thread) as xss" and n: "length (concat xss) < 2 ^ 64"
  shows "\<exists>q' thread' as' xss'. queue_dequeue codec (q, thread) =
      Some ((q', thread'), Inr (case concat xss of [] \<Rightarrow> (0, False) | x # _ \<Rightarrow> (x, True))) \<and>
    queue_inv codec ok_item (q', thread') as' xss' \<and> concat xss' = tl (concat xss) \<and>
    mm_epoch (sq_mmm q') = mm_epoch (sq_mmm q)"
proof -
  note i = queue_invD [OF inv]
  obtain m where m: "mmm_start_basic_op (sq_mmm q) thread = Inr m" "mmm_ok m thread" "allocated m = allocated (sq_mmm q)"
    "mm_epoch m = mm_epoch (sq_mmm q)"
    using mmm.enter_ok [OF i(6)] by blast
  define q1 where "q1 = q\<lparr>sq_mmm := m\<rparr>"
  have inv1: "queue_inv codec ok_item (q1, thread) as xss"
    by (rule queue_invI) (use i m in \<open>auto simp: q1_def\<close>)
  obtain a bs xs yss where as: "as = a # bs" "xss = xs # yss" using seg_chain_ne [OF i(1)] by (cases as; cases xss) auto
  have run: "queue_dequeue codec (q, thread) =
      run_alone (queue_dequeue_step codec) (DIndex (sq_enqueue_segment q1) a) (q1, thread)"
    using i(2,6) m(1) as dequeue_run(1,2) [of codec]
    by (simp add: queue_dequeue_def queue_dequeue_mmm_def mmm_ok_def mmm_thread_acquire_def q1_def)
  have e: "mm_epoch (sq_mmm q1) = mm_epoch (sq_mmm q)" using m(4) by (simp add: q1_def)
  have hit: "\<exists>q' as' xss'. run_alone (queue_dequeue_step codec) (DIndex e (hd bs)) (q2, thread) =
        Some ((q', thread), Inr (y, True)) \<and> queue_inv codec ok_item (q', thread) as' xss' \<and>
      concat xss' = ys @ concat zss \<and> mm_epoch (sq_mmm q') = mm_epoch (sq_mmm q2)"
    if "queue_inv codec ok_item (q2, thread) bs ((y # ys) # zss)" "length (concat ((y # ys) # zss)) < 2 ^ 64"
    for q2 thread bs y ys zss e
    using dequeue_take [OF that(1) _ that(2), of y ys e] by (metis concat.simps(2) list.sel)
  show ?thesis
  proof (cases xs)
    case (Cons y ys)
    then show ?thesis
      using hit [of q1 thread as y ys yss "sq_enqueue_segment q1"] inv1 run as n e by auto
  next
    case Nil
    show ?thesis
    proof (cases bs)
      case no_next: Nil
      with Nil as inv1 i(1) have "yss = []" by (cases yss) auto
      obtain q2 where "queue_dequeue codec (q, thread) = Some ((q2, thread), Inr (0, False))"
        "queue_inv codec ok_item (q2, thread) [a] [[]]" "mm_epoch (sq_mmm q2) = mm_epoch (sq_mmm q)"
        using dequeue_nothing [of q1 thread a] inv1 Nil no_next as \<open>yss = []\<close> run e by metis
      then show ?thesis using Nil as \<open>yss = []\<close> by (intro exI [of _ q2] exI [of _ thread] exI [of _ "[a]"] exI [of _ "[[]]"]) simp
    next
      case next_segment: (Cons b cs)
      obtain q2 thread2 where q2: "queue_dequeue codec (q, thread) =
          run_alone (queue_dequeue_step codec) (DIndex (sq_enqueue_segment q1) b) (q2, thread2)"
        "queue_inv codec ok_item (q2, thread2) (b # cs) yss" "hd yss \<noteq> []" "mm_epoch (sq_mmm q2) = mm_epoch (sq_mmm q)"
        using dequeue_cross [of q1 thread a b cs yss] inv1 Nil next_segment as run e by metis
      obtain y ys zss where y: "yss = (y # ys) # zss"
        using q2(3) seg_chain_ne [OF queue_invD(1) [OF q2(2)]] by (metis list.collapse)
      with hit [of q2 thread2 "b # cs" y ys zss "sq_enqueue_segment q1"] q2 as n Nil show ?thesis by auto
    qed
  qed
qed

end

text \<open>A sequence of calls of one thread: \<open>Some\<close> enqueues, \<open>None\<close> dequeues; with what the dequeues return.\<close>

fun queue_calls ::
  "'c cell_codec \<Rightarrow> 'c queue_state \<Rightarrow> ptr option list \<Rightarrow> ('c queue_state \<times> (ptr \<times> bool) list) outcome option"
where
  "queue_calls codec st [] = Some (Inr (st, []))"
| "queue_calls codec st (Some item # cs) =
     (case queue_enqueue codec st item of
        None \<Rightarrow> None
      | Some (st', Inl e) \<Rightarrow> Some (Inl e)
      | Some (st', Inr _) \<Rightarrow> queue_calls codec st' cs)"
| "queue_calls codec st (None # cs) =
     (case queue_dequeue codec st of
        None \<Rightarrow> None
      | Some (st', Inl e) \<Rightarrow> Some (Inl e)
      | Some (st', Inr r) \<Rightarrow>
          (case queue_calls codec st' cs of
             None \<Rightarrow> None
           | Some (Inl e) \<Rightarrow> Some (Inl e)
           | Some (Inr (st'', rs)) \<Rightarrow> Some (Inr (st'', r # rs))))"

text \<open>The same calls on a list.\<close>

fun fifo_calls :: "ptr list \<Rightarrow> ptr option list \<Rightarrow> ptr list \<times> (ptr \<times> bool) list" where
  "fifo_calls xs [] = (xs, [])"
| "fifo_calls xs (Some item # cs) = fifo_calls (xs @ [item]) cs"
| "fifo_calls [] (None # cs) = (let (ys, rs) = fifo_calls [] cs in (ys, (0, False) # rs))"
| "fifo_calls (x # xs) (None # cs) = (let (ys, rs) = fifo_calls xs cs in (ys, (x, True) # rs))"

lemma fifo_calls_None:
  "fifo_calls xs (None # cs) =
     (let (ys, rs) = fifo_calls (tl xs) cs in (ys, (case xs of [] \<Rightarrow> (0, False) | x # _ \<Rightarrow> (x, True)) # rs))"
  by (cases xs) simp_all

context queue_cells
begin

lemma calls_ok:
  assumes "queue_inv codec ok_item (q, thread) as xss" "\<forall>x. Some x \<in> set cs \<longrightarrow> ok_item x"
    "mm_epoch (sq_mmm q) + length cs < 2 ^ 64" "length (concat xss) + length cs < 2 ^ 64"
  shows "\<exists>q' thread' as' xss'. queue_calls codec (q, thread) cs =
      Some (Inr ((q', thread'), snd (fifo_calls (concat xss) cs))) \<and>
    queue_inv codec ok_item (q', thread') as' xss' \<and> concat xss' = fst (fifo_calls (concat xss) cs)"
  using assms
proof (induction cs arbitrary: q thread as xss)
  case (Cons c cs)
  show ?case
  proof (cases c)
    case (Some item)
    have "ok_item item" "length (concat xss) + 1 < 2 ^ 64" "mm_epoch (sq_mmm q) + 1 < 2 ^ 64" using Cons.prems Some by auto
    from enqueue_ok [OF Cons.prems(1) this] obtain q1 as1 xss1 where
      q1: "queue_enqueue codec (q, thread) item = Some ((q1, thread), Inr ())"
      "queue_inv codec ok_item (q1, thread) as1 xss1" "concat xss1 = concat xss @ [item]"
      "mm_epoch (sq_mmm q1) \<le> mm_epoch (sq_mmm q) + 1" by metis
    from Cons.IH [OF q1(2)] Cons.prems(2-4) q1(3,4) show ?thesis by (simp add: Some q1(1))
  next
    case None
    define r where "r = (case concat xss of [] \<Rightarrow> (0, False) | x # _ \<Rightarrow> (x, True))"
    have "length (concat xss) < 2 ^ 64" using Cons.prems(4) by simp
    from dequeue_ok [OF Cons.prems(1) this] obtain q1 thread1 as1 xss1 where
      q1: "queue_dequeue codec (q, thread) = Some ((q1, thread1), Inr r)"
      "queue_inv codec ok_item (q1, thread1) as1 xss1" "concat xss1 = tl (concat xss)"
      "mm_epoch (sq_mmm q1) = mm_epoch (sq_mmm q)" unfolding r_def by metis
    obtain ys rs where f: "fifo_calls (tl (concat xss)) cs = (ys, rs)" by fastforce
    then have "fifo_calls (concat xss) (None # cs) = (ys, r # rs)"
      by (simp add: fifo_calls_None r_def)
    moreover have "length (concat xss1) + length cs < 2 ^ 64" using Cons.prems(4) by (simp add: q1(3))
    ultimately show ?thesis using Cons.IH [OF q1(2)] Cons.prems(2,3) q1(3,4) f by (force simp: None q1(1))
  qed
qed auto

lemma new_ok:
  assumes m: "mmm_ok m thread" and e: "mm_epoch m + 1 < 2 ^ 64" and l: "l = 0 \<or> QSIZE_LOG_MIN \<le> l \<and> l \<le> QSIZE_LOG_MAX"
  shows "\<exists>q a. queue_new_size codec segs m l = Inr q \<and> queue_inv codec ok_item (q, thread) [a] [[]] \<and>
    mm_epoch (sq_mmm q) = mm_epoch m + 1"
proof -
  define k where "k = (if l = 0 then QSIZE_LOG_DEFAULT else l)"
  define c :: nat where "c = push_bit (nat k) 1"
  have "nat k \<le> 25" using l by (auto simp: k_def QSIZE_LOG_DEFAULT_def QSIZE_LOG_MAX_def)
  then have "(2 :: nat) ^ nat k \<le> 2 ^ 25" by (rule power_increasing) simp
  then have c: "0 < c" "c \<le> 2 ^ 25" by (simp_all add: c_def push_bit_eq_mult)
  obtain m1 a where a: "mmm_alloc_committed m (wrap64 (sizeof_segment + cc_sizeof codec * c)) = (m1, a)"
    "mmm_ok m1 thread" "\<not> allocated m a" "allocated m1 a" "mm_epoch m1 = mm_epoch m + 1"
    using mmm.alloc_ok [OF m e] by metis
  define q where "q = \<lparr>sq_enqueue_segment = a, sq_dequeue_segment = a, sq_default_segment_size = c, sq_help_needed = 0,
    sq_len = 0, sq_segments = segs(a := \<lparr>sg_next = None, sg_size = c, sg_enqueue_index = 0, sg_dequeue_index = 0,
      sg_cells = replicate c (cc_empty codec)\<rparr>), sq_mmm = m1\<rparr>"
  have g: "\<not> (l \<noteq> 0 \<and> (l < QSIZE_LOG_MIN \<or> QSIZE_LOG_MAX < l))" using l by auto
  have "queue_new_size codec segs m l = Inr q"
    unfolding queue_new_size_def queue_init_size_def if_not_P [OF g] k_def [symmetric] Let_def c_def [symmetric]
      queue_new_segment_def
    by (simp add: a(1) q_def)
  moreover have "a \<notin> set (mt_retire_list thread)" using mmm.dying_live [OF m] a(3) by auto
  then have "queue_inv codec ok_item (q, thread) [a] [[]]"
    using a c by (intro queue_invI) (auto simp: q_def seg_ok_def)
  ultimately show ?thesis using a(5) by (auto simp: q_def)
qed

end

interpretation queue_q: queue_cells queue_codec "\<lambda>_. True"
  by unfold_locales (simp_all add: queue_codec_def QUEUE_EMPTY_def QUEUE_USED_def)

text \<open>A \<^verbatim>\<open>q64\<close> cell has room for items whose two low bits are zero.\<close>

definition q64_ok :: "ptr \<Rightarrow> bool" where
  "q64_ok x \<longleftrightarrow> x AND value_mask = x"

interpretation queue_q64: queue_cells q64_codec q64_ok
proof
  fix x :: ptr
  have bit1: "bit ((x AND value_mask) OR Q64_USED) 1"
    by (simp add: Q64_USED_def bit_simps) 
  show "cc_pack q64_codec x \<noteq> cc_empty q64_codec"
  proof
    assume "cc_pack q64_codec x = cc_empty q64_codec"
    then have "((x AND value_mask) OR Q64_USED) = 0" by (simp add: q64_codec_def Q64_EMPTY_def)
    with bit1 show False by simp
  qed
  assume "q64_ok x"
  then have "x AND value_mask = x" by (simp add: q64_ok_def)
  moreover have "Q64_USED AND value_mask = 0" by (simp add: Q64_USED_def value_mask_def Q64_TOOSLOW_def)
  ultimately show "cc_unpack q64_codec (cc_pack q64_codec x) = x"
    by (simp add: q64_codec_def bit.conj_disj_distrib2)
qed


text \<open>\<^verbatim>\<open>q64\<close> stores what is left of an item under the mask.\<close>

lemma enqueue_step_pack:
  "cc_pack codec x = cc_pack codec y \<Longrightarrow> queue_enqueue_step codec x pc st = queue_enqueue_step codec y pc st"
  by (cases pc; cases st) (simp_all add: Let_def cong: if_cong)

lemma q64_enqueue_mask: "queue_enqueue q64_codec st (x AND value_mask) = queue_enqueue q64_codec st x"
proof -
  have "cc_pack q64_codec (x AND value_mask) = cc_pack q64_codec x" by (simp add: q64_codec_def and.assoc)
  then have step: "queue_enqueue_step q64_codec (x AND value_mask) = queue_enqueue_step q64_codec x"
    by (intro ext enqueue_step_pack)
  show ?thesis unfolding queue_enqueue_def queue_enqueue_mmm_def step by (rule refl)
qed

lemma q64_calls_mask:
  "queue_calls q64_codec st (map (map_option (\<lambda>x. x AND value_mask)) cs) = queue_calls q64_codec st cs"
proof (induction cs arbitrary: st)
  case (Cons c cs)
  show ?case
    by (cases c) (simp_all add: q64_enqueue_mask Cons split: option.split sum.split prod.split)
qed simp

text \<open>Cleaning up frees the segments one by one.\<close>

lemma queue_cleanup_loop_ok:
  assumes "seg_chain codec (sq_segments q) as xss" "distinct as" "\<forall>a \<in> set as. allocated (sq_mmm q) a"
  shows "\<exists>q'. queue_cleanup_loop q (Some (hd as)) = Some (Inr q') \<and>
     (\<forall>p. allocated (sq_mmm q') p \<longleftrightarrow> allocated (sq_mmm q) p \<and> p \<notin> set as)"
  using assms
proof (induction as arbitrary: q xss)
  case Nil
  then show ?case using seg_chain_ne by blast
next
  case (Cons a bs)
  have al: "allocated (sq_mmm q) a" using Cons.prems by simp
  obtain h where h: "mmm_get_header (sq_mmm q) a = Inr h" using get_header_allocated [OF al] by blast
  then obtain m where m: "mmm_retire_unused (sq_mmm q) a = Inr m" "mm_cells m = (mm_cells (sq_mmm q))[a := None]"
    by (simp add: mmm_retire_unused_def)
  have freed: "allocated m p \<longleftrightarrow> allocated (sq_mmm q) p \<and> p \<noteq> a" for p
    using al m(2) by (auto simp: allocated_def nth_list_update)
  have step: "queue_cleanup_loop q (Some a) = queue_cleanup_loop (q\<lparr>sq_mmm := m\<rparr>) (sg_next (sq_segments q a))"
    using al m(1) by (simp add: queue_cleanup_loop.simps [of q "Some a"])
  show ?case
  proof (cases bs)
    case Nil
    with Cons.prems(1) have "sg_next (sq_segments q a) = None" by (cases xss rule: list.exhaust; cases "tl xss") (auto simp: seg_ok_def)
    with step Nil freed show ?thesis by (simp add: queue_cleanup_loop.simps [of _ None])
  next
    case (Cons b cs)
    with Cons.prems(1) obtain xs yss where c: "xss = xs # yss" "sg_next (sq_segments q a) = Some b"
      "seg_chain codec (sq_segments q) bs yss"
      by (cases xss; cases "tl xss") (auto simp: seg_ok_def)
    have "\<exists>q'. queue_cleanup_loop (q\<lparr>sq_mmm := m\<rparr>) (Some (hd bs)) = Some (Inr q') \<and>
       (\<forall>p. allocated (sq_mmm q') p \<longleftrightarrow> allocated (sq_mmm (q\<lparr>sq_mmm := m\<rparr>)) p \<and> p \<notin> set bs)"
      by (rule Cons.IH [of _ yss]) (use Cons.prems c(3) freed in auto)
    then show ?thesis using step c(2) Cons freed by auto
  qed
qed

section \<open>Properties\<close>

text \<open>C15: Any sequence of enqueues and dequeues by one thread on a new queue, of any legal initial size,
  returns what a list used as a queue returns: every call returns, none fails or touches freed memory, although the
  queue grows by segments and the dequeues retire the segments they leave, and the queue ends well-formed with
  the contents of that list.\<close>

theorem queue_calls_fifo:
  assumes "size_log = 0 \<or> QSIZE_LOG_MIN \<le> size_log \<and> size_log \<le> QSIZE_LOG_MAX" "length cs < 2 ^ 64 - 2"
  shows "\<exists>m thread q q' thread' as xss. mmm_thread_acquire mmm_start mmm_thread_zero = Inr (m, thread) \<and>
     queue_new_size queue_codec segs m size_log = Inr q \<and>
     queue_calls queue_codec (q, thread) cs = Some (Inr ((q', thread'), snd (fifo_calls [] cs))) \<and>
     queue_inv queue_codec (\<lambda>_. True) (q', thread') as xss \<and> concat xss = fst (fifo_calls [] cs) \<and>
     queue_len q' = length (fst (fifo_calls [] cs))"
proof -
  obtain m thread where m: "mmm_thread_acquire mmm_start mmm_thread_zero = Inr (m, thread)" "mmm_ok m thread"
    "mm_epoch m = 1"
    by (rule first_acquire)
  from queue_q.new_ok [OF m(2) _ assms(1), of segs] m(3) obtain q a where
    q: "queue_new_size queue_codec segs m size_log = Inr q" "queue_inv queue_codec (\<lambda>_. True) (q, thread) [a] [[]]"
    "mm_epoch (sq_mmm q) = 2" by auto
  from queue_q.calls_ok [OF q(2), of cs] q(3) assms(2) obtain q' thread' as xss where
    c: "queue_calls queue_codec (q, thread) cs = Some (Inr ((q', thread'), snd (fifo_calls [] cs)))"
    "queue_inv queue_codec (\<lambda>_. True) (q', thread') as xss" "concat xss = fst (fifo_calls [] cs)" by auto
  from queue_invD(11) [OF c(2)] c(3) have "queue_len q' = length (fst (fifo_calls [] cs))" by (simp add: queue_len_def)
  with m(1) q(1) c show ?thesis by blast
qed

theorem queue_calls_fifo_witness:
  "\<exists>m thread q q' thread'. mmm_thread_acquire mmm_start mmm_thread_zero = Inr (m, thread) \<and>
     queue_new_size queue_codec (\<lambda>_. undefined) m 6 = Inr q \<and>
     queue_calls queue_codec (q, thread) [Some 7, Some 8, None, None, None] =
       Some (Inr ((q', thread'), [(7, True), (8, True), (0, False)]))"
proof -
  have "fifo_calls [] [Some 7, Some 8, None, None, None] = ([], [(7, True), (8, True), (0, False)])" by simp
  with queue_calls_fifo [of 6 "[Some 7, Some 8, None, None, None]" "\<lambda>_. undefined"] show ?thesis
    by (simp del: queue_calls.simps fifo_calls.simps add: QSIZE_LOG_MIN_def QSIZE_LOG_MAX_def) blast
qed

text \<open>C16: The same for \<^verbatim>\<open>q64\<close>, with each item reduced to its bits above the lowest two: an item whose
  low bits are not zero comes back changed, every other item as it went in.\<close>

theorem q64_calls_fifo_masked:
  assumes "size_log = 0 \<or> QSIZE_LOG_MIN \<le> size_log \<and> size_log \<le> QSIZE_LOG_MAX" "length cs < 2 ^ 64 - 2"
  shows "\<exists>m thread q q' thread'. mmm_thread_acquire mmm_start mmm_thread_zero = Inr (m, thread) \<and>
     q64_new_size segs m size_log = Inr q \<and>
     queue_calls q64_codec (q, thread) cs =
       Some (Inr ((q', thread'), snd (fifo_calls [] (map (map_option (\<lambda>x. x AND value_mask)) cs))))"
proof -
  define ds where "ds = map (map_option (\<lambda>x. x AND value_mask)) cs"
  obtain m thread where m: "mmm_thread_acquire mmm_start mmm_thread_zero = Inr (m, thread)" "mmm_ok m thread"
    "mm_epoch m = 1"
    by (rule first_acquire)
  from queue_q64.new_ok [OF m(2) _ assms(1), of segs] m(3) obtain q a where
    q: "queue_new_size q64_codec segs m size_log = Inr q" "queue_inv q64_codec q64_ok (q, thread) [a] [[]]"
    "mm_epoch (sq_mmm q) = 2" by auto
  have "\<forall>x. Some x \<in> set ds \<longrightarrow> q64_ok x" by (auto simp: ds_def q64_ok_def and.assoc dest!: sym [of "Some _"])
  with queue_q64.calls_ok [OF q(2), of ds] q(3) assms(2) obtain q' thread' where
    "queue_calls q64_codec (q, thread) ds = Some (Inr ((q', thread'), snd (fifo_calls [] ds)))"
    by (auto simp: ds_def)
  with m(1) q(1) show ?thesis unfolding ds_def q64_calls_mask q64_new_size_def by blast
qed

theorem q64_calls_fifo_masked_witness:
  "\<exists>m thread q q' thread'. mmm_thread_acquire mmm_start mmm_thread_zero = Inr (m, thread) \<and>
     q64_new_size (\<lambda>_. undefined) m 0 = Inr q \<and>
     queue_calls q64_codec (q, thread) [Some 7, Some 8, None, None] =
       Some (Inr ((q', thread'), [(4, True), (8, True)]))"
proof -
  have "fifo_calls [] (map (map_option (\<lambda>x. x AND value_mask)) [Some 7, Some 8, None, None]) =
    ([], [(4, True), (8, True)])"
    by (simp add: value_mask_def Q64_TOOSLOW_def Q64_USED_def)
  with q64_calls_fifo_masked [of 0 "[Some 7, Some 8, None, None]" "\<lambda>_. undefined"] show ?thesis
    by (simp del: queue_calls.simps fifo_calls.simps list.map)
qed

text \<open>Deleting a queue returns, frees every segment of the queue and nothing else, and then the queue itself,
  whatever was left in it.\<close>

theorem queue_delete_frees_segments:
  assumes "queue_inv codec ok_item (q, thread) as xss"
  shows "\<exists>q'. queue_delete q = Some (Inr (q', sizeof_queue)) \<and>
     (\<forall>p. allocated (sq_mmm q') p \<longleftrightarrow> allocated (sq_mmm q) p \<and> p \<notin> set as)"
proof -
  note i = queue_invD [OF assms]
  from queue_cleanup_loop_ok [OF i(1) i(4)] i(2,5) show ?thesis
    by (auto simp: queue_delete_def queue_cleanup_def)
qed


definition queue_sample :: "queue_item seg_queue" where
  "queue_sample = \<lparr>sq_enqueue_segment = 1, sq_dequeue_segment = 0, sq_default_segment_size = 1, sq_help_needed = 0,
     sq_len = 2, sq_segments = (\<lambda>p. \<lparr>sg_next = (if p = 0 then Some 1 else None), sg_size = 1,
       sg_enqueue_index = (if p = 0 then 2 else 1), sg_dequeue_index = 0,
       sg_cells = [\<lparr>qi_item = of_nat p, qi_state = QUEUE_USED\<rparr>]\<rparr>),
     sq_mmm = mmm_start\<lparr>mm_epoch := 3, mm_cells := [Some zero_header, Some zero_header, Some zero_header]\<rparr>\<rparr>"

lemma queue_sample_allocated: "allocated (sq_mmm queue_sample) p \<longleftrightarrow> p < 3"
  by (auto simp: queue_sample_def allocated_def less_Suc_eq numeral_3_eq_3)

lemma queue_sample_inv:
  "queue_inv queue_codec (\<lambda>_. True) (queue_sample, mmm_thread_zero\<lparr>mt_initialized := True\<rparr>) [0, 1] [[0], [1]]"
proof (rule queue_invI)
  show "allocated (sq_mmm queue_sample) a" if "a \<in> set [0, 1]" for a using that by (auto simp: queue_sample_allocated)
qed (simp_all add: queue_sample_def seg_ok_def queue_codec_def mmm_ok_def mmm_thread_zero_def mmm_start_def retire_ok_def)

theorem queue_delete_frees_segments_witness:
  "\<exists>q'. queue_delete queue_sample = Some (Inr (q', sizeof_queue)) \<and> (\<forall>p. allocated (sq_mmm q') p \<longleftrightarrow> p = 2)"
proof -
  have "p < 3 \<and> p \<notin> set [0, 1] \<longleftrightarrow> p = 2" for p :: nat by auto
  then show ?thesis using queue_delete_frees_segments [OF queue_sample_inv] unfolding queue_sample_allocated by metis
qed

text \<open>A dequeue on a segment whose next index was claimed and left empty, with nothing enqueued after it.\<close>

lemma dequeue_gap:
  assumes s: "sq_segments q b = s" "sg_cells s ! i = cc_empty codec" "sg_size s = length (sg_cells s)"
      "sg_dequeue_index s = i" "sg_enqueue_index s = Suc i" "Suc i < sg_size s" "sg_size s \<le> 2 ^ 25"
    and q: "sq_dequeue_segment q = b" "allocated (sq_mmm q) b" "mmm_ok (sq_mmm q) thread"
  shows "\<exists>q'. queue_dequeue codec (q, thread) = Some ((q', thread), Inr (0, False)) \<and> sq_len q' = sq_len q"
proof -
  obtain m1 m2 where m: "mmm_start_basic_op (sq_mmm q) thread = Inr m1" "mmm_end_op m1 thread = Inr m2"
    by (rule mmm.read_ok [OF q(3)])
  have m1: "allocated m1 b" using mmm.enter_ok [OF q(3)] m(1) q(2) by auto
  have th: "queue_dequeue codec (q, thread) = queue_dequeue_mmm codec (q, thread)"
    using q(3) by (simp add: queue_dequeue_def mmm_ok_def mmm_thread_acquire_def)
  have w: "wrap64 (Suc i) = Suc i" using s(6,7) by (simp add: wrap64_def)
  define q1 where "q1 = q\<lparr>sq_mmm := m1\<rparr>"
  define q2 where "q2 = set_segment q1 b (s\<lparr>sg_dequeue_index := Suc i, sg_cells := (sg_cells s)[i := cc_too_slow codec]\<rparr>)"
  have "queue_dequeue_mmm codec (q, thread) = run_alone (queue_dequeue_step codec) (DIndex (sq_enqueue_segment q) b) (q1, thread)"
    using m(1) q(1) by (simp add: queue_dequeue_mmm_def dequeue_run(1,2) q1_def)
  also have "\<dots> = run_alone (queue_dequeue_step codec) (DIndex (sq_enqueue_segment q) b) (q2, thread)"
    using s m1 w run_alone.simps [of "queue_dequeue_step codec" "DIndex (sq_enqueue_segment q) b" "(q1, thread)"]
    by (simp add: dequeue_run(4-6) q1_def q2_def set_segment_def read_at_def)
  also have "\<dots> = Some ((q2\<lparr>sq_mmm := m2\<rparr>, thread), Inr (0, False))"
    using s m1 m(2) by (simp add: dequeue_run q1_def q2_def set_segment_def)
  finally show ?thesis using th by (simp add: q1_def q2_def set_segment_def)
qed

text \<open>\<^verbatim>\<open>queue_enqueue\<close> reads the segment's size once. Suppose an enqueuer found its segment full, and the enqueue segment is now a larger
  one whose index has passed the size of the old. It still compares with the old size: it leaves the larger segment, which is
  not full, and puts its item into a third. The enqueue succeeds and \<^verbatim>\<open>queue_len\<close> counts the item, and the dequeue that follows
  sees an index below the size of the middle segment and nothing enqueued there, and reports an empty queue. That
  interleaved threads reach such a state is not shown here, and a later dequeue may find the item.\<close>

lemma queue_stale_end_size_strands_item:
  assumes inv: "queue_inv codec ok_item (q, thread) [b] [[]]" and e: "mm_epoch (sq_mmm q) + 1 < 2 ^ 64"
    and i: "end_size \<le> sg_enqueue_index (sq_segments q b)" "sg_enqueue_index (sq_segments q b) + 1 < sg_size (sq_segments q b)"
    and a: "a \<noteq> b"
  shows "\<exists>q' q''. run_alone (queue_enqueue_step codec x) (QReread a end_size 1 False False) (q, thread) =
       Some ((q', thread), Inr ()) \<and>
     queue_dequeue codec (q', thread) = Some ((q'', thread), Inr (0, False)) \<and> queue_len q'' = 1"
proof -
  note v = queue_invD [OF inv]
  define s where "s = sq_segments q b"
  define i' where "i' = sg_enqueue_index s"
  have s: "seg_ok codec s [] None" using v(1) by (simp add: s_def)
  have size: "sg_size s = length (sg_cells s)" "sg_size s \<le> 2 ^ 25" "sg_next s = None" using s by (auto simp: seg_ok_def)
  have room: "end_size \<le> i'" "Suc i' < sg_size s" using i by (simp_all add: s_def i'_def)
  have cell: "sg_cells s ! i' = cc_empty codec" using seg_ok_put(1) [OF s] room(2) by (simp add: i'_def)
  define t q1 where "t = s\<lparr>sg_enqueue_index := Suc i'\<rparr>" and "q1 = set_segment q b t"
  have ab: "sq_enqueue_segment q = b" "sq_dequeue_segment q = b" "allocated (sq_mmm q) b" using v(2,3,5) by simp_all
  have w: "wrap64 (Suc i') = Suc i'" using room(2) size(2) by (simp add: wrap64_def)
  have "run_alone (queue_enqueue_step codec x) (QReread a end_size 1 False False) (q, thread) =
      run_alone (queue_enqueue_step codec x) (QReread b end_size 1 False False) (q1, thread)"
    using a ab room(1) w run_alone.simps [of "queue_enqueue_step codec x" "QReread a end_size 1 False False"]
      run_alone.simps [of "queue_enqueue_step codec x" "QClaim b end_size 1 False"]
    by (simp add: enqueue_test_def QUEUE_HELP_VALUE_def QUEUE_HELP_STEPS_def q1_def t_def s_def [symmetric] i'_def)
  moreover have "\<exists>m c. run_alone (queue_enqueue_step codec x) (QReread b end_size 1 False False) (q1, thread) =
      Some ((q1\<lparr>sq_mmm := m, sq_enqueue_segment := c, sq_len := 1, sq_segments := (sq_segments q1)(b := t\<lparr>sg_next := Some c\<rparr>,
        c := fresh_segment codec (sq_default_segment_size q) x)\<rparr>, thread), Inr ()) \<and> mmm_ok m thread \<and> c \<noteq> b \<and> allocated m b"
    by (rule enqueue_extend [of q1 b thread codec x end_size 1])
      (use ab v(6,8,9,11) e size(3) in \<open>auto simp: q1_def t_def set_segment_def\<close>)
  ultimately obtain m c where r: "run_alone (queue_enqueue_step codec x) (QReread a end_size 1 False False) (q, thread) =
      Some ((q1\<lparr>sq_mmm := m, sq_enqueue_segment := c, sq_len := 1, sq_segments := (sq_segments q1)(b := t\<lparr>sg_next := Some c\<rparr>,
        c := fresh_segment codec (sq_default_segment_size q) x)\<rparr>, thread), Inr ())"
    "mmm_ok m thread" "c \<noteq> b" "allocated m b" by metis
  from seg_ok_drained(1) [OF s] have d: "sg_dequeue_index s = i'" by (simp add: i'_def)
  show ?thesis
    unfolding r(1) using dequeue_gap [of "q1\<lparr>sq_mmm := m, sq_enqueue_segment := c, sq_len := 1,
        sq_segments := (sq_segments q1)(b := t\<lparr>sg_next := Some c\<rparr>, c := fresh_segment codec (sq_default_segment_size q) x)\<rparr>"
        b "t\<lparr>sg_next := Some c\<rparr>" i' codec thread] r(2-4) ab(2) cell size room(2) d
    by (auto simp: q1_def t_def set_segment_def queue_len_def)
qed

text \<open>The other way round: the segment an enqueuer moves to is smaller than the size it remembers, and it
  writes behind the last cell.\<close>

lemma queue_stale_end_size_out_of_bounds:
  assumes "allocated (sq_mmm q) (sq_enqueue_segment q)" "sq_enqueue_segment q \<noteq> a"
    "sg_enqueue_index (sq_segments q (sq_enqueue_segment q)) = i" "length (sg_cells (sq_segments q (sq_enqueue_segment q))) \<le> i"
    "i < end_size"
  shows "\<exists>st. run_alone (queue_enqueue_step codec x) (QReread a end_size step need_help False) (q, thread) =
    Some (st, Inl OutOfBounds)"
  using assms run_alone.simps [of "queue_enqueue_step codec x" "QReread a end_size step need_help False"]
    run_alone.simps [of "queue_enqueue_step codec x" "QClaim (sq_enqueue_segment q) end_size step need_help"]
    run_alone.simps [of "queue_enqueue_step codec x" "QCell (sq_enqueue_segment q) end_size i step need_help"]
  by (simp add: enqueue_test_def set_segment_def read_at_def)

end
