(* ===== verification/Bucket_Store.thy ===== *)
theory Bucket_Store
  imports Refhat
begin

text \<open>
  What the stores of the lock-free tables have in common, in terms of buckets with a hash value, an item and an
  epoch: the buckets of the reference table. A bucket is reserved by its hash value first and gets
  an epoch later; migration is triggered at a different fill than in the reference table. The lemmas say what
  each kind of write does to the dictionary of a store, how a probe by steps ends, and
  what a migration leaves.
\<close>

section \<open>Stores\<close>

definition store_dict :: "refhat_bucket list \<Rightarrow> odict" where
  "store_dict bs = odict (map bucket_slot bs)"

definition reserved :: "refhat_bucket list \<Rightarrow> nat" where
  "reserved bs = length (filter (\<lambda>b. rb_hv b \<noteq> 0) bs)"

definition live_count :: "refhat_bucket list \<Rightarrow> nat" where
  "live_count bs = length (filter bucket_live bs)"

definition store_inv :: "nat \<Rightarrow> nat \<Rightarrow> refhat_bucket list \<Rightarrow> bool" where
  "store_inv k next bs \<longleftrightarrow>
     4 \<le> k \<and> (2::nat) ^ k \<le> max (2 ^ 30) (4 * next) \<and> probe_wf k (map rb_hv bs) \<and>
     (\<forall>b \<in> set bs. rb_hv b = 0 \<longrightarrow> rb_epoch b = 0) \<and> slots_ok next (map bucket_slot bs) \<and>
     0 < next \<and> next \<le> epoch_limit"

lemma store_invD:
  assumes "store_inv k next bs"
  shows "4 \<le> k" "(2::nat) ^ k \<le> max (2 ^ 30) (4 * next)" "probe_wf k (map rb_hv bs)"
    "\<And>b. b \<in> set bs \<Longrightarrow> rb_hv b = 0 \<Longrightarrow> rb_epoch b = 0" "slots_ok next (map bucket_slot bs)"
    "0 < next" "next \<le> epoch_limit"
  using assms by (simp_all add: store_inv_def)

lemma size_limit:
  assumes "next \<le> epoch_limit" "(2::nat) ^ k \<le> max (2 ^ 30) (4 * next)" "4 \<le> k"
  shows "(2::nat) ^ k \<le> 2 ^ 57" "k \<le> 57" "hatrack_compute_table_threshold (2 ^ k) = 2 ^ k - 2 ^ k div 4 - 1" "(16::nat) \<le> 2 ^ k"
proof -
  have "max (2 ^ 30) (4 * next) \<le> 2 ^ 57" using assms(1) by (simp add: epoch_limit_def)
  with assms(2) show p: "(2::nat) ^ k \<le> 2 ^ 57" by linarith
  then show "k \<le> 57" using power_le_imp_le_exp [of "2::nat" k 57] by simp
  show q: "(16::nat) \<le> 2 ^ k" using power_increasing [OF assms(3), of "2::nat"] by simp
  show "hatrack_compute_table_threshold (2 ^ k) = 2 ^ k - 2 ^ k div 4 - 1" using threshold_eq [of "2 ^ k"] p q by simp
qed

lemma store_bounds:
  assumes "store_inv k next bs"
  shows "k \<le> 57" "length bs = 2 ^ k" "hatrack_compute_table_threshold (2 ^ k) = 2 ^ k - 2 ^ k div 4 - 1"
    "(2::nat) ^ k \<le> 2 ^ 57" "(16::nat) \<le> 2 ^ k"
  using size_limit [OF store_invD(7,2,1) [OF assms]] probe_wf_length [OF store_invD(3) [OF assms]] by simp_all

lemma live_le_reserved:
  assumes "store_inv k next bs"
  shows "live_count bs \<le> reserved bs"
  unfolding live_count_def reserved_def using store_invD(4) [OF assms] by (intro length_filter_mono) auto

lemma live_less_next:
  assumes "store_inv k next bs"
  shows "live_count bs < next"
  using slots_ok_count [OF store_invD(5,6) [OF assms]] by (simp add: live_count_def filter_map comp_def)

lemma length_store_dict: "length (store_dict bs) = live_count bs"
  by (simp add: store_dict_def length_odict live_count_def filter_map comp_def)

text \<open>A store with an unreserved bucket: the probe for a hash value, and what is known at its end.\<close>

definition store_find :: "nat \<Rightarrow> refhat_bucket list \<Rightarrow> hatrack_hash \<Rightarrow> probe_end outcome" where
  "store_find k bs hv = probe (map rb_hv bs) (2 ^ k - 1) hv (hatrack_bucket_index hv (2 ^ k - 1)) (2 ^ k)"

lemma store_find_cases:
  assumes inv: "store_inv k next bs" and room: "reserved bs < 2 ^ k" and h: "hv \<noteq> 0"
  obtains (present) i where "store_find k bs hv = Inr (Hit i)" "i < length bs" "rb_hv (bs ! i) = hv"
    | (absent) i where "store_find k bs hv = Inr (Vacant i)" "i < length bs" "rb_hv (bs ! i) = 0"
        "probe_wf k ((map rb_hv bs)[i := hv])" "hv \<notin> set (map rb_hv bs)"
proof -
  note D = store_invD [OF inv] and B = store_bounds [OF inv]
  show ?thesis
  proof (cases "hv \<in> set (map rb_hv bs)")
    case True
    then obtain i where i: "i < length bs" "rb_hv (bs ! i) = hv" by (auto simp: in_set_conv_nth)
    then have "store_find k bs hv = Inr (Hit i)"
      unfolding store_find_def by (intro probe_present [OF D(3)]) (use B h in auto)
    then show ?thesis using i present by blast
  next
    case False
    have "length (filter (\<lambda>b. rb_hv b \<noteq> 0) bs) < length bs" using room B(2) by (simp add: reserved_def)
    then obtain j where "j < length bs" "\<not> rb_hv (bs ! j) \<noteq> 0" by (rule filter_length_lt_exists)
    then have "0 \<in> set (map rb_hv bs)" by (force simp: in_set_conv_nth)
    from probe_absent [OF D(3) _ this h False] B(1) obtain i where
      "i < 2 ^ k" "map rb_hv bs ! i = 0" "probe_wf k ((map rb_hv bs)[i := hv])"
      "probe (map rb_hv bs) (2 ^ k - 1) hv (hatrack_bucket_index hv (2 ^ k - 1)) (2 ^ k) = Inr (Vacant i)"
      by auto
    then show ?thesis using absent [of i] B(2) False by (simp add: store_find_def)
  qed
qed

lemma store_unique:
  assumes inv: "store_inv k next bs" and "i < length bs" "j < length bs" "rb_hv (bs ! i) = hv" "rb_hv (bs ! j) = hv"
    and "hv \<noteq> 0"
  shows "i = j"
  using probe_wf_unique [OF store_invD(3) [OF inv], of i j hv] store_bounds(2) [OF inv] assms(2-) by simp

lemma store_get_live:
  assumes inv: "store_inv k next bs" and i: "i < length bs" "rb_hv (bs ! i) = hv" "rb_epoch (bs ! i) \<noteq> 0"
  shows "od_get (store_dict bs) hv = (rb_item (bs ! i), True)"
proof -
  have "bucket_slot (bs ! i) \<in> set (map bucket_slot bs)" using i(1) by simp
  then have "(hv, rb_item (bs ! i), rb_epoch (bs ! i)) \<in> set (map bucket_slot bs)"
    unfolding bucket_slot_def using i(2) by simp
  then show ?thesis unfolding store_dict_def by (rule odict_get [OF store_invD(5) [OF inv]]) (fact i(3))
qed

lemma store_get_dead:
  assumes inv: "store_inv k next bs" and i: "i < length bs" "rb_hv (bs ! i) = hv" "rb_epoch (bs ! i) = 0" and h: "hv \<noteq> 0"
  shows "od_get (store_dict bs) hv = (0, False)" "\<And>s. s \<in> set (map bucket_slot bs) \<Longrightarrow> slot_live s \<Longrightarrow> fst s \<noteq> hv"
proof -
  have dead: "rb_epoch b = 0" if "b \<in> set bs" "rb_hv b = hv" for b
    using that store_unique [OF inv i(1) _ i(2) _ h] i(3) by (metis in_set_conv_nth)
  then show "od_get (store_dict bs) hv = (0, False)"
    unfolding store_dict_def by (intro odict_get_absent) (auto simp: bucket_slot_def)
  show "fst s \<noteq> hv" if "s \<in> set (map bucket_slot bs)" "slot_live s" for s
    using that dead by (auto simp: bucket_slot_def slot_live_def)
qed

lemma store_get_absent:
  assumes "hv \<notin> set (map rb_hv bs)"
  shows "od_get (store_dict bs) hv = (0, False)"
  unfolding store_dict_def using assms by (intro odict_get_absent) (auto simp: bucket_slot_def)

section \<open>Writes\<close>

lemma store_invI:
  assumes "store_inv k next bs" "next \<le> next'" "next' \<le> epoch_limit" "probe_wf k (map rb_hv bs')"
    "\<And>b. b \<in> set bs' \<Longrightarrow> rb_hv b = 0 \<Longrightarrow> rb_epoch b = 0" "slots_ok next' (map bucket_slot bs')"
  shows "store_inv k next' bs'"
  using assms by (auto simp: store_inv_def)

lemma store_overwrite:
  fixes v :: ptr
  assumes inv: "store_inv k next bs" and i: "i < length bs" and b: "rb_epoch (bs ! i) \<noteq> 0"
  defines "b' \<equiv> (bs ! i)\<lparr>rb_item := v\<rparr>"
  shows "store_inv k next (bs[i := b'])" "store_dict (bs[i := b']) = od_set (rb_hv (bs ! i)) v (store_dict bs)"
    "reserved (bs[i := b']) = reserved bs" "live_count (bs[i := b']) = live_count bs"
proof -
  note D = store_invD [OF inv]
  have old: "map bucket_slot bs ! i = (rb_hv (bs ! i), rb_item (bs ! i), rb_epoch (bs ! i))"
    using i by (simp add: bucket_slot_def)
  have new: "bucket_slot b' = (rb_hv (bs ! i), v, rb_epoch (bs ! i))" by (simp add: b'_def bucket_slot_def)
  have w: "odict ((map bucket_slot bs)[i := bucket_slot b']) = od_set (rb_hv (bs ! i)) v (odict (map bucket_slot bs))"
    "slots_ok next ((map bucket_slot bs)[i := bucket_slot b'])"
    unfolding new by (rule odict_overwrite [OF D(5) _ old b]; use i in simp)+
  have same: "map rb_hv (bs[i := b']) = map rb_hv bs" by (rule map_update_eq) (use i in \<open>simp_all add: b'_def\<close>)
  show "store_dict (bs[i := b']) = od_set (rb_hv (bs ! i)) v (store_dict bs)"
    using w(1) by (simp add: store_dict_def map_update)
  show "store_inv k next (bs[i := b'])"
  proof (rule store_invI [OF inv])
    show "rb_epoch b = 0" if "b \<in> set (bs[i := b'])" "rb_hv b = 0" for b
      using that set_update_subset_insert [of bs i b'] D(4) i by (auto simp: b'_def)
  qed (use D same w(2) in \<open>simp_all add: map_update\<close>)
  show "reserved (bs[i := b']) = reserved bs" "live_count (bs[i := b']) = live_count bs"
    using length_filter_update [OF i, of "\<lambda>b. rb_hv b \<noteq> 0" b'] length_filter_update [OF i, of bucket_live b']
    by (simp_all add: b'_def reserved_def live_count_def split: if_splits)
qed

lemma store_insert:
  fixes v :: ptr
  assumes inv: "store_inv k next bs" and i: "i < length bs" and b: "rb_epoch (bs ! i) = 0" "rb_hv (bs ! i) \<noteq> 0"
    and n: "next < epoch_limit"
  defines "b' \<equiv> (bs ! i)\<lparr>rb_item := v, rb_epoch := next\<rparr>"
  shows "store_inv k (Suc next) (bs[i := b'])" "store_dict (bs[i := b']) = store_dict bs @ [(rb_hv (bs ! i), v)]"
    "reserved (bs[i := b']) = reserved bs" "live_count (bs[i := b']) = Suc (live_count bs)"
proof -
  note D = store_invD [OF inv]
  have new: "bucket_slot b' = (rb_hv (bs ! i), v, next)" by (simp add: b'_def bucket_slot_def)
  have dead: "\<not> slot_live (map bucket_slot bs ! i)" using i b(1) by simp
  have w: "odict ((map bucket_slot bs)[i := bucket_slot b']) = odict (map bucket_slot bs) @ [(rb_hv (bs ! i), v)]"
    "slots_ok (Suc next) ((map bucket_slot bs)[i := bucket_slot b'])"
    unfolding new
    by (rule odict_insert [OF D(5) _ dead _ D(6)]; use i store_get_dead(2) [OF inv i refl b] in simp)+
  have same: "map rb_hv (bs[i := b']) = map rb_hv bs" by (rule map_update_eq) (use i in \<open>simp_all add: b'_def\<close>)
  show "store_dict (bs[i := b']) = store_dict bs @ [(rb_hv (bs ! i), v)]"
    using w(1) by (simp add: store_dict_def map_update)
  show "store_inv k (Suc next) (bs[i := b'])"
  proof (rule store_invI [OF inv])
    show "rb_epoch b = 0" if "b \<in> set (bs[i := b'])" "rb_hv b = 0" for b
      using that set_update_subset_insert [of bs i b'] D(4) b(2) by (auto simp: b'_def)
  qed (use D same w(2) n in \<open>simp_all add: map_update\<close>)
  show "reserved (bs[i := b']) = reserved bs" "live_count (bs[i := b']) = Suc (live_count bs)"
    using length_filter_update [OF i, of "\<lambda>b. rb_hv b \<noteq> 0" b'] length_filter_update [OF i, of bucket_live b'] b D(6)
    by (simp_all add: b'_def reserved_def live_count_def split: if_splits)
qed

text \<open>A slot that holds nothing can be written with anything that holds nothing.\<close>

lemma store_dead_write:
  assumes inv: "store_inv k next bs" and i: "i < length bs" and b: "rb_epoch (bs ! i) = 0" "rb_epoch b' = 0"
    and wf: "probe_wf k (map rb_hv (bs[i := b']))"
  shows "store_inv k next (bs[i := b'])" "store_dict (bs[i := b']) = store_dict bs" "live_count (bs[i := b']) = live_count bs"
proof -
  note D = store_invD [OF inv]
  have same: "filter slot_live (map bucket_slot (bs[i := b'])) = filter slot_live (map bucket_slot bs)"
    using i b by (simp add: map_update filter_update_dead)
  have "slots_ok next (map bucket_slot (bs[i := b']))" by (rule slots_ok_moved [OF _ D(5,6)]) (simp only: same)
  moreover have "rb_epoch b = 0" if "b \<in> set (bs[i := b'])" "rb_hv b = 0" for b
    using that set_update_subset_insert [of bs i b'] D(4) b(2) by auto
  ultimately show "store_inv k next (bs[i := b'])" using D wf by (intro store_invI [OF inv]) simp_all
  show "store_dict (bs[i := b']) = store_dict bs" unfolding store_dict_def by (rule odict_moved [OF _ D(5)]) (simp only: same)
  show "live_count (bs[i := b']) = live_count bs" using i b by (simp add: live_count_def filter_update_dead)
qed

lemma store_kill:
  fixes w :: ptr
  assumes inv: "store_inv k next bs" and i: "i < length bs" and b: "rb_epoch (bs ! i) \<noteq> 0"
  defines "b' \<equiv> (bs ! i)\<lparr>rb_item := w, rb_epoch := 0\<rparr>"
  shows "store_inv k next (bs[i := b'])" "store_dict (bs[i := b']) = od_remove (rb_hv (bs ! i)) (store_dict bs)"
    "reserved (bs[i := b']) = reserved bs" "Suc (live_count (bs[i := b'])) = live_count bs"
proof -
  note D = store_invD [OF inv]
  define d where "d = (bs ! i)\<lparr>rb_epoch := 0\<rparr>"
  have old: "map bucket_slot bs ! i = (rb_hv (bs ! i), rb_item (bs ! i), rb_epoch (bs ! i))"
    using i by (simp add: bucket_slot_def)
  have new: "bucket_slot d = (rb_hv (bs ! i), rb_item (bs ! i), 0)" by (simp add: d_def bucket_slot_def)
  have w: "odict ((map bucket_slot bs)[i := bucket_slot d]) = od_remove (rb_hv (bs ! i)) (odict (map bucket_slot bs))"
    "slots_ok next ((map bucket_slot bs)[i := bucket_slot d])"
    unfolding new by (rule odict_kill [OF D(5) _ old b]; use i in simp)+
  have same: "map rb_hv (bs[i := d]) = map rb_hv bs" by (rule map_update_eq) (use i in \<open>simp_all add: d_def\<close>)
  have inv_d: "store_inv k next (bs[i := d])"
  proof (rule store_invI [OF inv])
    show "rb_epoch b = 0" if "b \<in> set (bs[i := d])" "rb_hv b = 0" for b
      using that set_update_subset_insert [of bs i d] D(4) by (auto simp: d_def)
  qed (use D same w(2) in \<open>simp_all add: map_update\<close>)
  have upd: "bs[i := b'] = (bs[i := d])[i := b']" by simp
  have wf: "probe_wf k (map rb_hv ((bs[i := d])[i := b']))"
    using D(3) map_update_eq [of rb_hv b' bs i] i by (simp add: b'_def)
  have dead: "rb_epoch ((bs[i := d]) ! i) = 0" "rb_epoch b' = 0" using i by (simp_all add: d_def b'_def)
  note k = store_dead_write [OF inv_d _ dead wf, unfolded length_list_update, OF i, folded upd]
  show "store_inv k next (bs[i := b'])" by (fact k(1))
  show "store_dict (bs[i := b']) = od_remove (rb_hv (bs ! i)) (store_dict bs)"
    using k(2) w(1) by (simp add: store_dict_def map_update)
  show "reserved (bs[i := b']) = reserved bs" "Suc (live_count (bs[i := b'])) = live_count bs"
    using length_filter_update [OF i, of "\<lambda>b. rb_hv b \<noteq> 0" b'] length_filter_update [OF i, of bucket_live b'] b
    by (simp_all add: b'_def reserved_def live_count_def split: if_splits)
qed

text \<open>Reserving a bucket by its hash value.\<close>

lemma store_acquire:
  fixes hv :: hatrack_hash
  assumes inv: "store_inv k next bs" and i: "i < length bs" "rb_hv (bs ! i) = 0" and h: "hv \<noteq> 0"
    and wf: "probe_wf k ((map rb_hv bs)[i := hv])"
  defines "b' \<equiv> (bs ! i)\<lparr>rb_hv := hv\<rparr>"
  shows "store_inv k next (bs[i := b'])" "store_dict (bs[i := b']) = store_dict bs"
    "reserved (bs[i := b']) = Suc (reserved bs)" "live_count (bs[i := b']) = live_count bs"
proof -
  have dead: "rb_epoch (bs ! i) = 0" "rb_epoch b' = 0" using store_invD(4) [OF inv, of "bs ! i"] i by (simp_all add: b'_def)
  have "probe_wf k (map rb_hv (bs[i := b']))" using wf by (simp add: map_update b'_def)
  note w = store_dead_write [OF inv i(1) dead this]
  show "store_inv k next (bs[i := b'])" "store_dict (bs[i := b']) = store_dict bs" "live_count (bs[i := b']) = live_count bs"
    by (fact w)+
  show "reserved (bs[i := b']) = Suc (reserved bs)"
    using length_filter_update [OF i(1), of "\<lambda>b. rb_hv b \<noteq> 0" b'] i(2) h by (simp add: b'_def reserved_def)
qed

section \<open>Migration\<close>

text \<open>The size of the next store: as computed from the live buckets, or doubled.\<close>

lemma store_new_size:
  assumes inv: "store_inv k next bs" and few: "live_count bs \<le> hatrack_compute_table_threshold (2 ^ k)"
  obtains k' where "hatrack_new_size (2 ^ k - 1) (live_count bs) = 2 ^ k'" "4 \<le> k'"
    "(2::nat) ^ k' \<le> max (2 ^ 30) (4 * next)" "live_count bs < hatrack_compute_table_threshold (2 ^ k')"
proof -
  note D = store_invD [OF inv] and B = store_bounds [OF inv]
  obtain k' where k': "4 \<le> k'" "hatrack_new_size (2 ^ k - 1) (live_count bs) = 2 ^ k'"
    "live_count bs < hatrack_compute_table_threshold (2 ^ k')"
    "(2::nat) ^ k' \<le> max 128 (max (2 ^ k) (4 * live_count bs))"
    using new_size_room [OF D(1), of "live_count bs"] B(1) few by auto
  have "(2::nat) ^ k' \<le> max 128 (max (2 ^ k) (4 * (live_count bs + 1)))" using k'(4) by (auto simp: le_max_iff_disj)
  from size_bound_step [OF this D(2) live_less_next [OF inv]] k' that show ?thesis by blast
qed

lemma store_double:
  assumes inv: "store_inv k next bs" and few: "live_count bs \<le> hatrack_compute_table_threshold (2 ^ k)"
    and grown: "hatrack_compute_table_threshold (2 ^ k) \<le> next"
  shows "(2::nat) ^ (k + 1) \<le> max (2 ^ 30) (4 * next)" "live_count bs < hatrack_compute_table_threshold (2 ^ (k + 1))"
proof -
  note B = store_bounds [OF inv]
  have "2 * (2::nat) ^ k \<le> 4 * (2 ^ k - 2 ^ k div 4 - 1)" using B(5) by linarith
  also have "\<dots> \<le> 4 * next" using grown B(3) by simp
  finally show lim: "(2::nat) ^ (k + 1) \<le> max (2 ^ 30) (4 * next)" by simp
  have "hatrack_compute_table_threshold (2 ^ k) < hatrack_compute_table_threshold (2 ^ (k + 1))"
    using size_limit(3) [OF _ lim] store_invD(1,7) [OF inv] B(3,5) by simp
  with few show "live_count bs < hatrack_compute_table_threshold (2 ^ (k + 1))" by simp
qed

text \<open>The buckets a migration fills, from empty ones, with the live buckets of a store.\<close>

lemma store_migrated:
  assumes inv: "store_inv k next bs" and k': "4 \<le> k'" "(2::nat) ^ k' \<le> max (2 ^ 30) (4 * next)"
    "live_count bs < hatrack_compute_table_threshold (2 ^ k')"
  obtains nb where "placed k' bs (replicate (2 ^ k') zero_bucket) nb" "store_inv k' next nb"
    "store_dict nb = store_dict bs" "reserved nb = live_count bs" "live_count nb = live_count bs"
proof -
  note D = store_invD [OF inv] and L = size_limit [OF store_invD(7) [OF inv] k'(2,1)]
  have thr': "hatrack_compute_table_threshold (2 ^ k') < 2 ^ k'" using L(3,4) by simp
  have d: "distinct (map rb_hv (filter bucket_live bs))"
    using D(5) by (simp add: slots_ok_def filter_live_slots bucket_slot_def comp_def)
  have z: "0 \<notin> rb_hv ` set (filter bucket_live bs)" using D(4) by auto
  have e: "rb_hv ` set (replicate (2 ^ k') zero_bucket) = {0}" by (auto simp: zero_bucket_def image_iff)
  obtain nb where nb: "placed k' bs (replicate (2 ^ k') zero_bucket) nb"
    "probe_wf k' (map rb_hv nb)" "\<forall>b \<in> set nb. rb_hv b = 0 \<longleftrightarrow> \<not> bucket_live b"
    "mset (filter bucket_live nb) = mset (filter bucket_live bs)"
    using placed_all [of k' "replicate (2 ^ k') zero_bucket" bs] d z e L(2) probe_wf_empty [of k'] D(4)
      k'(3) thr'
    by (auto simp: zero_bucket_def live_count_def)
  have ms: "mset (filter slot_live (map bucket_slot nb)) = mset (filter slot_live (map bucket_slot bs))"
    by (simp only: filter_live_slots mset_map nb(4))
  have live: "live_count nb = live_count bs"
    using arg_cong [OF nb(4), of size] by (simp add: live_count_def del: mset_filter)
  have "filter (\<lambda>b. rb_hv b \<noteq> 0) nb = filter bucket_live nb" using nb(3) by (intro filter_cong) auto
  then have res: "reserved nb = live_count bs" using live by (simp add: reserved_def live_count_def)
  have "store_inv k' next nb"
    using k' nb(2,3) slots_ok_moved [OF ms D(5,6)] D(6,7) by (auto simp: store_inv_def)
  moreover have "store_dict nb = store_dict bs" unfolding store_dict_def by (rule odict_moved [OF ms D(5)])
  ultimately show ?thesis using that nb(1) res live by simp
qed

section \<open>Probing step by step\<close>

text \<open>
  A probe loop whose iterations are steps of an operation: \<open>P b j\<close> is the point where bucket \<open>b\<close> is looked at in
  iteration \<open>j\<close>, \<open>F b\<close> where the bucket with the hash value was found, \<open>V b j\<close> where an unreserved one was.
\<close>

lemma run_probe:
  assumes step: "\<And>b j. b < length ks \<Longrightarrow> j \<le> ls \<Longrightarrow> step (P b j) s =
      (s, Inl (if ks ! b = 0 then V b j else if ks ! b = hv then F b
               else if j < ls then P (wrap64 (b + 1) AND ls) (j + 1) else N b j))"
    and h: "hv \<noteq> 0"
  shows "probe ks ls hv b n = Inr r \<Longrightarrow> j + n = ls + 1 \<Longrightarrow>
    case r of Hit c \<Rightarrow> run_alone step (P b j) s = run_alone step (F c) s
    | Vacant c \<Rightarrow> \<exists>j'. run_alone step (P b j) s = run_alone step (V c j') s"
proof (induction n arbitrary: b j)
  case (Suc n)
  from Suc.prems(1) have b: "b < length ks" by (auto simp: outcome_simps)
  have j: "j \<le> ls" using Suc.prems(2) by simp
  have st: "run_alone step (P b j) s = run_alone step (if ks ! b = 0 then V b j else if ks ! b = hv then F b
      else if j < ls then P (wrap64 (b + 1) AND ls) (j + 1) else N b j) s"
    by (rule run_next) (rule step [OF b j])
  show ?case
  proof (cases "ks ! b = 0 \<or> ks ! b = hv")
    case True
    then show ?thesis
    proof
      assume "ks ! b = 0"
      then show ?thesis using Suc.prems(1) b h st by (auto intro: exI [of _ j])
    next
      assume "ks ! b = hv"
      then show ?thesis using Suc.prems(1) b h st by auto
    qed
  next
    case False
    with Suc.prems(1) b have p: "probe ks ls hv (wrap64 (b + 1) AND ls) n = Inr r" by (simp split: if_splits)
    then have "n \<noteq> 0" by (cases n) auto
    then have "j < ls" using Suc.prems(2) by simp
    with False st have "run_alone step (P b j) s = run_alone step (P (wrap64 (b + 1) AND ls) (j + 1)) s"
      by simp
    with Suc.IH [OF p, of "j + 1"] Suc.prems(2) show ?thesis by (simp split: probe_end.splits)
  qed
qed simp

end
