(* ===== verification/Hihat.thy ===== *)
theory Hihat
  imports Swimcap Bucket_Store
begin

text \<open>
  The lock-free tables \<^verbatim>\<open>src/hatrack/hash/hihat.c\<close>, \<^verbatim>\<open>hihat-a.c\<close> and \<^verbatim>\<open>witchhat.c\<close>. The three files are one
  algorithm: buckets reserved by a compare-and-swap on the hash value, records (item and
  epoch, with two flags for migration) written by compare-and-swap, and a migration
  every thread can take part in. \<^verbatim>\<open>hihat-a\<close> lets late migrators sleep first; \<^verbatim>\<open>witchhat\<close> counts retries, asks
  the others for help, and migrates early. The model has each function once, with the \<open>variant\<close> as an argument
  where the files differ.

  Every operation is a step function with one access to the table's shared memory per step; a call of the memory manager is one
  step. The points an operation does not have are unreachable. An access to a store reads the memory manager's cell for it, so touching
  a freed store is \<open>UseAfterFree\<close>. \<^verbatim>\<open>top->next_epoch++\<close> is not atomic in the source and takes two steps.
\<close>

section \<open>Definitions\<close>

datatype variant = Plain | Sleeping | Helping

record hihat_record =
  hr_item :: ptr
  hr_info :: "64 word"

record hihat_bucket =
  hb_hv :: hatrack_hash
  hb_record :: hihat_record

record hihat_store =
  hs_last_slot :: nat
  hs_threshold :: nat
  hs_used_count :: nat
  hs_store_next :: "nat option"
  hs_buckets :: "hihat_bucket list"

record hihat =
  hh_store_current :: nat
  hh_item_count :: nat
  hh_help_needed :: nat
  hh_next_epoch :: nat
  hh_stores :: "nat \<Rightarrow> hihat_store"
  hh_mmm :: mmm

type_synonym hihat_state = "hihat \<times> mmm_thread"

definition HIHAT_F_MOVING :: "64 word" where "HIHAT_F_MOVING = 0x8000000000000000"
definition HIHAT_F_MOVED :: "64 word" where "HIHAT_F_MOVED = 0x4000000000000000"
definition HIHAT_F_INITED :: "64 word" where "HIHAT_F_INITED = 0x2000000000000000"
definition HIHAT_EPOCH_MASK :: "64 word" where "HIHAT_EPOCH_MASK = 0x1fffffffffffffff"

text \<open>The literal in \<^verbatim>\<open>witchhat-internal.h\<close> is \<^verbatim>\<open>040000000000000000\<close>: octal, which is \<open>4 * 8 ^ 16\<close>.\<close>

definition WITCHHAT_F_MOVED :: "64 word" where "WITCHHAT_F_MOVED = 4 * 8 ^ 16"

definition f_moved :: "variant \<Rightarrow> 64 word" where
  "f_moved v = (if v = Helping then WITCHHAT_F_MOVED else HIHAT_F_MOVED)"

definition HATRACK_RETRY_THRESHOLD :: nat where "HATRACK_RETRY_THRESHOLD = 7"

definition sizeof_hihat_store :: nat where "sizeof_hihat_store = 32"
definition sizeof_hihat_bucket :: nat where "sizeof_hihat_bucket = 32"

definition sizeof_hihat :: "variant \<Rightarrow> nat" where
  "sizeof_hihat v = (if v = Helping then 32 else 24)"

text \<open>The tests of the flags of a record.\<close>

definition rec_epoch :: "hihat_record \<Rightarrow> 64 word" where
  "rec_epoch r = hr_info r AND HIHAT_EPOCH_MASK"

definition rec_moving :: "hihat_record \<Rightarrow> bool" where
  "rec_moving r \<longleftrightarrow> hr_info r AND HIHAT_F_MOVING \<noteq> 0"

definition rec_moved :: "variant \<Rightarrow> hihat_record \<Rightarrow> bool" where
  "rec_moved v r \<longleftrightarrow> hr_info r AND f_moved v \<noteq> 0"

definition rec_or :: "64 word \<Rightarrow> hihat_bucket \<Rightarrow> hihat_bucket" where
  "rec_or flags b = b\<lparr>hb_record := (hb_record b)\<lparr>hr_info := hr_info (hb_record b) OR flags\<rparr>\<rparr>"

definition zero_record :: hihat_record where
  "zero_record = \<lparr>hr_item = 0, hr_info = 0\<rparr>"

definition zero_hihat_bucket :: hihat_bucket where
  "zero_hihat_bucket = \<lparr>hb_hv = 0, hb_record = zero_record\<rparr>"

definition hihat_store_new :: "hihat \<Rightarrow> nat \<Rightarrow> hihat \<times> nat" where
  "hihat_store_new self sz =
     (let alloc_len = wrap64 (sizeof_hihat_store + wrap64 (sizeof_hihat_bucket * sz));
          (m, store) = mmm_alloc_committed (hh_mmm self) alloc_len
      in (self\<lparr>hh_mmm := m, hh_stores := (hh_stores self)(store :=
            \<lparr>hs_last_slot = wrap64 (sz + 2 ^ 64 - 1),
             hs_threshold = hatrack_compute_table_threshold sz,
             hs_used_count = 0,
             hs_store_next = None,
             hs_buckets = replicate ((alloc_len - sizeof_hihat_store) div sizeof_hihat_bucket) zero_hihat_bucket\<rparr>)\<rparr>,
          store))"

text \<open>
  \<open>hihat_init_size\<close> writes every field of the table but, in \<^verbatim>\<open>witchhat\<close> too, \<^verbatim>\<open>help_needed\<close>, which is whatever the
  allocation had there.
\<close>

definition hihat_init_size :: "variant \<Rightarrow> (nat \<Rightarrow> hihat_store) \<Rightarrow> nat \<Rightarrow> mmm \<Rightarrow> int \<Rightarrow> hihat outcome" where
  "hihat_init_size v stores help_needed m sz =
     (let msg = (case v of Plain \<Rightarrow> ''invalid size in hihat_init_size'' | Sleeping \<Rightarrow> ''invalid size in hihat_a_init_size''
                 | Helping \<Rightarrow> ''invalid size in witchhat_init_size'')
      in if sz < 0 \<or> 64 < sz then Inl (Panic msg)
      else if sz < int HATRACK_MIN_SIZE_LOG then Inl (Panic msg)
      else if 31 \<le> sz then Inl BadShift
      else let (self, store) = hihat_store_new
             \<lparr>hh_store_current = 0, hh_item_count = 0, hh_help_needed = help_needed, hh_next_epoch = 1,
              hh_stores = stores, hh_mmm = m\<rparr> (push_bit (nat sz) 1)
           in Inr (self\<lparr>hh_store_current := store\<rparr>))"

definition hihat_init :: "variant \<Rightarrow> (nat \<Rightarrow> hihat_store) \<Rightarrow> nat \<Rightarrow> mmm \<Rightarrow> hihat outcome" where
  "hihat_init v stores help_needed m = hihat_init_size v stores help_needed m (int HATRACK_MIN_SIZE_LOG)"

definition hihat_new :: "variant \<Rightarrow> (nat \<Rightarrow> hihat_store) \<Rightarrow> nat \<Rightarrow> mmm \<Rightarrow> hihat outcome" where
  "hihat_new v stores help_needed m = hihat_init v stores help_needed m"

definition hihat_new_size :: "variant \<Rightarrow> (nat \<Rightarrow> hihat_store) \<Rightarrow> nat \<Rightarrow> mmm \<Rightarrow> int \<Rightarrow> hihat outcome" where
  "hihat_new_size v stores help_needed m sz = hihat_init_size v stores help_needed m sz"

definition hihat_cleanup :: "hihat \<Rightarrow> mmm outcome" where
  "hihat_cleanup self = mmm_retire_unused (hh_mmm self) (hh_store_current self)"

definition hihat_delete :: "variant \<Rightarrow> hihat \<Rightarrow> (mmm \<times> nat) outcome" where
  "hihat_delete v self = and_then (hihat_cleanup self) (\<lambda>m. Inr (m, sizeof_hihat v))"

definition hihat_len :: "hihat \<Rightarrow> nat" where
  "hihat_len self = hh_item_count self"

definition hihat_len_mmm :: "hihat \<Rightarrow> mmm_thread \<Rightarrow> nat" where
  "hihat_len_mmm self thread = hihat_len self"

text \<open>Stores and buckets behind a pointer.\<close>

definition read_store :: "hihat \<Rightarrow> nat \<Rightarrow> hihat_store outcome" where
  "read_store self s = and_then (mmm_get_header (hh_mmm self) s) (\<lambda>h. Inr (hh_stores self s))"

definition write_store :: "hihat \<Rightarrow> nat \<Rightarrow> hihat_store \<Rightarrow> hihat" where
  "write_store self s st = self\<lparr>hh_stores := (hh_stores self)(s := st)\<rparr>"

definition with_bucket ::
  "hihat_state \<Rightarrow> nat \<Rightarrow> nat \<Rightarrow> (hihat_store \<Rightarrow> hihat_bucket \<Rightarrow> hihat_state \<times> ('pc + 'r outcome)) \<Rightarrow>
   hihat_state \<times> ('pc + 'r outcome)" where
  "with_bucket st s i f =
     or_fail st (read_store (fst st) s) (\<lambda>store.
       or_fail st (read_at (hs_buckets store) i) (\<lambda>bucket. f store bucket))"

definition set_bucket :: "hihat_state \<Rightarrow> nat \<Rightarrow> nat \<Rightarrow> hihat_bucket \<Rightarrow> hihat_state" where
  "set_bucket st s i b =
     (let store = hh_stores (fst st) s
      in (write_store (fst st) s (store\<lparr>hs_buckets := (hs_buckets store)[i := b]\<rparr>), snd st))"

subsection \<open>Migration\<close>

text \<open>
  The points of \<^verbatim>\<open>hihat_store_migrate\<close>. The first argument is the store to migrate from; then, as far as they exist,
  the store to migrate to, the loop index and \<^verbatim>\<open>new_used\<close>.
\<close>

datatype migrate_pc =
    MStart nat                                   \<comment> \<open>is the store still the current one?\<close>
  | MSleep nat                                   \<comment> \<open>\<^verbatim>\<open>hihat-a\<close>: is someone migrating?\<close>
  | MAwake nat bool                              \<comment> \<open>read \<^verbatim>\<open>store_next\<close> after sleeping, the first or the second time\<close>
  | MCheck nat bool "nat option"                          \<comment> \<open>is it installed?\<close>
  | MMark nat nat nat
  | MMarkSet nat nat nat
  | MMarkRead nat nat nat
  | MMarkMoved nat nat nat
  | MNext nat nat
  | MSize nat nat                                \<comment> \<open>\<^verbatim>\<open>witchhat\<close>: does anyone need help?\<close>
  | MAlloc nat nat nat                           \<comment> \<open>allocate a store of that size\<close>
  | MLink nat nat nat
  | MDiscard nat nat nat nat
  | MMove nat nat nat nat
  | MHash nat nat nat nat hihat_record
  | MProbe nat nat nat nat hihat_record hatrack_hash nat nat
  | MTake nat nat nat nat hihat_record hatrack_hash nat nat
  | MCopy nat nat nat nat hihat_record nat
  | MFinish nat nat nat nat
  | MUsed nat nat nat
  | MInstall nat nat
  | MRetire nat
  | MReturn

text \<open>The next iterations of the loops.\<close>

definition mark_next :: "hihat_store \<Rightarrow> nat \<Rightarrow> nat \<Rightarrow> nat \<Rightarrow> migrate_pc" where
  "mark_next store s i used = (if i < hs_last_slot store then MMark s (i + 1) used else MNext s used)"

definition move_start :: "variant \<Rightarrow> nat \<Rightarrow> nat \<Rightarrow> nat \<Rightarrow> migrate_pc" where
  "move_start v s n used = MMove s n 0 (if v = Sleeping then 0 else used)"

definition move_next :: "hihat_store \<Rightarrow> nat \<Rightarrow> nat \<Rightarrow> nat \<Rightarrow> nat \<Rightarrow> migrate_pc" where
  "move_next store s n i used = (if i < hs_last_slot store then MMove s n (i + 1) used else MUsed s n used)"

definition place_next ::
  "hihat_store \<Rightarrow> nat \<Rightarrow> nat \<Rightarrow> nat \<Rightarrow> nat \<Rightarrow> hihat_record \<Rightarrow> hatrack_hash \<Rightarrow> nat \<Rightarrow> nat \<Rightarrow> migrate_pc" where
  "place_next new_store s n i used record hv bix j =
     (if j < hs_last_slot new_store
      then MProbe s n i used record hv (wrap64 (bix + 1) AND hs_last_slot new_store) (j + 1)
      else MCopy s n i used record bix)"

definition count_live :: "hihat_record \<Rightarrow> nat \<Rightarrow> nat" where
  "count_live record used = (if rec_epoch record \<noteq> 0 then wrap64 (used + 1) else used)"

fun hihat_store_migrate_step ::
  "variant \<Rightarrow> migrate_pc \<Rightarrow> hihat_state \<Rightarrow> hihat_state \<times> (migrate_pc + nat outcome)" where
  "hihat_store_migrate_step v (MStart s) (tab, thread) =
     ((tab, thread),
      if hh_store_current tab \<noteq> s then Inr (Inr (hh_store_current tab))
      else Inl (if v = Sleeping then MSleep s else MMark s 0 0))"
| "hihat_store_migrate_step v (MSleep s) (tab, thread) =
     or_fail (tab, thread) (read_store tab s) (\<lambda>store.
       ((tab, thread), Inl (if hs_store_next store = None then MMark s 0 0 else MAwake s False)))"
| "hihat_store_migrate_step v (MAwake s again) (tab, thread) =
     or_fail (tab, thread) (read_store tab s) (\<lambda>store.
       ((tab, thread), Inl (MCheck s again (hs_store_next store))))"
| "hihat_store_migrate_step v (MCheck s again n) (tab, thread) =
     ((tab, thread),
      case n of
        None \<Rightarrow> if again then Inr (Inl NullDeref) else Inl (MAwake s True)
      | Some n \<Rightarrow> if n = hh_store_current tab then Inr (Inr n)
                  else Inl (if again then move_start v s n 0 else MAwake s True))"
| "hihat_store_migrate_step v (MMark s i used) (tab, thread) =
     with_bucket (tab, thread) s i (\<lambda>store bucket.
       ((tab, thread),
        Inl (if rec_moving (hb_record bucket)
             then mark_next store s i (count_live (hb_record bucket) used)
             else MMarkSet s i used)))"
| "hihat_store_migrate_step v (MMarkSet s i used) (tab, thread) =
     with_bucket (tab, thread) s i (\<lambda>store bucket.
       (set_bucket (tab, thread) s i (rec_or HIHAT_F_MOVING bucket), Inl (MMarkRead s i used)))"
| "hihat_store_migrate_step v (MMarkRead s i used) (tab, thread) =
     with_bucket (tab, thread) s i (\<lambda>store bucket.
       ((tab, thread),
        Inl (if rec_epoch (hb_record bucket) \<noteq> 0
             then mark_next store s i (count_live (hb_record bucket) used)
             else MMarkMoved s i used)))"
| "hihat_store_migrate_step v (MMarkMoved s i used) (tab, thread) =
     with_bucket (tab, thread) s i (\<lambda>store bucket.
       (set_bucket (tab, thread) s i
          (rec_or (if v = Sleeping then HIHAT_F_MOVING OR f_moved v else f_moved v) bucket),
        Inl (mark_next store s i used)))"
| "hihat_store_migrate_step v (MNext s used) (tab, thread) =
     or_fail (tab, thread) (read_store tab s) (\<lambda>store.
       ((tab, thread),
        Inl (case hs_store_next store of
               Some n \<Rightarrow> move_start v s n used
             | None \<Rightarrow> if v = Helping then MSize s used
                       else MAlloc s used (hatrack_new_size (hs_last_slot store) used))))"
| "hihat_store_migrate_step v (MSize s used) (tab, thread) =
     or_fail (tab, thread) (read_store tab s) (\<lambda>store.
       ((tab, thread),
        Inl (MAlloc s used (if hh_help_needed tab \<noteq> 0 then wrap64 (2 * (hs_last_slot store + 1))
                            else hatrack_new_size (hs_last_slot store) used))))"
| "hihat_store_migrate_step v (MAlloc s used new_size) (tab, thread) =
     (let (tab, candidate_store) = hihat_store_new tab new_size
      in ((tab, thread), Inl (MLink s used candidate_store)))"
| "hihat_store_migrate_step v (MLink s used candidate_store) (tab, thread) =
     or_fail (tab, thread) (read_store tab s) (\<lambda>store.
       case hs_store_next store of
         None \<Rightarrow> ((write_store tab s (store\<lparr>hs_store_next := Some candidate_store\<rparr>), thread),
                  Inl (move_start v s candidate_store used))
       | Some n \<Rightarrow> ((tab, thread), Inl (MDiscard s n used candidate_store)))"
| "hihat_store_migrate_step v (MDiscard s n used candidate_store) (tab, thread) =
     or_fail (tab, thread) (mmm_retire_unused (hh_mmm tab) candidate_store) (\<lambda>m.
       ((tab\<lparr>hh_mmm := m\<rparr>, thread), Inl (move_start v s n used)))"
| "hihat_store_migrate_step v (MMove s n i used) (tab, thread) =
     with_bucket (tab, thread) s i (\<lambda>store bucket.
       let record = hb_record bucket; used = (if v = Sleeping then count_live record used else used)
       in ((tab, thread),
           Inl (if rec_moved v record then move_next store s n i used else MHash s n i used record)))"
| "hihat_store_migrate_step v (MHash s n i used record) (tab, thread) =
     with_bucket (tab, thread) s i (\<lambda>store bucket.
       or_fail (tab, thread) (read_store tab n) (\<lambda>new_store.
         ((tab, thread),
          Inl (MProbe s n i used record (hb_hv bucket)
                 (hatrack_bucket_index (hb_hv bucket) (hs_last_slot new_store)) 0))))"
| "hihat_store_migrate_step v (MProbe s n i used record hv bix j) (tab, thread) =
     with_bucket (tab, thread) n bix (\<lambda>new_store new_bucket.
       ((tab, thread),
        Inl (if hatrack_bucket_unreserved (hb_hv new_bucket) then MTake s n i used record hv bix j
             else if hatrack_hashes_eq (hb_hv new_bucket) hv then MCopy s n i used record bix
             else place_next new_store s n i used record hv bix j)))"
| "hihat_store_migrate_step v (MTake s n i used record hv bix j) (tab, thread) =
     with_bucket (tab, thread) n bix (\<lambda>new_store new_bucket.
       if hb_hv new_bucket = 0
       then (set_bucket (tab, thread) n bix (new_bucket\<lparr>hb_hv := hv\<rparr>), Inl (MCopy s n i used record bix))
       else ((tab, thread),
             Inl (if hatrack_hashes_eq (hb_hv new_bucket) hv then MCopy s n i used record bix
                  else place_next new_store s n i used record hv bix j)))"
| "hihat_store_migrate_step v (MCopy s n i used record bix) (tab, thread) =
     with_bucket (tab, thread) n bix (\<lambda>new_store new_bucket.
       let candidate_record = \<lparr>hr_item = hr_item record,
             hr_info = (if v = Sleeping then rec_epoch record OR HIHAT_F_INITED else rec_epoch record)\<rparr>
       in (if hb_record new_bucket = zero_record
           then set_bucket (tab, thread) n bix (new_bucket\<lparr>hb_record := candidate_record\<rparr>)
           else (tab, thread),
           Inl (MFinish s n i used)))"
| "hihat_store_migrate_step v (MFinish s n i used) (tab, thread) =
     with_bucket (tab, thread) s i (\<lambda>store bucket.
       (set_bucket (tab, thread) s i (rec_or (f_moved v) bucket), Inl (move_next store s n i used)))"
| "hihat_store_migrate_step v (MUsed s n used) (tab, thread) =
     or_fail (tab, thread) (read_store tab n) (\<lambda>new_store.
       (if hs_used_count new_store = 0
        then (write_store tab n (new_store\<lparr>hs_used_count := used\<rparr>), thread) else (tab, thread),
        Inl (MInstall s n)))"
| "hihat_store_migrate_step v (MInstall s n) (tab, thread) =
     (if hh_store_current tab = s
      then ((tab\<lparr>hh_store_current := n\<rparr>, thread), Inl (MRetire s))
      else ((tab, thread), Inl MReturn))"
| "hihat_store_migrate_step v (MRetire s) (tab, thread) =
     or_fail (tab, thread) (mmm_retire (hh_mmm tab) thread s) (\<lambda>(m, thread).
       ((tab\<lparr>hh_mmm := m\<rparr>, thread), Inl MReturn))"
| "hihat_store_migrate_step v MReturn (tab, thread) = ((tab, thread), Inr (Inr (hh_store_current tab)))"


subsection \<open>The operations on one key\<close>

text \<open>
  The points of the operations. The arguments are the store, the count of retries (\<^verbatim>\<open>witchhat\<close> only), then the bucket, the
  record read, the record to write, and what the operation returns.
\<close>

datatype hihat_pc =
    HBegin
  | HCurrent
  | HFirst nat nat
  | HProbe nat nat nat nat                       \<comment> \<open>bucket and iteration\<close>
  | HAcquire nat nat nat nat
  | HUsed nat nat nat
  | HRecord nat nat nat
  | HEpoch nat nat nat hihat_record              \<comment> \<open>read \<^verbatim>\<open>next_epoch\<close>\<close>
  | HBump nat nat nat hihat_record nat           \<comment> \<open>write it back\<close>
  | HInstall nat nat nat hihat_record hihat_record
  | HCount nat nat "ptr \<times> bool"
  | HHelp nat nat                                \<comment> \<open>\<^verbatim>\<open>witchhat\<close>: ask for help\<close>
  | HMigrate nat migrate_pc
  | HFull nat nat "ptr \<times> bool"                   \<comment> \<open>\<^verbatim>\<open>witchhat\<close>: is the store full?\<close>
  | HTidy nat "ptr \<times> bool" migrate_pc            \<comment> \<open>\<^verbatim>\<open>witchhat\<close>: migrate before returning\<close>
  | HUnhelp "ptr \<times> bool"
  | HLeave "ptr \<times> bool"

text \<open>The way out of an operation, and the label \<^verbatim>\<open>migrate_and_retry\<close>.\<close>

definition hihat_return :: "variant \<Rightarrow> nat \<Rightarrow> ptr \<times> bool \<Rightarrow> hihat_pc" where
  "hihat_return v retries r = (if v = Helping \<and> HATRACK_RETRY_THRESHOLD \<le> retries then HUnhelp r else HLeave r)"

definition witchhat_help_required :: "nat \<Rightarrow> bool" where
  "witchhat_help_required retries = (retries = HATRACK_RETRY_THRESHOLD)"

definition migrate_and_retry :: "variant \<Rightarrow> nat \<Rightarrow> nat \<Rightarrow> hihat_pc" where
  "migrate_and_retry v s retries =
     (if v = Helping
      then let retries = wrap64 (retries + 1)
           in if witchhat_help_required retries then HHelp s retries else HMigrate retries (MStart s)
      else HMigrate retries (MStart s))"

definition probe_next :: "hihat_store \<Rightarrow> nat \<Rightarrow> nat \<Rightarrow> nat \<Rightarrow> nat \<Rightarrow> hihat_pc \<Rightarrow> hihat_pc" where
  "probe_next store s retries bix i after =
     (if i < hs_last_slot store then HProbe s retries (wrap64 (bix + 1) AND hs_last_slot store) (i + 1) else after)"

text \<open>The steps all operations have: entering, reading the current store, migrating, leaving.\<close>

definition hihat_first :: "hatrack_hash \<Rightarrow> nat \<Rightarrow> nat \<Rightarrow> hihat_state \<Rightarrow> hihat_state \<times> (hihat_pc + 'r outcome)" where
  "hihat_first hv s retries st =
     or_fail st (read_store (fst st) s) (\<lambda>store.
       (st, Inl (HProbe s retries (hatrack_bucket_index hv (hs_last_slot store)) 0)))"

fun hihat_common_step :: "variant \<Rightarrow> hihat_pc \<Rightarrow> hihat_state \<Rightarrow> hihat_state \<times> (hihat_pc + (ptr \<times> bool) outcome)" where
  "hihat_common_step v HBegin (self, thread) =
     or_fail (self, thread) (mmm_start_basic_op (hh_mmm self) thread) (\<lambda>m. ((self\<lparr>hh_mmm := m\<rparr>, thread), Inl HCurrent))"
| "hihat_common_step v HCurrent (self, thread) = ((self, thread), Inl (HFirst (hh_store_current self) 0))"
| "hihat_common_step v (HHelp s retries) (self, thread) =
     ((self\<lparr>hh_help_needed := wrap64 (hh_help_needed self + 1)\<rparr>, thread), Inl (HMigrate retries (MStart s)))"
| "hihat_common_step v (HMigrate retries pc) (self, thread) =
     call_step (HMigrate retries) (\<lambda>s. HFirst s retries) (hihat_store_migrate_step v pc (self, thread))"
| "hihat_common_step v (HFull s retries r) (self, thread) =
     or_fail (self, thread) (read_store self s) (\<lambda>store.
       ((self, thread), Inl (if hs_threshold store \<le> hs_used_count store then HTidy retries r (MStart s)
                             else hihat_return v retries r)))"
| "hihat_common_step v (HTidy retries r pc) (self, thread) =
     call_step (HTidy retries r) (\<lambda>s. hihat_return v retries r) (hihat_store_migrate_step v pc (self, thread))"
| "hihat_common_step v (HUnhelp r) (self, thread) =
     ((self\<lparr>hh_help_needed := wrap64 (hh_help_needed self + 2 ^ 64 - 1)\<rparr>, thread), Inl (HLeave r))"
| "hihat_common_step v (HLeave r) (self, thread) =
     or_fail (self, thread) (mmm_end_op (hh_mmm self) thread) (\<lambda>m. ((self\<lparr>hh_mmm := m\<rparr>, thread), Inr (Inr r)))"
| "hihat_common_step v pc (self, thread) = ((self, thread), Inr (Inl Unreachable))"

fun hihat_get_step :: "variant \<Rightarrow> hatrack_hash \<Rightarrow> hihat_pc \<Rightarrow> hihat_state \<Rightarrow> hihat_state \<times> (hihat_pc + (ptr \<times> bool) outcome)" where
  "hihat_get_step v hv (HFirst s retries) st = hihat_first hv s retries st"
| "hihat_get_step v hv (HProbe s retries bix i) st =
     with_bucket st s bix (\<lambda>store bucket.
       (st, Inl (if hatrack_bucket_unreserved (hb_hv bucket) then HLeave (0, False)
                 else if hatrack_hashes_eq hv (hb_hv bucket) then HRecord s retries bix
                 else probe_next store s retries bix i (HLeave (0, False)))))"
| "hihat_get_step v hv (HRecord s retries bix) st =
     with_bucket st s bix (\<lambda>store bucket.
       (st, Inl (HLeave (if rec_epoch (hb_record bucket) \<noteq> 0 then (hr_item (hb_record bucket), True) else (0, False)))))"
| "hihat_get_step v hv pc st = hihat_common_step v pc st"

text \<open>Reserving a bucket, in \<^verbatim>\<open>put\<close> and \<^verbatim>\<open>add\<close>.\<close>

fun hihat_reserve_step :: "variant \<Rightarrow> hatrack_hash \<Rightarrow> hihat_pc \<Rightarrow> hihat_state \<Rightarrow> hihat_state \<times> (hihat_pc + (ptr \<times> bool) outcome)" where
  "hihat_reserve_step v hv (HFirst s retries) st = hihat_first hv s retries st"
| "hihat_reserve_step v hv (HProbe s retries bix i) st =
     with_bucket st s bix (\<lambda>store bucket.
       (st, Inl (if hatrack_bucket_unreserved (hb_hv bucket) then HAcquire s retries bix i
                 else if hatrack_hashes_eq hv (hb_hv bucket) then HRecord s retries bix
                 else probe_next store s retries bix i (migrate_and_retry v s retries))))"
| "hihat_reserve_step v hv (HAcquire s retries bix i) st =
     with_bucket st s bix (\<lambda>store bucket.
       if hb_hv bucket = 0 then (set_bucket st s bix (bucket\<lparr>hb_hv := hv\<rparr>), Inl (HUsed s retries bix))
       else (st, Inl (if hatrack_hashes_eq hv (hb_hv bucket) then HRecord s retries bix
                      else probe_next store s retries bix i (migrate_and_retry v s retries))))"
| "hihat_reserve_step v hv (HUsed s retries bix) (self, thread) =
     or_fail (self, thread) (read_store self s) (\<lambda>store.
       ((write_store self s (store\<lparr>hs_used_count := wrap64 (hs_used_count store + 1)\<rparr>), thread),
        Inl (if hs_threshold store \<le> hs_used_count store then migrate_and_retry v s retries else HRecord s retries bix)))"
| "hihat_reserve_step v hv pc st = hihat_common_step v pc st"

fun hihat_put_step ::
  "variant \<Rightarrow> hatrack_hash \<Rightarrow> ptr \<Rightarrow> hihat_pc \<Rightarrow> hihat_state \<Rightarrow> hihat_state \<times> (hihat_pc + (ptr \<times> bool) outcome)" where
  "hihat_put_step v hv item (HRecord s retries bix) st =
     with_bucket st s bix (\<lambda>store bucket.
       let record = hb_record bucket
       in (st, Inl (if rec_moving record then migrate_and_retry v s retries
                    else if rec_epoch record \<noteq> 0
                    then HInstall s retries bix record \<lparr>hr_item = item, hr_info = hr_info record\<rparr>
                    else HEpoch s retries bix record)))"
| "hihat_put_step v hv item (HEpoch s retries bix record) (self, thread) =
     ((self, thread), Inl (HBump s retries bix record (hh_next_epoch self)))"
| "hihat_put_step v hv item (HBump s retries bix record e) (self, thread) =
     ((self\<lparr>hh_next_epoch := wrap64 (e + 1)\<rparr>, thread),
      Inl (HInstall s retries bix record \<lparr>hr_item = item, hr_info = HIHAT_F_INITED OR of_nat e\<rparr>))"
| "hihat_put_step v hv item (HInstall s retries bix record candidate) st =
     with_bucket st s bix (\<lambda>store bucket.
       let new_item = (rec_epoch record = 0)
       in if hb_record bucket = record
          then (set_bucket st s bix (bucket\<lparr>hb_record := candidate\<rparr>),
                Inl (if new_item then HCount s retries (0, False) else hihat_return v retries (hr_item record, True)))
          else (st, Inl (if rec_moving (hb_record bucket) then migrate_and_retry v s retries
                         else if v = Helping \<and> \<not> new_item then HFull s retries (item, \<not> new_item)
                         else hihat_return v retries (item, \<not> new_item))))"
| "hihat_put_step v hv item (HCount s retries r) (self, thread) =
     ((self\<lparr>hh_item_count := wrap64 (hh_item_count self + 1)\<rparr>, thread), Inl (hihat_return v retries r))"
| "hihat_put_step v hv item pc st = hihat_reserve_step v hv pc st"

fun hihat_add_step ::
  "variant \<Rightarrow> hatrack_hash \<Rightarrow> ptr \<Rightarrow> hihat_pc \<Rightarrow> hihat_state \<Rightarrow> hihat_state \<times> (hihat_pc + (ptr \<times> bool) outcome)" where
  "hihat_add_step v hv item (HRecord s retries bix) st =
     with_bucket st s bix (\<lambda>store bucket.
       let record = hb_record bucket
       in (st, Inl (if rec_moving record then migrate_and_retry v s retries
                    else if rec_epoch record \<noteq> 0 then hihat_return v retries (0, False)
                    else HEpoch s retries bix record)))"
| "hihat_add_step v hv item (HEpoch s retries bix record) (self, thread) =
     ((self, thread), Inl (HBump s retries bix record (hh_next_epoch self)))"
| "hihat_add_step v hv item (HBump s retries bix record e) (self, thread) =
     ((self\<lparr>hh_next_epoch := wrap64 (e + 1)\<rparr>, thread),
      Inl (HInstall s retries bix record \<lparr>hr_item = item, hr_info = HIHAT_F_INITED OR of_nat e\<rparr>))"
| "hihat_add_step v hv item (HInstall s retries bix record candidate) st =
     with_bucket st s bix (\<lambda>store bucket.
       if hb_record bucket = record
       then (set_bucket st s bix (bucket\<lparr>hb_record := candidate\<rparr>), Inl (HCount s retries (0, True)))
       else (st, Inl (if rec_moving (hb_record bucket) then migrate_and_retry v s retries
                      else hihat_return v retries (0, False))))"
| "hihat_add_step v hv item (HCount s retries r) (self, thread) =
     ((self\<lparr>hh_item_count := wrap64 (hh_item_count self + 1)\<rparr>, thread), Inl (hihat_return v retries r))"
| "hihat_add_step v hv item pc st = hihat_reserve_step v hv pc st"

text \<open>Finding a bucket, in \<^verbatim>\<open>replace\<close> and \<^verbatim>\<open>remove\<close>.\<close>

fun hihat_find_step :: "variant \<Rightarrow> hatrack_hash \<Rightarrow> hihat_pc \<Rightarrow> hihat_state \<Rightarrow> hihat_state \<times> (hihat_pc + (ptr \<times> bool) outcome)" where
  "hihat_find_step v hv (HFirst s retries) st = hihat_first hv s retries st"
| "hihat_find_step v hv (HProbe s retries bix i) st =
     with_bucket st s bix (\<lambda>store bucket.
       (st, Inl (if hatrack_bucket_unreserved (hb_hv bucket) then hihat_return v retries (0, False)
                 else if hatrack_hashes_eq hv (hb_hv bucket) then HRecord s retries bix
                 else probe_next store s retries bix i (hihat_return v retries (0, False)))))"
| "hihat_find_step v hv pc st = hihat_common_step v pc st"

fun hihat_replace_step ::
  "variant \<Rightarrow> hatrack_hash \<Rightarrow> ptr \<Rightarrow> hihat_pc \<Rightarrow> hihat_state \<Rightarrow> hihat_state \<times> (hihat_pc + (ptr \<times> bool) outcome)" where
  "hihat_replace_step v hv item (HRecord s retries bix) st =
     with_bucket st s bix (\<lambda>store bucket.
       let record = hb_record bucket
       in (st, Inl (if rec_moving record then migrate_and_retry v s retries
                    else if rec_epoch record = 0 then hihat_return v retries (0, False)
                    else HInstall s retries bix record \<lparr>hr_item = item, hr_info = hr_info record\<rparr>)))"
| "hihat_replace_step v hv item (HInstall s retries bix record candidate) st =
     with_bucket st s bix (\<lambda>store bucket.
       if hb_record bucket = record
       then (set_bucket st s bix (bucket\<lparr>hb_record := candidate\<rparr>),
             Inl (if v = Helping then HFull s retries (hr_item record, True)
                  else hihat_return v retries (hr_item record, True)))
       else (st, Inl (if rec_moving (hb_record bucket) then migrate_and_retry v s retries
                      else if v = Helping \<or> rec_epoch (hb_record bucket) = 0 then hihat_return v retries (0, False)
                      else HInstall s retries bix (hb_record bucket) candidate)))"
| "hihat_replace_step v hv item pc st = hihat_find_step v hv pc st"

fun hihat_remove_step ::
  "variant \<Rightarrow> hatrack_hash \<Rightarrow> hihat_pc \<Rightarrow> hihat_state \<Rightarrow> hihat_state \<times> (hihat_pc + (ptr \<times> bool) outcome)" where
  "hihat_remove_step v hv (HRecord s retries bix) st =
     with_bucket st s bix (\<lambda>store bucket.
       let record = hb_record bucket
       in (st, Inl (if rec_moving record then migrate_and_retry v s retries
                    else if rec_epoch record = 0 then hihat_return v retries (0, False)
                    else HInstall s retries bix record \<lparr>hr_item = 0, hr_info = HIHAT_F_INITED\<rparr>)))"
| "hihat_remove_step v hv (HInstall s retries bix record candidate) st =
     with_bucket st s bix (\<lambda>store bucket.
       if hb_record bucket = record
       then (set_bucket st s bix (bucket\<lparr>hb_record := candidate\<rparr>), Inl (HCount s retries (hr_item record, True)))
       else (st, Inl (if rec_moving (hb_record bucket) then migrate_and_retry v s retries
                      else hihat_return v retries (0, False))))"
| "hihat_remove_step v hv (HCount s retries r) (self, thread) =
     ((self\<lparr>hh_item_count := wrap64 (hh_item_count self + 2 ^ 64 - 1)\<rparr>, thread),
      Inl (if v = Helping then HFull s retries r else hihat_return v retries r))"
| "hihat_remove_step v hv pc st = hihat_find_step v hv pc st"

subsection \<open>Views\<close>

datatype hihat_view_pc =
    WBegin
  | WCurrent
  | WRead nat nat "hatrack_view list"
  | WLeave "hatrack_view list"

fun hihat_view_step ::
  "bool \<Rightarrow> hihat_view_pc \<Rightarrow> hihat_state \<Rightarrow> hihat_state \<times> (hihat_view_pc + (hatrack_view list \<times> nat) outcome)" where
  "hihat_view_step srt WBegin (self, thread) =
     or_fail (self, thread) (mmm_start_basic_op (hh_mmm self) thread) (\<lambda>m. ((self\<lparr>hh_mmm := m\<rparr>, thread), Inl WCurrent))"
| "hihat_view_step srt WCurrent (self, thread) = ((self, thread), Inl (WRead (hh_store_current self) 0 []))"
| "hihat_view_step srt (WRead s i view) st =
     with_bucket st s i (\<lambda>store bucket.
       let record = hb_record bucket;
           view = (if rec_epoch record = 0 then view
                   else view @ [\<lparr>view_item = hr_item record, sort_epoch = rec_epoch record\<rparr>])
       in (st, Inl (if i < hs_last_slot store then WRead s (i + 1) view else WLeave view)))"
| "hihat_view_step srt (WLeave view) (self, thread) =
     or_fail (self, thread) (mmm_end_op (hh_mmm self) thread) (\<lambda>m.
       ((self\<lparr>hh_mmm := m\<rparr>, thread),
        Inr (Inr (if srt then qsort hatrack_quicksort_cmp view else view, length view))))"


subsection \<open>One thread\<close>

definition hihat_get_mmm :: "variant \<Rightarrow> hihat_state \<Rightarrow> hatrack_hash \<Rightarrow> (hihat_state \<times> (ptr \<times> bool) outcome) option" where
  "hihat_get_mmm v st hv = run_alone (hihat_get_step v hv) HBegin st"

definition hihat_put_mmm :: "variant \<Rightarrow> hihat_state \<Rightarrow> hatrack_hash \<Rightarrow> ptr \<Rightarrow> (hihat_state \<times> (ptr \<times> bool) outcome) option" where
  "hihat_put_mmm v st hv item = run_alone (hihat_put_step v hv item) HBegin st"

definition hihat_replace_mmm :: "variant \<Rightarrow> hihat_state \<Rightarrow> hatrack_hash \<Rightarrow> ptr \<Rightarrow> (hihat_state \<times> (ptr \<times> bool) outcome) option" where
  "hihat_replace_mmm v st hv item = run_alone (hihat_replace_step v hv item) HBegin st"

definition hihat_add_mmm :: "variant \<Rightarrow> hihat_state \<Rightarrow> hatrack_hash \<Rightarrow> ptr \<Rightarrow> (hihat_state \<times> (ptr \<times> bool) outcome) option" where
  "hihat_add_mmm v st hv item = run_alone (hihat_add_step v hv item) HBegin st"

definition hihat_remove_mmm :: "variant \<Rightarrow> hihat_state \<Rightarrow> hatrack_hash \<Rightarrow> (hihat_state \<times> (ptr \<times> bool) outcome) option" where
  "hihat_remove_mmm v st hv = run_alone (hihat_remove_step v hv) HBegin st"

definition hihat_view_mmm :: "hihat_state \<Rightarrow> bool \<Rightarrow> (hihat_state \<times> (hatrack_view list \<times> nat) outcome) option" where
  "hihat_view_mmm st srt = run_alone (hihat_view_step srt) WBegin st"

text \<open>The operations without \<^verbatim>\<open>_mmm\<close> find the calling thread's record first.\<close>

definition with_thread ::
  "(hihat_state \<Rightarrow> (hihat_state \<times> 'a outcome) option) \<Rightarrow> hihat_state \<Rightarrow> (hihat_state \<times> 'a outcome) option" where
  "with_thread body st =
     (case mmm_thread_acquire (hh_mmm (fst st)) (snd st) of
        Inl e \<Rightarrow> Some (st, Inl e)
      | Inr (m, thread) \<Rightarrow> body ((fst st)\<lparr>hh_mmm := m\<rparr>, thread))"

definition hihat_get :: "variant \<Rightarrow> hihat_state \<Rightarrow> hatrack_hash \<Rightarrow> (hihat_state \<times> (ptr \<times> bool) outcome) option" where
  "hihat_get v st hv = with_thread (\<lambda>st. hihat_get_mmm v st hv) st"

definition hihat_put :: "variant \<Rightarrow> hihat_state \<Rightarrow> hatrack_hash \<Rightarrow> ptr \<Rightarrow> (hihat_state \<times> (ptr \<times> bool) outcome) option" where
  "hihat_put v st hv item = with_thread (\<lambda>st. hihat_put_mmm v st hv item) st"

definition hihat_replace :: "variant \<Rightarrow> hihat_state \<Rightarrow> hatrack_hash \<Rightarrow> ptr \<Rightarrow> (hihat_state \<times> (ptr \<times> bool) outcome) option" where
  "hihat_replace v st hv item = with_thread (\<lambda>st. hihat_replace_mmm v st hv item) st"

definition hihat_add :: "variant \<Rightarrow> hihat_state \<Rightarrow> hatrack_hash \<Rightarrow> ptr \<Rightarrow> (hihat_state \<times> (ptr \<times> bool) outcome) option" where
  "hihat_add v st hv item = with_thread (\<lambda>st. hihat_add_mmm v st hv item) st"

definition hihat_remove :: "variant \<Rightarrow> hihat_state \<Rightarrow> hatrack_hash \<Rightarrow> (hihat_state \<times> (ptr \<times> bool) outcome) option" where
  "hihat_remove v st hv = with_thread (\<lambda>st. hihat_remove_mmm v st hv) st"

definition hihat_view :: "hihat_state \<Rightarrow> bool \<Rightarrow> (hihat_state \<times> (hatrack_view list \<times> nat) outcome) option" where
  "hihat_view st srt = with_thread (\<lambda>st. hihat_view_mmm st srt) st"

text \<open>
  The operations as a vtable, for a program's first thread. \<open>stores\<close> is what lies behind the memory manager's cells at
  first and \<open>help_needed\<close> what the allocation left in that field.
\<close>

definition call_result :: "('x \<Rightarrow> 'a) \<Rightarrow> ('s \<times> 'x outcome) option \<Rightarrow> ('s \<times> 'a) outcome option" where
  "call_result f r = map_option (\<lambda>(st, x). and_then x (\<lambda>x. Inr (st, f x))) r"

definition hihat_vtable :: "variant \<Rightarrow> (nat \<Rightarrow> hihat_store) \<Rightarrow> nat \<Rightarrow> hihat_state hatrack_vtable" where
  "hihat_vtable v stores help_needed = \<lparr>
     vt_init = and_then swimcap_thread (\<lambda>(m, thread). map_sum id (\<lambda>t. (t, thread)) (hihat_init v stores help_needed m)),
     vt_init_sz = (\<lambda>sz. and_then swimcap_thread (\<lambda>(m, thread).
        map_sum id (\<lambda>t. (t, thread)) (hihat_init_size v stores help_needed m sz))),
     vt_get = (\<lambda>t hv. call_result id (hihat_get_mmm v t hv)),
     vt_put = (\<lambda>t hv item. call_result id (hihat_put_mmm v t hv item)),
     vt_replace = (\<lambda>t hv item. call_result id (hihat_replace_mmm v t hv item)),
     vt_add = (\<lambda>t hv item. call_result snd (hihat_add_mmm v t hv item)),
     vt_remove = (\<lambda>t hv. call_result id (hihat_remove_mmm v t hv)),
     vt_delete = (\<lambda>t. case hihat_delete v (fst t) of Inl e \<Rightarrow> []
        | Inr (m, sz) \<Rightarrow> freed_sizes (drop (length (mm_log (hh_mmm (fst t)))) (mm_log m)) @ [sz]),
     vt_len = (\<lambda>t. hihat_len_mmm (fst t) (snd t)),
     vt_view = (\<lambda>t srt. call_result id (hihat_view_mmm t srt))\<rparr>"

subsection \<open>The two other files\<close>

text \<open>The functions of \<^verbatim>\<open>hihat-a.c\<close> and \<^verbatim>\<open>witchhat.c\<close> under their own names.\<close>

definition hihat_a_store_new :: "hihat \<Rightarrow> nat \<Rightarrow> hihat \<times> nat" where
  "hihat_a_store_new = hihat_store_new"

definition hihat_a_store_migrate_step :: "migrate_pc \<Rightarrow> hihat_state \<Rightarrow> hihat_state \<times> (migrate_pc + nat outcome)" where
  "hihat_a_store_migrate_step = hihat_store_migrate_step Sleeping"

definition hihat_a_init_size :: "(nat \<Rightarrow> hihat_store) \<Rightarrow> nat \<Rightarrow> mmm \<Rightarrow> int \<Rightarrow> hihat outcome" where
  "hihat_a_init_size = hihat_init_size Sleeping"

definition hihat_a_init :: "(nat \<Rightarrow> hihat_store) \<Rightarrow> nat \<Rightarrow> mmm \<Rightarrow> hihat outcome" where
  "hihat_a_init = hihat_init Sleeping"

definition hihat_a_new :: "(nat \<Rightarrow> hihat_store) \<Rightarrow> nat \<Rightarrow> mmm \<Rightarrow> hihat outcome" where
  "hihat_a_new = hihat_new Sleeping"

definition hihat_a_new_size :: "(nat \<Rightarrow> hihat_store) \<Rightarrow> nat \<Rightarrow> mmm \<Rightarrow> int \<Rightarrow> hihat outcome" where
  "hihat_a_new_size = hihat_new_size Sleeping"

definition hihat_a_cleanup :: "hihat \<Rightarrow> mmm outcome" where
  "hihat_a_cleanup = hihat_cleanup"

definition hihat_a_delete :: "hihat \<Rightarrow> (mmm \<times> nat) outcome" where
  "hihat_a_delete = hihat_delete Sleeping"

definition hihat_a_len :: "hihat \<Rightarrow> nat" where
  "hihat_a_len = hihat_len"

definition hihat_a_len_mmm :: "hihat \<Rightarrow> mmm_thread \<Rightarrow> nat" where
  "hihat_a_len_mmm = hihat_len_mmm"

definition hihat_a_get_step :: "hatrack_hash \<Rightarrow> hihat_pc \<Rightarrow> hihat_state \<Rightarrow> hihat_state \<times> (hihat_pc + (ptr \<times> bool) outcome)" where
  "hihat_a_get_step = hihat_get_step Sleeping"

definition hihat_a_put_step :: "hatrack_hash \<Rightarrow> ptr \<Rightarrow> hihat_pc \<Rightarrow> hihat_state \<Rightarrow> hihat_state \<times> (hihat_pc + (ptr \<times> bool) outcome)" where
  "hihat_a_put_step = hihat_put_step Sleeping"

definition hihat_a_replace_step :: "hatrack_hash \<Rightarrow> ptr \<Rightarrow> hihat_pc \<Rightarrow> hihat_state \<Rightarrow> hihat_state \<times> (hihat_pc + (ptr \<times> bool) outcome)" where
  "hihat_a_replace_step = hihat_replace_step Sleeping"

definition hihat_a_add_step :: "hatrack_hash \<Rightarrow> ptr \<Rightarrow> hihat_pc \<Rightarrow> hihat_state \<Rightarrow> hihat_state \<times> (hihat_pc + (ptr \<times> bool) outcome)" where
  "hihat_a_add_step = hihat_add_step Sleeping"

definition hihat_a_remove_step :: "hatrack_hash \<Rightarrow> hihat_pc \<Rightarrow> hihat_state \<Rightarrow> hihat_state \<times> (hihat_pc + (ptr \<times> bool) outcome)" where
  "hihat_a_remove_step = hihat_remove_step Sleeping"

definition hihat_a_get_mmm :: "hihat_state \<Rightarrow> hatrack_hash \<Rightarrow> (hihat_state \<times> (ptr \<times> bool) outcome) option" where
  "hihat_a_get_mmm = hihat_get_mmm Sleeping"

definition hihat_a_put_mmm :: "hihat_state \<Rightarrow> hatrack_hash \<Rightarrow> ptr \<Rightarrow> (hihat_state \<times> (ptr \<times> bool) outcome) option" where
  "hihat_a_put_mmm = hihat_put_mmm Sleeping"

definition hihat_a_replace_mmm :: "hihat_state \<Rightarrow> hatrack_hash \<Rightarrow> ptr \<Rightarrow> (hihat_state \<times> (ptr \<times> bool) outcome) option" where
  "hihat_a_replace_mmm = hihat_replace_mmm Sleeping"

definition hihat_a_add_mmm :: "hihat_state \<Rightarrow> hatrack_hash \<Rightarrow> ptr \<Rightarrow> (hihat_state \<times> (ptr \<times> bool) outcome) option" where
  "hihat_a_add_mmm = hihat_add_mmm Sleeping"

definition hihat_a_remove_mmm :: "hihat_state \<Rightarrow> hatrack_hash \<Rightarrow> (hihat_state \<times> (ptr \<times> bool) outcome) option" where
  "hihat_a_remove_mmm = hihat_remove_mmm Sleeping"

definition hihat_a_view_step :: "bool \<Rightarrow> hihat_view_pc \<Rightarrow> hihat_state \<Rightarrow> hihat_state \<times> (hihat_view_pc + (hatrack_view list \<times> nat) outcome)" where
  "hihat_a_view_step = hihat_view_step"

definition hihat_a_view_mmm :: "hihat_state \<Rightarrow> bool \<Rightarrow> (hihat_state \<times> (hatrack_view list \<times> nat) outcome) option" where
  "hihat_a_view_mmm = hihat_view_mmm"

definition hihat_a_get :: "hihat_state \<Rightarrow> hatrack_hash \<Rightarrow> (hihat_state \<times> (ptr \<times> bool) outcome) option" where
  "hihat_a_get = hihat_get Sleeping"

definition hihat_a_put :: "hihat_state \<Rightarrow> hatrack_hash \<Rightarrow> ptr \<Rightarrow> (hihat_state \<times> (ptr \<times> bool) outcome) option" where
  "hihat_a_put = hihat_put Sleeping"

definition hihat_a_replace :: "hihat_state \<Rightarrow> hatrack_hash \<Rightarrow> ptr \<Rightarrow> (hihat_state \<times> (ptr \<times> bool) outcome) option" where
  "hihat_a_replace = hihat_replace Sleeping"

definition hihat_a_add :: "hihat_state \<Rightarrow> hatrack_hash \<Rightarrow> ptr \<Rightarrow> (hihat_state \<times> (ptr \<times> bool) outcome) option" where
  "hihat_a_add = hihat_add Sleeping"

definition hihat_a_remove :: "hihat_state \<Rightarrow> hatrack_hash \<Rightarrow> (hihat_state \<times> (ptr \<times> bool) outcome) option" where
  "hihat_a_remove = hihat_remove Sleeping"

definition hihat_a_view :: "hihat_state \<Rightarrow> bool \<Rightarrow> (hihat_state \<times> (hatrack_view list \<times> nat) outcome) option" where
  "hihat_a_view = hihat_view"

definition hihat_a_vtable :: "(nat \<Rightarrow> hihat_store) \<Rightarrow> nat \<Rightarrow> hihat_state hatrack_vtable" where
  "hihat_a_vtable = hihat_vtable Sleeping"

definition witchhat_store_new :: "hihat \<Rightarrow> nat \<Rightarrow> hihat \<times> nat" where
  "witchhat_store_new = hihat_store_new"

definition witchhat_store_migrate_step :: "migrate_pc \<Rightarrow> hihat_state \<Rightarrow> hihat_state \<times> (migrate_pc + nat outcome)" where
  "witchhat_store_migrate_step = hihat_store_migrate_step Helping"

definition witchhat_init_size :: "(nat \<Rightarrow> hihat_store) \<Rightarrow> nat \<Rightarrow> mmm \<Rightarrow> int \<Rightarrow> hihat outcome" where
  "witchhat_init_size = hihat_init_size Helping"

definition witchhat_init :: "(nat \<Rightarrow> hihat_store) \<Rightarrow> nat \<Rightarrow> mmm \<Rightarrow> hihat outcome" where
  "witchhat_init = hihat_init Helping"

definition witchhat_new :: "(nat \<Rightarrow> hihat_store) \<Rightarrow> nat \<Rightarrow> mmm \<Rightarrow> hihat outcome" where
  "witchhat_new = hihat_new Helping"

definition witchhat_new_size :: "(nat \<Rightarrow> hihat_store) \<Rightarrow> nat \<Rightarrow> mmm \<Rightarrow> int \<Rightarrow> hihat outcome" where
  "witchhat_new_size = hihat_new_size Helping"

definition witchhat_cleanup :: "hihat \<Rightarrow> mmm outcome" where
  "witchhat_cleanup = hihat_cleanup"

definition witchhat_delete :: "hihat \<Rightarrow> (mmm \<times> nat) outcome" where
  "witchhat_delete = hihat_delete Helping"

definition witchhat_len :: "hihat \<Rightarrow> nat" where
  "witchhat_len = hihat_len"

definition witchhat_len_mmm :: "hihat \<Rightarrow> mmm_thread \<Rightarrow> nat" where
  "witchhat_len_mmm = hihat_len_mmm"

definition witchhat_get_step :: "hatrack_hash \<Rightarrow> hihat_pc \<Rightarrow> hihat_state \<Rightarrow> hihat_state \<times> (hihat_pc + (ptr \<times> bool) outcome)" where
  "witchhat_get_step = hihat_get_step Helping"

definition witchhat_put_step :: "hatrack_hash \<Rightarrow> ptr \<Rightarrow> hihat_pc \<Rightarrow> hihat_state \<Rightarrow> hihat_state \<times> (hihat_pc + (ptr \<times> bool) outcome)" where
  "witchhat_put_step = hihat_put_step Helping"

definition witchhat_replace_step :: "hatrack_hash \<Rightarrow> ptr \<Rightarrow> hihat_pc \<Rightarrow> hihat_state \<Rightarrow> hihat_state \<times> (hihat_pc + (ptr \<times> bool) outcome)" where
  "witchhat_replace_step = hihat_replace_step Helping"

definition witchhat_add_step :: "hatrack_hash \<Rightarrow> ptr \<Rightarrow> hihat_pc \<Rightarrow> hihat_state \<Rightarrow> hihat_state \<times> (hihat_pc + (ptr \<times> bool) outcome)" where
  "witchhat_add_step = hihat_add_step Helping"

definition witchhat_remove_step :: "hatrack_hash \<Rightarrow> hihat_pc \<Rightarrow> hihat_state \<Rightarrow> hihat_state \<times> (hihat_pc + (ptr \<times> bool) outcome)" where
  "witchhat_remove_step = hihat_remove_step Helping"

definition witchhat_get_mmm :: "hihat_state \<Rightarrow> hatrack_hash \<Rightarrow> (hihat_state \<times> (ptr \<times> bool) outcome) option" where
  "witchhat_get_mmm = hihat_get_mmm Helping"

definition witchhat_put_mmm :: "hihat_state \<Rightarrow> hatrack_hash \<Rightarrow> ptr \<Rightarrow> (hihat_state \<times> (ptr \<times> bool) outcome) option" where
  "witchhat_put_mmm = hihat_put_mmm Helping"

definition witchhat_replace_mmm :: "hihat_state \<Rightarrow> hatrack_hash \<Rightarrow> ptr \<Rightarrow> (hihat_state \<times> (ptr \<times> bool) outcome) option" where
  "witchhat_replace_mmm = hihat_replace_mmm Helping"

definition witchhat_add_mmm :: "hihat_state \<Rightarrow> hatrack_hash \<Rightarrow> ptr \<Rightarrow> (hihat_state \<times> (ptr \<times> bool) outcome) option" where
  "witchhat_add_mmm = hihat_add_mmm Helping"

definition witchhat_remove_mmm :: "hihat_state \<Rightarrow> hatrack_hash \<Rightarrow> (hihat_state \<times> (ptr \<times> bool) outcome) option" where
  "witchhat_remove_mmm = hihat_remove_mmm Helping"

definition witchhat_view_step :: "bool \<Rightarrow> hihat_view_pc \<Rightarrow> hihat_state \<Rightarrow> hihat_state \<times> (hihat_view_pc + (hatrack_view list \<times> nat) outcome)" where
  "witchhat_view_step = hihat_view_step"

definition witchhat_view_mmm :: "hihat_state \<Rightarrow> bool \<Rightarrow> (hihat_state \<times> (hatrack_view list \<times> nat) outcome) option" where
  "witchhat_view_mmm = hihat_view_mmm"

definition witchhat_get :: "hihat_state \<Rightarrow> hatrack_hash \<Rightarrow> (hihat_state \<times> (ptr \<times> bool) outcome) option" where
  "witchhat_get = hihat_get Helping"

definition witchhat_put :: "hihat_state \<Rightarrow> hatrack_hash \<Rightarrow> ptr \<Rightarrow> (hihat_state \<times> (ptr \<times> bool) outcome) option" where
  "witchhat_put = hihat_put Helping"

definition witchhat_replace :: "hihat_state \<Rightarrow> hatrack_hash \<Rightarrow> ptr \<Rightarrow> (hihat_state \<times> (ptr \<times> bool) outcome) option" where
  "witchhat_replace = hihat_replace Helping"

definition witchhat_add :: "hihat_state \<Rightarrow> hatrack_hash \<Rightarrow> ptr \<Rightarrow> (hihat_state \<times> (ptr \<times> bool) outcome) option" where
  "witchhat_add = hihat_add Helping"

definition witchhat_remove :: "hihat_state \<Rightarrow> hatrack_hash \<Rightarrow> (hihat_state \<times> (ptr \<times> bool) outcome) option" where
  "witchhat_remove = hihat_remove Helping"

definition witchhat_view :: "hihat_state \<Rightarrow> bool \<Rightarrow> (hihat_state \<times> (hatrack_view list \<times> nat) outcome) option" where
  "witchhat_view = hihat_view"

definition witchhat_vtable :: "(nat \<Rightarrow> hihat_store) \<Rightarrow> nat \<Rightarrow> hihat_state hatrack_vtable" where
  "witchhat_vtable = hihat_vtable Helping"

section \<open>Records and flags\<close>

text \<open>The largest epoch a variant can number: below its lowest flag.\<close>

definition flag_limit :: "variant \<Rightarrow> nat" where
  "flag_limit v = (if v = Helping then 2 ^ 50 else epoch_limit)"

definition rec_idle :: "variant \<Rightarrow> hihat_record \<Rightarrow> bool" where
  "rec_idle v r \<longleftrightarrow> \<not> rec_moving r \<and> \<not> rec_moved v r"

definition moved_bit :: "variant \<Rightarrow> nat" where
  "moved_bit v = (if v = Helping then 50 else 62)"

lemmas flag_defs = HIHAT_F_MOVING_def HIHAT_F_MOVED_def HIHAT_F_INITED_def HIHAT_EPOCH_MASK_def WITCHHAT_F_MOVED_def

definition flag :: "nat \<Rightarrow> 64 word" where
  "flag n = 2 ^ n"

lemma flag_bits:
  "HIHAT_F_MOVING = flag 63" "HIHAT_F_INITED = flag 61" "f_moved v = flag (moved_bit v)" "HIHAT_EPOCH_MASK = mask 61"
  by (simp_all add: flag_defs f_moved_def moved_bit_def mask_eq_exp_minus_1 flag_def)

lemma rec_bits:
  "rec_moving r \<longleftrightarrow> bit (hr_info r) 63" "rec_moved v r \<longleftrightarrow> bit (hr_info r) (moved_bit v)"
  "rec_epoch r = take_bit 61 (hr_info r)"
  by (simp_all only: rec_moving_def rec_moved_def rec_epoch_def flag_bits flag_def and_exp_eq_0_iff_not_bit take_bit_eq_mask
      not_not)

lemma moved_bit_less: "moved_bit v < 63" "moved_bit v \<noteq> 61"
  by (simp_all add: moved_bit_def)

lemma bit_flag [simp]: "bit (flag m) n \<longleftrightarrow> n = m \<and> m < 64"
  by (auto simp: flag_def bit_exp_iff possible_bit_word)

lemma bit_epoch_word:
  assumes "e < 2 ^ n" "n \<le> m"
  shows "\<not> bit (of_nat e :: 64 word) m"
proof -
  have "(2::nat) ^ n \<le> 2 ^ m" using assms(2) by (intro power_increasing) simp_all
  with assms(1) have "e < 2 ^ m" by linarith
  then have "\<not> bit e m" by (simp add: bit_iff_odd)
  then show ?thesis by (simp add: bit_simps)
qed

lemma zero_record_idle [simp]: "rec_idle v zero_record" "rec_epoch zero_record = 0"
  by (simp_all add: rec_idle_def rec_bits zero_record_def)

lemma epoch_of_flag: "61 \<le> n \<Longrightarrow> take_bit 61 (flag n) = 0" "61 \<le> n \<Longrightarrow> take_bit 61 (flag n OR w) = take_bit 61 w"
  "61 \<le> n \<Longrightarrow> take_bit 61 (w OR flag n) = take_bit 61 w"
  by (rule bit_eqI; auto simp: bit_take_bit_iff bit_or_iff)+

lemma removed_record: "rec_idle v \<lparr>hr_item = w, hr_info = HIHAT_F_INITED\<rparr>" "rec_epoch \<lparr>hr_item = w, hr_info = HIHAT_F_INITED\<rparr> = 0"
  using moved_bit_less [of v] by (simp_all add: rec_idle_def rec_bits flag_bits epoch_of_flag)

lemma written_record: "rec_idle v r \<Longrightarrow> rec_idle v \<lparr>hr_item = w, hr_info = hr_info r\<rparr>"
  "rec_epoch \<lparr>hr_item = w, hr_info = hr_info r\<rparr> = rec_epoch r"
  by (simp_all add: rec_idle_def rec_bits)

lemma new_record:
  assumes "e < flag_limit v"
  shows "rec_idle v \<lparr>hr_item = w, hr_info = HIHAT_F_INITED OR of_nat e\<rparr>"
    "unat (rec_epoch \<lparr>hr_item = w, hr_info = HIHAT_F_INITED OR of_nat e\<rparr>) = e"
proof -
  have e: "e < 2 ^ 55" "v = Helping \<Longrightarrow> e < 2 ^ 50" using assms by (auto simp: flag_limit_def epoch_limit_def split: if_splits)
  have "\<not> bit (of_nat e :: 64 word) (moved_bit v)"
    using bit_epoch_word [OF e(2), of 50] bit_epoch_word [OF e(1), of 62] by (cases "v = Helping") (simp_all add: moved_bit_def)
  then show "rec_idle v \<lparr>hr_item = w, hr_info = HIHAT_F_INITED OR of_nat e\<rparr>"
    using bit_epoch_word [OF e(1), of 63] moved_bit_less [of v] by (simp add: rec_idle_def rec_bits flag_bits bit_or_iff)
  have "take_bit 61 (of_nat e :: 64 word) = of_nat e" using e(1) by (simp add: take_bit_of_nat take_bit_nat_eq_self)
  then show "unat (rec_epoch \<lparr>hr_item = w, hr_info = HIHAT_F_INITED OR of_nat e\<rparr>) = e"
    using e(1) by (simp add: rec_bits flag_bits epoch_of_flag unat_of_nat)
qed

lemma copied_record:
  assumes "rec_idle v r"
  shows "rec_idle v \<lparr>hr_item = w, hr_info = rec_epoch r\<rparr>" "rec_idle v \<lparr>hr_item = w, hr_info = rec_epoch r OR HIHAT_F_INITED\<rparr>"
    "rec_epoch \<lparr>hr_item = w, hr_info = rec_epoch r\<rparr> = rec_epoch r"
    "rec_epoch \<lparr>hr_item = w, hr_info = rec_epoch r OR HIHAT_F_INITED\<rparr> = rec_epoch r"
  using assms moved_bit_less [of v]
  by (simp_all add: rec_idle_def rec_bits flag_bits bit_take_bit_iff bit_or_iff epoch_of_flag)

text \<open>What marking does to a record.\<close>

lemma rec_or_sel [simp]: "hb_hv (rec_or w b) = hb_hv b" "hr_item (hb_record (rec_or w b)) = hr_item (hb_record b)"
  by (simp_all add: rec_or_def)

lemma rec_or_moving:
  "rec_epoch (hb_record (rec_or HIHAT_F_MOVING b)) = rec_epoch (hb_record b)"
  "rec_moved v (hb_record (rec_or HIHAT_F_MOVING b)) = rec_moved v (hb_record b)"
  "rec_moving (hb_record (rec_or HIHAT_F_MOVING b))"
  using moved_bit_less [of v]
  by (simp_all add: rec_bits rec_or_def flag_bits bit_or_iff epoch_of_flag)

lemma rec_or_moved: "rec_moved v (hb_record (rec_or (f_moved v) b))" "rec_moved v (hb_record (rec_or (w OR f_moved v) b))"
  using moved_bit_less [of v] by (simp_all add: rec_bits rec_or_def flag_bits bit_or_iff)

end
