(* ===== verification/Hihat_Table.thy ===== *)
theory Hihat_Table
  imports Hihat
begin

text \<open>
  One thread on a \<^verbatim>\<open>hihat\<close>, \<^verbatim>\<open>hihat-a\<close> or \<^verbatim>\<open>witchhat\<close> table: the run of every operation from its first step to its last,
  migrations included, against the dictionary. The three variants fulfil the contract of \<open>Hatrack_Table\<close>.
\<close>

section \<open>Stores\<close>

definition abs_bucket :: "hihat_bucket \<Rightarrow> refhat_bucket" where
  "abs_bucket b = \<lparr>rb_hv = hb_hv b, rb_item = hr_item (hb_record b), rb_epoch = unat (rec_epoch (hb_record b))\<rparr>"

lemma abs_bucket_sel [simp]:
  "rb_hv (abs_bucket b) = hb_hv b" "rb_item (abs_bucket b) = hr_item (hb_record b)"
  "rb_epoch (abs_bucket b) = unat (rec_epoch (hb_record b))"
  by (simp_all add: abs_bucket_def)

lemma abs_bucket_zero: "abs_bucket zero_hihat_bucket = zero_bucket"
  by (simp add: abs_bucket_def zero_hihat_bucket_def zero_bucket_def zero_record_def rec_epoch_def)

text \<open>The table with other buckets in one of its stores.\<close>

definition put_buckets :: "hihat \<Rightarrow> nat \<Rightarrow> hihat_bucket list \<Rightarrow> hihat" where
  "put_buckets t s bs = write_store t s ((hh_stores t s)\<lparr>hs_buckets := bs\<rparr>)"

lemma put_buckets_sel [simp]:
  "hs_buckets (hh_stores (put_buckets t s bs) s) = bs"
  "hs_last_slot (hh_stores (put_buckets t s bs) p) = hs_last_slot (hh_stores t p)"
  "hs_threshold (hh_stores (put_buckets t s bs) p) = hs_threshold (hh_stores t p)"
  "hs_used_count (hh_stores (put_buckets t s bs) p) = hs_used_count (hh_stores t p)"
  "hs_store_next (hh_stores (put_buckets t s bs) p) = hs_store_next (hh_stores t p)"
  "p \<noteq> s \<Longrightarrow> hh_stores (put_buckets t s bs) p = hh_stores t p"
  "hh_mmm (put_buckets t s bs) = hh_mmm t" "hh_store_current (put_buckets t s bs) = hh_store_current t"
  "hh_item_count (put_buckets t s bs) = hh_item_count t" "hh_next_epoch (put_buckets t s bs) = hh_next_epoch t"
  "hh_help_needed (put_buckets t s bs) = hh_help_needed t"
  "put_buckets (put_buckets t s as) s bs = put_buckets t s bs"
  by (simp_all add: put_buckets_def write_store_def)

lemma put_buckets_id: "put_buckets t s (hs_buckets (hh_stores t s)) = t"
  by (simp add: put_buckets_def write_store_def)

lemma set_bucket_put [simp]: "set_bucket (t, thread) s i b = (put_buckets t s ((hs_buckets (hh_stores t s))[i := b]), thread)"
  by (simp add: set_bucket_def put_buckets_def Let_def)

lemma read_store_allocated [simp]: "allocated (hh_mmm t) s \<Longrightarrow> read_store t s = Inr (hh_stores t s)"
  using get_header_allocated [of "hh_mmm t" s] by (auto simp: read_store_def)

lemma with_bucket_ok [simp]:
  "allocated (hh_mmm t) s \<Longrightarrow> i < length (hs_buckets (hh_stores t s)) \<Longrightarrow>
   with_bucket (t, thread) s i f = f (hh_stores t s) (hs_buckets (hh_stores t s) ! i)"
  by (simp add: with_bucket_def)

section \<open>Marking\<close>

definition mark_bucket :: "variant \<Rightarrow> hihat_bucket \<Rightarrow> hihat_bucket" where
  "mark_bucket v b = (let m = rec_or HIHAT_F_MOVING b in
     if rec_epoch (hb_record b) = 0
     then rec_or (if v = Sleeping then HIHAT_F_MOVING OR f_moved v else f_moved v) m else m)"

definition live_records :: "hihat_bucket list \<Rightarrow> nat" where
  "live_records bs = length (filter (\<lambda>b. rec_epoch (hb_record b) \<noteq> 0) bs)"

lemma live_records_abs: "live_records bs = live_count (map abs_bucket bs)"
  by (simp add: live_records_def live_count_def filter_map comp_def unat_gt_0)

lemma live_records_drop:
  "i < length bs \<Longrightarrow> live_records (drop i bs) =
     (if rec_epoch (hb_record (bs ! i)) = 0 then 0 else 1) + live_records (drop (Suc i) bs)"
  by (simp add: live_records_def Cons_nth_drop_Suc [of i bs, symmetric])

lemma mark_moved_iff:
  assumes "rec_idle v (hb_record b)"
  shows "rec_moved v (hb_record (mark_bucket v b)) \<longleftrightarrow> rec_epoch (hb_record b) = 0"
  using assms by (auto simp: mark_bucket_def Let_def rec_or_moved rec_or_moving rec_idle_def)

lemma mark_one:
  assumes al: "allocated (hh_mmm t) s" and i: "i < length (hs_buckets (hh_stores t s))"
    and b: "hs_buckets (hh_stores t s) ! i = b" "rec_idle v (hb_record b)"
  shows "run_alone (hihat_store_migrate_step v) (MMark s i used) (t, thread) =
    run_alone (hihat_store_migrate_step v) (mark_next (hh_stores t s) s i (count_live (hb_record b) used))
      (put_buckets t s ((hs_buckets (hh_stores t s))[i := mark_bucket v b]), thread)"
proof -
  have nm: "\<not> rec_moving (hb_record b)" using b(2) by (simp add: rec_idle_def)
  have mn: "mark_next (hh_stores (put_buckets t s bs) s) = mark_next (hh_stores t s)" for bs
    by (intro ext) (simp add: mark_next_def)
  show ?thesis
    using al i b nm
    by (simp add: run_alone.simps [of _ "MMark s i used"] run_alone.simps [of _ "MMarkSet s i used"]
        run_alone.simps [of _ "MMarkRead s i used"] run_alone.simps [of _ "MMarkMoved s i used"]
        mark_bucket_def Let_def rec_or_moving count_live_def mn)
qed

lemma mark_iteration:
  assumes al: "allocated (hh_mmm t) s" and ls: "length bs = Suc ls"
    and idle: "\<And>b. b \<in> set bs \<Longrightarrow> rec_idle v (hb_record b)" and i: "i \<le> ls"
  shows "run_alone (hihat_store_migrate_step v) (MMark s i used)
      (put_buckets t s (map (mark_bucket v) (take i bs) @ drop i bs), thread) =
    run_alone (hihat_store_migrate_step v) (mark_next (hh_stores t s) s i (count_live (hb_record (bs ! i)) used))
      (put_buckets t s (map (mark_bucket v) (take (Suc i) bs) @ drop (Suc i) bs), thread)"
proof -
  let ?bs = "map (mark_bucket v) (take i bs) @ drop i bs"
  have len: "i < length ?bs" "i < length bs" using ls i by simp_all
  have nth: "?bs ! i = bs ! i" using len by (simp add: nth_append)
  have upd: "?bs[i := mark_bucket v (bs ! i)] = map (mark_bucket v) (take (Suc i) bs) @ drop (Suc i) bs"
    using len(2) by (simp add: list_update_append take_Suc_conv_app_nth Cons_nth_drop_Suc [of i bs, symmetric])
  have mn: "mark_next (hh_stores (put_buckets t s ?bs) s) = mark_next (hh_stores t s)" by (intro ext) (simp add: mark_next_def)
  show ?thesis
    using mark_one [of "put_buckets t s ?bs" s i "bs ! i" v used thread] al len nth idle [of "bs ! i"] upd mn by simp
qed

lemma mark_loop:
  assumes al: "allocated (hh_mmm t) s" and ls: "hs_last_slot (hh_stores t s) = ls" "length bs = Suc ls"
    and idle: "\<And>b. b \<in> set bs \<Longrightarrow> rec_idle v (hb_record b)"
  shows "i \<le> ls \<Longrightarrow> used + live_records (drop i bs) < 2 ^ 64 \<Longrightarrow>
    run_alone (hihat_store_migrate_step v) (MMark s i used)
      (put_buckets t s (map (mark_bucket v) (take i bs) @ drop i bs), thread) =
    run_alone (hihat_store_migrate_step v) (MNext s (used + live_records (drop i bs)))
      (put_buckets t s (map (mark_bucket v) bs), thread)"
proof (induction "ls - i" arbitrary: i used)
  case (0 i used)
  then have i: "i = ls" by simp
  with mark_iteration [OF al ls(2) idle, of i used thread] 0 ls show ?case
    using live_records_drop [of i bs]
    by (simp add: mark_next_def count_live_def wrap64_id live_records_def [of "[]"] split: if_splits)
next
  case (Suc n i used)
  then have i: "i < ls" by simp
  have n: "n = ls - Suc i" using Suc.hyps(2) by simp
  with mark_iteration [OF al ls(2) idle, of i used thread] Suc.hyps(1) [OF n, of "count_live (hb_record (bs ! i)) used"]
    Suc.prems i ls live_records_drop [of i bs] show ?case
    by (simp add: mark_next_def count_live_def wrap64_id split: if_splits)
qed

section \<open>Moving\<close>

lemma probe_of_free:
  "probe_free ks ls b n = Inr (Some c) \<Longrightarrow> hv \<notin> set ks \<Longrightarrow> probe ks ls hv b n = Inr (Vacant c)"
proof (induction n arbitrary: b)
  case (Suc n)
  then have "b < length ks" by (auto simp: outcome_simps)
  then have "ks ! b \<noteq> hv" using Suc.prems(2) nth_mem by blast
  with Suc show ?case by (auto simp: outcome_simps split: if_splits)
qed simp

text \<open>The same table with other buckets in its stores.\<close>

definition same_shape :: "hihat \<Rightarrow> hihat \<Rightarrow> bool" where
  "same_shape t t' \<longleftrightarrow> t' = t\<lparr>hh_stores := hh_stores t'\<rparr> \<and>
     (\<forall>p. hh_stores t' p = (hh_stores t p)\<lparr>hs_buckets := hs_buckets (hh_stores t' p)\<rparr>)"

lemma same_shape_refl [simp]: "same_shape t t"
  by (simp add: same_shape_def)

lemma same_shape_put: "same_shape t t' \<Longrightarrow> same_shape t (put_buckets t' s bs)"
proof -
  assume a: "same_shape t t'"
  then have "hh_stores t' s = (hh_stores t s)\<lparr>hs_buckets := hs_buckets (hh_stores t' s)\<rparr>" by (simp add: same_shape_def)
  then have "(hh_stores t' s)\<lparr>hs_buckets := bs\<rparr> = (hh_stores t s)\<lparr>hs_buckets := bs\<rparr>" by (metis hihat_store.update_convs(5) hihat_store.surjective)
  with a show ?thesis by (cases t; cases t') (auto simp: same_shape_def put_buckets_def write_store_def)
qed

lemma same_shape_trans: "same_shape t u \<Longrightarrow> same_shape u w \<Longrightarrow> same_shape t w"
  unfolding same_shape_def by (metis hihat.update_convs(5) hihat_store.update_convs(5) hihat.surjective hihat_store.surjective)

lemma same_shape_sel:
  assumes "same_shape t t'"
  shows "hh_mmm t' = hh_mmm t" "hh_store_current t' = hh_store_current t" "hh_item_count t' = hh_item_count t"
    "hh_next_epoch t' = hh_next_epoch t" "hh_help_needed t' = hh_help_needed t"
    "hs_last_slot (hh_stores t' p) = hs_last_slot (hh_stores t p)"
    "hs_threshold (hh_stores t' p) = hs_threshold (hh_stores t p)"
    "hs_used_count (hh_stores t' p) = hs_used_count (hh_stores t p)"
    "hs_store_next (hh_stores t' p) = hs_store_next (hh_stores t p)"
proof -
  have t: "t' = t\<lparr>hh_stores := hh_stores t'\<rparr>" "hh_stores t' p = (hh_stores t p)\<lparr>hs_buckets := hs_buckets (hh_stores t' p)\<rparr>"
    using assms by (simp_all add: same_shape_def)
  show "hh_mmm t' = hh_mmm t" "hh_store_current t' = hh_store_current t" "hh_item_count t' = hh_item_count t"
    "hh_next_epoch t' = hh_next_epoch t" "hh_help_needed t' = hh_help_needed t"
    by (subst t(1), simp)+
  show "hs_last_slot (hh_stores t' p) = hs_last_slot (hh_stores t p)"
    "hs_threshold (hh_stores t' p) = hs_threshold (hh_stores t p)"
    "hs_used_count (hh_stores t' p) = hs_used_count (hh_stores t p)"
    "hs_store_next (hh_stores t' p) = hs_store_next (hh_stores t p)"
    by (subst t(2), simp)+
qed

text \<open>A copied record, and placing one bucket into the new store.\<close>

definition copy_record :: "variant \<Rightarrow> hihat_record \<Rightarrow> hihat_record" where
  "copy_record v r = \<lparr>hr_item = hr_item r, hr_info = (if v = Sleeping then rec_epoch r OR HIHAT_F_INITED else rec_epoch r)\<rparr>"

lemma place_run:
  assumes al: "allocated (hh_mmm t) n" and n: "hs_last_slot (hh_stores t n) = 2 ^ k - 1" "hs_buckets (hh_stores t n) = nbs"
      "length nbs = 2 ^ k"
    and free: "probe_free (map hb_hv nbs) (2 ^ k - 1) (hatrack_bucket_index hv (2 ^ k - 1)) (2 ^ k) = Inr (Some c)"
    and c: "c < length nbs" "nbs ! c = z" "hb_hv z = 0" "hb_record z = zero_record" and hv: "hv \<noteq> 0" "hv \<notin> set (map hb_hv nbs)"
  shows "run_alone (hihat_store_migrate_step v)
      (MProbe s n i used record hv (hatrack_bucket_index hv (2 ^ k - 1)) 0) (t, thread) =
    run_alone (hihat_store_migrate_step v) (MFinish s n i used)
      (put_buckets t n (nbs[c := \<lparr>hb_hv = hv, hb_record = copy_record v record\<rparr>]), thread)"
proof -
  let ?P = "\<lambda>b j. MProbe s n i used record hv b j" and ?V = "\<lambda>b j. MTake s n i used record hv b j"
    and ?F = "\<lambda>b. MCopy s n i used record b"
  have step: "hihat_store_migrate_step v (?P b j) (t, thread) =
      ((t, thread), Inl (if map hb_hv nbs ! b = 0 then ?V b j else if map hb_hv nbs ! b = hv then ?F b
        else if j < 2 ^ k - 1 then ?P (wrap64 (b + 1) AND (2 ^ k - 1)) (j + 1) else ?F b))"
    if "b < length (map hb_hv nbs)" for b j
    using that al n by (simp add: place_next_def)
  have pr: "probe (map hb_hv nbs) (2 ^ k - 1) hv (hatrack_bucket_index hv (2 ^ k - 1)) (2 ^ k) = Inr (Vacant c)"
    using probe_of_free [OF free hv(2)] .
  from run_probe [where P = ?P and V = ?V and F = ?F and N = "\<lambda>b j. ?F b" and step = "hihat_store_migrate_step v"
      and s = "(t, thread)", OF step hv(1) pr, of 0]
  obtain j where "run_alone (hihat_store_migrate_step v) (?P (hatrack_bucket_index hv (2 ^ k - 1)) 0) (t, thread) =
      run_alone (hihat_store_migrate_step v) (?V c j) (t, thread)" by auto
  moreover have z: "z\<lparr>hb_hv := hv, hb_record := r\<rparr> = \<lparr>hb_hv = hv, hb_record = r\<rparr>" for r by (cases z) simp
  moreover have "run_alone (hihat_store_migrate_step v) (?V c j) (t, thread) = run_alone (hihat_store_migrate_step v) (MFinish s n i used)
      (put_buckets t n (nbs[c := \<lparr>hb_hv = hv, hb_record = copy_record v record\<rparr>]), thread)"
    using al n c run_alone.simps [of "hihat_store_migrate_step v" "?V c j"]
      run_alone.simps [of "hihat_store_migrate_step v" "?F c"]
    by (simp add: copy_record_def Let_def z)
  ultimately show ?thesis by simp
qed

definition move_at :: "nat \<Rightarrow> nat \<Rightarrow> nat \<Rightarrow> nat \<Rightarrow> nat \<Rightarrow> migrate_pc" where
  "move_at ls s n i used = (if i \<le> ls then MMove s n i used else MUsed s n used)"

lemma move_next_at: "hs_last_slot store = ls \<Longrightarrow> move_next store s n i used = move_at ls s n (Suc i) used"
  by (simp add: move_next_def move_at_def Suc_le_eq)

lemma mark_epoch:
  "v \<noteq> Helping \<or> rec_epoch (hb_record b) \<noteq> 0 \<Longrightarrow> rec_epoch (hb_record (mark_bucket v b)) = rec_epoch (hb_record b)"
  by (cases v) (auto simp: mark_bucket_def Let_def rec_or_moving rec_or_def rec_bits flag_bits moved_bit_def epoch_of_flag or.assoc)

lemma mark_sel [simp]: "hb_hv (mark_bucket v b) = hb_hv b" "hr_item (hb_record (mark_bucket v b)) = hr_item (hb_record b)"
  by (simp_all add: mark_bucket_def Let_def)

lemma mark_removed_epoch:
  assumes "rec_epoch (hb_record b) = 0"
  shows "rec_epoch (hb_record (mark_bucket v b)) \<noteq> 0 \<longleftrightarrow> v = Helping"
proof (cases "v = Helping")
  case True
  have "bit (rec_epoch (hb_record (mark_bucket v b))) 50"
    using assms by (simp add: mark_bucket_def Let_def True rec_bits rec_or_def flag_bits moved_bit_def bit_take_bit_iff bit_or_iff)
  then show ?thesis using True by (auto simp: bit_0_eq)
next
  case False
  then show ?thesis using mark_epoch [of v b] assms by simp
qed

definition moved_used :: "variant \<Rightarrow> hihat_bucket \<Rightarrow> nat \<Rightarrow> nat" where
  "moved_used v b used = (if v = Sleeping \<and> rec_epoch (hb_record b) \<noteq> 0 then used + 1 else used)"

lemma move_skip:
  assumes al: "allocated (hh_mmm t) s" and ls: "hs_last_slot (hh_stores t s) = ls" "i < length (hs_buckets (hh_stores t s))" "i \<le> ls"
    and b: "hs_buckets (hh_stores t s) ! i = mark_bucket v b" "rec_idle v (hb_record b)" "rec_epoch (hb_record b) = 0"
  shows "run_alone (hihat_store_migrate_step v) (move_at ls s n i used) (t, thread) =
    run_alone (hihat_store_migrate_step v) (move_at ls s n (Suc i) used) (t, thread)"
proof -
  have "(if v = Sleeping then count_live (hb_record (mark_bucket v b)) used else used) = used"
    using b(3) mark_epoch [of v b] by (auto simp: count_live_def)
  then show ?thesis
    using al ls b mark_moved_iff [OF b(2)] move_next_at [OF ls(1)]
    by (simp add: move_at_def [of ls s n i] run_alone.simps [of _ "MMove s n i used"] Let_def)
qed

lemma move_put:
  assumes al: "allocated (hh_mmm t) s" "allocated (hh_mmm t) n" "s \<noteq> n"
    and ls: "hs_last_slot (hh_stores t s) = ls" "i < length (hs_buckets (hh_stores t s))" "i \<le> ls"
    and b: "hs_buckets (hh_stores t s) ! i = mark_bucket v b" "rec_idle v (hb_record b)" "rec_epoch (hb_record b) \<noteq> 0"
    and n: "hs_last_slot (hh_stores t n) = 2 ^ k - 1" "hs_buckets (hh_stores t n) = nbs" "length nbs = 2 ^ k"
    and free: "probe_free (map hb_hv nbs) (2 ^ k - 1) (hatrack_bucket_index (hb_hv b) (2 ^ k - 1)) (2 ^ k) = Inr (Some c)"
    and c: "c < length nbs" "nbs ! c = z" "hb_hv z = 0" "hb_record z = zero_record"
    and hv: "hb_hv b \<noteq> 0" "hb_hv b \<notin> set (map hb_hv nbs)"
    and used: "v = Sleeping \<Longrightarrow> used + 1 < 2 ^ 64"
  defines "t1 \<equiv> put_buckets t n (nbs[c := \<lparr>hb_hv = hb_hv b, hb_record = copy_record v (hb_record b)\<rparr>])"
  shows "run_alone (hihat_store_migrate_step v) (move_at ls s n i used) (t, thread) =
    run_alone (hihat_store_migrate_step v) (move_at ls s n (Suc i) (moved_used v b used))
      (put_buckets t1 s ((hs_buckets (hh_stores t s))[i := rec_or (f_moved v) (mark_bucket v b)]), thread)"
proof -
  let ?run = "run_alone (hihat_store_migrate_step v)"
  let ?r = "hb_record (mark_bucket v b)" and ?u = "moved_used v b used"
  have u: "(if v = Sleeping then count_live ?r used else used) = ?u"
    using b(3) mark_epoch [of v b] used by (auto simp: count_live_def moved_used_def wrap64_id)
  have cr: "copy_record v ?r = copy_record v (hb_record b)" using mark_epoch [of v b] b(3) by (auto simp: copy_record_def)
  have "?run (move_at ls s n i used) (t, thread) = ?run (MProbe s n i ?u ?r (hb_hv b) (hatrack_bucket_index (hb_hv b) (2 ^ k - 1)) 0) (t, thread)"
    using al ls b n mark_moved_iff [OF b(2)] u
    by (simp add: move_at_def [of ls s n i] run_alone.simps [of _ "MMove s n i used"] run_alone.simps [of _ "MHash s n i ?u ?r"] Let_def)
  also have "\<dots> = ?run (MFinish s n i ?u) (t1, thread)"
    using place_run [OF al(2) n free c hv, of v s i ?u ?r thread] cr by (simp add: t1_def)
  also have "\<dots> = ?run (move_at ls s n (Suc i) ?u)
      (put_buckets t1 s ((hs_buckets (hh_stores t s))[i := rec_or (f_moved v) (mark_bucket v b)]), thread)"
    using al ls b by (simp add: run_alone.simps [of _ "MFinish s n i ?u"] move_next_at t1_def)
  finally show ?thesis .
qed

definition fresh_buckets :: "variant \<Rightarrow> hihat_bucket list \<Rightarrow> bool" where
  "fresh_buckets v nbs \<longleftrightarrow> (\<forall>b \<in> set nbs. rec_idle v (hb_record b) \<and> (hb_hv b = 0 \<longrightarrow> hb_record b = zero_record))"

lemma fresh_buckets_update:
  assumes "fresh_buckets v nbs" "rec_idle v (hb_record b)" "hb_hv b \<noteq> 0"
  shows "fresh_buckets v (nbs[c := \<lparr>hb_hv = hb_hv b, hb_record = copy_record v (hb_record b)\<rparr>])"
  using assms set_update_subset_insert [of nbs c] copied_record [OF assms(2)]
  by (fastforce simp: fresh_buckets_def copy_record_def)

lemma copied_abs: "rec_idle v (hb_record b) \<Longrightarrow> abs_bucket \<lparr>hb_hv = hb_hv b, hb_record = copy_record v (hb_record b)\<rparr> = abs_bucket b"
  using copied_record [of v "hb_record b"] by (simp add: abs_bucket_def copy_record_def)

lemma move_loop:
  assumes "placed k cs nb nb'" and sn: "s \<noteq> n"
    and bs: "length bs = Suc ls" "\<And>b. b \<in> set bs \<Longrightarrow> rec_idle v (hb_record b)" "length bs < 2 ^ 63"
  shows "cs = map abs_bucket (drop i bs) \<Longrightarrow> i \<le> Suc ls \<Longrightarrow> (v = Sleeping \<longrightarrow> used \<le> i) \<Longrightarrow>
      allocated (hh_mmm t) s \<Longrightarrow> allocated (hh_mmm t) n \<Longrightarrow>
      hs_last_slot (hh_stores t s) = ls \<Longrightarrow> length (hs_buckets (hh_stores t s)) = Suc ls \<Longrightarrow>
      (\<forall>j. i \<le> j \<longrightarrow> j \<le> ls \<longrightarrow> hs_buckets (hh_stores t s) ! j = mark_bucket v (bs ! j)) \<Longrightarrow>
      hs_last_slot (hh_stores t n) = 2 ^ k - 1 \<Longrightarrow> length (hs_buckets (hh_stores t n)) = 2 ^ k \<Longrightarrow>
      map abs_bucket (hs_buckets (hh_stores t n)) = nb \<Longrightarrow> fresh_buckets v (hs_buckets (hh_stores t n)) \<Longrightarrow>
    \<exists>t'. run_alone (hihat_store_migrate_step v) (move_at ls s n i used) (t, thread) =
        run_alone (hihat_store_migrate_step v)
          (MUsed s n (if v = Sleeping then used + live_records (drop i bs) else used)) (t', thread) \<and>
      same_shape t t' \<and> map abs_bucket (hs_buckets (hh_stores t' n)) = nb' \<and> fresh_buckets v (hs_buckets (hh_stores t' n))"
  using assms(1)
proof (induction arbitrary: i t used rule: placed.induct)
  case (placed_none nb)
  then have "i = Suc ls" using bs(1) by simp
  with placed_none bs(1) show ?case by (intro exI [of _ t]) (simp add: move_at_def live_records_def)
next
  case (placed_skip c cs nb nb')
  have i: "i \<le> ls" using placed_skip.prems(1,2) bs(1) by (cases "i = Suc ls") auto
  then have c: "c = abs_bucket (bs ! i)" "cs = map abs_bucket (drop (Suc i) bs)"
    using placed_skip.prems(1) bs(1) by (simp_all add: Cons_nth_drop_Suc [of i bs, symmetric])
  have dead: "rec_epoch (hb_record (bs ! i)) = 0" using placed_skip.hyps(1) c(1) by (simp add: unat_eq_zero)
  have st: "run_alone (hihat_store_migrate_step v) (move_at ls s n i used) (t, thread) =
      run_alone (hihat_store_migrate_step v) (move_at ls s n (Suc i) used) (t, thread)"
    by (rule move_skip [where b = "bs ! i"]) (use placed_skip.prems i dead bs in simp_all)
  have lr: "live_records (drop i bs) = live_records (drop (Suc i) bs)" using live_records_drop [of i bs] i bs(1) dead by simp
  show ?case unfolding st lr
    by (rule placed_skip.IH [OF c(2)]) (use placed_skip.prems i in auto)
next
  case (placed_put c nb j z cs nb')
  have i: "i \<le> ls" using placed_put.prems(1,2) bs(1) by (cases "i = Suc ls") auto
  define b where "b = bs ! i"
  define nbs where "nbs = hs_buckets (hh_stores t n)"
  have c: "c = abs_bucket b" "cs = map abs_bucket (drop (Suc i) bs)"
    using placed_put.prems(1) bs(1) i by (simp_all add: Cons_nth_drop_Suc [of i bs, symmetric] b_def)
  have live: "rec_epoch (hb_record b) \<noteq> 0" using placed_put.hyps(1) c(1) by (simp add: unat_gt_0)
  have idle: "rec_idle v (hb_record b)" using bs(1,2) i by (simp add: b_def)
  have hvs: "map rb_hv nb = map hb_hv nbs" using placed_put.prems(11) by (auto simp: nbs_def)
  have len: "length nbs = 2 ^ k" "length nb = length nbs" using placed_put.prems(10,11) by (auto simp: nbs_def)
  have j: "j < length nbs" "hb_hv (nbs ! j) = 0" "hb_record (nbs ! j) = zero_record"
  proof -
    show j: "j < length nbs" using placed_put.hyps(4) len by simp
    have "nb ! j = abs_bucket (nbs ! j)" using placed_put.prems(11) j by (auto simp: nbs_def)
    then show "hb_hv (nbs ! j) = 0" using placed_put.hyps(5,6) by simp
    then show "hb_record (nbs ! j) = zero_record" using placed_put.prems(12) j by (auto simp: fresh_buckets_def nbs_def)
  qed
  define t1 where "t1 = put_buckets t n (nbs[j := \<lparr>hb_hv = hb_hv b, hb_record = copy_record v (hb_record b)\<rparr>])"
  define t2 where "t2 = put_buckets t1 s ((hs_buckets (hh_stores t s))[i := rec_or (f_moved v) (mark_bucket v b)])"
  have shape: "same_shape t t2" by (simp add: t2_def t1_def same_shape_put)
  note sel = same_shape_sel [OF shape]
  have n2: "hs_buckets (hh_stores t2 n) = nbs[j := \<lparr>hb_hv = hb_hv b, hb_record = copy_record v (hb_record b)\<rparr>]"
    "hs_buckets (hh_stores t2 s) = (hs_buckets (hh_stores t s))[i := rec_or (f_moved v) (mark_bucket v b)]"
    using sn by (simp_all add: t2_def t1_def)
  have step: "run_alone (hihat_store_migrate_step v) (move_at ls s n i used) (t, thread) =
      run_alone (hihat_store_migrate_step v) (move_at ls s n (Suc i) (moved_used v b used)) (t2, thread)"
    unfolding t2_def t1_def
    by (rule move_put [where k = k and z = "nbs ! j"])
      (use placed_put.prems placed_put.hyps(2,3,8) i live idle bs sn len j c(1) hvs in \<open>simp_all add: b_def nbs_def\<close>)
  have "\<exists>t'. run_alone (hihat_store_migrate_step v) (move_at ls s n (Suc i) (moved_used v b used)) (t2, thread) =
        run_alone (hihat_store_migrate_step v)
          (MUsed s n (if v = Sleeping then moved_used v b used + live_records (drop (Suc i) bs) else moved_used v b used)) (t', thread) \<and>
      same_shape t2 t' \<and> map abs_bucket (hs_buckets (hh_stores t' n)) = nb' \<and> fresh_buckets v (hs_buckets (hh_stores t' n))"
  proof (rule placed_put.IH [OF c(2)])
    show "map abs_bucket (hs_buckets (hh_stores t2 n)) = nb[j := c]"
      using placed_put.prems(11) copied_abs [OF idle] c(1) by (simp add: n2 map_update nbs_def)
    show "fresh_buckets v (hs_buckets (hh_stores t2 n))"
      unfolding n2(1) by (rule fresh_buckets_update) (use placed_put.prems(12) idle placed_put.hyps(2) c(1) in \<open>simp_all add: nbs_def\<close>)
  qed (use placed_put.prems i sel n2 len in \<open>auto simp: moved_used_def\<close>)
  then obtain t' where "run_alone (hihat_store_migrate_step v) (move_at ls s n (Suc i) (moved_used v b used)) (t2, thread) =
        run_alone (hihat_store_migrate_step v)
          (MUsed s n (if v = Sleeping then moved_used v b used + live_records (drop (Suc i) bs) else moved_used v b used)) (t', thread)"
      "same_shape t2 t'" "map abs_bucket (hs_buckets (hh_stores t' n)) = nb'" "fresh_buckets v (hs_buckets (hh_stores t' n))"
    by blast
  moreover have "(if v = Sleeping then moved_used v b used + live_records (drop (Suc i) bs) else moved_used v b used) =
      (if v = Sleeping then used + live_records (drop i bs) else used)"
    using live_records_drop [of i bs] i bs(1) live by (simp add: moved_used_def b_def)
  moreover have "same_shape t t'" using shape \<open>same_shape t2 t'\<close> same_shape_trans by blast
  ultimately show ?case using step by (intro exI [of _ t']) simp
qed

section \<open>Migration\<close>

definition store_ok :: "variant \<Rightarrow> nat \<Rightarrow> nat \<Rightarrow> hihat_store \<Rightarrow> bool" where
  "store_ok v k next st \<longleftrightarrow>
     hs_last_slot st = 2 ^ k - 1 \<and> hs_threshold st = hatrack_compute_table_threshold (2 ^ k) \<and> hs_store_next st = None \<and>
     store_inv k next (map abs_bucket (hs_buckets st)) \<and> hs_used_count st = reserved (map abs_bucket (hs_buckets st)) \<and>
     (\<forall>b \<in> set (hs_buckets st). rec_idle v (hb_record b))"

lemma store_okD:
  assumes "store_ok v k next st"
  shows "hs_last_slot st = 2 ^ k - 1" "hs_threshold st = hatrack_compute_table_threshold (2 ^ k)" "hs_store_next st = None"
    "store_inv k next (map abs_bucket (hs_buckets st))" "hs_used_count st = reserved (map abs_bucket (hs_buckets st))"
    "\<And>b. b \<in> set (hs_buckets st) \<Longrightarrow> rec_idle v (hb_record b)" "length (hs_buckets st) = 2 ^ k"
  using assms store_bounds(2) [of k "next" "map abs_bucket (hs_buckets st)"] by (simp_all add: store_ok_def)

definition mem_ok :: "hihat \<Rightarrow> mmm_thread \<Rightarrow> bool" where
  "mem_ok t thread \<longleftrightarrow> mmm_ok (hh_mmm t) thread \<and> allocated (hh_mmm t) (hh_store_current t) \<and>
     hh_store_current t \<notin> set (mt_retire_list thread)"

definition new_store :: "nat \<Rightarrow> hihat_store" where
  "new_store k = \<lparr>hs_last_slot = 2 ^ k - 1, hs_threshold = hatrack_compute_table_threshold (2 ^ k), hs_used_count = 0,
     hs_store_next = None, hs_buckets = replicate (2 ^ k) zero_hihat_bucket\<rparr>"

lemma new_store_buckets: "fresh_buckets v (hs_buckets (new_store k))"
  "map abs_bucket (hs_buckets (new_store k)) = replicate (2 ^ k) zero_bucket"
  by (simp_all add: new_store_def fresh_buckets_def abs_bucket_zero) (simp add: zero_hihat_bucket_def)

lemma hihat_store_new_ok:
  assumes m: "mmm_ok (hh_mmm t) thread" and e: "mm_epoch (hh_mmm t) + 1 < 2 ^ 64" and k: "(2::nat) ^ k \<le> 2 ^ 57"
  obtains m' n where "hihat_store_new t (2 ^ k) = (t\<lparr>hh_mmm := m', hh_stores := (hh_stores t)(n :=
       new_store k)\<rparr>, n)"
    "mmm_ok m' thread" "\<not> allocated (hh_mmm t) n" "allocated m' n" "\<forall>p. allocated (hh_mmm t) p \<longrightarrow> allocated m' p"
    "mm_epoch m' = mm_epoch (hh_mmm t) + 1"
proof -
  have len: "wrap64 (sizeof_hihat_store + wrap64 (sizeof_hihat_bucket * 2 ^ k)) = 32 + 32 * 2 ^ k"
    using k by (simp add: sizeof_hihat_store_def sizeof_hihat_bucket_def wrap64_id)
  have last: "wrap64 (2 ^ k + 2 ^ 64 - 1) = 2 ^ k - 1" using k wrap64_pred [of "2 ^ k"] by simp
  obtain m' n where m': "mmm_alloc_committed (hh_mmm t) (32 + 32 * 2 ^ k) = (m', n)" "mmm_ok m' thread"
    "\<not> allocated (hh_mmm t) n" "allocated m' n" "\<forall>p. allocated (hh_mmm t) p \<longrightarrow> allocated m' p"
    "mm_epoch m' = mm_epoch (hh_mmm t) + 1"
    using mmm.alloc_ok [OF m e] by metis
  have "hihat_store_new t (2 ^ k) = (t\<lparr>hh_mmm := m', hh_stores := (hh_stores t)(n :=
       new_store k)\<rparr>, n)"
    unfolding hihat_store_new_def Let_def len last m'(1)
    by (simp add: new_store_def sizeof_hihat_store_def sizeof_hihat_bucket_def)
  then show ?thesis using that m' by blast
qed

text \<open>The size of the next store, in each variant.\<close>

lemma migrate_size:
  assumes ok: "store_ok v k (hh_next_epoch t) (hh_stores t s)" and al: "allocated (hh_mmm t) s"
    and live: "live_records (hs_buckets (hh_stores t s)) = used" "used \<le> hatrack_compute_table_threshold (2 ^ k)"
    and grown: "hatrack_compute_table_threshold (2 ^ k) \<le> hh_next_epoch t"
    and sh: "same_shape t t'"
  obtains k' where "run_alone (hihat_store_migrate_step v) (MNext s used) (t', thread) =
      run_alone (hihat_store_migrate_step v) (MAlloc s used (2 ^ k')) (t', thread)" "4 \<le> k'"
    "(2::nat) ^ k' \<le> max (2 ^ 30) (4 * hh_next_epoch t)" "used < hatrack_compute_table_threshold (2 ^ k')"
proof -
  note D = store_okD [OF ok] and B = store_bounds [OF store_okD(4) [OF ok]] and S = same_shape_sel [OF sh]
  let ?bs = "map abs_bucket (hs_buckets (hh_stores t s))"
  have L: "live_count ?bs = used" using live(1) by (simp add: live_records_abs)
  obtain k1 where k1: "hatrack_new_size (2 ^ k - 1) used = 2 ^ k1" "4 \<le> k1" "(2::nat) ^ k1 \<le> max (2 ^ 30) (4 * hh_next_epoch t)"
    "used < hatrack_compute_table_threshold (2 ^ k1)"
    by (rule store_new_size [OF D(4)]) (use L live(2) in auto)
  have d: "(2::nat) ^ (k + 1) \<le> max (2 ^ 30) (4 * hh_next_epoch t)" "used < hatrack_compute_table_threshold (2 ^ (k + 1))"
    using store_double [OF D(4) _ grown] L live(2) by simp_all
  have dbl: "wrap64 (2 * (hs_last_slot (hh_stores t s) + 1)) = 2 ^ (k + 1)" using B(4) D(1) by (simp add: wrap64_id)
  show ?thesis
  proof (cases "v = Helping \<and> hh_help_needed t \<noteq> 0")
    case True
    have "run_alone (hihat_store_migrate_step v) (MNext s used) (t', thread) =
        run_alone (hihat_store_migrate_step v) (MAlloc s used (2 ^ (k + 1))) (t', thread)"
      using True al D(3) dbl S
      by (simp add: run_alone.simps [of _ "MNext s used"] run_alone.simps [of _ "MSize s used"] del: mult_Suc_right)
    then show ?thesis using that [of "k + 1"] d store_invD(1) [OF D(4)] by simp
  next
    case False
    have "run_alone (hihat_store_migrate_step v) (MNext s used) (t', thread) =
        run_alone (hihat_store_migrate_step v) (MAlloc s used (2 ^ k1)) (t', thread)"
      using False al D k1(1) S
      by (auto simp: run_alone.simps [of _ "MNext s used"] run_alone.simps [of _ "MSize s used"])
    then show ?thesis using that [of k1] k1 by simp
  qed
qed


text \<open>The whole migration: marking, the new store, moving, installing it and retiring the old one.\<close>

lemma migrate_mark:
  assumes ok: "store_ok v k next (hh_stores t s)" and al: "allocated (hh_mmm t) s" and cur: "hh_store_current t = s"
  defines "bs \<equiv> hs_buckets (hh_stores t s)"
  shows "run_alone (hihat_store_migrate_step v) (MStart s) (t, thread) =
    run_alone (hihat_store_migrate_step v) (MNext s (live_records bs)) (put_buckets t s (map (mark_bucket v) bs), thread)"
proof -
  note D = store_okD [OF ok] and B = store_bounds [OF store_okD(4) [OF ok]]
  have len: "length bs = Suc (2 ^ k - 1)" using D(7) by (simp add: bs_def)
  have "live_records bs \<le> length bs" by (simp add: live_records_def)
  then have "live_records bs < 2 ^ 64" using len B(4) by simp
  then have loop: "run_alone (hihat_store_migrate_step v) (MMark s 0 0) (t, thread) =
      run_alone (hihat_store_migrate_step v) (MNext s (live_records bs)) (put_buckets t s (map (mark_bucket v) bs), thread)"
    using mark_loop [OF al D(1) len, of v 0 0 thread] D(6) put_buckets_id [of t s] by (simp add: bs_def)
  have "run_alone (hihat_store_migrate_step v) (MStart s) (t, thread) = run_alone (hihat_store_migrate_step v) (MMark s 0 0) (t, thread)"
    using cur al D(3) by (simp add: run_alone.simps [of _ "MStart s"] run_alone.simps [of _ "MSleep s"])
  with loop show ?thesis by simp
qed

lemma migrate_install:
  assumes m: "mmm_ok (hh_mmm t) thread" and al: "allocated (hh_mmm t) s" "allocated (hh_mmm t) n" "s \<noteq> n"
    and cur: "hh_store_current t = s" and dy: "s \<notin> set (mt_retire_list thread)" "n \<notin> set (mt_retire_list thread)"
    and zero: "hs_used_count (hh_stores t n) = 0"
  obtains m' thread' where "run_alone (hihat_store_migrate_step v) (MUsed s n used) (t, thread) =
      Some ((t\<lparr>hh_store_current := n, hh_stores := (hh_stores t)(n := (hh_stores t n)\<lparr>hs_used_count := used\<rparr>), hh_mmm := m'\<rparr>, thread'), Inr n)"
    "mmm_ok m' thread'" "allocated m' n" "n \<notin> set (mt_retire_list thread')" "mm_epoch m' = mm_epoch (hh_mmm t)"
proof -
  obtain m' thread' where m': "mmm_retire (hh_mmm t) thread s = Inr (m', thread')" "mmm_ok m' thread'"
    "set (mt_retire_list thread') \<subseteq> insert s (set (mt_retire_list thread))"
    "\<forall>q. allocated (hh_mmm t) q \<longrightarrow> q \<noteq> s \<longrightarrow> q \<notin> set (mt_retire_list thread) \<longrightarrow> allocated m' q"
    "mm_epoch m' = mm_epoch (hh_mmm t)"
    using mmm.retire_ok [OF m al(1) dy(1)] by blast
  have "run_alone (hihat_store_migrate_step v) (MUsed s n used) (t, thread) =
      Some ((t\<lparr>hh_store_current := n, hh_stores := (hh_stores t)(n := (hh_stores t n)\<lparr>hs_used_count := used\<rparr>), hh_mmm := m'\<rparr>, thread'), Inr n)"
    using al cur zero m'(1)
    by (simp add: run_alone.simps [of _ "MUsed s n used"] run_alone.simps [of _ "MInstall s n"] run_alone.simps [of _ "MRetire s"]
        run_alone.simps [of _ MReturn] write_store_def)
  then show ?thesis using that m' al dy by blast
qed


lemma migrate_move:
  assumes ok: "store_ok v k next (hh_stores t s)" and bs: "hs_buckets (hh_stores t s) = bs" "live_records bs = used"
    and al: "allocated (hh_mmm t) s" and m: "mmm_ok (hh_mmm t) thread" and e: "mm_epoch (hh_mmm t) + 1 < 2 ^ 64"
    and k': "(2::nat) ^ k' \<le> 2 ^ 57" and pl: "placed k' (map abs_bucket bs) (replicate (2 ^ k') zero_bucket) nb"
  obtains t' n where "run_alone (hihat_store_migrate_step v) (MAlloc s used (2 ^ k')) (put_buckets t s (map (mark_bucket v) bs), thread) =
      run_alone (hihat_store_migrate_step v) (MUsed s n used) (t', thread)"
    "\<not> allocated (hh_mmm t) n" "allocated (hh_mmm t') n" "allocated (hh_mmm t') s" "mmm_ok (hh_mmm t') thread"
    "mm_epoch (hh_mmm t') = mm_epoch (hh_mmm t) + 1" "hh_store_current t' = hh_store_current t"
    "hh_item_count t' = hh_item_count t" "hh_next_epoch t' = hh_next_epoch t" "hh_help_needed t' = hh_help_needed t"
    "hs_last_slot (hh_stores t' n) = 2 ^ k' - 1" "hs_threshold (hh_stores t' n) = hatrack_compute_table_threshold (2 ^ k')"
    "hs_used_count (hh_stores t' n) = 0" "hs_store_next (hh_stores t' n) = None"
    "map abs_bucket (hs_buckets (hh_stores t' n)) = nb" "fresh_buckets v (hs_buckets (hh_stores t' n))"
proof -
  note D = store_okD [OF ok] and B = store_bounds [OF store_okD(4) [OF ok]]
  define t1 where "t1 = put_buckets t s (map (mark_bucket v) bs)"
  obtain m' n where t2: "hihat_store_new t1 (2 ^ k') = (t1\<lparr>hh_mmm := m', hh_stores := (hh_stores t1)(n := new_store k')\<rparr>, n)"
    and m': "mmm_ok m' thread" "\<not> allocated (hh_mmm t) n" "allocated m' n" "\<forall>p. allocated (hh_mmm t) p \<longrightarrow> allocated m' p"
    "mm_epoch m' = mm_epoch (hh_mmm t) + 1"
    by (rule hihat_store_new_ok [of t1 thread k']) (use m e k' in \<open>simp_all add: t1_def\<close>)
  have sn: "s \<noteq> n" "n \<noteq> s" using al m'(2) by auto
  define t3 where "t3 = write_store (t1\<lparr>hh_mmm := m', hh_stores := (hh_stores t1)(n := new_store k')\<rparr>) s
    ((hh_stores t1 s)\<lparr>hs_store_next := Some n\<rparr>)"
  have sel: "hh_mmm t3 = m'" "hh_store_current t3 = hh_store_current t" "hh_item_count t3 = hh_item_count t"
    "hh_next_epoch t3 = hh_next_epoch t" "hh_help_needed t3 = hh_help_needed t" "hh_stores t3 n = new_store k'"
    "hs_last_slot (hh_stores t3 s) = 2 ^ k - 1" "hs_buckets (hh_stores t3 s) = map (mark_bucket v) bs"
    using sn D(1) by (simp_all add: t3_def write_store_def t1_def)
  have len: "length bs = Suc (2 ^ k - 1)" "length bs < 2 ^ 63" using D(7) B(4) bs(1) by auto
  have start: "run_alone (hihat_store_migrate_step v) (MAlloc s used (2 ^ k')) (t1, thread) =
      run_alone (hihat_store_migrate_step v) (move_at (2 ^ k - 1) s n 0 (if v = Sleeping then 0 else used)) (t3, thread)"
    using t2 al m'(4) D(3) sn
    by (simp add: run_alone.simps [of _ "MAlloc s used (2 ^ k')"] run_alone.simps [of _ "MLink s used n"] move_start_def move_at_def
        t3_def t1_def)
  have idle: "\<And>b. b \<in> set bs \<Longrightarrow> rec_idle v (hb_record b)" using D(6) bs(1) by simp
  have u: "(if v = Sleeping then (if v = Sleeping then 0 else used) + live_records (drop 0 bs)
      else if v = Sleeping then 0 else used) = used" using bs(2) by simp
  have "\<exists>t'. run_alone (hihat_store_migrate_step v) (move_at (2 ^ k - 1) s n 0 (if v = Sleeping then 0 else used)) (t3, thread) =
        run_alone (hihat_store_migrate_step v) (MUsed s n (if v = Sleeping then (if v = Sleeping then 0 else used) + live_records (drop 0 bs)
          else if v = Sleeping then 0 else used)) (t', thread) \<and>
      same_shape t3 t' \<and> map abs_bucket (hs_buckets (hh_stores t' n)) = nb \<and> fresh_buckets v (hs_buckets (hh_stores t' n))"
    by (rule move_loop [OF pl sn(1) len(1) idle len(2)])
      (use sel len m' al new_store_buckets in \<open>simp_all add: new_store_def less_Suc_eq_le [symmetric]\<close>)
  then obtain t' where t': "run_alone (hihat_store_migrate_step v) (move_at (2 ^ k - 1) s n 0 (if v = Sleeping then 0 else used)) (t3, thread) =
        run_alone (hihat_store_migrate_step v) (MUsed s n used) (t', thread)"
    "same_shape t3 t'" "map abs_bucket (hs_buckets (hh_stores t' n)) = nb" "fresh_buckets v (hs_buckets (hh_stores t' n))"
    unfolding u by blast
  note S = same_shape_sel [OF t'(2)]
  show ?thesis
    by (rule that [of n t']) (use start t' m' al S sel in \<open>simp_all add: t1_def new_store_def\<close>)
qed

lemma migrate_run:
  assumes ok: "store_ok v k (hh_next_epoch t) (hh_stores t (hh_store_current t))" and mem: "mem_ok t thread"
    and e: "mm_epoch (hh_mmm t) + 1 < 2 ^ 64"
    and few: "live_records (hs_buckets (hh_stores t (hh_store_current t))) \<le> hatrack_compute_table_threshold (2 ^ k)"
    and grown: "hatrack_compute_table_threshold (2 ^ k) \<le> hh_next_epoch t"
  defines "bs \<equiv> map abs_bucket (hs_buckets (hh_stores t (hh_store_current t)))"
  obtains t' thread' k' where
    "run_alone (hihat_store_migrate_step v) (MStart (hh_store_current t)) (t, thread) = Some ((t', thread'), Inr (hh_store_current t'))"
    "store_ok v k' (hh_next_epoch t) (hh_stores t' (hh_store_current t'))" "mem_ok t' thread'"
    "store_dict (map abs_bucket (hs_buckets (hh_stores t' (hh_store_current t')))) = store_dict bs"
    "live_count (map abs_bucket (hs_buckets (hh_stores t' (hh_store_current t')))) = live_count bs"
    "hs_used_count (hh_stores t' (hh_store_current t')) = live_count bs"
    "live_count bs < hatrack_compute_table_threshold (2 ^ k')"
    "hh_item_count t' = hh_item_count t" "hh_next_epoch t' = hh_next_epoch t" "hh_help_needed t' = hh_help_needed t"
    "mm_epoch (hh_mmm t') = mm_epoch (hh_mmm t) + 1"
proof -
  define s where "s = hh_store_current t"
  define hbs where "hbs = hs_buckets (hh_stores t s)"
  define used where "used = live_records hbs"
  have al: "allocated (hh_mmm t) s" "mmm_ok (hh_mmm t) thread" "s \<notin> set (mt_retire_list thread)"
    using mem by (simp_all add: mem_ok_def s_def)
  note ok = ok [folded s_def]
  have L: "live_count bs = used" by (simp add: bs_def used_def hbs_def s_def live_records_abs)
  have bs: "bs = map abs_bucket hbs" by (simp add: bs_def hbs_def s_def)
  have shape: "same_shape t (put_buckets t s (map (mark_bucket v) hbs))" by (simp add: same_shape_put)
  obtain k' where k': "run_alone (hihat_store_migrate_step v) (MNext s used) (put_buckets t s (map (mark_bucket v) hbs), thread) =
      run_alone (hihat_store_migrate_step v) (MAlloc s used (2 ^ k')) (put_buckets t s (map (mark_bucket v) hbs), thread)" "4 \<le> k'"
    "(2::nat) ^ k' \<le> max (2 ^ 30) (4 * hh_next_epoch t)" "used < hatrack_compute_table_threshold (2 ^ k')"
    by (rule migrate_size [OF ok al(1) _ _ grown shape, of used thread]) (use few in \<open>simp_all add: used_def hbs_def s_def\<close>)
  note D = store_okD [OF ok]
  have inv: "store_inv k (hh_next_epoch t) bs" using D(4) by (simp add: bs hbs_def)
  obtain nb where nb: "placed k' bs (replicate (2 ^ k') zero_bucket) nb" "store_inv k' (hh_next_epoch t) nb"
    "store_dict nb = store_dict bs" "reserved nb = live_count bs" "live_count nb = live_count bs"
    using store_migrated [OF inv k'(2,3)] k'(4) L by metis
  have k57: "(2::nat) ^ k' \<le> 2 ^ 57" by (rule size_limit(1) [OF store_invD(7) [OF inv] k'(3,2)])
  obtain t1 n where t1: "run_alone (hihat_store_migrate_step v) (MAlloc s used (2 ^ k')) (put_buckets t s (map (mark_bucket v) hbs), thread) =
      run_alone (hihat_store_migrate_step v) (MUsed s n used) (t1, thread)"
    "\<not> allocated (hh_mmm t) n" "allocated (hh_mmm t1) n" "allocated (hh_mmm t1) s" "mmm_ok (hh_mmm t1) thread"
    "mm_epoch (hh_mmm t1) = mm_epoch (hh_mmm t) + 1" "hh_store_current t1 = hh_store_current t"
    "hh_item_count t1 = hh_item_count t" "hh_next_epoch t1 = hh_next_epoch t" "hh_help_needed t1 = hh_help_needed t"
    "hs_last_slot (hh_stores t1 n) = 2 ^ k' - 1" "hs_threshold (hh_stores t1 n) = hatrack_compute_table_threshold (2 ^ k')"
    "hs_used_count (hh_stores t1 n) = 0" "hs_store_next (hh_stores t1 n) = None"
    "map abs_bucket (hs_buckets (hh_stores t1 n)) = nb" "fresh_buckets v (hs_buckets (hh_stores t1 n))"
    by (rule migrate_move [OF ok hbs_def [symmetric] used_def [symmetric] al(1,2) e k57 nb(1) [unfolded bs]])
  have sn: "s \<noteq> n" using al(1) t1(2) by auto
  have nd: "n \<notin> set (mt_retire_list thread)" using mmm.dying_live [OF al(2)] t1(2) by auto
  obtain m' thread' where f: "run_alone (hihat_store_migrate_step v) (MUsed s n used) (t1, thread) =
      Some ((t1\<lparr>hh_store_current := n, hh_stores := (hh_stores t1)(n := (hh_stores t1 n)\<lparr>hs_used_count := used\<rparr>), hh_mmm := m'\<rparr>, thread'), Inr n)"
    "mmm_ok m' thread'" "allocated m' n" "n \<notin> set (mt_retire_list thread')" "mm_epoch m' = mm_epoch (hh_mmm t1)"
    by (rule migrate_install [OF t1(5,4,3) sn _ al(3) nd t1(13)]) (use t1(7) in \<open>simp add: s_def\<close>)
  let ?t = "t1\<lparr>hh_store_current := n, hh_stores := (hh_stores t1)(n := (hh_stores t1 n)\<lparr>hs_used_count := used\<rparr>), hh_mmm := m'\<rparr>"
  have "run_alone (hihat_store_migrate_step v) (MStart s) (t, thread) = Some ((?t, thread'), Inr n)"
    using migrate_mark [OF ok al(1), folded hbs_def used_def] k'(1) t1(1) f(1) by (simp add: s_def)
  moreover have "store_ok v k' (hh_next_epoch t) (hh_stores ?t n)"
    using t1 nb L by (simp add: store_ok_def fresh_buckets_def)
  moreover have "mem_ok ?t thread'" using f by (simp add: mem_ok_def)
  ultimately show ?thesis using that [of ?t thread' k'] t1 nb L k'(4) f(5) by (simp add: s_def)
qed


section \<open>The invariant of a table\<close>

abbreviation current_buckets :: "hihat \<Rightarrow> refhat_bucket list" where
  "current_buckets t \<equiv> map abs_bucket (hs_buckets (hh_stores t (hh_store_current t)))"

definition hihat_dict :: "hihat_state \<Rightarrow> odict" where
  "hihat_dict st = store_dict (current_buckets (fst st))"

text \<open>
  A store is full when as many buckets are reserved as the threshold allows; a full store will be replaced by the next
  allocation, which the memory manager's clock must still be able to count.
\<close>

definition inv_at :: "variant \<Rightarrow> nat \<Rightarrow> hihat_state \<Rightarrow> bool" where
  "inv_at v k st \<longleftrightarrow> (let t = fst st; store = hh_stores t (hh_store_current t); thr = hatrack_compute_table_threshold (2 ^ k) in
     store_ok v k (hh_next_epoch t) store \<and> hs_used_count store \<le> thr \<and> hs_used_count store < hh_next_epoch t \<and>
     hh_item_count t = live_count (current_buckets t) \<and> mem_ok t (snd st) \<and> hh_next_epoch t \<le> flag_limit v \<and>
     mm_epoch (hh_mmm t) + (if thr \<le> hs_used_count store then 1 else 0) \<le> hh_next_epoch t + 1)"

definition hihat_inv :: "variant \<Rightarrow> hihat_state \<Rightarrow> bool" where
  "hihat_inv v st \<longleftrightarrow> (\<exists>k. inv_at v k st)"

lemma inv_atD:
  assumes "inv_at v k (t, thread)"
  shows "store_ok v k (hh_next_epoch t) (hh_stores t (hh_store_current t))"
    "hs_used_count (hh_stores t (hh_store_current t)) \<le> hatrack_compute_table_threshold (2 ^ k)"
    "hs_used_count (hh_stores t (hh_store_current t)) < hh_next_epoch t"
    "hh_item_count t = live_count (current_buckets t)" "mem_ok t thread" "hh_next_epoch t \<le> flag_limit v"
    "mm_epoch (hh_mmm t) + (if hatrack_compute_table_threshold (2 ^ k) \<le> hs_used_count (hh_stores t (hh_store_current t)) then 1 else 0)
       \<le> hh_next_epoch t + 1"
  using assms by (simp_all add: inv_at_def Let_def)

lemma inv_at_mem:
  assumes "inv_at v k (t, thread)"
  shows "allocated (hh_mmm t) (hh_store_current t)" "mmm_ok (hh_mmm t) thread" "mt_initialized thread"
    "mm_epoch (hh_mmm t) + 1 < 2 ^ 64"
proof -
  show m: "allocated (hh_mmm t) (hh_store_current t)" "mmm_ok (hh_mmm t) thread"
    using inv_atD(5) [OF assms] by (simp_all add: mem_ok_def)
  then show "mt_initialized thread" by (simp add: mmm_ok_def)
  have "flag_limit v \<le> 2 ^ 55" by (simp add: flag_limit_def epoch_limit_def)
  then show "mm_epoch (hh_mmm t) + 1 < 2 ^ 64" using inv_atD(6,7) [OF assms] by (simp split: if_splits)
qed

lemma inv_at_mmm:
  assumes "inv_at v k (t, thread)" "mmm_ok m' thread" "allocated m' = allocated (hh_mmm t)" "mm_epoch m' = mm_epoch (hh_mmm t)"
  shows "inv_at v k (t\<lparr>hh_mmm := m'\<rparr>, thread)"
  using assms by (simp add: inv_at_def mem_ok_def Let_def)

lemma hihat_dict_mmm [simp]: "hihat_dict (t\<lparr>hh_mmm := m'\<rparr>, thread) = hihat_dict (t, thread)"
  by (simp add: hihat_dict_def)

lemma inv_at_room:
  assumes "inv_at v k (t, thread)"
  shows "reserved (current_buckets t) < 2 ^ k" "live_count (current_buckets t) \<le> hatrack_compute_table_threshold (2 ^ k)"
    "hatrack_compute_table_threshold (2 ^ k) \<le> hs_used_count (hh_stores t (hh_store_current t)) \<Longrightarrow>
     hatrack_compute_table_threshold (2 ^ k) \<le> hh_next_epoch t"
proof -
  note I = inv_atD [OF assms] and D = store_okD [OF inv_atD(1) [OF assms]]
  have "hatrack_compute_table_threshold (2 ^ k) < 2 ^ k" using store_bounds(3,5) [OF D(4)] by simp
  then show "reserved (current_buckets t) < 2 ^ k" using I(2) D(5) by simp
  show "live_count (current_buckets t) \<le> hatrack_compute_table_threshold (2 ^ k)"
    using live_le_reserved [OF D(4)] I(2) D(5) by simp
  show "hatrack_compute_table_threshold (2 ^ k) \<le> hs_used_count (hh_stores t (hh_store_current t)) \<Longrightarrow>
     hatrack_compute_table_threshold (2 ^ k) \<le> hh_next_epoch t"
    using I(3) by simp
qed

text \<open>A table whose store is to be replaced: full, perhaps with one more bucket reserved than the threshold allows.\<close>

definition full_at :: "variant \<Rightarrow> nat \<Rightarrow> hihat_state \<Rightarrow> bool" where
  "full_at v k st \<longleftrightarrow> (let t = fst st; thr = hatrack_compute_table_threshold (2 ^ k) in
     store_ok v k (hh_next_epoch t) (hh_stores t (hh_store_current t)) \<and> live_count (current_buckets t) \<le> thr \<and>
     thr \<le> hh_next_epoch t \<and> hh_item_count t = live_count (current_buckets t) \<and> mem_ok t (snd st) \<and>
     hh_next_epoch t \<le> flag_limit v \<and> mm_epoch (hh_mmm t) \<le> hh_next_epoch t)"

lemma inv_full:
  assumes "inv_at v k (t, thread)" "hatrack_compute_table_threshold (2 ^ k) \<le> hs_used_count (hh_stores t (hh_store_current t))"
  shows "full_at v k (t, thread)"
  using inv_atD [OF assms(1)] inv_at_room [OF assms(1)] assms(2) by (simp add: full_at_def Let_def)

text \<open>Migration keeps the invariant and makes room.\<close>

lemma full_migrate:
  assumes "full_at v k (t, thread)"
  obtains t' thread' k' where
    "run_alone (hihat_store_migrate_step v) (MStart (hh_store_current t)) (t, thread) = Some ((t', thread'), Inr (hh_store_current t'))"
    "inv_at v k' (t', thread')" "hs_used_count (hh_stores t' (hh_store_current t')) < hatrack_compute_table_threshold (2 ^ k')"
    "hihat_dict (t', thread') = hihat_dict (t, thread)" "hh_next_epoch t' = hh_next_epoch t"
proof -
  have I: "store_ok v k (hh_next_epoch t) (hh_stores t (hh_store_current t))"
    "live_records (hs_buckets (hh_stores t (hh_store_current t))) \<le> hatrack_compute_table_threshold (2 ^ k)"
    "hatrack_compute_table_threshold (2 ^ k) \<le> hh_next_epoch t" "hh_item_count t = live_count (current_buckets t)" "mem_ok t thread"
    "hh_next_epoch t \<le> flag_limit v" "mm_epoch (hh_mmm t) \<le> hh_next_epoch t"
    using assms by (simp_all add: full_at_def Let_def live_records_abs)
  have "flag_limit v \<le> 2 ^ 55" by (simp add: flag_limit_def epoch_limit_def)
  then have e: "mm_epoch (hh_mmm t) + 1 < 2 ^ 64" using I(6,7) by simp
  obtain t' thread' k' where t': "run_alone (hihat_store_migrate_step v) (MStart (hh_store_current t)) (t, thread) = Some ((t', thread'), Inr (hh_store_current t'))"
    "store_ok v k' (hh_next_epoch t) (hh_stores t' (hh_store_current t'))" "mem_ok t' thread'"
    "store_dict (current_buckets t') = store_dict (current_buckets t)" "live_count (current_buckets t') = live_count (current_buckets t)"
    "hs_used_count (hh_stores t' (hh_store_current t')) = live_count (current_buckets t)"
    "live_count (current_buckets t) < hatrack_compute_table_threshold (2 ^ k')"
    "hh_item_count t' = hh_item_count t" "hh_next_epoch t' = hh_next_epoch t" "hh_help_needed t' = hh_help_needed t"
    "mm_epoch (hh_mmm t') = mm_epoch (hh_mmm t) + 1"
    by (rule migrate_run [OF I(1,5) e I(2,3)])
  have "live_count (current_buckets t) < hh_next_epoch t" by (rule live_less_next [OF store_okD(4) [OF I(1)]])
  then have "inv_at v k' (t', thread')" using t' I by (simp add: inv_at_def Let_def)
  then show ?thesis using that [of t' thread' k'] t' by (simp add: hihat_dict_def)
qed

section \<open>What the operations share\<close>

text \<open>A run that ends with the invariant, an answer, a dictionary, and no more than \<open>e\<close> epochs.\<close>

definition finishes ::
  "variant \<Rightarrow> (hihat_pc \<Rightarrow> hihat_state \<Rightarrow> hihat_state \<times> (hihat_pc + (ptr \<times> bool) outcome)) \<Rightarrow> hihat_pc \<Rightarrow> hihat_state \<Rightarrow>
   ptr \<times> bool \<Rightarrow> odict \<Rightarrow> nat \<Rightarrow> bool" where
  "finishes v step pc st r d e \<longleftrightarrow> (\<exists>st'. run_alone step pc st = Some (st', Inr r) \<and> hihat_inv v st' \<and> hihat_dict st' = d \<and>
     hh_next_epoch (fst st') \<le> e)"

lemma finishes_run:
  "run_alone step pc st = run_alone step pc' st' \<Longrightarrow> finishes v step pc' st' r d e \<Longrightarrow> finishes v step pc st r d e"
  by (simp add: finishes_def)

text \<open>
  The operations on one key differ in what they do once they are at a bucket. The rest is proved for any step function that
  enters, probes, migrates and leaves the way they do; \<open>vacant\<close> and \<open>after\<close> are the points behind a probe that ends
  at an unreserved bucket, and behind one that ends nowhere.
\<close>

locale hihat_operation =
  fixes v :: variant and hv :: hatrack_hash
    and step :: "hihat_pc \<Rightarrow> hihat_state \<Rightarrow> hihat_state \<times> (hihat_pc + (ptr \<times> bool) outcome)"
    and vacant :: "nat \<Rightarrow> nat \<Rightarrow> nat \<Rightarrow> nat \<Rightarrow> hihat_pc" and after :: "nat \<Rightarrow> nat \<Rightarrow> hihat_pc"
  assumes enter_step: "step HBegin st = hihat_common_step v HBegin st"
    and current_step: "step HCurrent st = hihat_common_step v HCurrent st"
    and first_step: "step (HFirst s r) st = hihat_first hv s r st"
    and probe_step: "step (HProbe s r bix i) st = with_bucket st s bix (\<lambda>store bucket.
       (st, Inl (if hatrack_bucket_unreserved (hb_hv bucket) then vacant s r bix i
                 else if hatrack_hashes_eq hv (hb_hv bucket) then HRecord s r bix
                 else probe_next store s r bix i (after s r))))"
    and migrate_step: "step (HMigrate r pc) st = hihat_common_step v (HMigrate r pc) st"
    and tidy_step: "step (HTidy r res pc) st = hihat_common_step v (HTidy r res pc) st"
    and full_step: "step (HFull s r res) st = hihat_common_step v (HFull s r res) st"
    and leave_step: "step (HLeave res) st = hihat_common_step v (HLeave res) st"
begin

lemma leave_finishes:
  assumes "inv_at v k (t, thread)"
  shows "finishes v step (HLeave r) (t, thread) r (hihat_dict (t, thread)) (hh_next_epoch t)"
proof -
  obtain m' where m': "mmm_end_op (hh_mmm t) thread = Inr m'" "mmm_ok m' thread" "allocated m' = allocated (hh_mmm t)"
    "mm_epoch m' = mm_epoch (hh_mmm t)"
    using mmm.leave_ok [OF inv_at_mem(2) [OF assms]] by blast
  have "run_alone step (HLeave r) (t, thread) = Some ((t\<lparr>hh_mmm := m'\<rparr>, thread), Inr r)"
    by (rule run_done) (simp add: leave_step m'(1))
  with inv_at_mmm [OF assms m'(2-4)] show ?thesis by (auto simp: finishes_def hihat_inv_def)
qed

lemma enter_run:
  assumes "mmm_ok (hh_mmm t) thread"
  obtains m' where "run_alone step HBegin (t, thread) = run_alone step (HFirst (hh_store_current t) 0) (t\<lparr>hh_mmm := m'\<rparr>, thread)"
    "mmm_ok m' thread" "allocated m' = allocated (hh_mmm t)" "mm_epoch m' = mm_epoch (hh_mmm t)"
proof -
  obtain m' where m': "mmm_start_basic_op (hh_mmm t) thread = Inr m'" "mmm_ok m' thread" "allocated m' = allocated (hh_mmm t)"
    "mm_epoch m' = mm_epoch (hh_mmm t)"
    using mmm.enter_ok [OF assms] by blast
  have "run_alone step HBegin (t, thread) = run_alone step HCurrent (t\<lparr>hh_mmm := m'\<rparr>, thread)"
    by (rule run_next) (simp add: enter_step m'(1))
  also have "\<dots> = run_alone step (HFirst (hh_store_current t) 0) (t\<lparr>hh_mmm := m'\<rparr>, thread)"
    by (rule run_next) (simp add: current_step)
  finally show ?thesis using that m'(2-4) by blast
qed

lemma enter_finishes:
  assumes inv: "inv_at v k (t, thread)"
    and rest: "\<And>m'. inv_at v k (t\<lparr>hh_mmm := m'\<rparr>, thread) \<Longrightarrow> finishes v step (HFirst (hh_store_current t) 0) (t\<lparr>hh_mmm := m'\<rparr>, thread) r d e"
  shows "finishes v step HBegin (t, thread) r d e"
proof -
  obtain m' where m': "run_alone step HBegin (t, thread) = run_alone step (HFirst (hh_store_current t) 0) (t\<lparr>hh_mmm := m'\<rparr>, thread)"
    "mmm_ok m' thread" "allocated m' = allocated (hh_mmm t)" "mm_epoch m' = mm_epoch (hh_mmm t)"
    by (rule enter_run [OF inv_at_mem(2) [OF inv]])
  from m'(1) show ?thesis by (rule finishes_run) (rule rest [OF inv_at_mmm [OF inv m'(2-4)]])
qed

text \<open>A whole call.\<close>

lemma call_finishes:
  assumes inv: "hihat_inv v st"
    and rest: "\<And>k t thread. inv_at v k (t, thread) \<Longrightarrow> hihat_dict (t, thread) = hihat_dict st \<Longrightarrow>
      hh_next_epoch t = hh_next_epoch (fst st) \<Longrightarrow> finishes v step (HFirst (hh_store_current t) 0) (t, thread) r d e"
  shows "\<exists>st'. run_alone step HBegin st = Some (st', Inr r) \<and> hihat_inv v st' \<and> hihat_dict st' = d \<and> hh_next_epoch (fst st') \<le> e"
proof -
  obtain t thread k where st: "st = (t, thread)" "inv_at v k (t, thread)" using inv by (cases st) (auto simp: hihat_inv_def)
  have "finishes v step HBegin (t, thread) r d e"
    by (rule enter_finishes [OF st(2)]) (use rest [of k _ thread] st(1) in force)
  then show ?thesis using st(1) by (simp add: finishes_def)
qed

lemma walk_run:
  assumes al: "allocated (hh_mmm t) s" and ls: "hs_last_slot (hh_stores t s) = 2 ^ k - 1" and h: "hv \<noteq> 0"
    and p: "probe (map hb_hv (hs_buckets (hh_stores t s))) (2 ^ k - 1) hv (hatrack_bucket_index hv (2 ^ k - 1)) (2 ^ k) = Inr res"
  shows "case res of Hit c \<Rightarrow> run_alone step (HFirst s r) (t, thread) = run_alone step (HRecord s r c) (t, thread)
    | Vacant c \<Rightarrow> \<exists>j. run_alone step (HFirst s r) (t, thread) = run_alone step (vacant s r c j) (t, thread)"
proof -
  let ?bs = "hs_buckets (hh_stores t s)" and ?b0 = "hatrack_bucket_index hv (2 ^ k - 1)"
  have first: "run_alone step (HFirst s r) (t, thread) = run_alone step (HProbe s r ?b0 0) (t, thread)"
    by (rule run_next) (use al ls in \<open>simp add: first_step hihat_first_def\<close>)
  have st: "step (HProbe s r b j) (t, thread) = ((t, thread), Inl (if map hb_hv ?bs ! b = 0 then vacant s r b j
      else if map hb_hv ?bs ! b = hv then HRecord s r b
      else if j < 2 ^ k - 1 then HProbe s r (wrap64 (b + 1) AND (2 ^ k - 1)) (j + 1) else after s r))"
    if "b < length (map hb_hv ?bs)" for b j
    using that al ls h by (auto simp: probe_step probe_next_def)
  from run_probe [where P = "\<lambda>b j. HProbe s r b j" and F = "\<lambda>b. HRecord s r b" and V = "\<lambda>b j. vacant s r b j" and N = "\<lambda>b j. after s r"
      and step = step and s = "(t, thread)" and ks = "map hb_hv ?bs" and ls = "2 ^ k - 1" and hv = hv and b = ?b0 and n = "2 ^ k" and j = 0,
      OF st h p] first
  show ?thesis by (simp split: probe_end.splits)
qed

lemma find_run:
  assumes inv: "inv_at v k (t, thread)" and h: "hv \<noteq> 0"
  defines "s \<equiv> hh_store_current t"
  obtains (present) i where "run_alone step (HFirst s r) (t, thread) = run_alone step (HRecord s r i) (t, thread)"
      "i < length (hs_buckets (hh_stores t s))" "hb_hv (hs_buckets (hh_stores t s) ! i) = hv"
    | (absent) i j where "run_alone step (HFirst s r) (t, thread) = run_alone step (vacant s r i j) (t, thread)"
      "i < length (hs_buckets (hh_stores t s))" "hb_hv (hs_buckets (hh_stores t s) ! i) = 0"
      "probe_wf k ((map rb_hv (current_buckets t))[i := hv])" "hv \<notin> set (map rb_hv (current_buckets t))"
proof -
  note D = store_okD [OF inv_atD(1) [OF inv], folded s_def]
  let ?bs = "hs_buckets (hh_stores t s)"
  have hvs: "map rb_hv (map abs_bucket ?bs) = map hb_hv ?bs" by simp
  note run = walk_run [OF inv_at_mem(1) [OF inv, folded s_def] D(1) h, of _ r thread]
  from D(4) inv_at_room(1) [OF inv, folded s_def] h show ?thesis
  proof (cases rule: store_find_cases)
    case (present i)
    then have "probe (map hb_hv ?bs) (2 ^ k - 1) hv (hatrack_bucket_index hv (2 ^ k - 1)) (2 ^ k) = Inr (Hit i)"
      using hvs by (simp only: store_find_def)
    with run [of "Hit i"] that(1) [of i] present show ?thesis by simp
  next
    case (absent i)
    then have "probe (map hb_hv ?bs) (2 ^ k - 1) hv (hatrack_bucket_index hv (2 ^ k - 1)) (2 ^ k) = Inr (Vacant i)"
      using hvs by (simp only: store_find_def)
    with run [of "Vacant i"] that(2) [of i] absent show ?thesis by (auto simp: s_def)
  qed
qed

text \<open>Where an operation is after its probe, and what the dictionary says then.\<close>

lemma located:
  assumes inv: "inv_at v k (t, thread)" and h: "hv \<noteq> 0"
  defines "s \<equiv> hh_store_current t"
  obtains (live) i b where "run_alone step (HFirst s r) (t, thread) = run_alone step (HRecord s r i) (t, thread)"
      "i < length (hs_buckets (hh_stores t s))" "hs_buckets (hh_stores t s) ! i = b" "hb_hv b = hv" "rec_idle v (hb_record b)"
      "rec_epoch (hb_record b) \<noteq> 0" "od_get (hihat_dict (t, thread)) hv = (hr_item (hb_record b), True)"
    | (dead) i b where "run_alone step (HFirst s r) (t, thread) = run_alone step (HRecord s r i) (t, thread)"
      "i < length (hs_buckets (hh_stores t s))" "hs_buckets (hh_stores t s) ! i = b" "hb_hv b = hv" "rec_idle v (hb_record b)"
      "rec_epoch (hb_record b) = 0" "od_get (hihat_dict (t, thread)) hv = (0, False)"
    | (absent) i j b where "run_alone step (HFirst s r) (t, thread) = run_alone step (vacant s r i j) (t, thread)"
      "i < length (hs_buckets (hh_stores t s))" "hs_buckets (hh_stores t s) ! i = b" "hb_hv b = 0" "rec_idle v (hb_record b)"
      "rec_epoch (hb_record b) = 0"
      "probe_wf k ((map rb_hv (current_buckets t))[i := hv])" "od_get (hihat_dict (t, thread)) hv = (0, False)"
proof -
  note D = store_okD [OF inv_atD(1) [OF inv], folded s_def]
  let ?bs = "hs_buckets (hh_stores t s)"
  have dict: "hihat_dict (t, thread) = store_dict (map abs_bucket ?bs)" by (simp add: hihat_dict_def s_def)
  from inv h show ?thesis
  proof (cases rule: find_run [of k t thread r])
    case (present i)
    note p = present [folded s_def]
    have idle: "rec_idle v (hb_record (?bs ! i))" using D(6) p(2) by simp
    show ?thesis
    proof (cases "rec_epoch (hb_record (?bs ! i)) = 0")
      case True
      then have "od_get (hihat_dict (t, thread)) hv = (0, False)"
        unfolding dict using store_get_dead(1) [OF D(4), of i hv] p(2,3) h by simp
      with True p idle show ?thesis using dead [of i "?bs ! i"] by simp
    next
      case False
      then have "od_get (hihat_dict (t, thread)) hv = (hr_item (hb_record (?bs ! i)), True)"
        unfolding dict using store_get_live [OF D(4), of i hv] p(2,3) by (simp add: unat_eq_zero)
      with False p idle show ?thesis using live [of i "?bs ! i"] by simp
    qed
  next
    case (absent i j)
    note p = absent(1-4) [folded s_def]
    have "od_get (hihat_dict (t, thread)) hv = (0, False)"
      unfolding dict s_def by (rule store_get_absent [OF absent(5)])
    moreover have "rec_epoch (hb_record (?bs ! i)) = 0"
      using store_invD(4) [OF D(4), of "abs_bucket (?bs ! i)"] p(2,3) by (simp add: unat_eq_zero)
    ultimately show ?thesis using that(3) [of i j "?bs ! i"] p D(6) absent(4) by simp
  qed
qed

lemma retry_run:
  assumes "full_at v k (t, thread)"
  obtains t' thread' k' r where
    "run_alone step (migrate_and_retry v (hh_store_current t) 0) (t, thread) = run_alone step (HFirst (hh_store_current t') r) (t', thread')"
    "inv_at v k' (t', thread')" "hs_used_count (hh_stores t' (hh_store_current t')) < hatrack_compute_table_threshold (2 ^ k')"
    "hihat_dict (t', thread') = hihat_dict (t, thread)" "hh_next_epoch t' = hh_next_epoch t" "r \<le> 1"
proof -
  obtain t' thread' k' where t': "run_alone (hihat_store_migrate_step v) (MStart (hh_store_current t)) (t, thread) =
      Some ((t', thread'), Inr (hh_store_current t'))"
    "inv_at v k' (t', thread')" "hs_used_count (hh_stores t' (hh_store_current t')) < hatrack_compute_table_threshold (2 ^ k')"
    "hihat_dict (t', thread') = hihat_dict (t, thread)" "hh_next_epoch t' = hh_next_epoch t"
    by (rule full_migrate [OF assms])
  have "step (HMigrate r q) st = call_step (HMigrate r) (\<lambda>s. HFirst s r) (hihat_store_migrate_step v q st)" for r q st
    by (cases st) (simp add: migrate_step)
  then have run: "run_alone step (HMigrate r (MStart (hh_store_current t))) (t, thread) =
      run_alone step (HFirst (hh_store_current t') r) (t', thread')" for r
    using run_call [OF t'(1), of step "HMigrate r" "\<lambda>s. HFirst s r"] by blast
  have "migrate_and_retry v (hh_store_current t) 0 = HMigrate (if v = Helping then 1 else 0) (MStart (hh_store_current t))"
    by (simp add: migrate_and_retry_def witchhat_help_required_def HATRACK_RETRY_THRESHOLD_def wrap64_id Let_def)
  then show ?thesis using that [of t' "if v = Helping then 1 else 0" thread' k'] run t' by simp
qed

lemma return_leave: "r \<le> 1 \<Longrightarrow> hihat_return v r res = HLeave res"
  by (simp add: hihat_return_def HATRACK_RETRY_THRESHOLD_def)

lemma full_finishes:
  assumes inv: "inv_at v k (t, thread)" and r: "r \<le> 1"
  shows "finishes v step (HFull (hh_store_current t) r res) (t, thread) res (hihat_dict (t, thread)) (hh_next_epoch t)"
proof (cases "hatrack_compute_table_threshold (2 ^ k) \<le> hs_used_count (hh_stores t (hh_store_current t))")
  case True
  obtain t' thread' k' where t': "run_alone (hihat_store_migrate_step v) (MStart (hh_store_current t)) (t, thread) =
      Some ((t', thread'), Inr (hh_store_current t'))"
    "inv_at v k' (t', thread')" "hihat_dict (t', thread') = hihat_dict (t, thread)" "hh_next_epoch t' = hh_next_epoch t"
    by (rule full_migrate [OF inv_full [OF inv True]])
  have "run_alone step (HFull (hh_store_current t) r res) (t, thread) = run_alone step (HTidy r res (MStart (hh_store_current t))) (t, thread)"
    by (rule run_next)
      (use inv_at_mem(1) [OF inv] store_okD(2) [OF inv_atD(1) [OF inv]] True in \<open>simp add: full_step\<close>)
  also have "step (HTidy r res q) st = call_step (HTidy r res) (\<lambda>s. hihat_return v r res) (hihat_store_migrate_step v q st)" for q st
    by (cases st) (simp add: tidy_step)
  then have "run_alone step (HTidy r res (MStart (hh_store_current t))) (t, thread) = run_alone step (HLeave res) (t', thread')"
    using run_call [OF t'(1), of step "HTidy r res" "\<lambda>s. hihat_return v r res"] return_leave [OF r] by simp
  finally show ?thesis by (rule finishes_run) (use leave_finishes [OF t'(2)] t'(3,4) in simp)
next
  case False
  have "run_alone step (HFull (hh_store_current t) r res) (t, thread) = run_alone step (HLeave res) (t, thread)"
    by (rule run_next)
      (use inv_at_mem(1) [OF inv] store_okD(2) [OF inv_atD(1) [OF inv]] False return_leave [OF r] in \<open>simp add: full_step\<close>)
  then show ?thesis by (rule finishes_run) (rule leave_finishes [OF inv])
qed

end

section \<open>Writing a bucket\<close>

lemma abs_update: "map abs_bucket (bs[i := b]) = (map abs_bucket bs)[i := abs_bucket b]"
  by (rule map_update)

lemma store_ok_write:
  assumes ok: "store_ok v k next st" and r: "rec_idle v (hb_record b)"
    and st': "hs_last_slot st' = hs_last_slot st" "hs_threshold st' = hs_threshold st" "hs_store_next st' = hs_store_next st"
      "hs_buckets st' = (hs_buckets st)[i := b]"
    and inv: "store_inv k next' (map abs_bucket (hs_buckets st'))" "hs_used_count st' = reserved (map abs_bucket (hs_buckets st'))"
  shows "store_ok v k next' st'"
proof -
  have "rec_idle v (hb_record c)" if "c \<in> set (hs_buckets st')" for c
    using that set_update_subset_insert [of "hs_buckets st" i b] store_okD(6) [OF ok] r st'(4) by auto
  with store_okD(1-3) [OF ok] st'(1-3) inv show ?thesis by (simp add: store_ok_def)
qed

text \<open>A table one of whose buckets is about to get its first epoch; perhaps it was only just reserved.\<close>

definition ready_at :: "variant \<Rightarrow> nat \<Rightarrow> hihat_state \<Rightarrow> bool" where
  "ready_at v k st \<longleftrightarrow> (let t = fst st; store = hh_stores t (hh_store_current t) in
     store_ok v k (hh_next_epoch t) store \<and> hs_used_count store \<le> hatrack_compute_table_threshold (2 ^ k) \<and>
     hs_used_count store \<le> hh_next_epoch t \<and> hh_item_count t = live_count (current_buckets t) \<and> mem_ok t (snd st) \<and>
     hh_next_epoch t < flag_limit v \<and> mm_epoch (hh_mmm t) \<le> hh_next_epoch t + 1)"

lemma ready_atD:
  assumes "ready_at v k (t, thread)"
  shows "store_ok v k (hh_next_epoch t) (hh_stores t (hh_store_current t))"
    "hs_used_count (hh_stores t (hh_store_current t)) \<le> hatrack_compute_table_threshold (2 ^ k)"
    "hs_used_count (hh_stores t (hh_store_current t)) \<le> hh_next_epoch t"
    "hh_item_count t = live_count (current_buckets t)" "mem_ok t thread" "hh_next_epoch t < flag_limit v"
    "mm_epoch (hh_mmm t) \<le> hh_next_epoch t + 1"
  using assms by (simp_all add: ready_at_def Let_def)

lemma inv_ready: "inv_at v k (t, thread) \<Longrightarrow> hh_next_epoch t < flag_limit v \<Longrightarrow> ready_at v k (t, thread)"
  by (simp add: inv_at_def ready_at_def Let_def split: if_splits)

lemma flag_limit_le: "e < flag_limit v \<Longrightarrow> e < epoch_limit"
  by (simp add: flag_limit_def epoch_limit_def split: if_splits)

lemma overwritten:
  fixes t :: hihat and item :: ptr
  defines "s \<equiv> hh_store_current t"
  assumes inv: "inv_at v k (t, thread)" and b: "i < length (hs_buckets (hh_stores t s))" "hs_buckets (hh_stores t s) ! i = b"
    "rec_epoch (hb_record b) \<noteq> 0"
  defines "t' \<equiv> put_buckets t s ((hs_buckets (hh_stores t s))[i := b\<lparr>hb_record := \<lparr>hr_item = item, hr_info = hr_info (hb_record b)\<rparr>\<rparr>])"
  shows "inv_at v k (t', thread)" "hihat_dict (t', thread) = od_set (hb_hv b) item (hihat_dict (t, thread))"
proof -
  note I = inv_atD [OF inv, folded s_def] and D = store_okD [OF inv_atD(1) [OF inv], folded s_def]
  define b' where "b' = b\<lparr>hb_record := \<lparr>hr_item = item, hr_info = hr_info (hb_record b)\<rparr>\<rparr>"
  let ?bs = "map abs_bucket (hs_buckets (hh_stores t s))"
  have nth: "?bs ! i = abs_bucket b" "i < length ?bs" using b by simp_all
  have live: "rb_epoch (?bs ! i) \<noteq> 0" using nth b(3) by (simp add: unat_eq_zero)
  have ab: "abs_bucket b' = (?bs ! i)\<lparr>rb_item := item\<rparr>" using nth by (simp add: b'_def abs_bucket_def written_record)
  have bs': "map abs_bucket (hs_buckets (hh_stores t' s)) = ?bs[i := (?bs ! i)\<lparr>rb_item := item\<rparr>]"
    by (simp add: t'_def map_update ab [symmetric] b'_def)
  note W = store_overwrite [OF D(4) nth(2) live, of item, folded bs']
  have idle: "rec_idle v (hb_record b')" using D(6) b by (auto simp: b'_def intro: written_record(1))
  have "store_ok v k (hh_next_epoch t) (hh_stores t' s)"
    by (rule store_ok_write [OF I(1) idle _ _ _ _ W(1)]) (use D(5) W(3) in \<open>simp_all add: t'_def b'_def\<close>)
  then show "inv_at v k (t', thread)"
    using I W(4) by (simp add: inv_at_def Let_def t'_def s_def mem_ok_def)
  show "hihat_dict (t', thread) = od_set (hb_hv b) item (hihat_dict (t, thread))"
    using W(2) nth by (simp add: hihat_dict_def t'_def s_def)
qed

lemma killed:
  fixes t :: hihat
  defines "s \<equiv> hh_store_current t"
  assumes inv: "inv_at v k (t, thread)" and b: "i < length (hs_buckets (hh_stores t s))" "hs_buckets (hh_stores t s) ! i = b"
    "rec_epoch (hb_record b) \<noteq> 0"
  defines "t' \<equiv> (put_buckets t s ((hs_buckets (hh_stores t s))[i := b\<lparr>hb_record := \<lparr>hr_item = 0, hr_info = HIHAT_F_INITED\<rparr>\<rparr>]))
    \<lparr>hh_item_count := wrap64 (hh_item_count t + 2 ^ 64 - 1)\<rparr>"
  shows "inv_at v k (t', thread)" "hihat_dict (t', thread) = od_remove (hb_hv b) (hihat_dict (t, thread))"
proof -
  note I = inv_atD [OF inv, folded s_def] and D = store_okD [OF inv_atD(1) [OF inv], folded s_def]
  define b' where "b' = b\<lparr>hb_record := \<lparr>hr_item = 0, hr_info = HIHAT_F_INITED\<rparr>\<rparr>"
  let ?bs = "map abs_bucket (hs_buckets (hh_stores t s))"
  have nth: "?bs ! i = abs_bucket b" "i < length ?bs" using b by simp_all
  have live: "rb_epoch (?bs ! i) \<noteq> 0" using nth b(3) by (simp add: unat_eq_zero)
  have ab: "abs_bucket b' = (?bs ! i)\<lparr>rb_item := 0, rb_epoch := 0\<rparr>" using nth by (simp add: b'_def abs_bucket_def removed_record)
  have bs': "map abs_bucket (hs_buckets (hh_stores t' s)) = ?bs[i := (?bs ! i)\<lparr>rb_item := 0, rb_epoch := 0\<rparr>]"
    by (simp add: t'_def map_update ab [symmetric] b'_def)
  note W = store_kill [OF D(4) nth(2) live, of 0, folded bs']
  have idle: "rec_idle v (hb_record b')" by (simp add: b'_def removed_record)
  have "store_ok v k (hh_next_epoch t) (hh_stores t' s)"
    by (rule store_ok_write [OF I(1) idle _ _ _ _ W(1)]) (use D(5) W(3) in \<open>simp_all add: t'_def b'_def\<close>)
  moreover have "live_count ?bs < 2 ^ 64" using live_less_next [OF D(4)] store_invD(7) [OF D(4)] by (simp add: epoch_limit_def)
  then have "wrap64 (hh_item_count t + 2 ^ 64 - 1) = live_count (map abs_bucket (hs_buckets (hh_stores t' s)))"
    using I(4) W(4) wrap64_pred [of "hh_item_count t"] by (simp add: s_def)
  ultimately show "inv_at v k (t', thread)"
    using I by (simp add: inv_at_def Let_def t'_def s_def mem_ok_def)
  show "hihat_dict (t', thread) = od_remove (hb_hv b) (hihat_dict (t, thread))"
    using W(2) nth by (simp add: hihat_dict_def t'_def s_def)
qed

lemma inserted:
  fixes t :: hihat and item :: ptr
  defines "s \<equiv> hh_store_current t"
  assumes inv: "ready_at v k (t, thread)" and b: "i < length (hs_buckets (hh_stores t s))" "hs_buckets (hh_stores t s) ! i = b"
    "rec_epoch (hb_record b) = 0" "hb_hv b \<noteq> 0"
  defines "t' \<equiv> (put_buckets (t\<lparr>hh_next_epoch := wrap64 (hh_next_epoch t + 1)\<rparr>) s
      ((hs_buckets (hh_stores t s))[i := b\<lparr>hb_record := \<lparr>hr_item = item, hr_info = HIHAT_F_INITED OR of_nat (hh_next_epoch t)\<rparr>\<rparr>]))
    \<lparr>hh_item_count := wrap64 (hh_item_count t + 1)\<rparr>"
  shows "inv_at v k (t', thread)" "hihat_dict (t', thread) = hihat_dict (t, thread) @ [(hb_hv b, item)]"
    "hh_next_epoch t' = hh_next_epoch t + 1"
proof -
  note I = ready_atD [OF inv, folded s_def] and D = store_okD [OF ready_atD(1) [OF inv], folded s_def]
  define b' where "b' = b\<lparr>hb_record := \<lparr>hr_item = item, hr_info = HIHAT_F_INITED OR of_nat (hh_next_epoch t)\<rparr>\<rparr>"
  let ?bs = "map abs_bucket (hs_buckets (hh_stores t s))" and ?e = "hh_next_epoch t"
  have nth: "?bs ! i = abs_bucket b" "i < length ?bs" using b by simp_all
  have dead: "rb_epoch (?bs ! i) = 0" "rb_hv (?bs ! i) \<noteq> 0" using nth b(3,4) by simp_all
  have ab: "abs_bucket b' = (?bs ! i)\<lparr>rb_item := item, rb_epoch := ?e\<rparr>"
    using nth new_record(2) [OF I(6), of item] by (simp add: b'_def abs_bucket_def)
  have bs': "map abs_bucket (hs_buckets (hh_stores t' s)) = ?bs[i := (?bs ! i)\<lparr>rb_item := item, rb_epoch := ?e\<rparr>]"
    by (simp add: t'_def map_update ab [symmetric] b'_def)
  note W = store_insert [OF D(4) nth(2) dead flag_limit_le [OF I(6)], of item, folded bs']
  have idle: "rec_idle v (hb_record b')" using new_record(1) [OF I(6)] by (simp add: b'_def)
  have ok: "store_ok v k (Suc ?e) (hh_stores t' s)"
    by (rule store_ok_write [OF I(1) idle _ _ _ _ W(1)]) (use D(5) W(3) in \<open>simp_all add: t'_def b'_def\<close>)
  have lim: "?e < 2 ^ 55" "live_count ?bs < ?e" using flag_limit_le [OF I(6)] live_less_next [OF D(4)] by (simp_all add: epoch_limit_def)
  then have w: "wrap64 (?e + 1) = Suc ?e" "wrap64 (hh_item_count t + 1) = Suc (live_count ?bs)" using I(4) by (simp_all add: wrap64_id s_def)
  show "hh_next_epoch t' = ?e + 1" using w(1) by (simp add: t'_def)
  show "inv_at v k (t', thread)"
    using ok w I(2,3,5-7) W(4) by (simp add: inv_at_def Let_def t'_def s_def mem_ok_def)
  show "hihat_dict (t', thread) = hihat_dict (t, thread) @ [(hb_hv b, item)]"
    using W(2) nth by (simp add: hihat_dict_def t'_def s_def)
qed

lemma acquired:
  fixes t :: hihat and hv :: hatrack_hash
  defines "s \<equiv> hh_store_current t"
  assumes inv: "inv_at v k (t, thread)" and b: "i < length (hs_buckets (hh_stores t s))" "hs_buckets (hh_stores t s) ! i = b" "hb_hv b = 0"
    and hv: "hv \<noteq> 0" "probe_wf k ((map rb_hv (current_buckets t))[i := hv])" and e: "hh_next_epoch t < flag_limit v"
  defines "store' \<equiv> (hh_stores t s)\<lparr>hs_buckets := (hs_buckets (hh_stores t s))[i := b\<lparr>hb_hv := hv\<rparr>],
    hs_used_count := wrap64 (hs_used_count (hh_stores t s) + 1)\<rparr>"
  defines "t' \<equiv> write_store t s store'"
  shows "hs_used_count (hh_stores t s) < hatrack_compute_table_threshold (2 ^ k) \<Longrightarrow> ready_at v k (t', thread)"
    "hatrack_compute_table_threshold (2 ^ k) \<le> hs_used_count (hh_stores t s) \<Longrightarrow> full_at v k (t', thread)"
    "hihat_dict (t', thread) = hihat_dict (t, thread)"
proof -
  note I = inv_atD [OF inv, folded s_def] and D = store_okD [OF inv_atD(1) [OF inv], folded s_def]
  let ?bs = "map abs_bucket (hs_buckets (hh_stores t s))"
  have nth: "?bs ! i = abs_bucket b" "i < length ?bs" using b by simp_all
  have ab: "abs_bucket (b\<lparr>hb_hv := hv\<rparr>) = (?bs ! i)\<lparr>rb_hv := hv\<rparr>" using nth by (simp add: abs_bucket_def)
  have bs': "map abs_bucket (hs_buckets store') = ?bs[i := (?bs ! i)\<lparr>rb_hv := hv\<rparr>]"
    by (simp add: store'_def map_update ab [symmetric])
  note W = store_acquire [OF D(4) nth(2) _ hv(1) hv(2) [folded s_def], folded bs']
  have w: "store_inv k (hh_next_epoch t) (map abs_bucket (hs_buckets store'))"
    "store_dict (map abs_bucket (hs_buckets store')) = store_dict ?bs" "reserved (map abs_bucket (hs_buckets store')) = Suc (reserved ?bs)"
    "live_count (map abs_bucket (hs_buckets store')) = live_count ?bs"
    using W nth b(3) by simp_all
  have lim: "hh_next_epoch t < 2 ^ 55" using flag_limit_le [OF e] by (simp add: epoch_limit_def)
  then have used: "wrap64 (hs_used_count (hh_stores t s) + 1) = Suc (hs_used_count (hh_stores t s))" using I(3) by (simp add: wrap64_id)
  have idle: "rec_idle v (hb_record (b\<lparr>hb_hv := hv\<rparr>))" using D(6) b by auto
  have ok: "store_ok v k (hh_next_epoch t) store'"
    by (rule store_ok_write [OF I(1) idle _ _ _ _ w(1)]) (use D(5) w(3) used in \<open>simp_all add: store'_def\<close>)
  have used': "hs_used_count store' = Suc (hs_used_count (hh_stores t s))" using used by (simp add: store'_def)
  have sel: "hh_stores t' s = store'" "hh_store_current t' = s" "hh_mmm t' = hh_mmm t" "hh_next_epoch t' = hh_next_epoch t"
    "hh_item_count t' = hh_item_count t"
    by (simp_all add: t'_def write_store_def s_def)
  show "hihat_dict (t', thread) = hihat_dict (t, thread)" using w(2) sel by (simp add: hihat_dict_def s_def)
  have mem: "mem_ok t' thread" using I(5) sel by (simp add: mem_ok_def s_def)
  show "hs_used_count (hh_stores t s) < hatrack_compute_table_threshold (2 ^ k) \<Longrightarrow> ready_at v k (t', thread)"
    using ok used' sel I(2-4,7) w(4) mem e by (simp add: ready_at_def Let_def s_def)
  show "hatrack_compute_table_threshold (2 ^ k) \<le> hs_used_count (hh_stores t s) \<Longrightarrow> full_at v k (t', thread)"
    using ok sel I(3,4,6,7) inv_at_room(2,3) [OF inv] w(4) mem by (simp add: full_at_def Let_def s_def)
qed

section \<open>Inserting\<close>

text \<open>
  What \<^verbatim>\<open>put\<close> and \<^verbatim>\<open>add\<close> share: a bucket is reserved, a full store is migrated first, a new record gets the next epoch.
  \<open>present\<close> is the point behind a record that holds an item already, \<open>fresh\<close> the answer after an insertion.
\<close>

locale hihat_insertion =
  hihat_operation v hv step HAcquire "migrate_and_retry v"
  for v :: variant and hv :: hatrack_hash
    and step :: "hihat_pc \<Rightarrow> hihat_state \<Rightarrow> hihat_state \<times> (hihat_pc + (ptr \<times> bool) outcome)" +
  fixes item :: ptr and fresh :: "ptr \<times> bool" and present :: "nat \<Rightarrow> nat \<Rightarrow> nat \<Rightarrow> hihat_record \<Rightarrow> hihat_pc"
  assumes acquire_step: "step (HAcquire s r bix i) st = hihat_reserve_step v hv (HAcquire s r bix i) st"
    and used_step: "step (HUsed s r bix) st = hihat_reserve_step v hv (HUsed s r bix) st"
    and record_step: "step (HRecord s r bix) st = with_bucket st s bix (\<lambda>store bucket.
       (st, Inl (if rec_moving (hb_record bucket) then migrate_and_retry v s r
                 else if rec_epoch (hb_record bucket) \<noteq> 0 then present s r bix (hb_record bucket)
                 else HEpoch s r bix (hb_record bucket))))"
    and epoch_step: "step (HEpoch s r bix record) (t, thread) = ((t, thread), Inl (HBump s r bix record (hh_next_epoch t)))"
    and bump_step: "step (HBump s r bix record e) (t, thread) =
       ((t\<lparr>hh_next_epoch := wrap64 (e + 1)\<rparr>, thread),
        Inl (HInstall s r bix record \<lparr>hr_item = item, hr_info = HIHAT_F_INITED OR of_nat e\<rparr>))"
    and install_step: "\<lbrakk>allocated (hh_mmm t) s; bix < length (hs_buckets (hh_stores t s)); hs_buckets (hh_stores t s) ! bix = b;
        hb_record b = record; rec_epoch record = 0\<rbrakk> \<Longrightarrow>
       step (HInstall s r bix record candidate) (t, thread) =
         (set_bucket (t, thread) s bix (b\<lparr>hb_record := candidate\<rparr>), Inl (HCount s r fresh))"
    and count_step: "step (HCount s r res) (t, thread) =
       ((t\<lparr>hh_item_count := wrap64 (hh_item_count t + 1)\<rparr>, thread), Inl (hihat_return v r res))"
begin

lemma dead_finishes:
  fixes t :: hihat
  defines "s \<equiv> hh_store_current t"
  assumes ready: "ready_at v k (t, thread)" and b: "i < length (hs_buckets (hh_stores t s))" "hs_buckets (hh_stores t s) ! i = b"
    "rec_idle v (hb_record b)" "rec_epoch (hb_record b) = 0" "hb_hv b = hv" and h: "hv \<noteq> 0" and r: "r \<le> 1"
  shows "finishes v step (HRecord s r i) (t, thread) fresh (hihat_dict (t, thread) @ [(hv, item)]) (hh_next_epoch t + 1)"
proof -
  let ?e = "hh_next_epoch t"
  let ?c = "\<lparr>hr_item = item, hr_info = HIHAT_F_INITED OR of_nat ?e\<rparr>"
  have al: "allocated (hh_mmm t) s" using ready_atD(5) [OF ready] by (simp add: mem_ok_def s_def)
  define t1 where "t1 = t\<lparr>hh_next_epoch := wrap64 (?e + 1)\<rparr>"
  define t2 where "t2 = put_buckets t1 s ((hs_buckets (hh_stores t s))[i := b\<lparr>hb_record := ?c\<rparr>])"
  define t3 where "t3 = t2\<lparr>hh_item_count := wrap64 (hh_item_count t + 1)\<rparr>"
  have "run_alone step (HRecord s r i) (t, thread) = run_alone step (HEpoch s r i (hb_record b)) (t, thread)"
    by (rule run_next) (use al b in \<open>simp add: record_step rec_idle_def\<close>)
  also have "\<dots> = run_alone step (HInstall s r i (hb_record b) ?c) (t1, thread)"
    by (simp add: run_alone.simps [of _ "HEpoch s r i (hb_record b)"] run_alone.simps [of _ "HBump s r i (hb_record b) ?e"]
        epoch_step bump_step t1_def)
  also have "\<dots> = run_alone step (HCount s r fresh) (t2, thread)"
    by (rule run_next) (use install_step [of t1 s i b "hb_record b" r ?c thread] al b in \<open>simp add: t1_def t2_def\<close>)
  also have "\<dots> = run_alone step (HLeave fresh) (t3, thread)"
    by (rule run_next) (simp add: count_step return_leave [OF r] t3_def t2_def t1_def)
  finally show ?thesis
    using inserted [OF ready b(1) [unfolded s_def] b(2) [unfolded s_def] b(4), of item, folded s_def] leave_finishes [of k t3 thread fresh] b(5) h
    by (simp add: finishes_run t3_def t2_def t1_def)
qed

text \<open>Reserving a bucket, with or without room in the store.\<close>

lemma acquire_run:
  fixes t :: hihat
  defines "s \<equiv> hh_store_current t"
  assumes inv: "inv_at v k (t, thread)" and b: "i < length (hs_buckets (hh_stores t s))" "hs_buckets (hh_stores t s) ! i = b" "hb_hv b = 0"
  defines "store' \<equiv> (hh_stores t s)\<lparr>hs_buckets := (hs_buckets (hh_stores t s))[i := b\<lparr>hb_hv := hv\<rparr>],
    hs_used_count := wrap64 (hs_used_count (hh_stores t s) + 1)\<rparr>"
  shows "run_alone step (HAcquire s r i j) (t, thread) =
    run_alone step (if hatrack_compute_table_threshold (2 ^ k) \<le> hs_used_count (hh_stores t s) then migrate_and_retry v s r else HRecord s r i)
      (write_store t s store', thread)"
proof -
  have al: "allocated (hh_mmm t) s" using inv_at_mem(1) [OF inv] by (simp add: s_def)
  have thr: "hs_threshold (hh_stores t s) = hatrack_compute_table_threshold (2 ^ k)"
    using store_okD(2) [OF inv_atD(1) [OF inv]] by (simp add: s_def)
  define t1 where "t1 = put_buckets t s ((hs_buckets (hh_stores t s))[i := b\<lparr>hb_hv := hv\<rparr>])"
  have "run_alone step (HAcquire s r i j) (t, thread) = run_alone step (HUsed s r i) (t1, thread)"
    by (rule run_next) (use al b in \<open>simp add: acquire_step t1_def\<close>)
  also have "\<dots> = run_alone step (if hatrack_compute_table_threshold (2 ^ k) \<le> hs_used_count (hh_stores t s) then migrate_and_retry v s r else HRecord s r i)
      (write_store t s store', thread)"
    by (rule run_next) (use al thr in \<open>simp add: used_step t1_def store'_def put_buckets_def write_store_def\<close>)
  finally show ?thesis .
qed

lemma room_finishes:
  assumes inv: "inv_at v k (t, thread)" and h: "hv \<noteq> 0" and e: "hh_next_epoch t < flag_limit v"
    and no: "od_get (hihat_dict (t, thread)) hv = (0, False)" and r: "r \<le> 1"
    and room: "hs_used_count (hh_stores t (hh_store_current t)) < hatrack_compute_table_threshold (2 ^ k)"
  shows "finishes v step (HFirst (hh_store_current t) r) (t, thread) fresh (hihat_dict (t, thread) @ [(hv, item)]) (hh_next_epoch t + 1)"
  using inv h
proof (cases rule: located [of k t thread r])
  case (live i b)
  then show ?thesis using no by simp
next
  case (dead i b)
  from dead(1) show ?thesis
    by (rule finishes_run) (rule dead_finishes [OF inv_ready [OF inv e] dead(2,3,5,6,4) h r])
next
  case (absent i j b)
  note A = acquired [OF inv absent(2-4) h absent(7) e]
  let ?s = "hh_store_current t"
  let ?t = "write_store t ?s ((hh_stores t ?s)\<lparr>hs_buckets := (hs_buckets (hh_stores t ?s))[i := b\<lparr>hb_hv := hv\<rparr>],
    hs_used_count := wrap64 (hs_used_count (hh_stores t ?s) + 1)\<rparr>)"
  have "run_alone step (HFirst ?s r) (t, thread) = run_alone step (HRecord ?s r i) (?t, thread)"
    using absent(1) acquire_run [OF inv absent(2-4), of r j] room by simp
  moreover have "finishes v step (HRecord ?s r i) (?t, thread) fresh (hihat_dict (?t, thread) @ [(hv, item)]) (hh_next_epoch ?t + 1)"
    using dead_finishes [OF A(1) [OF room], of i "b\<lparr>hb_hv := hv\<rparr>" r] absent(2,5,6) h r by (simp add: write_store_def)
  ultimately show ?thesis using A(3) by (simp add: finishes_run write_store_def)
qed

lemma new_finishes:
  assumes inv: "inv_at v k (t, thread)" and h: "hv \<noteq> 0" and e: "hh_next_epoch t < flag_limit v"
    and no: "od_get (hihat_dict (t, thread)) hv = (0, False)"
  shows "finishes v step (HFirst (hh_store_current t) 0) (t, thread) fresh (hihat_dict (t, thread) @ [(hv, item)]) (hh_next_epoch t + 1)"
proof (cases "hs_used_count (hh_stores t (hh_store_current t)) < hatrack_compute_table_threshold (2 ^ k)")
  case True
  then show ?thesis using room_finishes [OF inv h e no] by simp
next
  case full: False
  from inv h show ?thesis
  proof (cases rule: located [of k t thread 0])
    case (live i b)
    then show ?thesis using no by simp
  next
    case (dead i b)
    from dead(1) show ?thesis
      by (rule finishes_run) (rule dead_finishes [OF inv_ready [OF inv e] dead(2,3,5,6,4) h], simp)
  next
    case (absent i j b)
    note A = acquired [OF inv absent(2-4) h absent(7) e]
    let ?s = "hh_store_current t"
    define t1 where "t1 = write_store t ?s ((hh_stores t ?s)\<lparr>hs_buckets := (hs_buckets (hh_stores t ?s))[i := b\<lparr>hb_hv := hv\<rparr>],
      hs_used_count := wrap64 (hs_used_count (hh_stores t ?s) + 1)\<rparr>)"
    have cur: "hh_store_current t1 = ?s" "hh_next_epoch t1 = hh_next_epoch t" by (simp_all add: t1_def write_store_def)
    have run: "run_alone step (HFirst ?s 0) (t, thread) = run_alone step (migrate_and_retry v (hh_store_current t1) 0) (t1, thread)"
      using absent(1) acquire_run [OF inv absent(2-4), of 0 j] full cur by (simp add: t1_def)
    have f: "full_at v k (t1, thread)" unfolding t1_def by (rule A(2)) (use full in simp)
    obtain t' thread' k' r where t': "run_alone step (migrate_and_retry v (hh_store_current t1) 0) (t1, thread) =
        run_alone step (HFirst (hh_store_current t') r) (t', thread')"
      "inv_at v k' (t', thread')" "hs_used_count (hh_stores t' (hh_store_current t')) < hatrack_compute_table_threshold (2 ^ k')"
      "hihat_dict (t', thread') = hihat_dict (t1, thread)" "hh_next_epoch t' = hh_next_epoch t1" "r \<le> 1"
      by (rule retry_run [OF f])
    have d: "hihat_dict (t1, thread) = hihat_dict (t, thread)" using A(3) by (simp add: t1_def)
    show ?thesis
      by (rule finishes_run [OF trans [OF run t'(1)]])
        (use room_finishes [OF t'(2) h _ _ t'(6,3)] e no d t'(4,5) cur(2) in simp)
  qed
qed

end

section \<open>The operations\<close>

interpretation hget: hihat_operation v hv "hihat_get_step v hv" "\<lambda>s r b i. HLeave (0, False)" "\<lambda>s r. HLeave (0, False)"
  for v hv
  by unfold_locales simp_all

interpretation hreplace: hihat_operation v hv "hihat_replace_step v hv item"
  "\<lambda>s r b i. hihat_return v r (0, False)" "\<lambda>s r. hihat_return v r (0, False)" for v hv item
  by unfold_locales simp_all

interpretation hremove: hihat_operation v hv "hihat_remove_step v hv"
  "\<lambda>s r b i. hihat_return v r (0, False)" "\<lambda>s r. hihat_return v r (0, False)" for v hv
  by unfold_locales simp_all

interpretation hput: hihat_insertion v hv "hihat_put_step v hv item" item "(0, False)"
  "\<lambda>s r i record. HInstall s r i record \<lparr>hr_item = item, hr_info = hr_info record\<rparr>" for v hv item
  by unfold_locales (simp_all add: Let_def cong: if_cong)

interpretation hadd: hihat_insertion v hv "hihat_add_step v hv item" item "(0, True)"
  "\<lambda>s r i record. hihat_return v r (0, False)" for v hv item
  by unfold_locales (simp_all add: Let_def cong: if_cong)

lemma hihat_get_finishes:
  assumes inv: "inv_at v k (t, thread)" and h: "hv \<noteq> 0"
  shows "finishes v (hihat_get_step v hv) (HFirst (hh_store_current t) 0) (t, thread)
    (od_get (hihat_dict (t, thread)) hv) (hihat_dict (t, thread)) (hh_next_epoch t)"
  using inv h
proof (cases rule: hget.located [of v k t thread hv 0])
  case (live i b)
  have "run_alone (hihat_get_step v hv) (HFirst (hh_store_current t) 0) (t, thread) =
      run_alone (hihat_get_step v hv) (HLeave (hr_item (hb_record b), True)) (t, thread)"
    unfolding live(1) by (rule run_next) (use live inv_at_mem(1) [OF inv] in simp)
  then show ?thesis unfolding live(7) by (rule finishes_run) (rule hget.leave_finishes [OF inv])
next
  case (dead i b)
  have "run_alone (hihat_get_step v hv) (HFirst (hh_store_current t) 0) (t, thread) =
      run_alone (hihat_get_step v hv) (HLeave (0, False)) (t, thread)"
    unfolding dead(1) by (rule run_next) (use dead inv_at_mem(1) [OF inv] in simp)
  then show ?thesis unfolding dead(7) by (rule finishes_run) (rule hget.leave_finishes [OF inv])
next
  case (absent i j b)
  show ?thesis unfolding absent(8) by (rule finishes_run [OF absent(1)]) (rule hget.leave_finishes [OF inv])
qed

lemma hihat_put_finishes:
  assumes inv: "inv_at v k (t, thread)" and h: "hv \<noteq> 0" and e: "hh_next_epoch t < flag_limit v"
  shows "finishes v (hihat_put_step v hv item) (HFirst (hh_store_current t) 0) (t, thread)
    (od_get (hihat_dict (t, thread)) hv) (od_put hv item (hihat_dict (t, thread))) (hh_next_epoch t + 1)"
proof (cases "od_get (hihat_dict (t, thread)) hv = (0, False)")
  case True
  then show ?thesis using hput.new_finishes [OF inv h e True, of item] by (simp add: od_put_append)
next
  case False
  from inv h show ?thesis
  proof (cases rule: hput.located [of v k t thread hv item 0])
    case (live i b)
    let ?s = "hh_store_current t"
    let ?c = "\<lparr>hr_item = item, hr_info = hr_info (hb_record b)\<rparr>"
    let ?t = "put_buckets t ?s ((hs_buckets (hh_stores t ?s))[i := b\<lparr>hb_record := ?c\<rparr>])"
    have "run_alone (hihat_put_step v hv item) (HFirst ?s 0) (t, thread) =
        run_alone (hihat_put_step v hv item) (HInstall ?s 0 i (hb_record b) ?c) (t, thread)"
      unfolding live(1) by (rule run_next) (use live inv_at_mem(1) [OF inv] in \<open>simp add: Let_def rec_idle_def\<close>)
    also have "\<dots> = run_alone (hihat_put_step v hv item) (HLeave (hr_item (hb_record b), True)) (?t, thread)"
      by (rule run_next) (use live inv_at_mem(1) [OF inv] in \<open>simp add: Let_def hput.return_leave\<close>)
    finally show ?thesis
      using hput.leave_finishes [OF overwritten(1) [OF inv live(2,3,6), of item], of hv item "(hr_item (hb_record b), True)"]
        overwritten(2) [OF inv live(2,3,6), of item] live(4,7) od_put_set [OF live(7)]
      by (auto simp: finishes_def)
  qed (use False in simp_all)
qed

lemma hihat_add_finishes:
  assumes inv: "inv_at v k (t, thread)" and h: "hv \<noteq> 0" and e: "hh_next_epoch t < flag_limit v"
  shows "finishes v (hihat_add_step v hv item) (HFirst (hh_store_current t) 0) (t, thread)
    (0, \<not> snd (od_get (hihat_dict (t, thread)) hv)) (od_add hv item (hihat_dict (t, thread))) (hh_next_epoch t + 1)"
proof (cases "od_get (hihat_dict (t, thread)) hv = (0, False)")
  case True
  then show ?thesis using hadd.new_finishes [OF inv h e True, of item] by (simp add: od_add_cases)
next
  case False
  from inv h show ?thesis
  proof (cases rule: hadd.located [of v k t thread hv item 0])
    case (live i b)
    have "run_alone (hihat_add_step v hv item) (HFirst (hh_store_current t) 0) (t, thread) =
        run_alone (hihat_add_step v hv item) (HLeave (0, False)) (t, thread)"
      unfolding live(1) by (rule run_next) (use live inv_at_mem(1) [OF inv] in \<open>simp add: Let_def rec_idle_def hadd.return_leave\<close>)
    then show ?thesis
      using hadd.leave_finishes [OF inv, of hv item "(0, False)"] live(7) od_add_cases(2) [OF live(7)]
      by (auto simp: finishes_def)
  qed (use False in simp_all)
qed

lemma hihat_replace_finishes:
  assumes inv: "inv_at v k (t, thread)" and h: "hv \<noteq> 0"
  shows "finishes v (hihat_replace_step v hv item) (HFirst (hh_store_current t) 0) (t, thread)
    (od_get (hihat_dict (t, thread)) hv) (od_set hv item (hihat_dict (t, thread))) (hh_next_epoch t)"
  using inv h
proof (cases rule: hreplace.located [of v k t thread hv item 0])
  case (live i b)
  let ?s = "hh_store_current t"
  let ?c = "\<lparr>hr_item = item, hr_info = hr_info (hb_record b)\<rparr>" and ?r = "(hr_item (hb_record b), True)"
  let ?t = "put_buckets t ?s ((hs_buckets (hh_stores t ?s))[i := b\<lparr>hb_record := ?c\<rparr>])"
  note W = overwritten [OF inv live(2,3,6), of item]
  have "run_alone (hihat_replace_step v hv item) (HFirst ?s 0) (t, thread) =
      run_alone (hihat_replace_step v hv item) (HInstall ?s 0 i (hb_record b) ?c) (t, thread)"
    unfolding live(1) by (rule run_next) (use live inv_at_mem(1) [OF inv] in \<open>simp add: Let_def rec_idle_def\<close>)
  also have "\<dots> = run_alone (hihat_replace_step v hv item) (if v = Helping then HFull ?s 0 ?r else HLeave ?r) (?t, thread)"
    by (rule run_next) (use live inv_at_mem(1) [OF inv] in \<open>simp add: Let_def hreplace.return_leave\<close>)
  finally show ?thesis
    using hreplace.leave_finishes [OF W(1), of hv item ?r] hreplace.full_finishes [OF W(1), of 0 hv item ?r] W(2) live(4,7)
    by (cases "v = Helping") (simp_all add: finishes_def)
next
  case (dead i b)
  have "run_alone (hihat_replace_step v hv item) (HFirst (hh_store_current t) 0) (t, thread) =
      run_alone (hihat_replace_step v hv item) (HLeave (0, False)) (t, thread)"
    unfolding dead(1) by (rule run_next) (use dead inv_at_mem(1) [OF inv] in \<open>simp add: Let_def rec_idle_def hreplace.return_leave\<close>)
  then show ?thesis unfolding dead(7) od_set_absent [OF dead(7)] by (rule finishes_run) (rule hreplace.leave_finishes [OF inv])
next
  case (absent i j b)
  then show ?thesis
    using hreplace.leave_finishes [OF inv, of hv item "(0, False)"] od_set_absent [OF absent(8)]
    by (simp add: hreplace.return_leave finishes_def)
qed

lemma hihat_remove_finishes:
  assumes inv: "inv_at v k (t, thread)" and h: "hv \<noteq> 0"
  shows "finishes v (hihat_remove_step v hv) (HFirst (hh_store_current t) 0) (t, thread)
    (od_get (hihat_dict (t, thread)) hv) (od_remove hv (hihat_dict (t, thread))) (hh_next_epoch t)"
  using inv h
proof (cases rule: hremove.located [of v k t thread hv 0])
  case (live i b)
  let ?s = "hh_store_current t"
  let ?c = "\<lparr>hr_item = 0, hr_info = HIHAT_F_INITED\<rparr>" and ?r = "(hr_item (hb_record b), True)"
  let ?t = "(put_buckets t ?s ((hs_buckets (hh_stores t ?s))[i := b\<lparr>hb_record := ?c\<rparr>]))
    \<lparr>hh_item_count := wrap64 (hh_item_count t + 2 ^ 64 - 1)\<rparr>"
  note W = killed [OF inv live(2,3,6)]
  have "run_alone (hihat_remove_step v hv) (HFirst ?s 0) (t, thread) =
      run_alone (hihat_remove_step v hv) (HInstall ?s 0 i (hb_record b) ?c) (t, thread)"
    unfolding live(1) by (rule run_next) (use live inv_at_mem(1) [OF inv] in \<open>simp add: Let_def rec_idle_def\<close>)
  also have "\<dots> = run_alone (hihat_remove_step v hv) (if v = Helping then HFull ?s 0 ?r else HLeave ?r) (?t, thread)"
    using live inv_at_mem(1) [OF inv]
    by (simp add: run_alone.simps [of _ "HInstall ?s 0 i (hb_record b) ?c"] run_alone.simps [of _ "HCount ?s 0 ?r"] hremove.return_leave)
  finally show ?thesis
    using hremove.leave_finishes [OF W(1), of hv ?r] hremove.full_finishes [OF W(1), of 0 hv ?r] W(2) live(4,7)
    by (cases "v = Helping") (simp_all add: finishes_def)
next
  case (dead i b)
  have "run_alone (hihat_remove_step v hv) (HFirst (hh_store_current t) 0) (t, thread) =
      run_alone (hihat_remove_step v hv) (HLeave (0, False)) (t, thread)"
    unfolding dead(1) by (rule run_next) (use dead inv_at_mem(1) [OF inv] in \<open>simp add: Let_def rec_idle_def hremove.return_leave\<close>)
  then show ?thesis unfolding dead(7) od_remove_absent [OF dead(7)] by (rule finishes_run) (rule hremove.leave_finishes [OF inv])
next
  case (absent i j b)
  then show ?thesis
    using hremove.leave_finishes [OF inv, of hv "(0, False)"] od_remove_absent [OF absent(8)]
    by (simp add: hremove.return_leave finishes_def)
qed

section \<open>Views\<close>

definition view_of :: "hihat_bucket \<Rightarrow> hatrack_view" where
  "view_of b = \<lparr>view_item = hr_item (hb_record b), sort_epoch = rec_epoch (hb_record b)\<rparr>"

definition live_view :: "hihat_bucket list \<Rightarrow> hatrack_view list" where
  "live_view bs = map view_of (filter (\<lambda>b. rec_epoch (hb_record b) \<noteq> 0) bs)"

lemma live_view_drop:
  "i < length bs \<Longrightarrow> live_view (drop i bs) = (if rec_epoch (hb_record (bs ! i)) = 0 then [] else [view_of (bs ! i)]) @ live_view (drop (Suc i) bs)"
  by (simp add: live_view_def Cons_nth_drop_Suc [of i bs, symmetric])

lemma view_loop:
  assumes al: "allocated (hh_mmm t) s" and bs: "hs_buckets (hh_stores t s) = bs" "length bs = Suc (hs_last_slot (hh_stores t s))"
  shows "i < length bs \<Longrightarrow> run_alone (hihat_view_step srt) (WRead s i view) (t, thread) =
    run_alone (hihat_view_step srt) (WLeave (view @ live_view (drop i bs))) (t, thread)"
proof (induction "length bs - Suc i" arbitrary: i view)
  case 0
  then have i: "Suc i = length bs" "\<not> i < hs_last_slot (hh_stores t s)" using bs(2) by simp_all
  show ?case
    by (rule run_next) (use al bs i 0 live_view_drop [of i bs] in \<open>simp add: Let_def live_view_def [of "[]"] view_of_def\<close>)
next
  case (Suc n)
  then have i: "Suc i < length bs" "i < hs_last_slot (hh_stores t s)" "n = length bs - Suc (Suc i)" using bs(2) by simp_all
  have "run_alone (hihat_view_step srt) (WRead s i view) (t, thread) = run_alone (hihat_view_step srt) (WRead s (Suc i)
      (view @ (if rec_epoch (hb_record (bs ! i)) = 0 then [] else [view_of (bs ! i)]))) (t, thread)"
    by (rule run_next) (use al bs i in \<open>simp add: Let_def view_of_def\<close>)
  then show ?case using Suc.hyps(1) [OF i(3,1)] live_view_drop [of i bs] i(1) by simp
qed

lemma store_view_sorted:
  assumes inv: "store_inv k next bs" and e: "next \<le> 2 ^ 31"
  shows "map view_item (qsort hatrack_quicksort_cmp
      (map (\<lambda>b. \<lparr>view_item = rb_item b, sort_epoch = of_nat (rb_epoch b)\<rparr>) (filter bucket_live bs))) = map snd (store_dict bs)"
proof -
  let ?g = "\<lambda>b. \<lparr>view_item = rb_item b, sort_epoch = of_nat (rb_epoch b)\<rparr>"
  have ep: "rb_epoch b < 2 ^ 31" if "b \<in> set bs" for b
  proof -
    have "bucket_slot b \<in> set (map bucket_slot bs)" using that by simp
    then show ?thesis using store_invD(5) [OF inv] e by (fastforce simp: slots_ok_def bucket_slot_def)
  qed
  have "qsort hatrack_quicksort_cmp (map ?g (filter bucket_live bs)) = map ?g (sort_key rb_epoch (filter bucket_live bs))"
  proof (rule qsort_key)
    fix x y
    assume "x \<in> set (filter bucket_live bs)" "y \<in> set (filter bucket_live bs)"
    then have "rb_epoch x < 2 ^ 31" "rb_epoch y < 2 ^ 31" using ep by auto
    then show "(hatrack_quicksort_cmp (?g x) (?g y) \<le> 0) = (rb_epoch x \<le> rb_epoch y)"
      using quicksort_cmp_near [of "?g x" "rb_epoch x" "?g y" "rb_epoch y"] by simp
  qed
  then show ?thesis
    by (simp add: store_dict_def odict_def live_slots_def filter_live_slots sort_key_map bucket_slot_def comp_def)
qed

lemma live_view_abs:
  "live_view bs = map (\<lambda>b. \<lparr>view_item = rb_item b, sort_epoch = of_nat (rb_epoch b)\<rparr>) (filter bucket_live (map abs_bucket bs))"
  by (simp add: live_view_def filter_map comp_def view_of_def unat_gt_0)

lemma hihat_view_run:
  assumes inv: "inv_at v k (t, thread)"
  obtains t' where "hihat_view_mmm (t, thread) srt = Some ((t', thread),
      Inr (let view = live_view (hs_buckets (hh_stores t (hh_store_current t))) in
        (if srt then qsort hatrack_quicksort_cmp view else view, length (hihat_dict (t, thread)))))"
    "inv_at v k (t', thread)" "hihat_dict (t', thread) = hihat_dict (t, thread)"
proof -
  let ?s = "hh_store_current t" and ?view = "live_view (hs_buckets (hh_stores t (hh_store_current t)))"
  note D = store_okD [OF inv_atD(1) [OF inv]]
  obtain m1 m2 where m: "mmm_start_basic_op (hh_mmm t) thread = Inr m1" "mmm_end_op m1 thread = Inr m2" "mmm_ok m1 thread"
    "mmm_ok m2 thread" "allocated m1 = allocated (hh_mmm t)" "allocated m2 = allocated m1"
    "mm_epoch m1 = mm_epoch (hh_mmm t)" "mm_epoch m2 = mm_epoch m1"
    using mmm.enter_ok [OF inv_at_mem(2) [OF inv]] mmm.leave_ok by metis
  have al: "allocated m1 ?s" using inv_at_mem(1) [OF inv] m(5) by simp
  have "run_alone (hihat_view_step srt) WBegin (t, thread) = run_alone (hihat_view_step srt) (WRead ?s 0 []) (t\<lparr>hh_mmm := m1\<rparr>, thread)"
    using m(1) by (simp add: run_alone.simps [of _ WBegin] run_alone.simps [of _ WCurrent])
  also have "\<dots> = run_alone (hihat_view_step srt) (WLeave ?view) (t\<lparr>hh_mmm := m1\<rparr>, thread)"
    using view_loop [of "t\<lparr>hh_mmm := m1\<rparr>" ?s "hs_buckets (hh_stores t ?s)" 0 srt "[]" thread] al D(1,7) by simp
  also have "\<dots> = Some ((t\<lparr>hh_mmm := m1\<rparr>\<lparr>hh_mmm := m2\<rparr>, thread),
      Inr (if srt then qsort hatrack_quicksort_cmp ?view else ?view, length ?view))"
    by (rule run_done) (simp add: m(2))
  also have "length ?view = length (hihat_dict (t, thread))"
    by (simp add: live_view_abs hihat_dict_def length_store_dict live_count_def)
  finally show ?thesis
    using that [of "t\<lparr>hh_mmm := m2\<rparr>"] inv_at_mmm [OF inv m(4)] m by (simp add: hihat_view_mmm_def)
qed

section \<open>The contract of a table\<close>

lemma hihat_init_ok:
  assumes sz: "4 \<le> sz" "sz \<le> 30"
  obtains m thread t where "swimcap_thread = Inr (m, thread)" "hihat_init_size v stores help_needed m sz = Inr t"
    "hihat_inv v (t, thread)" "hihat_dict (t, thread) = []" "hh_next_epoch t = 1"
proof -
  define k where "k = nat sz"
  have k: "4 \<le> k" "k \<le> 30" using sz by (simp_all add: k_def)
  have p: "(2::nat) ^ k \<le> 2 ^ 30" using k(2) by (intro power_increasing) simp_all
  obtain m thread where m: "swimcap_thread = Inr (m, thread)" "mmm_ok m thread" "mm_epoch m = 1" "mt_retire_list thread = []"
    using first_acquire unfolding swimcap_thread_def by metis
  define t0 where "t0 = \<lparr>hh_store_current = 0, hh_item_count = 0, hh_help_needed = help_needed, hh_next_epoch = 1, hh_stores = stores, hh_mmm = m\<rparr>"
  obtain m' n where n: "hihat_store_new t0 (2 ^ k) = (t0\<lparr>hh_mmm := m', hh_stores := (hh_stores t0)(n := new_store k)\<rparr>, n)"
    "mmm_ok m' thread" "\<not> allocated (hh_mmm t0) n" "allocated m' n" "\<forall>p. allocated (hh_mmm t0) p \<longrightarrow> allocated m' p"
    "mm_epoch m' = mm_epoch (hh_mmm t0) + 1"
    by (rule hihat_store_new_ok [of t0 thread k]) (use m p in \<open>simp_all add: t0_def\<close>)
  let ?t = "t0\<lparr>hh_mmm := m', hh_stores := (hh_stores t0)(n := new_store k), hh_store_current := n\<rparr>"
  have run: "hihat_init_size v stores help_needed m sz = Inr ?t"
    using sz n(1) by (simp add: hihat_init_size_def Let_def HATRACK_MIN_SIZE_LOG_def t0_def push_bit_eq_mult k_def [symmetric])
  let ?bs = "replicate (2 ^ k) zero_bucket"
  have dead: "filter slot_live (map bucket_slot ?bs) = []" by (simp add: zero_bucket_def filter_empty_conv)
  have inv: "store_inv k 1 ?bs"
    using k p probe_wf_empty [of k] dead
    by (auto simp: store_inv_def slots_ok_def zero_bucket_def bucket_slot_def epoch_limit_def)
  have z: "reserved ?bs = 0" "live_count ?bs = 0" "store_dict ?bs = []"
    by (auto simp: reserved_def live_count_def zero_bucket_def store_dict_def bucket_slot_def intro: odict_all_dead)
  have buckets: "map abs_bucket (hs_buckets (new_store k)) = ?bs" "\<forall>b \<in> set (hs_buckets (new_store k)). rec_idle v (hb_record b)"
    by (fact new_store_buckets(2)) (simp add: new_store_def zero_hihat_bucket_def)
  have ok: "store_ok v k 1 (new_store k)"
    unfolding store_ok_def buckets(1) using inv z(1) buckets(2) by (simp add: new_store_def)
  have thr: "hatrack_compute_table_threshold (2 ^ k) = 2 ^ k - 2 ^ k div 4 - 1" "(16::nat) \<le> 2 ^ k" using store_bounds [OF inv] by simp_all
  have "inv_at v k (?t, thread)"
    using ok n m z thr buckets(1) by (simp add: inv_at_def Let_def t0_def new_store_def mem_ok_def flag_limit_def epoch_limit_def)
  moreover have "hihat_dict (?t, thread) = []" unfolding hihat_dict_def using buckets(1) z(3) by simp
  ultimately show ?thesis using that [OF m(1) run] by (auto simp: hihat_inv_def t0_def)
qed

interpretation hihat: hatrack_table "hihat_vtable v stores help_needed" "hihat_inv v" hihat_dict "\<lambda>st. hh_next_epoch (fst st)" "flag_limit v"
  for v stores help_needed
proof
  let ?vt = "hihat_vtable v stores help_needed"
  have init: "\<exists>t. and_then swimcap_thread (\<lambda>(m, thread). map_sum id (\<lambda>t. (t, thread)) (hihat_init_size v stores help_needed m sz)) = Inr t \<and>
      hihat_inv v t \<and> hihat_dict t = [] \<and> hh_next_epoch (fst t) = 1" if sz: "4 \<le> sz" "sz \<le> 30" for sz
  proof -
    obtain m thread tab where i: "swimcap_thread = Inr (m, thread)" "hihat_init_size v stores help_needed m sz = Inr tab"
      "hihat_inv v (tab, thread)" "hihat_dict (tab, thread) = []" "hh_next_epoch tab = 1"
      by (rule hihat_init_ok [OF sz])
    show ?thesis by (subst i(1), rule exI [of _ "(tab, thread)"]) (use i(2-) in simp)
  qed
  then show "\<exists>t. vt_init_sz ?vt sz = Inr t \<and> hihat_inv v t \<and> hihat_dict t = [] \<and> hh_next_epoch (fst t) = 1"
    if "4 \<le> sz" "sz \<le> 30" for sz
    using that by (simp add: hihat_vtable_def)
  show "\<exists>t. vt_init ?vt = Inr t \<and> hihat_inv v t \<and> hihat_dict t = [] \<and> hh_next_epoch (fst t) = 1"
    using init [of 4] by (simp add: hihat_vtable_def hihat_init_def HATRACK_MIN_SIZE_LOG_def)
  fix t :: hihat_state and hv :: hatrack_hash and item :: ptr
  assume inv: "hihat_inv v t"
  show "vt_len ?vt t = length (hihat_dict t)"
    using inv by (auto simp: hihat_inv_def hihat_vtable_def hihat_len_mmm_def hihat_len_def hihat_dict_def length_store_dict inv_at_def Let_def)
  show "\<exists>t' view. vt_view ?vt t True = Some (Inr (t', view, length (hihat_dict t))) \<and> hihat_inv v t' \<and>
      hihat_dict t' = hihat_dict t \<and> map view_item view = map snd (hihat_dict t)" if e: "hh_next_epoch (fst t) \<le> 2 ^ 31"
  proof -
    obtain tab thread k where t: "t = (tab, thread)" "inv_at v k (tab, thread)" using inv by (cases t) (auto simp: hihat_inv_def)
    let ?view = "live_view (hs_buckets (hh_stores tab (hh_store_current tab)))"
    obtain tab' where run: "hihat_view_mmm (tab, thread) True = Some ((tab', thread), Inr (let view = ?view in
        (if True then qsort hatrack_quicksort_cmp view else view, length (hihat_dict (tab, thread)))))"
      "inv_at v k (tab', thread)" "hihat_dict (tab', thread) = hihat_dict (tab, thread)"
      by (rule hihat_view_run [OF t(2)])
    have "map view_item (qsort hatrack_quicksort_cmp ?view) = map snd (hihat_dict t)"
      using store_view_sorted [OF store_okD(4) [OF inv_atD(1) [OF t(2)]]] e by (simp add: live_view_abs hihat_dict_def t(1))
    with run t inv_at_mem(3) [OF t(2)] show ?thesis
      by (auto simp: hihat_vtable_def call_result_def hihat_inv_def Let_def)
  qed
  assume h: "hv \<noteq> 0"
  show "\<exists>t'. vt_get ?vt t hv = Some (Inr (t', od_get (hihat_dict t) hv)) \<and> hihat_inv v t' \<and> hihat_dict t' = hihat_dict t \<and>
      hh_next_epoch (fst t') \<le> hh_next_epoch (fst t)"
    using hget.call_finishes [OF inv, of hv "od_get (hihat_dict t) hv" "hihat_dict t" "hh_next_epoch (fst t)"] hihat_get_finishes [OF _ h]
    by (force simp: hihat_vtable_def hihat_get_mmm_def call_result_def)
  show "\<exists>t'. vt_replace ?vt t hv item = Some (Inr (t', od_get (hihat_dict t) hv)) \<and> hihat_inv v t' \<and>
      hihat_dict t' = od_set hv item (hihat_dict t) \<and> hh_next_epoch (fst t') \<le> hh_next_epoch (fst t)"
    using hreplace.call_finishes [OF inv, of hv item "od_get (hihat_dict t) hv" "od_set hv item (hihat_dict t)" "hh_next_epoch (fst t)"]
      hihat_replace_finishes [OF _ h]
    by (force simp: hihat_vtable_def hihat_replace_mmm_def call_result_def)
  show "\<exists>t'. vt_remove ?vt t hv = Some (Inr (t', od_get (hihat_dict t) hv)) \<and> hihat_inv v t' \<and>
      hihat_dict t' = od_remove hv (hihat_dict t) \<and> hh_next_epoch (fst t') \<le> hh_next_epoch (fst t)"
    using hremove.call_finishes [OF inv, of hv "od_get (hihat_dict t) hv" "od_remove hv (hihat_dict t)" "hh_next_epoch (fst t)"]
      hihat_remove_finishes [OF _ h]
    by (force simp: hihat_vtable_def hihat_remove_mmm_def call_result_def)
  assume e: "hh_next_epoch (fst t) < flag_limit v"
  show "\<exists>t'. vt_put ?vt t hv item = Some (Inr (t', od_get (hihat_dict t) hv)) \<and> hihat_inv v t' \<and>
      hihat_dict t' = od_put hv item (hihat_dict t) \<and> hh_next_epoch (fst t') \<le> hh_next_epoch (fst t) + 1"
    using hput.call_finishes [OF inv, of hv item "od_get (hihat_dict t) hv" "od_put hv item (hihat_dict t)" "hh_next_epoch (fst t) + 1"]
      hihat_put_finishes [OF _ h] e
    by (force simp: hihat_vtable_def hihat_put_mmm_def call_result_def)
  show "\<exists>t'. vt_add ?vt t hv item = Some (Inr (t', \<not> snd (od_get (hihat_dict t) hv))) \<and> hihat_inv v t' \<and>
      hihat_dict t' = od_add hv item (hihat_dict t) \<and> hh_next_epoch (fst t') \<le> hh_next_epoch (fst t) + 1"
    using hadd.call_finishes [OF inv, of hv item "(0, \<not> snd (od_get (hihat_dict t) hv))" "od_add hv item (hihat_dict t)" "hh_next_epoch (fst t) + 1"]
      hihat_add_finishes [OF _ h] e
    by (force simp: hihat_vtable_def hihat_add_mmm_def call_result_def)
qed

text \<open>A full store, for the witnesses: eleven of sixteen buckets are reserved, and one of them holds a removed item.\<close>

definition example_buckets :: "hihat_bucket list" where
  "example_buckets = zero_hihat_bucket # map (\<lambda>i. \<lparr>hb_hv = of_nat i, hb_record =
     (if i = 4 then \<lparr>hr_item = 0, hr_info = HIHAT_F_INITED\<rparr> else \<lparr>hr_item = of_nat (100 + i), hr_info = HIHAT_F_INITED OR of_nat i\<rparr>)\<rparr>)
     [1..<12] @ replicate 4 zero_hihat_bucket"

lemma example_idle:
  assumes "b \<in> set example_buckets"
  shows "rec_idle v (hb_record b)"
proof -
  have lim: "i < flag_limit v" if "i < 12" for i using that by (simp add: flag_limit_def epoch_limit_def)
  have "b = zero_hihat_bucket \<or> (\<exists>i. i < 12 \<and> hb_record b = (if i = 4 then \<lparr>hr_item = 0, hr_info = HIHAT_F_INITED\<rparr>
      else \<lparr>hr_item = of_nat (100 + i), hr_info = HIHAT_F_INITED OR of_nat i\<rparr>))"
    using assms by (auto simp: example_buckets_def)
  then show ?thesis by (auto simp: zero_hihat_bucket_def removed_record new_record(1) lim)
qed

lemma example_store: "store_inv 4 12 (map abs_bucket example_buckets)" "reserved (map abs_bucket example_buckets) = 11"
  "live_count (map abs_bucket example_buckets) = 10"
proof -
  let ?bs = "map abs_bucket example_buckets"
  have keys: "map rb_hv ?bs = [0, 1, 2, 3, 4, 5, 6, 7, 8, 9, 10, 11, 0, 0, 0, 0]"
    by (simp add: example_buckets_def zero_hihat_bucket_def upt_rec numeral_eq_Suc)
  have home_small: "home 4 1 = 1" "home 4 2 = 2" "home 4 3 = 3" "home 4 4 = 4" "home 4 5 = 5"
    "home 4 6 = 6" "home 4 7 = 7" "home 4 8 = 8" "home 4 9 = 9" "home 4 10 = 10" "home 4 11 = 11"
    by (simp_all add: home_def)
  have wf: "probe_wf 4 (map rb_hv ?bs)" unfolding keys by (rule probe_wf_home) (simp_all add: home_small)
  have dead: "\<forall>b \<in> set ?bs. rb_hv b = 0 \<longrightarrow> rb_epoch b = 0" by code_simp
  have slots: "slots_ok 12 (map bucket_slot ?bs)" by code_simp
  show "store_inv 4 12 ?bs" using wf dead slots by (simp add: store_inv_def epoch_limit_def)
  show "reserved ?bs = 11" "live_count ?bs = 10" by code_simp+
qed

lemma example_table:
  obtains t thread where "inv_at v 4 (t, thread)" "hs_buckets (hh_stores t (hh_store_current t)) = example_buckets"
    "hs_threshold (hh_stores t (hh_store_current t)) = 11" "hs_used_count (hh_stores t (hh_store_current t)) = 11" "hh_next_epoch t = 12"
proof -
  obtain m thread where m: "mmm_ok m thread" "mm_epoch m = 1" "mt_retire_list thread = []"
    using first_acquire by metis
  obtain m' n where m': "mmm_alloc_committed m 0 = (m', n)" "mmm_ok m' thread" "allocated m' n" "mm_epoch m' = 2"
    using mmm.alloc_ok [OF m(1)] m(2) by fastforce
  let ?store = "\<lparr>hs_last_slot = 15, hs_threshold = 11, hs_used_count = 11, hs_store_next = None, hs_buckets = example_buckets\<rparr>"
  let ?t = "\<lparr>hh_store_current = n, hh_item_count = 10, hh_help_needed = 0, hh_next_epoch = 12, hh_stores = (\<lambda>p. ?store), hh_mmm = m'\<rparr>"
  have thr: "hatrack_compute_table_threshold 16 = 11" by (simp add: threshold_eq)
  have "store_ok v 4 12 ?store" using example_store example_idle thr by (simp add: store_ok_def)
  then have "inv_at v 4 (?t, thread)"
    using m m' thr example_store by (simp add: inv_at_def Let_def mem_ok_def flag_limit_def epoch_limit_def)
  then show ?thesis using that [of ?t thread] by simp
qed

section \<open>Properties\<close>

text \<open>C2: Any sequence of calls through the vtable by one thread, on a new table of any of the three lock-free variants and of any legal
  size, returns without an error (no store is touched after it was freed, no bucket outside its store), gives the answers of the
  insertion-ordered dictionary, and leaves the table holding that dictionary, through every migration on the way. \<^verbatim>\<open>witchhat\<close>
  can number fewer insertions: its flags start at bit 50.\<close>

theorem hihat_run_refines:
  assumes "4 \<le> sz" "sz \<le> 30" "list_all call_ok cs" "length cs < flag_limit v"
  shows "\<exists>m thread t s'. mmm_thread_acquire mmm_start mmm_thread_zero = Inr (m, thread) \<and>
     hihat_new_size v stores help_needed m sz = Inr t \<and>
     testhat_run \<lparr>th_vtable = hihat_vtable v stores help_needed, th_htable = (t, thread)\<rparr> cs =
       Some (Inr (s', snd (od_run [] cs))) \<and>
     hihat_inv v (th_htable s') \<and> hihat_dict (th_htable s') = fst (od_run [] cs)"
proof -
  obtain m thread t where t: "swimcap_thread = Inr (m, thread)" "hihat_init_size v stores help_needed m sz = Inr t"
    "hihat_inv v (t, thread)" "hihat_dict (t, thread) = []" "hh_next_epoch t = 1"
    by (rule hihat_init_ok [OF assms(1,2)])
  obtain s' where "testhat_run \<lparr>th_vtable = hihat_vtable v stores help_needed, th_htable = (t, thread)\<rparr> cs =
      Some (Inr (s', snd (od_run [] cs)))" "hihat_inv v (th_htable s')" "hihat_dict (th_htable s') = fst (od_run [] cs)"
    using hihat.run_refines [of v "\<lparr>th_vtable = hihat_vtable v stores help_needed, th_htable = (t, thread)\<rparr>" stores help_needed cs]
      t assms(3,4) by auto
  moreover have "mmm_thread_acquire mmm_start mmm_thread_zero = Inr (m, thread)" using t(1) by (simp add: swimcap_thread_def)
  ultimately show ?thesis using t(2) by (auto simp: hihat_new_size_def)
qed

theorem hihat_run_refines_witness:
  "\<exists>m thread t s'. mmm_thread_acquire mmm_start mmm_thread_zero = Inr (m, thread) \<and>
     hihat_new_size Helping (\<lambda>p. new_store 4) 0 m 4 = Inr t \<and>
     testhat_run \<lparr>th_vtable = hihat_vtable Helping (\<lambda>p. new_store 4) 0, th_htable = (t, thread)\<rparr>
       [CallPut 5 7, CallAdd 21 8, CallRemove 5, CallPut 5 9, CallGet 5, CallLen] =
       Some (Inr (s', [Item 0 False, Added True, Item 7 True, Item 0 False, Item 9 True, Length 2])) \<and>
     hihat_dict (th_htable s') = [(21, 8), (5, 9)]"
proof -
  let ?cs = "[CallPut 5 7, CallAdd 21 8, CallRemove 5, CallPut 5 9, CallGet 5, CallLen]"
  have run: "od_run [] ?cs = ([(21, 8), (5, 9)],
      [Item 0 False, Added True, Item 7 True, Item 0 False, Item 9 True, Length 2])"
    by code_simp
  have "list_all call_ok ?cs" "length ?cs < flag_limit Helping" by (simp_all add: flag_limit_def)
  from hihat_run_refines [of 4, OF _ _ this, of "\<lambda>p. new_store 4" 0] show ?thesis unfolding run fst_conv snd_conv by simp blast
qed

text \<open>C3: A full store is replaced. \<^verbatim>\<open>hihat_store_migrate\<close>, run by one thread on a store that has reached its threshold, returns the new
  current store; the table holds the same dictionary in the same order, the new store has room, its buckets carry no
  flag of the migration, and the item count and the next epoch are as before.\<close>

theorem hihat_migrate_makes_room:
  assumes "hihat_inv v (t, thread)"
    "hs_threshold (hh_stores t (hh_store_current t)) \<le> hs_used_count (hh_stores t (hh_store_current t))"
  shows "\<exists>t' thread'. run_alone (hihat_store_migrate_step v) (MStart (hh_store_current t)) (t, thread) =
       Some ((t', thread'), Inr (hh_store_current t')) \<and> hihat_inv v (t', thread') \<and>
     hihat_dict (t', thread') = hihat_dict (t, thread) \<and> hihat_len t' = hihat_len t \<and> hh_next_epoch t' = hh_next_epoch t \<and>
     hs_used_count (hh_stores t' (hh_store_current t')) < hs_threshold (hh_stores t' (hh_store_current t')) \<and>
     (\<forall>b \<in> set (hs_buckets (hh_stores t' (hh_store_current t'))). \<not> rec_moving (hb_record b) \<and> \<not> rec_moved v (hb_record b))"
proof -
  obtain k where k: "inv_at v k (t, thread)" using assms(1) by (auto simp: hihat_inv_def)
  have full: "full_at v k (t, thread)"
    by (rule inv_full [OF k]) (use assms(2) store_okD(2) [OF inv_atD(1) [OF k]] in simp)
  obtain t' thread' k' where t': "run_alone (hihat_store_migrate_step v) (MStart (hh_store_current t)) (t, thread) =
      Some ((t', thread'), Inr (hh_store_current t'))"
    "inv_at v k' (t', thread')" "hs_used_count (hh_stores t' (hh_store_current t')) < hatrack_compute_table_threshold (2 ^ k')"
    "hihat_dict (t', thread') = hihat_dict (t, thread)" "hh_next_epoch t' = hh_next_epoch t"
    by (rule full_migrate [OF full])
  note D = store_okD [OF inv_atD(1) [OF t'(2)]]
  have "hihat_len t' = hihat_len t"
    using inv_atD(4) [OF k] inv_atD(4) [OF t'(2)] arg_cong [OF t'(4), of length]
    by (simp add: hihat_len_def hihat_dict_def length_store_dict)
  with t' D(2,6) show ?thesis by (auto simp: hihat_inv_def rec_idle_def)
qed

theorem hihat_migrate_makes_room_witness:
  "\<exists>t thread t' thread'. hs_buckets (hh_stores t (hh_store_current t)) = example_buckets \<and>
     run_alone (hihat_store_migrate_step Plain) (MStart (hh_store_current t)) (t, thread) =
       Some ((t', thread'), Inr (hh_store_current t')) \<and>
     hihat_dict (t', thread') = hihat_dict (t, thread) \<and> hh_next_epoch t' = 12 \<and>
     hs_used_count (hh_stores t' (hh_store_current t')) < hs_threshold (hh_stores t' (hh_store_current t'))"
proof -
  obtain t thread where t: "inv_at Plain 4 (t, thread)" "hs_buckets (hh_stores t (hh_store_current t)) = example_buckets"
    "hs_threshold (hh_stores t (hh_store_current t)) = 11" "hs_used_count (hh_stores t (hh_store_current t)) = 11" "hh_next_epoch t = 12"
    by (rule example_table)
  have "hihat_inv Plain (t, thread)" using t(1) by (auto simp: hihat_inv_def)
  from hihat_migrate_makes_room [OF this] t show ?thesis by fastforce
qed

text \<open>C40: While a store is being migrated, \<^verbatim>\<open>witchhat_get\<close> reports an item that is not there. The migrating thread marks a reserved bucket
  whose item was removed as moved; in \<^verbatim>\<open>witchhat\<close> the flag lies inside the epoch (its literal is octal), so a \<^verbatim>\<open>get\<close> that
  comes then finds a non-zero epoch and answers that the key is present, with the removed bucket's item, \<^verbatim>\<open>NULL\<close>. The other two
  variants answer that it is absent.\<close>

theorem witchhat_get_finds_removed:
  assumes "hihat_inv v (t, thread)" "i < length (hs_buckets (hh_stores t (hh_store_current t)))"
    "hs_buckets (hh_stores t (hh_store_current t)) ! i = b" "hb_hv b = hv" "hv \<noteq> 0" "rec_epoch (hb_record b) = 0"
  shows "\<exists>t1 t2 pc st. hihat_store_migrate_step v (MMarkSet (hh_store_current t) i used) (t, other) =
       ((t1, other), Inl (MMarkRead (hh_store_current t) i used)) \<and>
     hihat_store_migrate_step v (MMarkRead (hh_store_current t) i used) (t1, other) =
       ((t1, other), Inl (MMarkMoved (hh_store_current t) i used)) \<and>
     hihat_store_migrate_step v (MMarkMoved (hh_store_current t) i used) (t1, other) = ((t2, other), Inl pc) \<and>
     od_get (hihat_dict (t, thread)) hv = (0, False) \<and>
     hihat_get_mmm v (t2, thread) hv = Some (st, Inr (if v = Helping then (hr_item (hb_record b), True) else (0, False)))"
proof -
  obtain k where k: "inv_at v k (t, thread)" using assms(1) by (auto simp: hihat_inv_def)
  define s where "s = hh_store_current t"
  define bs where "bs = hs_buckets (hh_stores t s)"
  note D = store_okD [OF inv_atD(1) [OF k], folded s_def, folded bs_def] and al = inv_at_mem(1) [OF k, folded s_def]
  have i: "i < length bs" "bs ! i = b" using assms(2,3) by (simp_all add: bs_def s_def)
  have idle: "rec_idle v (hb_record b)" using D(6) i by auto
  define m where "m = rec_or HIHAT_F_MOVING b"
  define b' where "b' = rec_or (if v = Sleeping then HIHAT_F_MOVING OR f_moved v else f_moved v) m"
  define t1 where "t1 = put_buckets t s (bs[i := m])"
  define t2 where "t2 = put_buckets t s (bs[i := b'])"
  have steps: "hihat_store_migrate_step v (MMarkSet s i used) (t, other) = ((t1, other), Inl (MMarkRead s i used))"
    "hihat_store_migrate_step v (MMarkRead s i used) (t1, other) = ((t1, other), Inl (MMarkMoved s i used))"
    "\<exists>pc. hihat_store_migrate_step v (MMarkMoved s i used) (t1, other) = ((t2, other), Inl pc)"
    using al i assms(6) by (simp_all add: t1_def t2_def m_def b'_def bs_def rec_or_moving)
  have b': "b' = mark_bucket v b" using assms(6) by (simp add: b'_def m_def mark_bucket_def Let_def)
  have e': "rec_epoch (hb_record b') \<noteq> 0 \<longleftrightarrow> v = Helping" using mark_removed_epoch [OF assms(6)] b' by simp
  have dict: "hihat_dict (t, thread) = store_dict (map abs_bucket bs)" by (simp add: hihat_dict_def bs_def s_def)
  have absent: "od_get (hihat_dict (t, thread)) hv = (0, False)"
    unfolding dict by (rule store_get_dead(1) [OF D(4), of i]) (use i assms(4-6) in simp_all)
  have find: "probe (map hb_hv bs) (2 ^ k - 1) hv (hatrack_bucket_index hv (2 ^ k - 1)) (2 ^ k) = Inr (Hit i)"
    using probe_present [OF store_invD(3) [OF D(4)] _ _ _ assms(5), of i] store_bounds(1) [OF D(4)] i D(7) assms(4) by (simp add: comp_def)
  have hvs: "map hb_hv (bs[i := b']) = map hb_hv bs" by (rule map_update_eq) (use i in \<open>simp_all add: b'\<close>)
  obtain m' where m': "run_alone (hihat_get_step v hv) HBegin (t2, thread) =
      run_alone (hihat_get_step v hv) (HFirst (hh_store_current t2) 0) (t2\<lparr>hh_mmm := m'\<rparr>, thread)"
    "mmm_ok m' thread" "allocated m' = allocated (hh_mmm t2)"
    by (rule hget.enter_run [of t2 thread v hv]) (use inv_at_mem(2) [OF k] in \<open>simp_all add: t2_def\<close>)
  let ?t = "t2\<lparr>hh_mmm := m'\<rparr>" and ?r = "if v = Helping then (hr_item (hb_record b), True) else (0, False)"
  have at: "allocated (hh_mmm ?t) s" "hs_buckets (hh_stores ?t s) = bs[i := b']" "hs_last_slot (hh_stores ?t s) = 2 ^ k - 1"
    "hh_store_current t2 = s"
    using m'(3) al D(1) by (simp_all add: t2_def s_def)
  have "run_alone (hihat_get_step v hv) (HFirst s 0) (?t, thread) = run_alone (hihat_get_step v hv) (HRecord s 0 i) (?t, thread)"
    using hget.walk_run [OF at(1,3) assms(5), of "Hit i" v 0 thread] find at(2) hvs by simp
  also have "\<dots> = run_alone (hihat_get_step v hv) (HLeave ?r) (?t, thread)"
    by (rule run_next) (use at i e' b' in auto)
  also have "\<exists>st. \<dots> = Some (st, Inr ?r)"
    using mmm.leave_ok [OF m'(2)] by (auto simp: run_alone.simps [of _ "HLeave ?r"])
  finally have "\<exists>st. hihat_get_mmm v (t2, thread) hv = Some (st, Inr ?r)" using m'(1) at(4) by (simp add: hihat_get_mmm_def)
  with steps absent show ?thesis unfolding s_def by blast
qed

theorem witchhat_get_finds_removed_witness:
  "\<exists>t thread t1 t2 pc st. hihat_inv Helping (t, thread) \<and>
     hihat_store_migrate_step Helping (MMarkSet (hh_store_current t) 4 0) (t, thread) =
       ((t1, thread), Inl (MMarkRead (hh_store_current t) 4 0)) \<and>
     hihat_store_migrate_step Helping (MMarkRead (hh_store_current t) 4 0) (t1, thread) =
       ((t1, thread), Inl (MMarkMoved (hh_store_current t) 4 0)) \<and>
     hihat_store_migrate_step Helping (MMarkMoved (hh_store_current t) 4 0) (t1, thread) = ((t2, thread), Inl pc) \<and>
     od_get (hihat_dict (t, thread)) 4 = (0, False) \<and> hihat_get_mmm Helping (t2, thread) 4 = Some (st, Inr (0, True))"
proof -
  obtain t thread where t: "inv_at Helping 4 (t, thread)" "hs_buckets (hh_stores t (hh_store_current t)) = example_buckets"
    by (rule example_table)
  have b: "4 < length example_buckets" "example_buckets ! 4 = \<lparr>hb_hv = 4, hb_record = \<lparr>hr_item = 0, hr_info = HIHAT_F_INITED\<rparr>\<rparr>"
    by code_simp+
  have inv: "hihat_inv Helping (t, thread)" using t(1) by (auto simp: hihat_inv_def)
  have h: "4 < length (hs_buckets (hh_stores t (hh_store_current t)))" "hs_buckets (hh_stores t (hh_store_current t)) ! 4 = example_buckets ! 4"
    "hb_hv (example_buckets ! 4) = 4" "(4 :: hatrack_hash) \<noteq> 0" "rec_epoch (hb_record (example_buckets ! 4)) = 0"
    "hr_item (hb_record (example_buckets ! 4)) = 0"
    using t(2) b by (simp_all add: removed_record)
  from witchhat_get_finds_removed [OF inv h(1-5), of 0 thread] inv show ?thesis unfolding h(6) if_P [OF refl] by blast
qed

text \<open>The counter of epochs is read and written back in two steps, so two puts can number their items alike.\<close>

lemma hihat_two_puts_one_epoch:
  assumes "hh_next_epoch t < flag_limit v"
  shows "\<exists>pa pb t1 t2 ca cb. hihat_put_step v hv x (HEpoch s r i old) (t, a) = ((t, a), Inl pa) \<and>
     hihat_put_step v hv' y (HEpoch s' r' i' old') (t, b) = ((t, b), Inl pb) \<and>
     hihat_put_step v hv x pa (t, a) = ((t1, a), Inl (HInstall s r i old ca)) \<and>
     hihat_put_step v hv' y pb (t1, b) = ((t2, b), Inl (HInstall s' r' i' old' cb)) \<and>
     unat (rec_epoch ca) = hh_next_epoch t \<and> unat (rec_epoch cb) = hh_next_epoch t \<and> hh_next_epoch t2 = wrap64 (hh_next_epoch t + 1)"
  using new_record(2) [OF assms] by simp

end
