(* ===== verification/Hihat_Threads.thy ===== *)
theory Hihat_Threads
  imports Hihat_Table
begin

text \<open>
  Any number of threads on one \<^verbatim>\<open>hihat\<close>, \<^verbatim>\<open>hihat-a\<close> or \<^verbatim>\<open>witchhat\<close> table, interleaved between the steps of \<open>Hihat\<close>.
\<close>

section \<open>The system\<close>

datatype hihat_op =
    OpGet hatrack_hash
  | OpPut hatrack_hash ptr
  | OpReplace hatrack_hash ptr
  | OpAdd hatrack_hash ptr
  | OpRemove hatrack_hash

fun op_key :: "hihat_op \<Rightarrow> hatrack_hash" where
  "op_key (OpGet hv) = hv"
| "op_key (OpPut hv item) = hv"
| "op_key (OpReplace hv item) = hv"
| "op_key (OpAdd hv item) = hv"
| "op_key (OpRemove hv) = hv"

fun op_step :: "variant \<Rightarrow> hihat_op \<Rightarrow> hihat_pc \<Rightarrow> hihat_state \<Rightarrow> hihat_state \<times> (hihat_pc + (ptr \<times> bool) outcome)" where
  "op_step v (OpGet hv) = hihat_get_step v hv"
| "op_step v (OpPut hv item) = hihat_put_step v hv item"
| "op_step v (OpReplace hv item) = hihat_replace_step v hv item"
| "op_step v (OpAdd hv item) = hihat_add_step v hv item"
| "op_step v (OpRemove hv) = hihat_remove_step v hv"

text \<open>A thread: between calls, in an operation on one key, in a view, or stopped by an error.\<close>

datatype hihat_thread =
    Between
  | InOp hihat_op hihat_pc
  | InView bool hihat_view_pc
  | Stopped c_error

record hihat_system =
  sy_table :: hihat
  sy_threads :: "(mmm_thread \<times> hihat_thread) list"

fun after_step :: "('pc \<Rightarrow> hihat_thread) \<Rightarrow> 'pc + 'r outcome \<Rightarrow> hihat_thread" where
  "after_step at (Inl pc) = at pc"
| "after_step at (Inr (Inl e)) = Stopped e"
| "after_step at (Inr (Inr r)) = Between"

definition set_hthread :: "hihat_system \<Rightarrow> nat \<Rightarrow> hihat_state \<Rightarrow> hihat_thread \<Rightarrow> hihat_system" where
  "set_hthread g i st th = g\<lparr>sy_table := fst st, sy_threads := (sy_threads g)[i := (snd st, th)]\<rparr>"

inductive hihat_system_step :: "variant \<Rightarrow> hihat_system \<Rightarrow> hihat_system \<Rightarrow> bool" for v where
  call: "\<lbrakk>i < length (sy_threads g); sy_threads g ! i = (m, Between); op_key c \<noteq> 0\<rbrakk> \<Longrightarrow>
     hihat_system_step v g (set_hthread g i (sy_table g, m) (InOp c HBegin))"
| call_view: "\<lbrakk>i < length (sy_threads g); sy_threads g ! i = (m, Between)\<rbrakk> \<Longrightarrow>
     hihat_system_step v g (set_hthread g i (sy_table g, m) (InView srt WBegin))"
| step: "\<lbrakk>i < length (sy_threads g); sy_threads g ! i = (m, InOp c pc); op_step v c pc (sy_table g, m) = (st, r)\<rbrakk> \<Longrightarrow>
     hihat_system_step v g (set_hthread g i st (after_step (InOp c) r))"
| step_view: "\<lbrakk>i < length (sy_threads g); sy_threads g ! i = (m, InView srt pc); hihat_view_step srt pc (sy_table g, m) = (st, r)\<rbrakk> \<Longrightarrow>
     hihat_system_step v g (set_hthread g i st (after_step (InView srt) r))"

definition created :: "hihat \<Rightarrow> nat \<Rightarrow> bool" where
  "created t p \<longleftrightarrow> p < length (mm_cells (hh_mmm t))"

text \<open>Runs in which the memory suffices: no store has more than \<open>2 ^ 58\<close> buckets, and the clock of the memory manager does not wrap.\<close>

definition bounded_stores :: "hihat \<Rightarrow> bool" where
  "bounded_stores t \<longleftrightarrow> (\<forall>p. created t p \<longrightarrow> hs_last_slot (hh_stores t p) < 2 ^ 58)"

definition memory_suffices :: "hihat \<Rightarrow> bool" where
  "memory_suffices t \<longleftrightarrow> bounded_stores t \<and> mm_epoch (hh_mmm t) + 1 < 2 ^ 64"

inductive hihat_system_run :: "variant \<Rightarrow> hihat_system \<Rightarrow> hihat_system \<Rightarrow> bool" for v g where
  start: "memory_suffices (sy_table g) \<Longrightarrow> hihat_system_run v g g"
| next_step: "\<lbrakk>hihat_system_run v g g1; hihat_system_step v g1 g2; memory_suffices (sy_table g2)\<rbrakk> \<Longrightarrow> hihat_system_run v g g2"

section \<open>Hash values\<close>

abbreviation hvs :: "hihat \<Rightarrow> nat \<Rightarrow> hatrack_hash list" where
  "hvs t p \<equiv> map hb_hv (hs_buckets (hh_stores t p))"

text \<open>A store of a power of two of buckets with well-formed hash values.\<close>

definition keyed :: "nat \<Rightarrow> hihat_store \<Rightarrow> bool" where
  "keyed k st \<longleftrightarrow> 4 \<le> k \<and> k \<le> 58 \<and> hs_last_slot st = 2 ^ k - 1 \<and> probe_wf k (map hb_hv (hs_buckets st))"

lemma keyedD:
  assumes "keyed k st"
  shows "4 \<le> k" "k \<le> 58" "hs_last_slot st = 2 ^ k - 1" "probe_wf k (map hb_hv (hs_buckets st))" "length (hs_buckets st) = 2 ^ k"
    "hs_last_slot st < length (hs_buckets st)"
  using assms probe_wf_length [of k "map hb_hv (hs_buckets st)"] by (simp_all add: keyed_def)

definition keys_inv :: "hihat \<Rightarrow> bool" where
  "keys_inv t \<longleftrightarrow> created t (hh_store_current t) \<and>
     (\<forall>p. created t p \<longrightarrow> (\<exists>k. keyed k (hh_stores t p)) \<and> (\<forall>n. hs_store_next (hh_stores t p) = Some n \<longrightarrow> created t n))"

text \<open>What only ever grows: the stores, their reserved buckets, their links.\<close>

definition grows :: "hihat \<Rightarrow> hihat \<Rightarrow> bool" where
  "grows t t' \<longleftrightarrow> (\<forall>p. created t p \<longrightarrow> created t' p \<and>
     hs_last_slot (hh_stores t' p) = hs_last_slot (hh_stores t p) \<and>
     length (hs_buckets (hh_stores t' p)) = length (hs_buckets (hh_stores t p)) \<and>
     (\<forall>i < length (hs_buckets (hh_stores t p)). hvs t p ! i \<noteq> 0 \<longrightarrow> hvs t' p ! i = hvs t p ! i) \<and>
     (\<forall>n. hs_store_next (hh_stores t p) = Some n \<longrightarrow> hs_store_next (hh_stores t' p) = Some n))"

lemma grows_refl [simp]: "grows t t"
  by (simp add: grows_def)

lemma grows_trans: "grows t u \<Longrightarrow> grows u w \<Longrightarrow> grows t w"
  unfolding grows_def by (metis (no_types, lifting))

text \<open>A probe for \<open>hv\<close> at its \<open>i\<close>-th bucket has passed reserved buckets of other hash values only.\<close>

definition probes_for :: "hihat \<Rightarrow> nat \<Rightarrow> hatrack_hash \<Rightarrow> nat \<Rightarrow> nat \<Rightarrow> bool" where
  "probes_for t s hv bix i \<longleftrightarrow> created t s \<and>
     (\<exists>k. hs_last_slot (hh_stores t s) = 2 ^ k - 1 \<and> k \<le> 58 \<and> length (hs_buckets (hh_stores t s)) = 2 ^ k \<and> i < 2 ^ k \<and>
       bix = (home k hv + i) mod 2 ^ k \<and>
       (\<forall>j < i. hvs t s ! ((home k hv + j) mod 2 ^ k) \<noteq> 0 \<and> hvs t s ! ((home k hv + j) mod 2 ^ k) \<noteq> hv))"

definition owns :: "hihat \<Rightarrow> nat \<Rightarrow> hatrack_hash \<Rightarrow> nat \<Rightarrow> bool" where
  "owns t s hv bix \<longleftrightarrow> created t s \<and> bix < length (hs_buckets (hh_stores t s)) \<and> hvs t s ! bix = hv"

definition inside :: "hihat \<Rightarrow> nat \<Rightarrow> nat \<Rightarrow> bool" where
  "inside t s i \<longleftrightarrow> created t s \<and> i < length (hs_buckets (hh_stores t s))"

definition linked :: "hihat \<Rightarrow> nat \<Rightarrow> nat \<Rightarrow> bool" where
  "linked t s n \<longleftrightarrow> created t s \<and> hs_store_next (hh_stores t s) = Some n \<and> created t n"

fun migrate_keys :: "hihat \<Rightarrow> migrate_pc \<Rightarrow> bool" where
  "migrate_keys t (MStart s) = created t s"
| "migrate_keys t (MSleep s) = created t s"
| "migrate_keys t (MAwake s again) = (created t s \<and> hs_store_next (hh_stores t s) \<noteq> None)"
| "migrate_keys t (MCheck s again n) = (case n of None \<Rightarrow> False | Some n \<Rightarrow> linked t s n)"
| "migrate_keys t (MMark s i used) = inside t s i"
| "migrate_keys t (MMarkSet s i used) = inside t s i"
| "migrate_keys t (MMarkRead s i used) = inside t s i"
| "migrate_keys t (MMarkMoved s i used) = inside t s i"
| "migrate_keys t (MNext s used) = created t s"
| "migrate_keys t (MSize s used) = created t s"
| "migrate_keys t (MAlloc s used new_size) = (created t s \<and> (\<exists>k. 4 \<le> k \<and> k \<le> 61 \<and> new_size = 2 ^ k))"
| "migrate_keys t (MLink s used c) = (created t s \<and> created t c)"
| "migrate_keys t (MDiscard s n used c) = linked t s n"
| "migrate_keys t (MMove s n i used) = (linked t s n \<and> inside t s i)"
| "migrate_keys t (MHash s n i used record) = (linked t s n \<and> inside t s i)"
| "migrate_keys t (MProbe s n i used record hv bix j) = (linked t s n \<and> inside t s i \<and> probes_for t n hv bix j)"
| "migrate_keys t (MTake s n i used record hv bix j) = (linked t s n \<and> inside t s i \<and> probes_for t n hv bix j)"
| "migrate_keys t (MCopy s n i used record bix) = (linked t s n \<and> inside t s i \<and> inside t n bix)"
| "migrate_keys t (MFinish s n i used) = (linked t s n \<and> inside t s i)"
| "migrate_keys t (MUsed s n used) = linked t s n"
| "migrate_keys t (MInstall s n) = linked t s n"
| "migrate_keys t (MRetire s) = created t s"
| "migrate_keys t MReturn = True"

fun pc_keys :: "hihat \<Rightarrow> hatrack_hash \<Rightarrow> hihat_pc \<Rightarrow> bool" where
  "pc_keys t hv (HFirst s r) = created t s"
| "pc_keys t hv (HProbe s r bix i) = probes_for t s hv bix i"
| "pc_keys t hv (HAcquire s r bix i) = probes_for t s hv bix i"
| "pc_keys t hv (HUsed s r bix) = owns t s hv bix"
| "pc_keys t hv (HRecord s r bix) = owns t s hv bix"
| "pc_keys t hv (HEpoch s r bix record) = owns t s hv bix"
| "pc_keys t hv (HBump s r bix record e) = owns t s hv bix"
| "pc_keys t hv (HInstall s r bix record candidate) = owns t s hv bix"
| "pc_keys t hv (HCount s r res) = created t s"
| "pc_keys t hv (HHelp s r) = created t s"
| "pc_keys t hv (HMigrate r pc) = migrate_keys t pc"
| "pc_keys t hv (HFull s r res) = created t s"
| "pc_keys t hv (HTidy r res pc) = migrate_keys t pc"
| "pc_keys t hv pc = True"

fun view_keys :: "hihat \<Rightarrow> hihat_view_pc \<Rightarrow> bool" where
  "view_keys t (WRead s i view) = inside t s i"
| "view_keys t pc = True"

lemma grows_parts:
  assumes "grows t t'"
  shows "created t p \<Longrightarrow> created t' p" "inside t p i \<Longrightarrow> inside t' p i" "linked t p n \<Longrightarrow> linked t' p n"
    "hv \<noteq> 0 \<Longrightarrow> owns t p hv i \<Longrightarrow> owns t' p hv i" "probes_for t p hv bix i \<Longrightarrow> probes_for t' p hv bix i"
proof -
  note g = assms [unfolded grows_def, rule_format]
  show "created t p \<Longrightarrow> created t' p" using g by blast
  show "inside t p i \<Longrightarrow> inside t' p i" using g [of p] by (simp add: inside_def)
  show "linked t p n \<Longrightarrow> linked t' p n" using g [of p] g [of n] by (simp add: linked_def)
  show "hv \<noteq> 0 \<Longrightarrow> owns t p hv i \<Longrightarrow> owns t' p hv i" using g [of p] by (auto simp: owns_def)
  assume pr: "probes_for t p hv bix i"
  then have c: "created t p" by (simp add: probes_for_def)
  obtain k where k: "hs_last_slot (hh_stores t p) = 2 ^ k - 1" "k \<le> 58" "length (hs_buckets (hh_stores t p)) = 2 ^ k" "i < 2 ^ k"
    "bix = (home k hv + i) mod 2 ^ k"
    "\<forall>j < i. hvs t p ! ((home k hv + j) mod 2 ^ k) \<noteq> 0 \<and> hvs t p ! ((home k hv + j) mod 2 ^ k) \<noteq> hv"
    using pr unfolding probes_for_def by blast
  have "hvs t' p ! ((home k hv + j) mod 2 ^ k) = hvs t p ! ((home k hv + j) mod 2 ^ k)" if "j < i" for j
    using g [OF c] k that by (metis mod_less_divisor zero_less_numeral zero_less_power)
  then show "probes_for t' p hv bix i" unfolding probes_for_def using g [OF c] k by (intro conjI exI [of _ k]) simp_all
qed

lemma migrate_keys_grows: "grows t t' \<Longrightarrow> migrate_keys t pc \<Longrightarrow> migrate_keys t' pc"
proof (cases pc)
  case (MAwake s again)
  assume g: "grows t t'" and "migrate_keys t pc"
  then show ?thesis using MAwake g [unfolded grows_def, rule_format, of s] by auto
qed (auto dest: grows_parts split: option.splits)

lemma pc_keys_grows: "grows t t' \<Longrightarrow> hv \<noteq> 0 \<Longrightarrow> pc_keys t hv pc \<Longrightarrow> pc_keys t' hv pc"
  by (cases pc) (auto dest: grows_parts migrate_keys_grows)

lemma view_keys_grows: "grows t t' \<Longrightarrow> view_keys t pc \<Longrightarrow> view_keys t' pc"
  by (cases pc) (auto dest: grows_parts)

text \<open>Steps that change no hash value and no link.\<close>

definition quiet :: "hihat \<Rightarrow> hihat \<Rightarrow> bool" where
  "quiet t t' \<longleftrightarrow> length (mm_cells (hh_mmm t')) = length (mm_cells (hh_mmm t)) \<and>
     (\<forall>p. hs_last_slot (hh_stores t' p) = hs_last_slot (hh_stores t p) \<and> hvs t' p = hvs t p \<and>
       hs_store_next (hh_stores t' p) = hs_store_next (hh_stores t p))"

lemma quiet_refl [simp]: "quiet t t"
  by (simp add: quiet_def)

lemma quiet_grows: "quiet t t' \<Longrightarrow> grows t t'"
  unfolding quiet_def grows_def created_def by (metis length_map order_less_le_trans)

lemma quiet_created: "quiet t t' \<Longrightarrow> created t' p = created t p"
  by (simp add: quiet_def created_def)

lemma quiet_inv: "quiet t t' \<Longrightarrow> keys_inv t \<Longrightarrow> created t (hh_store_current t') \<Longrightarrow> keys_inv t'"
  using quiet_created [of t t'] by (simp add: keys_inv_def keyed_def quiet_def)

lemma quiet_same: "quiet t t' \<Longrightarrow> hh_store_current t' = hh_store_current t \<Longrightarrow> keys_inv t \<Longrightarrow> keys_inv t'"
  using quiet_inv [of t t'] by (simp add: keys_inv_def)

lemma quiet_fields [simp]:
  "quiet t (t\<lparr>hh_item_count := n\<rparr>)" "quiet t (t\<lparr>hh_next_epoch := n\<rparr>)" "quiet t (t\<lparr>hh_help_needed := n\<rparr>)" "quiet t (t\<lparr>hh_store_current := n\<rparr>)"
  "length (mm_cells m) = length (mm_cells (hh_mmm t)) \<Longrightarrow> quiet t (t\<lparr>hh_mmm := m\<rparr>)"
  by (simp_all add: quiet_def)

lemma quiet_bucket [simp]:
  assumes "i < length (hs_buckets (hh_stores t s))" "hb_hv b = hb_hv (hs_buckets (hh_stores t s) ! i)"
  shows "quiet t (put_buckets t s ((hs_buckets (hh_stores t s))[i := b]))"
proof -
  have "hvs (put_buckets t s ((hs_buckets (hh_stores t s))[i := b])) p = hvs t p" for p
    using assms map_update_eq [of hb_hv b "hs_buckets (hh_stores t s)" i] by (cases "p = s") simp_all
  then show ?thesis by (simp add: quiet_def)
qed

lemma quiet_used [simp]: "quiet t (write_store t s ((hh_stores t s)\<lparr>hs_used_count := n\<rparr>))"
  by (simp add: quiet_def write_store_def)

lemma write_store_sel [simp]: "hh_store_current (write_store t s st) = hh_store_current t" "hh_mmm (write_store t s st) = hh_mmm t"
  by (simp_all add: write_store_def)

text \<open>Accesses that can fail.\<close>

lemma read_store_Inr: "read_store t s = Inr st \<longleftrightarrow> allocated (hh_mmm t) s \<and> st = hh_stores t s"
proof
  assume "read_store t s = Inr st"
  then obtain h where "mmm_get_header (hh_mmm t) s = Inr h" "st = hh_stores t s" by (auto simp: read_store_def outcome_simps)
  then show "allocated (hh_mmm t) s \<and> st = hh_stores t s"
    by (auto simp: mmm_get_header_def outcome_simps allocated_def split: option.splits)
qed simp

lemma allocated_created: "allocated (hh_mmm t) s \<Longrightarrow> created t s"
  by (simp add: allocated_def created_def)

lemma or_failE:
  assumes "or_fail st x f = (st', r)"
  obtains (error) e where "x = Inl e" "st' = st" "r = Inr (Inl e)" | (ok) y where "x = Inr y" "f y = (st', r)"
  using assms by (cases x) auto

lemma or_read_storeE:
  assumes "or_fail st (read_store t s) f = (st', r)"
  obtains (error) e where "read_store t s = Inl e" "st' = st" "r = Inr (Inl e)"
    | (ok) "allocated (hh_mmm t) s" "created t s" "f (hh_stores t s) = (st', r)"
  using assms by (rule or_failE) (auto simp: read_store_Inr allocated_created)

lemma with_bucketE:
  assumes "with_bucket (t, thread) s i f = (st', r)"
  obtains (error) e where "st' = (t, thread)" "r = Inr (Inl e)"
    | (ok) "allocated (hh_mmm t) s" "created t s" "i < length (hs_buckets (hh_stores t s))"
        "f (hh_stores t s) (hs_buckets (hh_stores t s) ! i) = (st', r)"
  using assms unfolding with_bucket_def fst_conv
  by (elim or_read_storeE or_failE) (auto simp: read_at_eq_Inr)

text \<open>The memory manager keeps the addresses.\<close>

lemma mmm_cells_kept:
  "mmm_reserve m tid e = Inr m' \<Longrightarrow> length (mm_cells m') = length (mm_cells m)"
  "mmm_free_all m ps = Inr m' \<Longrightarrow> length (mm_cells m') = length (mm_cells m)"
  "mmm_retire_unused m p = Inr m' \<Longrightarrow> length (mm_cells m') = length (mm_cells m)"
proof -
  show "mmm_reserve m tid e = Inr m' \<Longrightarrow> length (mm_cells m') = length (mm_cells m)"
    by (auto simp: mmm_reserve_def split: if_splits)
  show "mmm_free_all m ps = Inr m' \<Longrightarrow> length (mm_cells m') = length (mm_cells m)"
    by (induction ps arbitrary: m) (fastforce simp: outcome_simps mmm_free_def)+
  show "mmm_retire_unused m p = Inr m' \<Longrightarrow> length (mm_cells m') = length (mm_cells m)"
    by (auto simp: mmm_retire_unused_def outcome_simps)
qed

lemma mmm_retire_cells_kept:
  assumes "mmm_retire m thread p = Inr (m', thread')"
  shows "length (mm_cells m') = length (mm_cells m)"
  using assms mmm_cells_kept(2)
  by (fastforce simp: mmm_retire_def mmm_empty_def mmm_set_header_def outcome_simps Let_def split: if_splits prod.splits)

text \<open>Probing, reserving a bucket, a new store.\<close>

lemma keys_invD:
  assumes "keys_inv t"
  shows "created t (hh_store_current t)" "created t p \<Longrightarrow> \<exists>k. keyed k (hh_stores t p)"
    "created t p \<Longrightarrow> hs_store_next (hh_stores t p) = Some n \<Longrightarrow> linked t p n"
  using assms by (auto simp: keys_inv_def linked_def)

lemma inside_0: "keys_inv t \<Longrightarrow> created t s \<Longrightarrow> inside t s 0"
  using keys_invD(2) [of t s] keyedD(5) by (fastforce simp: inside_def)

lemma inside_Suc: "keys_inv t \<Longrightarrow> inside t s i \<Longrightarrow> i < hs_last_slot (hh_stores t s) \<Longrightarrow> inside t s (Suc i)"
  using keys_invD(2) [of t s] keyedD(6) by (fastforce simp: inside_def)

lemma probing_first:
  assumes "keys_inv t" "created t s"
  shows "probes_for t s hv (hatrack_bucket_index hv (hs_last_slot (hh_stores t s))) 0"
proof -
  obtain k where k: "keyed k (hh_stores t s)" using keys_invD(2) [OF assms] by blast
  note K = keyedD [OF k]
  have "hatrack_bucket_index hv (2 ^ k - 1) = (home k hv + 0) mod 2 ^ k"
    using bucket_index_home [of k hv] home_less [of k hv] K(2) by simp
  then show ?thesis unfolding probes_for_def using assms(2) K by (intro conjI exI [of _ k]) simp_all
qed

lemma probing_next:
  assumes pr: "probes_for t s hv bix i" and b: "hb_hv (hs_buckets (hh_stores t s) ! bix) \<noteq> 0" "hb_hv (hs_buckets (hh_stores t s) ! bix) \<noteq> hv"
    and i: "i < hs_last_slot (hh_stores t s)"
  shows "probes_for t s hv (wrap64 (Suc bix) AND hs_last_slot (hh_stores t s)) (Suc i)"
proof -
  obtain k where k: "hs_last_slot (hh_stores t s) = 2 ^ k - 1" "k \<le> 58" "length (hs_buckets (hh_stores t s)) = 2 ^ k" "i < 2 ^ k"
    "bix = (home k hv + i) mod 2 ^ k"
    "\<forall>j < i. hvs t s ! ((home k hv + j) mod 2 ^ k) \<noteq> 0 \<and> hvs t s ! ((home k hv + j) mod 2 ^ k) \<noteq> hv" and c: "created t s"
    using pr unfolding probes_for_def by blast
  have bix: "bix < length (hs_buckets (hh_stores t s))" using k(3,5) by simp
  have w: "wrap64 (Suc bix) AND (2 ^ k - 1) = (home k hv + Suc i) mod 2 ^ k"
    using wrap_step [of k "home k hv" i] k(2,5) by simp
  have "hvs t s ! ((home k hv + j) mod 2 ^ k) \<noteq> 0 \<and> hvs t s ! ((home k hv + j) mod 2 ^ k) \<noteq> hv" if "j < Suc i" for j
    using that k(5,6) b bix by (cases "j = i") (auto simp: less_Suc_eq)
  then show ?thesis unfolding probes_for_def k(1) w using c k i by (intro conjI exI [of _ k]) simp_all
qed

lemma probing_inside: "probes_for t s hv bix i \<Longrightarrow> inside t s bix"
  by (auto simp: probes_for_def inside_def)

lemma take_key:
  fixes hv :: hatrack_hash
  assumes inv: "keys_inv t" and pr: "probes_for t s hv bix i" and z: "hb_hv (hs_buckets (hh_stores t s) ! bix) = 0"
  defines "t' \<equiv> put_buckets t s ((hs_buckets (hh_stores t s))[bix := (hs_buckets (hh_stores t s) ! bix)\<lparr>hb_hv := hv\<rparr>])"
  shows "grows t t'" "keys_inv t'" "hv \<noteq> 0 \<Longrightarrow> owns t' s hv bix" "inside t' s bix"
proof -
  have c: "created t s" and bix: "bix < length (hs_buckets (hh_stores t s))" using probing_inside [OF pr] by (simp_all add: inside_def)
  obtain k where k: "keyed k (hh_stores t s)" using keys_invD(2) [OF inv c] by blast
  note K = keyedD [OF k]
  have cr: "created t' p = created t p" for p by (simp add: created_def t'_def)
  have keys: "hvs t' s = (hvs t s)[bix := hv]" "p \<noteq> s \<Longrightarrow> hh_stores t' p = hh_stores t p" for p by (simp_all add: t'_def map_update)
  have "hvs t' p ! j = hvs t p ! j" if "j < length (hs_buckets (hh_stores t p))" "hvs t p ! j \<noteq> 0" for p j
    using that keys z bix by (cases "p = s"; cases "j = bix") auto
  then show g: "grows t t'" unfolding grows_def cr by (auto simp: t'_def put_buckets_def write_store_def)
  show "inside t' s bix" using grows_parts(2) [OF g probing_inside [OF pr]] .
  show "owns t' s hv bix" if "hv \<noteq> 0" using c bix cr by (simp add: owns_def keys(1)) (simp add: t'_def)
  have wf: "probe_wf k (hvs t' s)"
  proof (cases "hv = 0")
    case True
    then have "hvs t' s = hvs t s" unfolding keys(1) using z bix by (simp add: list_update_same_conv)
    then show ?thesis using K(4) by simp
  next
    case False
    obtain k' where k': "hs_last_slot (hh_stores t s) = 2 ^ k' - 1" "length (hs_buckets (hh_stores t s)) = 2 ^ k'" "i < 2 ^ k'"
      "bix = (home k' hv + i) mod 2 ^ k'"
      "\<forall>j < i. hvs t s ! ((home k' hv + j) mod 2 ^ k') \<noteq> 0 \<and> hvs t s ! ((home k' hv + j) mod 2 ^ k') \<noteq> hv"
      using pr unfolding probes_for_def by blast
    have "k' = k" using k'(2) K(5) by simp
    note k' = k' [unfolded this]
    have r: "reached k (hvs t s) bix hv" unfolding reached_def using k' by blast
    have new: "hv \<notin> set (hvs t s)"
    proof
      assume "hv \<in> set (hvs t s)"
      then obtain q where q: "q < 2 ^ k" "hvs t s ! q = hv" using K(5) by (auto simp: in_set_conv_nth)
      then obtain d where d: "d < 2 ^ k" "q = (home k hv + d) mod 2 ^ k" "\<forall>j < d. hvs t s ! ((home k hv + j) mod 2 ^ k) \<noteq> 0"
        using K(4) False unfolding probe_wf_def reached_def by metis
      consider "d < i" | "d = i" | "i < d" by linarith
      then show False using d q k'(4,5) z bix False by cases auto
    qed
    show ?thesis unfolding keys(1) by (rule probe_wf_insert [OF K(4) _ _ False new r]) (use z bix K(5) in simp_all)
  qed
  have "\<exists>k. keyed k (hh_stores t' p)" if "created t p" for p
  proof (cases "p = s")
    case True
    have "keyed k (hh_stores t' s)" using K wf by (simp add: keyed_def t'_def)
    then show ?thesis using True by blast
  qed (use keys(2) keys_invD(2) [OF inv that] in simp)
  moreover have "hs_store_next (hh_stores t' p) = hs_store_next (hh_stores t p)" "hh_store_current t' = hh_store_current t" for p
    by (simp_all add: t'_def)
  ultimately show "keys_inv t'" using inv unfolding keys_inv_def cr by auto
qed

lemma store_new_result:
  assumes k: "k \<le> 61" and new: "hihat_store_new t (2 ^ k) = (t', n)"
  obtains m st where "m = fst (mmm_alloc_committed (hh_mmm t) 0)" "n = length (mm_cells (hh_mmm t))"
    "t' = t\<lparr>hh_mmm := m, hh_stores := (hh_stores t)(n := st)\<rparr>" "length (mm_cells m) = Suc n" "hs_store_next st = None"
    "hs_last_slot st = 2 ^ k - 1" "4 \<le> k \<Longrightarrow> k \<le> 58 \<Longrightarrow> keyed k st"
proof -
  let ?len = "wrap64 (sizeof_hihat_store + wrap64 (sizeof_hihat_bucket * 2 ^ k))"
  obtain m where m: "mmm_alloc_committed (hh_mmm t) ?len = (m, length (mm_cells (hh_mmm t)))" "length (mm_cells m) = Suc (length (mm_cells (hh_mmm t)))"
    by (simp add: mmm_alloc_committed_eq)
  define st where "st = \<lparr>hs_last_slot = wrap64 (2 ^ k + 2 ^ 64 - 1), hs_threshold = hatrack_compute_table_threshold (2 ^ k), hs_used_count = 0,
    hs_store_next = None, hs_buckets = replicate ((?len - sizeof_hihat_store) div sizeof_hihat_bucket) zero_hihat_bucket\<rparr>"
  have n: "n = length (mm_cells (hh_mmm t))" "t' = t\<lparr>hh_mmm := m, hh_stores := (hh_stores t)(n := st)\<rparr>"
    using new m(1) by (auto simp: hihat_store_new_def Let_def st_def)
  have m0: "m = fst (mmm_alloc_committed (hh_mmm t) 0)" using m(1) by (simp add: mmm_alloc_committed_eq)
  have p61: "(2::nat) ^ k \<le> 2 ^ 61" using k by (intro power_increasing) simp_all
  have last: "hs_last_slot st = 2 ^ k - 1" using p61 wrap64_pred [of "2 ^ k"] by (simp add: st_def)
  have "keyed k st" if "4 \<le> k" "k \<le> 58"
  proof -
    have "(2::nat) ^ k \<le> 2 ^ 58" using that by (intro power_increasing) simp_all
    then have "?len = 32 + 32 * 2 ^ k" by (simp add: sizeof_hihat_store_def sizeof_hihat_bucket_def wrap64_id)
    then have "hs_buckets st = replicate (2 ^ k) zero_hihat_bucket"
      unfolding st_def by (simp add: sizeof_hihat_store_def sizeof_hihat_bucket_def)
    then show ?thesis using last that probe_wf_empty [of k] by (simp add: keyed_def zero_hihat_bucket_def)
  qed
  then show ?thesis using that [OF m0 n] m(2) n(1) last by (simp add: st_def)
qed

lemma alloc_store:
  assumes inv: "keys_inv t" and k: "4 \<le> k" "k \<le> 61" and new: "hihat_store_new t (2 ^ k) = (t', n)" and b: "bounded_stores t'"
  shows "grows t t'" "keys_inv t'" "created t' n"
proof -
  obtain m st where n: "n = length (mm_cells (hh_mmm t))" "t' = t\<lparr>hh_mmm := m, hh_stores := (hh_stores t)(n := st)\<rparr>"
    "length (mm_cells m) = Suc n" "hs_store_next st = None" "hs_last_slot st = 2 ^ k - 1" "4 \<le> k \<Longrightarrow> k \<le> 58 \<Longrightarrow> keyed k st"
    using store_new_result [OF k(2) new] by metis
  have cr: "created t' p \<longleftrightarrow> created t p \<or> p = n" for p using n by (auto simp: created_def)
  then show c: "created t' n" by simp
  have ne: "p \<noteq> n" if "created t p" for p using that n(1) by (auto simp: created_def)
  have "(2::nat) ^ k - 1 < 2 ^ 58" using b c n(2,5) unfolding bounded_stores_def by fastforce
  then have "(2::nat) ^ k < 2 ^ 59" by simp
  then have "k \<le> 58" using power_less_imp_less_exp [of "2::nat" k 59] by simp
  then have "keyed k st" using n(6) k(1) by simp
  then show "keys_inv t'" using inv cr n(2,4) ne by (auto simp: keys_inv_def)
  show "grows t t'" using cr n(2) ne by (simp add: grows_def)
qed

lemma new_size_power:
  assumes "4 \<le> k" "k \<le> 58"
  shows "\<exists>k'. 4 \<le> k' \<and> k' \<le> 61 \<and> hatrack_new_size (2 ^ k - 1) used = 2 ^ k'"
proof -
  obtain m where m: "k = m + 2" using assms(1) le_Suc_ex [of 2 k] by auto
  have p: "(2::nat) ^ k \<le> 2 ^ 58" using assms(2) by (intro power_increasing) simp_all
  have sz: "wrap64 (2 ^ k - 1 + 1) = 2 ^ k" "wrap64 (2 * 2 ^ k) = 2 ^ (k + 1)" using p by (simp_all add: wrap64_id)
  have new: "hatrack_new_size (2 ^ k - 1) used = (if 2 ^ (k - 1) \<le> used then 2 ^ (k + 1) else if used \<le> 64 then 2 ^ 7
      else if used \<le> 2 ^ (k - 2) then 2 ^ (k - 1) else 2 ^ k)"
    using sz m by (simp add: hatrack_new_size_def Let_def drop_bit_eq_div push_bit_eq_mult HATRACK_MIN_SIZE_def HATRACK_MIN_SIZE_LOG_def)
  show ?thesis
  proof (cases "2 ^ (k - 1) \<le> used \<or> used \<le> 64 \<or> 2 ^ (k - 2) < used")
    case True
    then show ?thesis unfolding new using assms by (auto intro: exI [of _ "k + 1"] exI [of _ 7] exI [of _ k])
  next
    case False
    then have "64 < (2::nat) ^ (k - 2)" by linarith
    then have "(2::nat) ^ 6 < 2 ^ (k - 2)" by simp
    then have "6 < k - 2" by (rule power_less_imp_less_exp [rotated]) simp
    then show ?thesis unfolding new using False assms by (intro exI [of _ "k - 1"]) auto
  qed
qed

section \<open>Steps keep the hash values\<close>

definition keeps_keys :: "hihat \<Rightarrow> hihat \<Rightarrow> bool" where
  "keeps_keys t t' \<longleftrightarrow> grows t t' \<and> keys_inv t'"

lemma keeps_quiet: "quiet t t' \<Longrightarrow> hh_store_current t' = hh_store_current t \<Longrightarrow> keys_inv t \<Longrightarrow> keeps_keys t t'"
  by (simp add: keeps_keys_def quiet_grows quiet_same)

lemma link_store:
  assumes inv: "keys_inv t" and s: "created t s" "hs_store_next (hh_stores t s) = None" and c: "created t c"
  defines "t' \<equiv> write_store t s ((hh_stores t s)\<lparr>hs_store_next := Some c\<rparr>)"
  shows "keeps_keys t t'" "linked t' s c"
proof -
  have cr: "created t' p = created t p" for p by (simp add: created_def t'_def)
  show "linked t' s c" using s(1) c by (simp add: linked_def cr) (simp add: t'_def write_store_def)
  have "grows t t'" unfolding grows_def cr using s(2) by (auto simp: t'_def write_store_def)
  moreover have "keys_inv t'" using inv c unfolding keys_inv_def cr by (auto simp: t'_def write_store_def keyed_def split: if_splits)
  ultimately show "keeps_keys t t'" by (simp add: keeps_keys_def)
qed

lemma next_size:
  assumes inv: "keys_inv t" and s: "created t s"
  shows "\<exists>k. 4 \<le> k \<and> k \<le> 61 \<and> hatrack_new_size (hs_last_slot (hh_stores t s)) used = 2 ^ k"
    "\<exists>k. 4 \<le> k \<and> k \<le> 61 \<and> wrap64 (2 * (hs_last_slot (hh_stores t s) + 1)) = 2 ^ k"
proof -
  obtain k where "keyed k (hh_stores t s)" using keys_invD(2) [OF inv s] by blast
  note K = keyedD [OF this]
  show "\<exists>k. 4 \<le> k \<and> k \<le> 61 \<and> hatrack_new_size (hs_last_slot (hh_stores t s)) used = 2 ^ k"
    using new_size_power [OF K(1,2)] K(3) by simp
  have "(2::nat) ^ (k + 1) \<le> 2 ^ 59" using K(2) by (intro power_increasing) simp_all
  then have "wrap64 (2 * (hs_last_slot (hh_stores t s) + 1)) = 2 ^ (k + 1)" using K(3) by (simp add: wrap64_id)
  then show "\<exists>k. 4 \<le> k \<and> k \<le> 61 \<and> wrap64 (2 * (hs_last_slot (hh_stores t s) + 1)) = 2 ^ k" using K(1,2) by (intro exI [of _ "k + 1"]) simp
qed

lemma linked_move: "keys_inv t \<Longrightarrow> linked t s n \<Longrightarrow> migrate_keys t (move_start v s n used)"
  using inside_0 by (simp add: move_start_def) (simp add: linked_def)

text \<open>A step of a migration, with the two kinds of step that write hash values and links set apart.\<close>

definition migrate_kept :: "hihat \<Rightarrow> hihat_state \<times> (migrate_pc + nat outcome) \<Rightarrow> bool" where
  "migrate_kept t x \<longleftrightarrow> (let (st, r) = x in keeps_keys t (fst st) \<and>
     (\<forall>pc. r = Inl pc \<longrightarrow> migrate_keys (fst st) pc) \<and> (\<forall>s. r = Inr (Inr s) \<longrightarrow> created (fst st) s))"

lemma kept_same: "keys_inv t \<Longrightarrow> migrate_kept t ((t, thread), Inl pc) \<longleftrightarrow> migrate_keys t pc"
  by (simp add: migrate_kept_def keeps_quiet)

lemma kept_fail: "keys_inv t \<Longrightarrow> migrate_kept t ((t, thread), Inr (Inl e))"
  by (simp add: migrate_kept_def keeps_quiet)

lemma kept_quiet:
  assumes "keys_inv t" "quiet t t'" "hh_store_current t' = hh_store_current t" "migrate_keys t pc"
  shows "migrate_kept t ((t', thread), Inl pc)"
  using assms migrate_keys_grows [OF quiet_grows [OF assms(2)]] by (simp add: migrate_kept_def keeps_quiet)

lemma kept_read:
  assumes "keys_inv t" "\<lbrakk>allocated (hh_mmm t) s; created t s\<rbrakk> \<Longrightarrow> migrate_kept t (f (hh_stores t s))"
  shows "migrate_kept t (or_fail (t, thread) (read_store t s) f)"
proof -
  obtain st r where x: "or_fail (t, thread) (read_store t s) f = (st, r)" by fastforce
  then show ?thesis by (rule or_read_storeE) (use assms x kept_fail in auto)
qed

lemma kept_bucket:
  assumes "keys_inv t" "\<lbrakk>allocated (hh_mmm t) s; inside t s i\<rbrakk> \<Longrightarrow> migrate_kept t (f (hh_stores t s) (hs_buckets (hh_stores t s) ! i))"
  shows "migrate_kept t (with_bucket (t, thread) s i f)"
proof -
  obtain st r where x: "with_bucket (t, thread) s i f = (st, r)" by fastforce
  then show ?thesis by (rule with_bucketE) (use assms x kept_fail in \<open>auto simp: inside_def\<close>)
qed

lemma mark_next_keys: "keys_inv t \<Longrightarrow> inside t s i \<Longrightarrow> migrate_keys t (mark_next (hh_stores t s) s i used)"
  using inside_Suc by (simp add: mark_next_def) (simp add: inside_def)

lemma move_next_keys: "keys_inv t \<Longrightarrow> linked t s n \<Longrightarrow> inside t s i \<Longrightarrow> migrate_keys t (move_next (hh_stores t s) s n i used)"
  using inside_Suc by (simp add: move_next_def)

lemma place_next_keys:
  assumes "linked t s n" "inside t s i" "probes_for t n hv bix j" "hb_hv (hs_buckets (hh_stores t n) ! bix) \<noteq> 0"
    "hb_hv (hs_buckets (hh_stores t n) ! bix) \<noteq> hv"
  shows "migrate_keys t (place_next (hh_stores t n) s n i used record hv bix j)"
  using assms probing_next [OF assms(3-5)] probing_inside [OF assms(3)] by (simp add: place_next_def)

lemma migrate_step_keys:
  assumes inv: "keys_inv t" and pc: "migrate_keys t pc" and b: "bounded_stores (fst (fst (hihat_store_migrate_step v pc (t, thread))))"
  shows "migrate_kept t (hihat_store_migrate_step v pc (t, thread))"
proof (cases pc)
  case (MStart s)
  then show ?thesis using inv pc inside_0 [OF inv] by (simp add: migrate_kept_def keeps_quiet keys_invD(1))
next
  case (MSleep s)
  then show ?thesis using inv pc inside_0 [OF inv] by (auto intro!: kept_read simp: kept_same)
next
  case (MAwake s again)
  then show ?thesis using inv pc keys_invD(3) [OF inv] by (auto intro!: kept_read simp: kept_same)
next
  case (MCheck s again n)
  then obtain p where p: "n = Some p" "linked t s p" using pc by (auto split: option.splits)
  then show ?thesis using MCheck inv linked_move [OF inv p(2)] by (auto simp: migrate_kept_def keeps_quiet linked_def)
next
  case (MMark s i used)
  then show ?thesis using inv pc mark_next_keys [OF inv] by (auto intro!: kept_bucket simp: kept_same)
next
  case (MMarkSet s i used)
  then show ?thesis using inv by (auto intro!: kept_bucket kept_quiet simp: inside_def)
next
  case (MMarkRead s i used)
  then show ?thesis using inv pc mark_next_keys [OF inv] by (auto intro!: kept_bucket simp: kept_same)
next
  case (MMarkMoved s i used)
  then show ?thesis using inv mark_next_keys [OF inv] by (auto intro!: kept_bucket kept_quiet simp: inside_def)
next
  case (MNext s used)
  then show ?thesis using inv pc keys_invD(3) [OF inv] linked_move [OF inv] next_size(1) [OF inv]
    by (auto intro!: kept_read simp: kept_same split: option.splits)
next
  case (MSize s used)
  then show ?thesis using inv next_size [OF inv] by (auto intro!: kept_read simp: kept_same)
next
  case (MAlloc s used new_size)
  then obtain k where k: "4 \<le> k" "k \<le> 61" "new_size = 2 ^ k" and s: "created t s" using pc by auto
  obtain t' n where new: "hihat_store_new t (2 ^ k) = (t', n)" by fastforce
  have "bounded_stores t'" using b new MAlloc k(3) by simp
  note A = alloc_store [OF inv k(1,2) new this]
  show ?thesis using MAlloc k(3) new A s grows_parts(1) [OF A(1)] by (simp add: migrate_kept_def keeps_keys_def)
next
  case (MLink s used c)
  then have c: "created t c" using pc by simp
  show ?thesis unfolding MLink hihat_store_migrate_step.simps
  proof (rule kept_read [OF inv])
    assume s: "allocated (hh_mmm t) s" "created t s"
    show "migrate_kept t (case hs_store_next (hh_stores t s) of
         None \<Rightarrow> ((write_store t s ((hh_stores t s)\<lparr>hs_store_next := Some c\<rparr>), thread), Inl (move_start v s c used))
       | Some n \<Rightarrow> ((t, thread), Inl (MDiscard s n used c)))"
    proof (cases "hs_store_next (hh_stores t s)")
      case None
      note L = link_store [OF inv s(2) None c]
      then show ?thesis using None linked_move [OF _ L(2)] by (simp add: migrate_kept_def keeps_keys_def)
    next
      case (Some n)
      then show ?thesis using keys_invD(3) [OF inv s(2) Some] inv by (simp add: kept_same)
    qed
  qed
next
  case (MDiscard s n used c)
  then show ?thesis using inv pc linked_move [OF inv] mmm_cells_kept(3) [of "hh_mmm t" c]
    by (cases "mmm_retire_unused (hh_mmm t) c") (auto intro!: kept_quiet simp: kept_fail)
next
  case (MMove s n i used)
  then show ?thesis using inv pc move_next_keys [OF inv] by (auto intro!: kept_bucket simp: kept_same Let_def)
next
  case (MHash s n i used rcd)
  then show ?thesis using inv pc probing_first [OF inv] by (auto intro!: kept_bucket kept_read simp: kept_same)
next
  case (MProbe s n i used rcd hv bix j)
  then show ?thesis using inv pc place_next_keys [of t s n i hv bix j] probing_inside by (auto intro!: kept_bucket simp: kept_same)
next
  case (MTake s n i used rcd hv bix j)
  then have m: "linked t s n" "inside t s i" "probes_for t n hv bix j" using pc by simp_all
  show ?thesis unfolding MTake hihat_store_migrate_step.simps
  proof (rule kept_bucket [OF inv])
    let ?b = "hs_buckets (hh_stores t n) ! bix"
    show "migrate_kept t (if hb_hv ?b = 0
       then (set_bucket (t, thread) n bix (?b\<lparr>hb_hv := hv\<rparr>), Inl (MCopy s n i used rcd bix))
       else ((t, thread), Inl (if hatrack_hashes_eq (hb_hv ?b) hv then MCopy s n i used rcd bix
                  else place_next (hh_stores t n) s n i used rcd hv bix j)))"
    proof (cases "hb_hv ?b = 0")
      case True
      note T = take_key [OF inv m(3) True]
      then show ?thesis using True grows_parts(2) [OF T(1) m(2)] grows_parts(3) [OF T(1) m(1)] by (simp add: migrate_kept_def keeps_keys_def)
    next
      case False
      then show ?thesis using inv m probing_inside [OF m(3)] place_next_keys [OF m False] by (simp add: kept_same)
    qed
  qed
next
  case (MCopy s n i used rcd bix)
  then show ?thesis using inv pc by (auto intro!: kept_bucket kept_quiet simp: Let_def inside_def)
next
  case (MFinish s n i used)
  then show ?thesis using inv pc move_next_keys [OF inv] by (auto intro!: kept_bucket kept_quiet simp: inside_def)
next
  case (MUsed s n used)
  then show ?thesis using inv pc by (auto intro!: kept_read kept_quiet)
next
  case (MInstall s n)
  then show ?thesis using inv pc quiet_inv [OF _ inv, of "t\<lparr>hh_store_current := n\<rparr>"] quiet_grows [of t "t\<lparr>hh_store_current := n\<rparr>"]
    by (auto simp: migrate_kept_def keeps_quiet linked_def keeps_keys_def) (simp add: created_def)
next
  case (MRetire s)
  then show ?thesis using inv mmm_retire_cells_kept [of "hh_mmm t" thread s]
    by (cases "mmm_retire (hh_mmm t) thread s") (auto intro!: kept_quiet simp: kept_fail)
next
  case MReturn
  then show ?thesis using inv by (simp add: migrate_kept_def keeps_quiet keys_invD(1))
qed

definition op_kept :: "hihat \<Rightarrow> hatrack_hash \<Rightarrow> hihat_state \<times> (hihat_pc + (ptr \<times> bool) outcome) \<Rightarrow> bool" where
  "op_kept t hv x \<longleftrightarrow> keeps_keys t (fst (fst x)) \<and> (\<forall>pc. snd x = Inl pc \<longrightarrow> pc_keys (fst (fst x)) hv pc)"

lemma op_same: "keys_inv t \<Longrightarrow> op_kept t hv ((t, thread), Inl pc) \<longleftrightarrow> pc_keys t hv pc"
  by (simp add: op_kept_def keeps_quiet)

lemma op_fail: "keys_inv t \<Longrightarrow> op_kept t hv ((t, thread), Inr r)"
  by (simp add: op_kept_def keeps_quiet)

lemma op_quiet:
  assumes "keys_inv t" "quiet t t'" "hh_store_current t' = hh_store_current t" "hv \<noteq> 0" "\<And>pc. r = Inl pc \<Longrightarrow> pc_keys t hv pc"
  shows "op_kept t hv ((t', thread), r)"
  using assms pc_keys_grows [OF quiet_grows [OF assms(2)] assms(4)] by (simp add: op_kept_def keeps_quiet)

lemma op_read:
  assumes "keys_inv t" "\<lbrakk>allocated (hh_mmm t) s; created t s\<rbrakk> \<Longrightarrow> op_kept t hv (f (hh_stores t s))"
  shows "op_kept t hv (or_fail (t, thread) (read_store t s) f)"
proof -
  obtain st r where x: "or_fail (t, thread) (read_store t s) f = (st, r)" by fastforce
  then show ?thesis by (rule or_read_storeE) (use assms x op_fail in auto)
qed

lemma op_bucket:
  assumes "keys_inv t" "\<lbrakk>allocated (hh_mmm t) s; inside t s i\<rbrakk> \<Longrightarrow> op_kept t hv (f (hh_stores t s) (hs_buckets (hh_stores t s) ! i))"
  shows "op_kept t hv (with_bucket (t, thread) s i f)"
proof -
  obtain st r where x: "with_bucket (t, thread) s i f = (st, r)" by fastforce
  then show ?thesis by (rule with_bucketE) (use assms x op_fail in \<open>auto simp: inside_def\<close>)
qed

lemma return_keys [simp]: "pc_keys t hv (hihat_return v r res)"
  by (simp add: hihat_return_def)

lemma retry_keys [simp]: "pc_keys t hv (migrate_and_retry v s r) = created t s"
  by (simp add: migrate_and_retry_def Let_def)

lemma call_keys:
  assumes "migrate_kept t x" "\<And>pc. pc_keys (fst (fst x)) hv (at pc) = migrate_keys (fst (fst x)) pc"
    "\<And>s. created (fst (fst x)) s \<Longrightarrow> pc_keys (fst (fst x)) hv (back s)"
  shows "op_kept t hv (call_step at back x)"
  using assms by (cases x; cases "snd x") (auto simp: migrate_kept_def op_kept_def call_step_def split: sum.splits)

lemma call_step_table: "fst (call_step at back x) = fst x"
  by (auto simp: call_step_def split: prod.splits sum.splits)

lemma common_step_keys:
  assumes inv: "keys_inv t" and pc: "pc_keys t hv pc" and h: "hv \<noteq> 0"
    and b: "bounded_stores (fst (fst (hihat_common_step v pc (t, thread))))"
  shows "op_kept t hv (hihat_common_step v pc (t, thread))"
proof (cases pc)
  case HBegin
  then show ?thesis using inv h mmm_cells_kept(1)
    by (cases "mmm_start_basic_op (hh_mmm t) thread") (auto intro!: op_quiet simp: op_fail mmm_start_basic_op_def)
next
  case (HLeave res)
  then show ?thesis using inv h mmm_cells_kept(1)
    by (cases "mmm_end_op (hh_mmm t) thread") (auto intro!: op_quiet simp: op_fail mmm_end_op_def)
next
  case (HMigrate r q)
  then have "migrate_kept t (hihat_store_migrate_step v q (t, thread))"
    using inv pc b by (intro migrate_step_keys) (simp_all add: call_step_table)
  then show ?thesis unfolding HMigrate by (simp add: call_keys)
next
  case (HTidy r res q)
  then have "migrate_kept t (hihat_store_migrate_step v q (t, thread))"
    using inv pc b by (intro migrate_step_keys) (simp_all add: call_step_table)
  then show ?thesis unfolding HTidy by (simp add: call_keys)
qed (use inv pc h in \<open>auto intro!: op_read op_quiet simp: op_same op_fail keys_invD(1)\<close>)

lemma first_keys: "keys_inv t \<Longrightarrow> op_kept t hv (hihat_first hv s r (t, thread))"
  using probing_first by (auto intro!: op_read simp: hihat_first_def op_same)

lemma probe_next_keys:
  assumes "probes_for t s hv bix i" "hb_hv (hs_buckets (hh_stores t s) ! bix) \<noteq> 0"
    "hb_hv (hs_buckets (hh_stores t s) ! bix) \<noteq> hv" "pc_keys t hv pc"
  shows "pc_keys t hv (probe_next (hh_stores t s) s r bix i pc)"
  using assms probing_next [OF assms(1-3)] by (simp add: probe_next_def)

lemma inside_created: "inside t s i \<Longrightarrow> created t s"
  by (simp add: inside_def)

lemma owns_inside: "inside t s i \<Longrightarrow> hb_hv (hs_buckets (hh_stores t s) ! i) = hv \<Longrightarrow> owns t s hv i" "owns t s hv i \<Longrightarrow> created t s"
  by (simp_all add: owns_def inside_def)

lemma probe_step_keys:
  assumes inv: "keys_inv t" and pr: "probes_for t s hv bix i" and v: "probes_for t s hv bix i \<Longrightarrow> pc_keys t hv pv" "created t s \<Longrightarrow> pc_keys t hv pn"
  shows "op_kept t hv (with_bucket (t, thread) s bix (\<lambda>store bucket.
    ((t, thread), Inl (if hatrack_bucket_unreserved (hb_hv bucket) then pv
                 else if hatrack_hashes_eq hv (hb_hv bucket) then HRecord s r bix
                 else probe_next store s r bix i pn))))"
  by (rule op_bucket [OF inv])
    (use inv pr v probe_next_keys [OF pr] owns_inside(1) inside_created in \<open>auto simp: op_same\<close>)

lemma reserve_step_keys:
  assumes inv: "keys_inv t" and pc: "pc_keys t hv pc" and h: "hv \<noteq> 0"
    and b: "bounded_stores (fst (fst (hihat_reserve_step v hv pc (t, thread))))"
  shows "op_kept t hv (hihat_reserve_step v hv pc (t, thread))"
proof (cases pc)
  case (HFirst s r)
  then show ?thesis using first_keys [OF inv] by simp
next
  case (HProbe s r bix i)
  then show ?thesis unfolding HProbe hihat_reserve_step.simps by (intro probe_step_keys [OF inv]) (use pc HProbe in simp_all)
next
  case (HAcquire s r bix i)
  then have pr: "probes_for t s hv bix i" using pc by simp
  show ?thesis unfolding HAcquire hihat_reserve_step.simps
  proof (rule op_bucket [OF inv])
    assume i: "inside t s bix"
    let ?b = "hs_buckets (hh_stores t s) ! bix"
    show "op_kept t hv (if hb_hv ?b = 0 then (set_bucket (t, thread) s bix (?b\<lparr>hb_hv := hv\<rparr>), Inl (HUsed s r bix))
       else ((t, thread), Inl (if hatrack_hashes_eq hv (hb_hv ?b) then HRecord s r bix
                      else probe_next (hh_stores t s) s r bix i (migrate_and_retry v s r))))"
    proof (cases "hb_hv ?b = 0")
      case True
      note T = take_key [OF inv pr True]
      then show ?thesis using True h by (simp add: op_kept_def keeps_keys_def)
    next
      case False
      then show ?thesis using inv i owns_inside(1) [OF i] probe_next_keys [OF pr False] inside_created [OF i] by (auto simp: op_same)
    qed
  qed
next
  case (HUsed s r bix)
  then show ?thesis using inv pc h by (auto intro!: op_read op_quiet simp: owns_inside(2))
qed (use common_step_keys [OF inv pc h] b in simp_all)

lemma find_step_keys:
  assumes inv: "keys_inv t" and pc: "pc_keys t hv pc" and h: "hv \<noteq> 0"
    and b: "bounded_stores (fst (fst (hihat_find_step v hv pc (t, thread))))"
  shows "op_kept t hv (hihat_find_step v hv pc (t, thread))"
proof (cases pc)
  case (HFirst s r)
  then show ?thesis using first_keys [OF inv] by simp
next
  case (HProbe s r bix i)
  then show ?thesis unfolding HProbe hihat_find_step.simps by (intro probe_step_keys [OF inv]) (use pc HProbe in simp_all)
qed (use common_step_keys [OF inv pc h] b in simp_all)

lemma op_step_keys:
  assumes inv: "keys_inv t" and pc: "pc_keys t (op_key c) pc" and h: "op_key c \<noteq> 0"
    and b: "bounded_stores (fst (fst (op_step v c pc (t, thread))))"
  shows "op_kept t (op_key c) (op_step v c pc (t, thread))"
proof (cases c)
  case (OpGet hv)
  show ?thesis
  proof (cases pc)
    case (HFirst s r)
    then show ?thesis using OpGet first_keys [OF inv] by simp
  next
    case (HProbe s r bix i)
    show ?thesis unfolding HProbe OpGet op_step.simps hihat_get_step.simps op_key.simps
      by (intro probe_step_keys [OF inv]) (use pc HProbe OpGet in simp_all)
  next
    case (HRecord s r bix)
    then show ?thesis using OpGet inv by (auto intro!: op_bucket simp: op_same)
  qed (use common_step_keys [OF inv pc h] b OpGet in simp_all)
next
  case (OpPut hv item)
  then show ?thesis
    using reserve_step_keys [OF inv pc h] b inv pc h
    by (cases pc) (auto intro!: op_bucket op_quiet simp: op_same Let_def owns_inside(2) inside_def split: if_splits)
next
  case (OpReplace hv item)
  then show ?thesis
    using find_step_keys [OF inv pc h] b inv pc h
    by (cases pc) (auto intro!: op_bucket op_quiet simp: op_same Let_def owns_inside(2) inside_def split: if_splits)
next
  case (OpAdd hv item)
  then show ?thesis
    using reserve_step_keys [OF inv pc h] b inv pc h
    by (cases pc) (auto intro!: op_bucket op_quiet simp: op_same Let_def owns_inside(2) inside_def split: if_splits)
next
  case (OpRemove hv)
  then show ?thesis
    using find_step_keys [OF inv pc h] b inv pc h
    by (cases pc) (auto intro!: op_bucket op_quiet simp: op_same Let_def owns_inside(2) inside_def split: if_splits)
qed

lemma view_step_keys:
  assumes inv: "keys_inv t" and pc: "view_keys t pc"
  shows "keeps_keys t (fst (fst (hihat_view_step srt pc (t, thread))))"
    "snd (hihat_view_step srt pc (t, thread)) = Inl pc' \<Longrightarrow> view_keys (fst (fst (hihat_view_step srt pc (t, thread)))) pc'"
proof -
  let ?x = "hihat_view_step srt pc (t, thread)"
  have "keeps_keys t (fst (fst ?x)) \<and> (\<forall>pc'. snd ?x = Inl pc' \<longrightarrow> view_keys (fst (fst ?x)) pc')"
  proof (cases pc)
    case WBegin
    then show ?thesis using inv mmm_cells_kept(1)
      by (cases "mmm_start_basic_op (hh_mmm t) thread") (auto intro!: keeps_quiet simp: mmm_start_basic_op_def)
  next
    case WCurrent
    then show ?thesis using inv inside_0 [OF inv keys_invD(1) [OF inv]] by (auto intro!: keeps_quiet)
  next
    case (WRead s i view)
    obtain st r where x: "?x = (st, r)" by fastforce
    then have "st = (t, thread) \<and> (\<forall>pc'. r = Inl pc' \<longrightarrow> view_keys t pc')"
      using inside_Suc [OF inv, of s i] pc unfolding WRead hihat_view_step.simps
      by (elim with_bucketE) (auto simp: Let_def split: if_splits)
    with x inv show ?thesis by (auto intro!: keeps_quiet)
  next
    case (WLeave view)
    then show ?thesis using inv mmm_cells_kept(1)
      by (cases "mmm_end_op (hh_mmm t) thread") (auto intro!: keeps_quiet simp: mmm_end_op_def)
  qed
  then show "keeps_keys t (fst (fst ?x))" "snd ?x = Inl pc' \<Longrightarrow> view_keys (fst (fst ?x)) pc'" by blast+
qed

text \<open>The invariant of the system, and its preservation.\<close>

fun thread_keys :: "hihat \<Rightarrow> hihat_thread \<Rightarrow> bool" where
  "thread_keys t (InOp c pc) = (op_key c \<noteq> 0 \<and> pc_keys t (op_key c) pc)"
| "thread_keys t (InView srt pc) = view_keys t pc"
| "thread_keys t th = True"

definition system_keys :: "hihat_system \<Rightarrow> bool" where
  "system_keys g \<longleftrightarrow> keys_inv (sy_table g) \<and> (\<forall>(m, th) \<in> set (sy_threads g). thread_keys (sy_table g) th)"

lemma thread_keys_grows: "grows t t' \<Longrightarrow> thread_keys t th \<Longrightarrow> thread_keys t' th"
  by (cases th) (auto dest: pc_keys_grows view_keys_grows)

lemma thread_keys_after: "(\<And>pc. r = Inl pc \<Longrightarrow> thread_keys t (at pc)) \<Longrightarrow> thread_keys t (after_step at r)"
  by (cases "(at, r)" rule: after_step.cases) auto

lemma system_keys_update:
  assumes g: "system_keys g" and k: "keeps_keys (sy_table g) t'" and th: "thread_keys t' th"
  shows "system_keys (set_hthread g i (t', m) th)"
  using assms thread_keys_grows [of "sy_table g" t'] set_update_subset_insert [of "sy_threads g" i "(m, th)"]
  by (fastforce simp: system_keys_def set_hthread_def keeps_keys_def)

lemma system_step_keys:
  assumes step: "hihat_system_step v g g'" and g: "system_keys g" and b: "memory_suffices (sy_table g')"
  shows "system_keys g' \<and> grows (sy_table g) (sy_table g')"
  using step
proof cases
  case (call i m c)
  have "keeps_keys (sy_table g) (sy_table g)" using g by (simp add: keeps_quiet system_keys_def)
  from system_keys_update [OF g this, of "InOp c HBegin" i m] show ?thesis using call by simp (simp add: set_hthread_def)
next
  case (call_view i m srt)
  have "keeps_keys (sy_table g) (sy_table g)" using g by (simp add: keeps_quiet system_keys_def)
  from system_keys_update [OF g this, of "InView srt WBegin" i m] show ?thesis using call_view by simp (simp add: set_hthread_def)
next
  case (step i m c pc st r)
  obtain t' m' where st: "st = (t', m')" by fastforce
  have th: "op_key c \<noteq> 0" "pc_keys (sy_table g) (op_key c) pc" "keys_inv (sy_table g)"
    using g nth_mem [OF step(2)] step(3) by (fastforce simp: system_keys_def)+
  have b': "bounded_stores (fst (fst (op_step v c pc (sy_table g, m))))"
    using b step(1,4) st by (simp add: memory_suffices_def set_hthread_def)
  have "op_kept (sy_table g) (op_key c) ((t', m'), r)" using op_step_keys [OF th(3,2,1) b'] step(4) st by simp
  then have k: "keeps_keys (sy_table g) t'" "thread_keys t' (after_step (InOp c) r)"
    using th(1) by (auto simp: op_kept_def intro!: thread_keys_after)
  then show ?thesis using system_keys_update [OF g k] step(1) st by (simp add: keeps_keys_def) (simp add: set_hthread_def)
next
  case (step_view i m srt pc st r)
  obtain t' m' where st: "st = (t', m')" by fastforce
  have th: "view_keys (sy_table g) pc" "keys_inv (sy_table g)"
    using g nth_mem [OF step_view(2)] step_view(3) by (fastforce simp: system_keys_def)+
  have k: "keeps_keys (sy_table g) t'" "thread_keys t' (after_step (InView srt) r)"
    using view_step_keys [OF th(2,1), of srt m] step_view(4) st by (auto intro!: thread_keys_after)
  then show ?thesis using system_keys_update [OF g k] step_view(1) st by (simp add: keeps_keys_def) (simp add: set_hthread_def)
qed


text \<open>
  A new table and threads that have their ids and nothing else. \<open>stores\<close> and \<open>help_needed\<close> are what the table's memory held before.
\<close>

definition hihat_start :: "variant \<Rightarrow> (nat \<Rightarrow> hihat_store) \<Rightarrow> nat \<Rightarrow> int \<Rightarrow> nat \<Rightarrow> hihat_system outcome" where
  "hihat_start v stores help_needed sz n =
     map_sum id (\<lambda>t. \<lparr>sy_table = t,
         sy_threads = map (\<lambda>i. (\<lparr>mt_tid = i, mt_retire_ctr = 0, mt_retire_list = [], mt_initialized = True\<rparr>, Between)) [0..<n]\<rparr>)
       (hihat_new_size v stores help_needed
          (mmm_start\<lparr>mm_nexttid := n,
             mm_reservations := replicate n HATRACK_EPOCH_UNRESERVED @ replicate (HATRACK_THREADS_MAX - n) 0\<rparr>) sz)"

lemma hihat_startE:
  assumes "hihat_start v stores help_needed sz n = Inr g"
  obtains k st where "4 \<le> k" "k \<le> 58" "keyed k st" "hs_store_next st = None" "hh_store_current (sy_table g) = 0"
    "hh_stores (sy_table g) 0 = st"
    "hh_mmm (sy_table g) = fst (mmm_alloc_committed (mmm_start\<lparr>mm_nexttid := n,
       mm_reservations := replicate n HATRACK_EPOCH_UNRESERVED @ replicate (HATRACK_THREADS_MAX - n) 0\<rparr>) 0)"
    "sy_threads g = map (\<lambda>i. (\<lparr>mt_tid = i, mt_retire_ctr = 0, mt_retire_list = [], mt_initialized = True\<rparr>, Between)) [0..<n]"
proof -
  let ?m = "mmm_start\<lparr>mm_nexttid := n, mm_reservations := replicate n HATRACK_EPOCH_UNRESERVED @ replicate (HATRACK_THREADS_MAX - n) 0\<rparr>"
  let ?t = "\<lparr>hh_store_current = 0, hh_item_count = 0, hh_help_needed = help_needed, hh_next_epoch = 1, hh_stores = stores, hh_mmm = ?m\<rparr>"
  obtain t' p where new: "hihat_store_new ?t (2 ^ nat sz) = (t', p)" by fastforce
  have sz: "int HATRACK_MIN_SIZE_LOG \<le> sz" "sz < 31" and g: "g = \<lparr>sy_table = t'\<lparr>hh_store_current := p\<rparr>,
      sy_threads = map (\<lambda>i. (\<lparr>mt_tid = i, mt_retire_ctr = 0, mt_retire_list = [], mt_initialized = True\<rparr>, Between)) [0..<n]\<rparr>"
    using assms new by (auto simp: hihat_start_def hihat_new_size_def hihat_init_size_def Let_def push_bit_eq_mult split: if_splits)
  have k: "4 \<le> nat sz" "nat sz \<le> 58" "nat sz \<le> 61" using sz by (auto simp: HATRACK_MIN_SIZE_LOG_def)
  obtain m st where "m = fst (mmm_alloc_committed ?m 0)" "p = length (mm_cells ?m)" "t' = ?t\<lparr>hh_mmm := m, hh_stores := stores(p := st)\<rparr>"
    "hs_store_next st = None" "keyed (nat sz) st"
    using store_new_result [OF k(3) new] k by fastforce
  then show ?thesis using that [OF k(1,2), of st] g by (simp add: mmm_start_def)
qed

lemma hihat_start_keys:
  assumes "hihat_start v stores help_needed sz n = Inr g"
  shows "system_keys g"
proof -
  obtain k st where st: "keyed k st" "hs_store_next st = None" "hh_store_current (sy_table g) = 0" "hh_stores (sy_table g) 0 = st"
    and m: "hh_mmm (sy_table g) = fst (mmm_alloc_committed (mmm_start\<lparr>mm_nexttid := n,
       mm_reservations := replicate n HATRACK_EPOCH_UNRESERVED @ replicate (HATRACK_THREADS_MAX - n) 0\<rparr>) 0)"
    and ths: "sy_threads g = map (\<lambda>i. (\<lparr>mt_tid = i, mt_retire_ctr = 0, mt_retire_list = [], mt_initialized = True\<rparr>, Between)) [0..<n]"
    using hihat_startE [OF assms] by metis
  have "created (sy_table g) p \<longleftrightarrow> p = 0" for p unfolding created_def m by (simp add: mmm_alloc_committed_eq mmm_start_def)
  then show ?thesis using st ths by (auto simp: system_keys_def keys_inv_def)
qed

lemma run_keys:
  assumes "hihat_system_run v g g'" "system_keys g"
  shows "system_keys g' \<and> grows (sy_table g) (sy_table g')"
  using assms
proof (induction rule: hihat_system_run.induct)
  case (next_step g1 g2)
  then show ?case using system_step_keys [of v g1 g2] grows_trans by blast
qed simp

text \<open>Two threads, the first of which has called \<^verbatim>\<open>put\<close>, reserved a bucket and is about to write its record.\<close>

definition example_thread :: "nat \<Rightarrow> mmm_thread" where
  "example_thread i = \<lparr>mt_tid = i, mt_retire_ctr = 0, mt_retire_list = [], mt_initialized = True\<rparr>"

definition example_mmm :: "nat \<Rightarrow> mmm" where
  "example_mmm e = fst (mmm_alloc_committed (mmm_start\<lparr>mm_nexttid := 2,
     mm_reservations := [e, HATRACK_EPOCH_UNRESERVED] @ replicate (HATRACK_THREADS_MAX - 2) 0\<rparr>) 0)"

definition example_hstore :: "hatrack_hash \<Rightarrow> nat \<Rightarrow> hihat_store" where
  "example_hstore hv used = \<lparr>hs_last_slot = 127, hs_threshold = hatrack_compute_table_threshold 128, hs_used_count = used, hs_store_next = None,
     hs_buckets = (replicate 128 zero_hihat_bucket)[5 := zero_hihat_bucket\<lparr>hb_hv := hv\<rparr>]\<rparr>"

definition example_system :: "nat \<Rightarrow> hatrack_hash \<Rightarrow> nat \<Rightarrow> nat \<Rightarrow> hihat_thread \<Rightarrow> hihat_system" where
  "example_system e hv used epoch th = \<lparr>sy_table = \<lparr>hh_store_current = 0, hh_item_count = 0, hh_help_needed = 0, hh_next_epoch = epoch,
      hh_stores = (\<lambda>p. example_hstore 0 0)(0 := example_hstore hv used),
      hh_mmm = example_mmm e\<rparr>, sy_threads = [(example_thread 0, th), (example_thread 1, Between)]\<rparr>"

lemma example_started: "hihat_start Plain (\<lambda>p. example_hstore 0 0) 0 7 2 = Inr (example_system HATRACK_EPOCH_UNRESERVED 0 0 1 Between)"
proof -
  have "(replicate 128 zero_hihat_bucket)[5 := zero_hihat_bucket\<lparr>hb_hv := 0\<rparr>] = replicate 128 zero_hihat_bucket"
    by (rule nth_equalityI) (simp_all add: nth_list_update zero_hihat_bucket_def)
  moreover have "[0..<2] = [0, Suc 0]" "replicate 2 x = [x, x]" for x :: nat by (simp_all add: upt_rec numeral_2_eq_2)
  ultimately show ?thesis
    by (simp add: hihat_start_def hihat_new_size_def hihat_init_size_def HATRACK_MIN_SIZE_LOG_def Let_def hihat_store_new_def
      push_bit_eq_mult mmm_alloc_committed_eq example_system_def example_mmm_def mmm_start_def wrap64_id sizeof_hihat_store_def
      sizeof_hihat_bucket_def example_thread_def example_hstore_def fun_eq_iff wrap64_def)
qed

lemma example_suffices: "memory_suffices (sy_table (example_system e hv used epoch th))"
proof -
  have "mm_epoch (example_mmm e) = 2"
    by (simp add: example_mmm_def mmm_alloc_committed_eq mmm_start_def HATRACK_EPOCH_FIRST_def wrap64_def)
  then show ?thesis by (simp add: memory_suffices_def bounded_stores_def example_system_def example_hstore_def)
qed

lemma example_next:
  fixes e :: nat and hv :: hatrack_hash and used epoch :: nat and c :: hihat_op and pc pc' :: hihat_pc
  defines "g \<equiv> example_system e hv used epoch (InOp c pc)"
  assumes run: "hihat_system_run Plain g0 g"
    and step: "op_step Plain c pc (sy_table g, example_thread 0) = ((sy_table (example_system e' hv' used' epoch' Between), example_thread 0), Inl pc')"
  shows "hihat_system_run Plain g0 (example_system e' hv' used' epoch' (InOp c pc'))"
proof -
  have "hihat_system_step Plain g (set_hthread g 0 (sy_table (example_system e' hv' used' epoch' Between), example_thread 0) (InOp c pc'))"
    using hihat_system_step.step [OF _ _ step, where i = 0] by (simp add: g_def example_system_def)
  then have "hihat_system_step Plain g (example_system e' hv' used' epoch' (InOp c pc'))"
    by (simp add: set_hthread_def example_system_def g_def)
  from hihat_system_run.next_step [OF run this example_suffices] show ?thesis .
qed

lemma example_read:
  "read_store (sy_table (example_system e hv used epoch th)) 0 = Inr (example_hstore hv used)"
  "hs_buckets (example_hstore hv used) ! 5 = zero_hihat_bucket\<lparr>hb_hv := hv\<rparr>" "5 < length (hs_buckets (example_hstore hv used))"
proof -
  have "allocated (example_mmm e) 0" by (simp add: example_mmm_def mmm_alloc_committed_eq mmm_start_def allocated_def)
  then show "read_store (sy_table (example_system e hv used epoch th)) 0 = Inr (example_hstore hv used)"
    unfolding read_store_Inr by (simp add: example_system_def)
qed (simp_all add: example_hstore_def)

lemma example_bucket:
  "with_bucket (sy_table (example_system e hv used epoch th), m) 0 5 f = f (example_hstore hv used) (zero_hihat_bucket\<lparr>hb_hv := hv\<rparr>)"
  using example_read(2,3) [of hv used] by (simp add: with_bucket_def example_read(1) read_at_def)

lemma example_run:
  "hihat_system_run Plain (example_system HATRACK_EPOCH_UNRESERVED 0 0 1 Between) (example_system 2 5 1 2
     (InOp (OpPut 5 9) (HInstall 0 0 5 zero_record \<lparr>hr_item = 9, hr_info = HIHAT_F_INITED OR 1\<rparr>)))"
proof -
  let ?at = "\<lambda>e hv used epoch pc. example_system e hv used epoch (InOp (OpPut 5 9) pc)"
  let ?run = "hihat_system_run Plain (example_system HATRACK_EPOCH_UNRESERVED 0 0 1 Between)"
  let ?un = HATRACK_EPOCH_UNRESERVED
  have "hihat_system_step Plain (example_system ?un 0 0 1 Between) (set_hthread (example_system ?un 0 0 1 Between) 0
      (sy_table (example_system ?un 0 0 1 Between), example_thread 0) (InOp (OpPut 5 9) HBegin))"
    by (rule hihat_system_step.call) (simp_all add: example_system_def)
  then have "hihat_system_step Plain (example_system ?un 0 0 1 Between) (?at ?un 0 0 1 HBegin)"
    by (simp add: set_hthread_def example_system_def)
  from hihat_system_run.next_step [OF hihat_system_run.start [OF example_suffices] this example_suffices]
  have "?run (?at ?un 0 0 1 HBegin)" .
  moreover have "mmm_start_basic_op (example_mmm ?un) (example_thread 0) = Inr (example_mmm 2)"
    by (simp add: mmm_start_basic_op_def mmm_reserve_def example_mmm_def mmm_alloc_committed_eq example_thread_def mmm_start_def
        HATRACK_EPOCH_FIRST_def wrap64_def)
  ultimately have "?run (?at 2 0 0 1 HCurrent)" by (elim example_next) (simp add: example_system_def)
  then have "?run (?at 2 0 0 1 (HFirst 0 0))" by (rule example_next) (simp add: example_system_def)
  moreover have "hatrack_bucket_index 5 (hs_last_slot (example_hstore 0 0)) = 5"
    by (simp add: example_hstore_def hatrack_bucket_index_def wrap64_def)
  ultimately have "?run (?at 2 0 0 1 (HProbe 0 0 5 0))"
    by (elim example_next) (simp add: hihat_first_def example_read(1), simp add: example_system_def)
  then have "?run (?at 2 0 0 1 (HAcquire 0 0 5 0))"
    by (rule example_next) (simp add: example_bucket, simp add: example_system_def zero_hihat_bucket_def)
  then have "?run (?at 2 5 0 1 (HUsed 0 0 5))"
    by (rule example_next) (simp add: example_bucket, simp add: example_system_def zero_hihat_bucket_def example_hstore_def put_buckets_def write_store_def)
  then have "?run (?at 2 5 1 1 (HRecord 0 0 5))"
    by (rule example_next) (simp add: example_read(1), simp add: example_system_def write_store_def example_hstore_def threshold_eq wrap64_def)
  then have "?run (?at 2 5 1 1 (HEpoch 0 0 5 zero_record))"
    by (rule example_next) (simp add: example_bucket zero_hihat_bucket_def rec_moving_def zero_record_def rec_epoch_def, simp add: example_system_def)
  then have "?run (?at 2 5 1 1 (HBump 0 0 5 zero_record 1))" by (rule example_next) (simp add: example_system_def)
  then show ?thesis by (rule example_next) (simp add: example_system_def wrap64_def)
qed

section \<open>Properties\<close>

text \<open>C5: Any number of threads may put, add, replace, remove, look up, view and migrate at once: in every store, old or new, each
  hash value has at most one bucket and lies where a probe for it, starting at its first bucket, comes by no
  empty bucket before; a bucket once reserved for a hash value keeps it; and a
  thread about to write a record writes it to the bucket of its own key.\<close>

theorem hihat_threads_buckets_keep_keys:
  assumes "hihat_start v stores help_needed sz n = Inr g0" "hihat_system_run v g0 g" "hihat_system_run v g g'"
  shows "(\<forall>p < length (mm_cells (hh_mmm (sy_table g))). \<exists>k. hs_last_slot (hh_stores (sy_table g) p) = 2 ^ k - 1 \<and>
       probe_wf k (map hb_hv (hs_buckets (hh_stores (sy_table g) p))) \<and>
       (\<forall>i < 2 ^ k. hb_hv (hs_buckets (hh_stores (sy_table g) p) ! i) \<noteq> 0 \<longrightarrow>
          hb_hv (hs_buckets (hh_stores (sy_table g') p) ! i) = hb_hv (hs_buckets (hh_stores (sy_table g) p) ! i))) \<and>
     (\<forall>m c s r bix old new. (m, InOp c (HInstall s r bix old new)) \<in> set (sy_threads g) \<longrightarrow>
       bix < length (hs_buckets (hh_stores (sy_table g) s)) \<and> hb_hv (hs_buckets (hh_stores (sy_table g) s) ! bix) = op_key c)"
proof -
  have inv: "system_keys g" using run_keys [OF assms(2) hihat_start_keys [OF assms(1)]] by simp
  have grow: "grows (sy_table g) (sy_table g')" using run_keys [OF assms(3) inv] by simp
  have "\<exists>k. hs_last_slot (hh_stores (sy_table g) p) = 2 ^ k - 1 \<and> probe_wf k (hvs (sy_table g) p) \<and>
       (\<forall>i < 2 ^ k. hb_hv (hs_buckets (hh_stores (sy_table g) p) ! i) \<noteq> 0 \<longrightarrow>
          hb_hv (hs_buckets (hh_stores (sy_table g') p) ! i) = hb_hv (hs_buckets (hh_stores (sy_table g) p) ! i))"
    if p: "created (sy_table g) p" for p
  proof -
    have "keys_inv (sy_table g)" using inv by (simp add: system_keys_def)
    then obtain k where "keyed k (hh_stores (sy_table g) p)" using keys_invD(2) [OF _ p] by blast
    note K = keyedD [OF this]
    show ?thesis using K grow [unfolded grows_def, rule_format, OF p] by (intro exI [of _ k]) auto
  qed
  moreover have "bix < length (hs_buckets (hh_stores (sy_table g) s)) \<and> hb_hv (hs_buckets (hh_stores (sy_table g) s) ! bix) = op_key c"
    if "(m, InOp c (HInstall s r bix old new)) \<in> set (sy_threads g)" for m c s r bix old new
    using inv that by (fastforce simp: system_keys_def owns_def)
  ultimately show ?thesis unfolding created_def by blast
qed

theorem hihat_threads_buckets_keep_keys_witness:
  "\<exists>g. hihat_system_run Plain (example_system HATRACK_EPOCH_UNRESERVED 0 0 1 Between) g \<and>
     (\<exists>m s r bix old new. (m, InOp (OpPut 5 9) (HInstall s r bix old new)) \<in> set (sy_threads g) \<and>
       hb_hv (hs_buckets (hh_stores (sy_table g) s) ! bix) = 5)"
proof -
  let ?g = "example_system 2 5 1 2 (InOp (OpPut 5 9) (HInstall 0 0 5 zero_record \<lparr>hr_item = 9, hr_info = HIHAT_F_INITED OR 1\<rparr>))"
  have th: "(example_thread 0, InOp (OpPut 5 9) (HInstall 0 0 5 zero_record \<lparr>hr_item = 9, hr_info = HIHAT_F_INITED OR 1\<rparr>)) \<in> set (sy_threads ?g)"
    by (simp add: example_system_def)
  from hihat_threads_buckets_keep_keys [OF example_started example_run hihat_system_run.start [OF example_suffices]] th
  have "hb_hv (hs_buckets (hh_stores (sy_table ?g) 0) ! 5) = 5" by fastforce
  with example_run th show ?thesis by blast
qed

end
