(* ===== verification/Hihat_Memory.thy ===== *)
theory Hihat_Memory
  imports Hihat_Threads
begin

text \<open>
  Memory safety of any number of threads on one \<^verbatim>\<open>hihat\<close>, \<^verbatim>\<open>hihat-a\<close> or \<^verbatim>\<open>witchhat\<close> table. First an invariant of
  the chain of stores and of what each thread holds of it, with one lemma for each kind of step that changes the memory manager or the chain
  (entering and leaving, a new store, its link, its discard, installing it, retiring the old one) and one for all others; then
  that every step of the functions of \<open>Hihat\<close> is of one of these kinds and does not fail; then the runs of \<open>Hihat_Threads\<close>.
\<close>

section \<open>Memory\<close>

text \<open>
  The stores form a chain: each was linked once, behind the store it replaces. \<open>cs\<close> is the chain from the first store on and \<open>cs ! k\<close>
  the current store; there is at most one store behind it. The stores a thread can touch are on the chain (its source not
  behind the current store), or one candidate it has just allocated itself. Stores are retired when the current
  store has passed them, each by the one thread that replaced it.
\<close>

fun migrate_sources :: "migrate_pc \<Rightarrow> nat set" where
  "migrate_sources (MStart s) = {s}"
| "migrate_sources (MSleep s) = {s}"
| "migrate_sources (MAwake s again) = {s}"
| "migrate_sources (MCheck s again n) = {s}"
| "migrate_sources (MMark s i used) = {s}"
| "migrate_sources (MMarkSet s i used) = {s}"
| "migrate_sources (MMarkRead s i used) = {s}"
| "migrate_sources (MMarkMoved s i used) = {s}"
| "migrate_sources (MNext s used) = {s}"
| "migrate_sources (MSize s used) = {s}"
| "migrate_sources (MAlloc s used new_size) = {s}"
| "migrate_sources (MLink s used c) = {s}"
| "migrate_sources (MDiscard s n used c) = {s}"
| "migrate_sources (MMove s n i used) = {s}"
| "migrate_sources (MHash s n i used record) = {s}"
| "migrate_sources (MProbe s n i used record hv bix j) = {s}"
| "migrate_sources (MTake s n i used record hv bix j) = {s}"
| "migrate_sources (MCopy s n i used record bix) = {s}"
| "migrate_sources (MFinish s n i used) = {s}"
| "migrate_sources (MUsed s n used) = {s}"
| "migrate_sources (MInstall s n) = {s}"
| "migrate_sources (MRetire s) = {s}"
| "migrate_sources MReturn = {}"

fun migrate_targets :: "migrate_pc \<Rightarrow> nat set" where
  "migrate_targets (MCheck s again n) = set_option n"
| "migrate_targets (MDiscard s n used c) = {n}"
| "migrate_targets (MMove s n i used) = {n}"
| "migrate_targets (MHash s n i used record) = {n}"
| "migrate_targets (MProbe s n i used record hv bix j) = {n}"
| "migrate_targets (MTake s n i used record hv bix j) = {n}"
| "migrate_targets (MCopy s n i used record bix) = {n}"
| "migrate_targets (MFinish s n i used) = {n}"
| "migrate_targets (MUsed s n used) = {n}"
| "migrate_targets (MInstall s n) = {n}"
| "migrate_targets pc = {}"

fun migrate_cands :: "migrate_pc \<Rightarrow> (nat \<times> nat) set" where
  "migrate_cands (MLink s used c) = {(s, c)}"
| "migrate_cands (MDiscard s n used c) = {(s, c)}"
| "migrate_cands pc = {}"

fun migrate_retiring :: "migrate_pc \<Rightarrow> nat set" where
  "migrate_retiring (MRetire s) = {s}"
| "migrate_retiring pc = {}"

fun pc_sources :: "hihat_pc \<Rightarrow> nat set" where
  "pc_sources (HFirst s r) = {s}"
| "pc_sources (HProbe s r bix i) = {s}"
| "pc_sources (HAcquire s r bix i) = {s}"
| "pc_sources (HUsed s r bix) = {s}"
| "pc_sources (HRecord s r bix) = {s}"
| "pc_sources (HEpoch s r bix record) = {s}"
| "pc_sources (HBump s r bix record e) = {s}"
| "pc_sources (HInstall s r bix record candidate) = {s}"
| "pc_sources (HCount s r res) = {s}"
| "pc_sources (HHelp s r) = {s}"
| "pc_sources (HFull s r res) = {s}"
| "pc_sources (HMigrate r q) = migrate_sources q"
| "pc_sources (HTidy r res q) = migrate_sources q"
| "pc_sources pc = {}"

fun pc_part :: "(migrate_pc \<Rightarrow> 'a set) \<Rightarrow> hihat_pc \<Rightarrow> 'a set" where
  "pc_part f (HMigrate r q) = f q"
| "pc_part f (HTidy r res q) = f q"
| "pc_part f pc = {}"

fun in_migration :: "(migrate_pc \<Rightarrow> 'a set) \<Rightarrow> hihat_thread \<Rightarrow> 'a set" where
  "in_migration f (InOp c pc) = pc_part f pc"
| "in_migration f th = {}"

fun t_sources :: "hihat_thread \<Rightarrow> nat set" where
  "t_sources (InOp c pc) = pc_sources pc"
| "t_sources (InView srt (WRead s i view)) = {s}"
| "t_sources th = {}"

abbreviation "t_targets \<equiv> in_migration migrate_targets"
abbreviation "t_cands \<equiv> in_migration migrate_cands"
abbreviation "t_retiring \<equiv> in_migration migrate_retiring"

fun active :: "hihat_thread \<Rightarrow> bool" where
  "active (InOp c pc) \<longleftrightarrow> pc \<noteq> HBegin"
| "active (InView srt pc) \<longleftrightarrow> pc \<noteq> WBegin"
| "active th \<longleftrightarrow> False"

abbreviation link_of :: "hihat \<Rightarrow> nat \<Rightarrow> nat option" where
  "link_of t p \<equiv> hs_store_next (hh_stores t p)"

definition chain_ok :: "mmm \<Rightarrow> (nat \<Rightarrow> nat option) \<Rightarrow> nat \<Rightarrow> nat list \<Rightarrow> nat \<Rightarrow> bool" where
  "chain_ok m lk cur cs k \<longleftrightarrow> k < length cs \<and> length cs \<le> k + 2 \<and> sorted_wrt (<) cs \<and> cs ! k = cur \<and>
     (\<forall>j. Suc j < length cs \<longrightarrow> lk (cs ! j) = Some (cs ! Suc j)) \<and> lk (last cs) = None \<and>
     (\<forall>j. k \<le> j \<longrightarrow> j < length cs \<longrightarrow> allocated m (cs ! j))"

text \<open>A store that cannot be freed while a thread has reserved epoch \<open>e\<close>, given all retire lists; and the chain from a position on.\<close>

definition safe :: "mmm \<Rightarrow> nat list list \<Rightarrow> nat \<Rightarrow> nat \<Rightarrow> bool" where
  "safe m ls e p \<longleftrightarrow> allocated m p \<and> (\<forall>l \<in> set ls. p \<in> set l \<longrightarrow> e \<le> retired_at m p)"

definition safe_from :: "mmm \<Rightarrow> nat list list \<Rightarrow> nat \<Rightarrow> nat list \<Rightarrow> nat \<Rightarrow> bool" where
  "safe_from m ls e cs j \<longleftrightarrow> (\<forall>j'. j \<le> j' \<longrightarrow> j' < length cs \<longrightarrow> safe m ls e (cs ! j'))"

definition thread_mem :: "mmm \<Rightarrow> (nat \<Rightarrow> nat option) \<Rightarrow> nat list list \<Rightarrow> nat list \<Rightarrow> nat \<Rightarrow> mmm_thread \<times> hihat_thread \<Rightarrow> bool" where
  "thread_mem m lk ls cs k x \<longleftrightarrow> (let (mt, th) = x; e = mm_reservations m ! mt_tid mt in
     (\<forall>c. th \<noteq> Stopped c) \<and> mt_initialized mt \<and> used_tid m (mt_tid mt) \<and> retire_ok m (mt_retire_list mt) \<and>
     (\<forall>p \<in> set (mt_retire_list mt). \<exists>j < k. cs ! j = p) \<and> (active th \<longrightarrow> e \<le> mm_epoch m) \<and>
     (\<forall>s \<in> t_sources th. \<exists>j \<le> k. cs ! j = s \<and> safe_from m ls e cs j) \<and>
     (\<forall>n \<in> t_targets th. \<exists>j < length cs. cs ! j = n \<and> safe_from m ls e cs j) \<and>
     (\<forall>p \<in> t_retiring th. (\<exists>j < k. cs ! j = p) \<and> (\<forall>l \<in> set ls. p \<notin> set l)) \<and>
     (\<forall>(s, c) \<in> t_cands th. allocated m c \<and> c \<notin> set cs \<and> lk c = None \<and> s < c))"

definition apart :: "mmm_thread \<times> hihat_thread \<Rightarrow> mmm_thread \<times> hihat_thread \<Rightarrow> bool" where
  "apart x y \<longleftrightarrow> mt_tid (fst x) \<noteq> mt_tid (fst y) \<and> set (mt_retire_list (fst x)) \<inter> set (mt_retire_list (fst y)) = {} \<and>
     t_retiring (snd x) \<inter> t_retiring (snd y) = {} \<and> snd ` t_cands (snd x) \<inter> snd ` t_cands (snd y) = {}"

abbreviation lists_of :: "(mmm_thread \<times> hihat_thread) list \<Rightarrow> nat list list" where
  "lists_of ths \<equiv> map (mt_retire_list \<circ> fst) ths"

definition chain_inv :: "mmm \<Rightarrow> (nat \<Rightarrow> nat option) \<Rightarrow> nat \<Rightarrow> (mmm_thread \<times> hihat_thread) list \<Rightarrow> nat list \<Rightarrow> nat \<Rightarrow> bool" where
  "chain_inv m lk cur ths cs k \<longleftrightarrow> chain_ok m lk cur cs k \<and> (\<forall>x \<in> set ths. thread_mem m lk (lists_of ths) cs k x) \<and>
     (\<forall>i < length ths. \<forall>j < length ths. i \<noteq> j \<longrightarrow> apart (ths ! i) (ths ! j))"

definition system_mem :: "hihat_system \<Rightarrow> bool" where
  "system_mem g \<longleftrightarrow> (\<exists>cs k. chain_inv (hh_mmm (sy_table g)) (link_of (sy_table g)) (hh_store_current (sy_table g)) (sy_threads g) cs k)"

lemma chain_okD:
  assumes "chain_ok m lk cur cs k"
  shows "k < length cs" "length cs \<le> k + 2" "sorted_wrt (<) cs" "cs ! k = cur" "Suc j < length cs \<Longrightarrow> lk (cs ! j) = Some (cs ! Suc j)"
    "lk (last cs) = None" "k \<le> j \<Longrightarrow> j < length cs \<Longrightarrow> allocated m (cs ! j)" "distinct cs"
  using assms strict_sorted_iff by (auto simp: chain_ok_def)

lemma chain_index:
  assumes "chain_ok m lk cur cs k" "i < length cs" "j < length cs" "cs ! i = cs ! j"
  shows "i = j"
  using chain_okD(8) [OF assms(1)] assms(2-) by (simp add: nth_eq_iff_index_eq)

lemma chain_next:
  assumes ch: "chain_ok m lk cur cs k" and j: "j < length cs" "lk (cs ! j) = Some n"
  shows "Suc j < length cs \<and> cs ! Suc j = n"
proof (cases "Suc j < length cs")
  case True
  then show ?thesis using chain_okD(5) [OF ch, of j] j(2) by simp
next
  case False
  then have "length cs = Suc j" using j(1) by simp
  then have "cs ! j = last cs" by (metis diff_Suc_1 last_conv_nth list.size(3) nat.distinct(1))
  then show ?thesis using chain_okD(6) [OF ch] j(2) by simp
qed

lemma thread_memD:
  assumes "thread_mem m lk ls cs k (mt, th)"
  shows "th \<noteq> Stopped c" "mt_initialized mt" "used_tid m (mt_tid mt)" "retire_ok m (mt_retire_list mt)"
    "p \<in> set (mt_retire_list mt) \<Longrightarrow> \<exists>j < k. cs ! j = p" "active th \<Longrightarrow> mm_reservations m ! mt_tid mt \<le> mm_epoch m"
    "s \<in> t_sources th \<Longrightarrow> \<exists>j \<le> k. cs ! j = s \<and> safe_from m ls (mm_reservations m ! mt_tid mt) cs j"
    "n \<in> t_targets th \<Longrightarrow> \<exists>j < length cs. cs ! j = n \<and> safe_from m ls (mm_reservations m ! mt_tid mt) cs j"
    "q \<in> t_retiring th \<Longrightarrow> (\<exists>j < k. cs ! j = q) \<and> (\<forall>l \<in> set ls. q \<notin> set l)"
    "(s', c') \<in> t_cands th \<Longrightarrow> allocated m c' \<and> c' \<notin> set cs \<and> lk c' = None \<and> s' < c'"
  using assms by (auto simp: thread_mem_def Let_def)

lemma thread_memI:
  assumes "\<And>c. th \<noteq> Stopped c" "mt_initialized mt" "used_tid m (mt_tid mt)" "retire_ok m (mt_retire_list mt)"
    "\<And>p. p \<in> set (mt_retire_list mt) \<Longrightarrow> \<exists>j < k. cs ! j = p" "active th \<Longrightarrow> mm_reservations m ! mt_tid mt \<le> mm_epoch m"
    "\<And>s. s \<in> t_sources th \<Longrightarrow> \<exists>j \<le> k. cs ! j = s \<and> safe_from m ls (mm_reservations m ! mt_tid mt) cs j"
    "\<And>n. n \<in> t_targets th \<Longrightarrow> \<exists>j < length cs. cs ! j = n \<and> safe_from m ls (mm_reservations m ! mt_tid mt) cs j"
    "\<And>p. p \<in> t_retiring th \<Longrightarrow> (\<exists>j < k. cs ! j = p) \<and> (\<forall>l \<in> set ls. p \<notin> set l)"
    "\<And>s c. (s, c) \<in> t_cands th \<Longrightarrow> allocated m c \<and> c \<notin> set cs \<and> lk c = None \<and> s < c"
  shows "thread_mem m lk ls cs k (mt, th)"
  unfolding thread_mem_def Let_def prod.case using assms(1-4,6) assms(5,7-10) by (intro conjI ballI) auto

text \<open>The current store, and what lies behind it, is safe for every thread.\<close>

lemma chain_invD:
  assumes "chain_inv m lk cur ths cs k"
  shows "chain_ok m lk cur cs k" "x \<in> set ths \<Longrightarrow> thread_mem m lk (lists_of ths) cs k x"
    "i < length ths \<Longrightarrow> j < length ths \<Longrightarrow> i \<noteq> j \<Longrightarrow> apart (ths ! i) (ths ! j)"
  using assms by (simp_all add: chain_inv_def)

lemma listed_old:
  assumes "chain_inv m lk cur ths cs k" "l \<in> set (lists_of ths)" "p \<in> set l"
  shows "\<exists>j < k. cs ! j = p"
  using assms chain_invD(2) [OF assms(1)] thread_memD(5) by fastforce

lemma current_safe:
  assumes inv: "chain_inv m lk cur ths cs k"
  shows "safe_from m (lists_of ths) e cs k"
proof -
  note ch = chain_invD(1) [OF inv] and C = chain_okD [OF chain_invD(1) [OF inv]]
  have "cs ! j' \<notin> set l" if j': "k \<le> j'" "j' < length cs" "l \<in> set (lists_of ths)" for j' l
  proof
    assume "cs ! j' \<in> set l"
    then obtain i where "i < k" "cs ! i = cs ! j'" using listed_old [OF inv j'(3)] by blast
    then show False using chain_index [OF ch j'(2), of i] j'(1) C(1) by simp
  qed
  then show ?thesis using C(7) by (auto simp: safe_from_def safe_def)
qed

lemma apart_sym: "apart x y \<longleftrightarrow> apart y x"
  unfolding apart_def by (metis Int_commute)

lemma apart_less:
  assumes "apart y (mt, th)" "mt_tid mt' = mt_tid mt" "set (mt_retire_list mt') \<subseteq> set (mt_retire_list mt) \<union> A"
    "A \<inter> set (mt_retire_list (fst y)) = {}" "t_retiring th' \<subseteq> t_retiring th \<union> B" "B \<inter> t_retiring (snd y) = {}"
    "snd ` t_cands th' \<subseteq> snd ` t_cands th \<union> C" "C \<inter> snd ` t_cands (snd y) = {}"
  shows "apart y (mt', th')"
proof -
  have union: "X \<inter> Z = {}" if "X \<inter> Y = {}" "Z \<subseteq> Y \<union> W" "W \<inter> X = {}" for X Y Z W :: "nat set" using that by blast
  have y: "mt_tid (fst y) \<noteq> mt_tid mt" "set (mt_retire_list (fst y)) \<inter> set (mt_retire_list mt) = {}"
    "t_retiring (snd y) \<inter> t_retiring th = {}" "snd ` t_cands (snd y) \<inter> snd ` t_cands th = {}"
    using assms(1) by (simp_all add: apart_def)
  from union [OF y(2) assms(3,4)] union [OF y(3) assms(5,6)] union [OF y(4) assms(7,8)] y(1) assms(2)
  show ?thesis by (simp add: apart_def)
qed

lemma chain_inv_update:
  assumes inv: "chain_inv m lk cur ths cs k" and i: "i < length ths" "ths ! i = x"
    and ch: "chain_ok m' lk' cur' cs' k'" and self: "thread_mem m' lk' (lists_of (ths[i := x'])) cs' k' x'"
    and others: "\<And>y. \<lbrakk>y \<in> set ths; apart y x; thread_mem m lk (lists_of ths) cs k y\<rbrakk> \<Longrightarrow>
      thread_mem m' lk' (lists_of (ths[i := x'])) cs' k' y \<and> apart y x'"
  shows "chain_inv m' lk' cur' (ths[i := x']) cs' k'"
proof -
  let ?ths = "ths[i := x']"
  have other: "thread_mem m' lk' (lists_of ?ths) cs' k' (ths ! j) \<and> apart (ths ! j) x'" if "j < length ths" "j \<noteq> i" for j
    using others [of "ths ! j"] chain_invD(2) [OF inv, of "ths ! j"] chain_invD(3) [OF inv that(1) i(1) that(2)] that i by simp
  have "thread_mem m' lk' (lists_of ?ths) cs' k' y" if y: "y \<in> set ?ths" for y
  proof -
    obtain j where "j < length ths" "y = ?ths ! j" using y by (auto simp: in_set_conv_nth)
    then show ?thesis using other [of j] self by (cases "j = i") auto
  qed
  moreover have "apart (?ths ! a) (?ths ! b)" if "a < length ths" "b < length ths" "a \<noteq> b" for a b
    using that other [of a] other [of b] chain_invD(3) [OF inv that] apart_sym by (cases "a = i"; cases "b = i") auto
  ultimately show ?thesis using ch by (simp add: chain_inv_def)
qed

lemma lists_same: "i < length ths \<Longrightarrow> ths ! i = (mt, th) \<Longrightarrow> lists_of (ths[i := (mt, th')]) = lists_of ths"
  by (rule map_update_eq) simp_all

text \<open>A step that touches neither the memory manager nor the chain.\<close>

definition quiet_move :: "(nat \<Rightarrow> nat option) \<Rightarrow> nat \<Rightarrow> hihat_thread \<Rightarrow> hihat_thread \<Rightarrow> bool" where
  "quiet_move lk cur th th' \<longleftrightarrow> (\<forall>e. th' \<noteq> Stopped e) \<and> (active th' \<longrightarrow> active th) \<and>
     (\<forall>s \<in> t_sources th'. s \<in> t_sources th \<or> s = cur) \<and>
     (\<forall>n \<in> t_targets th'. n \<in> t_targets th \<or> (\<exists>s \<in> t_sources th. lk s = Some n)) \<and>
     t_retiring th' = {} \<and> t_cands th' \<subseteq> t_cands th"

lemma safe_from_mono: "safe_from m ls e cs j \<Longrightarrow> j \<le> j' \<Longrightarrow> safe_from m ls e cs j'"
  by (simp add: safe_from_def)

lemma quiet_chain:
  assumes inv: "chain_inv m lk cur ths cs k" and i: "i < length ths" "ths ! i = (mt, th)" and q: "quiet_move lk cur th th'"
  shows "chain_inv m lk cur (ths[i := (mt, th')]) cs k"
proof (rule chain_inv_update [OF inv i chain_invD(1) [OF inv]])
  note T = thread_memD [OF chain_invD(2) [OF inv nth_mem [OF i(1), unfolded i(2)]]] and ch = chain_invD(1) [OF inv]
  let ?e = "mm_reservations m ! mt_tid mt"
  have s: "\<exists>j \<le> k. cs ! j = s \<and> safe_from m (lists_of ths) ?e cs j" if "s \<in> t_sources th'" for s
    using that q T(7) [of s] current_safe [OF inv, of ?e] chain_okD(4) [OF ch] by (auto simp: quiet_move_def)
  have n: "\<exists>j < length cs. cs ! j = n \<and> safe_from m (lists_of ths) ?e cs j" if n': "n \<in> t_targets th'" for n
  proof (cases "n \<in> t_targets th")
    case True
    then show ?thesis using T(8) by simp
  next
    case False
    then obtain p where p: "p \<in> t_sources th" "lk p = Some n" using q n' by (auto simp: quiet_move_def)
    then obtain j where j: "j \<le> k" "cs ! j = p" "safe_from m (lists_of ths) ?e cs j" using T(7) by blast
    have "j < length cs" using j(1) chain_okD(1) [OF ch] by simp
    then show ?thesis using chain_next [OF ch, of j n] j p(2) safe_from_mono [OF j(3), of "Suc j"] by auto
  qed
  show "thread_mem m lk (lists_of (ths[i := (mt, th')])) cs k (mt, th')"
    unfolding lists_same [OF i] thread_mem_def Let_def prod.case
    using T(2-6,10) s n q by (auto simp: quiet_move_def)
  fix y
  assume y: "y \<in> set ths" "apart y (mt, th)" "thread_mem m lk (lists_of ths) cs k y"
  have "apart y (mt, th')" by (rule apart_less [OF y(2), where A = "{}" and B = "{}" and C = "{}"]) (use q in \<open>auto simp: quiet_move_def\<close>)
  with y show "thread_mem m lk (lists_of (ths[i := (mt, th')])) cs k y \<and> apart y (mt, th')" by (simp add: lists_same [OF i])
qed


text \<open>How a thread that does nothing sees a step of another.\<close>

lemma parts_active: "t_sources th \<noteq> {} \<Longrightarrow> active th" "t_targets th \<noteq> {} \<Longrightarrow> active th"
proof -
  show "t_sources th \<noteq> {} \<Longrightarrow> active th" by (cases th rule: t_sources.cases) auto
  show "t_targets th \<noteq> {} \<Longrightarrow> active th" by (cases th) auto
qed

lemma thread_mem_transfer:
  assumes T: "thread_mem m lk ls cs k (mt, th)"
    and m': "used_tid m' (mt_tid mt)" "mm_reservations m' ! mt_tid mt = mm_reservations m ! mt_tid mt" "mm_epoch m \<le> mm_epoch m'"
    and lst: "\<And>p. \<lbrakk>p \<in> set (mt_retire_list mt); allocated m p\<rbrakk> \<Longrightarrow> allocated m' p \<and> retired_at m' p = retired_at m p"
    and ext: "k \<le> k'" "length cs \<le> length cs'" "\<And>j. j < length cs \<Longrightarrow> cs' ! j = cs ! j" "k < length cs"
    and safe: "\<And>j. \<lbrakk>active th; mm_reservations m ! mt_tid mt \<le> mm_epoch m; safe_from m ls (mm_reservations m ! mt_tid mt) cs j\<rbrakk> \<Longrightarrow>
      safe_from m' ls' (mm_reservations m ! mt_tid mt) cs' j"
    and ret: "\<And>p l. \<lbrakk>p \<in> t_retiring th; \<forall>l \<in> set ls. p \<notin> set l; l \<in> set ls'\<rbrakk> \<Longrightarrow> p \<notin> set l"
    and cands: "\<And>s c. \<lbrakk>(s, c) \<in> t_cands th; allocated m c; c \<notin> set cs; lk c = None\<rbrakk> \<Longrightarrow> allocated m' c \<and> c \<notin> set cs' \<and> lk' c = None"
  shows "thread_mem m' lk' ls' cs' k' (mt, th)"
proof -
  note D = thread_memD [OF T]
  let ?e = "mm_reservations m ! mt_tid mt"
  have r: "retire_ok m' (mt_retire_list mt)" by (rule retire_ok_cong [OF D(4) m'(3)]) (use D(4) lst in \<open>auto simp: retire_ok_def\<close>)
  have old: "\<exists>j < k'. cs' ! j = p" if "\<exists>j < k. cs ! j = p" for p
    using that ext by (metis dual_order.strict_trans order_less_le_trans)
  have src: "\<exists>j \<le> k'. cs' ! j = s \<and> safe_from m' ls' ?e cs' j" if s: "s \<in> t_sources th" for s
  proof -
    obtain j where j: "j \<le> k" "cs ! j = s" "safe_from m ls ?e cs j" using D(7) [OF s] by blast
    have a: "active th" using parts_active(1) s by blast
    show ?thesis using j safe [OF a D(6) [OF a] j(3)] ext by (intro exI [of _ j]) auto
  qed
  have tgt: "\<exists>j < length cs'. cs' ! j = n \<and> safe_from m' ls' ?e cs' j" if n: "n \<in> t_targets th" for n
  proof -
    obtain j where j: "j < length cs" "cs ! j = n" "safe_from m ls ?e cs j" using D(8) [OF n] by blast
    have a: "active th" using parts_active(2) n by blast
    show ?thesis using j safe [OF a D(6) [OF a] j(3)] ext by (intro exI [of _ j]) auto
  qed
  have rt: "(\<exists>j < k'. cs' ! j = p) \<and> (\<forall>l \<in> set ls'. p \<notin> set l)" if "p \<in> t_retiring th" for p
    using D(9) [OF that] ret [OF that] old [of p] by blast
  have cd: "allocated m' c \<and> c \<notin> set cs' \<and> lk' c = None \<and> s < c" if "(s, c) \<in> t_cands th" for s c
    using D(10) [OF that] cands [OF that] by blast
  show ?thesis unfolding thread_mem_def Let_def prod.case m'(2)
    using D(1,2) m'(1,3) r old D(5,6) src tgt rt cd by auto
qed

text \<open>Entering and leaving an operation.\<close>

lemma reserve_chain:
  assumes inv: "chain_inv m lk cur ths cs k" and i: "i < length ths" "ths ! i = (mt, th)"
    and th': "\<And>e. th' \<noteq> Stopped e" "t_sources th' = {}" "t_targets th' = {}" "t_retiring th' = {}" "t_cands th' = {}"
      "active th' \<Longrightarrow> e \<le> mm_epoch m"
  shows "chain_inv (m\<lparr>mm_reservations := (mm_reservations m)[mt_tid mt := e]\<rparr>) lk cur (ths[i := (mt, th')]) cs k"
    (is "chain_inv ?m lk cur ?ths cs k")
proof (rule chain_inv_update [OF inv i])
  note T = thread_memD [OF chain_invD(2) [OF inv nth_mem [OF i(1), unfolded i(2)]]] and ch = chain_invD(1) [OF inv]
  show "chain_ok ?m lk cur cs k" using ch by (simp add: chain_ok_def)
  have used: "used_tid ?m = used_tid m" by (simp add: used_tid_def fun_eq_iff)
  have "mm_reservations ?m ! mt_tid mt = e" using T(3) by (simp add: used_tid_def)
  then show "thread_mem ?m lk (lists_of ?ths) cs k (mt, th')"
    unfolding lists_same [OF i] thread_mem_def Let_def prod.case used using T(2-5) th' by auto
  fix y
  assume y: "y \<in> set ths" "apart y (mt, th)" "thread_mem m lk (lists_of ths) cs k y"
  obtain my ty where y_eq: "y = (my, ty)" by fastforce
  have ne: "mt_tid mt \<noteq> mt_tid my" using y(2) y_eq by (auto simp: apart_def)
  have "thread_mem ?m lk (lists_of ?ths) cs k y" unfolding lists_same [OF i] y_eq
    by (rule thread_mem_transfer [OF y(3) [unfolded y_eq]])
      (use ne used thread_memD(3) [OF y(3) [unfolded y_eq]] chain_okD(1) [OF ch] in \<open>auto simp: safe_from_def safe_def\<close>)
  moreover have "apart y (mt, th')" by (rule apart_less [OF y(2), where A = "{}" and B = "{}" and C = "{}"]) (simp_all add: th')
  ultimately show "thread_mem ?m lk (lists_of ?ths) cs k y \<and> apart y (mt, th')" by simp
qed

text \<open>A new candidate, its link, and its end when another was first.\<close>

lemma chain_below:
  assumes "chain_ok m lk cur cs k" "p \<in> set cs"
  shows "p < length (mm_cells m)"
proof -
  note C = chain_okD [OF assms(1)]
  obtain j where j: "j < length cs" "p = cs ! j" using assms(2) by (auto simp: in_set_conv_nth)
  show ?thesis
  proof (cases "k \<le> j")
    case True
    then show ?thesis using C(7) [of j] j by (simp add: allocated_def)
  next
    case False
    then have "cs ! j < cs ! k" using sorted_wrt_nth_less [OF C(3)] C(1) by simp
    then show ?thesis using C(7) [of k] C(1) j by (simp add: allocated_def)
  qed
qed

lemma listed_in_chain:
  assumes "chain_inv m lk cur ths cs k" "l \<in> set (lists_of ths)" "p \<in> set l"
  shows "p \<in> set cs"
  using listed_old [OF assms] chain_okD(1) [OF chain_invD(1) [OF assms(1)]] by (metis nth_mem order_less_trans)

lemma alloc_chain:
  assumes inv: "chain_inv m lk cur ths cs k" and i: "i < length ths" "ths ! i = (mt, th)"
    and m': "mmm_alloc_committed m sz = (m', c)" "mm_epoch m + 1 < 2 ^ 64" "mm_nexttid m' = mm_nexttid m"
    and th': "\<And>e. th' \<noteq> Stopped e" "t_sources th' \<subseteq> t_sources th" "t_targets th' = {}" "t_retiring th' = {}" "t_cands th' = {(s, c)}"
      "s \<in> t_sources th"
  shows "chain_inv m' (lk(c := None)) cur (ths[i := (mt, th')]) cs k" (is "chain_inv m' ?lk cur ?ths cs k")
proof (rule chain_inv_update [OF inv i])
  note T = thread_memD [OF chain_invD(2) [OF inv nth_mem [OF i(1), unfolded i(2)]]] and ch = chain_invD(1) [OF inv]
  note C = chain_okD [OF ch] and A = alloc_committed_cells [OF m'(1,2)]
  have keep: "allocated m' p \<and> retired_at m' p = retired_at m p" if "allocated m p" for p
    using that m'(1) by (auto simp: mmm_alloc_committed_eq allocated_def retired_at_def nth_append)
  have new: "c \<notin> set cs" using chain_below [OF ch, of c] A(1) by auto
  have used: "used_tid m' = used_tid m" using A(6) m'(3) by (simp add: used_tid_def fun_eq_iff)
  have lk: "?lk (cs ! j) = lk (cs ! j)" if "j < length cs" for j using new that by (auto simp: in_set_conv_nth)
  have "last cs = cs ! (length cs - 1)" using C(1) by (intro last_conv_nth) auto
  then have "?lk (last cs) = lk (last cs)" using lk [of "length cs - 1"] C(1) by simp
  then show "chain_ok m' ?lk cur cs k" using C lk keep by (simp add: chain_ok_def)
  have sf: "safe_from m' (lists_of ths) e cs j" if "safe_from m (lists_of ths) e cs j" for e j
    using that keep by (simp add: safe_from_def safe_def)
  obtain j where "j \<le> k" "cs ! j = s" using T(7) [OF th'(6)] by blast
  then have "s < c" using chain_below [OF ch, of s] A(1) C(1) by auto
  moreover have "retire_ok m' (mt_retire_list mt)" by (rule A(4) [OF T(4)])
  moreover have "active th" using parts_active(1) th'(6) by blast
  then have "mm_reservations m ! mt_tid mt \<le> mm_epoch m'" using T(6) A(5) by simp
  ultimately show "thread_mem m' ?lk (lists_of ?ths) cs k (mt, th')"
    unfolding lists_same [OF i] thread_mem_def Let_def prod.case used A(6)
    using T(2,3,5) T(7) th' A(2) new sf by (auto, blast)
  fix y
  assume y: "y \<in> set ths" "apart y (mt, th)" "thread_mem m lk (lists_of ths) cs k y"
  obtain my ty where y_eq: "y = (my, ty)" by fastforce
  note Y = thread_memD [OF y(3) [unfolded y_eq]]
  have "thread_mem m' ?lk (lists_of ?ths) cs k y" unfolding lists_same [OF i] y_eq
    by (rule thread_mem_transfer [OF y(3) [unfolded y_eq]])
      (use Y(3) used A(5,6) keep C(1) sf in auto)
  moreover have "c \<notin> snd ` t_cands ty" using Y(10) [of _ c] A(1) by (auto simp: allocated_def)
  then have "apart y (mt, th')" using y_eq
    by (intro apart_less [OF y(2), where A = "{}" and B = "{}" and C = "{c}"]) (simp_all add: th')
  ultimately show "thread_mem m' ?lk (lists_of ?ths) cs k y \<and> apart y (mt, th')" by simp
qed

lemma link_chain:
  assumes inv: "chain_inv m lk cur ths cs k" and i: "i < length ths" "ths ! i = (mt, th)"
    and s: "(s, c) \<in> t_cands th" "s \<in> t_sources th" "lk s = None"
    and th': "\<And>e. th' \<noteq> Stopped e" "t_sources th' \<subseteq> t_sources th" "t_targets th' = {c}" "t_retiring th' = {}" "t_cands th' = {}"
  shows "chain_inv m (lk(s := Some c)) cur (ths[i := (mt, th')]) (cs @ [c]) k" (is "chain_inv m ?lk cur ?ths ?cs k")
proof (rule chain_inv_update [OF inv i])
  note T = thread_memD [OF chain_invD(2) [OF inv nth_mem [OF i(1), unfolded i(2)]]] and ch = chain_invD(1) [OF inv]
  note C = chain_okD [OF ch]
  obtain j where j: "j \<le> k" "cs ! j = s" using T(7) [OF s(2)] by blast
  have last_j: "\<not> Suc j < length cs" using C(5) [of j] j s(3) by auto
  have jk: "j = k" using last_j j(1) C(1) by linarith
  have k: "length cs = Suc k" "cs ! k = s" "s = cur" using last_j j(2) C(1,4) unfolding jk by simp_all
  then have last: "last cs = s" by (metis diff_Suc_1 last_conv_nth list.size(3) nat.distinct(1))
  have c: "allocated m c" "c \<notin> set cs" "lk c = None" "s < c" using T(10) [OF s(1)] by auto
  have "p < c" if "p \<in> set cs" for p
  proof -
    obtain j' where j': "j' < length cs" "p = cs ! j'" using \<open>p \<in> set cs\<close> by (auto simp: in_set_conv_nth)
    then have "p \<le> s" using sorted_wrt_nth_less [OF C(3), of j' k] k by (cases "j' = k") auto
    then show ?thesis using c(4) by simp
  qed
  then have sorted: "sorted_wrt (<) ?cs" using C(3) by (simp add: sorted_wrt_append)
  have lk: "?lk (?cs ! j) = Some (?cs ! Suc j)" if "Suc j < length ?cs" for j
  proof (cases "j = k")
    case False
    then have "j < k" using that k(1) by simp
    then have "cs ! j \<noteq> s" using C(8) k by (auto simp: nth_eq_iff_index_eq)
    then show ?thesis using C(5) [of j] \<open>j < k\<close> k(1) by (simp add: nth_append)
  qed (use k in \<open>simp add: nth_append\<close>)
  have "allocated m (?cs ! j)" if "k \<le> j" "j < length ?cs" for j
    using that C(7) [of j] c(1) k(1) by (cases "j = k") (auto simp: nth_append)
  then show "chain_ok m ?lk cur ?cs k" unfolding chain_ok_def using sorted k c lk by (simp add: nth_append)
  have free: "c \<notin> set l" if "l \<in> set (lists_of ths)" for l using listed_in_chain [OF inv that] c(2) by blast
  have sf: "safe_from m (lists_of ths) e ?cs j" if "safe_from m (lists_of ths) e cs j" for e j
    using that free c(1) by (auto simp: safe_from_def safe_def nth_append)
  have e: "active th \<Longrightarrow> active th' \<Longrightarrow> mm_reservations m ! mt_tid mt \<le> mm_epoch m" using T(6) by simp
  have act: "active th" using parts_active(1) s(2) by blast
  have src: "\<exists>j \<le> k. ?cs ! j = p \<and> safe_from m (lists_of ths) (mm_reservations m ! mt_tid mt) ?cs j" if p: "p \<in> t_sources th'" for p
  proof -
    obtain j where "j \<le> k" "cs ! j = p" "safe_from m (lists_of ths) (mm_reservations m ! mt_tid mt) cs j" using T(7) [of p] p th'(2) by blast
    then show ?thesis using sf k(1) by (intro exI [of _ j]) (auto simp: nth_append)
  qed
  have "safe_from m (lists_of ths) (mm_reservations m ! mt_tid mt) ?cs (length cs)"
    using free c(1) by (auto simp: safe_from_def safe_def nth_append)
  then have tgt: "\<exists>j < length ?cs. ?cs ! j = c \<and> safe_from m (lists_of ths) (mm_reservations m ! mt_tid mt) ?cs j"
    by (intro exI [of _ "length cs"]) simp
  have lst: "\<exists>j < k. ?cs ! j = p" if p: "p \<in> set (mt_retire_list mt)" for p
  proof -
    obtain j where "j < k" "cs ! j = p" using T(5) [OF p] by blast
    then show ?thesis using k(1) by (intro exI [of _ j]) (simp add: nth_append)
  qed
  show "thread_mem m ?lk (lists_of ?ths) ?cs k (mt, th')"
    unfolding lists_same [OF i] by (rule thread_memI) (use T(2-4) T(6) [OF act] lst src tgt th' in simp_all)
  fix y
  assume y: "y \<in> set ths" "apart y (mt, th)" "thread_mem m lk (lists_of ths) cs k y"
  obtain my ty where y_eq: "y = (my, ty)" by fastforce
  note Y = thread_memD [OF y(3) [unfolded y_eq]]
  have ne: "c' \<noteq> c" if "(s', c') \<in> t_cands ty" for s' c' using y(2) y_eq s(1) that by (force simp: apart_def)
  have "s \<in> set cs" using k(1,2) by (auto simp: in_set_conv_nth)
  then have "thread_mem m ?lk (lists_of ?ths) ?cs k y" unfolding lists_same [OF i] y_eq
    by (intro thread_mem_transfer [OF y(3) [unfolded y_eq]])
      (use Y(3) C(1) sf ne in \<open>auto simp: nth_append\<close>)
  moreover have "apart y (mt, th')"
    by (intro apart_less [OF y(2), where A = "{}" and B = "{}" and C = "{}"]) (simp_all add: th')
  ultimately show "thread_mem m ?lk (lists_of ?ths) ?cs k y \<and> apart y (mt, th')" by simp
qed

lemma discard_chain:
  assumes inv: "chain_inv m lk cur ths cs k" and i: "i < length ths" "ths ! i = (mt, th)"
    and s: "(s, c) \<in> t_cands th"
    and th': "\<And>e. th' \<noteq> Stopped e" "t_sources th' \<subseteq> t_sources th" "t_targets th' \<subseteq> t_targets th" "t_retiring th' = {}" "t_cands th' = {}"
      "active th' \<Longrightarrow> active th"
  shows "\<exists>m'. mmm_retire_unused m c = Inr m' \<and> chain_inv m' lk cur (ths[i := (mt, th')]) cs k"
proof -
  note T = thread_memD [OF chain_invD(2) [OF inv nth_mem [OF i(1), unfolded i(2)]]] and ch = chain_invD(1) [OF inv]
  note C = chain_okD [OF ch]
  have c: "allocated m c" "c \<notin> set cs" using T(10) [OF s] by auto
  obtain h where h: "mmm_get_header m c = Inr h" using get_header_allocated [OF c(1)] by blast
  define m' where "m' = m\<lparr>mm_cells := (mm_cells m)[c := None], mm_log := mm_log m @ [FreeCall c (wrap64 (sizeof_mmm_header + mh_size h))]\<rparr>"
  have free: "mmm_retire_unused m c = Inr m'" using h by (simp add: mmm_retire_unused_def m'_def)
  have keep: "allocated m' p \<and> retired_at m' p = retired_at m p" if "allocated m p" "p \<noteq> c" for p
    using that by (simp add: m'_def allocated_def retired_at_def)
  have same: "used_tid m' = used_tid m" "mm_reservations m' = mm_reservations m" "mm_epoch m' = mm_epoch m"
    by (simp_all add: m'_def used_tid_def fun_eq_iff)
  have listed: "p \<noteq> c" if "l \<in> set (lists_of ths)" "p \<in> set l" for p l using listed_in_chain [OF inv that] c(2) by blast
  have sf: "safe_from m' (lists_of ths) e cs j" if "safe_from m (lists_of ths) e cs j" for e j
    using that keep c(2) by (fastforce simp: safe_from_def safe_def)
  have "chain_inv m' lk cur (ths[i := (mt, th')]) cs k" (is "chain_inv m' lk cur ?ths cs k")
  proof (rule chain_inv_update [OF inv i])
    have "allocated m' (cs ! j)" if "k \<le> j" "j < length cs" for j using keep [OF C(7) [OF that]] that(2) c(2) nth_mem by metis
    then show "chain_ok m' lk cur cs k" using C by (simp add: chain_ok_def)
    have "mt_retire_list mt \<in> set (lists_of ths)" using nth_mem [OF i(1)] i(2) by force
    then have "retire_ok m' (mt_retire_list mt)"
      using T(4) listed keep by (intro retire_ok_cong [OF T(4)]) (auto simp: retire_ok_def same)
    then show "thread_mem m' lk (lists_of ?ths) cs k (mt, th')"
      unfolding lists_same [OF i] thread_mem_def Let_def prod.case same using T(2,3,5,6,7,8) th' sf by (auto, (meson subsetD)+)
    fix y
    assume y: "y \<in> set ths" "apart y (mt, th)" "thread_mem m lk (lists_of ths) cs k y"
    obtain my ty where y_eq: "y = (my, ty)" by fastforce
    note Y = thread_memD [OF y(3) [unfolded y_eq]]
    have ne: "c' \<noteq> c" if "(s', c') \<in> t_cands ty" for s' c' using y(2) y_eq s that by (force simp: apart_def)
    have my: "mt_retire_list my \<in> set (lists_of ths)" using y(1) y_eq by force
    have "thread_mem m' lk (lists_of ?ths) cs k y" unfolding lists_same [OF i] y_eq
      by (rule thread_mem_transfer [OF y(3) [unfolded y_eq]])
        (use Y(3) same C(1) sf ne keep listed [OF my] in auto)
    moreover have "apart y (mt, th')"
      by (intro apart_less [OF y(2), where A = "{}" and B = "{}" and C = "{}"]) (simp_all add: th')
    ultimately show "thread_mem m' lk (lists_of ?ths) cs k y \<and> apart y (mt, th')" by simp
  qed
  with free show ?thesis by blast
qed

text \<open>Installing the next store, and retiring the one it replaces.\<close>

lemma install_chain:
  assumes inv: "chain_inv m lk cur ths cs k" and i: "i < length ths" "ths ! i = (mt, th)"
    and s: "cur \<in> t_sources th" "lk cur = Some n"
    and th': "\<And>e. th' \<noteq> Stopped e" "t_sources th' \<subseteq> t_sources th" "t_targets th' \<subseteq> t_targets th" "t_retiring th' = {cur}" "t_cands th' = {}"
  shows "chain_inv m lk n (ths[i := (mt, th')]) cs (Suc k)" (is "chain_inv m lk n ?ths cs _")
proof (rule chain_inv_update [OF inv i])
  note T = thread_memD [OF chain_invD(2) [OF inv nth_mem [OF i(1), unfolded i(2)]]] and ch = chain_invD(1) [OF inv]
  note C = chain_okD [OF ch]
  have n: "Suc k < length cs" "cs ! Suc k = n" using chain_next [OF ch C(1)] C(4) s(2) by auto
  then show "chain_ok m lk n cs (Suc k)" using C by (simp add: chain_ok_def)
  have cur: "cur \<notin> set l" if l: "l \<in> set (lists_of ths)" for l
  proof
    assume "cur \<in> set l"
    then obtain j where "j < k" "cs ! j = cur" using listed_old [OF inv l] by blast
    then show False using chain_index [OF ch, of j k] C(1,4) by simp
  qed
  have act: "active th" using parts_active(1) s(1) by blast
  have src: "\<exists>j \<le> Suc k. cs ! j = p \<and> safe_from m (lists_of ths) (mm_reservations m ! mt_tid mt) cs j" if "p \<in> t_sources th'" for p
    using T(7) th'(2) that le_SucI by blast
  have ret: "\<exists>j < Suc k. cs ! j = cur" using C(4) by (intro exI [of _ k]) simp
  have lst: "\<exists>j < Suc k. cs ! j = p" if "p \<in> set (mt_retire_list mt)" for p using T(5) [OF that] less_SucI by blast
  show "thread_mem m lk (lists_of ?ths) cs (Suc k) (mt, th')"
    unfolding lists_same [OF i] by (rule thread_memI) (use T(2-4) T(6) [OF act] T(8) src lst ret cur th' in auto)
  fix y
  assume y: "y \<in> set ths" "apart y (mt, th)" "thread_mem m lk (lists_of ths) cs k y"
  obtain my ty where y_eq: "y = (my, ty)" by fastforce
  note Y = thread_memD [OF y(3) [unfolded y_eq]]
  have "thread_mem m lk (lists_of ?ths) cs (Suc k) y" unfolding lists_same [OF i] y_eq
    by (rule thread_mem_transfer [OF y(3) [unfolded y_eq]]) (use Y(3) C(1) in \<open>simp_all, blast\<close>)
  moreover have "cur \<notin> t_retiring ty"
  proof
    assume "cur \<in> t_retiring ty"
    then obtain j where "j < k" "cs ! j = cur" using Y(9) by blast
    then show False using chain_index [OF ch, of j k] C(1,4) by simp
  qed
  then have "apart y (mt, th')" using y_eq
    by (intro apart_less [OF y(2), where A = "{}" and B = "{cur}" and C = "{}"]) (simp_all add: th')
  ultimately show "thread_mem m lk (lists_of ?ths) cs (Suc k) y \<and> apart y (mt, th')" by simp
qed

lemma retire_chain:
  assumes inv: "chain_inv m lk cur ths cs k" and i: "i < length ths" "ths ! i = (mt, th)"
    and s: "s \<in> t_sources th" "s \<in> t_retiring th"
    and th': "\<And>e. th' \<noteq> Stopped e" "t_sources th' = {}" "t_targets th' = {}" "t_retiring th' = {}" "t_cands th' = {}"
  shows "\<exists>m' mt'. mmm_retire m mt s = Inr (m', mt') \<and> chain_inv m' lk cur (ths[i := (mt', th')]) cs k"
proof -
  note T = thread_memD [OF chain_invD(2) [OF inv nth_mem [OF i(1), unfolded i(2)]]] and ch = chain_invD(1) [OF inv]
  note C = chain_okD [OF ch]
  have mine: "mt_retire_list mt \<in> set (lists_of ths)" using nth_mem [OF i(1)] i(2) by force
  have s_new: "s \<notin> set l" if "l \<in> set (lists_of ths)" for l using T(9) [OF s(2)] that by blast
  have s_alloc: "allocated m s" using T(7) [OF s(1)] C(1) by (auto simp: safe_from_def safe_def)
  obtain js where js: "js < k" "cs ! js = s" using T(9) [OF s(2)] by blast
  let ?at = "\<lambda>q. if q = s then mm_epoch m else retired_at m q"
  obtain m' mt' where r: "mmm_retire m mt s = Inr (m', mt')" "retire_ok m' (mt_retire_list mt')"
    "mm_reservations m' = mm_reservations m" "mm_nexttid m' = mm_nexttid m" "mt_tid mt' = mt_tid mt"
    "mt_initialized mt' = mt_initialized mt" "mm_epoch m' = mm_epoch m"
    "set (mt_retire_list mt') \<subseteq> insert s (set (mt_retire_list mt))"
    and kept: "\<And>q. \<lbrakk>allocated m q; q \<in> insert s (set (mt_retire_list mt)) \<Longrightarrow> mmm_lowest m \<le> ?at q\<rbrakk> \<Longrightarrow> allocated m' q \<and> retired_at m' q = ?at q"
  proof (rule retire_effect [OF T(4) s_alloc s_new [OF mine]], goal_cases)
    case (1 m' mt')
    show ?case by (rule 1(1) [OF 1(2-10)])
  qed
  have used: "used_tid m' = used_tid m" using r(3,4) by (simp add: used_tid_def fun_eq_iff)
  have doomed: "\<exists>j < k. cs ! j = q" if "q \<in> insert s (set (mt_retire_list mt))" for q using that js T(5) by blast
  have lists: "l \<in> set (lists_of ths) \<or> l = mt_retire_list mt'" if "l \<in> set (lists_of (ths[i := (mt', th')]))" for l
    using that set_update_subset_insert [of ths i "(mt', th')"] by fastforce
  have "chain_inv m' lk cur (ths[i := (mt', th')]) cs k" (is "chain_inv m' lk cur ?ths cs k")
  proof (rule chain_inv_update [OF inv i])
    have "allocated m' (cs ! j)" if j: "k \<le> j" "j < length cs" for j
    proof -
      have "cs ! j \<notin> insert s (set (mt_retire_list mt))"
      proof
        assume "cs ! j \<in> insert s (set (mt_retire_list mt))"
        then obtain j' where "j' < k" "cs ! j' = cs ! j" using doomed by blast
        then show False using chain_index [OF ch j(2), of j'] j(1) C(1) by simp
      qed
      then show ?thesis using kept [OF C(7) [OF j]] by blast
    qed
    then show "chain_ok m' lk cur cs k" using C by (simp add: chain_ok_def)
    have act: "active th" using parts_active(1) s(1) by blast
    have "\<exists>j < k. cs ! j = q" if "q \<in> set (mt_retire_list mt')" for q using doomed r(8) that by blast
    then show "thread_mem m' lk (lists_of ?ths) cs k (mt', th')"
      by (intro thread_memI) (use T(2,3) T(6) [OF act] r th' used in simp_all)
    fix y
    assume y: "y \<in> set ths" "apart y (mt, th)" "thread_mem m lk (lists_of ths) cs k y"
    obtain my ty where y_eq: "y = (my, ty)" by fastforce
    note Y = thread_memD [OF y(3) [unfolded y_eq]]
    let ?e = "mm_reservations m ! mt_tid my"
    have my: "mt_retire_list my \<in> set (lists_of ths)" using y(1) y_eq by force
    have low: "mmm_lowest m \<le> ?e" using mmm_lowest_le [OF Y(3)] .
    have safe: "safe m' (lists_of ?ths) ?e q" if q: "safe m (lists_of ths) ?e q" and e: "?e \<le> mm_epoch m" for q
    proof -
      have al: "allocated m q" and sq: "\<And>l. l \<in> set (lists_of ths) \<Longrightarrow> q \<in> set l \<Longrightarrow> ?e \<le> retired_at m q"
        using q unfolding safe_def by blast+
      have e': "?e \<le> ?at q" if "q \<in> insert s (set (mt_retire_list mt))" using that e sq [OF mine] by auto
      then have k: "allocated m' q \<and> retired_at m' q = ?at q" using al low by (intro kept) (auto intro: order_trans)
      have "?e \<le> ?at q" if l: "l \<in> set (lists_of ?ths)" "q \<in> set l" for l
        using lists [OF l(1)]
      proof
        assume "l \<in> set (lists_of ths)"
        then show ?thesis using sq [OF _ l(2)] e by simp
      qed (use e' r(8) l(2) in blast)
      with k show ?thesis by (simp add: safe_def)
    qed
    have sf: "safe_from m' (lists_of ?ths) ?e cs j" if "safe_from m (lists_of ths) ?e cs j" "?e \<le> mm_epoch m" for j
      using that safe by (simp add: safe_from_def)
    have own: "allocated m' q \<and> retired_at m' q = retired_at m q" if q: "q \<in> set (mt_retire_list my)" "allocated m q" for q
    proof -
      have "q \<noteq> s" using q(1) s_new [OF my] by blast
      moreover have "q \<notin> set (mt_retire_list mt)" using y(2) y_eq q(1) by (auto simp: apart_def)
      ultimately show ?thesis using kept [OF q(2)] by auto
    qed
    have ret: "q \<notin> set l" if q: "q \<in> t_retiring ty" "\<forall>l \<in> set (lists_of ths). q \<notin> set l" and l: "l \<in> set (lists_of ?ths)" for q l
    proof -
      have "q \<noteq> s" using y(2) y_eq q(1) s(2) by (auto simp: apart_def)
      then show ?thesis using lists [OF l] q(2) mine r(8) by blast
    qed
    have cand: "allocated m' c" if c: "allocated m c" "c \<notin> set cs" for c
    proof -
      have "c \<notin> insert s (set (mt_retire_list mt))" using doomed [of c] c(2) C(1) by (metis nth_mem order_less_trans)
      then show ?thesis using kept [OF c(1)] by blast
    qed
    have "thread_mem m' lk (lists_of ?ths) cs k y" unfolding y_eq
    proof (rule thread_mem_transfer [OF y(3) [unfolded y_eq]])
      show "used_tid m' (mt_tid my)" using Y(3) used by simp
      show "q \<notin> set l" if "q \<in> t_retiring ty" "\<forall>l \<in> set (lists_of ths). q \<notin> set l" "l \<in> set (lists_of ?ths)" for q l
        using ret that by blast
      show "safe_from m' (lists_of ?ths) ?e cs j" if "active ty" "?e \<le> mm_epoch m" "safe_from m (lists_of ths) ?e cs j" for j
        using sf that by blast
      show "allocated m' c \<and> c \<notin> set cs \<and> lk c = None" if "(p, c) \<in> t_cands ty" "allocated m c" "c \<notin> set cs" "lk c = None" for p c
        using cand that by blast
    qed (use own r(3,7) C(1) in simp_all)
    moreover have "apart y (mt', th')" using s_new [OF my] r(8) y_eq
      by (intro apart_less [OF y(2) r(5), where A = "{s}" and B = "{}" and C = "{}"]) (simp_all add: th')
    ultimately show "thread_mem m' lk (lists_of ?ths) cs k y \<and> apart y (mt', th')" by simp
  qed
  with r(1) show ?thesis by blast
qed

section \<open>Steps of a thread\<close>

text \<open>The points an operation has.\<close>

fun inserting :: "hihat_op \<Rightarrow> bool" where
  "inserting (OpPut hv item) = True"
| "inserting (OpAdd hv item) = True"
| "inserting c = False"

fun op_point :: "hihat_op \<Rightarrow> hihat_pc \<Rightarrow> bool" where
  "op_point c (HAcquire s r bix i) = inserting c"
| "op_point c (HUsed s r bix) = inserting c"
| "op_point c (HEpoch s r bix rcd) = inserting c"
| "op_point c (HBump s r bix rcd e) = inserting c"
| "op_point c (HInstall s r bix rcd cand) = (case c of OpGet hv \<Rightarrow> False | _ \<Rightarrow> True)"
| "op_point c (HCount s r res) = (inserting c \<or> (case c of OpRemove hv \<Rightarrow> True | _ \<Rightarrow> False))"
| "op_point c pc = True"

text \<open>The result of a step that leaves the memory manager and the chain alone, and does not fail.\<close>

definition calm :: "hihat \<Rightarrow> mmm_thread \<Rightarrow> hihat_op \<Rightarrow> nat set \<Rightarrow> hihat_state \<times> (hihat_pc + (ptr \<times> bool) outcome) \<Rightarrow> bool" where
  "calm t mt c S x \<longleftrightarrow> (\<exists>t' pc'. x = ((t', mt), Inl pc') \<and> hh_mmm t' = hh_mmm t \<and> (\<forall>p. link_of t' p = link_of t p) \<and>
     hh_store_current t' = hh_store_current t \<and> op_point c pc' \<and> pc_sources pc' \<subseteq> insert (hh_store_current t) S \<and>
     pc_part migrate_targets pc' = {} \<and> pc_part migrate_retiring pc' = {} \<and> pc_part migrate_cands pc' = {})"

lemma calm_simps:
  "calm t mt c S ((t', mt), Inl pc') \<longleftrightarrow> hh_mmm t' = hh_mmm t \<and> (\<forall>p. link_of t' p = link_of t p) \<and>
     hh_store_current t' = hh_store_current t \<and> op_point c pc' \<and> pc_sources pc' \<subseteq> insert (hh_store_current t) S \<and>
     pc_part migrate_targets pc' = {} \<and> pc_part migrate_retiring pc' = {} \<and> pc_part migrate_cands pc' = {}"
  by (auto simp: calm_def)

lemma link_write_used [simp]: "link_of (write_store t s ((hh_stores t s)\<lparr>hs_used_count := n\<rparr>)) p = link_of t p"
  by (simp add: write_store_def)

lemma return_parts [simp]: "pc_sources (hihat_return v r res) = {}" "pc_part f (hihat_return v r res) = {}" "op_point c (hihat_return v r res)"
  by (simp_all add: hihat_return_def)

lemma retry_parts [simp]:
  "pc_sources (migrate_and_retry v s r) = {s}" "pc_part migrate_targets (migrate_and_retry v s r) = {}"
  "pc_part migrate_retiring (migrate_and_retry v s r) = {}" "pc_part migrate_cands (migrate_and_retry v s r) = {}"
  "op_point c (migrate_and_retry v s r)"
  by (simp_all add: migrate_and_retry_def Let_def)

lemma probe_next_parts [simp]:
  "pc_sources (probe_next store s r bix i pc) = (if i < hs_last_slot store then {s} else pc_sources pc)"
  "pc_part f (probe_next store s r bix i pc) = (if i < hs_last_slot store then {} else pc_part f pc)"
  "op_point c (probe_next store s r bix i pc) = (i < hs_last_slot store \<or> op_point c pc)"
  by (simp_all add: probe_next_def)

lemma pc_keys_range:
  "pc_keys t hv (HProbe s r bix i) \<Longrightarrow> bix < length (hs_buckets (hh_stores t s))"
  "pc_keys t hv (HAcquire s r bix i) \<Longrightarrow> bix < length (hs_buckets (hh_stores t s))"
  "pc_keys t hv (HRecord s r bix) \<Longrightarrow> bix < length (hs_buckets (hh_stores t s))"
  "pc_keys t hv (HInstall s r bix old new) \<Longrightarrow> bix < length (hs_buckets (hh_stores t s))"
  using probing_inside [of t s hv bix i] by (simp_all add: inside_def owns_def)

fun plain_pc :: "hihat_pc \<Rightarrow> bool" where
  "plain_pc HBegin = False"
| "plain_pc (HMigrate r q) = False"
| "plain_pc (HTidy r res q) = False"
| "plain_pc (HLeave res) = False"
| "plain_pc pc = True"

lemma op_step_calm:
  assumes al: "\<And>s. s \<in> pc_sources pc \<Longrightarrow> allocated (hh_mmm t) s" and keys: "pc_keys t (op_key c) pc" and pt: "op_point c pc" and pl: "plain_pc pc"
  shows "calm t mt c (pc_sources pc) (op_step v c pc (t, mt))"
proof (cases c)
  case (OpGet hv)
  then show ?thesis using al keys pt pl pc_keys_range
    by (cases pc) (auto simp: calm_simps hihat_first_def)
next
  case (OpPut hv item)
  then show ?thesis using al keys pt pl pc_keys_range
    by (cases pc) (auto simp: calm_simps hihat_first_def Let_def)
next
  case (OpReplace hv item)
  then show ?thesis using al keys pt pl pc_keys_range
    by (cases pc) (auto simp: calm_simps hihat_first_def Let_def)
next
  case (OpAdd hv item)
  then show ?thesis using al keys pt pl pc_keys_range
    by (cases pc) (auto simp: calm_simps hihat_first_def Let_def)
next
  case (OpRemove hv)
  then show ?thesis using al keys pt pl pc_keys_range
    by (cases pc) (auto simp: calm_simps hihat_first_def Let_def)
qed

text \<open>A step of a migration that leaves the memory manager and the chain alone.\<close>

definition calm_migrate :: "hihat \<Rightarrow> mmm_thread \<Rightarrow> migrate_pc \<Rightarrow> hihat_state \<times> (migrate_pc + nat outcome) \<Rightarrow> bool" where
  "calm_migrate t mt q x \<longleftrightarrow> (\<exists>t' r. x = ((t', mt), r) \<and> hh_mmm t' = hh_mmm t \<and> (\<forall>p. link_of t' p = link_of t p) \<and>
     hh_store_current t' = hh_store_current t \<and>
     (case r of
        Inl q' \<Rightarrow> migrate_sources q' \<subseteq> migrate_sources q \<and>
          (\<forall>n \<in> migrate_targets q'. n \<in> migrate_targets q \<or> (\<exists>s \<in> migrate_sources q. link_of t s = Some n)) \<and>
          migrate_retiring q' = {} \<and> migrate_cands q' \<subseteq> migrate_cands q
      | Inr (Inl e) \<Rightarrow> False
      | Inr (Inr s) \<Rightarrow> s = hh_store_current t))"

fun plain_migrate :: "hihat \<Rightarrow> migrate_pc \<Rightarrow> bool" where
  "plain_migrate t (MAlloc s used new_size) = False"
| "plain_migrate t (MLink s used c) = (link_of t s \<noteq> None)"
| "plain_migrate t (MDiscard s n used c) = False"
| "plain_migrate t (MInstall s n) = (hh_store_current t \<noteq> s)"
| "plain_migrate t (MRetire s) = False"
| "plain_migrate t q = True"

lemma next_parts [simp]:
  "migrate_sources (mark_next st s i used) = {s}" "migrate_targets (mark_next st s i used) = {}"
  "migrate_retiring (mark_next st s i used) = {}" "migrate_cands (mark_next st s i used) = {}"
  "migrate_sources (move_start v s n used) = {s}" "migrate_targets (move_start v s n used) = {n}"
  "migrate_retiring (move_start v s n used) = {}" "migrate_cands (move_start v s n used) = {}"
  "migrate_sources (move_next st s n i used) = {s}" "migrate_targets (move_next st s n i used) = {n}"
  "migrate_retiring (move_next st s n i used) = {}" "migrate_cands (move_next st s n i used) = {}"
  "migrate_sources (place_next st s n i used rcd hv bix j) = {s}" "migrate_targets (place_next st s n i used rcd hv bix j) = {n}"
  "migrate_retiring (place_next st s n i used rcd hv bix j) = {}" "migrate_cands (place_next st s n i used rcd hv bix j) = {}"
  by (simp_all add: mark_next_def move_start_def move_next_def place_next_def)

lemma migrate_step_calm:
  assumes al: "\<And>s. s \<in> migrate_sources q \<Longrightarrow> allocated (hh_mmm t) s" "\<And>n. n \<in> migrate_targets q \<Longrightarrow> allocated (hh_mmm t) n"
    and keys: "migrate_keys t q" and pl: "plain_migrate t q"
  shows "calm_migrate t mt q (hihat_store_migrate_step v q (t, mt))"
proof (cases q)
  case (MProbe s n i used rcd hv bix j)
  then show ?thesis using al keys probing_inside [of t n hv bix j] by (auto simp: calm_migrate_def inside_def)
next
  case (MTake s n i used rcd hv bix j)
  then show ?thesis using al keys probing_inside [of t n hv bix j] by (auto simp: calm_migrate_def inside_def)
qed (use al keys pl in \<open>auto simp: calm_migrate_def inside_def Let_def split: option.splits\<close>)

section \<open>Steps of the system\<close>

abbreviation table_chain :: "hihat \<Rightarrow> (mmm_thread \<times> hihat_thread) list \<Rightarrow> bool" where
  "table_chain t ths \<equiv> \<exists>cs k. chain_inv (hh_mmm t) (link_of t) (hh_store_current t) ths cs k"

lemma thread_allocated:
  assumes inv: "chain_inv m lk cur ths cs k" and i: "i < length ths" "ths ! i = (mt, th)"
  shows "s \<in> t_sources th \<Longrightarrow> allocated m s" "n \<in> t_targets th \<Longrightarrow> allocated m n"
proof -
  note T = thread_memD [OF chain_invD(2) [OF inv nth_mem [OF i(1), unfolded i(2)]]] and C = chain_okD [OF chain_invD(1) [OF inv]]
  show "allocated m s" if "s \<in> t_sources th" using T(7) [OF that] C(1) by (auto simp: safe_from_def safe_def)
  show "allocated m n" if "n \<in> t_targets th" using T(8) [OF that] by (auto simp: safe_from_def safe_def)
qed

lemma calm_chain:
  assumes inv: "chain_inv (hh_mmm t) (link_of t) (hh_store_current t) ths cs k" and i: "i < length ths" "ths ! i = (mt, th)"
    and q: "quiet_move (link_of t) (hh_store_current t) th th'"
    and t': "hh_mmm t' = hh_mmm t" "\<forall>p. link_of t' p = link_of t p" "hh_store_current t' = hh_store_current t"
  shows "table_chain t' (ths[i := (mt, th')])"
proof -
  have "link_of t' = link_of t" using t'(2) by blast
  with quiet_chain [OF inv i q] t'(1,3) show ?thesis by auto
qed

text \<open>A migration, called from a point \<open>loc\<close> of an operation that goes on with \<open>cont\<close>.\<close>

lemma migrating_chain:
  assumes inv: "chain_inv (hh_mmm t) (link_of t) (hh_store_current t) ths cs k" and i: "i < length ths" "ths ! i = (mt, InOp c (loc q))"
    and keys: "migrate_keys t q" and ep: "mm_epoch (hh_mmm t) + 1 < 2 ^ 64"
    and pts: "\<And>q. pc_sources (loc q) = migrate_sources q" "\<And>q. pc_part migrate_targets (loc q) = migrate_targets q"
      "\<And>q. pc_part migrate_retiring (loc q) = migrate_retiring q" "\<And>q. pc_part migrate_cands (loc q) = migrate_cands q"
      "\<And>q. loc q \<noteq> HBegin" "\<And>q. op_point c (loc q)"
    and ret: "\<And>s. pc_sources (cont s) \<subseteq> {s}" "\<And>s. pc_part migrate_targets (cont s) = {}"
      "\<And>s. pc_part migrate_retiring (cont s) = {}" "\<And>s. pc_part migrate_cands (cont s) = {}" "\<And>s. op_point c (cont s)"
    and step: "call_step loc cont (hihat_store_migrate_step v q (t, mt)) = ((t', mt'), r)"
  shows "table_chain t' (ths[i := (mt', after_step (InOp c) r)]) \<and> (\<exists>pc. r = Inl pc \<and> op_point c pc)"
proof -
  note al = thread_allocated [OF inv i] and T = thread_memD [OF chain_invD(2) [OF inv nth_mem [OF i(1), unfolded i(2)]]]
  show ?thesis
  proof (cases "plain_migrate t q")
    case True
    obtain x where x: "hihat_store_migrate_step v q (t, mt) = ((t', mt), x)" "hh_mmm t' = hh_mmm t" "\<forall>p. link_of t' p = link_of t p"
      "hh_store_current t' = hh_store_current t"
      "case x of
        Inl q' \<Rightarrow> migrate_sources q' \<subseteq> migrate_sources q \<and>
          (\<forall>n \<in> migrate_targets q'. n \<in> migrate_targets q \<or> (\<exists>s \<in> migrate_sources q. link_of t s = Some n)) \<and>
          migrate_retiring q' = {} \<and> migrate_cands q' \<subseteq> migrate_cands q
      | Inr (Inl e) \<Rightarrow> False
      | Inr (Inr s) \<Rightarrow> s = hh_store_current t" and mt': "mt' = mt"
    proof -
      have "calm_migrate t mt q (hihat_store_migrate_step v q (t, mt))"
        by (rule migrate_step_calm) (use al keys True pts in auto)
      then obtain t2 x where x: "hihat_store_migrate_step v q (t, mt) = ((t2, mt), x)" and rest: "calm_migrate t mt q ((t2, mt), x)"
        unfolding calm_migrate_def by auto
      have "t' = t2" "mt' = mt" using arg_cong [OF step, of fst] unfolding x call_step_table by simp_all
      with x rest show ?thesis by (intro that [of x]) (auto simp: calm_migrate_def)
    qed
    obtain pc where pc: "r = Inl pc" "op_point c pc" "quiet_move (link_of t) (hh_store_current t) (InOp c (loc q)) (InOp c pc)"
    proof (cases x)
      case (Inl q')
      then have "r = Inl (loc q')" using step x(1) by (simp add: call_step_def)
      moreover have "quiet_move (link_of t) (hh_store_current t) (InOp c (loc q)) (InOp c (loc q'))"
        using x(5) Inl pts by (auto simp: quiet_move_def)
      ultimately show ?thesis using that [of "loc q'"] pts(6) by blast
    next
      case (Inr y)
      then have "y = Inr (hh_store_current t)" using x(5) by (auto split: sum.splits)
      then have "r = Inl (cont (hh_store_current t))" using step x(1) Inr by (simp add: call_step_def)
      then show ?thesis using that [of "cont (hh_store_current t)"] ret [of "hh_store_current t"] pts(5)
        by (auto simp: quiet_move_def)
    qed
    show ?thesis using calm_chain [OF inv i pc(3) x(2-4)] pc mt' by simp
  next
    case False
    show ?thesis
    proof (cases q)
      case (MAlloc s used new_size)
      obtain m' n where m': "mmm_alloc_committed (hh_mmm t) (wrap64 (sizeof_hihat_store + wrap64 (sizeof_hihat_bucket * new_size))) = (m', n)"
        by fastforce
      have nt: "mm_nexttid m' = mm_nexttid (hh_mmm t)" using m' by (auto simp: mmm_alloc_committed_eq)
      have t': "hh_mmm t' = m'" "link_of t' = (link_of t)(n := None)" "hh_store_current t' = hh_store_current t" "mt' = mt"
          "r = Inl (loc (MLink s used n))"
        using step m' MAlloc by (auto simp: hihat_store_new_def Let_def call_step_def fun_eq_iff)
      have "chain_inv m' ((link_of t)(n := None)) (hh_store_current t) (ths[i := (mt, InOp c (loc (MLink s used n)))]) cs k"
        by (rule alloc_chain [OF inv i m' ep nt, of _ s]) (use pts MAlloc in simp_all)
      then show ?thesis using t' pts(6) by auto
    next
      case (MLink s used n)
      then have s: "s \<in> t_sources (InOp c (loc q))" "(s, n) \<in> t_cands (InOp c (loc q))" using pts by simp_all
      then have "read_store t s = Inr (hh_stores t s)" "link_of t s = None" using al(1) False MLink by simp_all
      then have t': "hh_mmm t' = hh_mmm t" "link_of t' = (link_of t)(s := Some n)" "hh_store_current t' = hh_store_current t" "mt' = mt"
          "r = Inl (loc (move_start v s n used))"
        using step MLink by (auto simp: call_step_def fun_eq_iff write_store_def)
      have "chain_inv (hh_mmm t) ((link_of t)(s := Some n)) (hh_store_current t) (ths[i := (mt, InOp c (loc (move_start v s n used)))]) (cs @ [n]) k"
        by (rule link_chain [OF inv i s(2,1) \<open>link_of t s = None\<close>]) (use pts MLink in simp_all)
      then show ?thesis using t' pts(6) by auto
    next
      case (MDiscard s n used d)
      have d: "(s, d) \<in> t_cands (InOp c (loc q))" using MDiscard pts by simp
      have "\<exists>m'. mmm_retire_unused (hh_mmm t) d = Inr m' \<and>
          chain_inv m' (link_of t) (hh_store_current t) (ths[i := (mt, InOp c (loc (move_start v s n used)))]) cs k"
        by (rule discard_chain [OF inv i d]) (use pts MDiscard in simp_all)
      then obtain m' where m': "mmm_retire_unused (hh_mmm t) d = Inr m'"
        "chain_inv m' (link_of t) (hh_store_current t) (ths[i := (mt, InOp c (loc (move_start v s n used)))]) cs k" by blast
      have "t' = t\<lparr>hh_mmm := m'\<rparr>" "mt' = mt" "r = Inl (loc (move_start v s n used))"
        using step MDiscard m'(1) by (auto simp: call_step_def)
      then show ?thesis using m'(2) pts(6) by auto
    next
      case (MInstall s n)
      then have s: "hh_store_current t = s" "link_of t s = Some n" using False keys by (simp_all add: linked_def)
      have "chain_inv (hh_mmm t) (link_of t) n (ths[i := (mt, InOp c (loc (MRetire s)))]) cs (Suc k)"
        by (rule install_chain [OF inv i]) (use pts MInstall s in simp_all)
      moreover have "t' = t\<lparr>hh_store_current := n\<rparr>" "mt' = mt" "r = Inl (loc (MRetire s))" using step MInstall s by (auto simp: call_step_def)
      ultimately show ?thesis using pts(6) by auto
    next
      case (MRetire s)
      have "\<exists>m' mt'. mmm_retire (hh_mmm t) mt s = Inr (m', mt') \<and>
          chain_inv m' (link_of t) (hh_store_current t) (ths[i := (mt', InOp c (loc MReturn))]) cs k"
        by (rule retire_chain [OF inv i]) (use pts MRetire in simp_all)
      then obtain m' mt2 where m': "mmm_retire (hh_mmm t) mt s = Inr (m', mt2)"
        "chain_inv m' (link_of t) (hh_store_current t) (ths[i := (mt2, InOp c (loc MReturn))]) cs k" by blast
      have "t' = t\<lparr>hh_mmm := m'\<rparr>" "mt' = mt2" "r = Inl (loc MReturn)" using step MRetire m'(1) by (auto simp: call_step_def)
      then show ?thesis using m'(2) pts(6) by auto
    qed (use False in simp_all)
  qed
qed

lemma op_step_common:
  "op_step v c HBegin st = hihat_common_step v HBegin st" "op_step v c (HLeave res) st = hihat_common_step v (HLeave res) st"
  "op_step v c (HMigrate r q) st = hihat_common_step v (HMigrate r q) st"
  "op_step v c (HTidy r res q) st = hihat_common_step v (HTidy r res q) st"
  by (cases c; simp)+

lemma op_step_chain:
  assumes inv: "chain_inv (hh_mmm t) (link_of t) (hh_store_current t) ths cs k" and i: "i < length ths" "ths ! i = (mt, InOp c pc)"
    and keys: "pc_keys t (op_key c) pc" and pt: "op_point c pc" and ep: "mm_epoch (hh_mmm t) + 1 < 2 ^ 64"
    and step: "op_step v c pc (t, mt) = ((t', mt'), r)"
  shows "table_chain t' (ths[i := (mt', after_step (InOp c) r)]) \<and> (\<forall>pc. r = Inl pc \<longrightarrow> op_point c pc)"
proof -
  note T = thread_memD [OF chain_invD(2) [OF inv nth_mem [OF i(1), unfolded i(2)]]]
  have tid: "mt_tid mt < length (mm_reservations (hh_mmm t))" using T(3) by (simp add: used_tid_def)
  consider "pc = HBegin" | res where "pc = HLeave res" | r0 q where "pc = HMigrate r0 q" | r0 res q where "pc = HTidy r0 res q" | "plain_pc pc"
    by (cases pc) auto
  then show ?thesis
  proof cases
    case 1
    have "t' = t\<lparr>hh_mmm := (hh_mmm t)\<lparr>mm_reservations := (mm_reservations (hh_mmm t))[mt_tid mt := mm_epoch (hh_mmm t)]\<rparr>\<rparr>" "mt' = mt" "r = Inl HCurrent"
      using step tid unfolding 1 op_step_common by (auto simp: mmm_start_basic_op_def mmm_reserve_def)
    moreover have "chain_inv ((hh_mmm t)\<lparr>mm_reservations := (mm_reservations (hh_mmm t))[mt_tid mt := mm_epoch (hh_mmm t)]\<rparr>) (link_of t)
        (hh_store_current t) (ths[i := (mt, InOp c HCurrent)]) cs k"
      by (rule reserve_chain [OF inv i]) simp_all
    ultimately show ?thesis by auto
  next
    case 2
    have "t' = t\<lparr>hh_mmm := (hh_mmm t)\<lparr>mm_reservations := (mm_reservations (hh_mmm t))[mt_tid mt := HATRACK_EPOCH_UNRESERVED]\<rparr>\<rparr>" "mt' = mt" "r = Inr (Inr res)"
      using step tid unfolding 2 op_step_common by (auto simp: mmm_end_op_def mmm_reserve_def)
    moreover have "chain_inv ((hh_mmm t)\<lparr>mm_reservations := (mm_reservations (hh_mmm t))[mt_tid mt := HATRACK_EPOCH_UNRESERVED]\<rparr>) (link_of t)
        (hh_store_current t) (ths[i := (mt, Between)]) cs k"
      by (rule reserve_chain [OF inv i]) simp_all
    ultimately show ?thesis by auto
  next
    case 3
    have "table_chain t' (ths[i := (mt', after_step (InOp c) r)]) \<and> (\<exists>pc. r = Inl pc \<and> op_point c pc)"
      by (rule migrating_chain [OF inv i(1), where loc = "HMigrate r0" and cont = "\<lambda>s. HFirst s r0"])
        (use i(2) keys ep step 3 in \<open>simp_all add: op_step_common\<close>)
    then show ?thesis by auto
  next
    case 4
    have "table_chain t' (ths[i := (mt', after_step (InOp c) r)]) \<and> (\<exists>pc. r = Inl pc \<and> op_point c pc)"
      by (rule migrating_chain [OF inv i(1), where loc = "HTidy r0 res" and cont = "\<lambda>s. hihat_return v r0 res"])
        (use i(2) keys ep step 4 in \<open>simp_all add: op_step_common\<close>)
    then show ?thesis by auto
  next
    case 5
    then have "calm t mt c (pc_sources pc) (op_step v c pc (t, mt))"
      using thread_allocated(1) [OF inv i] keys pt by (intro op_step_calm) simp_all
    then obtain pc' where pc': "mt' = mt" "r = Inl pc'" "hh_mmm t' = hh_mmm t" "\<forall>p. link_of t' p = link_of t p"
      "hh_store_current t' = hh_store_current t" "op_point c pc'" "pc_sources pc' \<subseteq> insert (hh_store_current t) (pc_sources pc)"
      "pc_part migrate_targets pc' = {}" "pc_part migrate_retiring pc' = {}" "pc_part migrate_cands pc' = {}"
      using step by (auto simp: calm_def)
    have "quiet_move (link_of t) (hh_store_current t) (InOp c pc) (InOp c pc')" using pc' 5 by (auto simp: quiet_move_def)
    from calm_chain [OF inv i this pc'(3-5)] show ?thesis using pc'(1,2,6) by simp
  qed
qed

lemma view_step_chain:
  assumes inv: "chain_inv (hh_mmm t) (link_of t) (hh_store_current t) ths cs k" and i: "i < length ths" "ths ! i = (mt, InView srt pc)"
    and keys: "view_keys t pc" and step: "hihat_view_step srt pc (t, mt) = ((t', mt'), r)"
  shows "table_chain t' (ths[i := (mt', after_step (InView srt) r)])"
proof -
  note T = thread_memD [OF chain_invD(2) [OF inv nth_mem [OF i(1), unfolded i(2)]]]
  have tid: "mt_tid mt < length (mm_reservations (hh_mmm t))" using T(3) by (simp add: used_tid_def)
  show ?thesis
  proof (cases pc)
    case WBegin
    have "t' = t\<lparr>hh_mmm := (hh_mmm t)\<lparr>mm_reservations := (mm_reservations (hh_mmm t))[mt_tid mt := mm_epoch (hh_mmm t)]\<rparr>\<rparr>" "mt' = mt" "r = Inl WCurrent"
      using step tid WBegin by (auto simp: mmm_start_basic_op_def mmm_reserve_def)
    moreover have "chain_inv ((hh_mmm t)\<lparr>mm_reservations := (mm_reservations (hh_mmm t))[mt_tid mt := mm_epoch (hh_mmm t)]\<rparr>) (link_of t)
        (hh_store_current t) (ths[i := (mt, InView srt WCurrent)]) cs k"
      by (rule reserve_chain [OF inv i]) simp_all
    ultimately show ?thesis by auto
  next
    case WCurrent
    then have "t' = t" "mt' = mt" "r = Inl (WRead (hh_store_current t) 0 [])" using step by auto
    then show ?thesis using WCurrent quiet_chain [OF inv i, of "InView srt (WRead (hh_store_current t) 0 [])"] by (auto simp: quiet_move_def)
  next
    case (WRead s j view)
    then have "allocated (hh_mmm t) s" "j < length (hs_buckets (hh_stores t s))"
      using thread_allocated(1) [OF inv i, of s] keys by (simp_all add: inside_def)
    then obtain pc' where pc': "t' = t" "mt' = mt" "r = Inl pc'" "(\<exists>j view. pc' = WRead s j view) \<or> (\<exists>view. pc' = WLeave view)"
      using step WRead by (auto simp: Let_def split: if_splits)
    then have "quiet_move (link_of t) (hh_store_current t) (InView srt pc) (InView srt pc')" using WRead by (auto simp: quiet_move_def)
    from quiet_chain [OF inv i this] show ?thesis using pc' by auto
  next
    case (WLeave view)
    have "t' = t\<lparr>hh_mmm := (hh_mmm t)\<lparr>mm_reservations := (mm_reservations (hh_mmm t))[mt_tid mt := HATRACK_EPOCH_UNRESERVED]\<rparr>\<rparr>" "mt' = mt"
        "after_step (InView srt) r = Between"
      using step tid WLeave by (auto simp: mmm_end_op_def mmm_reserve_def)
    moreover have "chain_inv ((hh_mmm t)\<lparr>mm_reservations := (mm_reservations (hh_mmm t))[mt_tid mt := HATRACK_EPOCH_UNRESERVED]\<rparr>) (link_of t)
        (hh_store_current t) (ths[i := (mt, Between)]) cs k"
      by (rule reserve_chain [OF inv i]) simp_all
    ultimately show ?thesis by auto
  qed
qed

text \<open>The invariant of the system.\<close>

definition system_points :: "hihat_system \<Rightarrow> bool" where
  "system_points g \<longleftrightarrow> (\<forall>m c pc. (m, InOp c pc) \<in> set (sy_threads g) \<longrightarrow> op_point c pc)"

lemma system_points_update:
  assumes "system_points g" "\<And>c pc. th = InOp c pc \<Longrightarrow> op_point c pc"
  shows "system_points (set_hthread g i st th)"
  using assms set_update_subset_insert [of "sy_threads g" i "(snd st, th)"] by (fastforce simp: system_points_def set_hthread_def)

lemma system_step_mem:
  assumes step: "hihat_system_step v g g'" and keys: "system_keys g" and mem: "system_mem g" and pts: "system_points g"
    and e: "memory_suffices (sy_table g)"
  shows "system_mem g' \<and> system_points g'"
proof -
  obtain cs k where inv: "chain_inv (hh_mmm (sy_table g)) (link_of (sy_table g)) (hh_store_current (sy_table g)) (sy_threads g) cs k"
    using mem by (auto simp: system_mem_def)
  from step show ?thesis
  proof cases
    case (call i m c)
    have "quiet_move (link_of (sy_table g)) (hh_store_current (sy_table g)) Between (InOp c HBegin)" by (simp add: quiet_move_def)
    from quiet_chain [OF inv call(2,3) this] have "system_mem g'" using call(1) by (auto simp: system_mem_def set_hthread_def)
    then show ?thesis using call(1) system_points_update [OF pts, of "InOp c HBegin"] by simp
  next
    case (call_view i m srt)
    have "quiet_move (link_of (sy_table g)) (hh_store_current (sy_table g)) Between (InView srt WBegin)" by (simp add: quiet_move_def)
    from quiet_chain [OF inv call_view(2,3) this] have "system_mem g'" using call_view(1) by (auto simp: system_mem_def set_hthread_def)
    then show ?thesis using call_view(1) system_points_update [OF pts, of "InView srt WBegin"] by simp
  next
    case (step i m c pc st r)
    obtain t' m' where st: "st = (t', m')" by fastforce
    have th: "(m, InOp c pc) \<in> set (sy_threads g)" using nth_mem [OF step(2)] step(3) by simp
    have k: "pc_keys (sy_table g) (op_key c) pc" "op_point c pc" using keys pts th by (auto simp: system_keys_def system_points_def)
    have ch: "table_chain t' ((sy_threads g)[i := (m', after_step (InOp c) r)]) \<and> (\<forall>pc. r = Inl pc \<longrightarrow> op_point c pc)"
      by (rule op_step_chain [OF inv step(2,3) k]) (use e step(4) st in \<open>simp_all add: memory_suffices_def\<close>)
    have "op_point c' pc'" if "after_step (InOp c) r = InOp c' pc'" for c' pc'
      using that ch by (cases "(InOp c, r)" rule: after_step.cases) auto
    from system_points_update [OF pts this] have "system_points g'" using step(1) by simp
    moreover have "system_mem g'" using ch step(1) st by (simp add: system_mem_def set_hthread_def)
    ultimately show ?thesis by simp
  next
    case (step_view i m srt pc st r)
    obtain t' m' where st: "st = (t', m')" by fastforce
    have k: "view_keys (sy_table g) pc" using keys nth_mem [OF step_view(2)] step_view(3) by (auto simp: system_keys_def)
    have ch: "table_chain t' ((sy_threads g)[i := (m', after_step (InView srt) r)])"
      by (rule view_step_chain [OF inv step_view(2,3) k]) (use step_view(4) st in simp)
    have "op_point c' pc'" if "after_step (InView srt) r = InOp c' pc'" for c' pc'
      using that by (cases "(InView srt, r)" rule: after_step.cases) auto
    from system_points_update [OF pts this] have "system_points g'" using step_view(1) by simp
    moreover have "system_mem g'" using ch step_view(1) st by (simp add: system_mem_def set_hthread_def)
    ultimately show ?thesis by simp
  qed
qed

lemma hihat_start_mem:
  assumes start: "hihat_start v stores help_needed sz n = Inr g" and n: "n \<le> HATRACK_THREADS_MAX"
  shows "system_mem g" "system_points g"
proof -
  let ?m = "mmm_start\<lparr>mm_nexttid := n, mm_reservations := replicate n HATRACK_EPOCH_UNRESERVED @ replicate (HATRACK_THREADS_MAX - n) 0\<rparr>"
  obtain k st where st: "hs_store_next st = None" "hh_store_current (sy_table g) = 0" "hh_stores (sy_table g) 0 = st"
    and m: "hh_mmm (sy_table g) = fst (mmm_alloc_committed ?m 0)"
    and ths: "sy_threads g = map (\<lambda>i. (\<lparr>mt_tid = i, mt_retire_ctr = 0, mt_retire_list = [], mt_initialized = True\<rparr>, Between)) [0..<n]"
    using hihat_startE [OF start] by metis
  show "system_points g" by (auto simp: system_points_def ths)
  have "allocated (hh_mmm (sy_table g)) 0" unfolding m by (simp add: mmm_alloc_committed_eq mmm_start_def allocated_def)
  then have ch: "chain_ok (hh_mmm (sy_table g)) (link_of (sy_table g)) (hh_store_current (sy_table g)) [0] 0" using st by (simp add: chain_ok_def)
  have used: "used_tid (hh_mmm (sy_table g)) i" if "i < n" for i
    unfolding m using that n by (simp add: mmm_alloc_committed_eq mmm_start_def used_tid_def)
  have "thread_mem (hh_mmm (sy_table g)) (link_of (sy_table g)) (lists_of (sy_threads g)) [0] 0 x" if x: "x \<in> set (sy_threads g)" for x
  proof -
    obtain i where "i < n" "x = (\<lparr>mt_tid = i, mt_retire_ctr = 0, mt_retire_list = [], mt_initialized = True\<rparr>, Between)"
      using x ths by auto
    then show ?thesis using used by (auto intro!: thread_memI simp: retire_ok_def)
  qed
  moreover have "apart (sy_threads g ! i) (sy_threads g ! j)" if "i < length (sy_threads g)" "j < length (sy_threads g)" "i \<noteq> j" for i j
    using that ths by (simp add: apart_def)
  ultimately show "system_mem g" using ch unfolding system_mem_def chain_inv_def by blast
qed

lemma run_mem:
  assumes "hihat_system_run v g g'" "system_keys g" "system_mem g" "system_points g"
  shows "system_mem g' \<and> system_points g' \<and> system_keys g' \<and> memory_suffices (sy_table g')"
  using assms
proof (induction rule: hihat_system_run.induct)
  case (next_step g1 g2)
  then show ?case using system_step_mem [of v g1 g2] system_step_keys [of v g1 g2] by blast
qed simp

section \<open>Properties\<close>

text \<open>C4: No interleaving of threads on a lock-free table makes a thread touch freed memory, follow a null link, leave the bounds of a
  store or reach a point its operation does not have, although stores are replaced and freed while other threads still
  work in them: no thread ever stops. The store the table points to is allocated, and so is every store a thread is working in.\<close>

theorem hihat_threads_memory_safe:
  assumes "hihat_start v stores help_needed sz n = Inr g0" "n \<le> HATRACK_THREADS_MAX" "hihat_system_run v g0 g"
  shows "(\<forall>m e. (m, Stopped e) \<notin> set (sy_threads g)) \<and> allocated (hh_mmm (sy_table g)) (hh_store_current (sy_table g)) \<and>
     (\<forall>m th s. (m, th) \<in> set (sy_threads g) \<longrightarrow> s \<in> t_sources th \<union> t_targets th \<longrightarrow> allocated (hh_mmm (sy_table g)) s)"
proof -
  have "system_mem g" using run_mem [OF assms(3) hihat_start_keys [OF assms(1)] hihat_start_mem [OF assms(1,2)]] by blast
  then obtain cs k where inv: "chain_inv (hh_mmm (sy_table g)) (link_of (sy_table g)) (hh_store_current (sy_table g)) (sy_threads g) cs k"
    by (auto simp: system_mem_def)
  have "th \<noteq> Stopped e" if "(m, th) \<in> set (sy_threads g)" for m th e using thread_memD(1) [OF chain_invD(2) [OF inv that]] .
  moreover have "allocated (hh_mmm (sy_table g)) (hh_store_current (sy_table g))"
    using chain_okD(1,4) [OF chain_invD(1) [OF inv]] chain_okD(7) [OF chain_invD(1) [OF inv], of k] by simp
  moreover have "allocated (hh_mmm (sy_table g)) s" if "(m, th) \<in> set (sy_threads g)" "s \<in> t_sources th \<union> t_targets th" for m th s
    using that thread_allocated [OF inv] by (auto simp: in_set_conv_nth)
  ultimately show ?thesis by blast
qed

theorem hihat_threads_memory_safe_witness:
  "\<exists>g. hihat_system_run Plain (example_system HATRACK_EPOCH_UNRESERVED 0 0 1 Between) g \<and>
     (\<exists>m th. (m, th) \<in> set (sy_threads g) \<and> 0 \<in> t_sources th) \<and> allocated (hh_mmm (sy_table g)) 0"
proof -
  let ?th = "InOp (OpPut 5 9) (HInstall 0 0 5 zero_record \<lparr>hr_item = 9, hr_info = HIHAT_F_INITED OR 1\<rparr>)"
  let ?g = "example_system 2 5 1 2 ?th"
  have th: "(example_thread 0, ?th) \<in> set (sy_threads ?g)" "0 \<in> t_sources ?th" by (simp_all add: example_system_def)
  have "2 \<le> HATRACK_THREADS_MAX" by (simp add: HATRACK_THREADS_MAX_def)
  from hihat_threads_memory_safe [OF example_started this example_run] th
  have "allocated (hh_mmm (sy_table ?g)) 0" by blast
  with example_run th show ?thesis by blast
qed

end
