(* ===== verification/Ncpp_Lex.thy ===== *)
theory Ncpp_Lex
  imports N00b_Prelude
begin

text \<open>
  The lexer of the preprocessor, \<^verbatim>\<open>src/ncpp/tokenize.c\<close> with the token type of
  \<^verbatim>\<open>include/ncpp.h\<close> and \<^verbatim>\<open>alloc_tokens\<close> of \<^verbatim>\<open>src/ncpp/utils.c\<close>.

  A buffer is the string of its bytes; \<^verbatim>\<open>read_file\<close> allocates no byte behind them, so reading
  at its length is out of bounds. The pointer \<^verbatim>\<open>cur\<close> is an index into the buffer. Each
  \<^verbatim>\<open>tok_\<close> function of the source advances a pointer \<^verbatim>\<open>p\<close> over the bytes behind \<^verbatim>\<open>cur\<close>; its
  loop is a \<open>scan_\<close> function here that gets those bytes and returns how far \<^verbatim>\<open>p\<close> goes and how
  many newlines it counts. Fields keep the width the source gives them: the length and the
  line number of a token are 16 bits wide, offsets are 32 bits wide.
\<close>

section \<open>Tokens and lexer state\<close>

datatype ttype = TT_ERR | TT_WS | TT_ID | TT_NUM | TT_COMMENT | TT_STR | TT_CHR | TT_PUNCT
  | TT_PREPROC | TT_UNKNOWN

record tok =
  tk_replacement :: "string option"
  tk_offset :: int
  tk_len :: int
  tk_line_no :: int
  tk_type :: ttype
  tk_skip_emit :: bool

text \<open>\<open>lx_alloc\<close> is the size in bytes of the array at \<^verbatim>\<open>toks\<close>; the list holds the tokens written.\<close>

record lex_t =
  lx_input :: string
  lx_toks :: "tok list"
  lx_alloc :: int
  lx_cur :: nat
  lx_in_file :: string
  lx_out_file :: string
  lx_offset :: int
  lx_line_no :: int
  lx_line_start :: bool

definition sizeof_tok :: nat where
  "sizeof_tok = 24"

text \<open>
  The page size is a parameter; the size in bytes is computed in an \<^verbatim>\<open>int\<close>, and division
  truncates towards zero.
\<close>

definition alloc_tokens :: "int \<Rightarrow> string \<Rightarrow> int" where
  "alloc_tokens ps b =
     (let len = cast32 (int sizeof_tok * int (length b)) in
      if len mod ps \<noteq> 0 then cast32 ((sgn len * (\<bar>len\<bar> div ps) + 1) * ps) else len)"

abbreviation newline :: char where "newline \<equiv> CHR 0x0A"
abbreviation backslash :: char where "backslash \<equiv> CHR 0x5C"
abbreviation dquote :: char where "dquote \<equiv> CHR 0x22"
abbreviation squote :: char where "squote \<equiv> CHR 0x27"

text \<open>Writing the next token: \<open>n\<close> bytes from \<^verbatim>\<open>cur\<close>, with \<open>nl\<close> newlines counted.\<close>

definition put_tok :: "lex_t \<Rightarrow> ttype \<Rightarrow> nat \<Rightarrow> nat \<Rightarrow> bool \<Rightarrow> lex_t outcome" where
  "put_tok state ty n nl start =
     (if lx_alloc state < int sizeof_tok * int (length (lx_toks state) + 1) then Inl OutOfBounds
      else Inr (state\<lparr>
        lx_toks := lx_toks state @ [\<lparr>tk_replacement = None, tk_offset = lx_offset state,
          tk_len = cast16 (int n), tk_line_no = cast16 (lx_line_no state), tk_type = ty,
          tk_skip_emit = False\<rparr>],
        lx_offset := cast32 (lx_offset state + int n),
        lx_cur := lx_cur state + n,
        lx_line_no := cast32 (lx_line_no state + int nl),
        lx_line_start := start\<rparr>))"

section \<open>The scanning loops\<close>

text \<open>
  The loops of \<^verbatim>\<open>tok_char\<close> and \<^verbatim>\<open>tok_string\<close>, which differ in the closing quote. The flag
  says whether it was found.
\<close>

fun scan_quoted :: "char \<Rightarrow> string \<Rightarrow> (nat \<times> nat \<times> bool) outcome" where
  "scan_quoted q [] = Inr (0, 0, False)"
| "scan_quoted q (c # cs) =
     (if c = q then Inr (1, 0, True)
      else if c = backslash then
        (case cs of
           [] \<Rightarrow> Inl OutOfBounds
         | d # ds \<Rightarrow> and_then (scan_quoted q ds)
             (\<lambda>(n, nl, ok). Inr (n + 2, if d = newline then nl + 1 else nl, ok)))
      else if c = newline then Inr (0, 1, False)
      else and_then (scan_quoted q cs) (\<lambda>(n, nl, ok). Inr (n + 1, nl, ok)))"

definition is_id_char :: "char \<Rightarrow> bool" where
  "is_id_char c \<longleftrightarrow>
     c \<in> set ''0123456789_abcdefghijklmnopqrstuvwxyzABCDEFGHIJLMNOPQRSTUVWXYZ''"

fun scan_id :: "string \<Rightarrow> nat" where
  "scan_id [] = 0"
| "scan_id (c # cs) = (if is_id_char c then scan_id cs + 1 else 0)"

fun scan_ws :: "string \<Rightarrow> nat \<times> nat" where
  "scan_ws [] = (0, 0)"
| "scan_ws (c # cs) =
     (if c = CHR '' '' \<or> c = CHR 0x09 then (let (n, nl) = scan_ws cs in (n + 1, nl))
      else if c = newline then (let (n, nl) = scan_ws cs in (n + 1, nl + 1))
      else (0, 0))"

fun scan_preproc :: "string \<Rightarrow> (nat \<times> nat) outcome" where
  "scan_preproc [] = Inr (0, 0)"
| "scan_preproc (c # cs) =
     (if c = backslash then
        (case cs of
           [] \<Rightarrow> Inl OutOfBounds
         | d # ds \<Rightarrow> and_then (scan_preproc ds)
             (\<lambda>(n, nl). Inr (n + 2, if d = newline then nl + 1 else nl)))
      else if c = newline then Inr (1, 1)
      else and_then (scan_preproc cs) (\<lambda>(n, nl). Inr (n + 1, nl)))"

fun scan_line :: "string \<Rightarrow> nat \<times> nat" where
  "scan_line [] = (0, 0)"
| "scan_line (c # cs) =
     (if c = newline then (1, 1) else (let (n, nl) = scan_line cs in (n + 1, nl)))"

fun scan_comment :: "string \<Rightarrow> nat \<times> bool" where
  "scan_comment (c # d # ds) =
     (if c = CHR ''*'' \<and> d = CHR ''/'' then (2, True)
      else (let (n, ok) = scan_comment (d # ds) in (n + 1, ok)))"
| "scan_comment cs = (0, False)"

section \<open>One function per kind of token\<close>

definition rest :: "lex_t \<Rightarrow> string" where
  "rest state = drop (lx_cur state + 1) (lx_input state)"

definition tok_punct :: "lex_t \<Rightarrow> lex_t outcome" where
  "tok_punct state = put_tok state TT_PUNCT 1 0 False"

definition tok_unk :: "lex_t \<Rightarrow> lex_t outcome" where
  "tok_unk state = put_tok state TT_PUNCT 1 0 False"

definition tok_char :: "lex_t \<Rightarrow> lex_t outcome" where
  "tok_char state =
     and_then (scan_quoted squote (rest state))
       (\<lambda>(n, nl, ok). put_tok state (if ok then TT_CHR else TT_ERR) (n + 1) nl False)"

definition tok_string :: "lex_t \<Rightarrow> lex_t outcome" where
  "tok_string state =
     and_then (scan_quoted dquote (rest state))
       (\<lambda>(n, nl, ok). put_tok state (if ok then TT_STR else TT_ERR) (n + 1) nl False)"

definition tok_id_or_num :: "lex_t \<Rightarrow> bool \<Rightarrow> lex_t outcome" where
  "tok_id_or_num state num =
     put_tok state (if num then TT_NUM else TT_ID) (scan_id (rest state) + 1) 0 False"

definition tok_ws :: "lex_t \<Rightarrow> lex_t outcome" where
  "tok_ws state =
     (let (n, nl) = scan_ws (rest state);
          first = (if lx_input state ! lx_cur state = newline then 1 else 0)
      in put_tok state TT_WS (n + 1) (first + nl) (lx_line_start state \<or> nl \<noteq> 0))"

definition tok_preproc :: "lex_t \<Rightarrow> lex_t outcome" where
  "tok_preproc state =
     and_then (scan_preproc (rest state))
       (\<lambda>(n, nl). put_tok state TT_PREPROC (n + 1) nl (lx_line_start state))"

definition line_comment :: "lex_t \<Rightarrow> lex_t outcome" where
  "line_comment state =
     (let (n, nl) = scan_line (rest state)
      in put_tok state TT_COMMENT (n + 1) nl (lx_line_start state))"

definition match_comment :: "lex_t \<Rightarrow> lex_t outcome" where
  "match_comment state =
     (let (n, ok) = scan_comment (rest state)
      in put_tok state (if ok then TT_COMMENT else TT_ERR) (n + 1) 0 (lx_line_start state))"

definition tok_comment_or_punct :: "lex_t \<Rightarrow> lex_t outcome" where
  "tok_comment_or_punct state =
     (case rest state of
        [] \<Rightarrow> tok_punct state
      | c # cs \<Rightarrow>
          if c = CHR ''/'' then line_comment state
          else if c = CHR ''*'' then match_comment state
          else tok_punct state)"

section \<open>The lexer\<close>

definition lex_step :: "lex_t \<Rightarrow> lex_t outcome" where
  "lex_step state =
     (let c = lx_input state ! lx_cur state in
      if c = CHR '' '' \<or> c = CHR 0x09 \<or> c = newline then tok_ws state
      else if c = CHR ''#'' then (if lx_line_start state then tok_preproc state else tok_punct state)
      else if c = CHR ''/'' then tok_comment_or_punct state
      else if c \<in> set ''0123456789'' then tok_id_or_num state True
      else if c \<in> set ''_abcdefghijklmnopqrstuvwxyzABCDEFGHIJLMNOPQRSTUVWXYZ''
        then tok_id_or_num state False
      else if c = dquote then tok_string state
      else if c = squote then tok_char state
      else if c \<in> set ''~!%^&*()-+={[}]|:;<,>.?'' then tok_punct state
      else tok_unk state)"

lemma put_tok_shape:
  assumes "put_tok state ty n nl start = Inr state'"
  shows "lx_input state' = lx_input state" "lx_cur state' = lx_cur state + n"
  using assms by (auto simp: put_tok_def split: if_splits)

text \<open>A step writes one token of one or more bytes.\<close>

lemma lex_step_put:
  assumes "lex_step state = Inr state'"
  obtains ty n nl start where "put_tok state ty (n + 1) nl start = Inr state'"
  using assms
  by (auto simp: lex_step_def Let_def outcome_simps tok_punct_def tok_unk_def tok_char_def
      tok_string_def tok_id_or_num_def tok_ws_def tok_preproc_def tok_comment_or_punct_def
      line_comment_def match_comment_def
      split: if_splits list.splits prod.splits)

lemma lex_step_progress:
  assumes "lex_step state = Inr state'"
  shows "lx_input state' = lx_input state" "lx_cur state < lx_cur state'"
  by (rule lex_step_put [OF assms]; simp add: put_tok_shape)+

function lex_loop :: "lex_t \<Rightarrow> lex_t outcome" where
  "lex_loop state =
     (if lx_cur state < length (lx_input state)
      then (case lex_step state of Inl e \<Rightarrow> Inl e | Inr state' \<Rightarrow> lex_loop state')
      else Inr state)"
  by pat_completeness auto

termination
  by (relation "measure (\<lambda>s. length (lx_input s) - lx_cur s)")
    (auto simp: lex_step_progress(1) dest: lex_step_progress(2))

declare lex_loop.simps [simp del]

definition lex :: "int \<Rightarrow> lex_t \<Rightarrow> lex_t outcome" where
  "lex ps state = lex_loop (state\<lparr>
     lx_toks := [], lx_alloc := alloc_tokens ps (lx_input state), lx_cur := 0,
     lx_line_no := 1, lx_line_start := True\<rparr>)"

text \<open>The state \<^verbatim>\<open>main\<close> of \<^verbatim>\<open>src/ncpp/ncpp.c\<close> starts the lexer in; unnamed fields are zero.\<close>

definition main_state :: "string \<Rightarrow> string \<Rightarrow> string \<Rightarrow> lex_t" where
  "main_state in_file out_file input = \<lparr>lx_input = input, lx_toks = [], lx_alloc = 0, lx_cur = 0,
     lx_in_file = in_file, lx_out_file = out_file, lx_offset = 0, lx_line_no = 0,
     lx_line_start = True\<rparr>"

text \<open>The text of a token; a negative length is an absurd size for \<^verbatim>\<open>memcpy\<close>.\<close>

definition extract_tok :: "string \<Rightarrow> tok \<Rightarrow> string outcome" where
  "extract_tok input tok =
     (if 0 \<le> tk_offset tok \<and> 0 \<le> tk_len tok \<and> tk_offset tok + tk_len tok \<le> int (length input)
      then Inr (take (nat (tk_len tok)) (drop (nat (tk_offset tok)) input))
      else Inl OutOfBounds)"

section \<open>What the scanning loops cover\<close>

abbreviation newlines :: "string \<Rightarrow> nat" where
  "newlines cs \<equiv> count_list cs newline"

lemma scan_quoted_covers:
  assumes "scan_quoted q cs = Inr (n, nl, ok)" "q \<noteq> newline"
  shows "n \<le> length cs \<and> (ok \<longrightarrow> nl = newlines (take n cs))"
  using assms
proof (induction q cs arbitrary: n nl ok rule: scan_quoted.induct)
  case (2 q c cs)
  show ?case
  proof (cases "c = q \<or> c = newline \<or> c \<noteq> backslash")
    case True
    then show ?thesis using 2 by (auto simp: outcome_simps split: if_splits)
  next
    case False
    then obtain d ds where cs: "cs = d # ds" using 2(3) by (auto split: list.splits)
    then obtain n' nl' where r: "scan_quoted q ds = Inr (n', nl', ok)" "n = n' + 2"
      "nl = (if d = newline then nl' + 1 else nl')"
      using False 2(3) by (auto simp: outcome_simps)
    with False 2(1) [OF _ _ cs r(1)] 2(4) show ?thesis by (auto simp: cs)
  qed
qed simp

lemma scan_quoted_returns:
  assumes "cs = [] \<or> last cs \<noteq> backslash"
  shows "\<exists>r. scan_quoted q cs = Inr r"
  using assms
proof (induction q cs rule: scan_quoted.induct)
  case (2 q c cs)
  show ?case
  proof (cases "c \<noteq> q \<and> c = backslash")
    case True
    then obtain d ds where cs: "cs = d # ds" using 2(3) by (cases cs) auto
    have "\<exists>r. scan_quoted q ds = Inr r" using True 2(3) by (intro 2(1) [OF _ _ cs]) (auto simp: cs)
    then show ?thesis using True by (auto simp: cs)
  next
    case False
    have "cs = [] \<or> last cs \<noteq> backslash" using 2(3) by (auto split: if_splits)
    then show ?thesis using 2(2) False by (cases "c = newline") (auto split: if_splits)
  qed
qed auto

lemma scan_preproc_covers:
  assumes "scan_preproc cs = Inr (n, nl)"
  shows "n \<le> length cs \<and> nl = newlines (take n cs)"
  using assms
proof (induction cs arbitrary: n nl rule: scan_preproc.induct)
  case (2 c cs)
  then show ?case by (cases cs) (auto simp: outcome_simps split: if_splits)
qed auto

lemma scan_preproc_returns:
  assumes "cs = [] \<or> last cs \<noteq> backslash"
  shows "\<exists>r. scan_preproc cs = Inr r"
  using assms
proof (induction cs rule: scan_preproc.induct)
  case (2 c cs)
  show ?case
  proof (cases "c = backslash")
    case True
    then obtain d ds where cs: "cs = d # ds" using 2(3) by (cases cs) auto
    have "\<exists>r. scan_preproc ds = Inr r" using True 2(3) by (intro 2(1) [OF _ cs]) (auto simp: cs)
    then show ?thesis using True by (auto simp: cs)
  next
    case False
    have "cs = [] \<or> last cs \<noteq> backslash" using 2(3) by (auto split: if_splits)
    then show ?thesis using 2(2) False by (cases "c = newline") auto
  qed
qed auto

lemma scan_id_covers: "scan_id cs \<le> length cs \<and> newlines (take (scan_id cs) cs) = 0"
  by (induction cs) (auto simp: is_id_char_def)

lemma scan_ws_covers:
  assumes "scan_ws cs = (n, nl)"
  shows "n \<le> length cs \<and> nl = newlines (take n cs)"
  using assms by (induction cs arbitrary: n nl) (auto split: if_splits prod.splits)

lemma scan_line_covers:
  assumes "scan_line cs = (n, nl)"
  shows "n \<le> length cs \<and> nl = newlines (take n cs)"
  using assms by (induction cs arbitrary: n nl) (auto split: if_splits prod.splits)

lemma scan_comment_covers: "scan_comment cs = (n, ok) \<Longrightarrow> n \<le> length cs"
  by (induction cs arbitrary: n ok rule: scan_comment.induct) (auto split: if_splits prod.splits)

section \<open>What one step covers\<close>

definition text_at :: "lex_t \<Rightarrow> nat \<Rightarrow> string" where
  "text_at s n = take n (drop (lx_cur s) (lx_input s))"

text \<open>
  A step writes one token that covers at least one byte and ends within the input; unless the
  token is an error or a block comment, the newlines in it are counted.
\<close>

definition covers :: "lex_t \<Rightarrow> lex_t \<Rightarrow> bool" where
  "covers s s' \<longleftrightarrow> (\<exists>ty n nl start. put_tok s ty n nl start = Inr s' \<and> 0 < n \<and>
     lx_cur s + n \<le> length (lx_input s) \<and>
     (ty = TT_ERR \<or> ty = TT_COMMENT \<and> take 2 (text_at s n) = ''/*'' \<or> nl = newlines (text_at s n)))"

lemma coversI:
  assumes "put_tok s ty (n + 1) nl start = Inr s'" "lx_cur s < length (lx_input s)"
    "n \<le> length (rest s)"
    "ty = TT_ERR \<or> ty = TT_COMMENT \<and> take 2 (text_at s (n + 1)) = ''/*'' \<or>
     nl = newlines (lx_input s ! lx_cur s # take n (rest s))"
  shows "covers s s'"
proof -
  have "text_at s (n + 1) = lx_input s ! lx_cur s # take n (rest s)"
    using assms(2) by (simp add: text_at_def rest_def Cons_nth_drop_Suc [symmetric])
  moreover have "lx_cur s + (n + 1) \<le> length (lx_input s)"
    using assms(2,3) by (simp add: rest_def)
  ultimately show ?thesis using assms(1,4) unfolding covers_def by fastforce
qed

lemma tok_punct_covers:
  assumes "tok_punct s = Inr s' \<or> tok_unk s = Inr s'" "lx_cur s < length (lx_input s)"
    "lx_input s ! lx_cur s \<noteq> newline"
  shows "covers s s'"
  using assms coversI [of s TT_PUNCT 0 0 False s'] by (auto simp: tok_punct_def tok_unk_def)

lemma tok_quoted_covers:
  assumes "tok_string s = Inr s' \<or> tok_char s = Inr s'" "lx_cur s < length (lx_input s)"
    "lx_input s ! lx_cur s \<noteq> newline"
  shows "covers s s'"
proof -
  from assms(1) obtain q n nl ok ty where q: "scan_quoted q (rest s) = Inr (n, nl, ok)"
    "q \<noteq> newline" "put_tok s (if ok then ty else TT_ERR) (n + 1) nl False = Inr s'"
    by (auto simp: tok_string_def tok_char_def outcome_simps)
  show ?thesis
    using coversI [OF q(3) assms(2)] scan_quoted_covers [OF q(1,2)] assms(3) by auto
qed

lemma tok_id_or_num_covers:
  assumes "tok_id_or_num s num = Inr s'" "lx_cur s < length (lx_input s)"
    "lx_input s ! lx_cur s \<noteq> newline"
  shows "covers s s'"
  using assms scan_id_covers [of "rest s"]
  by (auto simp: tok_id_or_num_def intro: coversI [where n = "scan_id (rest s)"])

lemma tok_ws_covers:
  assumes "tok_ws s = Inr s'" "lx_cur s < length (lx_input s)"
  shows "covers s s'"
proof -
  obtain n nl where w: "scan_ws (rest s) = (n, nl)" by force
  show ?thesis using assms scan_ws_covers [OF w] w
    by (auto simp: tok_ws_def Let_def split: if_splits intro: coversI [where n = n])
qed

lemma tok_preproc_covers:
  assumes "tok_preproc s = Inr s'" "lx_cur s < length (lx_input s)"
    "lx_input s ! lx_cur s \<noteq> newline"
  shows "covers s s'"
  using assms by (auto simp: tok_preproc_def outcome_simps dest!: scan_preproc_covers intro: coversI)

lemma tok_comment_or_punct_covers:
  assumes "tok_comment_or_punct s = Inr s'" "lx_cur s < length (lx_input s)"
    "lx_input s ! lx_cur s = CHR ''/''"
  shows "covers s s'"
proof (cases "rest s")
  case Nil
  then show ?thesis using assms tok_punct_covers by (simp add: tok_comment_or_punct_def)
next
  case (Cons c cs)
  have bytes: "drop (lx_cur s) (lx_input s) = CHR ''/'' # c # cs"
    using Cons assms(2,3) by (metis Cons_nth_drop_Suc Suc_eq_plus1 rest_def)
  obtain n nl where l: "scan_line (rest s) = (n, nl)" by force
  obtain m ok where m: "scan_comment (rest s) = (m, ok)" by force
  consider "line_comment s = Inr s'" | "match_comment s = Inr s'" "c = CHR ''*''" | "tok_punct s = Inr s'"
    using assms(1) Cons by (auto simp: tok_comment_or_punct_def split: if_splits)
  then show ?thesis
  proof cases
    case 1
    then show ?thesis using l scan_line_covers [OF l] assms(2,3)
      by (auto simp: line_comment_def intro: coversI [where n = n])
  next
    case 2
    have "ok \<longrightarrow> 1 \<le> m" using m Cons by (cases cs) (auto split: prod.splits if_splits)
    then have "ok \<longrightarrow> take 2 (text_at s (m + 1)) = ''/*''"
      using bytes 2(2) by (cases m) (auto simp: text_at_def numeral_2_eq_2)
    then show ?thesis using 2 m scan_comment_covers [OF m] assms(2)
      by (auto simp: match_comment_def split: if_splits intro!: coversI [where n = m])
  next
    case 3
    then show ?thesis using assms tok_punct_covers by simp
  qed
qed

lemma lex_step_covers:
  assumes "lex_step s = Inr s'" "lx_cur s < length (lx_input s)"
  shows "covers s s'"
  using assms tok_punct_covers tok_quoted_covers tok_id_or_num_covers tok_ws_covers
    tok_preproc_covers tok_comment_or_punct_covers
  by (auto simp: lex_step_def Let_def split: if_splits)

section \<open>The loop\<close>

text \<open>
  Tokens that tile the bytes from \<open>a\<close> to \<open>b\<close>: each starts where the previous one ends, none is
  empty, and the length field is the length cut to 16 bits.
\<close>

fun tiles :: "nat \<Rightarrow> tok list \<Rightarrow> nat \<Rightarrow> bool" where
  "tiles a [] b \<longleftrightarrow> a = b"
| "tiles a (t # ts) b \<longleftrightarrow> (\<exists>n > 0. tk_offset t = int a \<and> tk_len t = cast16 (int n) \<and>
     tk_replacement t = None \<and> \<not> tk_skip_emit t \<and> tiles (a + n) ts b)"

lemma tiles_snoc:
  "tiles a ts b \<Longrightarrow> 0 < n \<Longrightarrow> tiles a (ts @ [\<lparr>tk_replacement = None, tk_offset = int b,
     tk_len = cast16 (int n), tk_line_no = l, tk_type = ty, tk_skip_emit = False\<rparr>]) (b + n)"
  by (induction ts arbitrary: a) auto

definition lex_ok :: "lex_t \<Rightarrow> bool" where
  "lex_ok s \<longleftrightarrow> lx_cur s \<le> length (lx_input s) \<and> length (lx_input s) < 2 ^ 31 \<and>
     lx_offset s = int (lx_cur s) \<and> length (lx_toks s) \<le> lx_cur s \<and> tiles 0 (lx_toks s) (lx_cur s)"

lemma lex_ok_step:
  assumes "lex_ok s" "covers s s'"
  shows "lex_ok s'" "lx_input s' = lx_input s" "lx_alloc s' = lx_alloc s"
proof -
  obtain ty n nl start where n: "put_tok s ty n nl start = Inr s'" "0 < n"
    "lx_cur s + n \<le> length (lx_input s)"
    using assms(2) unfolding covers_def by blast
  have "cast32 (int (lx_cur s) + int n) = int (lx_cur s + n)"
    using assms(1) n(3) by (simp add: cast32_id lex_ok_def)
  then show "lex_ok s'" "lx_input s' = lx_input s" "lx_alloc s' = lx_alloc s"
    using assms(1) n tiles_snoc [of 0 "lx_toks s" "lx_cur s" n]
    by (auto simp: put_tok_def lex_ok_def split: if_splits)
qed

lemma lex_loop_ok:
  assumes "lex_loop s = Inr s'" "lex_ok s"
  shows "lex_ok s' \<and> lx_input s' = lx_input s \<and> lx_cur s' = length (lx_input s)"
  using assms
proof (induction s rule: lex_loop.induct)
  case (1 s)
  show ?case
  proof (cases "lx_cur s < length (lx_input s)")
    case True
    then obtain t where t: "lex_step s = Inr t" "lex_loop t = Inr s'"
      using 1(2) by (auto simp: lex_loop.simps [of s] split: sum.splits)
    then show ?thesis using 1(1) [OF True t] lex_ok_step [OF 1(3) lex_step_covers [OF t(1) True]] by simp
  next
    case False
    then show ?thesis using 1(2,3) by (auto simp: lex_loop.simps [of s] lex_ok_def)
  qed
qed

lemma lex_step_returns:
  assumes "lx_cur s < length (lx_input s)" "last (lx_input s) \<noteq> backslash"
    "int sizeof_tok * int (length (lx_toks s) + 1) \<le> lx_alloc s"
  shows "\<exists>s'. lex_step s = Inr s'"
proof -
  have room: "\<exists>s'. put_tok s ty n nl start = Inr s'" for ty n nl start
    using assms(3) by (simp add: put_tok_def)
  have last: "rest s = [] \<or> last (rest s) \<noteq> backslash"
    using assms(1,2) by (cases "Suc (lx_cur s) < length (lx_input s)") (auto simp: rest_def last_drop)
  obtain n nl ok where s: "scan_quoted squote (rest s) = Inr (n, nl, ok)"
    using scan_quoted_returns [OF last] by fastforce
  obtain n' nl' ok' where d: "scan_quoted dquote (rest s) = Inr (n', nl', ok')"
    using scan_quoted_returns [OF last] by fastforce
  obtain m ml where p: "scan_preproc (rest s) = Inr (m, ml)"
    using scan_preproc_returns [OF last] by fastforce
  show ?thesis
    using room by (simp add: lex_step_def Let_def tok_ws_def tok_preproc_def tok_string_def
        tok_char_def tok_id_or_num_def tok_punct_def tok_unk_def tok_comment_or_punct_def
        line_comment_def match_comment_def s d p split: list.splits prod.splits)
qed

lemma lex_loop_returns:
  assumes "lex_ok s" "lx_input s = [] \<or> last (lx_input s) \<noteq> backslash"
    "int sizeof_tok * int (length (lx_input s)) \<le> lx_alloc s"
  shows "\<exists>s'. lex_loop s = Inr s'"
  using assms
proof (induction s rule: lex_loop.induct)
  case (1 s)
  show ?case
  proof (cases "lx_cur s < length (lx_input s)")
    case True
    have "int sizeof_tok * int (length (lx_toks s) + 1) \<le> lx_alloc s"
      using 1(2,4) True by (auto simp: lex_ok_def sizeof_tok_def)
    moreover have "last (lx_input s) \<noteq> backslash" using 1(3) True by auto
    ultimately obtain t where t: "lex_step s = Inr t" using lex_step_returns True by blast
    note ok = lex_ok_step [OF 1(2) lex_step_covers [OF t True]]
    then show ?thesis using 1(1) [OF True t ok(1)] 1(3,4) True t by (simp add: lex_loop.simps [of s])
  next
    case False
    then show ?thesis by (simp add: lex_loop.simps [of s])
  qed
qed

lemma alloc_tokens_room:
  assumes "0 < ps" "int sizeof_tok * int (length b) + ps < 2 ^ 31"
  shows "int sizeof_tok * int (length b) \<le> alloc_tokens ps b"
proof -
  let ?len = "int sizeof_tok * int (length b)"
  have "0 \<le> ?len" by simp
  moreover from this have "cast32 ?len = ?len" using assms by (intro cast32_id; linarith)
  ultimately have len: "cast32 ?len = ?len" "0 \<le> ?len" by blast+
  have e: "(x div ps + 1) * ps = ps * (x div ps) + ps" for x by (simp add: algebra_simps)
  have up: "x \<le> (x div ps + 1) * ps" "(x div ps + 1) * ps \<le> x + ps" for x
    using e [of x] mult_div_mod_eq [of ps x] pos_mod_bound [OF assms(1), of x] pos_mod_sign [OF assms(1), of x]
    by linarith+
  have div: "sgn ?len * (\<bar>?len\<bar> div ps) = ?len div ps" using len(2) by (auto simp: sgn_if)
  have fit: "cast32 ((?len div ps + 1) * ps) = (?len div ps + 1) * ps"
    using up [of ?len] assms len(2) by (intro cast32_id) linarith+
  show ?thesis using up(1) [of ?len] unfolding alloc_tokens_def Let_def len(1) div fit by simp
qed

section \<open>Text of the tokens\<close>

text \<open>The bytes each token covers, from its offset to the next one.\<close>

fun token_lengths :: "tok list \<Rightarrow> int \<Rightarrow> int list" where
  "token_lengths [] b = []"
| "token_lengths (t # ts) b =
     ((case ts of [] \<Rightarrow> b | u # us \<Rightarrow> tk_offset u) - tk_offset t) # token_lengths ts b"

lemma tiles_offset: "tiles a (t # ts) b \<Longrightarrow> tk_offset t = int a"
  by auto

lemma tiles_le: "tiles a ts b \<Longrightarrow> a \<le> b"
  by (induction ts arbitrary: a) fastforce+

lemma extract_concat:
  assumes "tiles a ts b" "b \<le> length input" "list_all (\<lambda>l. l < 2 ^ 15) (token_lengths ts (int b))"
  shows "\<exists>parts. map (extract_tok input) ts = map Inr parts \<and> concat parts = take (b - a) (drop a input)"
  using assms
proof (induction ts arbitrary: a)
  case (Cons t ts)
  then obtain n where n: "0 < n" "tk_offset t = int a" "tk_len t = cast16 (int n)" "tiles (a + n) ts b"
    by auto
  have le: "a + n \<le> b" by (rule tiles_le [OF n(4)])
  have "(case ts of [] \<Rightarrow> int b | u # us \<Rightarrow> tk_offset u) = int (a + n)"
    using n(4) by (cases ts) auto
  with Cons.prems(3) n(2) have "int n < 2 ^ 15" by simp
  then have len: "tk_len t = int n" using n(3) by (simp add: cast16_id)
  obtain parts where p: "map (extract_tok input) ts = map Inr parts"
    "concat parts = take (b - (a + n)) (drop (a + n) input)"
    using Cons.IH [OF n(4) Cons.prems(2)] Cons.prems(3) by auto
  have "extract_tok input t = Inr (take n (drop a input))"
    using len n(2) le Cons.prems(2) by (simp add: extract_tok_def)
  moreover from le obtain m where m: "b = a + n + m" using le_Suc_ex by blast
  have "take n (drop a input) @ take (b - (a + n)) (drop (a + n) input) = take (b - a) (drop a input)"
    unfolding m using take_add [of n m "drop a input"] by (simp add: add.commute [of a n])
  ultimately show ?case using p by (intro exI [of _ "take n (drop a input) # parts"]) simp
qed simp

lemma lex_tiled:
  assumes "lex ps state = Inr s'" "lx_offset state = 0" "length (lx_input state) < 2 ^ 31"
  shows "tiles 0 (lx_toks s') (length (lx_input state))"
  using lex_loop_ok assms by (fastforce simp: lex_def lex_ok_def)

section \<open>Line numbers\<close>

text \<open>Tokens whose newlines the lexer counts: no errors, no block comments.\<close>

definition counted :: "string \<Rightarrow> tok \<Rightarrow> bool" where
  "counted input t \<longleftrightarrow> tk_type t \<noteq> TT_ERR \<and>
     \<not> (tk_type t = TT_COMMENT \<and> take 2 (drop (nat (tk_offset t)) input) = ''/*'')"

definition line_of :: "string \<Rightarrow> nat \<Rightarrow> int" where
  "line_of input i = 1 + int (newlines (take i input))"

definition lines_ok :: "lex_t \<Rightarrow> bool" where
  "lines_ok s \<longleftrightarrow> lx_line_no s = line_of (lx_input s) (lx_cur s) \<and>
     (\<forall>t \<in> set (lx_toks s). tk_line_no t = cast16 (line_of (lx_input s) (nat (tk_offset t))))"

lemma lex_loop_extends:
  assumes "lex_loop s = Inr s'"
  shows "set (lx_toks s) \<subseteq> set (lx_toks s')"
  using assms
proof (induction s rule: lex_loop.induct)
  case (1 s)
  show ?case
  proof (cases "lx_cur s < length (lx_input s)")
    case True
    then obtain t where t: "lex_step s = Inr t" "lex_loop t = Inr s'"
      using 1(2) by (auto simp: lex_loop.simps [of s] split: sum.splits)
    have "set (lx_toks s) \<subseteq> set (lx_toks t)"
      by (rule lex_step_put [OF t(1)]) (auto simp: put_tok_def split: if_splits)
    with 1(1) [OF True t] show ?thesis by blast
  next
    case False
    then show ?thesis using 1(2) by (simp add: lex_loop.simps [of s])
  qed
qed

lemma lines_ok_step:
  assumes "lines_ok s" "lex_ok s" "covers s s'" "length (lx_input s) < 2 ^ 31 - 1"
    "list_all (counted (lx_input s)) (lx_toks s')"
  shows "lines_ok s'"
proof -
  obtain ty n nl start where n: "put_tok s ty n nl start = Inr s'" "0 < n"
    "lx_cur s + n \<le> length (lx_input s)"
    "ty = TT_ERR \<or> ty = TT_COMMENT \<and> take 2 (text_at s n) = ''/*'' \<or> nl = newlines (text_at s n)"
    using assms(3) unfolding covers_def by blast
  have off: "lx_offset s = int (lx_cur s)" using assms(2) by (simp add: lex_ok_def)
  have "take 2 (text_at s n) = ''/*'' \<Longrightarrow> take 2 (drop (lx_cur s) (lx_input s)) = ''/*''"
    by (cases "2 \<le> n") (auto simp: text_at_def min_def split: if_splits dest: arg_cong [of _ _ length])
  then have nl: "nl = newlines (text_at s n)"
    using n(1,4) assms(5) off by (auto simp: put_tok_def counted_def split: if_splits)
  have "take (lx_cur s + n) (lx_input s) = take (lx_cur s) (lx_input s) @ text_at s n"
    by (simp add: text_at_def take_add)
  then have "line_of (lx_input s) (lx_cur s + n) = line_of (lx_input s) (lx_cur s) + int nl"
    using nl by (simp add: line_of_def)
  moreover have "newlines (take (lx_cur s + n) (lx_input s)) \<le> length (lx_input s)"
    by (metis count_le_length length_take min.cobounded1 min.commute order_trans)
  ultimately have "cast32 (line_of (lx_input s) (lx_cur s) + int nl) = line_of (lx_input s) (lx_cur s + n)"
    using assms(4) by (simp add: line_of_def cast32_id)
  then show ?thesis using assms(1) n(1) off
    by (auto simp: put_tok_def lines_ok_def split: if_splits)
qed

lemma lex_loop_lines:
  assumes "lex_loop s = Inr s'" "lex_ok s" "lines_ok s" "length (lx_input s) < 2 ^ 31 - 1"
    "list_all (counted (lx_input s)) (lx_toks s')"
  shows "lines_ok s'"
  using assms
proof (induction s rule: lex_loop.induct)
  case (1 s)
  show ?case
  proof (cases "lx_cur s < length (lx_input s)")
    case True
    then obtain t where t: "lex_step s = Inr t" "lex_loop t = Inr s'"
      using 1(2) by (auto simp: lex_loop.simps [of s] split: sum.splits)
    note c = lex_step_covers [OF t(1) True]
    note ok = lex_ok_step [OF 1(3) c]
    have "list_all (counted (lx_input s)) (lx_toks t)"
      using 1(6) lex_loop_extends [OF t(2)] by (auto simp: list_all_iff)
    with lines_ok_step [OF 1(4,3) c 1(5)] have "lines_ok t" by blast
    then show ?thesis using 1(1) [OF True t ok(1)] 1(5,6) ok(2) by simp
  next
    case False
    then show ?thesis using 1(2,4) by (simp add: lex_loop.simps [of s])
  qed
qed

section \<open>A sample run\<close>

definition sample :: string where
  "sample = ''f(x); //c'' @ [newline] @ ''y''"

lemma main_state_simps [simp]:
  "lx_input (main_state i out input) = input" "lx_offset (main_state i out input) = 0"
  by (simp_all add: main_state_def)

lemma sample_facts: "length sample = 11" "last sample = CHR ''y''"
  by (simp_all add: sample_def)

lemma sample_run:
  obtains s' where "lex 4096 (main_state ''a.nc'' ''a.c'' sample) = Inr s'"
    "list_all (\<lambda>l. l < 2 ^ 15) (token_lengths (lx_toks s') (int (length sample)))"
    "list_all (counted sample) (lx_toks s')"
    "map tk_offset (lx_toks s') = [0, 1, 2, 3, 4, 5, 6, 10]"
proof -
  have "case lex 4096 (main_state ''a.nc'' ''a.c'' sample) of Inl e \<Rightarrow> False | Inr s' \<Rightarrow>
     list_all (\<lambda>l. l < 2 ^ 15) (token_lengths (lx_toks s') (int (length sample))) \<and>
     list_all (counted sample) (lx_toks s') \<and>
     map tk_offset (lx_toks s') = [0, 1, 2, 3, 4, 5, 6, 10]"
    by code_simp
  then show ?thesis using that by (cases "lex 4096 (main_state ''a.nc'' ''a.c'' sample)") auto
qed

section \<open>Properties\<close>

text \<open>C28: The lexer ends, stays inside the token array it allocates and the input, and tiles the
  whole input with tokens (the first starts at offset 0, each of the others where the one
  before it ends, none is empty), for every input of less than about 89 million bytes that does not end in a
  backslash.\<close>

theorem lex_total:
  assumes "0 < ps" "int sizeof_tok * int (length (lx_input state)) + ps < 2 ^ 31"
    "lx_offset state = 0" "lx_input state = [] \<or> last (lx_input state) \<noteq> backslash"
  shows "\<exists>s'. lex ps state = Inr s' \<and> lx_cur s' = length (lx_input state) \<and>
     length (lx_toks s') \<le> length (lx_input state) \<and>
     tiles 0 (lx_toks s') (length (lx_input state))"
proof -
  let ?s = "state\<lparr>lx_toks := [], lx_alloc := alloc_tokens ps (lx_input state), lx_cur := 0,
     lx_line_no := 1, lx_line_start := True\<rparr>"
  have ok: "lex_ok ?s" using assms(1,2,3) by (simp add: lex_ok_def sizeof_tok_def)
  moreover have "int sizeof_tok * int (length (lx_input ?s)) \<le> lx_alloc ?s"
    using alloc_tokens_room [OF assms(1,2)] by simp
  ultimately obtain s' where "lex_loop ?s = Inr s'" using lex_loop_returns [OF ok] assms(4) by auto
  then show ?thesis using lex_loop_ok [OF _ ok] by (auto simp: lex_def lex_ok_def)
qed

theorem lex_total_witness:
  "\<exists>s'. lex 4096 (main_state ''a.nc'' ''a.c'' sample) = Inr s' \<and> lx_cur s' = 11 \<and>
     length (lx_toks s') \<le> 11 \<and> tiles 0 (lx_toks s') 11"
  using lex_total [of 4096 "main_state ''a.nc'' ''a.c'' sample"]
  by (simp add: sample_facts sizeof_tok_def)

text \<open>C29: Nothing of the input is lost or invented: the extracted texts of the tokens, in order,
  concatenate to the input, as long as no token is longer than the 16-bit length field can say.\<close>

theorem lex_roundtrip:
  assumes "lex ps state = Inr s'" "lx_offset state = 0" "length (lx_input state) < 2 ^ 31"
    "list_all (\<lambda>l. l < 2 ^ 15) (token_lengths (lx_toks s') (int (length (lx_input state))))"
  shows "\<exists>parts. map (extract_tok (lx_input state)) (lx_toks s') = map Inr parts \<and>
     concat parts = lx_input state"
  using extract_concat [OF lex_tiled [OF assms(1-3)] order_refl assms(4)] by simp

theorem lex_roundtrip_witness:
  "\<exists>s' parts. lex 4096 (main_state ''a.nc'' ''a.c'' sample) = Inr s' \<and>
     map (extract_tok sample) (lx_toks s') = map Inr parts \<and> concat parts = sample"
proof -
  obtain s' where "lex 4096 (main_state ''a.nc'' ''a.c'' sample) = Inr s'"
    "list_all (\<lambda>l. l < 2 ^ 15) (token_lengths (lx_toks s') (int (length sample)))"
    by (rule sample_run)
  then show ?thesis
    using lex_roundtrip [of 4096 "main_state ''a.nc'' ''a.c'' sample" s'] by (auto simp: sample_facts)
qed

text \<open>C30: When the lexer reports no error and the file has no block comment, the line number of
  every token is the number of newlines before it plus one, in 16 bits.\<close>

theorem lex_line_numbers:
  assumes "lex ps state = Inr s'" "lx_offset state = 0" "length (lx_input state) < 2 ^ 31 - 1"
    "list_all (counted (lx_input state)) (lx_toks s')" "t \<in> set (lx_toks s')"
  shows "tk_line_no t = cast16 (line_of (lx_input state) (nat (tk_offset t)))"
proof -
  let ?s = "state\<lparr>lx_toks := [], lx_alloc := alloc_tokens ps (lx_input state), lx_cur := 0,
     lx_line_no := 1, lx_line_start := True\<rparr>"
  have run: "lex_loop ?s = Inr s'" using assms(1) by (simp add: lex_def)
  have ok: "lex_ok ?s" "lines_ok ?s"
    using assms(2,3) by (simp_all add: lex_ok_def lines_ok_def line_of_def)
  then show ?thesis
    using lex_loop_lines [OF run ok] lex_loop_ok [OF run ok(1)] assms(3-5) by (simp add: lines_ok_def)
qed

theorem lex_line_numbers_witness:
  "\<exists>s'. lex 4096 (main_state ''a.nc'' ''a.c'' sample) = Inr s' \<and> tk_line_no (last (lx_toks s')) = 2"
proof -
  obtain s' where s': "lex 4096 (main_state ''a.nc'' ''a.c'' sample) = Inr s'"
    "list_all (counted sample) (lx_toks s')" "map tk_offset (lx_toks s') = [0, 1, 2, 3, 4, 5, 6, 10]"
    by (rule sample_run)
  then have "lx_toks s' \<noteq> []" by auto
  moreover from this have off: "tk_offset (last (lx_toks s')) = 10"
    using s'(3) last_map [of "lx_toks s'" tk_offset] by simp
  ultimately have "tk_line_no (last (lx_toks s')) = cast16 (line_of sample 10)"
    using lex_line_numbers [of 4096 "main_state ''a.nc'' ''a.c'' sample" s' "last (lx_toks s')"] s' off
    by (simp add: sample_facts)
  moreover have "cast16 (line_of sample 10) = 2" by code_simp
  ultimately show ?thesis using s'(1) by auto
qed

text \<open>The identifier characters of the lexer are the digits, the underscore and the letters,
  except the capital K.\<close>

theorem is_id_char_alphabet:
  "is_id_char c \<longleftrightarrow> c \<noteq> CHR ''K'' \<and> (c = CHR ''_'' \<or> of_char c \<in> {48..57::nat} \<or>
     of_char c \<in> {65..90::nat} \<or> of_char c \<in> {97..122::nat})"
proof -
  let ?n = "of_char c :: nat"
  have codes: "map of_char ''0123456789_abcdefghijklmnopqrstuvwxyzABCDEFGHIJLMNOPQRSTUVWXYZ'' =
      [48..<58] @ [95] @ [97..<123] @ [65..<75] @ [76..<91::nat]"
    by code_simp
  have member: "c \<in> set xs \<longleftrightarrow> ?n \<in> set (map of_char xs)" for xs by (induction xs) auto
  have inj: "d = c \<longleftrightarrow> of_char d = ?n" for d by simp
  have "is_id_char c \<longleftrightarrow>
      ?n \<in> set (map of_char ''0123456789_abcdefghijklmnopqrstuvwxyzABCDEFGHIJLMNOPQRSTUVWXYZ'')"
    unfolding is_id_char_def by (rule member)
  also have "\<dots> \<longleftrightarrow> ?n \<noteq> 75 \<and> (?n = 95 \<or> ?n \<in> {48..57} \<or> ?n \<in> {65..90} \<or> ?n \<in> {97..122})"
    unfolding codes set_append set_upt by auto
  also have "?n = 75 \<longleftrightarrow> c = CHR ''K''" using inj [of "CHR ''K''"] by auto
  also have "?n = 95 \<longleftrightarrow> c = CHR ''_''" using inj [of "CHR ''_''"] by auto
  finally show ?thesis .
qed

text \<open>A file that ends in a backslash inside a string makes the lexer read behind its buffer.\<close>

theorem lex_trailing_backslash:
  "lex 4096 (main_state ''a.nc'' ''a.c'' [dquote, backslash]) = Inl OutOfBounds"
  by code_simp

text \<open>The newline that ends a line of code is not recorded as a line start, so a directive on the
  next line is lexed as punctuation and identifiers.\<close>

theorem lex_directive_missed:
  "map_sum id (\<lambda>s'. map tk_type (lx_toks s'))
     (lex 4096 (main_state ''a.nc'' ''a.c'' (''x;'' @ [newline] @ ''#if''))) =
   Inr [TT_ID, TT_PUNCT, TT_WS, TT_PUNCT, TT_ID]"
  by code_simp

text \<open>Newlines inside a block comment are not counted.\<close>

theorem lex_comment_lines_lost:
  "map_sum id (\<lambda>s'. map tk_line_no (lx_toks s'))
     (lex 4096 (main_state ''a.nc'' ''a.c'' (''/*'' @ [newline] @ ''*/x''))) = Inr [1, 1]"
  by code_simp

end
