(* ===== verification/Ncpp_Tokens.thy ===== *)
theory Ncpp_Tokens
  imports Ncpp_Lex
begin

text \<open>
  The token cursor the transforms work with (\<^verbatim>\<open>src/ncpp/tokenize.c\<close> from \<^verbatim>\<open>id_check\<close> on), the
  helpers of \<^verbatim>\<open>src/ncpp/utils.c\<close> and the text extraction of \<^verbatim>\<open>src/ncpp/xforms.c\<close>.

  A \<^verbatim>\<open>tok_t *\<close> is an index into the token array, \<open>None\<close> for \<^verbatim>\<open>NULL\<close>. The array has more room
  than tokens: a slot behind the last token that is still inside the mapping reads as zeros,
  a slot outside it is out of bounds.
\<close>

section \<open>Transform state\<close>

record kw_use_ctx =
  ku_id :: bool
  ku_started_kobj :: bool
  ku_kw_count :: int
  ku_freed :: bool

text \<open>
  \<^verbatim>\<open>kw_stack\<close> is a linked list, the top first; \<open>ku_freed\<close> marks a record that was freed while
  the list still points to it.
\<close>

record xform_t =
  xf_input :: string
  xf_toks :: "tok list"
  xf_alloc :: int
  xf_in_file :: string
  xf_ix :: nat
  xf_max :: nat
  xf_rewrite_start_ix :: nat
  xf_kw_stack :: "kw_use_ctx list"

definition zero_tok :: tok where
  "zero_tok = \<lparr>tk_replacement = None, tk_offset = 0, tk_len = 0, tk_line_no = 0, tk_type = TT_WS,
     tk_skip_emit = False\<rparr>"

definition tok_at :: "xform_t \<Rightarrow> int \<Rightarrow> tok outcome" where
  "tok_at ctx i =
     (if i < 0 then Inl OutOfBounds
      else if i < int (length (xf_toks ctx)) then Inr (xf_toks ctx ! nat i)
      else if int sizeof_tok * (i + 1) \<le> xf_alloc ctx then Inr zero_tok
      else Inl OutOfBounds)"

definition byte_at :: "string \<Rightarrow> int \<Rightarrow> char outcome" where
  "byte_at input i = (if i < 0 then Inl OutOfBounds else read_at input (nat i))"

text \<open>The part of a byte string before its first null byte, as \<^verbatim>\<open>strlen\<close> and \<^verbatim>\<open>strcmp\<close> see it.\<close>

definition c_str :: "string \<Rightarrow> string" where
  "c_str s = takeWhile (\<lambda>c. c \<noteq> CHR 0x00) s"

section \<open>Looking at tokens\<close>

definition id_check :: "string \<Rightarrow> string \<Rightarrow> int \<Rightarrow> int \<Rightarrow> bool outcome" where
  "id_check to_match input offset len =
     (if int (length to_match) \<noteq> len then Inr False
      else if offset < 0 \<or> int (length input) < offset + len then Inl OutOfBounds
      else Inr (take (nat len) (drop (nat offset) input) = to_match))"

definition tok_is :: "xform_t \<Rightarrow> tok \<Rightarrow> ttype \<Rightarrow> string \<Rightarrow> bool outcome" where
  "tok_is ctx t type match =
     (if tk_type t \<noteq> type then Inr False
      else and_then (extract_tok (xf_input ctx) t) (\<lambda>part. Inr (c_str part = match)))"

text \<open>
  \<^verbatim>\<open>scan_back\<close> goes down from the token before \<^verbatim>\<open>tok_ix\<close>; started at a negative index it would
  count down through negative indices, the first of which is out of bounds.
\<close>

fun scan_back_loop :: "xform_t \<Rightarrow> nat \<Rightarrow> ttype \<Rightarrow> string \<Rightarrow> int outcome" where
  "scan_back_loop ctx 0 type match = Inr (-1)"
| "scan_back_loop ctx (Suc i) type match =
     and_then (tok_at ctx (int i)) (\<lambda>t.
       and_then (tok_is ctx t type match) (\<lambda>hit.
         if hit then Inr (int i) else scan_back_loop ctx i type match))"

definition scan_back :: "xform_t \<Rightarrow> int \<Rightarrow> ttype \<Rightarrow> string \<Rightarrow> int outcome" where
  "scan_back ctx tok_ix type match =
     (if tok_ix < 0 then Inl OutOfBounds else scan_back_loop ctx (nat tok_ix) type match)"

function scan_forward :: "xform_t \<Rightarrow> nat \<Rightarrow> ttype \<Rightarrow> string \<Rightarrow> int outcome" where
  "scan_forward ctx tok_ix type match =
     (if tok_ix < xf_max ctx then
        and_then (tok_at ctx (int tok_ix)) (\<lambda>t.
          and_then (tok_is ctx t type match) (\<lambda>hit.
            if hit then Inr (int tok_ix) else scan_forward ctx (tok_ix + 1) type match))
      else Inr (-1))"
  by pat_completeness auto

termination by (relation "measure (\<lambda>(ctx, i, _). xf_max ctx - i)") auto

declare scan_forward.simps [simp del]

text \<open>Comments are always skipped.\<close>

definition passed_over :: "bool \<Rightarrow> tok \<Rightarrow> bool" where
  "passed_over skip_ws t \<longleftrightarrow> tk_type t = TT_COMMENT \<or> skip_ws \<and> tk_type t = TT_WS"

function advance :: "xform_t \<Rightarrow> bool \<Rightarrow> (xform_t \<times> nat option) outcome" where
  "advance ctx skip_ws =
     (if xf_ix ctx \<ge> xf_max ctx then Inr (ctx, None)
      else (let i = xf_ix ctx + 1; ctx' = ctx\<lparr>xf_ix := i\<rparr> in
        and_then (tok_at ctx (int i)) (\<lambda>t.
          if passed_over skip_ws t then advance ctx' skip_ws else Inr (ctx', Some i))))"
  by pat_completeness auto

termination by (relation "measure (\<lambda>(ctx, _). xf_max ctx - xf_ix ctx)") auto

declare advance.simps [simp del]

function backup :: "xform_t \<Rightarrow> bool \<Rightarrow> (xform_t \<times> nat option) outcome" where
  "backup ctx skip_ws =
     (if xf_ix ctx = 0 then Inr (ctx, None)
      else (let i = xf_ix ctx - 1; ctx' = ctx\<lparr>xf_ix := i\<rparr> in
        and_then (tok_at ctx (int i)) (\<lambda>t.
          if passed_over skip_ws t then backup ctx' skip_ws else Inr (ctx', Some i))))"
  by pat_completeness auto

termination by (relation "measure (\<lambda>(ctx, _). xf_ix ctx)") auto

declare backup.simps [simp del]

definition cur_tok :: "xform_t \<Rightarrow> nat option" where
  "cur_tok ctx = (if xf_ix ctx \<ge> xf_max ctx then None else Some (xf_ix ctx))"

text \<open>
  Both loops return the token of the last round and restore \<^verbatim>\<open>ix\<close>. With \<^verbatim>\<open>num\<close> below one the
  source returns an uninitialised pointer.
\<close>

fun repeat_move :: "(xform_t \<Rightarrow> bool \<Rightarrow> (xform_t \<times> nat option) outcome) \<Rightarrow> xform_t \<Rightarrow> nat
    \<Rightarrow> nat option outcome" where
  "repeat_move move ctx 0 = Inl Uninit"
| "repeat_move move ctx (Suc 0) = and_then (move ctx True) (\<lambda>(ctx', t). Inr t)"
| "repeat_move move ctx (Suc (Suc n)) =
     and_then (move ctx True) (\<lambda>(ctx', t). repeat_move move ctx' (Suc n))"

definition lookahead :: "xform_t \<Rightarrow> nat \<Rightarrow> nat option outcome" where
  "lookahead ctx num = repeat_move advance ctx num"

definition lookbehind :: "xform_t \<Rightarrow> nat \<Rightarrow> nat option outcome" where
  "lookbehind ctx num = repeat_move backup ctx num"

text \<open>Dereferencing a token pointer.\<close>

definition deref :: "xform_t \<Rightarrow> nat option \<Rightarrow> tok outcome" where
  "deref ctx t = (case t of None \<Rightarrow> Inl NullDeref | Some i \<Rightarrow> tok_at ctx (int i))"

definition update_tok :: "xform_t \<Rightarrow> nat \<Rightarrow> (tok \<Rightarrow> tok) \<Rightarrow> xform_t" where
  "update_tok ctx i f = ctx\<lparr>xf_toks := (xf_toks ctx)[i := f (xf_toks ctx ! i)]\<rparr>"

section \<open>Text buffers\<close>

text \<open>The total length is an \<^verbatim>\<open>int\<close>; a total that does not fit makes the allocation absurd.\<close>

definition buf_concat :: "string \<Rightarrow> string \<Rightarrow> string outcome" where
  "buf_concat b s = (if length b + length s < 2 ^ 31 then Inr (b @ s) else Inl OutOfBounds)"

fun buf_concats :: "string \<Rightarrow> string list \<Rightarrow> string outcome" where
  "buf_concats b [] = Inr b"
| "buf_concats b (s # ss) = and_then (buf_concat b s) (\<lambda>b'. buf_concats b' ss)"

definition count_newlines :: "string \<Rightarrow> tok \<Rightarrow> int outcome" where
  "count_newlines input t =
     (case tk_replacement t of
        Some r \<Rightarrow> Inr (int (newlines r))
      | None \<Rightarrow>
          if tk_len t \<le> 0 then Inr 0
          else and_then (extract_tok input t) (\<lambda>part. Inr (int (newlines part))))"

text \<open>\<^verbatim>\<open>join\<close> on the null-terminated strings of a list.\<close>

fun join :: "string list \<Rightarrow> string \<Rightarrow> string" where
  "join [] joiner = []"
| "join [s] joiner = c_str s"
| "join (s # t # ss) joiner = c_str s @ joiner @ join (t # ss) joiner"

definition extract_line :: "xform_t \<Rightarrow> tok \<Rightarrow> string outcome" where
  "extract_line ctx t =
     (if tk_offset t < 0 \<or> int (length (xf_input ctx)) \<le> tk_offset t then Inl OutOfBounds
      else (let line = drop (nat (tk_offset t)) (xf_input ctx)
            in Inr (hd line # takeWhile (\<lambda>c. c \<noteq> newline) (tl line))))"

definition bytes_between :: "string \<Rightarrow> int \<Rightarrow> int \<Rightarrow> string outcome" where
  "bytes_between input start end_offset =
     (if start < 0 \<or> end_offset < start \<or> int (length input) < end_offset then Inl OutOfBounds
      else Inr (take (nat (end_offset - start)) (drop (nat start) input)))"

definition extract_range :: "xform_t \<Rightarrow> int \<Rightarrow> int \<Rightarrow> string outcome" where
  "extract_range ctx start_ix end_ix =
     and_then (tok_at ctx start_ix) (\<lambda>st.
       if end_ix \<ge> int (xf_max ctx)
       then bytes_between (xf_input ctx) (tk_offset st) (int (length (xf_input ctx)))
       else and_then (tok_at ctx end_ix) (\<lambda>et.
         bytes_between (xf_input ctx) (tk_offset st) (tk_offset et)))"

text \<open>Moves to the next punctuation token that starts with the given byte.\<close>

definition is_punct :: "xform_t \<Rightarrow> tok \<Rightarrow> char \<Rightarrow> bool outcome" where
  "is_punct ctx t c =
     (if tk_type t = TT_PUNCT
      then and_then (byte_at (xf_input ctx) (tk_offset t)) (\<lambda>b. Inr (b = c))
      else Inr False)"

lemma advance_unfold:
  assumes "advance ctx skip_ws = Inr (ctx', t)"
  obtains "xf_max ctx \<le> xf_ix ctx" "ctx' = ctx" "t = None"
  | x where "xf_ix ctx < xf_max ctx" "tok_at ctx (int (xf_ix ctx + 1)) = Inr x"
      "passed_over skip_ws x" "advance (ctx\<lparr>xf_ix := xf_ix ctx + 1\<rparr>) skip_ws = Inr (ctx', t)"
  | x where "xf_ix ctx < xf_max ctx" "tok_at ctx (int (xf_ix ctx + 1)) = Inr x"
      "\<not> passed_over skip_ws x" "ctx' = ctx\<lparr>xf_ix := xf_ix ctx + 1\<rparr>" "t = Some (xf_ix ctx + 1)"
proof (cases "xf_max ctx \<le> xf_ix ctx")
  case True
  then have "advance ctx skip_ws = Inr (ctx, None)" by (subst advance.simps) simp
  then have "ctx' = ctx" "t = None" using assms by auto
  with True show ?thesis by (rule that(1))
next
  case False
  then have "advance ctx skip_ws = and_then (tok_at ctx (int (xf_ix ctx + 1)))
      (\<lambda>t. if passed_over skip_ws t then advance (ctx\<lparr>xf_ix := xf_ix ctx + 1\<rparr>) skip_ws
           else Inr (ctx\<lparr>xf_ix := xf_ix ctx + 1\<rparr>, Some (xf_ix ctx + 1)))"
    by (subst advance.simps) (simp only: Let_def if_False)
  with assms obtain x where x: "tok_at ctx (int (xf_ix ctx + 1)) = Inr x"
    "(if passed_over skip_ws x then advance (ctx\<lparr>xf_ix := xf_ix ctx + 1\<rparr>) skip_ws
      else Inr (ctx\<lparr>xf_ix := xf_ix ctx + 1\<rparr>, Some (xf_ix ctx + 1))) = Inr (ctx', t)"
    by (simp only: and_then_eq_Inr) (elim exE conjE)
  have ix: "xf_ix ctx < xf_max ctx" using False by simp
  show ?thesis
  proof (cases "passed_over skip_ws x")
    case True
    with x(2) show ?thesis by (intro that(2) [OF ix x(1)]) auto
  next
    case False
    with x(2) show ?thesis by (intro that(3) [OF ix x(1)]) auto
  qed
qed

lemma advance_frame:
  assumes "advance ctx skip_ws = Inr (ctx', t)"
  shows "\<exists>i. ctx' = ctx\<lparr>xf_ix := i\<rparr> \<and> xf_ix ctx \<le> i \<and>
     (case t of None \<Rightarrow> xf_max ctx \<le> i | Some j \<Rightarrow> j = i \<and> xf_ix ctx < i \<and> i \<le> xf_max ctx)"
  using assms
proof (induction ctx skip_ws rule: advance.induct)
  case (1 ctx skip_ws)
  from 1(2) show ?case
  proof (cases rule: advance_unfold)
    case 1
    then show ?thesis by (intro exI [of _ "xf_ix ctx"]) simp
  next
    case (2 x)
    then have "\<not> xf_max ctx \<le> xf_ix ctx" by simp
    from 1(1) [OF this refl refl 2(2,3,4)] obtain i where
      "ctx' = ctx\<lparr>xf_ix := i\<rparr>" "xf_ix ctx + 1 \<le> i"
      "case t of None \<Rightarrow> xf_max ctx \<le> i | Some j \<Rightarrow> j = i \<and> xf_ix ctx + 1 < i \<and> i \<le> xf_max ctx"
      by (cases t) auto
    then show ?thesis by (intro exI [of _ i]) (auto split: option.splits)
  next
    case (3 x)
    then show ?thesis by (intro exI [of _ "xf_ix ctx + 1"]) simp
  qed
qed

lemma advance_Some:
  assumes "advance ctx skip_ws = Inr (ctx', Some i)"
  shows "ctx' = ctx\<lparr>xf_ix := i\<rparr>" "xf_ix ctx < i" "i \<le> xf_max ctx"
  using advance_frame [OF assms] by auto

lemma advance_mono:
  assumes "advance ctx skip_ws = Inr (ctx', t)"
  shows "xf_ix ctx \<le> xf_ix ctx'" "ctx' = ctx\<lparr>xf_ix := xf_ix ctx'\<rparr>"
  using advance_frame [OF assms] by auto

lemma advance_less:
  "advance ctx skip_ws = Inr (ctx', Some i) \<Longrightarrow>
     xf_max ctx' - xf_ix ctx' < xf_max ctx - xf_ix ctx"
  by (drule advance_frame) auto

function skip_forward_to_punct :: "xform_t \<Rightarrow> char \<Rightarrow> (xform_t \<times> nat option) outcome" where
  "skip_forward_to_punct ctx punc =
     and_then (advance ctx True) (\<lambda>(ctx', t). case t of
       None \<Rightarrow> Inr (ctx', None)
     | Some i \<Rightarrow> and_then (tok_at ctx' (int i)) (\<lambda>tk. and_then (is_punct ctx' tk punc) (\<lambda>hit.
         if hit then Inr (ctx', Some i) else skip_forward_to_punct ctx' punc)))"
  by pat_completeness auto

termination
  by (relation "measure (\<lambda>(ctx, _). xf_max ctx - xf_ix ctx)")
    (auto intro: advance_less)

declare skip_forward_to_punct.simps [simp del]

section \<open>Arguments for a wrapper\<close>

text \<open>
  \<^verbatim>\<open>get_wrapper_actuals\<close>: the first loop counts the parameters between the parentheses, the
  second one goes backwards from the closing parenthesis and takes the last identifier of each.
  The result array is filled from its end, so it is a list built at its front here.
\<close>

fun count_args :: "xform_t \<Rightarrow> int list \<Rightarrow> nat \<Rightarrow> bool \<Rightarrow> nat outcome" where
  "count_args ctx [] arg_count found_arg = Inr arg_count"
| "count_args ctx (i # is) arg_count found_arg =
     and_then (tok_at ctx i) (\<lambda>t.
       if tk_type t = TT_ID then
         (if found_arg then count_args ctx is arg_count found_arg
          else count_args ctx is (arg_count + 1) True)
       else if tk_type t = TT_PREPROC then Inl (ExitCall (-1))
       else and_then (is_punct ctx t CHR '','') (\<lambda>comma.
         if comma then (if found_arg then count_args ctx is arg_count False else Inl (ExitCall (-1)))
         else count_args ctx is arg_count found_arg))"

fun take_args :: "xform_t \<Rightarrow> nat \<Rightarrow> nat \<Rightarrow> nat \<Rightarrow> bool \<Rightarrow> string list \<Rightarrow> (nat \<times> string list) outcome" where
  "take_args ctx lparen_ix 0 arg_count found_arg items = Inr (arg_count, items)"
| "take_args ctx lparen_ix (Suc i) arg_count found_arg items =
     (if arg_count = 0 \<or> Suc i \<le> lparen_ix then Inr (arg_count, items)
      else and_then (tok_at ctx (int i)) (\<lambda>t.
        if tk_type t = TT_ID then
          (if found_arg then take_args ctx lparen_ix i arg_count True items
           else and_then (extract_tok (xf_input ctx) t) (\<lambda>name.
             take_args ctx lparen_ix i (arg_count - 1) True (name # items)))
        else if tk_type t = TT_WS \<or> tk_type t = TT_COMMENT
          then take_args ctx lparen_ix i arg_count found_arg items
        else if \<not> found_arg then Inl (ExitCall (-1))
        else and_then (byte_at (xf_input ctx) (tk_offset t)) (\<lambda>b.
          take_args ctx lparen_ix i arg_count (b \<noteq> CHR '','') items)))"

definition get_wrapper_actuals :: "xform_t \<Rightarrow> nat \<Rightarrow> int \<Rightarrow> string list outcome" where
  "get_wrapper_actuals ctx lparen_ix rparen_ix =
     and_then (count_args ctx [int lparen_ix + 1..rparen_ix - 1] 0 False) (\<lambda>arg_count.
       and_then (take_args ctx lparen_ix (nat (max (int lparen_ix + 1) rparen_ix)) arg_count False [])
         (\<lambda>(missing, items).
           if missing \<noteq> 0 then Inl (ExitCall (-1))
           else Inr (if arg_count = 1 \<and> map c_str items = [''void''] then [] else items)))"

section \<open>Marking a rewrite\<close>

definition skip_range :: "bool \<Rightarrow> nat \<Rightarrow> nat \<Rightarrow> tok list \<Rightarrow> tok list" where
  "skip_range include_comments start stop toks =
     map (\<lambda>(i, t). if start \<le> i \<and> i < stop \<and> (\<not> include_comments \<or> tk_type t \<noteq> TT_COMMENT)
       then t\<lparr>tk_skip_emit := True\<rparr> else t) (enumerate 0 toks)"

definition finish_rewrite :: "xform_t \<Rightarrow> bool \<Rightarrow> xform_t" where
  "finish_rewrite ctx include_comments = ctx\<lparr>xf_toks :=
     skip_range include_comments (xf_rewrite_start_ix ctx) (xf_ix ctx) (xf_toks ctx)\<rparr>"

section \<open>What transforms leave alone\<close>

text \<open>
  The transforms change the replacement text and the skip mark of tokens only: the input, the
  number of tokens, and the place, length, line and type of each token stay.
\<close>

definition tok_shape :: "tok \<Rightarrow> int \<times> int \<times> int \<times> ttype" where
  "tok_shape t = (tk_offset t, tk_len t, tk_line_no t, tk_type t)"

definition kept :: "xform_t \<Rightarrow> xform_t \<Rightarrow> bool" where
  "kept ctx ctx' \<longleftrightarrow> xf_input ctx' = xf_input ctx \<and> xf_max ctx' = xf_max ctx \<and>
     xf_alloc ctx' = xf_alloc ctx \<and> map tok_shape (xf_toks ctx') = map tok_shape (xf_toks ctx)"

lemma kept_refl [simp]: "kept ctx ctx"
  by (simp add: kept_def)

lemma kept_trans: "kept a b \<Longrightarrow> kept b c \<Longrightarrow> kept a c"
  by (simp add: kept_def)

lemma kept_max: "kept ctx ctx' \<Longrightarrow> xf_max ctx' = xf_max ctx"
  by (simp add: kept_def)

lemma kept_fields [simp]:
  "kept ctx (ctx\<lparr>xf_ix := i\<rparr>)" "kept ctx (ctx\<lparr>xf_rewrite_start_ix := r\<rparr>)"
  "kept ctx (ctx\<lparr>xf_kw_stack := st\<rparr>)"
  by (simp_all add: kept_def)

lemma update_tok_kept [simp]:
  assumes "\<And>t. tok_shape (f t) = tok_shape t"
  shows "kept ctx (update_tok ctx i f)"
proof (cases "i < length (xf_toks ctx)")
  case True
  then have "map tok_shape ((xf_toks ctx)[i := f (xf_toks ctx ! i)]) = map tok_shape (xf_toks ctx)"
    using assms by (simp add: map_update list_update_same_conv)
  then show ?thesis by (simp add: kept_def update_tok_def)
qed (simp add: kept_def update_tok_def list_update_beyond)

lemma update_tok_ix [simp]: "xf_ix (update_tok ctx i f) = xf_ix ctx"
  by (simp add: update_tok_def)

lemma tok_shape_update [simp]:
  "tok_shape (t\<lparr>tk_replacement := r\<rparr>) = tok_shape t" "tok_shape (t\<lparr>tk_skip_emit := b\<rparr>) = tok_shape t"
  by (simp_all add: tok_shape_def)

lemma map_snd_enumerate_shape:
  assumes "\<And>i t. tok_shape (g (i, t)) = tok_shape t"
  shows "map tok_shape (map g (enumerate n ts)) = map tok_shape ts"
  using assms by (induction ts arbitrary: n) auto

lemma finish_rewrite_kept [simp]: "kept ctx (finish_rewrite ctx c)"
proof -
  have "map tok_shape (skip_range c a b ts) = map tok_shape ts" for a b ts
    unfolding skip_range_def by (rule map_snd_enumerate_shape) simp
  then show ?thesis by (simp add: kept_def finish_rewrite_def)
qed

lemma finish_rewrite_ix [simp]: "xf_ix (finish_rewrite ctx c) = xf_ix ctx"
  by (simp add: finish_rewrite_def)

lemma advance_kept: "advance ctx skip_ws = Inr (ctx', t) \<Longrightarrow> kept ctx ctx'"
  using advance_mono(2) kept_fields(1) by metis

lemma kept_update_iff [simp]:
  "(\<And>t. tok_shape (f t) = tok_shape t) \<Longrightarrow> kept ctx (update_tok c i f) \<longleftrightarrow> kept ctx c"
  "kept ctx (c\<lparr>xf_kw_stack := st\<rparr>) \<longleftrightarrow> kept ctx c" "kept ctx (c\<lparr>xf_ix := n\<rparr>) \<longleftrightarrow> kept ctx c"
  "kept (c\<lparr>xf_kw_stack := st\<rparr>) ctx \<longleftrightarrow> kept c ctx"
  using update_tok_kept [of f c i] by (auto simp: kept_def)

definition moved :: "xform_t \<Rightarrow> xform_t \<Rightarrow> bool" where
  "moved ctx ctx' \<longleftrightarrow> xf_ix ctx < xf_ix ctx' \<and> kept ctx ctx'"

lemma moved_step [intro, simp]: "moved ctx (ctx\<lparr>xf_ix := Suc (xf_ix ctx)\<rparr>)"
  by (simp add: moved_def)

lemma moved_trans: "moved a b \<Longrightarrow> moved b c \<Longrightarrow> moved a c"
  by (auto simp: moved_def intro: kept_trans)

lemmas moved_next = moved_trans [OF moved_step]

end
