(* ===== verification/Ncpp_Once.thy ===== *)
theory Ncpp_Once
  imports Ncpp_Tokens
begin

text \<open>
  The \<^verbatim>\<open>once\<close> transform, \<^verbatim>\<open>src/ncpp/x_once.c\<close>: a function definition marked \<^verbatim>\<open>once\<close> is renamed
  and put behind a wrapper that runs it at most one time. The wrapper is made from templates,
  and its buffer is sized by adding up the lengths of the parts before they are written.
\<close>

section \<open>Templates\<close>

definition once_cached_result_template :: string where
  "once_cached_result_template = ''static void * __n00b_%s_cached_result;\<newline>''"

definition once_template_prefix :: string where
  "once_template_prefix =
     ''static n00b_futex_t __n00b_%s_once_lock = 0;\<newline>'' @
     ''static %s __n00b_once_func_%s%s;\<newline>\<newline>''"

definition once_void_wrapper :: string where
  "once_void_wrapper =
     ''%s\<newline>%s%s \<newline>{\<newline>'' @
     ''    uint32_t val = atomic_fetch_or(&__n00b_%s_once_lock, 1);\<newline>'' @
     ''    switch(val) {\<newline>'' @
     ''        case 0:\<newline>'' @
     ''            __n00b_once_func_%s(%s);\<newline>'' @
     ''            atomic_store(&__n00b_%s_once_lock, ~0);\<newline>'' @
     ''            n00b_futex_wake(&__n00b_%s_once_lock, true);\<newline>'' @
     ''            return;\<newline>'' @
     ''        case 1:\<newline>'' @
     ''            while (atomic_read(&__n00b_%s_once_lock) != (uint32_t)~0) {\<newline>'' @
     ''              n00b_futex_wait(&__n00b_%s_once_lock, 1, ~0);\<newline>'' @
     ''            }\<newline>'' @
     ''            return;\<newline>'' @
     ''        default:\<newline>'' @
     ''            return;\<newline>'' @
     ''   }\<newline>'' @
     ''}\<newline>\<newline>'' @
     ''static %s\<newline>__n00b_once_func_%s%s \<newline>''"

definition once_ret_wrapper :: string where
  "once_ret_wrapper =
     ''%s\<newline>%s%s \<newline>{\<newline>'' @
     ''    uint32_t val = atomic_fetch_or(&__n00b_%s_once_lock, 1);\<newline>'' @
     ''    switch(val) {\<newline>'' @
     ''        case 0:\<newline>'' @
     ''            n00b_gc_register_root(&__n00b_%s_cached_result, 1);\<newline>'' @
     ''            __n00b_%s_cached_result = \<newline>'' @
     ''                              (void *)(int64_t) __n00b_once_func_%s(%s);\<newline>'' @
     ''            atomic_store(&__n00b_%s_once_lock, ~0);\<newline>'' @
     ''            n00b_futex_wake(&__n00b_%s_once_lock, true);\<newline>'' @
     ''            return (%s)__n00b_%s_cached_result;\<newline>'' @
     ''        case 1:\<newline>'' @
     ''            while (atomic_read(&__n00b_%s_once_lock) != (uint32_t)~0) {\<newline>'' @
     ''              n00b_futex_wait(&__n00b_%s_once_lock, 1, ~0);\<newline>'' @
     ''            }\<newline>'' @
     ''            return (%s)__n00b_%s_cached_result;\<newline>'' @
     ''        default:\<newline>'' @
     ''            return (%s)__n00b_%s_cached_result;\<newline>'' @
     ''   }\<newline>'' @
     ''}\<newline>'' @
     ''static %s\<newline>__n00b_once_func_%s%s \<newline>''"

text \<open>Formatting with \<^verbatim>\<open>%s\<close> fields, the only ones the templates use.\<close>

fun format_s :: "string \<Rightarrow> string list \<Rightarrow> string" where
  "format_s [] as = []"
| "format_s (c # cs) as =
     (if c = CHR ''%'' \<and> cs \<noteq> [] \<and> hd cs = CHR ''s'' \<and> as \<noteq> []
      then hd as @ format_s (tl cs) (tl as)
      else c # format_s cs as)"

text \<open>
  \<^verbatim>\<open>snprintf\<close> at the end of a buffer: what is written so far, and the room that the code passes
  as the size. At most one byte less than the size is written, and the full length is
  subtracted; a size that went negative is a huge \<^verbatim>\<open>size_t\<close>.
\<close>

definition snprintf_at :: "string \<times> int \<Rightarrow> string \<Rightarrow> (string \<times> int) outcome" where
  "snprintf_at out s =
     (let (p, remaining) = out in
      if remaining < 0 then Inl OutOfBounds
      else Inr (p @ take (nat (remaining - 1)) s, remaining - int (length s)))"

section \<open>Pieces of the declaration\<close>

definition extract_formals :: "xform_t \<Rightarrow> int \<Rightarrow> int \<Rightarrow> string outcome" where
  "extract_formals ctx lparen_ix rparen_ix = extract_range ctx lparen_ix (rparen_ix + 1)"

fun qualifier_texts :: "xform_t \<Rightarrow> int list \<Rightarrow> string list outcome" where
  "qualifier_texts ctx [] = Inr []"
| "qualifier_texts ctx (i # is) =
     and_then (tok_at ctx i) (\<lambda>t. and_then (extract_tok (xf_input ctx) t) (\<lambda>text.
       and_then (qualifier_texts ctx is) (\<lambda>l.
         Inr (if c_str text \<in> {''once'', ''static'', ''extern'', ''inline'', ''_Noreturn''}
              then l else text # l))))"

definition is_blank :: "char \<Rightarrow> bool" where
  "is_blank c \<longleftrightarrow> c = CHR '' '' \<or> c = newline"

text \<open>
  The trailing blanks are removed by walking back from the end; with no other character left
  the walk leaves the string at its front.
\<close>

definition extract_qualifiers :: "xform_t \<Rightarrow> int \<Rightarrow> int \<Rightarrow> string outcome" where
  "extract_qualifiers ctx start_ix end_ix =
     and_then (qualifier_texts ctx [start_ix..end_ix - 1]) (\<lambda>l.
       let result = dropWhile is_blank (join l '' '') in
       if result = [] then Inl OutOfBounds
       else Inr (rev (dropWhile is_blank (rev result))))"

section \<open>The scans of \<^verbatim>\<open>once_xform\<close>\<close>

text \<open>Backwards to the start of the declaration; the flag says whether \<^verbatim>\<open>void\<close> was seen.\<close>

fun once_back :: "xform_t \<Rightarrow> nat \<Rightarrow> bool \<Rightarrow> (nat \<times> bool) outcome" where
  "once_back ctx 0 void_decl = Inr (0, void_decl)"
| "once_back ctx (Suc probe) void_decl =
     and_then (tok_at ctx (int probe)) (\<lambda>t.
       if tk_type t \<in> {TT_PREPROC, TT_CHR, TT_STR} then Inr (probe + 1, void_decl)
       else if tk_type t = TT_PUNCT then
         and_then (byte_at (xf_input ctx) (tk_offset t)) (\<lambda>b.
           if b \<noteq> CHR ''*'' then Inr (probe + 1, void_decl) else once_back ctx probe void_decl)
       else if tk_type t = TT_ID then
         and_then (extract_tok (xf_input ctx) t) (\<lambda>s.
           once_back ctx probe (void_decl \<or> c_str s = ''void''))
       else once_back ctx probe void_decl)"

text \<open>Forwards to the opening parenthesis; the last identifier before it is the function's name.\<close>

function once_paren :: "xform_t \<Rightarrow> nat option \<Rightarrow> bool \<Rightarrow> (xform_t \<times> nat option \<times> bool \<times> bool) outcome"
where
  "once_paren ctx id_ix void_decl =
     (let i = xf_ix ctx + 1; ctx' = ctx\<lparr>xf_ix := i\<rparr> in
      if \<not> i < xf_max ctx then Inr (ctx', id_ix, void_decl, False)
      else and_then (tok_at ctx (int i)) (\<lambda>t.
        if tk_type t = TT_ID then
          and_then (extract_tok (xf_input ctx) t) (\<lambda>s.
            if c_str s = ''void'' then once_paren ctx' id_ix True
            else once_paren ctx' (Some i) void_decl)
        else if tk_type t = TT_PUNCT then
          and_then (byte_at (xf_input ctx) (tk_offset t)) (\<lambda>b.
            if b = CHR ''('' then Inr (ctx', id_ix, void_decl, True)
            else if b = CHR ''*'' then once_paren ctx' id_ix void_decl
            else Inr (ctx', id_ix, void_decl, False))
        else if tk_type t = TT_PREPROC then Inr (ctx', id_ix, void_decl, False)
        else once_paren ctx' id_ix void_decl))"
  by pat_completeness auto

termination by (relation "measure (\<lambda>(ctx, _). xf_max ctx - xf_ix ctx)") auto

declare once_paren.simps [simp del]

text \<open>Forwards to the opening brace of a definition.\<close>

function once_block :: "xform_t \<Rightarrow> int \<Rightarrow> (xform_t \<times> int \<times> bool) outcome" where
  "once_block ctx rparen_ix =
     (let i = xf_ix ctx + 1; ctx' = ctx\<lparr>xf_ix := i\<rparr> in
      if \<not> i < xf_max ctx then Inr (ctx', rparen_ix, False)
      else and_then (tok_at ctx (int i)) (\<lambda>t.
        and_then (byte_at (xf_input ctx) (tk_offset t)) (\<lambda>b.
          if b = CHR '')'' then
            (if rparen_ix \<noteq> -1 then Inl (ExitCall (-1)) else once_block ctx' (int i))
          else if b = CHR ''{'' then Inr (ctx', rparen_ix, True)
          else if b = CHR '';'' then Inr (ctx', rparen_ix, False)
          else once_block ctx' rparen_ix)))"
  by pat_completeness auto

termination by (relation "measure (\<lambda>(ctx, _). xf_max ctx - xf_ix ctx)") auto

declare once_block.simps [simp del]

section \<open>The replacement text\<close>

text \<open>The parts of the declaration: base name, qualifiers, formals and actuals.\<close>

definition once_parts :: "bool \<Rightarrow> string \<Rightarrow> string \<Rightarrow> string \<Rightarrow> string \<Rightarrow> (string \<times> string list) list" where
  "once_parts void_decl base quals formals actuals =
     (if void_decl then [] else [(once_cached_result_template, [base])]) @
     [(once_template_prefix, [base, quals, base, formals])] @
     [if void_decl then
        (once_void_wrapper, [quals, base, formals, base, base, actuals, base, base, base, base,
           quals, base, formals])
      else
        (once_ret_wrapper, [quals, base, formals, base, base, base, base, actuals, base, base,
           quals, base, base, base, quals, base, quals, base, quals, base, formals])]"

definition once_output_len :: "bool \<Rightarrow> string \<Rightarrow> string \<Rightarrow> string \<Rightarrow> string \<Rightarrow> int" where
  "once_output_len void_decl base quals formals actuals =
     (let base_len = int (length base); qual_len = int (length quals);
          formal_len = int (length formals); actual_len = int (length actuals);
          prefix_len = int (length once_template_prefix) - 8 + 2 * base_len + qual_len + formal_len;
          crt_len = (if void_decl then 0
            else int (length once_cached_result_template) - 2 + base_len);
          body_len = (if void_decl
            then int (length once_void_wrapper) - 13 * 2 + qual_len * 2 + base_len * 8 +
              formal_len * 2 + actual_len
            else int (length once_ret_wrapper) - 21 * 2 + qual_len * 5 + base_len * 13 +
              formal_len * 2 + actual_len)
      in prefix_len + crt_len + body_len + 1)"

fun write_parts :: "string \<times> int \<Rightarrow> (string \<times> string list) list \<Rightarrow> (string \<times> int) outcome" where
  "write_parts out [] = Inr out"
| "write_parts out ((template, args) # ps) =
     and_then (snprintf_at out (format_s template args)) (\<lambda>out'. write_parts out' ps)"

text \<open>
  The output buffer: zeroed, \<^verbatim>\<open>output_len\<close> bytes long, and two bytes less than that in its
  length field.
\<close>

definition once_text :: "bool \<Rightarrow> string \<Rightarrow> string \<Rightarrow> string \<Rightarrow> string \<Rightarrow> string outcome" where
  "once_text void_decl base quals formals actuals =
     (let output_len = once_output_len void_decl base quals formals actuals in
      and_then (write_parts ([], output_len - 1) (once_parts void_decl base quals formals actuals))
        (\<lambda>(p, remaining). Inr (take (nat (output_len - 2))
           (p @ replicate (nat output_len - length p) (CHR 0x00)))))"

definition once_rewrite :: "xform_t \<Rightarrow> nat \<Rightarrow> nat \<Rightarrow> nat \<Rightarrow> nat \<Rightarrow> int \<Rightarrow> bool \<Rightarrow> xform_t outcome" where
  "once_rewrite ctx cur start_ix id_ix lparen_ix rparen_ix void_decl =
     (let ctx = update_tok ctx cur (tk_skip_emit_update (\<lambda>_. True)) in
      and_then (tok_at ctx (int id_ix)) (\<lambda>t.
      and_then (extract_tok (xf_input ctx) t) (\<lambda>base_name.
      and_then (get_wrapper_actuals ctx lparen_ix rparen_ix) (\<lambda>actual_list.
      and_then (extract_formals ctx (int lparen_ix) rparen_ix) (\<lambda>formal_str.
      and_then (extract_qualifiers ctx (int start_ix) (int id_ix)) (\<lambda>quals.
      and_then (once_text void_decl (c_str base_name) quals (c_str formal_str) (join actual_list '', ''))
        (\<lambda>outbuf. Inr (finish_rewrite
           (update_tok ctx cur (tk_replacement_update (\<lambda>_. Some outbuf))) False))))))))"

definition once_xform :: "xform_t \<Rightarrow> nat \<Rightarrow> xform_t outcome" where
  "once_xform ctx cur =
     and_then (once_back ctx (xf_ix ctx) False) (\<lambda>(start_ix, void_decl).
     and_then (once_paren (ctx\<lparr>xf_rewrite_start_ix := start_ix\<rparr>) None void_decl)
       (\<lambda>(ctx, id_ix, void_decl, found_paren).
       case id_ix of
         None \<Rightarrow> Inr ctx
       | Some id_ix \<Rightarrow>
           if \<not> found_paren then Inr ctx
           else and_then (once_block ctx (-1)) (\<lambda>(ctx', rparen_ix, found_block).
             if \<not> found_block then Inr ctx'
             else once_rewrite ctx' cur start_ix id_ix (xf_ix ctx) rparen_ix void_decl)))"

section \<open>The size of the replacement text\<close>

fun fields :: "string \<Rightarrow> nat" where
  "fields [] = 0"
| "fields (c # cs) =
     (if c = CHR ''%'' \<and> cs \<noteq> [] \<and> hd cs = CHR ''s'' then fields (tl cs) + 1 else fields cs)"

lemma length_format_s:
  "fields t = length as \<Longrightarrow>
     int (length (format_s t as)) = int (length t) - 2 * int (length as) + int (length (concat as))"
proof (induction t as rule: format_s.induct)
  case (2 c cs as)
  show ?case
  proof (cases "c = CHR ''%'' \<and> cs \<noteq> [] \<and> hd cs = CHR ''s''")
    case True
    with 2(3) obtain a as' d ds where "as = a # as'" "cs = d # ds" by (cases as; cases cs) auto
    then show ?thesis using True 2(1,3) by auto
  next
    case False
    then show ?thesis using 2(2,3) by auto
  qed
qed simp

lemma template_fields:
  "fields once_cached_result_template = 1" "fields once_template_prefix = 4"
  "fields once_void_wrapper = 13" "fields once_ret_wrapper = 21"
  by code_simp+

lemma template_lengths:
  "2 < length once_cached_result_template" "8 < length once_template_prefix"
  "26 < length once_void_wrapper" "42 < length once_ret_wrapper"
  by code_simp+

lemma format_s_nonempty: "fields t = length as \<Longrightarrow> 2 * length as < length t \<Longrightarrow> format_s t as \<noteq> []"
  using length_format_s [of t as] by auto

definition formatted :: "(string \<times> string list) list \<Rightarrow> string" where
  "formatted ps = concat (map (\<lambda>(t, as). format_s t as) ps)"

lemma once_output_len_exact:
  "once_output_len v b q f a = int (length (formatted (once_parts v b q f a))) + 1"
  using length_format_s [of once_cached_result_template "[b]"]
    length_format_s [of once_template_prefix "[b, q, b, f]"]
    length_format_s [of once_void_wrapper "[q, b, f, b, b, a, b, b, b, b, q, b, f]"]
    length_format_s [of once_ret_wrapper "[q, b, f, b, b, b, b, a, b, b, q, b, b, b, q, b, q, b, q, b, f]"]
  by (cases v) (simp_all add: template_fields once_output_len_def formatted_def once_parts_def Let_def
      algebra_simps)

lemma write_parts_exact:
  assumes "ps \<noteq> []" "\<And>t as. (t, as) \<in> set ps \<Longrightarrow> format_s t as \<noteq> []"
  shows "write_parts (p, int (length (formatted ps))) ps = Inr (p @ butlast (formatted ps), 0)"
  using assms
proof (induction ps arbitrary: p)
  case (Cons x ps)
  obtain t as where x: "x = (t, as)" by force
  have split: "formatted (x # ps) = format_s t as @ formatted ps" by (simp add: formatted_def x)
  show ?case
  proof (cases "ps = []")
    case True
    have "nat (int n - 1) = n - Suc 0" for n by linarith
    with True show ?thesis by (simp add: x formatted_def snprintf_at_def butlast_conv_take)
  next
    case False
    then obtain t' as' where "(t', as') \<in> set ps" by (metis list.set_intros(1) neq_Nil_conv prod.exhaust)
    with Cons.prems(2) have ne: "formatted ps \<noteq> []" by (fastforce simp: formatted_def)
    then have "take (nat (int (length (formatted (x # ps))) - 1)) (format_s t as) = format_s t as"
      by (cases "formatted ps") (auto simp: split)
    then have "snprintf_at (p, int (length (formatted (x # ps)))) (format_s t as) =
        Inr (p @ format_s t as, int (length (formatted ps)))"
      by (simp add: snprintf_at_def split)
    then show ?thesis
      using Cons.IH [OF False, of "p @ format_s t as"] Cons.prems(2) ne
      by (simp add: x split [unfolded x] butlast_append)
  qed
qed simp

section \<open>Progress and frame\<close>

lemma once_paren_moved:
  assumes "once_paren ctx n v = Inr (ctx', r)"
  shows "moved ctx ctx'"
  using assms
proof (induction "xf_max ctx - xf_ix ctx" arbitrary: ctx n v r rule: less_induct)
  case less
  have IH: "moved ctx ctx'" if "Suc (xf_ix ctx) < xf_max ctx"
    "once_paren (ctx\<lparr>xf_ix := Suc (xf_ix ctx)\<rparr>) n v = Inr (ctx', r)" for n v r
    using less(1) [OF _ that(2)] that(1) moved_next by auto
  from less(2) show ?case
    by (subst (asm) once_paren.simps) (auto simp: Let_def outcome_simps split: if_splits dest: IH)
qed

lemma once_block_moved:
  assumes "once_block ctx n = Inr (ctx', r)"
  shows "moved ctx ctx'"
  using assms
proof (induction "xf_max ctx - xf_ix ctx" arbitrary: ctx n r rule: less_induct)
  case less
  have IH: "moved ctx ctx'" if "Suc (xf_ix ctx) < xf_max ctx"
    "once_block (ctx\<lparr>xf_ix := Suc (xf_ix ctx)\<rparr>) n = Inr (ctx', r)" for n r
    using less(1) [OF _ that(2)] that(1) moved_next by auto
  from less(2) show ?case
    by (subst (asm) once_block.simps) (auto simp: Let_def outcome_simps split: if_splits dest: IH)
qed

lemma once_rewrite_kept:
  assumes "once_rewrite ctx cur st n lp rp v = Inr ctx'"
  shows "kept ctx ctx' \<and> xf_ix ctx' = xf_ix ctx"
  using assms
  by (auto simp: once_rewrite_def Let_def outcome_simps
      intro!: kept_trans [OF _ finish_rewrite_kept] kept_trans [OF _ update_tok_kept])

lemma once_xform_moved:
  assumes "once_xform ctx cur = Inr ctx'"
  shows "moved ctx ctx'"
proof -
  obtain st v where "once_back ctx (xf_ix ctx) False = Inr (st, v)"
    using assms by (auto simp: once_xform_def outcome_simps)
  with assms obtain c n w found where c: "once_paren (ctx\<lparr>xf_rewrite_start_ix := st\<rparr>) None v = Inr (c, n, w, found)"
    "(case n of None \<Rightarrow> Inr c | Some id_ix \<Rightarrow>
           if \<not> found then Inr c
           else and_then (once_block c (-1)) (\<lambda>(ctx', rparen_ix, found_block).
             if \<not> found_block then Inr ctx'
             else once_rewrite ctx' cur st id_ix (xf_ix c) rparen_ix w)) = Inr ctx'"
    by (auto simp: once_xform_def outcome_simps)
  have mc: "moved ctx c"
    using once_paren_moved [OF c(1)] by (auto simp: moved_def intro: kept_trans [OF kept_fields(2)])
  show ?thesis
  proof (cases "n = None \<or> \<not> found")
    case True
    then show ?thesis using c(2) mc by (auto split: option.splits)
  next
    case False
    then obtain i where i: "n = Some i" by auto
    with False c(2) obtain d rp fb where d: "once_block c (-1) = Inr (d, rp, fb)"
      "(if \<not> fb then Inr d else once_rewrite d cur st i (xf_ix c) rp w) = Inr ctx'"
      by (auto simp: outcome_simps)
    have "moved c d" by (rule once_block_moved [OF d(1)])
    moreover have "kept d ctx' \<and> xf_ix ctx' = xf_ix d"
      using d(2) once_rewrite_kept by (auto split: if_splits)
    ultimately show ?thesis using mc by (auto simp: moved_def intro: kept_trans)
  qed
qed

section \<open>Properties\<close>

text \<open>C33: The wrapper that replaces a \<^verbatim>\<open>once\<close> function is the whole text of its templates less the
  final newline: the size computed from the lengths of the parts is exact for either kind of
  function, so nothing is cut short and nothing is written behind the buffer.\<close>

theorem once_text_exact:
  "once_text v b q f a = Inr (butlast (formatted (once_parts v b q f a)))"
proof -
  let ?ps = "once_parts v b q f a"
  have "fields t = length as \<and> 2 * length as < length t" if "(t, as) \<in> set ?ps" for t as
    using that template_lengths by (cases v) (auto simp: once_parts_def template_fields)
  then have "format_s t as \<noteq> []" if "(t, as) \<in> set ?ps" for t as
    using that format_s_nonempty by blast
  then have "write_parts ([], int (length (formatted ?ps))) ?ps = Inr (butlast (formatted ?ps), 0)"
    using write_parts_exact [of ?ps "[]"] by (simp add: once_parts_def)
  then show ?thesis
    by (simp add: once_text_def once_output_len_exact Let_def nat_diff_distrib' butlast_conv_take)
qed

end
