(* ===== verification/Ncpp_Keyword.thy ===== *)
theory Ncpp_Keyword
  imports Ncpp_Tokens
begin

text \<open>
  The keyword transforms, \<^verbatim>\<open>src/ncpp/x_keyword.c\<close>: a \<^verbatim>\<open>keywords { ... }\<close> block in a function
  becomes declarations and a loop over the arguments passed, and a call with arguments of the
  form \<^verbatim>\<open>name : value\<close> becomes a call that passes a keyword object.

  A function that returns \<^verbatim>\<open>NULL\<close> or \<^verbatim>\<open>false\<close> after printing a message returns \<open>None\<close>; what is
  printed is not modelled.
\<close>

section \<open>Names of the last parameter\<close>

text \<open>The token at \<open>i\<close>, or the one before it when that is white space, with its index.\<close>

definition tok_before_ws :: "xform_t \<Rightarrow> int \<Rightarrow> (tok \<times> int) outcome" where
  "tok_before_ws ctx i =
     and_then (tok_at ctx i) (\<lambda>t.
       if tk_type t = TT_WS then and_then (tok_at ctx (i - 1)) (\<lambda>t'. Inr (t', i - 1)) else Inr (t, i))"

definition kw_param_name_elipsis :: "xform_t \<Rightarrow> int \<Rightarrow> string option outcome" where
  "kw_param_name_elipsis ctx ix =
     (if ix < 8 then Inr None
      else and_then (tok_at ctx ix) (\<lambda>t0.
      and_then (byte_at (xf_input ctx) (tk_offset t0)) (\<lambda>b0. if b0 \<noteq> CHR ''.'' then Inr None
      else and_then (tok_at ctx (ix - 1)) (\<lambda>t1.
      and_then (is_punct ctx t1 CHR ''.'') (\<lambda>dot1. if \<not> dot1 then Inr None
      else and_then (tok_at ctx (ix - 2)) (\<lambda>t2.
      and_then (is_punct ctx t2 CHR ''.'') (\<lambda>dot2. if \<not> dot2 then Inr None
      else and_then (tok_before_ws ctx (ix - 3)) (\<lambda>(t3, j).
      and_then (is_punct ctx t3 CHR '','') (\<lambda>comma. if \<not> comma then Inr None
      else and_then (tok_before_ws ctx (j - 1)) (\<lambda>(t4, k).
        if tk_type t4 \<noteq> TT_ID then Inr None
        else and_then (extract_tok (xf_input ctx) t4) (\<lambda>name. Inr (Some name))))))))))))"

definition kw_param_name_fixed :: "xform_t \<Rightarrow> int \<Rightarrow> (string option \<times> bool) outcome" where
  "kw_param_name_fixed ctx ix =
     (if ix < 8 then Inr (None, False)
      else and_then (tok_at ctx ix) (\<lambda>id_tok. if tk_type id_tok \<noteq> TT_ID then Inr (None, False)
      else and_then (tok_before_ws ctx (ix - 1)) (\<lambda>(star, j).
      and_then (is_punct ctx star CHR ''*'') (\<lambda>is_star.
        if \<not> is_star then
          (if tk_type star \<noteq> TT_ID then Inr (None, False)
           else and_then (extract_tok (xf_input ctx) star) (\<lambda>name.
             if c_str name \<noteq> ''va_list'' then Inr (None, False)
             else and_then (extract_tok (xf_input ctx) id_tok) (\<lambda>n. Inr (Some n, True))))
        else and_then (tok_before_ws ctx (j - 1)) (\<lambda>(tname, k).
          and_then (extract_tok (xf_input ctx) tname) (\<lambda>name.
            if c_str name = ''n00b_karg_info_t'' \<or> c_str name = ''void''
            then and_then (extract_tok (xf_input ctx) id_tok) (\<lambda>n. Inr (Some n, False))
            else Inr (None, False)))))))"

section \<open>One keyword parameter\<close>

text \<open>The variables of the state machine in \<^verbatim>\<open>next_kw_param\<close>.\<close>

record kw_decl =
  kd_last_id :: "nat option"
  kd_id_found :: bool
  kd_got_star :: bool
  kd_got_paren :: bool
  kd_id_done :: bool
  kd_kw_name :: "string option"

definition kw_decl_start :: kw_decl where
  "kw_decl_start = \<lparr>kd_last_id = None, kd_id_found = False, kd_got_star = False,
     kd_got_paren = False, kd_id_done = False, kd_kw_name = None\<rparr>"

definition syntax_err :: "xform_t \<Rightarrow> tok \<Rightarrow> 'a option outcome" where
  "syntax_err ctx start = and_then (extract_line ctx start) (\<lambda>msg. Inr None)"

text \<open>The alias in parentheses behind the name of a parameter.\<close>

definition kw_alias :: "xform_t \<Rightarrow> tok \<Rightarrow> (xform_t \<times> string) option outcome" where
  "kw_alias ctx start =
     and_then (advance ctx True) (\<lambda>(ctx1, cur1).
     and_then (deref ctx1 cur1) (\<lambda>t1. if tk_type t1 \<noteq> TT_ID then syntax_err ctx1 start
     else and_then (extract_tok (xf_input ctx1) t1) (\<lambda>kw_name.
     and_then (advance ctx1 True) (\<lambda>(ctx2, cur2).
     and_then (deref ctx2 cur2) (\<lambda>t2.
     and_then (is_punct ctx2 t2 CHR '')'') (\<lambda>closed.
       if \<not> closed then syntax_err ctx2 start else Inr (Some (ctx2, kw_name))))))))"

lemma kw_alias_le:
  assumes "kw_alias ctx start = Inr (Some (ctx', name))"
  shows "xf_ix ctx \<le> xf_ix ctx' \<and> kept ctx ctx'"
proof -
  obtain c1 t1 t2 where "advance ctx True = Inr (c1, t1)" "advance c1 True = Inr (ctx', t2)"
    using assms by (auto simp: kw_alias_def syntax_err_def outcome_simps split: if_splits)
  then show ?thesis using advance_mono(1) advance_kept kept_trans order_trans by meson
qed

function kw_decl_loop :: "xform_t \<Rightarrow> tok \<Rightarrow> kw_decl \<Rightarrow> (xform_t \<times> kw_decl) option outcome" where
  "kw_decl_loop ctx start st =
     and_then (advance ctx True) (\<lambda>(ctx', cur). case cur of
       None \<Rightarrow> Inr None
     | Some i \<Rightarrow> and_then (tok_at ctx' (int i)) (\<lambda>t.
         if tk_type t = TT_ID then
           kw_decl_loop ctx' start (st\<lparr>kd_id_found := True, kd_last_id := Some i,
             kd_id_done := kd_id_done st \<or> kd_got_star st\<rparr>)
         else if tk_type t \<noteq> TT_PUNCT then syntax_err ctx' start
         else and_then (byte_at (xf_input ctx') (tk_offset t)) (\<lambda>b.
           if b = CHR ''('' then
             (if kd_got_paren st \<or> \<not> kd_id_found st \<or> kd_got_star st \<and> \<not> kd_id_done st
              then syntax_err ctx' start
              else and_then (kw_alias ctx' start) (\<lambda>r. case r of
                None \<Rightarrow> Inr None
              | Some (ctx'', name) \<Rightarrow> kw_decl_loop ctx'' start
                  (st\<lparr>kd_kw_name := Some name, kd_got_paren := True, kd_id_done := True\<rparr>)))
           else if b = CHR '';'' then Inr None
           else if b = CHR ''='' then
             (if xf_ix ctx' \<ge> xf_max ctx' then syntax_err ctx' start
              else if kd_id_done st \<or> kd_id_found st \<and> \<not> kd_got_star st then Inr (Some (ctx', st))
              else syntax_err ctx' start)
           else if b = CHR ''*'' then
             (if kd_id_done st \<or> kd_got_paren st then syntax_err ctx' start
              else kw_decl_loop ctx' start (st\<lparr>kd_got_star := True\<rparr>))
           else syntax_err ctx' start)))"
  by pat_completeness auto

termination
proof (relation "measure (\<lambda>(ctx, _). xf_max ctx - xf_ix ctx)", goal_cases)
  case 3
  then show ?case
    using kw_alias_le advance_less by (fastforce simp: kept_def)
qed (auto intro: advance_less)

declare kw_decl_loop.simps [simp del]

text \<open>The texts added for a parameter: its declaration, and the test in the argument loop.\<close>

definition kw_decl_text :: "string \<Rightarrow> string \<Rightarrow> string \<Rightarrow> string list" where
  "kw_decl_text kw_name decl init =
     [''    bool __found_'', kw_name, '' = false;\<newline>'', ''    '', decl, '' '', init,
      ''\<newline>\<newline>'']"

definition kw_check_text :: "string \<Rightarrow> string \<Rightarrow> string \<Rightarrow> bool \<Rightarrow> string list" where
  "kw_check_text kw_name var_name type_name got_star =
     [''            if (!strcmp(__ka->kw, \"'', kw_name,
      ''\")) {\<newline>\<newline>                if(__found_'', kw_name,
      '') {\<newline>                    goto __dupe_kw_found;\<newline>'' @
      ''                }\<newline>\<newline>                __found_'', kw_name,
      '' = true;\<newline>                '', var_name, '' = ('', type_name,
      if got_star
      then '')__ka->value;\<newline>                continue;\<newline>'' @ ''            }\<newline>''
      else '')(int64_t)__ka->value;\<newline>                continue;\<newline>'' @ ''            }\<newline>'']"

definition next_kw_param :: "string \<Rightarrow> xform_t \<Rightarrow> (xform_t \<times> string \<times> string) option outcome" where
  "next_kw_param decl_buf ctx =
     (if xf_ix ctx \<ge> xf_max ctx then Inr None
      else and_then (tok_at ctx (int (xf_ix ctx))) (\<lambda>start.
      and_then (kw_decl_loop ctx start kw_decl_start) (\<lambda>r. case r of
        None \<Rightarrow> Inr None
      | Some (ctx1, st) \<Rightarrow>
          and_then (deref ctx1 (kd_last_id st)) (\<lambda>last_id.
          and_then (extract_tok (xf_input ctx1) last_id) (\<lambda>var_name.
          and_then (bytes_between (xf_input ctx1) (tk_offset start) (tk_offset last_id)) (\<lambda>type_name.
          and_then (bytes_between (xf_input ctx1) (tk_offset start)
             (tk_offset last_id + tk_len last_id)) (\<lambda>decl.
          and_then (tok_at ctx1 (int (xf_ix ctx1))) (\<lambda>start2.
          and_then (skip_forward_to_punct ctx1 CHR '';'') (\<lambda>(ctx2, semi).
            let kw_name = (case kd_kw_name st of Some name \<Rightarrow> c_str name | None \<Rightarrow> c_str var_name) in
            case cur_tok ctx2 of
              None \<Rightarrow> Inr None
            | Some i \<Rightarrow>
                and_then (tok_at ctx2 (int i)) (\<lambda>cur.
                and_then (bytes_between (xf_input ctx2) (tk_offset start2) (tk_offset cur + 1))
                  (\<lambda>init.
                and_then (buf_concats decl_buf (kw_decl_text kw_name decl init)) (\<lambda>decl_buf'.
                and_then (buf_concats [] (kw_check_text kw_name (c_str var_name) type_name
                  (kd_got_star st))) (\<lambda>b.
                and_then (advance ctx2 True) (\<lambda>(ctx3, t).
                  Inr (Some (ctx3, decl_buf', b))))))))))))))))"

section \<open>The \<^verbatim>\<open>keywords\<close> block\<close>

lemma kw_decl_loop_moved:
  assumes "kw_decl_loop ctx start st = Inr (Some (ctx', st'))"
  shows "moved ctx ctx'"
  using assms
proof (induction "xf_max ctx - xf_ix ctx" arbitrary: ctx st rule: less_induct)
  case less
  from less(2) obtain c t where c: "advance ctx True = Inr (c, t)"
    by (subst (asm) kw_decl_loop.simps) (auto simp: outcome_simps)
  moreover from less(2) c have "t \<noteq> None"
    by (subst (asm) kw_decl_loop.simps) (cases t; simp)
  ultimately obtain i where i: "t = Some i" "advance ctx True = Inr (c, Some i)" by auto
  have mc: "moved ctx c" using advance_Some [OF i(2)] by (simp add: moved_def)
  have IH: "moved ctx ctx'" if "xf_ix c \<le> xf_ix d" "kept c d"
    "kw_decl_loop d start st = Inr (Some (ctx', st'))" for d st
  proof -
    have "moved ctx d" using mc that(1,2) by (auto simp: moved_def intro: kept_trans)
    moreover have "xf_max d - xf_ix d < xf_max ctx - xf_ix ctx"
      using advance_less [OF i(2)] that(1,2) by (auto simp: kept_def)
    ultimately show ?thesis using less(1) [OF _ that(3)] moved_trans by blast
  qed
  have aliased: "moved ctx ctx'" if "kw_alias c start = Inr (Some (d, name))"
    "kw_decl_loop d start st = Inr (Some (ctx', st'))" for d name st
    using IH kw_alias_le [OF that(1)] that(2) by blast
  from less(2) mc show ?case
    by (subst (asm) kw_decl_loop.simps)
      (auto simp: i c syntax_err_def outcome_simps split: if_splits option.splits
        dest: IH [OF order_refl kept_refl] aliased)
qed

lemma skip_forward_le:
  assumes "skip_forward_to_punct ctx p = Inr (ctx', t)"
  shows "xf_ix ctx \<le> xf_ix ctx' \<and> kept ctx ctx'"
  using assms
proof (induction "xf_max ctx - xf_ix ctx" arbitrary: ctx rule: less_induct)
  case less
  from less(2) obtain c r where c: "advance ctx True = Inr (c, r)"
    by (subst (asm) skip_forward_to_punct.simps) (auto simp: outcome_simps)
  have le: "xf_ix ctx \<le> xf_ix c" "kept ctx c" using c advance_mono(1) advance_kept by blast+
  have IH: "xf_ix ctx \<le> xf_ix ctx' \<and> kept ctx ctx'"
    if "skip_forward_to_punct c p = Inr (ctx', t)" "r = Some i" for i
    using less(1) [OF _ that(1)] advance_less c that(2) le kept_trans order_trans by blast
  from less(2) le show ?case
    by (subst (asm) skip_forward_to_punct.simps)
      (auto simp: c outcome_simps split: if_splits option.splits dest: IH)
qed

lemma next_kw_param_moved:
  assumes "next_kw_param decl ctx = Inr (Some (ctx', r))"
  shows "moved ctx ctx'"
proof -
  obtain start c st d t u where "kw_decl_loop ctx start kw_decl_start = Inr (Some (c, st))"
    "skip_forward_to_punct c CHR '';'' = Inr (d, t)" "advance d True = Inr (ctx', u)"
    using assms by (auto simp: next_kw_param_def outcome_simps Let_def split: if_splits option.splits)
  then have "moved ctx c" "xf_ix c \<le> xf_ix d" "kept c d" "xf_ix d \<le> xf_ix ctx'" "kept d ctx'"
    using kw_decl_loop_moved skip_forward_le advance_mono(1) advance_kept by blast+
  then show ?thesis by (auto simp: moved_def intro: kept_trans)
qed

function kw_params :: "xform_t \<Rightarrow> string \<Rightarrow> string \<Rightarrow> (xform_t \<times> string \<times> string) option outcome" where
  "kw_params ctx result inner =
     and_then (next_kw_param result ctx) (\<lambda>r. case r of
       None \<Rightarrow> Inr None
     | Some (ctx', result', check) \<Rightarrow>
         and_then (buf_concat inner check) (\<lambda>inner'.
           case cur_tok ctx' of
             None \<Rightarrow> Inr None
           | Some i \<Rightarrow> and_then (tok_at ctx' (int i)) (\<lambda>t.
               and_then (is_punct ctx' t CHR ''}'') (\<lambda>closed.
                 if closed then Inr (Some (ctx', result', inner'))
                 else kw_params ctx' result' inner'))))"
  by pat_completeness auto

termination
  by (relation "measure (\<lambda>(ctx, _). xf_max ctx - xf_ix ctx)")
    (auto dest!: next_kw_param_moved simp: moved_def kept_def cur_tok_def split: if_splits)

declare kw_params.simps [simp del]

lemma kw_params_moved:
  assumes "kw_params ctx result inner = Inr (Some (ctx', r))"
  shows "moved ctx ctx'"
  using assms
proof (induction "xf_max ctx - xf_ix ctx" arbitrary: ctx result inner rule: less_induct)
  case less
  from less(2) obtain c a b where c: "next_kw_param result ctx = Inr (Some (c, a, b))"
    by (subst (asm) kw_params.simps) (auto simp: outcome_simps split: option.splits)
  have m: "moved ctx c" by (rule next_kw_param_moved [OF c])
  have IH: "moved ctx ctx'" if "kw_params c result inner = Inr (Some (ctx', r))"
    "cur_tok c = Some i" for result inner i
  proof -
    have "xf_max c - xf_ix c < xf_max ctx - xf_ix ctx"
      using m that(2) by (auto simp: moved_def kept_def cur_tok_def split: if_splits)
    from less(1) [OF this that(1)] m show ?thesis by (rule moved_trans [rotated])
  qed
  from less(2) m show ?case
    by (subst (asm) kw_params.simps)
      (auto simp: c outcome_simps split: if_splits option.splits dest: IH)
qed

text \<open>Down from \<open>i\<close> to a token that is not white space.\<close>

fun skip_ws_back :: "xform_t \<Rightarrow> nat \<Rightarrow> nat option outcome" where
  "skip_ws_back ctx 0 = Inr None"
| "skip_ws_back ctx (Suc i) =
     and_then (tok_at ctx (int i)) (\<lambda>t.
       if tk_type t = TT_WS then skip_ws_back ctx i else Inr (Some i))"

definition kw_va_text :: "bool \<Rightarrow> bool \<Rightarrow> string \<Rightarrow> string list \<times> string" where
  "kw_va_text decl_va_list va last_param_name =
     (let err = [''\<newline>    n00b_string_t *__err;\<newline>    ''];
          decl = (if decl_va_list
            then [''va_list __n00b_va;\<newline>\<newline>'' @ ''    va_start(__n00b_va, '', last_param_name,
                  '');\<newline>'']
            else []);
          name = (if decl_va_list then ''__n00b_va'' else last_param_name)
      in if decl_va_list \<or> va
         then (err @ decl @ [''\<newline>    n00b_karg_info_t *__n00b_ka_info = '' @ ''va_arg('', name,
                 '', void *);\<newline>''], ''__n00b_ka_info'')
         else (err @ decl, name))"

definition kw_loop_text :: "string \<Rightarrow> string list" where
  "kw_loop_text name =
     [''\<newline>    if ('', name,
      '' != NULL) {\<newline>'' @ ''        for (int __i = 0; __i < '', name,
      ''->num_provided; __i++) {\<newline>'' @ ''            n00b_one_karg_t *__ka = &'', name,
      ''->args[__i];\<newline>'']"

text \<open>The markup is in guillemets, two bytes each in UTF-8.\<close>

definition em_field :: string where
  "em_field = [CHR 0xC2, CHR 0xAB] @ ''em'' @ [CHR 0xC2, CHR 0xBB, CHR 0xC2, CHR 0xAB] @ ''#'' @
     [CHR 0xC2, CHR 0xBB, CHR 0xC2, CHR 0xAB] @ ''/'' @ [CHR 0xC2, CHR 0xBB]"

definition kw_end_text :: string where
  "kw_end_text =
     ''            __err  = '' @ ''n00b_cformat(\"Invalid keyword param: '' @ em_field @
     ''\",\<newline>         '' @ ''              n00b_cstring(__ka->kw));\<newline>'' @
     ''            N00B_RAISE(__err);\<newline>'' @ ''        __dupe_kw_found:\<newline>'' @
     ''            __err = '' @ ''n00b_cformat(\"Duplicate keyword provided: '' @ em_field @
     ''\",\<newline>        '' @ ''             n00b_cstring(__ka->kw));\<newline>'' @
     ''            N00B_RAISE(__err);\<newline>'' @ ''        }\<newline>    }\<newline>''"

text \<open>The name of the last parameter, and whether it is followed by an ellipsis or is a \<^verbatim>\<open>va_list\<close>.\<close>

definition kw_last_param :: "xform_t \<Rightarrow> (string \<times> bool \<times> bool) option outcome" where
  "kw_last_param ctx =
     and_then (scan_back ctx (int (xf_ix ctx) - 1) TT_PUNCT '')'') (\<lambda>rparen.
     and_then (skip_ws_back ctx (nat rparen)) (\<lambda>r. case r of
       None \<Rightarrow> Inr None
     | Some ix \<Rightarrow> and_then (tok_at ctx (int ix)) (\<lambda>t.
         if tk_type t = TT_PUNCT
         then and_then (kw_param_name_elipsis ctx (int ix)) (\<lambda>name.
           Inr (map_option (\<lambda>n. (n, True, False)) name))
         else and_then (kw_param_name_fixed ctx (int ix)) (\<lambda>(name, va).
           Inr (map_option (\<lambda>n. (n, False, va)) name)))))"

definition keyword_xform :: "xform_t \<Rightarrow> nat \<Rightarrow> xform_t option outcome" where
  "keyword_xform ctx start =
     and_then (kw_last_param ctx) (\<lambda>r. case r of
       None \<Rightarrow> Inr None
     | Some (last_param_name, decl_va_list, va) \<Rightarrow>
         let (va_parts, name) = kw_va_text decl_va_list va (c_str last_param_name) in
         and_then (buf_concats [] va_parts) (\<lambda>result.
         and_then (advance ctx True) (\<lambda>(ctx1, t1). case t1 of
           None \<Rightarrow> Inr None
         | Some i \<Rightarrow> and_then (tok_at ctx1 (int i)) (\<lambda>t.
             and_then (is_punct ctx1 t CHR ''{'') (\<lambda>open. if \<not> open then Inr None
             else and_then (buf_concats [] (kw_loop_text name)) (\<lambda>inner.
             and_then (advance ctx1 True) (\<lambda>(ctx2, t2).
             and_then (kw_params ctx2 result inner) (\<lambda>p. case p of
               None \<Rightarrow> Inr None
             | Some (ctx3, result', inner') \<Rightarrow>
                 and_then (buf_concats result' [inner', kw_end_text]) (\<lambda>text.
                 and_then (advance (update_tok ctx3 start (tk_replacement_update (\<lambda>_. Some text)))
                   False) (\<lambda>(ctx4, t4).
                   Inr (Some (finish_rewrite ctx4 False))))))))))))"

lemma keyword_xform_moved:
  assumes "keyword_xform ctx start = Inr (Some ctx')"
  shows "moved ctx ctx'"
proof -
  from assms obtain p d v where p: "kw_last_param ctx = Inr (Some (p, d, v))"
    by (auto simp: keyword_xform_def outcome_simps split: option.splits)
  obtain parts name where "kw_va_text d v (c_str p) = (parts, name)" by force
  with assms p obtain c1 i c2 t2 result inner c3 r repl c4 t4 where *: "advance ctx True = Inr (c1, Some i)"
    "advance c1 True = Inr (c2, t2)" "kw_params c2 result inner = Inr (Some (c3, r))"
    "advance (update_tok c3 start (tk_replacement_update (\<lambda>_. Some repl))) False = Inr (c4, t4)"
    "ctx' = finish_rewrite c4 False"
    by (auto simp: keyword_xform_def outcome_simps split: option.splits if_splits)
  then have "xf_ix c3 \<le> xf_ix c4" "kept c3 c4"
    using advance_mono(1) [OF *(4)] kept_trans [OF update_tok_kept advance_kept [OF *(4)]] by auto
  moreover have "moved c2 c3" by (rule kw_params_moved [OF *(3)])
  moreover have "moved ctx c1" using advance_Some [OF *(1)] by (simp add: moved_def)
  moreover have "xf_ix c1 \<le> xf_ix c2" "kept c1 c2" using advance_mono(1) advance_kept *(2) by blast+
  ultimately show ?thesis
    unfolding *(5) moved_def using finish_rewrite_ix finish_rewrite_kept kept_trans
    by (metis less_le_trans order.strict_trans2 less_trans)
qed

section \<open>Keywords in calls\<close>

text \<open>
  The three shared buffers of the source are made when the first keyword is found; a token gets
  one of them as its replacement only after that.
\<close>

definition N00B_MAX_KEYWORD_SIZE :: int where
  "N00B_MAX_KEYWORD_SIZE = 64"

definition arg_fn_name :: string where
  "arg_fn_name = '' n00b_kargs_obj(''"

definition comma_buf :: string where
  "comma_buf = '', (int64_t)(''"

definition tri_paren :: string where
  "tri_paren = ''), NULL))''"

definition post_ka_comma :: string where
  "post_ka_comma = ''), ''"

abbreviation set_replacement :: "string \<Rightarrow> tok \<Rightarrow> tok" where
  "set_replacement r \<equiv> tk_replacement_update (\<lambda>_. Some r)"

definition open_paren_tracking :: "xform_t \<Rightarrow> bool \<Rightarrow> xform_t" where
  "open_paren_tracking ctx id_prior =
     ctx\<lparr>xf_kw_stack := \<lparr>ku_id = id_prior, ku_started_kobj = False, ku_kw_count = 0,
       ku_freed = False\<rparr> # xf_kw_stack ctx\<rparr>"

text \<open>The records are freed, and \<^verbatim>\<open>kw_stack\<close> keeps pointing to them.\<close>

definition reset_tracking :: "xform_t \<Rightarrow> xform_t outcome" where
  "reset_tracking ctx =
     (if list_ex ku_freed (xf_kw_stack ctx) then Inl UseAfterFree
      else Inr (ctx\<lparr>xf_kw_stack := map (ku_freed_update (\<lambda>_. True)) (xf_kw_stack ctx)\<rparr>))"

definition close_paren_tracking :: "xform_t \<Rightarrow> nat \<Rightarrow> xform_t outcome" where
  "close_paren_tracking ctx cur =
     (case xf_kw_stack ctx of
        [] \<Rightarrow> Inr ctx
      | entry # below \<Rightarrow>
          if ku_freed entry then Inl UseAfterFree
          else Inr ((if ku_started_kobj entry then update_tok ctx cur (set_replacement tri_paren)
                     else ctx)\<lparr>xf_kw_stack := below\<rparr>))"

text \<open>A keyword is an identifier and a colon behind the token at \<open>cur\<close>.\<close>

definition keyword_follows :: "xform_t \<Rightarrow> nat option \<Rightarrow> nat option \<Rightarrow> bool outcome" where
  "keyword_follows ctx la1 la2 =
     (case (la1, la2) of
        (Some i, Some j) \<Rightarrow>
          and_then (tok_at ctx (int i)) (\<lambda>t1. if tk_type t1 \<noteq> TT_ID then Inr False
          else and_then (tok_at ctx (int j)) (\<lambda>t2. is_punct ctx t2 CHR '':''))
      | _ \<Rightarrow> Inr False)"

definition keyword_no_match :: "xform_t \<Rightarrow> kw_use_ctx \<Rightarrow> nat option \<Rightarrow> xform_t outcome" where
  "keyword_no_match ctx entry la1 =
     (if \<not> ku_started_kobj entry then Inr ctx
      else and_then (deref ctx la1) (\<lambda>t. Inl (ExitCall (-1))))"

definition keyword_match :: "xform_t \<Rightarrow> kw_use_ctx \<Rightarrow> nat \<Rightarrow> nat \<Rightarrow> nat \<Rightarrow> xform_t outcome" where
  "keyword_match ctx entry cur la1 la2 =
     and_then (tok_at ctx (int cur)) (\<lambda>tcur.
     and_then (byte_at (xf_input ctx) (tk_offset tcur)) (\<lambda>b.
     let ctx1 = update_tok ctx cur (set_replacement
           (if ku_started_kobj entry then post_ka_comma else b # arg_fn_name)) in
     if ku_kw_count entry \<noteq> 0 \<and> ku_kw_count entry + 1 > N00B_MAX_KEYWORD_SIZE then Inl (ExitCall (-1))
     else and_then (tok_at ctx1 (int la1)) (\<lambda>t1.
     and_then (extract_tok (xf_input ctx1) t1) (\<lambda>name.
       Inr (update_tok (update_tok ctx1 la1 (set_replacement (dquote # name @ [dquote])))
              la2 (set_replacement comma_buf)
            \<lparr>xf_kw_stack := entry\<lparr>ku_kw_count := ku_kw_count entry + 1, ku_started_kobj := True\<rparr> #
               tl (xf_kw_stack ctx)\<rparr>)))))"

definition possible_keyword :: "xform_t \<Rightarrow> nat \<Rightarrow> xform_t outcome" where
  "possible_keyword ctx cur =
     (case xf_kw_stack ctx of
        [] \<Rightarrow> Inr ctx
      | entry # below \<Rightarrow>
          if ku_freed entry then Inl UseAfterFree
          else if \<not> ku_id entry then Inr ctx
          else and_then (lookahead ctx 1) (\<lambda>la1. and_then (lookahead ctx 2) (\<lambda>la2.
            and_then (keyword_follows ctx la1 la2) (\<lambda>follows.
              if follows then keyword_match ctx entry cur (the la1) (the la2)
              else keyword_no_match ctx entry la1))))"

definition kw_tracking :: "xform_t \<Rightarrow> nat \<Rightarrow> xform_t outcome" where
  "kw_tracking ctx cur =
     and_then (tok_at ctx (int cur)) (\<lambda>t.
       if tk_type t = TT_PUNCT then
         and_then (byte_at (xf_input ctx) (tk_offset t)) (\<lambda>c.
           if c = CHR ''('' then
             and_then (lookbehind ctx 1) (\<lambda>prev. and_then (deref ctx prev) (\<lambda>pt.
               let id_prior = (tk_type pt = TT_ID); ctx1 = open_paren_tracking ctx id_prior in
               if id_prior then possible_keyword ctx1 cur else Inr ctx1))
           else if c = CHR '')'' then close_paren_tracking ctx cur
           else if c = CHR '','' then possible_keyword ctx cur
           else Inr ctx)
       else if tk_type t = TT_PREPROC then
         (case xf_kw_stack ctx of
            [] \<Rightarrow> reset_tracking ctx
          | entry # below \<Rightarrow>
              if ku_freed entry then Inl UseAfterFree
              else if ku_started_kobj entry then Inl (ExitCall (-1))
              else reset_tracking ctx)
       else Inr ctx)"

section \<open>Frame of the tracking\<close>

definition settled :: "xform_t \<Rightarrow> xform_t outcome \<Rightarrow> bool" where
  "settled ctx r \<longleftrightarrow> (case r of Inl e \<Rightarrow> True | Inr ctx' \<Rightarrow> kept ctx ctx' \<and> xf_ix ctx' = xf_ix ctx)"

lemma settled_Inl [simp]: "settled ctx (Inl e)"
  by (simp add: settled_def)

lemma settled_Inr [simp]: "settled ctx (Inr ctx') \<longleftrightarrow> kept ctx ctx' \<and> xf_ix ctx' = xf_ix ctx"
  by (simp add: settled_def)

lemma settled_and_then [intro]: "(\<And>x. r = Inr x \<Longrightarrow> settled ctx (f x)) \<Longrightarrow> settled ctx (and_then r f)"
  by (cases r) auto

lemma keyword_match_settled: "settled ctx (keyword_match ctx entry cur la1 la2)"
  unfolding keyword_match_def Let_def by (auto intro!: settled_and_then)

lemma possible_keyword_settled: "settled ctx (possible_keyword ctx cur)"
  unfolding possible_keyword_def keyword_no_match_def
  by (auto split: list.splits intro!: settled_and_then keyword_match_settled)

lemma kw_tracking_settled: "settled ctx (kw_tracking ctx cur)"
proof -
  have pos: "settled ctx (possible_keyword (open_paren_tracking ctx b) cur)" for b
    using possible_keyword_settled [of "open_paren_tracking ctx b" cur]
    by (simp add: settled_def open_paren_tracking_def split: sum.splits)
  have paren: "settled ctx (if p then possible_keyword (open_paren_tracking ctx b) cur
      else Inr (open_paren_tracking ctx b))" for p b
    using pos by (simp add: open_paren_tracking_def)
  have close: "settled ctx (close_paren_tracking ctx cur)"
    by (simp add: close_paren_tracking_def split: list.splits)
  have reset: "settled ctx (reset_tracking ctx)" by (simp add: reset_tracking_def)
  show ?thesis
    unfolding kw_tracking_def Let_def
    by (simp add: close reset possible_keyword_settled paren settled_and_then split: list.splits)
qed

end
