(* ===== verification/Ncpp_Main.thy ===== *)
theory Ncpp_Main
  imports Ncpp_Once Ncpp_Keyword
begin

text \<open>
  The preprocessor as a whole: the driver of the transforms (\<^verbatim>\<open>src/ncpp/xforms.c\<close>), the writer
  of the output file (\<^verbatim>\<open>src/ncpp/output.c\<close>) and \<^verbatim>\<open>main\<close> (\<^verbatim>\<open>src/ncpp/ncpp.c\<close>).

  Files are strings. The C library's \<^verbatim>\<open>fwrite\<close> is a parameter \<open>fw\<close>: given what the file holds
  and how many bytes are offered, how many it takes, none meaning an error. Messages on the
  error stream are not modelled.
\<close>

section \<open>Driver of the transforms\<close>

definition try_id_xforms :: "xform_t \<Rightarrow> xform_t option outcome" where
  "try_id_xforms ctx =
     and_then (tok_at ctx (int (xf_ix ctx))) (\<lambda>t.
     and_then (id_check ''keywords'' (xf_input ctx) (tk_offset t) (tk_len t)) (\<lambda>kw.
       if kw then keyword_xform (ctx\<lparr>xf_rewrite_start_ix := xf_ix ctx\<rparr>) (xf_ix ctx)
       else and_then (id_check ''once'' (xf_input ctx) (tk_offset t) (tk_len t)) (\<lambda>on.
         if on then and_then (once_xform ctx (xf_ix ctx)) (\<lambda>ctx'. Inr (Some ctx'))
         else Inr (Some (ctx\<lparr>xf_ix := xf_ix ctx + 1\<rparr>)))))"

lemma try_id_xforms_moved:
  assumes "try_id_xforms ctx = Inr (Some ctx')"
  shows "moved ctx ctx'"
proof -
  let ?ctx = "ctx\<lparr>xf_rewrite_start_ix := xf_ix ctx\<rparr>"
  have kw: "moved ctx ctx'" if "keyword_xform ?ctx (xf_ix ctx) = Inr (Some ctx')"
    using keyword_xform_moved [OF that] by (auto simp: moved_def kept_def)
  show ?thesis
    using assms by (auto simp: try_id_xforms_def outcome_simps split: if_splits
        dest: kw once_xform_moved)
qed

lemma kw_tracking_kept:
  "kw_tracking ctx cur = Inr ctx' \<Longrightarrow> kept ctx ctx' \<and> xf_ix ctx' = xf_ix ctx"
  using kw_tracking_settled [of ctx cur] by simp

function transform_loop :: "xform_t \<Rightarrow> xform_t option outcome" where
  "transform_loop ctx =
     (if xf_ix ctx < xf_max ctx then
        and_then (tok_at ctx (int (xf_ix ctx))) (\<lambda>t.
          if tk_type t = TT_ID then
            and_then (try_id_xforms ctx) (\<lambda>r. case r of
              None \<Rightarrow> Inr None
            | Some ctx' \<Rightarrow> transform_loop ctx')
          else and_then (kw_tracking ctx (xf_ix ctx)) (\<lambda>ctx'.
            transform_loop (ctx'\<lparr>xf_ix := xf_ix ctx' + 1\<rparr>)))
      else Inr (Some ctx))"
  by pat_completeness auto

termination
proof (relation "measure (\<lambda>ctx. xf_max ctx - xf_ix ctx)", goal_cases)
  case (2 ctx t r ctx')
  then show ?case using try_id_xforms_moved [of ctx ctx'] by (auto simp: moved_def kept_def)
next
  case (3 ctx t ctx')
  then show ?case using kw_tracking_kept [of ctx "xf_ix ctx" ctx'] by (auto simp: kept_def)
qed simp

declare transform_loop.simps [simp del]

text \<open>The token array is shared between the lexer state and the transform state.\<close>

definition xform_start :: "lex_t \<Rightarrow> xform_t" where
  "xform_start state = \<lparr>xf_input = lx_input state, xf_toks = lx_toks state,
     xf_alloc = lx_alloc state, xf_in_file = lx_in_file state, xf_ix = 0,
     xf_max = length (lx_toks state), xf_rewrite_start_ix = 0, xf_kw_stack = []\<rparr>"

definition apply_transforms :: "lex_t \<Rightarrow> lex_t option outcome" where
  "apply_transforms state =
     and_then (transform_loop (xform_start state)) (\<lambda>r.
       Inr (map_option (\<lambda>ctx. state\<lparr>lx_toks := xf_toks ctx\<rparr>) r))"

section \<open>Writing the output\<close>

function write_to_file :: "(string \<Rightarrow> nat \<Rightarrow> nat) \<Rightarrow> string \<Rightarrow> string \<Rightarrow> string \<times> bool" where
  "write_to_file fw f p =
     (if p = [] then (f, True)
      else (let l = min (fw f (length p)) (length p) in
        if l = 0 then (f, False) else write_to_file fw (f @ take l p) (drop l p)))"
  by pat_completeness auto

termination by (relation "measure (\<lambda>(fw, f, p). length p)") auto

declare write_to_file.simps [simp del]

fun dec_nat :: "nat \<Rightarrow> string" where
  "dec_nat n = (if n < 10 then [char_of (48 + n)] else dec_nat (n div 10) @ [char_of (48 + n mod 10)])"

declare dec_nat.simps [simp del]

definition dec :: "int \<Rightarrow> string" where
  "dec i = (if i < 0 then CHR ''-'' # dec_nat (nat (- i)) else dec_nat (nat i))"

definition MAX_HASH_LINE_LEN :: nat where
  "MAX_HASH_LINE_LEN = 256"

definition line_directive :: "string \<Rightarrow> int \<Rightarrow> string" where
  "line_directive fname lineno = ''#line '' @ dec lineno @ '' '' @ [dquote] @ fname @ [dquote, newline]"

text \<open>
  The directive is formatted into a buffer of 256 bytes and written with its full length, so a
  longer one is read behind the buffer. The result of the write is ignored.
\<close>

definition write_line_directive ::
  "(string \<Rightarrow> nat \<Rightarrow> nat) \<Rightarrow> string \<Rightarrow> string \<Rightarrow> int \<Rightarrow> string outcome" where
  "write_line_directive fw f fname lineno =
     (let s = line_directive fname lineno;
          buf = take (MAX_HASH_LINE_LEN - 1) s @ [CHR 0x00] in
      if length s > MAX_HASH_LINE_LEN then Inl OutOfBounds
      else Inr (fst (write_to_file fw f (take (length s) buf))))"

definition possible_newline :: "string \<Rightarrow> tok \<Rightarrow> tok option \<Rightarrow> string \<Rightarrow> (string \<times> bool) outcome" where
  "possible_newline f cur prev input =
     (case tk_replacement cur of
        Some r \<Rightarrow> and_then (byte_at r 0) (\<lambda>c.
          Inr (if c \<noteq> CHR ''('' then (f @ [newline], True) else (f, False)))
      | None \<Rightarrow>
          (case prev of
             None \<Rightarrow> Inr (f, False)
           | Some p \<Rightarrow>
               if tk_line_no cur = tk_line_no p then
                 and_then (byte_at input (tk_offset cur)) (\<lambda>c.
                   Inr (if c \<noteq> CHR ''('' then (f @ [newline], True) else (f, False)))
               else Inr (f, False)))"

text \<open>One round of the loop over the tokens; \<open>False\<close> when a write failed.\<close>

record out_state =
  os_file :: string
  os_using_in_file :: bool
  os_line_no :: int

definition output_tok ::
  "(string \<Rightarrow> nat \<Rightarrow> nat) \<Rightarrow> lex_t \<Rightarrow> tok option \<Rightarrow> tok \<Rightarrow> out_state \<Rightarrow> (out_state \<times> bool) outcome" where
  "output_tok fw state prev t os =
     (case tk_replacement t of
        Some r \<Rightarrow>
          and_then (if \<not> os_using_in_file os then Inr os
            else and_then (possible_newline (os_file os) t prev (lx_input state)) (\<lambda>(f, nl).
              if \<not> nl then Inr (os\<lparr>os_using_in_file := False\<rparr>)
              else and_then (write_line_directive fw f (lx_out_file state) (os_line_no os + 2)) (\<lambda>f'.
                Inr \<lparr>os_file = f', os_using_in_file = False, os_line_no = os_line_no os + 2\<rparr>))) (\<lambda>os'.
          and_then (count_newlines (lx_input state) t) (\<lambda>n.
            let (f, ok) = write_to_file fw (os_file os') r in
            Inr (os'\<lparr>os_file := f, os_line_no := os_line_no os' + n\<rparr>, ok)))
      | None \<Rightarrow>
          if tk_skip_emit t then Inr (os, True)
          else
            and_then (if os_using_in_file os then Inr os
              else and_then (possible_newline (os_file os) t prev (lx_input state)) (\<lambda>(f, nl).
                if \<not> nl then Inr (os\<lparr>os_using_in_file := True\<rparr>)
                else and_then (write_line_directive fw f (lx_in_file state) (tk_line_no t)) (\<lambda>f'.
                  Inr \<lparr>os_file = f', os_using_in_file = True, os_line_no = os_line_no os + 2\<rparr>))) (\<lambda>os'.
            and_then (count_newlines (lx_input state) t) (\<lambda>n.
            and_then (extract_tok (lx_input state) t) (\<lambda>bytes.
              let (f, ok) = write_to_file fw (os_file os') bytes in
              Inr (os'\<lparr>os_file := f, os_line_no := os_line_no os' + n\<rparr>, ok)))))"

fun output_toks ::
  "(string \<Rightarrow> nat \<Rightarrow> nat) \<Rightarrow> lex_t \<Rightarrow> tok option \<Rightarrow> tok list \<Rightarrow> out_state \<Rightarrow> (string \<times> bool) outcome" where
  "output_toks fw state prev [] os = Inr (os_file os, True)"
| "output_toks fw state prev (t # ts) os =
     and_then (output_tok fw state prev t os) (\<lambda>(os', ok).
       if ok then output_toks fw state (Some t) ts os' else Inr (os_file os', False))"

definition output_new_file :: "(string \<Rightarrow> nat \<Rightarrow> nat) \<Rightarrow> lex_t \<Rightarrow> (string \<times> bool) outcome" where
  "output_new_file fw state =
     output_toks fw state None (lx_toks state)
       \<lparr>os_file = [], os_using_in_file = False, os_line_no = 1\<rparr>"

section \<open>Printing tokens\<close>

fun repr_type :: "ttype \<Rightarrow> string" where
  "repr_type TT_WS = ''ws''"
| "repr_type TT_ID = ''id''"
| "repr_type TT_NUM = ''number''"
| "repr_type TT_COMMENT = ''comment''"
| "repr_type TT_STR = ''string''"
| "repr_type TT_CHR = ''char lit''"
| "repr_type TT_PUNCT = ''punct''"
| "repr_type TT_PREPROC = ''preproc''"
| "repr_type TT_ERR = ''error''"
| "repr_type TT_UNKNOWN = ''?''"

definition repr_asis :: "lex_t \<Rightarrow> tok \<Rightarrow> string outcome" where
  "repr_asis state t = extract_tok (lx_input state) t"

definition tok_newlines :: "lex_t \<Rightarrow> tok \<Rightarrow> nat outcome" where
  "tok_newlines state t =
     (if tk_len t \<le> 0 then Inr 0
      else and_then (extract_tok (lx_input state) t) (\<lambda>part. Inr (newlines part)))"

definition repr_ws :: "lex_t \<Rightarrow> tok \<Rightarrow> string outcome" where
  "repr_ws state t =
     and_then (tok_newlines state t) (\<lambda>count.
       Inr (if count = 0 then [] else ''('' @ dec_nat count @ '' newlines)''))"

definition repr_possible_nl :: "lex_t \<Rightarrow> tok \<Rightarrow> string outcome" where
  "repr_possible_nl state t =
     and_then (tok_newlines state t) (\<lambda>count.
       if count \<noteq> 0 then Inr ''<<multi-line value>>'' else repr_asis state t)"

definition repr_tok :: "lex_t \<Rightarrow> tok \<Rightarrow> string outcome" where
  "repr_tok state t =
     (if tk_type t = TT_WS then repr_ws state t
      else if tk_type t \<in> {TT_ID, TT_NUM, TT_STR, TT_CHR, TT_PUNCT} then repr_asis state t
      else repr_possible_nl state t)"

definition dec4 :: "nat \<Rightarrow> string" where
  "dec4 n = (let s = dec_nat n in replicate (4 - length s) (CHR ''0'') @ s)"

fun print_toks :: "lex_t \<Rightarrow> nat \<Rightarrow> tok list \<Rightarrow> string outcome" where
  "print_toks state i [] = Inr []"
| "print_toks state i (t # ts) =
     and_then (repr_tok state t) (\<lambda>s2. and_then (print_toks state (i + 1) ts) (\<lambda>more.
       Inr (dec4 i @ '': '' @ repr_type (tk_type t) @ '': '' @ c_str s2 @ '' (line '' @
            dec (tk_line_no t) @ '')'' @ [newline] @ more)))"

definition print_tokens :: "lex_t \<Rightarrow> string outcome" where
  "print_tokens state = print_toks state 0 (lx_toks state)"

section \<open>The program\<close>

text \<open>
  A file system gives the bytes of a readable file and whether it can be repositioned. The
  result is the exit status, the text on the standard output and the file written.
\<close>

type_synonym files = "string \<Rightarrow> (bool \<times> string) option"

definition read_file :: "files \<Rightarrow> string \<Rightarrow> string option" where
  "read_file fs fname =
     (case fs fname of None \<Rightarrow> None | Some (seekable, bytes) \<Rightarrow> if seekable then Some bytes else None)"

record run_result =
  rr_status :: int
  rr_stdout :: string
  rr_written :: "(string \<times> string) option"

definition main :: "int \<Rightarrow> (string \<Rightarrow> nat \<Rightarrow> nat) \<Rightarrow> files \<Rightarrow> (string \<Rightarrow> bool) \<Rightarrow> string list \<Rightarrow> run_result outcome"
where
  "main ps fw fs writable argv =
     (let debug = (1 < length argv \<and> (argv ! 1 = ''-d'' \<or> argv ! 1 = ''--debug''));
          base = (if debug then 2 else 1) in
      if length argv \<noteq> base + 2 then Inr \<lparr>rr_status = -1, rr_stdout = [], rr_written = None\<rparr>
      else
        let in_file = argv ! base; out_file = argv ! (base + 1) in
        case read_file fs in_file of
          None \<Rightarrow> Inr \<lparr>rr_status = -2, rr_stdout = [], rr_written = None\<rparr>
        | Some input \<Rightarrow>
            and_then (lex ps (main_state in_file out_file input)) (\<lambda>state.
            and_then (if debug then print_tokens state else Inr []) (\<lambda>listing.
            and_then (apply_transforms state) (\<lambda>r. case r of
              None \<Rightarrow> Inr \<lparr>rr_status = -3, rr_stdout = listing, rr_written = None\<rparr>
            | Some state' \<Rightarrow>
                if out_file \<noteq> ''-'' \<and> \<not> writable out_file
                then Inr \<lparr>rr_status = -4, rr_stdout = listing, rr_written = None\<rparr>
                else and_then (output_new_file fw state') (\<lambda>(text, ok).
                  let status = (if ok then 0 else -4) in
                  Inr (if out_file = ''-''
                    then \<lparr>rr_status = status, rr_stdout = listing @ text, rr_written = None\<rparr>
                    else \<lparr>rr_status = status, rr_stdout = listing,
                      rr_written = Some (out_file, text)\<rparr>))))))"

section \<open>The frame of the transforms\<close>

lemma transform_loop_kept:
  assumes "transform_loop ctx = Inr (Some ctx')"
  shows "kept ctx ctx'"
  using assms
proof (induction "xf_max ctx - xf_ix ctx" arbitrary: ctx rule: less_induct)
  case less
  have step: "kept ctx ctx'" if "transform_loop c = Inr (Some ctx')" "moved ctx c" "xf_ix ctx < xf_max ctx" for c
    using less(1) [OF _ that(1)] that(2,3) by (auto simp: moved_def kept_def)
  have track: "moved ctx (c\<lparr>xf_ix := Suc (xf_ix c)\<rparr>)" if "kw_tracking ctx (xf_ix ctx) = Inr c" for c
    using kw_tracking_kept [OF that] by (simp add: moved_def)
  from less(2) show ?case
    by (subst (asm) transform_loop.simps)
      (auto simp: outcome_simps split: if_splits option.splits
        dest: step try_id_xforms_moved track)
qed

section \<open>Text without constructs to transform\<close>

definition plain_tok :: "string \<Rightarrow> tok \<Rightarrow> bool" where
  "plain_tok input t \<longleftrightarrow>
     \<not> (tk_type t = TT_ID \<and> extract_tok input t \<in> {Inr ''keywords'', Inr ''once''}) \<and>
     \<not> (tk_type t = TT_PUNCT \<and> byte_at input (tk_offset t) = Inr CHR '':'')"

definition untouched :: "xform_t \<Rightarrow> bool" where
  "untouched ctx \<longleftrightarrow> list_all (plain_tok (xf_input ctx)) (xf_toks ctx) \<and>
     list_all (\<lambda>e. \<not> ku_started_kobj e) (xf_kw_stack ctx)"

lemma tok_at_plain:
  assumes "list_all (plain_tok (xf_input ctx)) (xf_toks ctx)" "tok_at ctx i = Inr t"
  shows "plain_tok (xf_input ctx) t"
  using assms by (auto simp: tok_at_def list_all_length plain_tok_def zero_tok_def split: if_splits)

lemma id_check_plain:
  assumes "plain_tok input t" "tk_type t = TT_ID" "id_check s input (tk_offset t) (tk_len t) = Inr b"
    "s = ''keywords'' \<or> s = ''once''"
  shows "\<not> b"
  using assms by (auto simp: id_check_def plain_tok_def extract_tok_def split: if_splits)

lemma possible_keyword_plain:
  assumes "untouched ctx" "possible_keyword ctx cur = Inr ctx'"
  shows "ctx' = ctx"
proof -
  have "\<not> f" if "keyword_follows ctx a b = Inr f" for a b f
    using that assms(1) tok_at_plain
    by (fastforce simp: keyword_follows_def untouched_def is_punct_def plain_tok_def outcome_simps
        split: option.splits if_splits)
  then show ?thesis using assms
    by (auto simp: possible_keyword_def keyword_no_match_def untouched_def outcome_simps
        split: list.splits if_splits)
qed

lemma kw_tracking_plain:
  assumes "untouched ctx" "kw_tracking ctx cur = Inr ctx'"
  shows "untouched ctx' \<and> xf_toks ctx' = xf_toks ctx"
proof -
  have "untouched (open_paren_tracking ctx b)" for b
    using assms(1) by (simp add: untouched_def open_paren_tracking_def)
  moreover have "xf_toks (open_paren_tracking ctx b) = xf_toks ctx" for b
    by (simp add: open_paren_tracking_def)
  ultimately have opened: "untouched c \<and> xf_toks c = xf_toks ctx"
    if "possible_keyword (open_paren_tracking ctx b) cur = Inr c" for b c
    using that possible_keyword_plain by metis
  have pos: "untouched c \<and> xf_toks c = xf_toks ctx" if "possible_keyword ctx cur = Inr c" for c
    using that possible_keyword_plain assms(1) by metis
  have close: "untouched c \<and> xf_toks c = xf_toks ctx" if "close_paren_tracking ctx cur = Inr c" for c
    using that assms(1)
    by (auto simp: close_paren_tracking_def untouched_def split: list.splits if_splits)
  have reset: "untouched c \<and> xf_toks c = xf_toks ctx" if "reset_tracking ctx = Inr c" for c
    using that assms(1)
    by (auto simp: reset_tracking_def untouched_def list_all_iff split: if_splits)
  show ?thesis
    using assms(2) \<open>\<And>b. untouched (open_paren_tracking ctx b)\<close>
      \<open>\<And>b. xf_toks (open_paren_tracking ctx b) = xf_toks ctx\<close> assms(1)
    by (auto simp: kw_tracking_def Let_def outcome_simps split: if_splits list.splits
        dest: opened pos close reset)
qed

lemma transform_loop_step:
  assumes "xf_ix ctx < xf_max ctx" "transform_loop ctx = Inr r"
  obtains t s where "tok_at ctx (int (xf_ix ctx)) = Inr t" "tk_type t = TT_ID"
    "try_id_xforms ctx = Inr s" "(case s of None \<Rightarrow> Inr None | Some c \<Rightarrow> transform_loop c) = Inr r"
  | t c where "tok_at ctx (int (xf_ix ctx)) = Inr t" "tk_type t \<noteq> TT_ID"
    "kw_tracking ctx (xf_ix ctx) = Inr c" "transform_loop (c\<lparr>xf_ix := xf_ix c + 1\<rparr>) = Inr r"
proof -
  have "transform_loop ctx = and_then (tok_at ctx (int (xf_ix ctx))) (\<lambda>t.
      if tk_type t = TT_ID then
        and_then (try_id_xforms ctx) (\<lambda>r. case r of None \<Rightarrow> Inr None | Some c \<Rightarrow> transform_loop c)
      else and_then (kw_tracking ctx (xf_ix ctx)) (\<lambda>c. transform_loop (c\<lparr>xf_ix := xf_ix c + 1\<rparr>)))"
    using assms(1) by (subst transform_loop.simps) (simp only: if_True)
  with assms(2) show ?thesis
    using that by (auto simp only: and_then_eq_Inr split: if_split_asm)
qed

lemma try_id_xforms_plain:
  assumes "tok_at ctx (int (xf_ix ctx)) = Inr t" "tk_type t = TT_ID" "plain_tok (xf_input ctx) t"
    "try_id_xforms ctx = Inr s"
  shows "s = Some (ctx\<lparr>xf_ix := xf_ix ctx + 1\<rparr>)"
  using assms(1,4) id_check_plain [OF assms(3,2)]
  by (auto simp: try_id_xforms_def outcome_simps split: if_splits)

lemma transform_loop_plain:
  assumes "untouched ctx" "transform_loop ctx = Inr r"
  shows "\<exists>c. r = Some c \<and> xf_toks c = xf_toks ctx"
  using assms
proof (induction "xf_max ctx - xf_ix ctx" arbitrary: ctx rule: less_induct)
  case less
  have IH: ?case if "transform_loop c = Inr r" "untouched c" "xf_toks c = xf_toks ctx"
    "xf_max c = xf_max ctx" "xf_ix c = xf_ix ctx + 1" "xf_ix ctx < xf_max ctx" for c
    using less(1) [OF _ that(2,1)] that(3-6) by auto
  show ?case
  proof (cases "xf_ix ctx < xf_max ctx")
    case False
    then have "transform_loop ctx = Inr (Some ctx)" by (subst transform_loop.simps) simp
    then show ?thesis using less(3) by auto
  next
    case True
    from True less(3) show ?thesis
    proof (cases rule: transform_loop_step)
      case (1 t s)
      have "plain_tok (xf_input ctx) t"
        using tok_at_plain [OF _ 1(1)] less(2) by (simp add: untouched_def)
      then have "s = Some (ctx\<lparr>xf_ix := xf_ix ctx + 1\<rparr>)"
        using try_id_xforms_plain 1(1-3) by blast
      then have "transform_loop (ctx\<lparr>xf_ix := xf_ix ctx + 1\<rparr>) = Inr r" using 1(4) by simp
      from IH [OF this] show ?thesis using less(2) True by (auto simp: untouched_def)
    next
      case (2 t c)
      show ?thesis
        using kw_tracking_plain [OF less(2) 2(3)] kw_tracking_kept [OF 2(3)] True
        by (intro IH [OF 2(4)]) (auto simp: untouched_def kept_def)
    qed
  qed
qed

section \<open>Writing out\<close>

definition accepting :: "(string \<Rightarrow> nat \<Rightarrow> nat) \<Rightarrow> bool" where
  "accepting fw \<longleftrightarrow> (\<forall>f n. 0 < n \<longrightarrow> 0 < fw f n)"

lemma write_to_file_all: "accepting fw \<Longrightarrow> write_to_file fw f p = (f @ p, True)"
proof (induction fw f p rule: write_to_file.induct)
  case (1 fw f p)
  show ?case
  proof (cases "p = []")
    case False
    let ?l = "min (fw f (length p)) (length p)"
    have "?l \<noteq> 0" using 1(2) False by (auto simp: accepting_def)
    with 1(1) [OF False refl] 1(2) have "write_to_file fw (f @ take ?l p) (drop ?l p) = (f @ p, True)"
      by simp
    with \<open>?l \<noteq> 0\<close> False show ?thesis
      by (subst write_to_file.simps) (simp only: Let_def if_False)
  qed (simp add: write_to_file.simps)
qed

text \<open>Tokens as the lexer leaves them.\<close>

definition raw_tok :: "tok \<Rightarrow> bool" where
  "raw_tok t \<longleftrightarrow> tk_replacement t = None \<and> \<not> tk_skip_emit t"

lemma output_tok_raw:
  assumes "accepting fw" "raw_tok t" "extract_tok (lx_input state) t = Inr part"
    "os_using_in_file os \<or> prev = None"
  shows "\<exists>os'. output_tok fw state prev t os = Inr (os', True) \<and> os_file os' = os_file os @ part \<and>
     os_using_in_file os'"
  using assms
  by (auto simp: output_tok_def raw_tok_def possible_newline_def count_newlines_def
      write_to_file_all)

lemma output_toks_raw:
  assumes "accepting fw" "list_all raw_tok ts" "map (extract_tok (lx_input state)) ts = map Inr parts"
    "os_using_in_file os \<or> prev = None"
  shows "output_toks fw state prev ts os = Inr (os_file os @ concat parts, True)"
  using assms(2-4)
proof (induction ts arbitrary: parts prev os)
  case (Cons t ts)
  then obtain part ps where ps: "parts = part # ps" "extract_tok (lx_input state) t = Inr part"
    "map (extract_tok (lx_input state)) ts = map Inr ps" by (cases parts) auto
  obtain os' where "output_tok fw state prev t os = Inr (os', True)"
    "os_file os' = os_file os @ part" "os_using_in_file os'"
    using output_tok_raw [OF assms(1) _ ps(2) Cons.prems(3)] Cons.prems(1) by auto
  then show ?case using Cons.IH [OF _ ps(3), of os' "Some t"] Cons.prems(1) ps(1) by simp
qed simp

text \<open>The counter of output lines agrees with the lines written.\<close>

definition line_exact :: "out_state \<Rightarrow> bool" where
  "line_exact os \<longleftrightarrow> os_line_no os = 1 + int (newlines (os_file os))"

lemma dec_nat_no_newline: "newline \<notin> set (dec_nat n)"
proof (induction n rule: dec_nat.induct)
  case (1 n)
  have d: "char_of (48 + k) \<noteq> newline" if "k < 10" for k :: nat
  proof
    assume "char_of (48 + k) = newline"
    then have "(of_char (char_of (48 + k)) :: nat) = 10" by simp
    with that show False by simp
  qed
  show ?case using 1 d [of n] d [of "n mod 10"] by (subst dec_nat.simps) auto
qed

lemma length_dec_nat: "n < 10 ^ Suc k \<Longrightarrow> length (dec_nat n) \<le> Suc k"
proof (induction k arbitrary: n)
  case (Suc k)
  have "n div 10 < 10 ^ Suc k" using Suc.prems by (simp add: less_mult_imp_div_less)
  from Suc.IH [OF this] show ?case by (subst dec_nat.simps) auto
qed (simp add: dec_nat.simps)

lemma length_dec: "\<bar>i\<bar> < 2 ^ 31 \<Longrightarrow> length (dec i) \<le> 11"
proof -
  assume "\<bar>i\<bar> < 2 ^ 31"
  then have "nat \<bar>i\<bar> < 10 ^ Suc 9" by simp
  from length_dec_nat [OF this] show ?thesis by (auto simp: dec_def)
qed

lemma dec_no_newline: "newline \<notin> set (dec i)"
  using dec_nat_no_newline by (simp add: dec_def)

lemma newlines_zero: "newline \<notin> set s \<Longrightarrow> newlines s = 0"
  by (simp add: count_list_0_iff)

lemma write_line_directive_text:
  assumes "accepting fw" "length fname < 200" "\<bar>n\<bar> < 2 ^ 31"
  shows "write_line_directive fw f fname n = Inr (f @ line_directive fname n)"
proof -
  have "length (line_directive fname n) \<le> 255"
    using length_dec [OF assms(3)] assms(2) by (simp add: line_directive_def)
  then show ?thesis
    using assms(1) by (simp add: write_line_directive_def MAX_HASH_LINE_LEN_def write_to_file_all)
qed

lemma newlines_directive: "newline \<notin> set fname \<Longrightarrow> newlines (line_directive fname n) = 1"
  using dec_no_newline [of n] by (simp add: line_directive_def newlines_zero)

lemma lex_keeps_input:
  assumes "lex ps (main_state i out input) = Inr s'"
  shows "lx_input s' = input"
proof -
  have "lx_input s' = lx_input s" if "lex_loop s = Inr s'" for s
    using that
  proof (induction s rule: lex_loop.induct)
    case (1 s)
    show ?case
    proof (cases "lx_cur s < length (lx_input s)")
      case True
      then obtain t where t: "lex_step s = Inr t" "lex_loop t = Inr s'"
        using 1(2) by (auto simp: lex_loop.simps [of s] split: sum.splits)
      then show ?thesis using 1(1) [OF True t] lex_step_progress(1) [OF t(1)] by simp
    qed (use 1(2) in \<open>simp add: lex_loop.simps [of s]\<close>)
  qed
  then show ?thesis using assms by (fastforce simp: lex_def)
qed

lemma tiles_raw: "tiles a ts b \<Longrightarrow> list_all raw_tok ts"
  by (induction ts arbitrary: a) (auto simp: raw_tok_def)

section \<open>Directives between parentheses\<close>

text \<open>
  What the tracking does on a file with nothing to transform, when no other undefined behaviour interferes: the first token is
  something a parenthesis can follow, and the token array has room behind the last token, which a lookahead reads.
\<close>

definition punct_is :: "string \<Rightarrow> char \<Rightarrow> tok \<Rightarrow> bool" where
  "punct_is input c t \<longleftrightarrow> tk_type t = TT_PUNCT \<and> byte_at input (tk_offset t) = Inr c"

text \<open>The parentheses still open behind a list of tokens.\<close>

fun open_parens :: "string \<Rightarrow> nat \<Rightarrow> tok list \<Rightarrow> nat" where
  "open_parens input d [] = d"
| "open_parens input d (t # ts) =
     open_parens input (if punct_is input CHR ''('' t then Suc d else if punct_is input CHR '')'' t then d - 1 else d) ts"

definition tok_inside :: "string \<Rightarrow> tok \<Rightarrow> bool" where
  "tok_inside input t \<longleftrightarrow> 0 \<le> tk_offset t \<and> tk_offset t < int (length input) \<and> tk_offset t + tk_len t \<le> int (length input)"

lemma inside_byte: "tok_inside input t \<Longrightarrow> \<exists>b. byte_at input (tk_offset t) = Inr b"
  by (simp add: tok_inside_def byte_at_def read_at_def nat_less_iff)

lemma inside_id_check: "tok_inside input t \<Longrightarrow> \<exists>b. id_check w input (tk_offset t) (tk_len t) = Inr b"
  by (cases "int (length w) = tk_len t") (auto simp: tok_inside_def id_check_def intro: exI [of _ False])

definition calm_ctx :: "xform_t \<Rightarrow> bool" where
  "calm_ctx ctx \<longleftrightarrow> list_all (plain_tok (xf_input ctx)) (xf_toks ctx) \<and> list_all (tok_inside (xf_input ctx)) (xf_toks ctx) \<and>
     xf_max ctx = length (xf_toks ctx) \<and> xf_toks ctx \<noteq> [] \<and>
     int sizeof_tok * (int (length (xf_toks ctx)) + 1) \<le> xf_alloc ctx \<and>
     \<not> passed_over True (hd (xf_toks ctx)) \<and> \<not> punct_is (xf_input ctx) CHR ''('' (hd (xf_toks ctx))"

lemma calm_update [simp]: "calm_ctx (ctx\<lparr>xf_ix := i\<rparr>) = calm_ctx ctx" "calm_ctx (ctx\<lparr>xf_kw_stack := st\<rparr>) = calm_ctx ctx"
  by (simp_all add: calm_ctx_def)

lemma cast16_le: "0 \<le> i \<Longrightarrow> cast16 i \<le> i"
  using zmod_le_nonneg_dividend [of "i + 32768" 65536] by (simp add: cast16_def signed_take_bit_eq_take_bit_shift take_bit_eq_mod)

lemma tiles_inside: "tiles a ts b \<Longrightarrow> b \<le> length input \<Longrightarrow> list_all (tok_inside input) ts"
proof (induction ts arbitrary: a)
  case (Cons t ts)
  then obtain n where n: "0 < n" "tk_offset t = int a" "tk_len t = cast16 (int n)" "tiles (a + n) ts b" by auto
  have "cast16 (int n) \<le> int n" using cast16_le [of "int n"] by simp
  moreover have "a + n \<le> length input" using tiles_le [OF n(4)] Cons.prems(2) by simp
  ultimately show ?case using n Cons.IH [OF n(4) Cons.prems(2)] by (simp add: tok_inside_def)
qed simp

lemma calm_tok:
  assumes "calm_ctx ctx" "i < length (xf_toks ctx)"
  shows "tok_at ctx (int i) = Inr (xf_toks ctx ! i)" "plain_tok (xf_input ctx) (xf_toks ctx ! i)" "tok_inside (xf_input ctx) (xf_toks ctx ! i)"
  using assms by (auto simp: calm_ctx_def tok_at_def list_all_length)

lemma calm_tok_at:
  assumes "calm_ctx ctx" "i \<le> xf_max ctx"
  obtains t where "tok_at ctx (int i) = Inr t" "i < xf_max ctx \<and> t = xf_toks ctx ! i \<or> i = xf_max ctx \<and> t = zero_tok"
proof (cases "i < xf_max ctx")
  case True
  then show ?thesis using that [of "xf_toks ctx ! i"] calm_tok(1) [OF assms(1)] assms(1) by (simp add: calm_ctx_def)
next
  case False
  then have i: "i = length (xf_toks ctx)" using assms by (simp add: calm_ctx_def)
  then have "tok_at ctx (int i) = Inr zero_tok" using assms(1) by (simp add: tok_at_def calm_ctx_def add.commute)
  then show ?thesis using that i assms(1) by (simp add: calm_ctx_def)
qed

lemma advance_calm:
  assumes "calm_ctx ctx" "xf_ix ctx \<le> xf_max ctx"
  shows "\<exists>j t. advance ctx True = Inr (ctx\<lparr>xf_ix := j\<rparr>, t) \<and> j \<le> xf_max ctx \<and> (\<forall>i. t = Some i \<longrightarrow> i \<le> xf_max ctx)"
  using assms
proof (induction "xf_max ctx - xf_ix ctx" arbitrary: ctx rule: less_induct)
  case less
  show ?case
  proof (cases "xf_ix ctx < xf_max ctx")
    case False
    then have "advance ctx True = Inr (ctx\<lparr>xf_ix := xf_ix ctx\<rparr>, None)" by (simp add: advance.simps)
    then show ?thesis using less.prems(2) by blast
  next
    case True
    obtain t where t: "tok_at ctx (int (xf_ix ctx + 1)) = Inr t"
      by (rule calm_tok_at [OF less.prems(1), of "xf_ix ctx + 1"]) (use True in auto)
    let ?c = "ctx\<lparr>xf_ix := xf_ix ctx + 1\<rparr>"
    have step: "advance ctx True = (if passed_over True t then advance ?c True else Inr (?c, Some (xf_ix ctx + 1)))"
      using True t by (simp add: advance.simps [of ctx] Let_def add.commute)
    have "\<exists>j t. advance ?c True = Inr (?c\<lparr>xf_ix := j\<rparr>, t) \<and> j \<le> xf_max ?c \<and> (\<forall>i. t = Some i \<longrightarrow> i \<le> xf_max ?c)"
      using True less.prems(1) by (intro less.hyps) auto
    then show ?thesis using step True by (cases "passed_over True t") auto
  qed
qed

lemma lookahead_calm:
  assumes "calm_ctx ctx" "xf_ix ctx \<le> xf_max ctx"
  shows "\<exists>t. lookahead ctx 1 = Inr t \<and> (\<forall>i. t = Some i \<longrightarrow> i \<le> xf_max ctx)"
    "\<exists>t. lookahead ctx 2 = Inr t \<and> (\<forall>i. t = Some i \<longrightarrow> i \<le> xf_max ctx)"
proof -
  obtain j t where j: "advance ctx True = Inr (ctx\<lparr>xf_ix := j\<rparr>, t)" "j \<le> xf_max ctx" "\<forall>i. t = Some i \<longrightarrow> i \<le> xf_max ctx"
    using advance_calm [OF assms] by blast
  then show "\<exists>t. lookahead ctx 1 = Inr t \<and> (\<forall>i. t = Some i \<longrightarrow> i \<le> xf_max ctx)" by (simp add: lookahead_def)
  have "\<exists>k t. advance (ctx\<lparr>xf_ix := j\<rparr>) True = Inr (ctx\<lparr>xf_ix := k\<rparr>, t) \<and> (\<forall>i. t = Some i \<longrightarrow> i \<le> xf_max ctx)"
    using advance_calm [of "ctx\<lparr>xf_ix := j\<rparr>"] assms(1) j(2) by auto
  then show "\<exists>t. lookahead ctx 2 = Inr t \<and> (\<forall>i. t = Some i \<longrightarrow> i \<le> xf_max ctx)"
    using j(1) by (auto simp: lookahead_def numeral_2_eq_2)
qed

lemma backup_calm:
  assumes "calm_ctx ctx" "0 < xf_ix ctx" "xf_ix ctx \<le> xf_max ctx"
  shows "\<exists>i < xf_max ctx. \<exists>c. backup ctx True = Inr (c, Some i)"
  using assms
proof (induction "xf_ix ctx" arbitrary: ctx rule: less_induct)
  case less
  let ?i = "xf_ix ctx - 1" and ?c = "ctx\<lparr>xf_ix := xf_ix ctx - 1\<rparr>"
  have i: "?i < length (xf_toks ctx)" "?i < xf_max ctx" using less.prems by (auto simp: calm_ctx_def)
  note t = calm_tok(1) [OF less.prems(1) i(1)]
  have step: "backup ctx True = (if passed_over True (xf_toks ctx ! ?i) then backup ?c True else Inr (?c, Some ?i))"
    using less.prems(2) t by (simp add: backup.simps [of ctx] Let_def of_nat_diff)
  show ?case
  proof (cases "passed_over True (xf_toks ctx ! ?i)")
    case True
    then have "?i \<noteq> 0" using less.prems(1) by (auto simp: calm_ctx_def hd_conv_nth)
    then have "\<exists>i < xf_max ?c. \<exists>c. backup ?c True = Inr (c, Some i)" using less.prems by (intro less.hyps) auto
    then show ?thesis using step True by simp
  qed (use step i in auto)
qed

lemma keyword_follows_calm:
  assumes "calm_ctx ctx" "\<forall>i. a = Some i \<longrightarrow> i \<le> xf_max ctx" "\<forall>i. b = Some i \<longrightarrow> i \<le> xf_max ctx"
  shows "keyword_follows ctx a b = Inr False"
proof (cases "a = None \<or> b = None")
  case True
  then show ?thesis by (cases a; cases b) (auto simp: keyword_follows_def)
next
  case False
  then obtain i j where ij: "a = Some i" "b = Some j" "i \<le> xf_max ctx" "j \<le> xf_max ctx" using assms(2,3) by auto
  obtain t where t: "tok_at ctx (int i) = Inr t" by (rule calm_tok_at [OF assms(1) ij(3)])
  obtain u where u: "tok_at ctx (int j) = Inr u" "j < xf_max ctx \<and> u = xf_toks ctx ! j \<or> j = xf_max ctx \<and> u = zero_tok"
    by (rule calm_tok_at [OF assms(1) ij(4)])
  have "is_punct ctx u CHR '':'' = Inr False"
    using u(2)
  proof
    assume j: "j < xf_max ctx \<and> u = xf_toks ctx ! j"
    then have "plain_tok (xf_input ctx) u" "tok_inside (xf_input ctx) u" using calm_tok [OF assms(1), of j] assms(1) by (auto simp: calm_ctx_def)
    then show ?thesis by (auto simp: is_punct_def plain_tok_def tok_inside_def byte_at_def read_at_def)
  qed (simp add: is_punct_def zero_tok_def)
  then show ?thesis using ij t u(1) by (simp add: keyword_follows_def)
qed

definition fresh_stack :: "kw_use_ctx list \<Rightarrow> bool" where
  "fresh_stack st \<longleftrightarrow> list_all (\<lambda>e. \<not> ku_freed e \<and> \<not> ku_started_kobj e) st"

lemma possible_keyword_calm:
  assumes "calm_ctx ctx" "xf_ix ctx \<le> xf_max ctx" "fresh_stack (xf_kw_stack ctx)"
  shows "possible_keyword ctx cur = Inr ctx"
proof -
  obtain a b where "lookahead ctx 1 = Inr a" "lookahead ctx 2 = Inr b" "keyword_follows ctx a b = Inr False"
    using lookahead_calm [OF assms(1,2)] keyword_follows_calm [OF assms(1)] by metis
  then show ?thesis
    using assms(3) by (cases "xf_kw_stack ctx") (auto simp: possible_keyword_def keyword_no_match_def fresh_stack_def)
qed

text \<open>One token, while no directive came between parentheses.\<close>

lemma tracking_calm:
  assumes c: "calm_ctx ctx" and i: "xf_ix ctx < xf_max ctx" and st: "fresh_stack (xf_kw_stack ctx)"
    and t: "t = xf_toks ctx ! xf_ix ctx" "tk_type t \<noteq> TT_ID" and pp: "tk_type t = TT_PREPROC \<longrightarrow> xf_kw_stack ctx = []"
  shows "\<exists>st. kw_tracking ctx (xf_ix ctx) = Inr (ctx\<lparr>xf_kw_stack := st\<rparr>) \<and> fresh_stack st \<and>
    length st = open_parens (xf_input ctx) (length (xf_kw_stack ctx)) [t]"
proof -
  note T = calm_tok [OF c, of "xf_ix ctx", folded t(1)]
  have il: "xf_ix ctx < length (xf_toks ctx)" using c i by (simp add: calm_ctx_def)
  show ?thesis
  proof (cases "tk_type t = TT_PUNCT")
    case False
    then have "kw_tracking ctx (xf_ix ctx) = Inr ctx" using T(1) [OF il] pp by (simp add: kw_tracking_def reset_tracking_def)
    moreover have "ctx\<lparr>xf_kw_stack := xf_kw_stack ctx\<rparr> = ctx" by simp
    ultimately show ?thesis using st False by (intro exI [of _ "xf_kw_stack ctx"]) (simp add: punct_is_def)
  next
    case True
    obtain b where b: "byte_at (xf_input ctx) (tk_offset t) = Inr b"
      using inside_byte [OF T(3) [OF il]] by blast
    consider "b = CHR ''(''" | "b = CHR '')''" | "b \<noteq> CHR ''(''" "b \<noteq> CHR '')''" by blast
    then show ?thesis
    proof cases
      case 1
      have "xf_ix ctx \<noteq> 0" using c t(1) True b 1 by (cases "xf_ix ctx = 0") (auto simp: calm_ctx_def punct_is_def hd_conv_nth)
      then obtain k d where k: "k < xf_max ctx" "backup ctx True = Inr (d, Some k)" using backup_calm [OF c] i by auto
      have tk: "tok_at ctx (int k) = Inr (xf_toks ctx ! k)" using calm_tok(1) [OF c] k(1) c by (simp add: calm_ctx_def)
      let ?o = "open_paren_tracking ctx (tk_type (xf_toks ctx ! k) = TT_ID)"
      have o: "calm_ctx ?o" "xf_ix ?o \<le> xf_max ?o" "fresh_stack (xf_kw_stack ?o)"
        using c i st by (simp_all add: open_paren_tracking_def fresh_stack_def)
      have "kw_tracking ctx (xf_ix ctx) = Inr ?o"
        using T(1) [OF il] True b 1 k(2) tk possible_keyword_calm [OF o]
        by (cases "tk_type (xf_toks ctx ! k) = TT_ID") (simp_all add: kw_tracking_def lookbehind_def deref_def Let_def)
      then show ?thesis using o(3) True b 1
        by (intro exI [of _ "xf_kw_stack ?o"]) (simp add: open_paren_tracking_def punct_is_def)
    next
      case 2
      have "kw_tracking ctx (xf_ix ctx) = Inr (ctx\<lparr>xf_kw_stack := tl (xf_kw_stack ctx)\<rparr>)"
        using T(1) [OF il] True b 2 st
        by (cases "xf_kw_stack ctx") (simp_all add: kw_tracking_def close_paren_tracking_def fresh_stack_def)
      moreover have "fresh_stack (tl (xf_kw_stack ctx))" using st by (cases "xf_kw_stack ctx") (simp_all add: fresh_stack_def)
      ultimately show ?thesis using True b 2 by (intro exI [of _ "tl (xf_kw_stack ctx)"]) (simp add: punct_is_def)
    next
      case 3
      have "kw_tracking ctx (xf_ix ctx) = Inr ctx"
        using T(1) [OF il] True b 3 possible_keyword_calm [OF c _ st, of "xf_ix ctx"] i by (simp add: kw_tracking_def)
      moreover have "ctx\<lparr>xf_kw_stack := xf_kw_stack ctx\<rparr> = ctx" by simp
      ultimately show ?thesis using st True b 3 by (intro exI [of _ "xf_kw_stack ctx"]) (simp add: punct_is_def)
    qed
  qed
qed

lemma loop_calm_id:
  assumes c: "calm_ctx ctx" and i: "xf_ix ctx < xf_max ctx" and t: "tk_type (xf_toks ctx ! xf_ix ctx) = TT_ID"
  shows "transform_loop ctx = transform_loop (ctx\<lparr>xf_ix := xf_ix ctx + 1\<rparr>)"
proof -
  let ?t = "xf_toks ctx ! xf_ix ctx"
  have il: "xf_ix ctx < length (xf_toks ctx)" using c i by (simp add: calm_ctx_def)
  note T = calm_tok [OF c il]
  have id: "id_check w (xf_input ctx) (tk_offset ?t) (tk_len ?t) = Inr False" if w: "w = ''keywords'' \<or> w = ''once''" for w
  proof -
    obtain b where b: "id_check w (xf_input ctx) (tk_offset ?t) (tk_len ?t) = Inr b"
      using inside_id_check [OF T(3)] by blast
    then show ?thesis using id_check_plain [OF T(2) t b w] by simp
  qed
  have "try_id_xforms ctx = Inr (Some (ctx\<lparr>xf_ix := xf_ix ctx + 1\<rparr>))" using T(1) id by (simp add: try_id_xforms_def)
  then show ?thesis using i T(1) t by (subst transform_loop.simps) simp
qed

lemma open_parens_append: "open_parens input d (as @ bs) = open_parens input (open_parens input d as) bs"
  by (induction as arbitrary: d) simp_all

lemma loop_calm:
  assumes c: "calm_ctx ctx" and k: "xf_ix ctx \<le> k" "k \<le> xf_max ctx" and st: "fresh_stack (xf_kw_stack ctx)"
    "length (xf_kw_stack ctx) = open_parens (xf_input ctx) 0 (take (xf_ix ctx) (xf_toks ctx))"
    and pp: "\<forall>j < k. tk_type (xf_toks ctx ! j) = TT_PREPROC \<longrightarrow> open_parens (xf_input ctx) 0 (take j (xf_toks ctx)) = 0"
  shows "\<exists>st. transform_loop ctx = transform_loop (ctx\<lparr>xf_ix := k, xf_kw_stack := st\<rparr>) \<and> fresh_stack st \<and>
    length st = open_parens (xf_input ctx) 0 (take k (xf_toks ctx))"
  using assms
proof (induction "k - xf_ix ctx" arbitrary: ctx)
  case 0
  then have "ctx\<lparr>xf_ix := k, xf_kw_stack := xf_kw_stack ctx\<rparr> = ctx" "xf_ix ctx = k" by simp_all
  then show ?case using 0 by (metis)
next
  case (Suc m ctx)
  let ?i = "xf_ix ctx"
  let ?t = "xf_toks ctx ! ?i"
  have i: "?i < k" "?i < xf_max ctx" "?i < length (xf_toks ctx)" using Suc.hyps(2) Suc.prems(1,3) by (simp_all add: calm_ctx_def)
  have take: "open_parens (xf_input ctx) 0 (take (Suc ?i) (xf_toks ctx)) = open_parens (xf_input ctx) (length (xf_kw_stack ctx)) [?t]"
    using i(3) Suc.prems(5) by (simp add: take_Suc_conv_app_nth open_parens_append)
  have go: ?case if "transform_loop ctx = transform_loop (ctx\<lparr>xf_ix := Suc ?i, xf_kw_stack := st\<rparr>)" "fresh_stack st"
    "length st = open_parens (xf_input ctx) (length (xf_kw_stack ctx)) [?t]" for st
  proof -
    let ?c = "ctx\<lparr>xf_ix := Suc ?i, xf_kw_stack := st\<rparr>"
    have "\<exists>st'. transform_loop ?c = transform_loop (?c\<lparr>xf_ix := k, xf_kw_stack := st'\<rparr>) \<and> fresh_stack st' \<and>
        length st' = open_parens (xf_input ?c) 0 (take k (xf_toks ?c))"
      using Suc.hyps(2) Suc.prems i that take by (intro Suc.hyps(1)) auto
    with that(1) show ?thesis by simp
  qed
  show ?case
  proof (cases "tk_type ?t = TT_ID")
    case True
    have "ctx\<lparr>xf_ix := Suc ?i, xf_kw_stack := xf_kw_stack ctx\<rparr> = ctx\<lparr>xf_ix := Suc ?i\<rparr>" by simp
    then show ?thesis using loop_calm_id [OF Suc.prems(1) i(2) True] Suc.prems(4) True
      by (intro go [of "xf_kw_stack ctx"]) (simp_all add: punct_is_def)
  next
    case False
    have "tk_type ?t = TT_PREPROC \<longrightarrow> xf_kw_stack ctx = []" using Suc.prems(5,6) i(1) by auto
    from tracking_calm [OF Suc.prems(1) i(2) Suc.prems(4) refl False this] obtain st where
      st: "kw_tracking ctx ?i = Inr (ctx\<lparr>xf_kw_stack := st\<rparr>)" "fresh_stack st"
      "length st = open_parens (xf_input ctx) (length (xf_kw_stack ctx)) [?t]" by blast
    have swap: "ctx\<lparr>xf_kw_stack := st, xf_ix := Suc ?i\<rparr> = ctx\<lparr>xf_ix := Suc ?i, xf_kw_stack := st\<rparr>" by simp
    have "transform_loop ctx = transform_loop (ctx\<lparr>xf_kw_stack := st, xf_ix := Suc ?i\<rparr>)"
      using i(2) st(1) False calm_tok(1) [OF Suc.prems(1) i(3)] by (subst transform_loop.simps) simp
    then show ?thesis unfolding swap by (rule go) (use st in simp_all)
  qed
qed

text \<open>Behind a directive between parentheses: the records of the parentheses are freed, and still on the stack.\<close>

lemma loop_freed:
  assumes c: "calm_ctx ctx" and k: "xf_ix ctx \<le> k" "k < xf_max ctx" and st: "xf_kw_stack ctx = e # below" "ku_freed e"
    and close: "punct_is (xf_input ctx) CHR '')'' (xf_toks ctx ! k)"
    and none: "\<forall>j. xf_ix ctx \<le> j \<longrightarrow> j < k \<longrightarrow> \<not> punct_is (xf_input ctx) CHR ''('' (xf_toks ctx ! j)"
  shows "transform_loop ctx = Inl UseAfterFree"
  using assms
proof (induction "k - xf_ix ctx" arbitrary: ctx)
  case 0
  then have i: "xf_ix ctx = k" "k < length (xf_toks ctx)" by (simp_all add: calm_ctx_def)
  then have "kw_tracking ctx k = Inl UseAfterFree" "tk_type (xf_toks ctx ! k) \<noteq> TT_ID"
    using 0 calm_tok(1) [OF 0(2) i(2)] by (simp_all add: kw_tracking_def punct_is_def close_paren_tracking_def)
  then show ?case using 0 i calm_tok(1) [OF 0(2) i(2)] by (subst transform_loop.simps) simp
next
  case (Suc m ctx)
  let ?i = "xf_ix ctx" and ?t = "xf_toks ctx ! xf_ix ctx"
  have i: "?i < k" "?i < xf_max ctx" "?i < length (xf_toks ctx)" using Suc.hyps(2) Suc.prems(1,3) by (simp_all add: calm_ctx_def)
  note T = calm_tok [OF Suc.prems(1) i(3)]
  have next_tok: "transform_loop (ctx\<lparr>xf_ix := Suc ?i\<rparr>) = Inl UseAfterFree"
    using Suc.hyps(2) Suc.prems i by (intro Suc.hyps(1)) auto
  show ?case
  proof (cases "tk_type ?t = TT_ID")
    case True
    then show ?thesis using loop_calm_id [OF Suc.prems(1) i(2) True] next_tok by simp
  next
    case False
    obtain b where b: "byte_at (xf_input ctx) (tk_offset ?t) = Inr b"
      using inside_byte [OF T(3)] by blast
    have "kw_tracking ctx ?i = Inr ctx \<or> kw_tracking ctx ?i = Inl UseAfterFree"
      using T(1) b Suc.prems(4,5,7) i(1)
      by (auto simp: kw_tracking_def punct_is_def close_paren_tracking_def possible_keyword_def)
    then show ?thesis using i(2) T(1) False next_tok by (subst transform_loop.simps) auto
  qed
qed

lemma directive_freed:
  assumes c: "calm_ctx ctx" and i: "xf_ix ctx < k" "k < xf_max ctx" and st: "fresh_stack (xf_kw_stack ctx)" "xf_kw_stack ctx \<noteq> []"
    and hash: "tk_type (xf_toks ctx ! xf_ix ctx) = TT_PREPROC" and close: "punct_is (xf_input ctx) CHR '')'' (xf_toks ctx ! k)"
    and none: "\<forall>j. xf_ix ctx < j \<longrightarrow> j < k \<longrightarrow> \<not> punct_is (xf_input ctx) CHR ''('' (xf_toks ctx ! j)"
  shows "transform_loop ctx = Inl UseAfterFree"
proof -
  have il: "xf_ix ctx < length (xf_toks ctx)" "xf_ix ctx < xf_max ctx" using c i by (simp_all add: calm_ctx_def)
  let ?st = "map (ku_freed_update (\<lambda>_. True)) (xf_kw_stack ctx)"
  obtain e below where e: "xf_kw_stack ctx = e # below" using st(2) by (cases "xf_kw_stack ctx") auto
  have "kw_tracking ctx (xf_ix ctx) = Inr (ctx\<lparr>xf_kw_stack := ?st\<rparr>)"
    using calm_tok(1) [OF c il(1)] hash st(1) e by (auto simp: kw_tracking_def reset_tracking_def fresh_stack_def list_all_iff list_ex_iff)
  then have "transform_loop ctx = transform_loop (ctx\<lparr>xf_kw_stack := ?st, xf_ix := Suc (xf_ix ctx)\<rparr>)"
    using calm_tok(1) [OF c il(1)] il(2) hash by (subst transform_loop.simps) simp
  also have "\<dots> = Inl UseAfterFree"
    by (rule loop_freed [of _ k "e\<lparr>ku_freed := True\<rparr>" "map (ku_freed_update (\<lambda>_. True)) below"]) (use c i e close none in auto)
  finally show ?thesis .
qed

section \<open>Sample runs\<close>

text \<open>A file system with the same readable text under every name.\<close>

definition one_file :: "string \<Rightarrow> files" where
  "one_file input = (\<lambda>fname. Some (True, input))"

definition ncpp_on :: "string \<Rightarrow> run_result outcome" where
  "ncpp_on input = main 4096 (\<lambda>f n. n) (one_file input) (\<lambda>f. True) [''ncpp'', ''i'', ''o'']"

lemma sample_call:
  obtains s s' where "lex 4096 (main_state ''i'' ''o'' ''f(k:v)'') = Inr s"
    "apply_transforms s = Inr (Some s')"
    "map tk_replacement (lx_toks s') = [None, Some ''( n00b_kargs_obj('',
       Some [dquote, CHR ''k'', dquote], Some '', (int64_t)('', None, Some ''), NULL))'']"
proof -
  have "case lex 4096 (main_state ''i'' ''o'' ''f(k:v)'') of Inl e \<Rightarrow> False
     | Inr s \<Rightarrow> (case apply_transforms s of
         Inr (Some s') \<Rightarrow> map tk_replacement (lx_toks s') = [None, Some ''( n00b_kargs_obj('',
           Some [dquote, CHR ''k'', dquote], Some '', (int64_t)('', None, Some ''), NULL))'']
       | _ \<Rightarrow> False)"
    by code_simp
  then show ?thesis using that by (auto split: sum.splits option.splits)
qed

lemma sample_plain:
  obtains s r where "lex 4096 (main_state ''i'' ''o'' ''f(x);'') = Inr s"
    "list_all (\<lambda>l. l < 2 ^ 15) (token_lengths (lx_toks s) 5)"
    "list_all (plain_tok ''f(x);'') (lx_toks s)" "apply_transforms s = Inr r"
proof -
  have "case lex 4096 (main_state ''i'' ''o'' ''f(x);'') of Inl e \<Rightarrow> False
     | Inr s \<Rightarrow> list_all (\<lambda>l. l < 2 ^ 15) (token_lengths (lx_toks s) 5) \<and>
         list_all (plain_tok ''f(x);'') (lx_toks s) \<and>
         (case apply_transforms s of Inl e \<Rightarrow> False | Inr r \<Rightarrow> True)"
    by code_simp
  then show ?thesis using that by (auto split: sum.splits)
qed

text \<open>A call with a directive between its parentheses.\<close>

definition sample_directive :: string where
  "sample_directive = ''f(a,'' @ [newline, newline] @ ''#if X'' @ [newline] @ ''b)''"

definition sample_toks :: "tok list" where
  "sample_toks = (case lex 4096 (main_state ''i'' ''o'' sample_directive) of Inl e \<Rightarrow> [] | Inr s \<Rightarrow> lx_toks s)"

section \<open>Properties\<close>

text \<open>C32: The transforms never change where a token is, how long it is, which line and type it has,
  or how many there are: they add replacement texts and skip marks only.\<close>

theorem apply_transforms_frame:
  assumes "apply_transforms state = Inr (Some state')"
  shows "lx_input state' = lx_input state \<and>
     map tok_shape (lx_toks state') = map tok_shape (lx_toks state)"
proof -
  obtain ctx where "transform_loop (xform_start state) = Inr (Some ctx)"
    "state' = state\<lparr>lx_toks := xf_toks ctx\<rparr>"
    using assms by (auto simp: apply_transforms_def outcome_simps)
  with transform_loop_kept [of "xform_start state" ctx] show ?thesis
    by (simp add: kept_def xform_start_def)
qed

theorem apply_transforms_frame_witness:
  "\<exists>s s'. lex 4096 (main_state ''i'' ''o'' ''f(k:v)'') = Inr s \<and> apply_transforms s = Inr (Some s') \<and>
     tk_replacement (lx_toks s' ! 1) = Some ''( n00b_kargs_obj('' \<and>
     map tok_shape (lx_toks s') = map tok_shape (lx_toks s)"
proof -
  obtain s s' where s: "lex 4096 (main_state ''i'' ''o'' ''f(k:v)'') = Inr s"
    "apply_transforms s = Inr (Some s')"
    "map tk_replacement (lx_toks s') = [None, Some ''( n00b_kargs_obj('',
       Some [dquote, CHR ''k'', dquote], Some '', (int64_t)('', None, Some ''), NULL))'']"
    by (rule sample_call)
  have "1 < length (lx_toks s')" using arg_cong [OF s(3), of length] by simp
  then have "tk_replacement (lx_toks s' ! 1) = Some ''( n00b_kargs_obj(''"
    using arg_cong [OF s(3), of "\<lambda>xs. xs ! 1"] by simp
  with s(1,2) apply_transforms_frame [OF s(2)] show ?thesis by blast
qed

lemma sample_directive_lexed:
  obtains s where "lex 4096 (main_state ''i'' ''o'' sample_directive) = Inr s" "lx_toks s = sample_toks" "lx_alloc s = 4096"
proof -
  have "case lex 4096 (main_state ''i'' ''o'' sample_directive) of Inl e \<Rightarrow> False | Inr s \<Rightarrow> lx_alloc s = 4096" by code_simp
  then show ?thesis using that by (simp add: sample_toks_def split: sum.splits)
qed

lemma sample_directive_facts:
  "list_all (plain_tok sample_directive) sample_toks" "length sample_toks = 8" "length sample_directive = 14"
  "tk_type (sample_toks ! 5) = TT_PREPROC" "0 < open_parens sample_directive 0 (take 5 sample_toks)"
  "punct_is sample_directive CHR '')'' (sample_toks ! 7)"
  "\<not> passed_over True (hd sample_toks)" "\<not> punct_is sample_directive CHR ''('' (hd sample_toks)"
  by code_simp+

lemma sample_directive_between:
  "\<forall>j. 5 < j \<longrightarrow> j < 7 \<longrightarrow> \<not> punct_is sample_directive CHR ''('' (sample_toks ! j)"
  "\<forall>j < 5. tk_type (sample_toks ! j) = TT_PREPROC \<longrightarrow> open_parens sample_directive 0 (take j sample_toks) = 0"
proof -
  have "\<forall>j \<in> set [6..<7]. \<not> punct_is sample_directive CHR ''('' (sample_toks ! j)"
    "\<forall>j \<in> set [0..<5]. tk_type (sample_toks ! j) \<noteq> TT_PREPROC" by code_simp+
  then show "\<forall>j. 5 < j \<longrightarrow> j < 7 \<longrightarrow> \<not> punct_is sample_directive CHR ''('' (sample_toks ! j)"
    "\<forall>j < 5. tk_type (sample_toks ! j) = TT_PREPROC \<longrightarrow> open_parens sample_directive 0 (take j sample_toks) = 0"
    unfolding set_upt by auto
qed

text \<open>C31: A file with nothing to transform (no \<^verbatim>\<open>keywords\<close> and no \<^verbatim>\<open>once\<close> identifier, no colon, no token longer than its
  16-bit length can say) is copied to the output byte for byte, unless the tracking of parentheses runs into undefined behaviour, which then is the
  outcome of the run. No \<^verbatim>\<open>#line\<close> directive is written at the start: the comment in \<^verbatim>\<open>output_new_file\<close> announces one, but
  \<^verbatim>\<open>possible_newline\<close> asks for none in front of the first token.\<close>

theorem ncpp_copies_plain_text:
  assumes "fs i = Some (True, input)" "writable out" "out \<noteq> ''-''" "i \<noteq> ''-d''" "i \<noteq> ''--debug''"
    "accepting fw" "length input < 2 ^ 31" "lex ps (main_state i out input) = Inr state"
    "list_all (\<lambda>l. l < 2 ^ 15) (token_lengths (lx_toks state) (int (length input)))"
    "list_all (plain_tok input) (lx_toks state)"
  shows "main ps fw fs writable [prog, i, out] =
     (case apply_transforms state of
        Inl e \<Rightarrow> Inl e
      | Inr r \<Rightarrow> Inr \<lparr>rr_status = 0, rr_stdout = [], rr_written = Some (out, input)\<rparr>)"
proof (cases "apply_transforms state")
  case (Inl e)
  then show ?thesis using assms(1-5,8) by (simp add: main_def read_file_def)
next
  case (Inr r)
  have inp: "lx_input state = input" "tiles 0 (lx_toks state) (length input)"
    using lex_keeps_input [OF assms(8)] lex_tiled [OF assms(8)] assms(7) by simp_all
  obtain parts where parts: "map (extract_tok input) (lx_toks state) = map Inr parts" "concat parts = input"
    using extract_concat [OF inp(2) order_refl assms(9)] by auto
  have raw: "list_all raw_tok (lx_toks state)" by (rule tiles_raw [OF inp(2)])
  have "untouched (xform_start state)"
    using assms(10) inp(1) by (simp add: untouched_def xform_start_def)
  with transform_loop_plain Inr have r: "r = Some state"
    by (fastforce simp: apply_transforms_def xform_start_def outcome_simps)
  have "output_new_file fw state = Inr (input, True)"
    using output_toks_raw [OF assms(6) raw] parts inp(1) by (simp add: output_new_file_def)
  then show ?thesis using assms(1-5,8) Inr r by (simp add: main_def read_file_def)
qed

theorem ncpp_copies_plain_text_witness:
  "main 4096 (\<lambda>f n. 1) (one_file ''f(x);'') (\<lambda>f. True) [''ncpp'', ''i'', ''o''] =
     Inr \<lparr>rr_status = 0, rr_stdout = [], rr_written = Some (''o'', ''f(x);'')\<rparr>"
proof -
  obtain s r where s: "lex 4096 (main_state ''i'' ''o'' ''f(x);'') = Inr s"
    "list_all (\<lambda>l. l < 2 ^ 15) (token_lengths (lx_toks s) 5)"
    "list_all (plain_tok ''f(x);'') (lx_toks s)" "apply_transforms s = Inr r"
    by (rule sample_plain)
  have "one_file ''f(x);'' ''i'' = Some (True, ''f(x);'')" by (simp add: one_file_def)
  moreover have "accepting (\<lambda>f n. 1)" by (simp add: accepting_def)
  ultimately show ?thesis
    using ncpp_copies_plain_text [of "one_file ''f(x);''" "''i''" "''f(x);''" "\<lambda>f. True" "''o''"
        "\<lambda>f n. 1" 4096 s "''ncpp''"] s by simp
qed

text \<open>When replacement text follows input text, the writer puts it on a line of its own behind a
  \<^verbatim>\<open>#line\<close> directive that names the output file and the line the text really starts on, and the
  count of output lines stays exact.\<close>

theorem output_replacement_line:
  assumes "accepting fw" "line_exact os" "os_using_in_file os" "tk_replacement t = Some (c # r)"
    "c \<noteq> CHR ''(''" "length (lx_out_file state) < 200" "newline \<notin> set (lx_out_file state)"
    "os_line_no os < 2 ^ 31 - 2"
  shows "\<exists>os' head. output_tok fw state prev t os = Inr (os', True) \<and> line_exact os' \<and>
     head = os_file os @ [newline] @ line_directive (lx_out_file state) (os_line_no os + 2) \<and>
     os_file os' = head @ c # r \<and> os_line_no os + 2 = 1 + int (newlines head)"
proof -
  have "0 < os_line_no os" using assms(2) by (simp add: line_exact_def)
  then have n: "\<bar>os_line_no os + 2\<bar> < 2 ^ 31" using assms(8) by simp
  show ?thesis
    using assms(2-5) write_line_directive_text [OF assms(1,6) n] newlines_directive [OF assms(7)]
    by (simp add: output_tok_def possible_newline_def byte_at_def write_to_file_all [OF assms(1)]
        count_newlines_def line_exact_def)
qed

theorem output_replacement_line_witness:
  "\<exists>os'. output_tok (\<lambda>f n. n) (main_state ''i'' ''o'' ''x'') None (zero_tok\<lparr>tk_replacement := Some ''ab''\<rparr>)
       \<lparr>os_file = ''x'', os_using_in_file = True, os_line_no = 1\<rparr> = Inr (os', True) \<and>
     os_file os' = ''x'' @ [newline] @ line_directive ''o'' 3 @ ''ab''"
  using output_replacement_line [of "\<lambda>f n. n"
      "\<lparr>os_file = ''x'', os_using_in_file = True, os_line_no = 1\<rparr>"
      "zero_tok\<lparr>tk_replacement := Some ''ab''\<rparr>" "CHR ''a''" "''b''" "main_state ''i'' ''o'' ''x''" None]
  by (auto simp: accepting_def line_exact_def main_state_def)

text \<open>A file name of 246 bytes or more makes the writer read behind the buffer of the directive.\<close>

theorem long_name_overflows:
  assumes "246 \<le> length fname"
  shows "write_line_directive fw f fname lineno = Inl OutOfBounds"
proof -
  have "dec_nat n \<noteq> []" for n by (subst dec_nat.simps) simp
  then have "1 \<le> length (dec lineno)" by (simp add: dec_def Suc_le_eq)
  then have "256 < length (line_directive fname lineno)" using assms by (simp add: line_directive_def)
  then show ?thesis by (simp add: write_line_directive_def MAX_HASH_LINE_LEN_def)
qed

theorem long_name_overflows_witness:
  "write_line_directive (\<lambda>f n. n) [] (replicate 300 CHR ''a'') 1 = Inl OutOfBounds"
  using long_name_overflows [of "replicate 300 CHR ''a''"] by simp

text \<open>C34: A directive between parentheses makes the preprocessor read freed memory. In any file with nothing to transform, when a
  directive comes while a parenthesis is open and the parenthesis is closed behind it, \<^verbatim>\<open>reset_tracking\<close> frees the records of the open
  parentheses and leaves the stack pointing at them, and the next comma, directive or closing parenthesis uses them. The other conditions
  keep clear of other faults: no such directive before, no parenthesis opened between the two, a first token that can precede one, and room for the token a
  lookahead reads behind the last.\<close>

theorem directive_in_call_use_after_free:
  assumes src: "fs i = Some (True, input)" "i \<noteq> ''-d''" "i \<noteq> ''--debug''" "length input < 2 ^ 31"
    and lexed: "lex ps (main_state i out input) = Inr state" "list_all (plain_tok input) (lx_toks state)"
    and toks: "lx_toks state = ts" "d < k" "k < length ts"
    and hash: "tk_type (ts ! d) = TT_PREPROC" "0 < open_parens input 0 (take d ts)"
    and close: "punct_is input CHR '')'' (ts ! k)" "\<forall>j. d < j \<longrightarrow> j < k \<longrightarrow> \<not> punct_is input CHR ''('' (ts ! j)"
    and first: "\<forall>j < d. tk_type (ts ! j) = TT_PREPROC \<longrightarrow> open_parens input 0 (take j ts) = 0"
      "\<not> passed_over True (hd ts)" "\<not> punct_is input CHR ''('' (hd ts)"
      "int sizeof_tok * (int (length ts) + 1) \<le> lx_alloc state"
  shows "main ps fw fs writable [prog, i, out] = Inl UseAfterFree"
proof -
  have inp: "lx_input state = input" "tiles 0 ts (length input)"
    using lex_keeps_input [OF lexed(1)] lex_tiled [OF lexed(1)] src(4) toks(1) by simp_all
  let ?c = "xform_start state"
  have sel: "xf_toks ?c = ts" "xf_input ?c = input" "xf_max ?c = length ts" "xf_ix ?c = 0" "xf_kw_stack ?c = []"
    using inp(1) toks(1) by (simp_all add: xform_start_def)
  have "list_all (tok_inside input) ts" by (rule tiles_inside [OF inp(2) order_refl])
  then have calm: "calm_ctx ?c" using first(2-4) lexed(2) toks inp(1) sel by (auto simp: calm_ctx_def xform_start_def)
  obtain st where st: "transform_loop ?c = transform_loop (?c\<lparr>xf_ix := d, xf_kw_stack := st\<rparr>)" "fresh_stack st"
    "length st = open_parens input 0 (take d ts)"
    using loop_calm [OF calm, of d] sel toks(2,3) first(1) by (auto simp: fresh_stack_def)
  have "transform_loop (?c\<lparr>xf_ix := d, xf_kw_stack := st\<rparr>) = Inl UseAfterFree"
    by (rule directive_freed [of _ k]) (use calm sel toks(2,3) hash close st(2,3) in auto)
  then have "apply_transforms state = Inl UseAfterFree" using st(1) by (simp add: apply_transforms_def)
  then show ?thesis using src lexed(1) by (simp add: main_def read_file_def)
qed

theorem directive_in_call_use_after_free_witness:
  "main 4096 (\<lambda>f n. n) (one_file sample_directive) (\<lambda>f. True) [''ncpp'', ''i'', ''o''] = Inl UseAfterFree"
proof -
  obtain s where s: "lex 4096 (main_state ''i'' ''o'' sample_directive) = Inr s" "lx_toks s = sample_toks" "lx_alloc s = 4096"
    by (rule sample_directive_lexed)
  show ?thesis
    by (rule directive_in_call_use_after_free [of _ "''i''" sample_directive 4096 "''o''" s sample_toks 5 7])
      (use s sample_directive_facts sample_directive_between in \<open>simp_all add: one_file_def sizeof_tok_def\<close>)
qed

text \<open>An opening parenthesis with no token before it makes the keyword tracking dereference a
  null pointer.\<close>

theorem leading_paren_null_deref:
  "ncpp_on ''(a)'' = Inl NullDeref"
  by code_simp

text \<open>A \<^verbatim>\<open>once\<close> function with no type in front of its name makes the removal of trailing blanks
  walk off the front of the qualifiers.\<close>

theorem once_without_type_out_of_bounds:
  "ncpp_on ''once f(){'' = Inl OutOfBounds"
  by code_simp

end
