(* ===== verification/Spec2Isabelle.thy ===== *)
theory Spec2Isabelle
  imports Duncecap_Threads Swimcap Llstack_Threads Hatring_Threads Segment_Queue Hihat_Memory Ncpp_Main
begin

text \<open>
  Verification of n00b's hatrack library of concurrent data structures (\<^verbatim>\<open>src/hatrack\<close>,
  \<^verbatim>\<open>include/hatrack\<close>) and of its preprocessor ncpp (\<^verbatim>\<open>src/ncpp\<close>).

  \<^bold>\<open>The program.\<close> hatrack has hash tables that all offer one interface, a vtable of \<^verbatim>\<open>get\<close>, \<^verbatim>\<open>put\<close>, \<^verbatim>\<open>replace\<close>,
  \<^verbatim>\<open>add\<close>, \<^verbatim>\<open>remove\<close>, \<^verbatim>\<open>len\<close> and \<^verbatim>\<open>view\<close> over 128-bit hash values, and differ in how threads share them: \<^verbatim>\<open>refhat\<close>
  is the single-threaded reference, \<^verbatim>\<open>duncecap\<close> has a mutex and counted readers, \<^verbatim>\<open>swimcap\<close> a mutex for
  writers only, and the lock-free \<^verbatim>\<open>hihat\<close>, \<^verbatim>\<open>hihat-a\<close> and \<^verbatim>\<open>witchhat\<close> let every thread take part in a migration. Tables grow by
  migrating to a bigger store. Beside the tables there are stacks, queues and rings. Structures without reader locks give
  old stores, segments and nodes to the memory manager
  \<^verbatim>\<open>mmm\<close>, which frees a cell when no thread's reserved epoch covers it any more. ncpp reads a source
  file of n00b's dialect of C, lexes it, rewrites \<^verbatim>\<open>once\<close> and \<^verbatim>\<open>keywords\<close> constructs, and writes C.

  \<^bold>\<open>Theories.\<close>
  \<^item> \<open>N00b_Prelude\<close>: outcomes of C code that can fail (\<open>c_error + 'a\<close>), 64-bit wrap-around, list and bit facts;
    \<open>run_alone\<close>, the run of one thread's steps, and calls between step functions (\<open>call_step\<close>).
  \<^item> \<open>Hatrack_Common\<close>: \<^verbatim>\<open>hatrack_common.h\<close>, \<^verbatim>\<open>hatrack_common.c\<close>, \<^verbatim>\<open>hatrack-internal.h\<close>: hash values, bucket indices, sizes,
    thresholds, views and their comparator.
  \<^item> \<open>Ordered_Dict\<close>, \<open>Linear_Probe\<close>: the specification every table is held against, an insertion-ordered
    dictionary, and the probe loops all tables share, with the facts that make them find what is there.
  \<^item> \<open>Hatrack_Table\<close>: the vtable, calls through it (\<^verbatim>\<open>testhat.h\<close>), and the locale \<open>hatrack_table\<close>: the laws a
    table promises up to a \<open>limit\<close> of insertions, and what any sequence of calls then answers.
  \<^item> \<open>Refhat\<close>: \<^verbatim>\<open>refhat.c\<close>, every operation; its invariant, and its interpretation as a \<open>hatrack_table\<close>.
  \<^item> \<open>Refhat_Simulation\<close>: the locale of tables whose operations act on an image that is a reference table;
    a sublocale of \<open>hatrack_table\<close>.
  \<^item> \<open>Duncecap\<close>, \<open>Swimcap\<close>: \<^verbatim>\<open>duncecap.c\<close> and \<^verbatim>\<open>swimcap.c\<close>, every operation as one thread runs it, each an
    interpretation of the simulation.
  \<^item> \<open>Duncecap_Threads\<close>: readers and writers on one duncecap, interleaved at their shared accesses.
  \<^item> \<open>Mmm\<close>: \<^verbatim>\<open>mmm.c\<close> and \<^verbatim>\<open>mmm.h\<close>: allocation, write epochs, reservations, retire lists, thread ids; the locale \<open>reclaimer\<close> says
    what a data structure relies on, and the memory manager interprets it.
  \<^item> \<open>Bucket_Store\<close>: what each kind of write and a migration do to the dictionary of a store of buckets, and probing step by
    step, in terms no table is named in.
  \<^item> \<open>Hihat\<close>, \<open>Hihat_Table\<close>: \<^verbatim>\<open>hihat.c\<close>, \<^verbatim>\<open>hihat-a.c\<close> and \<^verbatim>\<open>witchhat.c\<close>, one algorithm with a \<open>variant\<close>: every operation and the
    migration as step functions with one shared access or one call of the memory manager per step, and their runs by one thread. The locales \<open>hihat_operation\<close> and
    \<open>hihat_insertion\<close> hold what the operations share; the vtable interprets \<open>hatrack_table\<close>.
  \<^item> \<open>Hihat_Threads\<close>, \<open>Hihat_Memory\<close>: any number of threads on one such table, interleaved between these steps: the hash
    values in the buckets, then the chain of stores and the memory manager.
  \<^item> \<open>Llstack\<close>, \<open>Llstack_Threads\<close>: \<^verbatim>\<open>llstack.c\<close>, as one thread runs it, and with any number of threads
    interleaved together with the memory manager's part in each operation.
  \<^item> \<open>Hatring\<close>, \<open>Hatring_Threads\<close>: \<^verbatim>\<open>hatring.c\<close>, the ring buffer that drops its oldest items: one thread, and any number of threads.
  \<^item> \<open>Segment_Queue\<close>: \<^verbatim>\<open>queue.c\<close> and \<^verbatim>\<open>q64.c\<close>, the same queue of array segments over two encodings of a cell (the locale \<open>queue_cells\<close>).
  \<^item> \<open>Ncpp_Lex\<close>, \<open>Ncpp_Tokens\<close>, \<open>Ncpp_Once\<close>, \<open>Ncpp_Keyword\<close>, \<open>Ncpp_Main\<close>: \<^verbatim>\<open>tokenize.c\<close>, \<^verbatim>\<open>utils.c\<close>, \<^verbatim>\<open>x_once.c\<close>,
    \<^verbatim>\<open>x_keyword.c\<close>, and \<^verbatim>\<open>xforms.c\<close>, \<^verbatim>\<open>output.c\<close>, \<^verbatim>\<open>ncpp.c\<close>.

  \<^bold>\<open>State and operations.\<close> A C struct is a record with the fields in C's order, an operation a function
  from the state to the new state and the results, an array a list, \<^verbatim>\<open>uint64_t\<close> a natural number with
  \<open>wrap64\<close> at each operation that can wrap, a 128-bit hash value a word. Panics, reads outside an array, reads of
  freed memory and undefined shifts are values of \<open>c_error\<close>; waiting for ever is \<open>None\<close>. Threads are step
  relations: a thread's state is its point in the program with its live locals, a step one shared access. In \<open>Hihat\<close>,
  \<open>Hihat_Threads\<close>, \<open>Hihat_Memory\<close> and \<open>Segment_Queue\<close> a call of the memory manager (the start of an operation with its
  reservation, a retirement with its scan and its frees) is one step as well; \<open>Llstack_Threads\<close> has its accesses apart.
  A view of a ring is a buffer of the size the code allocates, and a store behind it is an error.

  \<^bold>\<open>What is shown.\<close>
  \<^item> Tables: a sequence of calls on refhat answers as the dictionary does and never fails, put
    terminates through migrations, views are in insertion order; the same calls on duncecap and swimcap give the same
    answers and leave the same buckets and counters as on refhat, and a swimcap's memory then holds its current store and
    the stores waiting on the retire list, nothing else. On hihat, hihat-a and witchhat, which reserve, number and
    migrate differently, they give the dictionary's answers, and every operation and migration of a thread that is not
    disturbed returns.
  \<^item> hihat, hihat-a and witchhat with threads: each hash value keeps one bucket of a store, which its probe finds, and records are written to
    the bucket of their key; no thread touches a freed store, leaves an array or meets a missing link, while stores are
    replaced, retired and freed.
  \<^item> duncecap with threads: no thread touches a freed store or leaves an array; writers take effect
    once and readers return a lookup in contents the table had during the read; reader counts are exact; the wait for
    readers in a migration ends.
  \<^item> Memory manager: exactly the retired cells no reservation covers are freed; the first commit of a write
    decides its epoch; when the release of a thread returns and when it spins.
  \<^item> Stack: last in, first out for one thread; with threads, linearizable, no use of freed memory although
    addresses are reused, no leak, and each operation returns when its thread runs alone.
  \<^item> Ring: first in, first out for one thread, keeping the newest items; with threads, no ticket is used twice and the items of one producer
    reach one consumer in order, every item is handed out, dropped, or still there, and in a thread that runs alone an enqueue leaves its
    item in the cell of its ticket, a dequeue answers, and a view that has stored fewer items than the ring has cells returns them; a view taken while
    another thread enqueues can overrun its buffer.
  \<^item> Queue: first in, first out for one thread through any number of segments; \<^verbatim>\<open>q64\<close> the same up to the two bits it
    masks.
  \<^item> ncpp: the lexer is total and its tokens spell the input; line numbers; plain text passes through unchanged, unless the tracking of
    parentheses meets undefined behaviour, as it does on every directive inside parentheses; the
    buffers of the \<^verbatim>\<open>once\<close> rewriting have the exact size.
  \<^item> Defects of the code are theorems too, each an input, a state or a class of them from which the model reaches the fault.

  \<^bold>\<open>Bounds.\<close> Tables: fewer than \<open>epoch_limit = 2 ^ 55\<close> insertions, which keeps every size computation within 64
    bits, and sorted views up to \<open>2 ^ 31\<close> epochs, beyond which the comparator fails (a theorem). Initial sizes \<open>2 ^ 4\<close> to
    \<open>2 ^ 30\<close>. witchhat: fewer than \<open>2 ^ 50\<close> insertions, its lowest flag. Rings: at most \<open>2 ^ 31\<close> cells, and cells and steps
    together below \<open>2 ^ 32\<close>, the range of tickets. Threads: fewer than \<open>2 ^ 64\<close> on a duncecap, the size of the reader count; at most \<open>HATRACK_THREADS_MAX\<close> on a
    stack, with fewer than \<open>2 ^ 64 - 2\<close> steps, so that the epoch does not wrap; on a lock-free table likewise, in runs in which no store has
    more than \<open>2 ^ 58\<close> buckets and the epoch does not wrap. No fuel is used: loops that may not end
    are \<open>partial_function (option)\<close>, and that they return is proved.

  \<^bold>\<open>Not modelled.\<close> The hash tables newshat, ballcap, oldhat, lohat, woolhat, tophat, crown and tiara, the dictionaries and sets above them,
  the stack in an array, hq, capq and logring, and the arrays: newshat and ballcap would be further simulations of refhat, the others further
  uses of \<open>reclaimer\<close> and \<open>Bucket_Store\<close>. Interleaved threads of swimcap and of the segment queue, and what interleaved threads of a lock-free table
  return: its items are followed for one thread only, and single races are lemmas. Weak memory: all interleavings are sequentially
  consistent, and the 128-bit store of a hash value is one step. The pthread key that finds a thread's record, allocation hooks,
  counters and the benchmark harness are left out as glue. xxhash, md4c and the headers under
  \<^verbatim>\<open>include/vendor\<close> are third-party, \<^verbatim>\<open>color_gen.h\<close> is generated. The compiler, runtime, text and io layers are
  \<^verbatim>\<open>.nc\<close> files, in the dialect that ncpp and the runtime define, not C.
\<close>

end
